(* ===== verification/VP_Prelude.thy ===== *)
theory VP_Prelude
  imports Main "HOL-Library.Word" "HOL-Library.Code_Target_Nat"
begin

section \<open>Prelude: machine types, byte memory, shared automation\<close>

text \<open>
  The machine types of the C++ sources (unsigned and signed integers are both \<open>word\<close>s of
  their width; signed ones are read with \<open>sint\<close>), a byte memory addressed by \<open>nat\<close>, and
  the generic lemmas the components share.

  A pointer into a buffer is an index of a byte list; \<open>mem_range m a b\<close> is the contents
  of the half-open C range \<open>[a, b)\<close>.
\<close>

unbundle bit_operations_syntax

type_synonym u8 = "8 word"
type_synonym u16 = "16 word"
type_synonym u32 = "32 word"
type_synonym u64 = "64 word"
type_synonym i32 = "32 word"
type_synonym i64 = "64 word"
type_synonym memory = "u8 list"

named_theorems wire_simps \<open>lengths and values of the wire encodings\<close>
named_theorems mem_simps \<open>reading ranges of a byte memory\<close>

definition mem_range :: "memory \<Rightarrow> nat \<Rightarrow> nat \<Rightarrow> u8 list" where
  "mem_range m a b = take (b - a) (drop a m)"

lemma mem_range_empty [simp]: "b \<le> a \<Longrightarrow> mem_range m a b = []"
  by (simp add: mem_range_def)

lemma length_mem_range [mem_simps]:
  "b \<le> length m \<Longrightarrow> length (mem_range m a b) = b - a"
  by (simp add: mem_range_def)

lemma mem_range_whole [simp]: "mem_range m 0 (length m) = m"
  by (simp add: mem_range_def)

lemma nth_mem_range [mem_simps]:
  "b \<le> length m \<Longrightarrow> i < b - a \<Longrightarrow> mem_range m a b ! i = m ! (a + i)"
  by (simp add: mem_range_def)

lemma mem_range_Cons [mem_simps]:
  "a < b \<Longrightarrow> b \<le> length m \<Longrightarrow> mem_range m a b = m ! a # mem_range m (Suc a) b"
  by (simp add: mem_range_def Cons_nth_drop_Suc [symmetric] Suc_diff_Suc [symmetric]
      del: Cons_nth_drop_Suc)

lemma mem_range_append:
  "a \<le> b \<Longrightarrow> b \<le> c \<Longrightarrow> mem_range m a c = mem_range m a b @ mem_range m b c"
proof -
  assume "a \<le> b" "b \<le> c"
  then have "c - a = (b - a) + (c - b)" and "drop b m = drop (b - a) (drop a m)"
    by simp_all
  then show ?thesis by (simp only: mem_range_def take_add)
qed

lemma mem_range_split_nonempty:
  assumes "mem_range m a b = x # xs" and "b \<le> length m"
  shows "a < b \<and> m ! a = x \<and> mem_range m (Suc a) b = xs"
proof -
  have "a < b" using assms by (cases "a < b") auto
  with assms show ?thesis by (simp add: mem_range_Cons)
qed

lemma mem_range_suffix:
  assumes "mem_range m a b = xs @ ys" and "b \<le> length m"
  shows "a + length xs \<le> max a b \<and> mem_range m a (a + length xs) = xs
       \<and> mem_range m (a + length xs) b = ys"
proof (cases "a \<le> b")
  case True
  from arg_cong [OF assms(1), of length] assms(2) True
  have len: "b - a = length xs + length ys" by (simp add: length_mem_range)
  with True have le: "a + length xs \<le> b" by simp
  have "mem_range m a b = mem_range m a (a + length xs) @ mem_range m (a + length xs) b"
    using le by (intro mem_range_append) simp_all
  moreover have "length (mem_range m a (a + length xs)) = length xs"
    using le assms(2) by (simp add: length_mem_range)
  ultimately show ?thesis using assms(1) le by simp
next
  case False
  with assms show ?thesis by simp
qed

lemma mem_range_cong:
  assumes "\<forall>i. a \<le> i \<and> i < b \<longrightarrow> m ! i = m' ! i" and "b \<le> length m" and "b \<le> length m'"
  shows "mem_range m a b = mem_range m' a b"
  using assms by (intro nth_equalityI) (auto simp: length_mem_range nth_mem_range)

subsection \<open>Words\<close>

lemma unat_drop_bit_div: "unat (drop_bit k (v :: 'a::len word)) = unat v div 2 ^ k"
  unfolding unat_drop_bit_eq by (simp only: drop_bit_eq_div)

lemma unat_drop_bit_lt:
  "unat (v :: 'a::len word) < 2 ^ (n + k) \<Longrightarrow> unat (drop_bit k v) < 2 ^ n"
  by (simp only: unat_drop_bit_div power_add less_mult_imp_div_less)

lemma unat_drop_bit_less_self:
  "0 < k \<Longrightarrow> 0 < unat v \<Longrightarrow> unat (drop_bit k (v :: 'a::len word)) < unat v"
  using one_less_power [of "2 :: nat" k]
  by (simp only: unat_drop_bit_div) (rule div_less_dividend, simp_all)

lemma take_bit_word_self:
  "unat (v :: 'a::len word) < 2 ^ n \<Longrightarrow> take_bit n v = v"
  by (simp add: word_unat_eq_iff unsigned_take_bit_eq take_bit_nat_eq_self)

lemma bit_word_bound:
  "unat (v :: 'a::len word) < 2 ^ n \<Longrightarrow> bit v k \<Longrightarrow> k < n"
  by (metis take_bit_word_self bit_take_bit_iff)

lemma unat_of_nat_u64: "x < 2 ^ 64 \<Longrightarrow> unat (word_of_nat x :: u64) = x"
  by (simp add: unat_of_nat)

subsection \<open>\<open>memcpy\<close> of integers (the sources insist on little endian)\<close>

fun load_le :: "u8 list \<Rightarrow> 'a::len word" where
  "load_le [] = 0"
| "load_le (b # bs) = ucast b OR push_bit 8 (load_le bs)"

fun store_le :: "nat \<Rightarrow> 'a::len word \<Rightarrow> u8 list" where
  "store_le 0 v = []"
| "store_le (Suc n) v = ucast v # store_le n (drop_bit 8 v)"

lemma length_store_le [simp]: "length (store_le n v) = n"
  by (induction n arbitrary: v) simp_all

lemma load_store_le:
  fixes v :: "'a::len word"
  assumes "unat v < 2 ^ (8 * n)"
  shows "load_le (store_le n v) = v"
  using assms
proof (induction n arbitrary: v)
  case 0
  then show ?case by (simp add: unat_eq_0)
next
  case (Suc n)
  have "unat (drop_bit 8 v) < 2 ^ (8 * n)"
    using Suc.prems by (intro unat_drop_bit_lt) (simp add: algebra_simps)
  then have "load_le (store_le n (drop_bit 8 v)) = drop_bit 8 v" by (rule Suc.IH)
  moreover have "ucast (ucast v :: u8) OR push_bit 8 (drop_bit 8 v) = v"
  proof (rule bit_eqI)
    fix k assume "possible_bit TYPE('a word) k"
    then show "bit (ucast (ucast v :: u8) OR push_bit 8 (drop_bit 8 v)) k = bit v k"
      by (cases "k < 8") (simp_all add: bit_simps)
  qed
  ultimately show ?case by simp
qed

end
