(* ===== verification/Proto_Utils.thy ===== *)
theory Proto_Utils
  imports VP_Prelude
begin

section \<open>Wire format primitives (protozero/proto_utils.h)\<close>

text \<open>
  The wire types, the field tags, ZigZag and the variable-length integers of
  \<^verbatim>\<open>perfetto-min/include/perfetto/protozero/proto_utils.h\<close>. An encoder that writes through
  \<^verbatim>\<open>uint8_t* target\<close> is the list of bytes it writes (the returned pointer is \<open>target\<close> plus the
  length); a decoder reads a byte memory through indexes and returns the next pointer and
  the value it stores, as the code does.
\<close>

datatype ProtoWireType = kVarInt | kFixed64 | kLengthDelimited | kFixed32

fun wire_code :: "ProtoWireType \<Rightarrow> u32" where
  "wire_code kVarInt = 0"
| "wire_code kFixed64 = 1"
| "wire_code kLengthDelimited = 2"
| "wire_code kFixed32 = 5"

definition kMessageLengthFieldSize :: nat where
  "kMessageLengthFieldSize = 4"

definition kMaxMessageLength :: nat where
  "kMaxMessageLength = 2 ^ (kMessageLengthFieldSize * 7) - 1"

definition kMaxTagEncodedSize :: nat where
  "kMaxTagEncodedSize = 5"

definition kMaxSimpleFieldEncodedSize :: nat where
  "kMaxSimpleFieldEncodedSize = kMaxTagEncodedSize + 10"

definition MakeTagVarInt :: "u32 \<Rightarrow> u32" where
  "MakeTagVarInt field_id = push_bit 3 field_id OR wire_code kVarInt"

text \<open>The template's \<open>sizeof(T)\<close> is the argument: 4 or 8 bytes.\<close>

definition MakeTagFixed :: "nat \<Rightarrow> u32 \<Rightarrow> u32" where
  "MakeTagFixed sizeof_T field_id =
     push_bit 3 field_id OR (if sizeof_T = 8 then wire_code kFixed64 else wire_code kFixed32)"

definition MakeTagLengthDelimited :: "u32 \<Rightarrow> u32" where
  "MakeTagLengthDelimited field_id = push_bit 3 field_id OR wire_code kLengthDelimited"

text \<open>ZigZag on a signed type of the word's width; \<open>signed_drop_bit\<close> is the arithmetic shift
  whose behaviour the static assertions of the source require.\<close>

definition ZigZagEncode :: "'a::len word \<Rightarrow> 'a word" where
  "ZigZagEncode value = push_bit 1 value XOR signed_drop_bit (LENGTH('a) - 1) value"

definition ZigZagDecode :: "'a::len word \<Rightarrow> 'a word" where
  "ZigZagDecode u_value = drop_bit 1 u_value XOR - (u_value AND 1)"

text \<open>
  \<open>WriteVarInt\<close> on an unsigned type runs at that type's width; a signed type is first sign
  extended to 64 bits.
\<close>

function WriteVarInt :: "'a::len word \<Rightarrow> u8 list" where
  "WriteVarInt unsigned_value =
     (if 0x80 \<le> unat unsigned_value
      then (ucast unsigned_value OR 0x80) # WriteVarInt (drop_bit 7 unsigned_value)
      else [ucast unsigned_value])"
  by pat_completeness auto
termination
  by (relation "measure unat") (auto intro: unat_drop_bit_less_self)

declare WriteVarInt.simps [simp del]

definition WriteVarIntSigned :: "'a::len word \<Rightarrow> u8 list" where
  "WriteVarIntSigned value = WriteVarInt (scast value :: u64)"

fun WriteRedundantVarInt_loop :: "nat \<Rightarrow> nat \<Rightarrow> u32 \<Rightarrow> u8 list" where
  "WriteRedundantVarInt_loop 0 i value = []"
| "WriteRedundantVarInt_loop (Suc n) i value =
     (let msb = (if i < kMessageLengthFieldSize - 1 then 0x80 else 0) in
      (ucast value OR msb) # WriteRedundantVarInt_loop n (Suc i) (drop_bit 7 value))"

definition WriteRedundantVarInt :: "u32 \<Rightarrow> u8 list" where
  "WriteRedundantVarInt value = WriteRedundantVarInt_loop kMessageLengthFieldSize 0 value"

text \<open>
  \<open>ParseVarInt mem start end\<close> returns the next pointer (\<open>start\<close> when the number is not
  complete) and the value stored through \<open>out_value\<close>.
\<close>

function ParseVarInt_loop :: "memory \<Rightarrow> nat \<Rightarrow> nat \<Rightarrow> nat \<Rightarrow> u64 \<Rightarrow> (nat \<times> u64) option" where
  "ParseVarInt_loop mem fin pos shift value =
     (if pos < fin \<and> shift < 64 then
        (let cur_byte = mem ! pos;
             value' = value OR push_bit shift (ucast (cur_byte AND 0x7f))
         in if cur_byte AND 0x80 = 0 then Some (Suc pos, value')
            else ParseVarInt_loop mem fin (Suc pos) (shift + 7) value')
      else None)"
  by pat_completeness auto
termination
  by (relation "measure (\<lambda>(mem, fin, pos, shift, value). fin - pos)") auto

declare ParseVarInt_loop.simps [simp del]

definition ParseVarInt :: "memory \<Rightarrow> nat \<Rightarrow> nat \<Rightarrow> nat \<times> u64" where
  "ParseVarInt mem start fin =
     (case ParseVarInt_loop mem fin start 0 0 of Some r \<Rightarrow> r | None \<Rightarrow> (start, 0))"

subsection \<open>Bits of one encoded byte\<close>

lemma seven_f_mask: "(0x7f :: u8) = mask 7" "(0x7f :: u64) = mask 7"
  by (simp_all add: mask_eq_exp_minus_1)

lemma bit_eighty: "bit (0x80 :: u8) n \<longleftrightarrow> n = 7" "bit (0x80 :: u64) n \<longleftrightarrow> n = 7"
proof -
  have "(0x80 :: u8) = 2 ^ 7" "(0x80 :: u64) = 2 ^ 7" by simp_all
  then show "bit (0x80 :: u8) n \<longleftrightarrow> n = 7" "bit (0x80 :: u64) n \<longleftrightarrow> n = 7"
    by (simp_all only: bit_exp_iff) auto
qed

lemmas byte_bits = bit_unsigned_iff bit_and_iff bit_or_iff bit_mask_iff bit_eighty bit_0_eq
  possible_bit_word

lemma continuation_byte:
  fixes v :: u64
  shows "(ucast v OR 0x80 :: u8) AND 0x80 \<noteq> 0"
    and "ucast ((ucast v OR 0x80 :: u8) AND 0x7f) = v AND mask 7"
proof -
  have "bit ((ucast v OR 0x80 :: u8) AND 0x80) 7"
    by (simp add: bit_and_iff bit_or_iff bit_eighty)
  then show "(ucast v OR 0x80 :: u8) AND 0x80 \<noteq> 0" by auto
  show "ucast ((ucast v OR 0x80 :: u8) AND 0x7f) = v AND mask 7"
    unfolding seven_f_mask
    by (rule bit_eqI) (simp only: byte_bits, auto)
qed

lemma last_byte:
  fixes v :: u64
  assumes "unat v < 0x80"
  shows "(ucast v :: u8) AND 0x80 = 0" and "ucast ((ucast v :: u8) AND 0x7f) = v"
proof -
  have "unat (take_bit 7 v) = unat v"
    using assms by (simp add: unsigned_take_bit_eq take_bit_nat_eq_self)
  then have m: "v AND mask 7 = v" by (simp only: take_bit_eq_mask word_unat_eq_iff)
  then have b: "\<not> bit v 7"
    by (metis bit_and_iff bit_mask_iff less_irrefl)
  show "(ucast v :: u8) AND 0x80 = 0"
    using b by (intro bit_eqI) (simp only: byte_bits, auto)
  have "ucast ((ucast v :: u8) AND mask 7) = v AND mask 7"
    by (rule bit_eqI) (auto simp add: bit_simps)
  then show "ucast ((ucast v :: u8) AND 0x7f) = v"
    unfolding seven_f_mask by (simp add: m)
qed

lemma push_bit_split7:
  fixes v :: u64
  shows "push_bit s (v AND mask 7) OR push_bit (s + 7) (drop_bit 7 v) = push_bit s v"
proof (rule bit_eqI)
  fix n
  show "bit (push_bit s (v AND mask 7) OR push_bit (s + 7) (drop_bit 7 v)) n = bit (push_bit s v) n"
    by (cases "n < s + 7") (auto simp add: bit_simps)
qed

lemma WriteVarInt_nonempty [simp]: "WriteVarInt v \<noteq> []"
  by (subst WriteVarInt.simps) simp

lemma length_WriteVarInt_le:
  "unat v < 2 ^ (7 * n) \<Longrightarrow> 0 < n \<Longrightarrow> length (WriteVarInt v) \<le> n"
proof (induction v arbitrary: n rule: WriteVarInt.induct)
  case (1 v)
  show ?case
  proof (cases "0x80 \<le> unat v")
    case True
    with "1.prems" have "n \<noteq> 0 \<and> n \<noteq> 1" by auto
    then obtain m where n: "n = Suc m" and m: "0 < m" by (cases n) auto
    have "unat (drop_bit 7 v) < 2 ^ (7 * m)"
      using "1.prems" n by (intro unat_drop_bit_lt) (simp add: algebra_simps)
    with "1.IH" True m have "length (WriteVarInt (drop_bit 7 v)) \<le> m" by blast
    with True n show ?thesis by (subst WriteVarInt.simps) simp
  next
    case False
    with "1.prems" show ?thesis by (subst WriteVarInt.simps) simp
  qed
qed

lemma ParseVarInt_loop_WriteVarInt:
  fixes v :: u64
  assumes "mem_range mem pos fin = WriteVarInt v @ rest" and "fin \<le> length mem"
    and "shift < 64" and "unat v < 2 ^ (64 - shift)"
  shows "ParseVarInt_loop mem fin pos shift value =
           Some (pos + length (WriteVarInt v), value OR push_bit shift v)"
  using assms
proof (induction v arbitrary: pos shift "value" rule: WriteVarInt.induct)
  case (1 v)
  show ?case
  proof (cases "0x80 \<le> unat v")
    case False
    then have w: "WriteVarInt v = [ucast v]" by (subst WriteVarInt.simps) simp
    with "1.prems" have "pos < fin \<and> mem ! pos = ucast v"
      using mem_range_split_nonempty by fastforce
    with False "1.prems"(3) w show ?thesis
      by (subst ParseVarInt_loop.simps) (simp add: last_byte Let_def)
  next
    case True
    then have w: "WriteVarInt v = (ucast v OR 0x80) # WriteVarInt (drop_bit 7 v)"
      by (subst WriteVarInt.simps) simp
    with "1.prems" have r: "pos < fin \<and> mem ! pos = ucast v OR 0x80"
      "mem_range mem (Suc pos) fin = WriteVarInt (drop_bit 7 v) @ rest"
      using mem_range_split_nonempty by fastforce+
    have "\<not> 64 - shift \<le> 7"
    proof
      assume "64 - shift \<le> 7"
      then have "(2::nat) ^ (64 - shift) \<le> 2 ^ 7" by (intro power_increasing) auto
      with "1.prems"(4) True show False by simp
    qed
    then have s: "shift + 7 < 64" by simp
    then have eq: "64 - (shift + 7) + 7 = 64 - shift" by simp
    have "unat (drop_bit 7 v) < 2 ^ (64 - (shift + 7))"
      using "1.prems"(4) by (intro unat_drop_bit_lt) (simp only: eq)
    note IH = "1.IH" [OF True r(2) "1.prems"(2) s this]
    have "ParseVarInt_loop mem fin pos shift value =
            ParseVarInt_loop mem fin (Suc pos) (shift + 7) (value OR push_bit shift (v AND mask 7))"
      using r(1) "1.prems"(3)
      by (subst ParseVarInt_loop.simps) (simp only: continuation_byte Let_def simp_thms if_True if_False)
    also have "\<dots> = Some (Suc pos + length (WriteVarInt (drop_bit 7 v)),
        value OR push_bit shift v)"
      by (simp only: IH or.assoc push_bit_split7)
    finally show ?thesis by (simp only: w list.size(4) add_Suc_right add_0_right add_Suc)
  qed
qed

lemma ParseVarInt_WriteVarInt:
  fixes v :: u64
  assumes "mem_range mem pos fin = WriteVarInt v @ rest" and "fin \<le> length mem"
  shows "ParseVarInt mem pos fin = (pos + length (WriteVarInt v), v)"
proof -
  have "unat v < 2 ^ (64 - 0)" using unsigned_less [of v, where ?'a = nat] by simp
  from ParseVarInt_loop_WriteVarInt [OF assms _ this, of 0] show ?thesis
    by (simp add: ParseVarInt_def)
qed

lemma ParseVarInt_loop_cong:
  "\<forall>i. pos \<le> i \<and> i < fin \<longrightarrow> mem ! i = mem' ! i \<Longrightarrow>
     ParseVarInt_loop mem fin pos shift acc = ParseVarInt_loop mem' fin pos shift acc"
proof (induction mem fin pos shift acc rule: ParseVarInt_loop.induct)
  case (1 mem fin pos shift acc)
  then show ?case
    by (subst (1 2) ParseVarInt_loop.simps) (auto simp: Let_def)
qed

lemma ParseVarInt_loop_bounds:
  "ParseVarInt_loop mem fin pos shift value = Some (nxt, v) \<Longrightarrow>
     pos < nxt \<and> nxt \<le> fin \<and> 7 * (nxt - pos) \<le> (64 - shift) + 6"
proof (induction mem fin pos shift "value" rule: ParseVarInt_loop.induct)
  case (1 mem fin pos shift acc)
  from "1.prems" have g: "pos < fin \<and> shift < 64"
    by (subst (asm) ParseVarInt_loop.simps) (simp split: if_splits)
  show ?case
  proof (cases "mem ! pos AND 0x80 = 0")
    case True
    with "1.prems" g show ?thesis
      by (subst (asm) ParseVarInt_loop.simps) (auto simp: Let_def)
  next
    case False
    with "1.prems" g have "ParseVarInt_loop mem fin (Suc pos) (shift + 7)
        (acc OR push_bit shift (ucast (mem ! pos AND 0x7f))) = Some (nxt, v)"
      by (subst (asm) ParseVarInt_loop.simps) (simp add: Let_def)
    from "1.IH" [OF g refl refl False this] show ?thesis
      using g by auto
  qed
qed

lemma ParseVarInt_loop_more:
  fixes x :: u64
  assumes "pos < fin" and "shift < 64" and "mem ! pos = ucast x OR 0x80"
  shows "ParseVarInt_loop mem fin pos shift val =
           ParseVarInt_loop mem fin (Suc pos) (shift + 7) (val OR push_bit shift (x AND mask 7))"
  using assms
  by (subst ParseVarInt_loop.simps) (simp only: continuation_byte Let_def simp_thms if_True if_False)

lemma ParseVarInt_loop_last:
  fixes x :: u64
  assumes "pos < fin" and "shift < 64" and "mem ! pos = ucast x" and "unat x < 0x80"
  shows "ParseVarInt_loop mem fin pos shift val = Some (Suc pos, val OR push_bit shift x)"
  using assms by (subst ParseVarInt_loop.simps) (simp add: last_byte Let_def)

lemma ucast_drop_bit_u32: "ucast (drop_bit n (v :: u32)) = drop_bit n (ucast v :: u64)"
  by (rule bit_eqI) (auto simp add: bit_simps dest: bit_imp_le_length)

lemma ucast_u8_via_u64: "(ucast (v :: u32) :: u8) = ucast (ucast v :: u64)"
  by (rule bit_eqI) (auto simp add: bit_simps)

lemma unat_ucast_u32: "unat (ucast (v :: u32) :: u64) = unat v"
  using unsigned_less [of v, where ?'a = nat]
  by (simp only: unsigned_ucast_eq) (rule take_bit_nat_eq_self, simp)

lemma WriteVarInt_u32: "WriteVarInt (v :: u32) = WriteVarInt (ucast v :: u64)"
proof (induction v rule: WriteVarInt.induct)
  case (1 v)
  then show ?case
    by (subst (1 2) WriteVarInt.simps) (simp add: ucast_drop_bit_u32 ucast_u8_via_u64 unat_ucast_u32)
qed

lemma length_WriteRedundantVarInt [wire_simps, simp]: "length (WriteRedundantVarInt v) = 4"
  by (simp add: WriteRedundantVarInt_def kMessageLengthFieldSize_def eval_nat_numeral Let_def)

lemma WriteRedundantVarInt_bytes:
  "WriteRedundantVarInt v =
     [ucast (ucast v :: u64) OR 0x80, ucast (drop_bit 7 (ucast v) :: u64) OR 0x80,
      ucast (drop_bit 14 (ucast v) :: u64) OR 0x80, ucast (drop_bit 21 (ucast v) :: u64)]"
  by (simp add: WriteRedundantVarInt_def kMessageLengthFieldSize_def eval_nat_numeral Let_def
      ucast_u8_via_u64 ucast_drop_bit_u32)

lemma push_bit_septets:
  fixes x :: u64
  shows "(((0 OR push_bit 0 (x AND mask 7)) OR push_bit 7 (drop_bit 7 x AND mask 7)) OR
      push_bit 14 (drop_bit 14 x AND mask 7)) OR push_bit 21 (drop_bit 21 x) = x"
proof (rule bit_eqI)
  fix n :: nat
  consider "n < 7" | "7 \<le> n" "n < 14" | "14 \<le> n" "n < 21" | "21 \<le> n" by linarith
  then show "bit ((((0 OR push_bit 0 (x AND mask 7)) OR push_bit 7 (drop_bit 7 x AND mask 7)) OR
      push_bit 14 (drop_bit 14 x AND mask 7)) OR push_bit 21 (drop_bit 21 x)) n = bit x n"
    if "possible_bit TYPE(u64) n"
    using that by cases (auto simp add: bit_simps)
qed

lemma septet_shifts:
  "(0::nat) < 64" "(0::nat) + 7 = 7" "(7::nat) < 64" "(7::nat) + 7 = 14" "(14::nat) < 64"
  "(14::nat) + 7 = 21" "(21::nat) < 64"
  by simp_all

lemma ParseVarInt_WriteRedundantVarInt:
  assumes r: "mem_range mem pos fin = WriteRedundantVarInt v @ rest" and "fin \<le> length mem"
    and v: "unat v < 2 ^ 28"
  shows "ParseVarInt mem pos fin = (pos + 4, ucast v)"
proof -
  let ?x = "ucast v :: u64"
  have m: "pos < fin" "mem ! pos = ucast ?x OR 0x80"
     "Suc pos < fin" "mem ! Suc pos = ucast (drop_bit 7 ?x) OR 0x80"
     "Suc (Suc pos) < fin" "mem ! Suc (Suc pos) = ucast (drop_bit 14 ?x) OR 0x80"
     "Suc (Suc (Suc pos)) < fin" "mem ! Suc (Suc (Suc pos)) = ucast (drop_bit 21 ?x)"
    using r [unfolded WriteRedundantVarInt_bytes append_Cons] \<open>fin \<le> length mem\<close>
    by (meson mem_range_split_nonempty)+
  have "unat ?x < 2 ^ (7 + 21)"
    using v by (simp add: unat_ucast_u32)
  from unat_drop_bit_lt [OF this] have last: "unat (drop_bit 21 ?x) < 0x80" by simp
  have "ParseVarInt_loop mem fin pos 0 0 = Some (pos + 4, ?x)"
    using ParseVarInt_loop_more [OF m(1) _ m(2)] ParseVarInt_loop_more [OF m(3) _ m(4)]
      ParseVarInt_loop_more [OF m(5) _ m(6)] ParseVarInt_loop_last [OF m(7) _ m(8) last]
    by (simp only: push_bit_septets septet_shifts simp_thms) simp
  then show ?thesis by (simp add: ParseVarInt_def)
qed

lemma ZigZagDecode_Encode: "ZigZagDecode (ZigZagEncode v) = (v :: 'a::len word)"
proof (rule bit_eqI)
  fix n
  assume n: "possible_bit TYPE('a word) n"
  let ?s = "bit v (LENGTH('a) - 1)"
  let ?u = "ZigZagEncode v"
  have u: "bit ?u k \<longleftrightarrow> k < LENGTH('a) \<and> ((1 \<le> k \<and> bit v (k - 1)) \<noteq> ?s)" for k
  proof (cases "k < LENGTH('a)")
    case True
    have "bit (push_bit 1 v) k \<longleftrightarrow> 1 \<le> k \<and> bit v (k - 1)"
      using True by (simp only: bit_push_bit_iff possible_bit_word simp_thms)
    moreover have "bit (signed_drop_bit (LENGTH('a) - 1) v) k \<longleftrightarrow> ?s"
      using True by (cases k) (simp_all add: bit_signed_drop_bit_iff)
    ultimately show ?thesis
      using True by (simp only: ZigZagEncode_def bit_xor_iff simp_thms)
  qed (auto dest: bit_imp_le_length)
  have "?u AND 1 = of_bool ?s"
    using u [of 0] by (simp add: and_one_eq mod_2_eq_odd bit_0)
  then have "- (?u AND 1) = (if ?s then - 1 else 0)" by simp
  then show "bit (ZigZagDecode ?u) n = bit v n"
    using n u [of "n + 1"]
    by (cases "n = LENGTH('a) - 1")
      (auto simp add: ZigZagDecode_def bit_simps dest: bit_imp_le_length)
qed

lemma MakeTag_fields:
  fixes f t :: u32
  assumes "unat f < 2 ^ 29" and "unat t < 8"
  defines "tag \<equiv> (ucast (push_bit 3 f OR t) :: u64)"
  shows "drop_bit 3 tag = ucast f" and "tag AND 7 = ucast t"
proof -
  have seven: "(7 :: u64) = mask 3" by (simp add: mask_eq_exp_minus_1)
  have f: "take_bit 29 f = f" and t: "take_bit 3 t = t"
    using assms(1,2) by (simp_all add: word_unat_eq_iff unsigned_take_bit_eq take_bit_nat_eq_self)
  have fb: "bit f n \<Longrightarrow> n < 29" for n using f by (metis bit_take_bit_iff)
  have tb: "bit t n \<Longrightarrow> n < 3" for n using t by (metis bit_take_bit_iff)
  show "drop_bit 3 tag = ucast f"
    unfolding tag_def by (rule bit_eqI) (auto simp add: bit_simps dest: fb tb)
  show "tag AND 7 = ucast t"
    unfolding tag_def seven by (rule bit_eqI) (auto simp add: bit_simps dest: tb)
qed

subsection \<open>Properties\<close>

text \<open>For every 64-bit value, parsing the bytes \<open>WriteVarInt\<close> produced, with any
  bytes before and after them in memory, returns the pointer just past them and the value; the
  encoding is between one and ten bytes long.\<close>
theorem varint_roundtrip:
  "ParseVarInt (pre @ WriteVarInt (v :: u64) @ rest) (length pre)
       (length (pre @ WriteVarInt v @ rest)) = (length pre + length (WriteVarInt v), v)
   \<and> 1 \<le> length (WriteVarInt v) \<and> length (WriteVarInt v) \<le> 10"
proof -
  have "unat v < 2 ^ (7 * 10)" using unsigned_less [of v, where ?'a = nat] by simp
  then have "length (WriteVarInt v) \<le> 10" by (rule length_WriteVarInt_le) simp
  moreover have "1 \<le> length (WriteVarInt v)"
    using WriteVarInt_nonempty [of v] by (cases "WriteVarInt v") simp_all
  ultimately show ?thesis
    by (simp add: ParseVarInt_WriteVarInt [where rest = rest] mem_range_def)
qed

text \<open>A length below \<open>2 ^ 28\<close> that was backfilled with
  \<open>WriteRedundantVarInt\<close> always takes four bytes and is read back by \<open>ParseVarInt\<close>.\<close>
theorem redundant_varint_roundtrip:
  assumes "unat v \<le> kMaxMessageLength"
  shows "ParseVarInt (pre @ WriteRedundantVarInt v @ rest) (length pre)
           (length (pre @ WriteRedundantVarInt v @ rest)) = (length pre + 4, ucast v)"
proof -
  have "unat v < 2 ^ 28"
    using assms by (simp add: kMaxMessageLength_def kMessageLengthFieldSize_def)
  then show ?thesis
    by (intro ParseVarInt_WriteRedundantVarInt [where rest = rest]) (simp_all add: mem_range_def)
qed

theorem redundant_varint_roundtrip_witness:
  "ParseVarInt ([7] @ WriteRedundantVarInt 300 @ [9]) 1 6 = (5, 300)"
  using redundant_varint_roundtrip [of 300 "[7]" "[9]"]
  by (simp add: kMaxMessageLength_def kMessageLengthFieldSize_def)

text \<open>\<open>ParseVarInt\<close> never reads or returns a pointer outside
  \<open>[start, end)\<close>, consumes at most ten bytes, reports failure as the start pointer with value 0,
  and its result depends on the bytes of the range only.\<close>
theorem parse_varint_safe:
  assumes "start \<le> fin"
  shows "start \<le> fst (ParseVarInt mem start fin) \<and> fst (ParseVarInt mem start fin) \<le> fin
    \<and> fst (ParseVarInt mem start fin) \<le> start + 10
    \<and> (fst (ParseVarInt mem start fin) = start \<longrightarrow> snd (ParseVarInt mem start fin) = 0)
    \<and> ((\<forall>i. start \<le> i \<and> i < fin \<longrightarrow> mem ! i = mem' ! i) \<longrightarrow>
         ParseVarInt mem' start fin = ParseVarInt mem start fin)"
proof -
  have "ParseVarInt mem' start fin = ParseVarInt mem start fin"
    if "\<forall>i. start \<le> i \<and> i < fin \<longrightarrow> mem ! i = mem' ! i"
    using that by (simp add: ParseVarInt_def ParseVarInt_loop_cong [of start fin mem mem'])
  moreover have "start \<le> nxt \<and> nxt \<le> fin \<and> nxt \<le> start + 10 \<and> (nxt = start \<longrightarrow> v = 0)"
    if "ParseVarInt mem start fin = (nxt, v)" for nxt v
    using that assms
    by (auto simp: ParseVarInt_def split: option.splits dest: ParseVarInt_loop_bounds)
  ultimately show ?thesis by (cases "ParseVarInt mem start fin") auto
qed

theorem parse_varint_safe_witness:
  "fst (ParseVarInt [0x96, 0x01] 0 2) \<le> 2 \<and> ParseVarInt [0x96, 0x01, 5] 0 2 = ParseVarInt [0x96, 0x01] 0 2"
  using parse_varint_safe [of 0 2 "[0x96, 0x01]" "[0x96, 0x01, 5]"]
  by (simp add: less_Suc_eq eval_nat_numeral all_conj_distrib)

text \<open>ZigZag decoding inverts ZigZag encoding at every width.\<close>
theorem zigzag_roundtrip:
  "ZigZagDecode (ZigZagEncode (v :: 'a::len word)) = v"
  by (rule ZigZagDecode_Encode)

end
