(* ===== verification/Proto_Field.thy ===== *)
theory Proto_Field
  imports Proto_Utils
begin

section \<open>Decoded fields (protozero/field.h, field.cc)\<close>

text \<open>
  A \<open>Field\<close> is the 16-byte struct the decoder hands out. For a length-delimited field
  \<open>f_int_value\<close> is the address of the payload, here an index of the memory that is decoded.
  \<open>SerializeAndAppendTo\<close> writes the field back; \<open>None\<close> is \<^verbatim>\<open>PERFETTO_FATAL\<close>.
\<close>

record Field =
  f_int_value :: u64
  f_size :: u32
  f_id :: u16
  f_type :: u8

definition zero_field :: Field where
  "zero_field = \<lparr>f_int_value = 0, f_size = 0, f_id = 0, f_type = 0\<rparr>"

definition field_initialize :: "u16 \<Rightarrow> u8 \<Rightarrow> u64 \<Rightarrow> u32 \<Rightarrow> Field" where
  "field_initialize fid ftype int_value sz =
     \<lparr>f_int_value = int_value, f_size = sz, f_id = fid, f_type = ftype\<rparr>"

definition f_valid :: "Field \<Rightarrow> bool" where
  "f_valid f \<longleftrightarrow> f_id f \<noteq> 0"

definition as_bool :: "Field \<Rightarrow> bool" where
  "as_bool f \<longleftrightarrow> f_int_value f \<noteq> 0"

definition as_uint32 :: "Field \<Rightarrow> u32" where
  "as_uint32 f = ucast (f_int_value f)"

definition as_int32 :: "Field \<Rightarrow> i32" where
  "as_int32 f = ucast (f_int_value f)"

definition as_sint32 :: "Field \<Rightarrow> i32" where
  "as_sint32 f = ZigZagDecode (ucast (f_int_value f))"

definition as_uint64 :: "Field \<Rightarrow> u64" where
  "as_uint64 f = f_int_value f"

definition as_int64 :: "Field \<Rightarrow> i64" where
  "as_int64 f = f_int_value f"

definition as_sint64 :: "Field \<Rightarrow> i64" where
  "as_sint64 f = ZigZagDecode (f_int_value f)"

text \<open>A floating point number is the bit pattern that \<^verbatim>\<open>memcpy\<close> puts into it.\<close>

definition as_float :: "Field \<Rightarrow> u32" where
  "as_float f = ucast (f_int_value f)"

definition as_double :: "Field \<Rightarrow> u64" where
  "as_double f = f_int_value f"

text \<open>\<open>data()\<close> is an address, \<open>as_bytes\<close> the bytes that a copy of the range reads.\<close>

definition field_data :: "Field \<Rightarrow> nat" where
  "field_data f = unat (f_int_value f)"

definition as_bytes :: "memory \<Rightarrow> Field \<Rightarrow> u8 list" where
  "as_bytes mem f = mem_range mem (field_data f) (field_data f + unat (f_size f))"

definition field_size :: "Field \<Rightarrow> nat" where
  "field_size f = unat (f_size f)"

text \<open>A string is its address and length.\<close>

definition as_string :: "Field \<Rightarrow> nat \<times> nat" where
  "as_string f = (field_data f, field_size f)"

definition as_std_string :: "memory \<Rightarrow> Field \<Rightarrow> u8 list" where
  "as_std_string mem f = (let (d, n) = as_string f in mem_range mem d (d + n))"

definition raw_int_value :: "Field \<Rightarrow> u64" where
  "raw_int_value f = f_int_value f"

text \<open>\<open>None\<close> for a type code that is none of the four the parser accepts.\<close>

definition Field_type :: "Field \<Rightarrow> ProtoWireType option" where
  "Field_type f = List.find (\<lambda>t. f_type f = ucast (wire_code t)) [kVarInt, kFixed64, kLengthDelimited, kFixed32]"

definition SerializeAndAppendTo :: "memory \<Rightarrow> Field \<Rightarrow> u8 list \<Rightarrow> u8 list option" where
  "SerializeAndAppendTo mem f dst =
     (if f_type f = ucast (wire_code kVarInt) then
        Some (dst @ WriteVarInt (MakeTagVarInt (ucast (f_id f))) @ WriteVarInt (f_int_value f))
      else if f_type f = ucast (wire_code kFixed32) then
        Some (dst @ WriteVarInt (MakeTagFixed 4 (ucast (f_id f)))
                  @ store_le 4 (ucast (f_int_value f) :: u32))
      else if f_type f = ucast (wire_code kFixed64) then
        Some (dst @ WriteVarInt (MakeTagFixed 8 (ucast (f_id f))) @ store_le 8 (f_int_value f))
      else if f_type f = ucast (wire_code kLengthDelimited) then
        Some (dst @ WriteVarInt (MakeTagLengthDelimited (ucast (f_id f)))
                  @ WriteVarInt (ucast (f_size f) :: u64) @ as_bytes mem f)
      else None)"

lemma f_valid_zero [simp]: "\<not> f_valid zero_field"
  by (simp add: f_valid_def zero_field_def)

lemma f_valid_initialize [simp]: "f_valid (field_initialize i t v s) \<longleftrightarrow> i \<noteq> 0"
  by (simp add: f_valid_def field_initialize_def)

end
