(* ===== verification/Proto_Decoder.thy ===== *)
theory Proto_Decoder
  imports Proto_Field
begin

section \<open>The generic decoder (protozero/proto_decoder.h, proto_decoder.cc)\<close>

text \<open>
  \<open>ParseOneField\<close> tokenises one field at an address of the memory, \<open>ReadField\<close> loops over skipped
  fields and \<open>FindField\<close> searches from the start of the buffer. Addresses are memory indexes;
  every early \<^verbatim>\<open>return res\<close> of the source is the value \<open>abort\<close>.
\<close>

datatype ParseResult = kAbort | kSkip | kOk

record ParseFieldResult =
  parse_res :: ParseResult
  r_next :: nat
  r_field :: Field

text \<open>The \<open>switch (field_type)\<close>: new position, \<open>int_value\<close> and \<open>size\<close>, \<open>None\<close> for a return.\<close>

definition ParseFieldPayload :: "memory \<Rightarrow> nat \<Rightarrow> nat \<Rightarrow> u8 \<Rightarrow> (nat \<times> u64 \<times> u64) option" where
  "ParseFieldPayload mem pos fin field_type =
     (if field_type = ucast (wire_code kVarInt) then
        (let (new_pos, int_value) = ParseVarInt mem pos fin in
         if new_pos = pos then None else Some (new_pos, int_value, 0))
      else if field_type = ucast (wire_code kLengthDelimited) then
        (let (new_pos, payload_length) = ParseVarInt mem pos fin in
         if new_pos = pos then None
         else if unat payload_length > fin - new_pos then None
         else Some (new_pos + unat payload_length, word_of_nat new_pos, payload_length))
      else if field_type = ucast (wire_code kFixed64) then
        (let new_pos = pos + 8 in
         if new_pos > fin then None else Some (new_pos, load_le (mem_range mem pos (pos + 8)), 0))
      else if field_type = ucast (wire_code kFixed32) then
        (let new_pos = pos + 4 in
         if new_pos > fin then None else Some (new_pos, load_le (mem_range mem pos (pos + 4)), 0))
      else None)"

definition ParseOneField :: "memory \<Rightarrow> nat \<Rightarrow> nat \<Rightarrow> ParseFieldResult" where
  "ParseOneField mem buffer fin =
     (let abort = \<lparr>parse_res = kAbort, r_next = buffer, r_field = zero_field\<rparr> in
      if buffer \<ge> fin then abort
      else
        (let (pos, preamble) =
               (if unat (mem ! buffer) < 0x80 then (Suc buffer, ucast (mem ! buffer))
                else ParseVarInt mem buffer fin)
         in if pos = buffer then abort
            else
              (let field_id = (ucast (drop_bit 3 preamble) :: u32) in
               if field_id = 0 \<or> pos \<ge> fin then abort
               else
                 (let field_type = (ucast (preamble AND 7) :: u8) in
                  case ParseFieldPayload mem pos fin field_type of
                    None \<Rightarrow> abort
                  | Some (new_pos, int_value, sz) \<Rightarrow>
                      if unat field_id > 0xFFFF
                      then \<lparr>parse_res = kSkip, r_next = new_pos, r_field = zero_field\<rparr>
                      else if unat sz > kMaxMessageLength
                      then \<lparr>parse_res = kSkip, r_next = new_pos, r_field = zero_field\<rparr>
                      else \<lparr>parse_res = kOk, r_next = new_pos,
                             r_field = field_initialize (ucast field_id) field_type
                                         int_value (ucast sz)\<rparr>))))"


subsection \<open>One field: bounds and progress\<close>

lemma ParseFieldPayload_bounds:
  assumes "ParseFieldPayload mem pos fin t = Some (np, iv, sz)" and "pos < fin"
  shows "pos < np \<and> np \<le> fin \<and>
    (t = ucast (wire_code kLengthDelimited) \<longrightarrow>
       (\<exists>start. pos < start \<and> iv = word_of_nat start \<and> start + unat sz = np)) \<and>
    (t \<noteq> ucast (wire_code kLengthDelimited) \<longrightarrow> sz = 0)"
proof -
  obtain np' v where pv: "ParseVarInt mem pos fin = (np', v)" by fastforce
  have b: "pos \<le> np' \<and> np' \<le> fin"
    using pv assms(2) by (auto simp: ParseVarInt_def split: option.splits dest: ParseVarInt_loop_bounds)
  show ?thesis
    using assms b by (auto simp: ParseFieldPayload_def pv Let_def split: if_splits)
qed

lemma ParseOneField_cases:
  assumes "ParseOneField mem buffer fin = res"
  obtains (abort) "parse_res res = kAbort" "r_next res = buffer" "r_field res = zero_field"
  | (field) pos preamble np iv sz where
      "buffer < pos" "pos < fin" "ParseFieldPayload mem pos fin (ucast ((preamble :: u64) AND 7)) = Some (np, iv, sz)"
      "r_next res = np"
      "parse_res res = kSkip \<and> r_field res = zero_field \<or>
       parse_res res = kOk \<and> unat sz \<le> kMaxMessageLength \<and> (ucast (drop_bit 3 preamble) :: u32) \<noteq> 0 \<and>
       unat (ucast (drop_bit 3 preamble) :: u32) \<le> 0xFFFF \<and>
       r_field res = field_initialize (ucast (ucast (drop_bit 3 preamble) :: u32))
                       (ucast (preamble AND 7)) iv (ucast sz)"
proof -
  obtain pos preamble where pre: "(if unat (mem ! buffer) < 0x80 then (Suc buffer, ucast (mem ! buffer))
                else ParseVarInt mem buffer fin) = (pos, preamble)" by fastforce
  show thesis
  proof (cases "parse_res res = kAbort")
    case True
    with assms have "r_next res = buffer" "r_field res = zero_field"
      by (auto simp: ParseOneField_def Let_def split: if_splits prod.splits option.splits)
    with True that(1) show ?thesis by blast
  next
    case False
    with assms pre obtain np iv sz where
      f: "buffer < fin" "pos \<noteq> buffer" "pos < fin" "(ucast (drop_bit 3 preamble) :: u32) \<noteq> 0"
         "ParseFieldPayload mem pos fin (ucast (preamble AND 7)) = Some (np, iv, sz)" "r_next res = np"
         "parse_res res = kSkip \<and> r_field res = zero_field \<or>
       parse_res res = kOk \<and> unat sz \<le> kMaxMessageLength \<and>
       unat (ucast (drop_bit 3 preamble) :: u32) \<le> 0xFFFF \<and>
       r_field res = field_initialize (ucast (ucast (drop_bit 3 preamble) :: u32))
                       (ucast (preamble AND 7)) iv (ucast sz)"
      unfolding ParseOneField_def Let_def pre
      by (auto split: if_splits option.splits prod.splits simp del: unat_ucast_u32)
    from pre f(1,2) have "buffer < pos"
      by (auto simp: ParseVarInt_def split: if_splits option.splits dest: ParseVarInt_loop_bounds)
    then show ?thesis using f(3-7) by (intro that(2) [of pos preamble]) auto
  qed
qed

lemma ParseOneField_abort: "parse_res (ParseOneField mem b fin) = kAbort \<Longrightarrow>
    r_next (ParseOneField mem b fin) = b \<and> r_field (ParseOneField mem b fin) = zero_field"
  by (rule ParseOneField_cases [OF refl, of mem b fin]) auto

lemma ParseOneField_progress: "parse_res (ParseOneField mem b fin) \<noteq> kAbort \<Longrightarrow>
    b < r_next (ParseOneField mem b fin) \<and> r_next (ParseOneField mem b fin) \<le> fin"
  by (rule ParseOneField_cases [OF refl, of mem b fin]) (auto dest: ParseFieldPayload_bounds)

lemma ParseOneField_skip: "parse_res (ParseOneField mem b fin) = kSkip \<Longrightarrow>
    r_field (ParseOneField mem b fin) = zero_field"
  by (rule ParseOneField_cases [OF refl, of mem b fin]) auto

lemma u16_of_u32_nonzero: "(w :: u32) \<noteq> 0 \<Longrightarrow> unat w \<le> 0xFFFF \<Longrightarrow> (ucast w :: u16) \<noteq> 0"
proof
  assume w: "w \<noteq> 0" "unat w \<le> 0xFFFF" and z: "(ucast w :: u16) = 0"
  then have "take_bit 16 (unat w) = unat w" by (simp add: take_bit_nat_eq_self)
  moreover have "unat (ucast w :: u16) = take_bit 16 (unat w)" by (simp add: unsigned_ucast_eq)
  ultimately have "unat w = 0" using z by simp
  with w show False by (simp add: unat_eq_0)
qed

lemma ParseOneField_ok: "parse_res (ParseOneField mem b fin) = kOk \<Longrightarrow>
    f_valid (r_field (ParseOneField mem b fin))"
  by (rule ParseOneField_cases [OF refl, of mem b fin]) (auto dest!: u16_of_u32_nonzero)

subsection \<open>\<open>ReadField\<close> and \<open>FindField\<close>\<close>

record ProtoDecoder =
  d_begin :: nat
  d_end :: nat
  d_read_ptr :: nat

definition make_ProtoDecoder :: "nat \<Rightarrow> nat \<Rightarrow> ProtoDecoder" where
  "make_ProtoDecoder buffer len =
     \<lparr>d_begin = buffer, d_end = buffer + len, d_read_ptr = buffer\<rparr>"

definition decoder_Reset :: "ProtoDecoder \<Rightarrow> ProtoDecoder" where
  "decoder_Reset d = d\<lparr>d_read_ptr := d_begin d\<rparr>"

definition read_offset :: "ProtoDecoder \<Rightarrow> nat" where
  "read_offset d = d_read_ptr d - d_begin d"

definition bytes_left :: "ProtoDecoder \<Rightarrow> nat" where
  "bytes_left d = d_end d - d_read_ptr d"

text \<open>The \<open>do ... while (kSkip)\<close> loop: the final pointer and the field.\<close>

function ReadField_loop :: "memory \<Rightarrow> nat \<Rightarrow> nat \<Rightarrow> nat \<times> Field" where
  "ReadField_loop mem read_ptr fin =
     (let res = ParseOneField mem read_ptr fin in
      if parse_res res = kSkip then ReadField_loop mem (r_next res) fin
      else (r_next res, r_field res))"
  by pat_completeness auto
termination
proof (relation "measure (\<lambda>(mem, read_ptr, fin). fin - read_ptr)")
  fix mem read_ptr fin x
  assume "x = ParseOneField mem read_ptr fin" "parse_res x = kSkip"
  with ParseOneField_progress [of mem read_ptr fin]
  show "((mem, r_next x, fin), (mem, read_ptr, fin)) \<in> measure (\<lambda>(mem, read_ptr, fin). fin - read_ptr)"
    by auto
qed simp

declare ReadField_loop.simps [simp del]

definition ReadField :: "memory \<Rightarrow> ProtoDecoder \<Rightarrow> Field \<times> ProtoDecoder" where
  "ReadField mem d =
     (let (p, f) = ReadField_loop mem (d_read_ptr d) (d_end d) in (f, d\<lparr>d_read_ptr := p\<rparr>))"

lemma ReadField_loop_progress:
  "ReadField_loop mem p fin = (q, f) \<Longrightarrow>
     (f_valid f \<longrightarrow> p < q \<and> q \<le> fin) \<and> (\<not> f_valid f \<longrightarrow> f = zero_field) \<and> (p \<le> fin \<longrightarrow> p \<le> q \<and> q \<le> fin)"
proof (induction mem p fin rule: ReadField_loop.induct)
  case (1 mem p fin)
  let ?r = "ParseOneField mem p fin"
  show ?case
  proof (cases "parse_res ?r = kSkip")
    case True
    with "1.prems" have "ReadField_loop mem (r_next ?r) fin = (q, f)"
      by (subst (asm) ReadField_loop.simps) (simp add: Let_def)
    from "1.IH" [OF refl True this] True ParseOneField_progress [of mem p fin] show ?thesis
      by auto
  next
    case False
    with "1.prems" have "q = r_next ?r" "f = r_field ?r"
      by (subst (asm) ReadField_loop.simps, simp add: Let_def)+
    with False show ?thesis
      using ParseOneField_progress [of mem p fin] ParseOneField_abort [of mem p fin]
        ParseOneField_ok [of mem p fin] by (cases "parse_res ?r") auto
  qed
qed

text \<open>The search loop of \<open>FindField\<close>: it starts at \<open>begin_\<close> and stops at the first invalid field.\<close>

function FindField_loop :: "memory \<Rightarrow> nat \<Rightarrow> nat \<Rightarrow> u32 \<Rightarrow> Field" where
  "FindField_loop mem p fin field_id =
     (let (q, f) = ReadField_loop mem p fin in
      if f_valid f then (if ucast (f_id f) = field_id then f else FindField_loop mem q fin field_id)
      else zero_field)"
  by pat_completeness auto
termination
proof (relation "measure (\<lambda>(mem, p, fin, field_id). fin - p)")
  fix mem p fin field_id x q f
  assume "x = ReadField_loop mem p fin" "(q, f) = x" "f_valid f"
  with ReadField_loop_progress [of mem p fin q f]
  show "((mem, q, fin, field_id), mem, p, fin, field_id) \<in> measure (\<lambda>(mem, p, fin, field_id). fin - p)"
    by auto
qed simp

declare FindField_loop.simps [simp del]

definition FindField :: "memory \<Rightarrow> u32 \<Rightarrow> ProtoDecoder \<Rightarrow> Field \<times> ProtoDecoder" where
  "FindField mem field_id d = (FindField_loop mem (d_begin d) (d_end d) field_id, d)"

text \<open>All the valid fields of a buffer, in wire order: the reference that the lookups are
  compared with.\<close>

function AllFields :: "memory \<Rightarrow> nat \<Rightarrow> nat \<Rightarrow> Field list" where
  "AllFields mem p fin =
     (let (q, f) = ReadField_loop mem p fin in
      if f_valid f then f # AllFields mem q fin else [])"
  by pat_completeness auto
termination
proof (relation "measure (\<lambda>(mem, p, fin). fin - p)")
  fix mem p fin x q f
  assume "x = ReadField_loop mem p fin" "(q, f) = x" "f_valid f"
  with ReadField_loop_progress [of mem p fin q f]
  show "((mem, q, fin), mem, p, fin) \<in> measure (\<lambda>(mem, p, fin). fin - p)"
    by auto
qed simp

declare AllFields.simps [simp del]

lemma AllFields_valid: "f \<in> set (AllFields mem p fin) \<Longrightarrow> f_valid f"
proof (induction mem p fin rule: AllFields.induct)
  case (1 mem p fin)
  from "1.prems" show ?case
    by (subst (asm) AllFields.simps) (auto split: prod.splits if_splits dest: "1.IH" [OF refl])
qed

lemma FindField_loop_AllFields:
  "FindField_loop mem p fin i =
     (case filter (\<lambda>f. ucast (f_id f) = i) (AllFields mem p fin) of [] \<Rightarrow> zero_field | f # _ \<Rightarrow> f)"
proof (induction mem p fin i rule: FindField_loop.induct)
  case (1 mem p fin i)
  obtain q f where r: "ReadField_loop mem p fin = (q, f)" by fastforce
  from "1.IH" [OF r [symmetric] refl] show ?case
    by (subst FindField_loop.simps, subst AllFields.simps) (simp add: r)
qed

text \<open>\<open>AllFields\<close> as seen by the token loop: a skipped field adds nothing.\<close>

lemma AllFields_step:
  "AllFields mem p fin =
     (let res = ParseOneField mem p fin in
      case parse_res res of
        kAbort \<Rightarrow> []
      | kSkip \<Rightarrow> AllFields mem (r_next res) fin
      | kOk \<Rightarrow> r_field res # AllFields mem (r_next res) fin)"
proof (cases "parse_res (ParseOneField mem p fin)")
  case kAbort
  then show ?thesis
    by (subst AllFields.simps, subst ReadField_loop.simps)
      (simp add: Let_def ParseOneField_abort)
next
  case kSkip
  then have "ReadField_loop mem p fin = ReadField_loop mem (r_next (ParseOneField mem p fin)) fin"
    by (subst ReadField_loop.simps) (simp add: Let_def)
  with kSkip show ?thesis
    by (simp add: Let_def AllFields.simps [of mem p] AllFields.simps [of mem "r_next _"])
next
  case kOk
  then show ?thesis
    by (subst AllFields.simps, subst ReadField_loop.simps)
      (simp add: Let_def ParseOneField_ok)
qed

subsection \<open>Locality: only the bytes of the range matter\<close>

lemma ParseVarInt_cong:
  "\<forall>i. p \<le> i \<and> i < fin \<longrightarrow> mem ! i = mem' ! i \<Longrightarrow> ParseVarInt mem p fin = ParseVarInt mem' p fin"
  by (simp add: ParseVarInt_def ParseVarInt_loop_cong [of p fin mem mem'])

lemma ParseFieldPayload_cong:
  assumes "\<forall>i. p \<le> i \<and> i < fin \<longrightarrow> mem ! i = mem' ! i" and "fin \<le> length mem" "fin \<le> length mem'"
  shows "ParseFieldPayload mem p fin t = ParseFieldPayload mem' p fin t"
proof -
  have "mem_range mem p (p + k) = mem_range mem' p (p + k)" if "p + k \<le> fin" for k
    using that assms by (intro mem_range_cong) auto
  then show ?thesis
    by (auto simp: ParseFieldPayload_def Let_def ParseVarInt_cong [OF assms(1)])
qed

lemma ParseOneField_cong:
  assumes "\<forall>i. p \<le> i \<and> i < fin \<longrightarrow> mem ! i = mem' ! i" and "fin \<le> length mem" "fin \<le> length mem'"
  shows "ParseOneField mem p fin = ParseOneField mem' p fin"
proof (cases "p < fin")
  case True
  have pl: "ParseFieldPayload mem q fin t = ParseFieldPayload mem' q fin t" if "p \<le> q" for q t
    using that assms by (intro ParseFieldPayload_cong) auto
  obtain q v where pv: "ParseVarInt mem p fin = (q, v)" by fastforce
  with True have "p \<le> q"
    by (auto simp: ParseVarInt_def split: option.splits dest: ParseVarInt_loop_bounds)
  moreover have "ParseVarInt mem' p fin = (q, v)" using pv ParseVarInt_cong [OF assms(1)] by simp
  ultimately show ?thesis
    using True assms(1) by (simp add: ParseOneField_def pv Let_def pl)
qed (simp add: ParseOneField_def)

subsection \<open>Reading back what \<open>SerializeAndAppendTo\<close> wrote\<close>

lemma ParseVarInt_single:
  "b < fin \<Longrightarrow> unat (mem ! b) < 0x80 \<Longrightarrow> ParseVarInt mem b fin = (Suc b, ucast (mem ! b))"
proof -
  assume b: "b < fin" "unat (mem ! b) < 0x80"
  have u: "mem ! b = ucast (ucast (mem ! b) :: u64)"
    by (rule bit_eqI) (auto simp add: bit_simps)
  have n: "unat (ucast (mem ! b) :: u64) < 0x80"
    using b(2) by (simp add: unsigned_ucast_eq take_bit_nat_eq_self)
  show ?thesis
    using ParseVarInt_loop_last [OF b(1) _ u n, of 0 0] by (simp add: ParseVarInt_def)
qed

lemma ParseOneField_after_tag:
  assumes tag: "mem_range mem b fin = WriteVarInt (push_bit 3 f OR wire_code w) @ rest"
    and "fin \<le> length mem" and f: "f \<noteq> 0" "unat f \<le> 0xFFFF"
    and pay: "ParseFieldPayload mem (b + length (WriteVarInt (push_bit 3 f OR wire_code w))) fin
                (ucast (wire_code w)) = Some (np, iv, sz)"
    and sz: "unat sz \<le> kMaxMessageLength" and ne: "rest \<noteq> []"
  shows "ParseOneField mem b fin =
           \<lparr>parse_res = kOk, r_next = np,
            r_field = field_initialize (ucast f) (ucast (wire_code w)) iv (ucast sz)\<rparr>"
proof -
  let ?t = "push_bit 3 f OR wire_code w"
  let ?pos = "b + length (WriteVarInt ?t)"
  have w8: "unat (wire_code w) < 8" by (cases w) simp_all
  have f29: "unat f < 2 ^ 29" using f(2) by simp
  note flds = MakeTag_fields [OF f29 w8]
  have pv: "ParseVarInt mem b fin = (?pos, ucast ?t)"
    using ParseVarInt_WriteVarInt [of mem b fin "ucast ?t" rest] tag assms(2)
    by (simp add: WriteVarInt_u32)
  have lt: "?pos < fin"
  proof (rule ccontr)
    assume "\<not> ?pos < fin"
    with mem_range_suffix [OF tag assms(2)] ne show False by simp
  qed
  then have b: "b < fin" by simp
  have pre: "(if unat (mem ! b) < 0x80 then (Suc b, ucast (mem ! b)) else ParseVarInt mem b fin)
               = (?pos, ucast ?t)"
    using pv ParseVarInt_single [OF b, of mem] by simp
  have id: "(ucast (drop_bit 3 (ucast ?t :: u64)) :: u32) = f"
    unfolding flds(1) by (rule bit_eqI) (simp add: bit_simps)
  have ty: "(ucast ((ucast ?t :: u64) AND 7) :: u8) = ucast (wire_code w)"
    unfolding flds(2) by (cases w) simp_all
  have "?pos \<noteq> b" using WriteVarInt_nonempty [of ?t] by simp
  then show ?thesis
    unfolding ParseOneField_def pre Let_def prod.case id ty pay option.case
    using b f lt sz by simp
qed

lemma ParseFieldPayload_VarInt:
  assumes "mem_range mem p fin = WriteVarInt (v :: u64) @ rest" and "fin \<le> length mem"
  shows "ParseFieldPayload mem p fin (ucast (wire_code kVarInt)) = Some (p + length (WriteVarInt v), v, 0)"
  using WriteVarInt_nonempty [of v]
  by (simp add: ParseFieldPayload_def ParseVarInt_WriteVarInt [OF assms])

lemma mem_range_prefix:
  assumes "mem_range mem p fin = xs @ ys" and "fin \<le> length mem" and "xs \<noteq> []"
  shows "mem_range mem p (p + length xs) = xs \<and> p + length xs \<le> fin"
  using mem_range_suffix [OF assms(1,2)] assms
  by (metis append_is_Nil_conv max_def mem_range_empty nat_le_linear)

lemma ParseFieldPayload_Fixed:
  assumes "mem_range mem p fin = store_le k (v :: u64) @ rest" and "fin \<le> length mem"
    and "(w = kFixed32 \<and> k = 4) \<or> (w = kFixed64 \<and> k = 8)" and "unat v < 2 ^ (8 * k)"
  shows "ParseFieldPayload mem p fin (ucast (wire_code w)) = Some (p + k, v, 0)"
proof -
  have "store_le k v \<noteq> []" using assms(3) length_store_le [of k v] by (metis list.size(3) zero_neq_numeral)
  with mem_range_prefix [OF assms(1,2)]
  have "mem_range mem p (p + k) = store_le k v \<and> p + k \<le> fin" by simp
  with assms(3) load_store_le [OF assms(4)] show ?thesis
    by (auto simp: ParseFieldPayload_def)
qed

text \<open>The two ways a length is written: shortest form, or padded to four bytes.\<close>

definition len_code :: "u8 list \<Rightarrow> u64 \<Rightarrow> bool" where
  "len_code L n \<longleftrightarrow> L \<noteq> [] \<and> (\<forall>mem p fin rest. mem_range mem p fin = L @ rest \<longrightarrow> fin \<le> length mem \<longrightarrow>
     ParseVarInt mem p fin = (p + length L, n))"

lemma len_code_WriteVarInt: "len_code (WriteVarInt n) n"
  by (simp add: len_code_def ParseVarInt_WriteVarInt)

lemma len_code_WriteRedundantVarInt: "unat v < 2 ^ 28 \<Longrightarrow> len_code (WriteRedundantVarInt v) (ucast v)"
  using length_WriteRedundantVarInt [of v]
  by (auto simp: len_code_def ParseVarInt_WriteRedundantVarInt simp del: length_WriteRedundantVarInt)

lemma ParseFieldPayload_Bytes:
  assumes "mem_range mem p fin = L @ bs @ rest" and "fin \<le> length mem"
    and "length bs = unat n" and L: "len_code L n"
  shows "ParseFieldPayload mem p fin (ucast (wire_code kLengthDelimited)) =
           Some (p + length L + unat n, word_of_nat (p + length L), n)"
proof -
  let ?q = "p + length L"
  have pv: "ParseVarInt mem p fin = (?q, n)" using L assms(1,2) by (auto simp: len_code_def)
  from mem_range_suffix [OF assms(1,2)] have "mem_range mem ?q fin = bs @ rest" by simp
  from arg_cong [OF this, of length] have "fin - ?q = unat n + length rest"
    by (simp only: length_mem_range [OF assms(2)] length_append assms(3))
  then have "unat n \<le> fin - ?q" by simp
  then show ?thesis using L
    by (simp add: ParseFieldPayload_def pv len_code_def)
qed

lemma u16_u32: "(ucast (ucast (i :: u16) :: u32) :: u16) = i" "unat (ucast i :: u32) \<le> 0xFFFF"
  "i \<noteq> 0 \<Longrightarrow> (ucast i :: u32) \<noteq> 0"
proof -
  show c: "(ucast (ucast i :: u32) :: u16) = i"
    by (rule bit_eqI) (auto simp add: bit_simps)
  have "unat i < 2 ^ 16" using unsigned_less [of i, where ?'a = nat] by simp
  then show "unat (ucast i :: u32) \<le> 0xFFFF"
    by (simp add: unsigned_ucast_eq take_bit_nat_eq_self)
  show "i \<noteq> 0 \<Longrightarrow> (ucast i :: u32) \<noteq> 0" using c by force
qed

definition wire_tag :: "Field \<Rightarrow> ProtoWireType \<Rightarrow> u32" where
  "wire_tag f w = push_bit 3 (ucast (f_id f)) OR wire_code w"

text \<open>What \<open>SerializeAndAppendTo\<close> writes, by wire type: the tag, then the payload.\<close>

lemma SerializeAndAppendTo_cases:
  assumes "SerializeAndAppendTo mem f [] = Some bs"
  obtains (VarInt) "f_type f = ucast (wire_code kVarInt)"
      "bs = WriteVarInt (wire_tag f kVarInt) @ WriteVarInt (f_int_value f)"
  | (Fixed32) "f_type f = ucast (wire_code kFixed32)"
      "bs = WriteVarInt (wire_tag f kFixed32) @ store_le 4 (ucast (as_uint32 f) :: u64)"
  | (Fixed64) "f_type f = ucast (wire_code kFixed64)"
      "bs = WriteVarInt (wire_tag f kFixed64) @ store_le 8 (f_int_value f)"
  | (Bytes) "f_type f = ucast (wire_code kLengthDelimited)"
      "bs = WriteVarInt (wire_tag f kLengthDelimited) @ WriteVarInt (ucast (f_size f) :: u64) @ as_bytes mem f"
proof -
  have st: "store_le 4 v = store_le 4 (ucast v :: u64)" for v :: u32
    by (simp add: eval_nat_numeral ucast_u8_via_u64 ucast_drop_bit_u32)
  note defs = SerializeAndAppendTo_def MakeTagVarInt_def MakeTagFixed_def MakeTagLengthDelimited_def
    wire_tag_def as_uint32_def
  consider "f_type f = ucast (wire_code kVarInt)" | "f_type f = ucast (wire_code kFixed32)"
    | "f_type f = ucast (wire_code kFixed64)" | "f_type f = ucast (wire_code kLengthDelimited)"
    using assms by (auto simp: SerializeAndAppendTo_def split: if_splits)
  then show thesis
  proof cases
    case 2
    with assms have "bs = WriteVarInt (wire_tag f kFixed32) @ store_le 4 (as_uint32 f)"
      by (simp add: defs)
    with 2 that(2) show ?thesis by (simp only: st)
  qed (use assms that in \<open>simp_all add: defs\<close>)
qed

text \<open>A tag of a valid field followed by a payload that parses is one token.\<close>

lemma ParseOneField_serialized:
  assumes bs: "bs = WriteVarInt (wire_tag f w) @ pay" and ne: "pay \<noteq> []" and valid: "f_valid f"
    and n: "unat n \<le> kMaxMessageLength"
    and pp: "ParseFieldPayload (pre @ bs @ rest) (length pre + length (WriteVarInt (wire_tag f w)))
               (length (pre @ bs @ rest)) (ucast (wire_code w)) = Some (length pre + length bs, iv, n)"
  shows "ParseOneField (pre @ bs @ rest) (length pre) (length (pre @ bs @ rest)) =
          \<lparr>parse_res = kOk, r_next = length pre + length bs,
           r_field = field_initialize (f_id f) (ucast (wire_code w)) iv (ucast n)\<rparr>"
proof -
  let ?mem = "pre @ bs @ rest" and ?b = "length pre" and ?fin = "length (pre @ bs @ rest)"
  have "mem_range ?mem ?b ?fin = WriteVarInt (wire_tag f w) @ pay @ rest"
    by (simp add: mem_range_def bs)
  moreover have "(ucast (f_id f) :: u32) \<noteq> 0" using valid u16_u32(3) by (simp add: f_valid_def)
  ultimately show ?thesis
    using ParseOneField_after_tag [of ?mem ?b ?fin "ucast (f_id f)" w "pay @ rest"] ne n pp
    by (simp add: wire_tag_def u16_u32)
qed

lemma payload_range:
  "bs = t @ pay \<Longrightarrow> mem_range (pre @ bs @ rest) (length pre + length t) (length (pre @ bs @ rest)) = pay @ rest"
  by (simp add: mem_range_def)

lemma tokenise_VarInt:
  assumes "bs = WriteVarInt (wire_tag f kVarInt) @ WriteVarInt v" and "f_valid f"
  shows "ParseOneField (pre @ bs @ rest) (length pre) (length (pre @ bs @ rest)) =
          \<lparr>parse_res = kOk, r_next = length pre + length bs,
           r_field = field_initialize (f_id f) (ucast (wire_code kVarInt)) v 0\<rparr>"
proof -
  have "unat (0 :: u64) \<le> kMaxMessageLength" by simp
  with ParseOneField_serialized [OF assms(1) _ assms(2) this]
    ParseFieldPayload_VarInt [OF payload_range [OF assms(1)]]
  show ?thesis using assms(1) by (simp add: add.assoc)
qed

lemma tokenise_Fixed:
  assumes "bs = WriteVarInt (wire_tag f w) @ store_le k v" and "f_valid f"
    and "(w = kFixed32 \<and> k = 4) \<or> (w = kFixed64 \<and> k = 8)" and "unat v < 2 ^ (8 * k)"
  shows "ParseOneField (pre @ bs @ rest) (length pre) (length (pre @ bs @ rest)) =
          \<lparr>parse_res = kOk, r_next = length pre + length bs,
           r_field = field_initialize (f_id f) (ucast (wire_code w)) v 0\<rparr>"
proof -
  have "unat (0 :: u64) \<le> kMaxMessageLength" by simp
  moreover have "store_le k v \<noteq> []"
    using assms(3) length_store_le [of k v] by (metis list.size(3) zero_neq_numeral)
  ultimately show ?thesis
    using ParseOneField_serialized [OF assms(1) _ assms(2)]
      ParseFieldPayload_Fixed [OF payload_range [OF assms(1)] _ assms(3,4)] assms(1)
    by (simp add: add.assoc)
qed

lemma tokenise_Bytes:
  assumes bs: "bs = WriteVarInt (wire_tag f kLengthDelimited) @ L @ p" and L: "len_code L n" and "f_valid f"
    and "length p = unat n" and "unat n \<le> kMaxMessageLength" and small: "length (pre @ bs @ rest) < 2 ^ 64"
  shows "\<exists>g. ParseOneField (pre @ bs @ rest) (length pre) (length (pre @ bs @ rest)) =
              \<lparr>parse_res = kOk, r_next = length pre + length bs, r_field = g\<rparr>
     \<and> f_id g = f_id f \<and> f_type g = ucast (wire_code kLengthDelimited)
     \<and> f_size g = ucast n \<and> as_bytes (pre @ bs @ rest) g = p"
proof -
  let ?mem = "pre @ bs @ rest"
  let ?a = "length pre + length (WriteVarInt (wire_tag f kLengthDelimited)) + length L"
  let ?g = "field_initialize (f_id f) (ucast (wire_code kLengthDelimited)) (word_of_nat ?a) (ucast n)"
  have "mem_range ?mem (length pre + length (WriteVarInt (wire_tag f kLengthDelimited))) (length ?mem)
          = L @ p @ rest"
    using payload_range [OF bs] by simp
  note pay = ParseFieldPayload_Bytes [OF this _ assms(4) L]
  have "ParseOneField ?mem (length pre) (length ?mem) =
          \<lparr>parse_res = kOk, r_next = length pre + length bs, r_field = ?g\<rparr>"
    by (rule ParseOneField_serialized [OF bs _ assms(3,5)])
      (use pay assms(4) L in \<open>simp_all add: bs add.assoc len_code_def\<close>)
  moreover have "?a < 2 ^ 64" using small bs by simp
  then have "field_data ?g = ?a"
    by (simp only: field_data_def field_initialize_def Field.select_convs unat_of_nat_u64)
  moreover have "unat n < 2 ^ 32"
    using assms(5) by (simp add: kMaxMessageLength_def kMessageLengthFieldSize_def)
  then have "unat (f_size ?g) = length p"
    using assms(4) by (simp add: field_initialize_def unsigned_ucast_eq take_bit_nat_eq_self)
  ultimately have "as_bytes ?mem ?g = p"
    using bs by (simp add: as_bytes_def mem_range_def)
  with \<open>ParseOneField ?mem (length pre) (length ?mem) = _\<close> show ?thesis
    by (simp add: field_initialize_def)
qed

text \<open>A valid field serialized with \<open>SerializeAndAppendTo\<close> and placed anywhere in
  memory is tokenised by \<open>ParseOneField\<close> into a field of the same id and wire type that ends where
  the serialization ends, with the same integer, the same low 32 bits (fixed32) or the same
  payload bytes.\<close>
theorem field_roundtrip:
  assumes ser: "SerializeAndAppendTo mem0 f [] = Some bs" and valid: "f_valid f"
    and sz: "unat (f_size f) \<le> kMaxMessageLength"
    and inb: "field_data f + unat (f_size f) \<le> length mem0"
    and small: "length (pre @ bs @ rest) < 2 ^ 64"
  shows "\<exists>g. ParseOneField (pre @ bs @ rest) (length pre) (length (pre @ bs @ rest)) =
            \<lparr>parse_res = kOk, r_next = length pre + length bs, r_field = g\<rparr>
    \<and> f_id g = f_id f \<and> f_type g = f_type f
    \<and> (f_type f = ucast (wire_code kVarInt) \<or> f_type f = ucast (wire_code kFixed64) \<longrightarrow>
         as_uint64 g = as_uint64 f)
    \<and> (f_type f = ucast (wire_code kFixed32) \<longrightarrow> as_uint32 g = as_uint32 f)
    \<and> (f_type f = ucast (wire_code kLengthDelimited) \<longrightarrow>
         as_bytes (pre @ bs @ rest) g = as_bytes mem0 f)"
  using ser
proof (cases rule: SerializeAndAppendTo_cases)
  case VarInt
  with tokenise_VarInt [OF VarInt(2) valid] show ?thesis
    by (simp add: field_initialize_def as_uint64_def)
next
  case Fixed32
  have "unat (ucast (as_uint32 f) :: u64) < 2 ^ (8 * 4)"
    using unsigned_less [of "as_uint32 f", where ?'a = nat] by (simp add: unat_ucast_u32)
  moreover have "(ucast (ucast v :: u64) :: u32) = v" for v :: u32
    by (rule bit_eqI) (auto simp add: bit_simps)
  ultimately show ?thesis
    using Fixed32 tokenise_Fixed [OF Fixed32(2) valid] by (simp add: field_initialize_def as_uint32_def)
next
  case Fixed64
  have "unat (f_int_value f) < 2 ^ (8 * 8)"
    using unsigned_less [of "f_int_value f", where ?'a = nat] by simp
  then show ?thesis
    using Fixed64 tokenise_Fixed [OF Fixed64(2) valid] by (simp add: field_initialize_def as_uint64_def)
next
  case Bytes
  have "length (as_bytes mem0 f) = unat (ucast (f_size f) :: u64)"
    using inb by (simp add: as_bytes_def length_mem_range unat_ucast_u32)
  moreover have "unat (ucast (f_size f) :: u64) \<le> kMaxMessageLength" using sz by (simp add: unat_ucast_u32)
  ultimately show ?thesis
    using Bytes(1) tokenise_Bytes [OF Bytes(2) len_code_WriteVarInt valid _ _ small] by auto
qed

theorem field_roundtrip_witness:
  "\<exists>g. ParseOneField ([9, 9] @ [18, 2, 7, 8] @ [1]) (length [9, 9 :: u8]) (length ([9, 9] @ [18, 2, 7, 8] @ [1 :: u8])) =
          \<lparr>parse_res = kOk, r_next = length [9, 9 :: u8] + length [18, 2, 7, 8 :: u8], r_field = g\<rparr>
     \<and> f_id g = 2 \<and> as_bytes ([9, 9] @ [18, 2, 7, 8] @ [1]) g = [7, 8]"
proof -
  let ?f = "field_initialize 2 2 1 2"
  have ser: "SerializeAndAppendTo [0, 7, 8] ?f [] = Some [18, 2, 7, 8]" by code_simp
  have v: "f_valid ?f" "unat (f_size ?f) \<le> kMaxMessageLength"
    "field_data ?f + unat (f_size ?f) \<le> length [0, 7, 8 :: u8]" by code_simp+
  have c: "f_id ?f = 2" "f_type ?f = ucast (wire_code kLengthDelimited)" "as_bytes [0, 7, 8] ?f = [7, 8]"
    by code_simp+
  have small: "length ([9, 9] @ [18, 2, 7, 8] @ [1 :: u8]) < 2 ^ 64" by simp
  from field_roundtrip [OF ser v small] c show ?thesis by metis
qed

text \<open>Tokenising is memory safe and makes progress. An aborted parse leaves
  the pointer where it was and yields no field; any other parse moves it forward inside the
  buffer; a parsed field is valid, and a length-delimited payload ends exactly at the next
  pointer, inside the buffer. The result depends on no byte outside the buffer.\<close>
theorem parse_one_field_safe:
  assumes "fin \<le> length mem" and "length mem < 2 ^ 64" and "res = ParseOneField mem b fin"
  shows "(parse_res res = kAbort \<longrightarrow> r_next res = b \<and> \<not> f_valid (r_field res))
    \<and> (parse_res res \<noteq> kAbort \<longrightarrow> b < r_next res \<and> r_next res \<le> fin)
    \<and> (parse_res res = kOk \<longrightarrow> f_valid (r_field res))
    \<and> (parse_res res = kOk \<and> f_type (r_field res) = ucast (wire_code kLengthDelimited) \<longrightarrow>
         b < field_data (r_field res) \<and> field_data (r_field res) + unat (f_size (r_field res)) = r_next res)
    \<and> (fin \<le> length mem' \<and> (\<forall>i. b \<le> i \<and> i < fin \<longrightarrow> mem ! i = mem' ! i) \<longrightarrow>
         ParseOneField mem' b fin = res)"
proof -
  have pay: "b < field_data (r_field res) \<and> field_data (r_field res) + unat (f_size (r_field res)) = r_next res"
    if ok: "parse_res res = kOk" and ty: "f_type (r_field res) = ucast (wire_code kLengthDelimited)"
    using assms(3) [symmetric]
  proof (cases rule: ParseOneField_cases)
    case (field pos preamble np iv sz)
    with ok ty obtain start where st: "pos < start" "iv = word_of_nat start" "start + unat sz = np" "np \<le> fin"
      using ParseFieldPayload_bounds by (fastforce simp: field_initialize_def)
    moreover have "start < 2 ^ 64" using st assms(1,2) by simp
    moreover have "unat (ucast sz :: u32) = unat sz"
      using field ok by (simp add: unsigned_ucast_eq take_bit_nat_eq_self kMaxMessageLength_def
          kMessageLengthFieldSize_def)
    ultimately show ?thesis
      using field ok by (simp add: field_initialize_def field_data_def unat_of_nat_u64)
  qed (use ok in simp)
  show ?thesis
    using pay ParseOneField_abort [of mem b fin] ParseOneField_progress [of mem b fin]
      ParseOneField_ok [of mem b fin] ParseOneField_cong [OF _ assms(1), of b mem', symmetric]
    unfolding assms(3) by auto
qed

theorem parse_one_field_safe_witness:
  "r_next (ParseOneField [18, 1, 7] 0 3) \<le> 3 \<and> ParseOneField [18, 1, 7, 9] 0 3 = ParseOneField [18, 1, 7] 0 3"
proof -
  have agree: "\<forall>i. 0 \<le> i \<and> i < 3 \<longrightarrow> [18, 1, 7 :: u8] ! i = [18, 1, 7, 9] ! i"
    by (simp add: less_Suc_eq eval_nat_numeral all_conj_distrib)
  have ok: "parse_res (ParseOneField [18, 1, 7] 0 3) = kOk" by code_simp
  from parse_one_field_safe [of 3 "[18, 1, 7]" "ParseOneField [18, 1, 7] 0 3" 0 "[18, 1, 7, 9]"] agree ok
  show ?thesis by simp
qed

text \<open>\<open>FindField\<close> always returns, yields the first valid field of the buffer with
  the wanted id (an invalid field if there is none) and leaves the read cursor unchanged;
  \<open>ReadField\<close> yields the same fields one by one.\<close>
theorem find_field_first:
  "FindField mem i d =
     ((case filter (\<lambda>f. ucast (f_id f) = i) (AllFields mem (d_begin d) (d_end d)) of
         [] \<Rightarrow> zero_field | f # _ \<Rightarrow> f), d)
   \<and> AllFields mem (d_read_ptr d) (d_end d) =
       (let (f, d') = ReadField mem d in
        if f_valid f then f # AllFields mem (d_read_ptr d') (d_end d') else [])"
  by (subst AllFields.simps)
    (simp add: FindField_def FindField_loop_AllFields ReadField_def split: prod.split)

end
