(* ===== verification/Typed_Decoder.thy ===== *)
theory Typed_Decoder
  imports Proto_Decoder
begin

section \<open>The one-shot decoder (TypedProtoDecoder in proto_decoder.h and proto_decoder.cc)\<close>

text \<open>
  \<open>TypedProtoDecoderBase\<close> parses a whole buffer into an array of fields: entry \<open>i < num_fields\<close>
  holds the last value seen of field \<open>i\<close>, the entries from \<open>num_fields\<close> up to \<open>size\<close> hold the earlier
  values of repeated fields in wire order. The array is the list of its \<open>size\<close> initialised
  entries; \<open>capacity\<close> is a \<^verbatim>\<open>uint32_t\<close> and its doubling wraps. \<open>None\<close> is a failed
  \<^verbatim>\<open>PERFETTO_CHECK\<close>.
\<close>

record TypedDecoder =
  t_fields :: "Field list"
  t_num_fields :: nat
  t_capacity :: nat

definition t_size :: "TypedDecoder \<Rightarrow> nat" where
  "t_size t = length (t_fields t)"

definition kMaxDecoderFieldId :: nat where
  "kMaxDecoderFieldId = 999"

definition kCapacity :: "nat \<Rightarrow> bool \<Rightarrow> nat" where
  "kCapacity max_field_id has_nonpacked_repeated_fields =
     1 + (if has_nonpacked_repeated_fields then kMaxDecoderFieldId else max_field_id)"

definition init_TypedDecoder :: "nat \<Rightarrow> bool \<Rightarrow> TypedDecoder" where
  "init_TypedDecoder max_field_id repeated =
     \<lparr>t_fields = replicate (max_field_id + 1) zero_field, t_num_fields = max_field_id + 1,
      t_capacity = kCapacity max_field_id repeated\<rparr>"

definition ExpandHeapStorage :: "TypedDecoder \<Rightarrow> TypedDecoder option" where
  "ExpandHeapStorage t =
     (let new_capacity = (t_capacity t * 2) mod 2 ^ 32 in
      if new_capacity > t_size t then Some (t\<lparr>t_capacity := new_capacity\<rparr>) else None)"

text \<open>The body of the loop for a field that parsed: first value, or repeated value.\<close>

definition store_field :: "Field \<Rightarrow> TypedDecoder \<Rightarrow> TypedDecoder option" where
  "store_field f t =
     (let field_id = unat (f_id f) in
      if field_id \<ge> t_num_fields t then Some t
      else
        (let fld = t_fields t ! field_id in
         if \<not> f_valid fld then Some (t\<lparr>t_fields := (t_fields t)[field_id := f]\<rparr>)
         else
           (case (if t_size t \<ge> t_capacity t then ExpandHeapStorage t else Some t) of
              None \<Rightarrow> None
            | Some t' \<Rightarrow> Some (t'\<lparr>t_fields := (t_fields t' @ [fld])[field_id := f]\<rparr>))))"

function ParseAllFields_loop :: "memory \<Rightarrow> nat \<Rightarrow> nat \<Rightarrow> TypedDecoder \<Rightarrow> (TypedDecoder \<times> nat) option" where
  "ParseAllFields_loop mem cur fin t =
     (let res = ParseOneField mem cur fin in
      if parse_res res = kSkip then ParseAllFields_loop mem (r_next res) fin t
      else if parse_res res = kAbort then Some (t, r_next res)
      else
        (case store_field (r_field res) t of
           None \<Rightarrow> None
         | Some t' \<Rightarrow> ParseAllFields_loop mem (r_next res) fin t'))"
  by pat_completeness auto
termination
proof (relation "measure (\<lambda>(mem, cur, fin, t). fin - cur)")
  fix mem cur fin x and t :: TypedDecoder
  assume "x = ParseOneField mem cur fin" "parse_res x = kSkip"
  with ParseOneField_progress [of mem cur fin]
  show "((mem, r_next x, fin, t), mem, cur, fin, t) \<in> measure (\<lambda>(mem, cur, fin, t). fin - cur)"
    by auto
next
  fix mem cur fin x and t t' :: TypedDecoder
  assume "x = ParseOneField mem cur fin" "parse_res x \<noteq> kAbort"
  with ParseOneField_progress [of mem cur fin]
  show "((mem, r_next x, fin, t'), mem, cur, fin, t) \<in> measure (\<lambda>(mem, cur, fin, t). fin - cur)"
    by auto
qed simp

declare ParseAllFields_loop.simps [simp del]

text \<open>The constructor of \<open>TypedProtoDecoder\<close>: empty table, then \<open>ParseAllFields\<close>.\<close>

definition TypedProtoDecoder :: "nat \<Rightarrow> bool \<Rightarrow> memory \<Rightarrow> nat \<Rightarrow> nat \<Rightarrow> (TypedDecoder \<times> nat) option" where
  "TypedProtoDecoder max_field_id repeated mem buffer len =
     ParseAllFields_loop mem buffer (buffer + len) (init_TypedDecoder max_field_id repeated)"

definition Get :: "TypedDecoder \<Rightarrow> nat \<Rightarrow> Field" where
  "Get t i = (if i < t_num_fields t then t_fields t ! i else t_fields t ! 0)"

subsection \<open>\<open>RepeatedFieldIterator\<close>\<close>

record RepeatedFieldIterator =
  ri_field_id :: u32
  ri_iter :: nat
  ri_end :: nat
  ri_last :: nat

text \<open>The scan: \<open>iter\<close> never starts past \<open>end\<close>, so \<open>iter < end\<close> is the loop's \<open>iter != end\<close>.\<close>

function FindNextMatchingId_loop :: "Field list \<Rightarrow> u32 \<Rightarrow> nat \<Rightarrow> nat \<Rightarrow> nat \<Rightarrow> nat" where
  "FindNextMatchingId_loop fs field_id iter fin lst =
     (if iter < fin then
        (if ucast (f_id (fs ! iter)) = field_id then iter
         else FindNextMatchingId_loop fs field_id (Suc iter) fin lst)
      else (if f_valid (fs ! lst) then lst else fin))"
  by pat_completeness auto
termination
  by (relation "measure (\<lambda>(fs, field_id, iter, fin, lst). fin - iter)") auto

declare FindNextMatchingId_loop.simps [simp del]

definition FindNextMatchingId :: "Field list \<Rightarrow> RepeatedFieldIterator \<Rightarrow> RepeatedFieldIterator" where
  "FindNextMatchingId fs it =
     it\<lparr>ri_iter := FindNextMatchingId_loop fs (ri_field_id it) (ri_iter it) (ri_end it) (ri_last it)\<rparr>"

definition GetRepeated :: "TypedDecoder \<Rightarrow> u32 \<Rightarrow> RepeatedFieldIterator" where
  "GetRepeated t field_id =
     FindNextMatchingId (t_fields t)
       \<lparr>ri_field_id = field_id, ri_iter = t_num_fields t, ri_end = t_size t, ri_last = unat field_id\<rparr>"

definition ri_more :: "RepeatedFieldIterator \<Rightarrow> bool" where
  "ri_more it \<longleftrightarrow> ri_iter it \<noteq> ri_end it"

definition ri_inc :: "Field list \<Rightarrow> RepeatedFieldIterator \<Rightarrow> RepeatedFieldIterator" where
  "ri_inc fs it =
     (if ri_iter it = ri_last it then it\<lparr>ri_iter := ri_end it\<rparr>
      else FindNextMatchingId fs (it\<lparr>ri_iter := Suc (ri_iter it)\<rparr>))"

lemma FindNextMatchingId_loop_result:
  "FindNextMatchingId_loop fs i iter fin lst = r \<Longrightarrow> r = lst \<or> r = fin \<or> iter \<le> r \<and> r < fin"
proof (induction fs i iter fin lst rule: FindNextMatchingId_loop.induct)
  case (1 fs i iter fin lst)
  show ?case
  proof (cases "iter < fin \<and> ucast (f_id (fs ! iter)) \<noteq> i")
    case True
    with "1.prems" have "FindNextMatchingId_loop fs i (Suc iter) fin lst = r"
      by (subst (asm) FindNextMatchingId_loop.simps) simp
    with True "1.IH" show ?thesis by fastforce
  next
    case False
    with "1.prems" show ?thesis
      by (subst (asm) FindNextMatchingId_loop.simps) (auto split: if_splits)
  qed
qed

text \<open>The client's loop \<^verbatim>\<open>for (auto it = decoder.GetRepeated(id); it; ++it)\<close>.\<close>

function repeated_loop :: "Field list \<Rightarrow> RepeatedFieldIterator \<Rightarrow> Field list" where
  "repeated_loop fs it =
     (if ri_more it then fs ! ri_iter it # repeated_loop fs (ri_inc fs it) else [])"
  by pat_completeness auto
termination
proof (relation "measure (\<lambda>(fs, it). if ri_iter it = ri_end it then 0
          else if ri_iter it = ri_last it then 1 else 2 + (ri_end it - ri_iter it))")
  fix fs :: "Field list" and it :: RepeatedFieldIterator
  assume "ri_more it"
  then show "((fs, ri_inc fs it), fs, it) \<in> measure (\<lambda>(fs, it).
      if ri_iter it = ri_end it then 0 else if ri_iter it = ri_last it then 1 else 2 + (ri_end it - ri_iter it))"
    using FindNextMatchingId_loop_result
      [of fs "ri_field_id it" "Suc (ri_iter it)" "ri_end it" "ri_last it" "ri_iter (ri_inc fs it)"]
    by (auto simp: ri_more_def ri_inc_def FindNextMatchingId_def)
qed simp

declare repeated_loop.simps [simp del]

definition RepeatedFields :: "TypedDecoder \<Rightarrow> u32 \<Rightarrow> Field list" where
  "RepeatedFields t field_id = repeated_loop (t_fields t) (GetRepeated t field_id)"


subsection \<open>The table after parsing\<close>

definition with_id :: "nat \<Rightarrow> Field list \<Rightarrow> Field list" where
  "with_id i fs = filter (\<lambda>f. unat (f_id f) = i) fs"

definition last_or_zero :: "Field list \<Rightarrow> Field" where
  "last_or_zero fs = (if fs = [] then zero_field else last fs)"

text \<open>The table \<open>t\<close> holds the fields \<open>seen\<close> (in wire order): the abstraction relation.\<close>

definition table_of :: "TypedDecoder \<Rightarrow> Field list \<Rightarrow> bool" where
  "table_of t seen \<longleftrightarrow>
     0 < t_num_fields t \<and> t_num_fields t \<le> t_size t \<and> t_size t \<le> t_num_fields t + length seen \<and>
     (\<forall>i < t_num_fields t. t_fields t ! i = last_or_zero (with_id i seen)) \<and>
     (\<forall>i < t_num_fields t. with_id i (drop (t_num_fields t) (t_fields t)) = butlast (with_id i seen))"

lemma with_id_append [simp]: "with_id i (xs @ ys) = with_id i xs @ with_id i ys"
  by (simp add: with_id_def)

lemma with_id_Nil [simp]: "with_id i [] = []"
  by (simp add: with_id_def)

lemma last_or_zero_snoc [simp]: "last_or_zero (fs @ [f]) = f"
  by (simp add: last_or_zero_def)

lemma valid_last_or_zero:
  "\<forall>f \<in> set fs. f_valid f \<Longrightarrow> f_valid (last_or_zero (with_id i fs)) \<longleftrightarrow> with_id i fs \<noteq> []"
  using last_in_set [of "with_id i fs"] by (auto simp: last_or_zero_def with_id_def)

lemma table_of_init: "table_of (init_TypedDecoder m r) []"
  by (simp add: table_of_def init_TypedDecoder_def t_size_def last_or_zero_def del: replicate_Suc)

lemma table_of_capacity: "table_of (t\<lparr>t_capacity := c\<rparr>) seen = table_of t seen"
  by (simp add: table_of_def t_size_def)

lemma table_of_first:
  assumes t: "table_of t seen" and f: "unat (f_id f) < t_num_fields t"
    and empty: "with_id (unat (f_id f)) seen = []"
  shows "table_of (t\<lparr>t_fields := (t_fields t)[unat (f_id f) := f]\<rparr>) (seen @ [f])"
proof -
  let ?i = "unat (f_id f)"
  have "with_id j [f] = (if j = ?i then [f] else [])" for j by (auto simp: with_id_def)
  moreover have "?i < length (t_fields t)" using t f by (simp add: table_of_def t_size_def)
  ultimately show ?thesis
    using t f empty by (auto simp: table_of_def t_size_def nth_list_update drop_update_cancel last_or_zero_def)
qed

lemma table_of_repeated:
  assumes t: "table_of t seen" and f: "unat (f_id f) < t_num_fields t"
    and ne: "with_id (unat (f_id f)) seen \<noteq> []"
  shows "table_of (t\<lparr>t_fields := (t_fields t @ [t_fields t ! unat (f_id f)])[unat (f_id f) := f]\<rparr>) (seen @ [f])"
proof -
  let ?i = "unat (f_id f)" and ?old = "t_fields t ! unat (f_id f)"
  let ?fs = "(t_fields t)[?i := f] @ [?old]"
  have len: "?i < length (t_fields t)" "t_num_fields t \<le> length (t_fields t)"
    using t f by (simp_all add: table_of_def t_size_def)
  then have upd: "(t_fields t @ [?old])[?i := f] = ?fs" by (simp add: list_update_append)
  have id1: "with_id j [f] = (if j = ?i then [f] else [])" for j by (auto simp: with_id_def)
  have old: "?old = last (with_id ?i seen)" using t f ne by (simp add: table_of_def last_or_zero_def)
  have oldid: "unat (f_id ?old) = ?i"
    using last_in_set [OF ne] by (simp add: old) (simp add: with_id_def)
  have id2: "with_id j [?old] = (if j = ?i then [?old] else [])" for j
    using oldid by (auto simp: with_id_def)
  have extras: "drop (t_num_fields t) ?fs = drop (t_num_fields t) (t_fields t) @ [?old]"
    using len f by simp
  have "with_id j (drop (t_num_fields t) ?fs) = butlast (with_id j (seen @ [f]))"
    if "j < t_num_fields t" for j
    using that t ne unfolding extras
    by (auto simp: table_of_def id1 id2 [unfolded old] old append_butlast_last_id)
  moreover have "?fs ! j = last_or_zero (with_id j (seen @ [f]))" if "j < t_num_fields t" for j
    using that t len f by (auto simp: table_of_def id1 nth_append nth_list_update t_size_def)
  ultimately show ?thesis
    using t unfolding upd by (auto simp: table_of_def t_size_def)
qed

text \<open>One stored field; the capacity never runs out below \<open>2 ^ 31\<close> entries.\<close>

definition capacity_ok :: "TypedDecoder \<Rightarrow> bool" where
  "capacity_ok t \<longleftrightarrow> 0 < t_capacity t \<and> t_size t \<le> t_capacity t"

lemma store_field_table:
  assumes t: "table_of t seen" and v: "\<forall>g \<in> set seen. f_valid g" and f: "f_valid f"
    and c: "capacity_ok t" and n: "t_size t < 2 ^ 31"
  shows "\<exists>t'. store_field f t = Some t' \<and> t_num_fields t' = t_num_fields t \<and> capacity_ok t'
     \<and> (if unat (f_id f) < t_num_fields t then table_of t' (seen @ [f]) else t' = t)
     \<and> t_size t' \<le> Suc (t_size t)"
proof (cases "unat (f_id f) < t_num_fields t")
  case False
  then show ?thesis using c by (simp add: store_field_def Let_def)
next
  case True
  let ?i = "unat (f_id f)"
  have fld: "t_fields t ! ?i = last_or_zero (with_id ?i seen)" using t True by (simp add: table_of_def)
  show ?thesis
  proof (cases "with_id ?i seen = []")
    case True
    then have "\<not> f_valid (t_fields t ! ?i)" unfolding fld by (simp add: last_or_zero_def)
    then show ?thesis
      using table_of_first [OF t \<open>?i < t_num_fields t\<close> True] \<open>?i < t_num_fields t\<close> c
      by (simp add: store_field_def Let_def capacity_ok_def t_size_def)
  next
    case False
    then have valid: "f_valid (t_fields t ! ?i)" unfolding fld using valid_last_or_zero [OF v] by simp
    obtain cap where ex: "(if t_size t \<ge> t_capacity t then ExpandHeapStorage t else Some t) =
         Some (t\<lparr>t_capacity := cap\<rparr>)" and cap: "0 < cap" "Suc (t_size t) \<le> cap"
    proof (cases "t_size t \<ge> t_capacity t")
      case True
      with c have eq: "t_size t = t_capacity t" "0 < t_capacity t" by (simp_all add: capacity_ok_def)
      with n have "(t_capacity t * 2) mod 2 ^ 32 = t_capacity t * 2" by (intro mod_less) simp
      with True eq that [of "t_capacity t * 2"] show ?thesis by (simp add: ExpandHeapStorage_def)
    next
      case False
      with c that [of "t_capacity t"] show ?thesis by (simp add: capacity_ok_def)
    qed
    have "table_of ((t\<lparr>t_capacity := cap\<rparr>)\<lparr>t_fields := (t_fields t @ [t_fields t ! ?i])[?i := f]\<rparr>) (seen @ [f])"
      using table_of_repeated [OF t \<open>?i < t_num_fields t\<close> False] by (simp add: table_of_def t_size_def)
    with ex cap valid \<open>?i < t_num_fields t\<close> show ?thesis
      by (simp add: store_field_def Let_def capacity_ok_def t_size_def)
  qed
qed

lemma ParseAllFields_loop_table:
  assumes "table_of t seen" and "\<forall>g \<in> set seen. f_valid g" and "capacity_ok t"
    and "t_size t + length (AllFields mem cur fin) < 2 ^ 31"
  shows "\<exists>t' p. ParseAllFields_loop mem cur fin t = Some (t', p) \<and> t_num_fields t' = t_num_fields t
     \<and> table_of t' (seen @ filter (\<lambda>f. unat (f_id f) < t_num_fields t) (AllFields mem cur fin))"
  using assms
proof (induction mem cur fin t arbitrary: seen rule: ParseAllFields_loop.induct)
  case (1 mem cur fin t)
  let ?r = "ParseOneField mem cur fin"
  show ?case
  proof (cases "parse_res ?r")
    case kAbort
    with "1.prems" show ?thesis
      by (subst ParseAllFields_loop.simps, subst AllFields_step) (simp add: Let_def)
  next
    case kSkip
    then have "AllFields mem cur fin = AllFields mem (r_next ?r) fin"
      by (subst AllFields_step) (simp add: Let_def)
    with "1.IH"(1) [OF refl kSkip "1.prems"(1,2,3)] "1.prems"(4) kSkip show ?thesis
      by (subst ParseAllFields_loop.simps) (simp add: Let_def)
  next
    case kOk
    then have all: "AllFields mem cur fin = r_field ?r # AllFields mem (r_next ?r) fin"
      by (subst AllFields_step) (simp add: Let_def)
    have f: "f_valid (r_field ?r)" using kOk by (rule ParseOneField_ok)
    have n: "t_size t < 2 ^ 31" using "1.prems"(4) by simp
    obtain t' where st: "store_field (r_field ?r) t = Some t'" "t_num_fields t' = t_num_fields t"
      "capacity_ok t'" "t_size t' \<le> Suc (t_size t)"
      "if unat (f_id (r_field ?r)) < t_num_fields t then table_of t' (seen @ [r_field ?r]) else t' = t"
      using store_field_table [OF "1.prems"(1,2) f "1.prems"(3) n] by blast
    define seen' where "seen' = (if unat (f_id (r_field ?r)) < t_num_fields t then seen @ [r_field ?r] else seen)"
    have "table_of t' seen'" "\<forall>g \<in> set seen'. f_valid g"
      using st(5) "1.prems"(1,2) f by (auto simp: seen'_def split: if_splits)
    moreover have "t_size t' + length (AllFields mem (r_next ?r) fin) < 2 ^ 31"
      using "1.prems"(4) all st(4) by simp
    moreover have nk: "parse_res ?r \<noteq> kSkip" "parse_res ?r \<noteq> kAbort" using kOk by simp_all
    ultimately obtain t'' p where
      "ParseAllFields_loop mem (r_next ?r) fin t' = Some (t'', p)" "t_num_fields t'' = t_num_fields t'"
      "table_of t'' (seen' @ filter (\<lambda>f. unat (f_id f) < t_num_fields t') (AllFields mem (r_next ?r) fin))"
      using "1.IH"(2) [OF refl nk st(1) _ _ st(3)] by blast
    with kOk st(1,2) all show ?thesis
      by (subst ParseAllFields_loop.simps) (auto simp: Let_def seen'_def split: if_splits)
  qed
qed

subsection \<open>What the iterator visits\<close>

lemma repeated_loop_stop: "ri_iter it = ri_end it \<Longrightarrow> repeated_loop fs it = []"
  by (subst repeated_loop.simps) (simp add: ri_more_def)

lemma repeated_loop_more:
  "ri_iter it \<noteq> ri_end it \<Longrightarrow> repeated_loop fs it = fs ! ri_iter it # repeated_loop fs (ri_inc fs it)"
  by (subst repeated_loop.simps) (simp add: ri_more_def)

lemma repeated_loop_from:
  assumes "lst < k" and "k \<le> length fs"
  shows "repeated_loop fs (FindNextMatchingId fs
            \<lparr>ri_field_id = i, ri_iter = k, ri_end = length fs, ri_last = lst\<rparr>) =
          filter (\<lambda>f. ucast (f_id f) = i) (drop k fs) @ (if f_valid (fs ! lst) then [fs ! lst] else [])"
  using assms
proof (induction "length fs - k" arbitrary: k)
  case 0
  then have k: "k = length fs" by simp
  then have "FindNextMatchingId_loop fs i k (length fs) lst = (if f_valid (fs ! lst) then lst else length fs)"
    by (subst FindNextMatchingId_loop.simps) simp
  with 0 k show ?case
    by (simp add: FindNextMatchingId_def repeated_loop_stop repeated_loop_more ri_inc_def)
next
  case (Suc n)
  then have k: "k < length fs" and n: "n = length fs - Suc k" by simp_all
  have IH: "repeated_loop fs (FindNextMatchingId fs
            \<lparr>ri_field_id = i, ri_iter = Suc k, ri_end = length fs, ri_last = lst\<rparr>) =
          filter (\<lambda>f. ucast (f_id f) = i) (drop (Suc k) fs) @ (if f_valid (fs ! lst) then [fs ! lst] else [])"
    using Suc.hyps(1) [OF n] Suc.prems k by simp
  have drop: "drop k fs = fs ! k # drop (Suc k) fs" using k by (simp add: Cons_nth_drop_Suc)
  show ?case
  proof (cases "ucast (f_id (fs ! k)) = i")
    case True
    with k have "FindNextMatchingId_loop fs i k (length fs) lst = k"
      by (subst FindNextMatchingId_loop.simps) simp
    with k Suc.prems True drop IH show ?thesis
      by (simp add: FindNextMatchingId_def [of _ "\<lparr>ri_field_id = i, ri_iter = k, ri_end = _, ri_last = _\<rparr>"]
          repeated_loop_more ri_inc_def)
  next
    case False
    with k have "FindNextMatchingId_loop fs i k (length fs) lst = FindNextMatchingId_loop fs i (Suc k) (length fs) lst"
      by (subst FindNextMatchingId_loop.simps) simp
    with False drop IH show ?thesis by (simp add: FindNextMatchingId_def)
  qed
qed

lemma ucast_id_iff: "ucast (i :: u16) = (w :: u32) \<longleftrightarrow> unat i = unat w"
proof -
  have "unat (ucast i :: u32) = unat i"
    using unsigned_less [of i, where ?'a = nat] by (simp add: unsigned_ucast_eq take_bit_nat_eq_self)
  then show ?thesis by (metis word_unat_eq_iff)
qed

lemma RepeatedFields_table:
  assumes t: "table_of t seen" and v: "\<forall>g \<in> set seen. f_valid g" and i: "unat i < t_num_fields t"
  shows "RepeatedFields t i = with_id (unat i) seen"
proof -
  have "RepeatedFields t i = with_id (unat i) (drop (t_num_fields t) (t_fields t)) @
          (if f_valid (t_fields t ! unat i) then [t_fields t ! unat i] else [])"
    using t i repeated_loop_from [of "unat i" "t_num_fields t" "t_fields t" i]
    by (simp add: RepeatedFields_def GetRepeated_def t_size_def table_of_def with_id_def ucast_id_iff)
  also have "\<dots> = with_id (unat i) seen"
    using t i valid_last_or_zero [OF v, of "unat i"]
    by (auto simp: table_of_def last_or_zero_def)
  finally show ?thesis .
qed

lemma length_AllFields: "length (AllFields mem p fin) \<le> fin - p"
proof (induction mem p fin rule: AllFields.induct)
  case (1 mem p fin)
  obtain q f where r: "ReadField_loop mem p fin = (q, f)" by fastforce
  with ReadField_loop_progress [OF r] "1.IH" [OF r [symmetric] refl] show ?case
    by (subst AllFields.simps) (auto simp: r)
qed

subsection \<open>Properties\<close>

text \<open>C38 typed_decoder_correct: for a message below 1 GiB the constructor returns (storage growth
  never fails its check), iterating a repeated field visits all its values in wire order,
  \<open>Get\<close> yields the last value, an invalid field where there was none, and an id above
  \<open>MAX_FIELD_ID\<close> yields the invalid field 0.\<close>
theorem typed_decoder_correct:
  assumes "max_id \<le> kMaxDecoderFieldId" and "len < 2 ^ 30"
  shows "\<exists>t p. TypedProtoDecoder max_id rep mem b len = Some (t, p)
    \<and> (\<forall>i. unat i \<le> max_id \<longrightarrow>
          RepeatedFields t i = with_id (unat i) (AllFields mem b (b + len))
        \<and> Get t (unat i) = last_or_zero (with_id (unat i) (AllFields mem b (b + len))))
    \<and> (\<forall>n > max_id. \<not> f_valid (Get t n))"
proof -
  let ?t0 = "init_TypedDecoder max_id rep" and ?all = "AllFields mem b (b + len)"
  let ?seen = "filter (\<lambda>f. unat (f_id f) < max_id + 1) ?all"
  have n0: "t_num_fields ?t0 = max_id + 1" "t_size ?t0 = max_id + 1"
    by (simp_all add: init_TypedDecoder_def t_size_def)
  have c0: "capacity_ok ?t0"
    using assms(1) by (simp add: capacity_ok_def init_TypedDecoder_def t_size_def kCapacity_def kMaxDecoderFieldId_def)
  have "t_size ?t0 + length ?all < 2 ^ 31"
    using assms length_AllFields [of mem b "b + len"] n0 by (simp add: kMaxDecoderFieldId_def)
  with ParseAllFields_loop_table [OF table_of_init _ c0] n0
  obtain t p where t: "TypedProtoDecoder max_id rep mem b len = Some (t, p)"
    "t_num_fields t = max_id + 1" "table_of t ?seen"
    by (fastforce simp: TypedProtoDecoder_def)
  have v: "\<forall>g \<in> set ?seen. f_valid g" using AllFields_valid by auto
  have same: "with_id n ?seen = with_id n ?all" if "n \<le> max_id" for n
    using that by (auto simp: with_id_def intro!: filter_cong)
  have zero: "with_id 0 ?seen = []"
    using v by (auto simp: with_id_def f_valid_def unat_eq_0 filter_empty_conv)
  show ?thesis
  proof (intro exI conjI allI impI)
    show "TypedProtoDecoder max_id rep mem b len = Some (t, p)" by (rule t)
    fix i :: u32 assume "unat i \<le> max_id"
    then show "RepeatedFields t i = with_id (unat i) ?all" "Get t (unat i) = last_or_zero (with_id (unat i) ?all)"
      using RepeatedFields_table [OF t(3) v] t same by (simp_all add: Get_def table_of_def)
  next
    fix n assume "max_id < n"
    then show "\<not> f_valid (Get t n)"
      using t zero by (simp add: Get_def table_of_def last_or_zero_def)
  qed
qed

theorem typed_decoder_correct_witness:
  "\<exists>t p. TypedProtoDecoder 2 False [8, 10, 8, 11, 8, 12] 0 6 = Some (t, p)
     \<and> map f_int_value (RepeatedFields t 1) = [10, 11, 12]"
proof -
  have all: "map f_int_value (with_id 1 (AllFields [8, 10, 8, 11, 8, 12] 0 (0 + 6))) = [10, 11, 12]"
    by code_simp
  obtain t p where "TypedProtoDecoder 2 False [8, 10, 8, 11, 8, 12] 0 6 = Some (t, p)"
    "RepeatedFields t 1 = with_id (unat (1 :: u32)) (AllFields [8, 10, 8, 11, 8, 12] 0 (0 + 6))"
    using typed_decoder_correct [of 2 6 False "[8, 10, 8, 11, 8, 12]" 0]
    by (auto simp: kMaxDecoderFieldId_def)
  with all show ?thesis by auto
qed

end
