(* ===== verification/Stream_Writer.thy ===== *)
theory Stream_Writer
  imports VP_Prelude
begin

section \<open>The scattered stream writer (protozero/scattered_stream_writer.h and .cc)\<close>

text \<open>
  The writer appends bytes to the memory ranges its delegate hands out. Memory is a list of
  chunks, each with its capacity and the bytes written to it so far; bytes past the write
  pointer are dead for an append-only writer and are not represented, so \<open>write_ptr_\<close> is the end of
  the bytes of the current chunk. A pointer is a chunk number with an offset. \<open>None\<close> for the current
  range is the pair of null pointers the writer starts with.

  \<open>writer_objs\<close> are the objects that write to the stream (for protozero the open messages); the
  writer never looks at them, but a delegate may.

  The delegate is a function from the writer's whole state (its own state \<open>delegate\<close> and the
  writer it may look at or reset) to the new state and a range; \<open>None\<close> is a failed \<^verbatim>\<open>PERFETTO_CHECK\<close>
  or \<^verbatim>\<open>PERFETTO_FATAL\<close>, and for the writer also a write past the end of a range.
\<close>

record chunk =
  c_cap :: nat
  c_bytes :: "u8 list"

record ContiguousMemoryRange =
  rg_chunk :: nat
  rg_begin :: nat
  rg_end :: nat

type_synonym ptr = "nat \<times> nat"

record ('d, 'm) stream =
  heap :: "chunk list"
  cur_range :: "ContiguousMemoryRange option"
  written_previously :: nat
  delegate :: 'd
  writer_objs :: 'm

type_synonym ('d, 'm) get_new_buffer = "('d, 'm) stream \<Rightarrow> (('d, 'm) stream \<times> ContiguousMemoryRange) option"

definition init_stream :: "'d \<Rightarrow> 'm \<Rightarrow> ('d, 'm) stream" where
  "init_stream d m =
     \<lparr>heap = [], cur_range = None, written_previously = 0, delegate = d, writer_objs = m\<rparr>"

definition chunk_len :: "('d, 'm) stream \<Rightarrow> nat \<Rightarrow> nat" where
  "chunk_len s c = length (c_bytes (heap s ! c))"

definition write_ptr :: "('d, 'm) stream \<Rightarrow> ptr option" where
  "write_ptr s = (case cur_range s of None \<Rightarrow> None | Some r \<Rightarrow> Some (rg_chunk r, chunk_len s (rg_chunk r)))"

definition bytes_available :: "('d, 'm) stream \<Rightarrow> nat" where
  "bytes_available s =
     (case cur_range s of None \<Rightarrow> 0 | Some r \<Rightarrow> rg_end r - chunk_len s (rg_chunk r))"

definition written_in_range :: "('d, 'm) stream \<Rightarrow> nat" where
  "written_in_range s =
     (case cur_range s of None \<Rightarrow> 0 | Some r \<Rightarrow> chunk_len s (rg_chunk r) - rg_begin r)"

definition written :: "('d, 'm) stream \<Rightarrow> nat" where
  "written s = written_previously s + written_in_range s"

definition writer_Reset :: "ContiguousMemoryRange option \<Rightarrow> ('d, 'm) stream \<Rightarrow> ('d, 'm) stream" where
  "writer_Reset r s = s\<lparr>written_previously := written_previously s + written_in_range s, cur_range := r\<rparr>"

definition append_to_chunk :: "nat \<Rightarrow> u8 list \<Rightarrow> chunk list \<Rightarrow> chunk list" where
  "append_to_chunk c bs h = h[c := (h ! c)\<lparr>c_bytes := c_bytes (h ! c) @ bs\<rparr>]"

text \<open>\<open>WriteBytesUnsafe\<close>: the caller has checked the space; a write past the range is refused.\<close>

definition WriteBytesUnsafe :: "u8 list \<Rightarrow> ('d, 'm) stream \<Rightarrow> ('d, 'm) stream option" where
  "WriteBytesUnsafe src s =
     (if length src \<le> bytes_available s then
        (case cur_range s of
           None \<Rightarrow> Some s
         | Some r \<Rightarrow> Some (s\<lparr>heap := append_to_chunk (rg_chunk r) src (heap s)\<rparr>))
      else None)"

definition Extend :: "('d, 'm) get_new_buffer \<Rightarrow> ('d, 'm) stream \<Rightarrow> ('d, 'm) stream option" where
  "Extend gnb s = (case gnb s of None \<Rightarrow> None | Some (s', r) \<Rightarrow> Some (writer_Reset (Some r) s'))"

definition ensure_space :: "('d, 'm) get_new_buffer \<Rightarrow> ('d, 'm) stream \<Rightarrow> ('d, 'm) stream option" where
  "ensure_space gnb s = (if bytes_available s = 0 then Extend gnb s else Some s)"

text \<open>The loop runs as long as the delegate keeps returning empty buffers: \<open>None\<close> also stands for
  that divergence.\<close>

partial_function (option) WriteBytesSlowPath :: "('d, 'm) get_new_buffer \<Rightarrow> u8 list \<Rightarrow> ('d, 'm) stream \<Rightarrow> ('d, 'm) stream option" where
  "WriteBytesSlowPath gnb src s =
     (if src = [] then Some s
      else Option.bind (ensure_space gnb s) (\<lambda>s1.
             let burst_size = min (bytes_available s1) (length src) in
             Option.bind (WriteBytesUnsafe (take burst_size src) s1) (\<lambda>s2.
               WriteBytesSlowPath gnb (drop burst_size src) s2)))"

definition WriteBytes :: "('d, 'm) get_new_buffer \<Rightarrow> u8 list \<Rightarrow> ('d, 'm) stream \<Rightarrow> ('d, 'm) stream option" where
  "WriteBytes gnb src s =
     (if length src \<le> bytes_available s then WriteBytesUnsafe src s else WriteBytesSlowPath gnb src s)"

definition WriteByte :: "('d, 'm) get_new_buffer \<Rightarrow> u8 \<Rightarrow> ('d, 'm) stream \<Rightarrow> ('d, 'm) stream option" where
  "WriteByte gnb v s = Option.bind (ensure_space gnb s) (WriteBytesUnsafe [v])"

text \<open>A reservation is zeroed, as in the builds with debug checks.\<close>

definition ReserveBytesUnsafe :: "nat \<Rightarrow> ('d, 'm) stream \<Rightarrow> (ptr \<times> ('d, 'm) stream) option" where
  "ReserveBytesUnsafe n s =
     (case write_ptr s of
        None \<Rightarrow> None
      | Some p \<Rightarrow> map_option (\<lambda>s'. (p, s')) (WriteBytesUnsafe (replicate n 0) s))"

definition ReserveBytes :: "('d, 'm) get_new_buffer \<Rightarrow> nat \<Rightarrow> ('d, 'm) stream \<Rightarrow> (ptr \<times> ('d, 'm) stream) option" where
  "ReserveBytes gnb n s =
     Option.bind (if n > bytes_available s then Extend gnb s else Some s) (ReserveBytesUnsafe n)"

text \<open>A store through a pointer into a chunk (used to backfill a size field).\<close>

definition poke :: "ptr \<Rightarrow> u8 list \<Rightarrow> ('d, 'm) stream \<Rightarrow> ('d, 'm) stream" where
  "poke p bs s =
     (let c = heap s ! fst p; old = c_bytes c in
      s\<lparr>heap := (heap s)[fst p := c\<lparr>c_bytes := take (snd p) old @ bs @ drop (snd p + length bs) old\<rparr>]\<rparr>)"

text \<open>All the bytes written, in the order of the chunks.\<close>

definition contents :: "('d, 'm) stream \<Rightarrow> u8 list" where
  "contents s = concat (map c_bytes (heap s))"

text \<open>The position in \<open>contents\<close> of a pointer.\<close>

definition ptr_pos :: "('d, 'm) stream \<Rightarrow> ptr \<Rightarrow> nat" where
  "ptr_pos s p = length (concat (map c_bytes (take (fst p) (heap s)))) + snd p"

definition ptr_ok :: "nat \<Rightarrow> ('d, 'm) stream \<Rightarrow> ptr \<Rightarrow> bool" where
  "ptr_ok n s p \<longleftrightarrow> fst p < length (heap s) \<and> snd p + n \<le> chunk_len s (fst p)"

text \<open>The writer's own invariant: it writes to the last chunk, within its capacity.\<close>

definition writer_wf :: "('d, 'm) stream \<Rightarrow> bool" where
  "writer_wf s \<longleftrightarrow>
     (case cur_range s of
        None \<Rightarrow> heap s = []
      | Some r \<Rightarrow> heap s \<noteq> [] \<and> rg_chunk r = length (heap s) - 1 \<and> rg_begin r = 0 \<and>
                  rg_end r = c_cap (last (heap s)))
     \<and> (\<forall>c \<in> set (heap s). length (c_bytes c) \<le> c_cap c)"

text \<open>What a step of the writer that gets no new buffer leaves unchanged.\<close>

definition same_buffers :: "('d, 'm) stream \<Rightarrow> ('d, 'm) stream \<Rightarrow> bool" where
  "same_buffers s s' \<longleftrightarrow>
     delegate s' = delegate s \<and> cur_range s' = cur_range s \<and>
     map c_cap (heap s') = map c_cap (heap s) \<and>
     map (length \<circ> c_bytes) (butlast (heap s')) = map (length \<circ> c_bytes) (butlast (heap s)) \<and>
     list_all2 (\<lambda>c c'. length (c_bytes c) \<le> length (c_bytes c')) (heap s) (heap s')"

lemma same_buffers_refl [simp]: "same_buffers s s"
  by (simp add: same_buffers_def list_all2_same)

lemma same_buffers_trans: "same_buffers s t \<Longrightarrow> same_buffers t u \<Longrightarrow> same_buffers s u"
  unfolding same_buffers_def by (auto elim: list_all2_trans [rotated])

text \<open>\<open>s'\<close> is \<open>s\<close> with the bytes \<open>bs\<close> appended: pointers into \<open>s\<close> stay valid.\<close>

definition appends :: "('d, 'm) stream \<Rightarrow> u8 list \<Rightarrow> ('d, 'm) stream \<Rightarrow> bool" where
  "appends s bs s' \<longleftrightarrow>
     contents s' = contents s @ bs \<and> written s' = written s + length bs \<and>
     writer_objs s' = writer_objs s \<and>
     (\<forall>n p. ptr_ok n s p \<longrightarrow> ptr_ok n s' p \<and> ptr_pos s' p = ptr_pos s p)"

lemma appends_trans: "appends s xs s1 \<Longrightarrow> appends s1 ys s2 \<Longrightarrow> appends s (xs @ ys) s2"
  unfolding appends_def by (metis append.assoc add.assoc length_append)

lemma appends_refl [simp]: "appends s [] s"
  by (simp add: appends_def)

subsection \<open>Chunks\<close>

lemma heap_last:
  assumes "writer_wf s" and "cur_range s = Some r"
  shows "heap s = butlast (heap s) @ [heap s ! rg_chunk r]" and "rg_chunk r < length (heap s)"
    and "rg_chunk r = length (butlast (heap s))" and "last (heap s) = heap s ! rg_chunk r"
proof -
  have h: "heap s \<noteq> []" "rg_chunk r = length (heap s) - 1"
    using assms by (simp_all add: writer_wf_def)
  then show l: "last (heap s) = heap s ! rg_chunk r" by (simp add: last_conv_nth)
  show "heap s = butlast (heap s) @ [heap s ! rg_chunk r]" unfolding l [symmetric] using h by simp
  show "rg_chunk r < length (heap s)" "rg_chunk r = length (butlast (heap s))" using h by simp_all
qed

lemma append_to_last:
  assumes "heap s = front @ [c]" and "k = length front"
  shows "append_to_chunk k bs (heap s) = front @ [c\<lparr>c_bytes := c_bytes c @ bs\<rparr>]"
  using assms by (simp add: append_to_chunk_def)

lemma WriteBytesUnsafe_appends:
  assumes wf: "writer_wf s" and w: "WriteBytesUnsafe src s = Some s'"
  shows "appends s src s' \<and> writer_wf s' \<and> same_buffers s s'
       \<and> bytes_available s' = bytes_available s - length src"
proof (cases "cur_range s")
  case None
  with w have "src = []" "s' = s"
    by (auto simp: WriteBytesUnsafe_def bytes_available_def split: if_splits)
  with wf show ?thesis by simp
next
  case (Some r)
  note hl = heap_last [OF wf Some]
  define front c where "front = butlast (heap s)" and "c = heap s ! rg_chunk r"
  have h: "heap s = front @ [c]" and k: "rg_chunk r = length front"
    using hl by (simp_all add: front_def c_def)
  from w Some have len: "length src \<le> rg_end r - length (c_bytes c)"
    and s': "s' = s\<lparr>heap := front @ [c\<lparr>c_bytes := c_bytes c @ src\<rparr>]\<rparr>"
    using append_to_last [OF h k]
    by (auto simp: WriteBytesUnsafe_def bytes_available_def chunk_len_def c_def split: if_splits)
  have cap: "rg_end r = c_cap c" "rg_begin r = 0" "length (c_bytes c) \<le> c_cap c"
    using wf Some h by (auto simp: writer_wf_def)
  have "writer_wf s'"
    using wf Some len cap h by (auto simp: s' writer_wf_def)
  moreover have "same_buffers s s'"
    using h by (auto simp: s' same_buffers_def list_all2_same intro: list_all2_appendI)
  moreover have "ptr_ok n s' p \<and> ptr_pos s' p = ptr_pos s p" if "ptr_ok n s p" for n p
    using that h by (auto simp: s' ptr_ok_def chunk_len_def ptr_pos_def nth_append less_Suc_eq split: if_splits)
  ultimately show ?thesis
    using Some h k cap by (auto simp: s' appends_def contents_def written_def written_in_range_def
        bytes_available_def chunk_len_def)
qed

lemma WriteBytesUnsafe_returns: "length src \<le> bytes_available s \<Longrightarrow> \<exists>s'. WriteBytesUnsafe src s = Some s'"
  by (auto simp: WriteBytesUnsafe_def split: option.split)

lemma poke_props:
  assumes wf: "writer_wf s" and ok: "ptr_ok (length bs) s p"
  shows "contents (poke p bs s) =
           take (ptr_pos s p) (contents s) @ bs @ drop (ptr_pos s p + length bs) (contents s)"
    and "same_buffers s (poke p bs s)" and "writer_wf (poke p bs s)"
    and "written (poke p bs s) = written s"
    and "ptr_ok n (poke p bs s) q = ptr_ok n s q" and "ptr_pos (poke p bs s) q = ptr_pos s q"
    and "bytes_available (poke p bs s) = bytes_available s"
    and "writer_objs (poke p bs s) = writer_objs s"
proof -
  obtain c off where p: "p = (c, off)" by fastforce
  let ?b = "c_bytes (heap s ! c)"
  define new where "new = take off ?b @ bs @ drop (off + length bs) ?b"
  have ok': "c < length (heap s)" "off + length bs \<le> length ?b"
    using ok by (auto simp: p ptr_ok_def chunk_len_def)
  then have ln: "length new = length ?b" by (simp add: new_def)
  have h: "heap (poke p bs s) = (heap s)[c := (heap s ! c)\<lparr>c_bytes := new\<rparr>]"
    by (simp add: poke_def p new_def Let_def)
  have rest: "cur_range (poke p bs s) = cur_range s" "delegate (poke p bs s) = delegate s"
    "written_previously (poke p bs s) = written_previously s"
    by (simp_all add: poke_def Let_def)
  have lens: "length (c_bytes (heap (poke p bs s) ! i)) = length (c_bytes (heap s ! i))"
    and caps: "c_cap (heap (poke p bs s) ! i) = c_cap (heap s ! i)" if "i < length (heap s)" for i
    using that ln ok'(1) by (simp_all add: h nth_list_update)
  have len: "length (heap (poke p bs s)) = length (heap s)" by (simp add: h)
  have split: "heap s = take c (heap s) @ heap s ! c # drop (Suc c) (heap s)"
    using ok'(1) by (rule id_take_nth_drop)
  define pre post where "pre = concat (map c_bytes (take c (heap s)))"
    and "post = concat (map c_bytes (drop (Suc c) (heap s)))"
  have cs: "contents s = pre @ ?b @ post"
    unfolding contents_def pre_def post_def by (subst split) simp
  have "heap (poke p bs s) = take c (heap s) @ (heap s ! c)\<lparr>c_bytes := new\<rparr> # drop (Suc c) (heap s)"
    unfolding h using ok'(1) by (rule upd_conv_take_nth_drop)
  then have "contents (poke p bs s) = pre @ new @ post"
    unfolding contents_def pre_def post_def by simp
  moreover have "ptr_pos s p = length pre + off" by (simp add: ptr_pos_def p pre_def)
  ultimately show "contents (poke p bs s) =
           take (ptr_pos s p) (contents s) @ bs @ drop (ptr_pos s p + length bs) (contents s)"
    using ok' by (simp add: cs new_def)
  have lens_map: "map (length \<circ> c_bytes) (heap (poke p bs s)) = map (length \<circ> c_bytes) (heap s)"
    by (rule nth_equalityI) (simp_all add: len lens)
  show sb: "same_buffers s (poke p bs s)"
    unfolding same_buffers_def map_butlast lens_map rest
    by (auto simp: list_all2_conv_all_nth len lens caps intro!: nth_equalityI)
  show "writer_wf (poke p bs s)"
  proof -
    have "map c_cap (heap (poke p bs s)) = map c_cap (heap s)"
      by (rule nth_equalityI) (simp_all add: len caps)
    then have "heap s \<noteq> [] \<Longrightarrow> c_cap (last (heap (poke p bs s))) = c_cap (last (heap s))"
      by (metis list.map_disc_iff last_map)
    moreover have "length (c_bytes k) \<le> c_cap k" if "k \<in> set (heap (poke p bs s))" for k
    proof -
      from that obtain i where "k = heap (poke p bs s) ! i" "i < length (heap s)"
        by (auto simp: in_set_conv_nth len)
      with lens caps wf show ?thesis by (simp add: writer_wf_def)
    qed
    moreover have "heap (poke p bs s) = [] \<longleftrightarrow> heap s = []" using h by simp
    ultimately show ?thesis using wf len rest by (auto simp: writer_wf_def split: option.splits)
  qed
  have cl: "chunk_len (poke p bs s) i = chunk_len s i" for i
    using ok'(1) lens [of i] by (cases "i < length (heap s)") (auto simp add: chunk_len_def h)
  show "written (poke p bs s) = written s" "bytes_available (poke p bs s) = bytes_available s"
    by (simp_all add: written_def written_in_range_def bytes_available_def rest cl split: option.split)
  show "writer_objs (poke p bs s) = writer_objs s" by (simp add: poke_def Let_def)
  show "ptr_ok n (poke p bs s) q = ptr_ok n s q" by (simp add: ptr_ok_def cl len)
  have cat: "length (concat (map c_bytes (take k h'))) = sum_list (take k (map (length \<circ> c_bytes) h'))" for k h'
    by (simp add: length_concat take_map)
  show "ptr_pos (poke p bs s) q = ptr_pos s q" by (simp only: ptr_pos_def cat lens_map)
qed

subsection \<open>The contract of a delegate\<close>

text \<open>
  A delegate of the kinds that own their memory gives a fresh empty chunk and touches nothing
  else of the writer (\<open>fresh_delegate\<close>); a \<open>growing_delegate\<close> moreover always returns, with at
  least \<open>min_cap\<close> bytes. \<open>inv\<close> is what the delegate needs to know of the writer it serves.
\<close>

locale fresh_delegate =
  fixes gnb :: "('d, 'm) get_new_buffer"
    and inv :: "('d, 'm) stream \<Rightarrow> bool"
  assumes fresh: "inv s \<Longrightarrow> writer_wf s \<Longrightarrow> gnb s = Some (s', r) \<Longrightarrow>
      \<exists>cap. heap s' = heap s @ [\<lparr>c_cap = cap, c_bytes = []\<rparr>] \<and>
            r = \<lparr>rg_chunk = length (heap s), rg_begin = 0, rg_end = cap\<rparr> \<and>
            cur_range s' = cur_range s \<and> written_previously s' = written_previously s \<and>
            writer_objs s' = writer_objs s"
    and inv_new: "inv s \<Longrightarrow> writer_wf s \<Longrightarrow> gnb s = Some (s', r) \<Longrightarrow> inv (writer_Reset (Some r) s')"
    and inv_write: "inv s \<Longrightarrow> same_buffers s s' \<Longrightarrow> inv s'"

locale growing_delegate = fresh_delegate +
  fixes min_cap :: nat
  assumes min_cap_pos: "0 < min_cap"
    and returns: "inv s \<Longrightarrow> writer_wf s \<Longrightarrow> \<exists>s' r. gnb s = Some (s', r) \<and> min_cap \<le> rg_end r"

context fresh_delegate
begin

definition good :: "('d, 'm) stream \<Rightarrow> bool" where
  "good s \<longleftrightarrow> inv s \<and> writer_wf s"

lemma Extend_appends:
  assumes g: "good s" and e: "Extend gnb s = Some s'"
  shows "appends s [] s' \<and> good s' \<and> (\<exists>t r. gnb s = Some (t, r) \<and> bytes_available s' = rg_end r)"
proof -
  obtain t r where gnb: "gnb s = Some (t, r)" and s': "s' = writer_Reset (Some r) t"
    using e by (auto simp: Extend_def split: option.splits)
  have i: "inv s" "writer_wf s" using g by (simp_all add: good_def)
  from fresh [OF i gnb] obtain cap where f: "heap t = heap s @ [\<lparr>c_cap = cap, c_bytes = []\<rparr>]"
    "r = \<lparr>rg_chunk = length (heap s), rg_begin = 0, rg_end = cap\<rparr>"
    "cur_range t = cur_range s" "written_previously t = written_previously s"
    "writer_objs t = writer_objs s" by blast
  have "written_in_range t = written_in_range s"
    using f i(2) by (auto simp: written_in_range_def chunk_len_def nth_append writer_wf_def split: option.splits)
  then have "written s' = written s"
    using f by (simp add: s' writer_Reset_def written_def written_in_range_def chunk_len_def split: option.splits)
  moreover have "contents s' = contents s" using f by (simp add: s' writer_Reset_def contents_def)
  moreover have "ptr_ok n s' p \<and> ptr_pos s' p = ptr_pos s p" if "ptr_ok n s p" for n p
    using that f by (auto simp: s' writer_Reset_def ptr_ok_def chunk_len_def ptr_pos_def nth_append)
  moreover have "writer_wf s'"
    using f i(2) by (auto simp: s' writer_Reset_def writer_wf_def split: option.splits)
  moreover have "inv s'" unfolding s' by (rule inv_new [OF i gnb])
  moreover have "bytes_available s' = cap"
    using f by (simp add: s' writer_Reset_def bytes_available_def chunk_len_def)
  moreover have "writer_objs s' = writer_objs s" using f by (simp add: s' writer_Reset_def)
  ultimately show ?thesis using gnb f(2) by (simp add: appends_def good_def)
qed

lemma WriteBytesUnsafe_good:
  "good s \<Longrightarrow> WriteBytesUnsafe src s = Some s' \<Longrightarrow>
     appends s src s' \<and> good s' \<and> bytes_available s' = bytes_available s - length src"
  using WriteBytesUnsafe_appends inv_write by (auto simp: good_def)

lemma ensure_space_good:
  "good s \<Longrightarrow> ensure_space gnb s = Some s' \<Longrightarrow> appends s [] s' \<and> good s'"
  using Extend_appends by (auto simp: ensure_space_def split: if_splits)

lemma WriteBytesSlowPath_good:
  assumes "WriteBytesSlowPath gnb src s = Some s'" and "good s"
  shows "appends s src s' \<and> good s'"
proof -
  have "g = gnb \<longrightarrow> good s \<longrightarrow> appends s src s' \<and> good s'"
    if "WriteBytesSlowPath g src s = Some s'" for g src s s'
    using that
  proof (rule WriteBytesSlowPath.raw_induct [rotated])
    fix f and g :: "('d, 'm) get_new_buffer" and src and s s' :: "('d, 'm) stream"
    assume IH: "\<And>g src s s'. f g src s = Some s' \<Longrightarrow> g = gnb \<longrightarrow> good s \<longrightarrow> appends s src s' \<and> good s'"
      and eq: "(if src = [] then Some s else Option.bind (ensure_space g s) (\<lambda>s1.
            let burst_size = min (bytes_available s1) (length src) in
            Option.bind (WriteBytesUnsafe (take burst_size src) s1) (\<lambda>s2.
              f g (drop burst_size src) s2))) = Some s'"
    show "g = gnb \<longrightarrow> good s \<longrightarrow> appends s src s' \<and> good s'"
    proof (intro impI)
      assume g: "g = gnb" and s: "good s"
      show "appends s src s' \<and> good s'"
      proof (cases "src = []")
        case True
        with eq s show ?thesis by simp
      next
        case False
        with eq obtain s1 s2 where e: "ensure_space g s = Some s1"
          "WriteBytesUnsafe (take (min (bytes_available s1) (length src)) src) s1 = Some s2"
          "f g (drop (min (bytes_available s1) (length src)) src) s2 = Some s'"
          by (auto simp: Let_def bind_eq_Some_conv)
        note 1 = ensure_space_good [OF s e(1) [unfolded g]]
        note 2 = WriteBytesUnsafe_good [OF 1 [THEN conjunct2] e(2)]
        have 3: "appends s2 (drop (min (bytes_available s1) (length src)) src) s' \<and> good s'"
          using IH [OF e(3)] g 2 by blast
        show ?thesis
          using appends_trans [OF appends_trans [OF 1 [THEN conjunct1] 2 [THEN conjunct1]] 3 [THEN conjunct1]] 3
          by simp
      qed
    qed
  qed
  with assms show ?thesis by blast
qed

lemma WriteBytes_good:
  "WriteBytes gnb src s = Some s' \<Longrightarrow> good s \<Longrightarrow> appends s src s' \<and> good s'"
proof -
  assume w: "WriteBytes gnb src s = Some s'" and g: "good s"
  show ?thesis
  proof (cases "length src \<le> bytes_available s")
    case True
    with w have "WriteBytesUnsafe src s = Some s'" by (simp add: WriteBytes_def)
    from WriteBytesUnsafe_good [OF g this] show ?thesis by simp
  next
    case False
    with w have "WriteBytesSlowPath gnb src s = Some s'" by (simp add: WriteBytes_def)
    from WriteBytesSlowPath_good [OF this g] show ?thesis .
  qed
qed

lemma ReserveBytes_good:
  assumes "ReserveBytes gnb n s = Some (p, s')" and "good s" and "0 < n"
  shows "appends s (replicate n 0) s' \<and> good s' \<and> ptr_ok n s' p \<and> ptr_pos s' p = length (contents s)"
proof -
  from assms(1) obtain s1 where s1: "(if n > bytes_available s then Extend gnb s else Some s) = Some s1"
    and r: "ReserveBytesUnsafe n s1 = Some (p, s')" by (auto simp: ReserveBytes_def bind_eq_Some_conv)
  have 1: "appends s [] s1 \<and> good s1" using s1 assms(2) Extend_appends by (auto split: if_splits)
  from r have w: "WriteBytesUnsafe (replicate n 0) s1 = Some s'" and p: "write_ptr s1 = Some p"
    by (auto simp: ReserveBytesUnsafe_def split: option.splits)
  note 2 = WriteBytesUnsafe_good [OF 1 [THEN conjunct2] w]
  from p obtain r where r: "cur_range s1 = Some r" and pp: "p = (rg_chunk r, chunk_len s1 (rg_chunk r))"
    by (auto simp: write_ptr_def split: option.splits)
  have wf: "writer_wf s1" using 1 by (simp add: good_def)
  note hl = heap_last [OF wf r]
  have h: "heap s1 = butlast (heap s1) @ [heap s1 ! rg_chunk r]" by (rule hl(1))
  have s': "heap s' = append_to_chunk (rg_chunk r) (replicate n 0) (heap s1)"
    using w r by (auto simp: WriteBytesUnsafe_def split: if_splits)
  have h': "heap s' = butlast (heap s1) @ [(heap s1 ! rg_chunk r)\<lparr>c_bytes := c_bytes (heap s1 ! rg_chunk r) @ replicate n 0\<rparr>]"
    unfolding s' using h hl(3) by (rule append_to_last)
  have "ptr_ok n s' p" using h' hl(3) by (simp add: ptr_ok_def pp chunk_len_def nth_append)
  moreover have "ptr_pos s' p = length (contents s1)"
    using h' hl(3) arg_cong [OF h, of "\<lambda>h. length (concat (map c_bytes h))"]
    by (simp add: ptr_pos_def pp contents_def chunk_len_def)
  moreover have "contents s1 = contents s" using 1 by (simp add: appends_def)
  ultimately show ?thesis using 1 2 appends_trans [of s "[]" s1] by auto
qed

lemma poke_good:
  "good s \<Longrightarrow> ptr_ok (length bs) s p \<Longrightarrow> good (poke p bs s)"
  unfolding good_def using poke_props(2,3) [of s bs p] inv_write by blast

end

context growing_delegate
begin

lemma Extend_returns:
  "good s \<Longrightarrow> \<exists>s'. Extend gnb s = Some s' \<and> min_cap \<le> bytes_available s' \<and> good s'"
proof -
  assume g: "good s"
  then have "inv s" "writer_wf s" by (simp_all add: good_def)
  from returns [OF this] obtain t r where tr: "gnb s = Some (t, r)" "min_cap \<le> rg_end r" by blast
  then have e: "Extend gnb s = Some (writer_Reset (Some r) t)" by (simp add: Extend_def)
  from Extend_appends [OF g e] tr show ?thesis by (auto simp: e)
qed

lemma WriteBytesSlowPath_returns: "good s \<Longrightarrow> \<exists>s'. WriteBytesSlowPath gnb src s = Some s'"
proof (induction "length src" arbitrary: src s rule: less_induct)
  case less
  show ?case
  proof (cases "src = []")
    case True
    then show ?thesis by (simp add: WriteBytesSlowPath.simps)
  next
    case False
    obtain s1 where s1: "ensure_space gnb s = Some s1" "good s1" "0 < bytes_available s1"
      using Extend_returns [OF less.prems] min_cap_pos less.prems
      by (cases "bytes_available s = 0") (auto simp: ensure_space_def)
    let ?b = "min (bytes_available s1) (length src)"
    obtain s2 where s2: "WriteBytesUnsafe (take ?b src) s1 = Some s2"
      using WriteBytesUnsafe_returns [of "take ?b src" s1] by auto
    then have "good s2" using WriteBytesUnsafe_good [OF s1(2)] by blast
    moreover have "length (drop ?b src) < length src" using s1(3) False by simp
    ultimately obtain s' where "WriteBytesSlowPath gnb (drop ?b src) s2 = Some s'"
      using less.hyps by blast
    with False s1(1) s2 show ?thesis by (subst WriteBytesSlowPath.simps) simp
  qed
qed

lemma WriteBytes_returns: "good s \<Longrightarrow> \<exists>s'. WriteBytes gnb src s = Some s'"
  using WriteBytesSlowPath_returns [of s src] WriteBytesUnsafe_returns [of src s]
  by (auto simp: WriteBytes_def)

lemma ReserveBytes_returns:
  assumes "good s" and "n \<le> min_cap" and "0 < n"
  shows "\<exists>p s'. ReserveBytes gnb n s = Some (p, s')"
proof -
  obtain s1 where s1: "(if n > bytes_available s then Extend gnb s else Some s) = Some s1" "n \<le> bytes_available s1"
  proof (cases "n > bytes_available s")
    case True
    with Extend_returns [OF assms(1)] assms(2) that show ?thesis by fastforce
  qed (use that in auto)
  then obtain p where "write_ptr s1 = Some p"
    using assms(3) by (auto simp: write_ptr_def bytes_available_def split: option.splits)
  with s1 WriteBytesUnsafe_returns [of "replicate n 0" s1] show ?thesis
    by (auto simp: ReserveBytes_def ReserveBytesUnsafe_def)
qed

end

end
