(* ===== verification/Buffer_Delegates.thy ===== *)
theory Buffer_Delegates
  imports Stream_Writer
begin

section \<open>Delegates: the heap buffer and the static buffer\<close>

text \<open>
  \<open>ScatteredHeapBuffer\<close> (protozero/scattered_heap_buffer.h and .cc) backs a writer with slices of
  doubling size and stitches them together at the end; \<open>StaticBufferDelegate\<close>
  (protozero/static_buffer.h and .cc) gives out one caller-provided buffer, once. Both fulfil the
  delegate contract of \<open>Stream_Writer\<close>. A slice kept over a \<open>Reset\<close> is remembered by its size:
  its old contents are dead.
\<close>

record Slice =
  sl_chunk :: nat
  sl_size :: nat
  sl_unused_bytes :: nat

record ScatteredHeapBuffer =
  next_slice_size :: nat
  maximum_slice_size :: nat
  writer_set :: bool
  slices :: "Slice list"
  cached_slice :: "nat option"

definition Slice_new :: "nat \<Rightarrow> nat \<Rightarrow> Slice" where
  "Slice_new c sz = \<lparr>sl_chunk = c, sl_size = sz, sl_unused_bytes = sz\<rparr>"

definition set_unused_bytes :: "nat \<Rightarrow> Slice \<Rightarrow> Slice" where
  "set_unused_bytes n sl = sl\<lparr>sl_unused_bytes := n\<rparr>"

definition GetUsedRange :: "chunk list \<Rightarrow> Slice \<Rightarrow> u8 list" where
  "GetUsedRange h sl = take (sl_size sl - sl_unused_bytes sl) (c_bytes (h ! sl_chunk sl))"

definition AdjustUsedSizeOfCurrentSlice :: "(ScatteredHeapBuffer, 'm) stream \<Rightarrow> (ScatteredHeapBuffer, 'm) stream" where
  "AdjustUsedSizeOfCurrentSlice s =
     (let d = delegate s in
      if slices d \<noteq> []
      then s\<lparr>delegate := d\<lparr>slices := butlast (slices d) @ [set_unused_bytes (bytes_available s) (last (slices d))]\<rparr>\<rparr>
      else s)"

definition heap_GetNewBuffer :: "(ScatteredHeapBuffer, 'm) get_new_buffer" where
  "heap_GetNewBuffer s =
     (if \<not> writer_set (delegate s) then None
      else
        (let s1 = AdjustUsedSizeOfCurrentSlice s;
             d = delegate s1;
             c = length (heap s1);
             sz = (case cached_slice d of Some sz \<Rightarrow> sz | None \<Rightarrow> next_slice_size d);
             d' = d\<lparr>slices := slices d @ [Slice_new c sz], cached_slice := None,
                    next_slice_size := min (maximum_slice_size d) (next_slice_size d * 2)\<rparr>
         in Some (s1\<lparr>heap := heap s1 @ [\<lparr>c_cap = sz, c_bytes = []\<rparr>], delegate := d'\<rparr>,
                  \<lparr>rg_chunk = c, rg_begin = 0, rg_end = sz\<rparr>)))"

definition StitchSlices :: "(ScatteredHeapBuffer, 'm) stream \<Rightarrow> u8 list \<times> (ScatteredHeapBuffer, 'm) stream" where
  "StitchSlices s =
     (let s1 = AdjustUsedSizeOfCurrentSlice s in
      (concat (map (GetUsedRange (heap s1)) (slices (delegate s1))), s1))"

definition GetRanges :: "(ScatteredHeapBuffer, 'm) stream \<Rightarrow> (nat \<times> nat) list \<times> (ScatteredHeapBuffer, 'm) stream" where
  "GetRanges s =
     (let s1 = AdjustUsedSizeOfCurrentSlice s in
      (map (\<lambda>sl. (sl_chunk sl, sl_size sl - sl_unused_bytes sl)) (slices (delegate s1)), s1))"

definition GetTotalSize :: "(ScatteredHeapBuffer, 'm) stream \<Rightarrow> nat" where
  "GetTotalSize s = sum_list (map sl_size (slices (delegate s)))"

definition shb_Reset :: "ScatteredHeapBuffer \<Rightarrow> ScatteredHeapBuffer" where
  "shb_Reset d =
     (case slices d of [] \<Rightarrow> d
      | sl # _ \<Rightarrow> d\<lparr>cached_slice := Some (sl_size sl), slices := []\<rparr>)"

text \<open>The writer of a \<open>HeapBuffered\<close> object: at construction and after its \<open>Reset\<close>, which frees the slices.\<close>

definition HeapBuffered_init :: "nat \<Rightarrow> nat \<Rightarrow> 'm \<Rightarrow> (ScatteredHeapBuffer, 'm) stream" where
  "HeapBuffered_init initial_size max_size m =
     init_stream \<lparr>next_slice_size = initial_size, maximum_slice_size = max_size, writer_set = True,
                  slices = [], cached_slice = None\<rparr> m"

definition HeapBuffered_Reset :: "(ScatteredHeapBuffer, 'm) stream \<Rightarrow> (ScatteredHeapBuffer, 'm) stream" where
  "HeapBuffered_Reset s =
     (writer_Reset None s)\<lparr>heap := [], delegate := shb_Reset (delegate s)\<rparr>"

record StaticBufferDelegate =
  sb_len :: nat
  get_new_buffer_called_once :: bool

definition static_GetNewBuffer :: "(StaticBufferDelegate, 'm) get_new_buffer" where
  "static_GetNewBuffer s =
     (let d = delegate s in
      if get_new_buffer_called_once d then None
      else Some (s\<lparr>heap := heap s @ [\<lparr>c_cap = sb_len d, c_bytes = []\<rparr>],
                   delegate := d\<lparr>get_new_buffer_called_once := True\<rparr>\<rparr>,
                 \<lparr>rg_chunk = length (heap s), rg_begin = 0, rg_end = sb_len d\<rparr>))"

definition StaticBuffered_init :: "nat \<Rightarrow> 'm \<Rightarrow> (StaticBufferDelegate, 'm) stream" where
  "StaticBuffered_init len m = init_stream \<lparr>sb_len = len, get_new_buffer_called_once = False\<rparr> m"

text \<open>A sequence of \<open>WriteBytes\<close> calls.\<close>

fun write_all :: "('d, 'm) get_new_buffer \<Rightarrow> u8 list list \<Rightarrow> ('d, 'm) stream \<Rightarrow> ('d, 'm) stream option" where
  "write_all gnb [] s = Some s"
| "write_all gnb (b # bs) s = Option.bind (WriteBytes gnb b s) (write_all gnb bs)"

context fresh_delegate
begin

lemma write_all_good: "write_all gnb bss s = Some s' \<Longrightarrow> good s \<Longrightarrow> appends s (concat bss) s' \<and> good s'"
proof (induction bss arbitrary: s)
  case (Cons b bss)
  then obtain s1 where "WriteBytes gnb b s = Some s1" "write_all gnb bss s1 = Some s'"
    by (auto simp: bind_eq_Some_conv)
  with Cons WriteBytes_good show ?case by (metis appends_trans concat.simps(2))
qed simp

end

context growing_delegate
begin

lemma write_all_returns: "good s \<Longrightarrow> \<exists>s'. write_all gnb bss s = Some s'"
proof (induction bss arbitrary: s)
  case (Cons b bss)
  with WriteBytes_returns obtain s1 where "WriteBytes gnb b s = Some s1" by blast
  with Cons WriteBytes_good show ?case by (auto dest: WriteBytes_good)
qed simp

end

subsection \<open>The heap buffer fulfils the contract\<close>

definition heap_inv :: "nat \<Rightarrow> (ScatteredHeapBuffer, 'm) stream \<Rightarrow> bool" where
  "heap_inv m s \<longleftrightarrow>
     (let d = delegate s in
      writer_set d \<and> 0 < m \<and> m \<le> next_slice_size d \<and> m \<le> maximum_slice_size d \<and>
      (\<forall>sz. cached_slice d = Some sz \<longrightarrow> m \<le> sz) \<and> (\<forall>n \<in> set (map c_cap (heap s)). m \<le> n) \<and>
      map sl_chunk (slices d) = [0..<length (heap s)] \<and>
      map sl_size (slices d) = map c_cap (heap s) \<and>
      map (\<lambda>sl. sl_size sl - sl_unused_bytes sl) (butlast (slices d)) = map (length \<circ> c_bytes) (butlast (heap s)))"

lemma adjusted_slices:
  assumes inv: "heap_inv m s" and wf: "writer_wf s"
  shows "map sl_chunk (slices (delegate (AdjustUsedSizeOfCurrentSlice s))) = [0..<length (heap s)]"
    and "map sl_size (slices (delegate (AdjustUsedSizeOfCurrentSlice s))) = map c_cap (heap s)"
    and "map (\<lambda>sl. sl_size sl - sl_unused_bytes sl) (slices (delegate (AdjustUsedSizeOfCurrentSlice s))) =
           map (length \<circ> c_bytes) (heap s)"
    and "heap (AdjustUsedSizeOfCurrentSlice s) = heap s"
proof -
  let ?d = "delegate s"
  have ch: "map sl_chunk (slices ?d) = [0..<length (heap s)]" and sz: "map sl_size (slices ?d) = map c_cap (heap s)"
    and us: "map (\<lambda>sl. sl_size sl - sl_unused_bytes sl) (butlast (slices ?d)) = map (length \<circ> c_bytes) (butlast (heap s))"
    using inv by (simp_all add: heap_inv_def Let_def)
  have "length (slices ?d) = length (heap s)" using arg_cong [OF sz, of length] by simp
  then have nil: "slices ?d = [] \<longleftrightarrow> heap s = []" by (metis length_0_conv)
  show "heap (AdjustUsedSizeOfCurrentSlice s) = heap s"
    by (simp add: AdjustUsedSizeOfCurrentSlice_def Let_def)
  show "map sl_chunk (slices (delegate (AdjustUsedSizeOfCurrentSlice s))) = [0..<length (heap s)]"
    "map sl_size (slices (delegate (AdjustUsedSizeOfCurrentSlice s))) = map c_cap (heap s)"
    unfolding ch [symmetric] sz [symmetric]
    by (cases "slices ?d" rule: rev_cases; simp add: AdjustUsedSizeOfCurrentSlice_def set_unused_bytes_def)+
  show "map (\<lambda>sl. sl_size sl - sl_unused_bytes sl) (slices (delegate (AdjustUsedSizeOfCurrentSlice s))) =
           map (length \<circ> c_bytes) (heap s)"
  proof (cases "heap s" rule: rev_cases)
    case Nil
    with nil show ?thesis by (simp add: AdjustUsedSizeOfCurrentSlice_def Let_def)
  next
    case (snoc front c)
    then obtain sls sl where sl: "slices ?d = sls @ [sl]" using nil by (cases "slices ?d" rule: rev_cases) auto
    obtain r where r: "cur_range s = Some r" using wf snoc by (auto simp: writer_wf_def split: option.splits)
    have "bytes_available s = c_cap c - length (c_bytes c)" "length (c_bytes c) \<le> c_cap c"
      using wf snoc r by (auto simp: writer_wf_def bytes_available_def chunk_len_def)
    moreover have "sl_size sl = c_cap c" using sz sl snoc by simp
    ultimately show ?thesis
      using us sl snoc by (simp add: AdjustUsedSizeOfCurrentSlice_def Let_def set_unused_bytes_def)
  qed
qed

lemma StitchSlices_contents:
  assumes inv: "heap_inv m s" and wf: "writer_wf s"
  shows "fst (StitchSlices s) = contents s"
proof -
  let ?sl = "slices (delegate (AdjustUsedSizeOfCurrentSlice s))"
  note a = adjusted_slices [OF assms]
  have len: "length ?sl = length (heap s)" using arg_cong [OF a(2), of length] by simp
  have "GetUsedRange (heap s) (?sl ! i) = c_bytes (heap s ! i)" if i: "i < length (heap s)" for i
  proof -
    have "sl_chunk (?sl ! i) = i"
      using arg_cong [OF a(1), of "\<lambda>xs. xs ! i"] i len by simp
    moreover have "sl_size (?sl ! i) - sl_unused_bytes (?sl ! i) = length (c_bytes (heap s ! i))"
      using arg_cong [OF a(3), of "\<lambda>xs. xs ! i"] i len by simp
    ultimately show ?thesis by (simp add: GetUsedRange_def)
  qed
  then have "map (GetUsedRange (heap s)) ?sl = map c_bytes (heap s)"
    by (intro nth_equalityI) (simp_all add: len)
  then show ?thesis by (simp add: StitchSlices_def Let_def contents_def a(4))
qed

lemma heap_GetNewBuffer_inv:
  assumes inv: "heap_inv m s" and wf: "writer_wf s" and g: "heap_GetNewBuffer s = Some (s', r)"
  shows "heap_inv m (writer_Reset (Some r) s')" and "m \<le> rg_end r"
    and "heap s' = heap s @ [\<lparr>c_cap = rg_end r, c_bytes = []\<rparr>]"
    and "r = \<lparr>rg_chunk = length (heap s), rg_begin = 0, rg_end = rg_end r\<rparr>"
    and "cur_range s' = cur_range s" and "written_previously s' = written_previously s"
    and "writer_objs s' = writer_objs s"
proof -
  let ?s1 = "AdjustUsedSizeOfCurrentSlice s"
  let ?d = "delegate ?s1"
  let ?sz = "case cached_slice ?d of Some sz \<Rightarrow> sz | None \<Rightarrow> next_slice_size ?d"
  note a = adjusted_slices [OF inv wf]
  have d: "writer_set ?d" "next_slice_size ?d = next_slice_size (delegate s)"
    "maximum_slice_size ?d = maximum_slice_size (delegate s)" "cached_slice ?d = cached_slice (delegate s)"
    "cur_range ?s1 = cur_range s" "written_previously ?s1 = written_previously s" "writer_objs ?s1 = writer_objs s"
    using inv by (auto simp: AdjustUsedSizeOfCurrentSlice_def Let_def heap_inv_def)
  have w: "writer_set (delegate s)" using inv by (simp add: heap_inv_def Let_def)
  have s': "s' = ?s1\<lparr>heap := heap s @ [\<lparr>c_cap = ?sz, c_bytes = []\<rparr>],
      delegate := ?d\<lparr>slices := slices ?d @ [Slice_new (length (heap s)) ?sz], cached_slice := None,
        next_slice_size := min (maximum_slice_size ?d) (next_slice_size ?d * 2)\<rparr>\<rparr>"
    and r: "r = \<lparr>rg_chunk = length (heap s), rg_begin = 0, rg_end = ?sz\<rparr>"
    using g w by (simp_all add: heap_GetNewBuffer_def Let_def a(4))
  show "m \<le> rg_end r" using inv d by (auto simp: r heap_inv_def Let_def split: option.split)
  show "heap_inv m (writer_Reset (Some r) s')"
    using inv d a by (simp add: s' r heap_inv_def Let_def writer_Reset_def Slice_new_def butlast_append
        split: option.splits)
  show "heap s' = heap s @ [\<lparr>c_cap = rg_end r, c_bytes = []\<rparr>]"
    "r = \<lparr>rg_chunk = length (heap s), rg_begin = 0, rg_end = rg_end r\<rparr>"
    "cur_range s' = cur_range s" "written_previously s' = written_previously s"
    "writer_objs s' = writer_objs s"
    by (simp_all add: s' r d)
qed

lemma heap_inv_write:
  assumes "heap_inv m s" and "same_buffers s s'"
  shows "heap_inv m s'"
proof -
  have "length (heap s') = length (heap s)"
    using assms(2) list_all2_lengthD by (fastforce simp: same_buffers_def)
  with assms show ?thesis by (simp add: heap_inv_def same_buffers_def Let_def)
qed

interpretation hb: growing_delegate "heap_GetNewBuffer :: (ScatteredHeapBuffer, 'm) get_new_buffer" "heap_inv 4" 4
proof unfold_locales
  fix s s' :: "(ScatteredHeapBuffer, 'm) stream" and r
  assume a: "heap_inv 4 s" "writer_wf s" "heap_GetNewBuffer s = Some (s', r)"
  note b = heap_GetNewBuffer_inv [OF a]
  show "\<exists>cap. heap s' = heap s @ [\<lparr>c_cap = cap, c_bytes = []\<rparr>] \<and>
            r = \<lparr>rg_chunk = length (heap s), rg_begin = 0, rg_end = cap\<rparr> \<and>
            cur_range s' = cur_range s \<and> written_previously s' = written_previously s \<and>
            writer_objs s' = writer_objs s"
    using b(3-7) by blast
  show "heap_inv 4 (writer_Reset (Some r) s')" by (rule b(1))
next
  fix s s' :: "(ScatteredHeapBuffer, 'm) stream"
  assume "heap_inv 4 s" "same_buffers s s'"
  then show "heap_inv 4 s'" by (rule heap_inv_write)
next
  fix s :: "(ScatteredHeapBuffer, 'm) stream"
  assume a: "heap_inv 4 s" "writer_wf s"
  then have "writer_set (delegate s)" by (simp add: heap_inv_def Let_def)
  then obtain s' r where "heap_GetNewBuffer s = Some (s', r)"
    by (cases "heap_GetNewBuffer s") (auto simp: heap_GetNewBuffer_def Let_def)
  with heap_GetNewBuffer_inv(2) [OF a this] show "\<exists>s' r. heap_GetNewBuffer s = Some (s', r) \<and> 4 \<le> rg_end r"
    by blast
qed simp

lemma HeapBuffered_init_good:
  "4 \<le> i \<Longrightarrow> i \<le> k \<Longrightarrow> hb.good (HeapBuffered_init i k m)"
  by (simp add: hb.good_def HeapBuffered_init_def init_stream_def heap_inv_def writer_wf_def)

lemma HeapBuffered_Reset_good:
  assumes "hb.good s"
  shows "hb.good (HeapBuffered_Reset s) \<and> contents (HeapBuffered_Reset s) = []
       \<and> written (HeapBuffered_Reset s) = written s"
proof -
  have inv: "heap_inv 4 s" "writer_wf s" using assms by (simp_all add: hb.good_def)
  have "4 \<le> sl_size sl" if "slices (delegate s) = sl # sls" for sl sls
  proof -
    have "sl_size sl \<in> set (map c_cap (heap s))"
      using inv(1) that unfolding heap_inv_def Let_def by (metis list.set_intros(1) list.simps(9))
    with inv(1) show ?thesis by (auto simp: heap_inv_def Let_def)
  qed
  with inv(1) have "heap_inv 4 (HeapBuffered_Reset s)"
    by (cases "slices (delegate s)") (auto simp: HeapBuffered_Reset_def heap_inv_def shb_Reset_def Let_def)
  then show ?thesis
    by (simp add: hb.good_def HeapBuffered_Reset_def writer_Reset_def writer_wf_def contents_def
        written_def written_in_range_def)
qed

subsection \<open>The static buffer fulfils the partial contract\<close>

definition static_inv :: "(StaticBufferDelegate, 'm) stream \<Rightarrow> bool" where
  "static_inv s \<longleftrightarrow> (get_new_buffer_called_once (delegate s) \<longleftrightarrow> cur_range s \<noteq> None)
     \<and> (get_new_buffer_called_once (delegate s) \<longrightarrow> map c_cap (heap s) = [sb_len (delegate s)])"

interpretation sb: fresh_delegate "static_GetNewBuffer :: (StaticBufferDelegate, 'm) get_new_buffer" static_inv
proof unfold_locales
  fix s s' :: "(StaticBufferDelegate, 'm) stream" and r
  assume a: "static_inv s" "writer_wf s" "static_GetNewBuffer s = Some (s', r)"
  then show "\<exists>cap. heap s' = heap s @ [\<lparr>c_cap = cap, c_bytes = []\<rparr>] \<and>
            r = \<lparr>rg_chunk = length (heap s), rg_begin = 0, rg_end = cap\<rparr> \<and>
            cur_range s' = cur_range s \<and> written_previously s' = written_previously s \<and>
            writer_objs s' = writer_objs s"
    by (auto simp: static_GetNewBuffer_def Let_def split: if_splits)
  show "static_inv (writer_Reset (Some r) s')"
    using a by (auto simp: static_GetNewBuffer_def Let_def static_inv_def writer_Reset_def writer_wf_def
        split: if_splits)
next
  fix s s' :: "(StaticBufferDelegate, 'm) stream"
  assume "static_inv s" "same_buffers s s'"
  then show "static_inv s'" by (simp add: static_inv_def same_buffers_def)
qed

definition static_room :: "(StaticBufferDelegate, 'm) stream \<Rightarrow> nat" where
  "static_room s = (if get_new_buffer_called_once (delegate s) then bytes_available s else sb_len (delegate s))"

lemma static_room_contents:
  assumes "sb.good s"
  shows "static_room s = sb_len (delegate s) - length (contents s)" "length (contents s) \<le> sb_len (delegate s)"
proof -
  have "static_room s = sb_len (delegate s) - length (contents s) \<and> length (contents s) \<le> sb_len (delegate s)"
  proof (cases "get_new_buffer_called_once (delegate s)")
    case True
    with assms obtain r c where "cur_range s = Some r" "heap s = [c]" "c_cap c = sb_len (delegate s)"
      by (auto simp: sb.good_def static_inv_def map_eq_Cons_conv)
    with assms True show ?thesis
      by (simp add: sb.good_def writer_wf_def static_room_def bytes_available_def contents_def chunk_len_def)
  next
    case False
    with assms show ?thesis by (auto simp: sb.good_def static_inv_def writer_wf_def static_room_def contents_def)
  qed
  then show "static_room s = sb_len (delegate s) - length (contents s)" "length (contents s) \<le> sb_len (delegate s)"
    by simp_all
qed

text \<open>Once the buffer has been handed out, a write succeeds exactly when it fits.\<close>

lemma static_slow_called:
  assumes "get_new_buffer_called_once (delegate s)" and "sb.good s"
  shows "(length src \<le> bytes_available s \<longrightarrow>
            (\<exists>s'. WriteBytesSlowPath static_GetNewBuffer src s = Some s' \<and> delegate s' = delegate s))
       \<and> (bytes_available s < length src \<longrightarrow> WriteBytesSlowPath static_GetNewBuffer src s = None)"
  using assms
proof (induction "length src" arbitrary: src s rule: less_induct)
  case less
  let ?slow = "WriteBytesSlowPath static_GetNewBuffer"
  consider (nil) "src = []" | (full) "src \<noteq> []" "bytes_available s = 0" | (room) "src \<noteq> []" "0 < bytes_available s"
    by auto
  then show ?case
  proof cases
    case nil
    then show ?thesis by (simp add: WriteBytesSlowPath.simps)
  next
    case full
    then have "ensure_space static_GetNewBuffer s = None"
      using less.prems by (simp add: ensure_space_def Extend_def static_GetNewBuffer_def)
    with full show ?thesis by (subst (1 2) WriteBytesSlowPath.simps) simp
  next
    case room
    let ?b = "min (bytes_available s) (length src)"
    obtain s2 where s2: "WriteBytesUnsafe (take ?b src) s = Some s2"
      using WriteBytesUnsafe_returns [of "take ?b src" s] by auto
    note g2 = sb.WriteBytesUnsafe_good [OF less.prems(2) s2]
    have d: "delegate s2 = delegate s" using s2 by (auto simp: WriteBytesUnsafe_def split: if_splits option.splits)
    have "?slow src s = ?slow (drop ?b src) s2"
      using room s2 by (subst WriteBytesSlowPath.simps) (simp add: ensure_space_def)
    moreover have "bytes_available s2 = bytes_available s - ?b" using g2 by simp
    moreover have "length (drop ?b src) < length src" using room by simp
    moreover have "get_new_buffer_called_once (delegate s2)" using d less.prems(1) by simp
    ultimately show ?thesis using less.hyps [of "drop ?b src" s2] g2 d by auto
  qed
qed

lemma static_first_Extend:
  assumes "\<not> get_new_buffer_called_once (delegate s)"
  shows "\<exists>s'. Extend static_GetNewBuffer s = Some s' \<and> bytes_available s' = sb_len (delegate s)
    \<and> get_new_buffer_called_once (delegate s') \<and> sb_len (delegate s') = sb_len (delegate s)"
  using assms by (simp add: Extend_def static_GetNewBuffer_def Let_def writer_Reset_def bytes_available_def chunk_len_def)

lemma static_WriteBytes:
  assumes g: "sb.good s"
  shows "(length src \<le> static_room s \<longrightarrow>
            (\<exists>s'. WriteBytes static_GetNewBuffer src s = Some s' \<and> sb_len (delegate s') = sb_len (delegate s)))
       \<and> (static_room s < length src \<longrightarrow> WriteBytes static_GetNewBuffer src s = None)"
proof (cases "length src \<le> bytes_available s")
  case True
  then obtain s' where s': "WriteBytesUnsafe src s = Some s'" using WriteBytesUnsafe_returns by blast
  then have "sb_len (delegate s') = sb_len (delegate s)"
    by (auto simp: WriteBytesUnsafe_def split: if_splits option.splits)
  moreover have "\<not> static_room s < length src"
    using True g by (auto simp: static_room_def bytes_available_def sb.good_def static_inv_def split: option.splits)
  ultimately show ?thesis using True s' by (simp add: WriteBytes_def)
next
  case False
  show ?thesis
  proof (cases "get_new_buffer_called_once (delegate s)")
    case True
    with static_slow_called [OF True g, of src] False show ?thesis
      by (auto simp: WriteBytes_def static_room_def)
  next
    case new: False
    then have "bytes_available s = 0"
      using g by (simp add: sb.good_def static_inv_def bytes_available_def)
    moreover obtain s1 where s1: "Extend static_GetNewBuffer s = Some s1" "bytes_available s1 = sb_len (delegate s)"
      "get_new_buffer_called_once (delegate s1)" "sb_len (delegate s1) = sb_len (delegate s)"
      using static_first_Extend [OF new] by blast
    moreover have "sb.good s1" using sb.Extend_appends [OF g s1(1)] by simp
    moreover let ?b = "min (bytes_available s1) (length src)"
    obtain s2 where s2: "WriteBytesUnsafe (take ?b src) s1 = Some s2"
      using WriteBytesUnsafe_returns [of "take ?b src" s1] by auto
    ultimately have g2: "sb.good s2" "bytes_available s2 = bytes_available s1 - ?b"
      using sb.WriteBytesUnsafe_good [of s1 _ s2] by auto
    have d: "delegate s2 = delegate s1" using s2 by (auto simp: WriteBytesUnsafe_def split: if_splits option.splits)
    have "src \<noteq> []" using False by auto
    then have "WriteBytes static_GetNewBuffer src s = WriteBytesSlowPath static_GetNewBuffer (drop ?b src) s2"
      using False s1(1) s2 \<open>bytes_available s = 0\<close>
      by (simp only: WriteBytes_def if_False, subst WriteBytesSlowPath.simps) (simp add: ensure_space_def)
    with static_slow_called [of s2 "drop ?b src"] g2 d s1 new show ?thesis
      by (auto simp: static_room_def)
  qed
qed

lemma static_write_all:
  "sb.good s \<Longrightarrow> (length (concat bss) \<le> static_room s \<longleftrightarrow> (\<exists>s'. write_all static_GetNewBuffer bss s = Some s'))"
proof (induction bss arbitrary: s)
  case (Cons b bss)
  note w = static_WriteBytes [OF Cons.prems, of b]
  show ?case
  proof (cases "length b \<le> static_room s")
    case True
    with w obtain s1 where s1: "WriteBytes static_GetNewBuffer b s = Some s1" "sb_len (delegate s1) = sb_len (delegate s)"
      by blast
    have g1: "appends s b s1" "sb.good s1" using sb.WriteBytes_good [OF s1(1) Cons.prems] by simp_all
    have "static_room s1 = static_room s - length b"
      using static_room_contents [OF Cons.prems] static_room_contents [OF g1(2)] g1(1) s1(2)
      by (simp add: appends_def)
    with Cons.IH [OF g1(2)] True s1 show ?thesis by auto
  qed (use w in simp)
qed simp

subsection \<open>Properties\<close>

text \<open>Any sequence of writes of any sizes through a heap buffer whose slices
  hold at least four bytes returns, and stitching the slices yields exactly the bytes written, in
  order, however they were split over slices; \<open>written()\<close> counts them.\<close>
theorem heap_buffer_stitched:
  assumes "4 \<le> initial_size" and "initial_size \<le> max_size"
  shows "\<exists>s'. write_all heap_GetNewBuffer bss (HeapBuffered_init initial_size max_size m) = Some s'
     \<and> fst (StitchSlices s') = concat bss \<and> written s' = length (concat bss)"
proof -
  let ?s = "HeapBuffered_init initial_size max_size m"
  have g: "hb.good ?s" by (rule HeapBuffered_init_good [OF assms])
  obtain s' where s': "write_all heap_GetNewBuffer bss ?s = Some s'" using hb.write_all_returns [OF g] by blast
  from hb.write_all_good [OF s' g] have "contents s' = concat bss" "written s' = length (concat bss)" "hb.good s'"
    by (simp_all add: appends_def HeapBuffered_init_def init_stream_def contents_def written_def written_in_range_def)
  with StitchSlices_contents [of 4 s'] s' show ?thesis by (simp add: hb.good_def)
qed

theorem heap_buffer_stitched_witness:
  "\<exists>s'. write_all heap_GetNewBuffer [[1, 2, 3], [4, 5, 6, 7, 8, 9, 10]] (HeapBuffered_init 4 8 ()) = Some s'
     \<and> fst (StitchSlices s') = [1, 2, 3, 4, 5, 6, 7, 8, 9, 10]"
  using heap_buffer_stitched [of 4 8 "[[1, 2, 3], [4, 5, 6, 7, 8, 9, 10]]" "()"] by auto

text \<open>Writes into a static buffer of \<open>len\<close> bytes succeed if and only if they fit
  in total (otherwise the process is aborted, nothing is written past the end), and then the buffer
  holds exactly the bytes written.\<close>
theorem static_buffer_exact:
  "(length (concat bss) \<le> len) =
     (\<exists>s'. write_all static_GetNewBuffer bss (StaticBuffered_init len m) = Some s' \<and> contents s' = concat bss)"
proof -
  let ?s = "StaticBuffered_init len m"
  have g: "sb.good ?s"
    by (simp add: sb.good_def StaticBuffered_init_def init_stream_def static_inv_def writer_wf_def)
  have "static_room ?s = len" by (simp add: static_room_def StaticBuffered_init_def init_stream_def)
  moreover have "contents s' = concat bss" if "write_all static_GetNewBuffer bss ?s = Some s'" for s'
    using sb.write_all_good [OF that g]
    by (simp add: appends_def StaticBuffered_init_def init_stream_def contents_def)
  ultimately show ?thesis using static_write_all [OF g, of bss] by auto
qed

end
