(* ===== verification/Proto_Message.thy ===== *)
theory Proto_Message
  imports Proto_Utils Buffer_Delegates
begin

section \<open>Append-only messages (protozero/message.h, message.cc)\<close>

text \<open>
  A \<open>Message\<close> serialises itself into a stream as its fields are appended. The chain of open
  messages (the root, its open nested message, that one's nested message, ...) is the list
  \<open>writer_objs\<close> of the stream, so a message is named by its depth; \<open>nested_message_\<close> of the message at
  depth \<open>d\<close> is non-null exactly when depth \<open>d + 1\<close> exists. The arena of \<open>Message_Arena\<close> holds the
  messages of depth one and more. A store through a pointer to a message that has left the
  chain (its arena slot is free) changes nothing that is read again and is dropped.
\<close>

record message =
  m_size_field :: "ptr option"
  m_size :: u32
  m_size_already_written :: u32
  m_finalized :: bool

definition fresh_message :: message where
  "fresh_message = \<lparr>m_size_field = None, m_size = 0, m_size_already_written = 0, m_finalized = False\<rparr>"

type_synonym 'd mstream = "('d, message list) stream"
type_synonym 'd mdelegate = "('d, message list) get_new_buffer"

definition upd_msg :: "nat \<Rightarrow> (message \<Rightarrow> message) \<Rightarrow> 'd mstream \<Rightarrow> 'd mstream" where
  "upd_msg d f s =
     (if d < length (writer_objs s)
      then s\<lparr>writer_objs := (writer_objs s)[d := f (writer_objs s ! d)]\<rparr> else s)"

definition add_size :: "u32 \<Rightarrow> message \<Rightarrow> message" where
  "add_size n m = m\<lparr>m_size := m_size m + n\<rparr>"

text \<open>\<open>RootMessage::Reset\<close> forgets all nested messages and reinitialises the root.\<close>

definition root_Reset :: "'d mstream \<Rightarrow> 'd mstream" where
  "root_Reset s = s\<lparr>writer_objs := [fresh_message]\<rparr>"

definition set_size_field :: "nat \<Rightarrow> ptr \<Rightarrow> 'd mstream \<Rightarrow> 'd mstream" where
  "set_size_field d p = upd_msg d (\<lambda>m. m\<lparr>m_size_field := Some p\<rparr>)"

definition inc_size_already_written :: "nat \<Rightarrow> u32 \<Rightarrow> 'd mstream \<Rightarrow> 'd mstream" where
  "inc_size_already_written d n =
     upd_msg d (\<lambda>m. m\<lparr>m_size_already_written := m_size_already_written m + n\<rparr>)"

text \<open>The length is cast to 32 bits, and only so many bytes are written.\<close>

definition WriteToStream :: "'d mdelegate \<Rightarrow> nat \<Rightarrow> u8 list \<Rightarrow> 'd mstream \<Rightarrow> 'd mstream option" where
  "WriteToStream gnb d src s =
     (let sz = word_of_nat (length src) :: u32
      in map_option (upd_msg d (add_size sz)) (WriteBytes gnb (take (unat sz) src) s))"

text \<open>The last part of \<open>Finalize\<close>: backfill the size field, mark the message.\<close>

definition seal :: "nat \<Rightarrow> 'd mstream \<Rightarrow> 'd mstream" where
  "seal d s =
     (let m = writer_objs s ! d;
          s1 = (case m_size_field m of
                  None \<Rightarrow> s
                | Some p \<Rightarrow> poke p (WriteRedundantVarInt (m_size m - m_size_already_written m)) s)
      in upd_msg d (\<lambda>m. m\<lparr>m_size_field := None, m_finalized := True\<rparr>) s1)"

text \<open>The rest of \<open>EndNestedMessage\<close>, once the nested message is finalized with size \<open>n\<close>.\<close>

definition pop_nested :: "nat \<Rightarrow> u32 \<Rightarrow> 'd mstream \<Rightarrow> 'd mstream" where
  "pop_nested d n s =
     (let s1 = upd_msg d (add_size n) s in s1\<lparr>writer_objs := butlast (writer_objs s1)\<rparr>)"

function Finalize :: "nat \<Rightarrow> 'd mstream \<Rightarrow> (u32 \<times> 'd mstream) option" where
  "Finalize d s =
     (if d \<ge> length (writer_objs s) then None
      else if m_finalized (writer_objs s ! d) then Some (m_size (writer_objs s ! d), s)
      else
        map_option (\<lambda>s1. (m_size (writer_objs s1 ! d), seal d s1))
          (if Suc d < length (writer_objs s)
           then map_option (\<lambda>(n, s1). pop_nested d n s1) (Finalize (Suc d) s)
           else Some s))"
  by pat_completeness auto
termination
  by (relation "measure (\<lambda>(d, s). length (writer_objs s) - d)") auto

declare Finalize.simps [simp del]

definition EndNestedMessage :: "nat \<Rightarrow> 'd mstream \<Rightarrow> 'd mstream option" where
  "EndNestedMessage d s = map_option (\<lambda>(n, s1). pop_nested d n s1) (Finalize (Suc d) s)"

text \<open>\<^verbatim>\<open>if (nested_message_) EndNestedMessage();\<close>\<close>

definition close_nested :: "nat \<Rightarrow> 'd mstream \<Rightarrow> 'd mstream option" where
  "close_nested d s = (if Suc d < length (writer_objs s) then EndNestedMessage d s else Some s)"

definition AppendVarInt :: "'d mdelegate \<Rightarrow> nat \<Rightarrow> u32 \<Rightarrow> 'a::len word \<Rightarrow> 'd mstream \<Rightarrow> 'd mstream option" where
  "AppendVarInt gnb d field_id v s =
     Option.bind (close_nested d s)
       (WriteToStream gnb d (WriteVarInt (MakeTagVarInt field_id) @ WriteVarInt v))"

definition AppendSignedVarInt :: "'d mdelegate \<Rightarrow> nat \<Rightarrow> u32 \<Rightarrow> 'a::len word \<Rightarrow> 'd mstream \<Rightarrow> 'd mstream option" where
  "AppendSignedVarInt gnb d field_id v = AppendVarInt gnb d field_id (ZigZagEncode v)"

definition AppendTinyVarInt :: "'d mdelegate \<Rightarrow> nat \<Rightarrow> u32 \<Rightarrow> i32 \<Rightarrow> 'd mstream \<Rightarrow> 'd mstream option" where
  "AppendTinyVarInt gnb d field_id v s =
     Option.bind (close_nested d s)
       (WriteToStream gnb d (WriteVarInt (MakeTagVarInt field_id) @ [ucast v]))"

definition AppendFixed :: "'d mdelegate \<Rightarrow> nat \<Rightarrow> nat \<Rightarrow> u32 \<Rightarrow> 'a::len word \<Rightarrow> 'd mstream \<Rightarrow> 'd mstream option" where
  "AppendFixed gnb sizeof_T d field_id v s =
     Option.bind (close_nested d s)
       (WriteToStream gnb d (WriteVarInt (MakeTagFixed sizeof_T field_id) @ store_le sizeof_T v))"

definition AppendBytes :: "'d mdelegate \<Rightarrow> nat \<Rightarrow> u32 \<Rightarrow> u8 list \<Rightarrow> 'd mstream \<Rightarrow> 'd mstream option" where
  "AppendBytes gnb d field_id src s =
     Option.bind (close_nested d s) (\<lambda>s1.
     Option.bind (WriteToStream gnb d
         (WriteVarInt (MakeTagLengthDelimited field_id) @ WriteVarInt (word_of_nat (length src) :: u32)) s1)
       (WriteToStream gnb d src))"

text \<open>A C string is given as its bytes up to the terminating NUL.\<close>

definition AppendString :: "'d mdelegate \<Rightarrow> nat \<Rightarrow> u32 \<Rightarrow> u8 list \<Rightarrow> 'd mstream \<Rightarrow> 'd mstream option" where
  "AppendString gnb d field_id str = AppendBytes gnb d field_id (takeWhile (\<lambda>c. c \<noteq> 0) str)"

fun write_ranges :: "'d mdelegate \<Rightarrow> nat \<Rightarrow> u8 list list \<Rightarrow> 'd mstream \<Rightarrow> 'd mstream option" where
  "write_ranges gnb d [] s = Some s"
| "write_ranges gnb d (r # rs) s = Option.bind (WriteToStream gnb d r s) (write_ranges gnb d rs)"

text \<open>Neither of these two closes an open nested message first.\<close>

definition AppendScatteredBytes :: "'d mdelegate \<Rightarrow> nat \<Rightarrow> u32 \<Rightarrow> u8 list list \<Rightarrow> 'd mstream \<Rightarrow> (nat \<times> 'd mstream) option" where
  "AppendScatteredBytes gnb d field_id ranges s =
     (let sz = sum_list (map length ranges) in
      Option.bind (WriteToStream gnb d
         (WriteVarInt (MakeTagLengthDelimited field_id) @ WriteVarInt (word_of_nat sz :: u32)) s)
       (\<lambda>s1. map_option (\<lambda>s2. (sz, s2)) (write_ranges gnb d ranges s1)))"

definition AppendRawProtoBytes :: "'d mdelegate \<Rightarrow> nat \<Rightarrow> u8 list \<Rightarrow> 'd mstream \<Rightarrow> 'd mstream option" where
  "AppendRawProtoBytes gnb d data = WriteToStream gnb d data"

definition BeginNestedMessage :: "'d mdelegate \<Rightarrow> nat \<Rightarrow> u32 \<Rightarrow> 'd mstream \<Rightarrow> 'd mstream option" where
  "BeginNestedMessage gnb d field_id s =
     Option.bind (close_nested d s) (\<lambda>s1.
     Option.bind (WriteToStream gnb d (WriteVarInt (MakeTagLengthDelimited field_id)) s1) (\<lambda>s2.
     map_option (\<lambda>(p, s3). let s4 = upd_msg d (add_size (word_of_nat kMessageLengthFieldSize)) s3 in
         s4\<lparr>writer_objs := writer_objs s4 @ [fresh_message\<lparr>m_size_field := Some p\<rparr>]\<rparr>)
       (ReserveBytes gnb kMessageLengthFieldSize s2)))"

subsection \<open>The abstract message and its encoding\<close>

text \<open>
  What a message means, independently of streams and chunks: a tree of fields. Nested
  messages are encoded with a length field of fixed width.
\<close>

datatype pb_field =
    PbVarInt u32 u64
  | PbFixed32 u32 u32
  | PbFixed64 u32 u64
  | PbBytes u32 "u8 list"
  | PbMsg u32 "pb_field list"

fun encode_field :: "pb_field \<Rightarrow> u8 list" and encode_fields :: "pb_field list \<Rightarrow> u8 list" where
  "encode_field (PbVarInt i v) = WriteVarInt (MakeTagVarInt i) @ WriteVarInt v"
| "encode_field (PbFixed32 i v) = WriteVarInt (MakeTagFixed 4 i) @ store_le 4 v"
| "encode_field (PbFixed64 i v) = WriteVarInt (MakeTagFixed 8 i) @ store_le 8 v"
| "encode_field (PbBytes i bs) =
     WriteVarInt (MakeTagLengthDelimited i) @ WriteVarInt (word_of_nat (length bs) :: u32) @ bs"
| "encode_field (PbMsg i fs) =
     WriteVarInt (MakeTagLengthDelimited i) @
     WriteRedundantVarInt (word_of_nat (length (encode_fields fs))) @ encode_fields fs"
| "encode_fields [] = []"
| "encode_fields (f # fs) = encode_field f @ encode_fields fs"

text \<open>Every string or bytes field of the tree is shorter than \<open>n\<close>. The code asserts this, in debug builds, for
  \<open>kMaxMessageLength\<close>; from \<open>2 ^ 32\<close> on a field is cut off.\<close>

fun payloads_below :: "nat \<Rightarrow> pb_field \<Rightarrow> bool" where
  "payloads_below n (PbBytes i bs) \<longleftrightarrow> length bs < n"
| "payloads_below n (PbMsg i fs) \<longleftrightarrow> (\<forall>f \<in> set fs. payloads_below n f)"
| "payloads_below n f \<longleftrightarrow> True"

text \<open>The calls a client makes to write the tree into the message at depth \<open>d\<close>.\<close>

fun put_field :: "'d mdelegate \<Rightarrow> nat \<Rightarrow> pb_field \<Rightarrow> 'd mstream \<Rightarrow> 'd mstream option"
  and put_fields :: "'d mdelegate \<Rightarrow> nat \<Rightarrow> pb_field list \<Rightarrow> 'd mstream \<Rightarrow> 'd mstream option" where
  "put_field gnb d (PbVarInt i v) s = AppendVarInt gnb d i v s"
| "put_field gnb d (PbFixed32 i v) s = AppendFixed gnb 4 d i v s"
| "put_field gnb d (PbFixed64 i v) s = AppendFixed gnb 8 d i v s"
| "put_field gnb d (PbBytes i bs) s = AppendBytes gnb d i bs s"
| "put_field gnb d (PbMsg i fs) s = Option.bind (BeginNestedMessage gnb d i s) (put_fields gnb (Suc d) fs)"
| "put_fields gnb d [] s = Some s"
| "put_fields gnb d (f # fs) s = Option.bind (put_field gnb d f s) (put_fields gnb d fs)"

text \<open>\<open>HeapBuffered<T>\<close>: build a root message and serialise it (scattered_heap_buffer.h).\<close>

definition SerializeAsArray :: "ScatteredHeapBuffer mstream \<Rightarrow> (u8 list \<times> ScatteredHeapBuffer mstream) option" where
  "SerializeAsArray s = map_option (\<lambda>(n, s1). StitchSlices s1) (Finalize 0 s)"

definition HeapBuffered :: "nat \<Rightarrow> nat \<Rightarrow> ScatteredHeapBuffer mstream" where
  "HeapBuffered initial_size max_size = root_Reset (HeapBuffered_init initial_size max_size [])"

definition HeapBuffered_serialize :: "nat \<Rightarrow> nat \<Rightarrow> pb_field list \<Rightarrow> u8 list option" where
  "HeapBuffered_serialize initial_size max_size fs =
     Option.bind (put_fields heap_GetNewBuffer 0 fs (HeapBuffered initial_size max_size))
       (\<lambda>s. map_option fst (SerializeAsArray s))"

subsection \<open>What a write does to the chain of messages\<close>

text \<open>
  \<open>grows\<close> is \<open>appends\<close> without the claim on the messages; \<open>adds d\<close> moreover says that only the size of
  the message at depth \<open>d\<close> has changed, by the number of bytes.
\<close>

definition grows :: "'d mstream \<Rightarrow> u8 list \<Rightarrow> 'd mstream \<Rightarrow> bool" where
  "grows s bs s' \<longleftrightarrow>
     contents s' = contents s @ bs \<and> written s' = written s + length bs \<and>
     (\<forall>n p. ptr_ok n s p \<longrightarrow> ptr_ok n s' p \<and> ptr_pos s' p = ptr_pos s p)"

definition adds :: "nat \<Rightarrow> 'd mstream \<Rightarrow> u8 list \<Rightarrow> 'd mstream \<Rightarrow> bool" where
  "adds d s bs s' \<longleftrightarrow> grows s bs s' \<and>
     writer_objs s' = (writer_objs s)[d := add_size (word_of_nat (length bs)) (writer_objs s ! d)]"

lemma add_size_0 [simp]: "add_size 0 m = m"
  by (simp add: add_size_def)

lemma add_size_add_size [simp]: "add_size b (add_size a m) = add_size (a + b) m"
  by (simp add: add_size_def add.assoc)

lemma add_size_fields [simp]:
  "m_size (add_size n m) = m_size m + n" "m_size_field (add_size n m) = m_size_field m"
  "m_size_already_written (add_size n m) = m_size_already_written m" "m_finalized (add_size n m) = m_finalized m"
  by (simp_all add: add_size_def)

lemma upd_msg_simps [simp]:
  "heap (upd_msg d f s) = heap s" "cur_range (upd_msg d f s) = cur_range s"
  "written_previously (upd_msg d f s) = written_previously s" "delegate (upd_msg d f s) = delegate s"
  "writer_objs (upd_msg d f s) =
     (if d < length (writer_objs s) then (writer_objs s)[d := f (writer_objs s ! d)] else writer_objs s)"
  by (simp_all add: upd_msg_def)

text \<open>Nothing the writer computes depends on the messages.\<close>

lemma view_cong:
  assumes "heap s' = heap s" and "cur_range s' = cur_range s" and "written_previously s' = written_previously s"
  shows "contents s' = contents s" and "written s' = written s" and "writer_wf s' = writer_wf s"
    and "ptr_ok n s' p = ptr_ok n s p" and "ptr_pos s' p = ptr_pos s p"
    and "bytes_available s' = bytes_available s" and "chunk_len s' k = chunk_len s k"
  using assms by (simp_all add: contents_def written_def written_in_range_def writer_wf_def ptr_ok_def
      ptr_pos_def chunk_len_def bytes_available_def cong: option.case_cong)

lemma grows_refl [simp]: "grows s [] s"
  by (simp add: grows_def)

lemma grows_trans: "grows s xs s1 \<Longrightarrow> grows s1 ys s2 \<Longrightarrow> grows s (xs @ ys) s2"
  unfolding grows_def by (metis append.assoc add.assoc length_append)

lemma grows_view:
  assumes "heap s' = heap s" and "cur_range s' = cur_range s" and "written_previously s' = written_previously s"
  shows "grows t bs s' = grows t bs s" and "grows s' bs t = grows s bs t"
  by (simp_all add: grows_def view_cong [OF assms])

lemma grows_upd_msg [simp]:
  "grows t bs (upd_msg d f s) = grows t bs s" "grows (upd_msg d f s) bs t = grows s bs t"
  using grows_view [of "upd_msg d f s" s] by simp_all

lemma grows_writer_objs [simp]:
  "grows t bs (s\<lparr>writer_objs := ms\<rparr>) = grows t bs s" "grows (s\<lparr>writer_objs := ms\<rparr>) bs t = grows s bs t"
  using grows_view [of "s\<lparr>writer_objs := ms\<rparr>" s] by simp_all

lemma appends_grows: "appends s bs s' \<Longrightarrow> grows s bs s'"
  by (simp add: appends_def grows_def)

lemma adds_trans: "adds d s xs s1 \<Longrightarrow> adds d s1 ys s2 \<Longrightarrow> adds d s (xs @ ys) s2"
  by (cases "d < length (writer_objs s)") (auto simp: adds_def list_update_beyond intro: grows_trans)

lemma adds_refl [simp]: "adds d s [] s"
  by (simp add: adds_def)

lemma adds_length [simp]: "adds d s bs s' \<Longrightarrow> length (writer_objs s') = length (writer_objs s)"
  by (simp add: adds_def)

lemma Finalize_open:
  "d < length (writer_objs s) \<Longrightarrow> \<not> m_finalized (writer_objs s ! d) \<Longrightarrow>
     Finalize d s = map_option (\<lambda>s1. (m_size (writer_objs s1 ! d), seal d s1)) (close_nested d s)"
  by (subst Finalize.simps) (simp add: close_nested_def EndNestedMessage_def)

lemma Finalize_again:
  "d < length (writer_objs s) \<Longrightarrow> m_finalized (writer_objs s ! d) \<Longrightarrow>
     Finalize d s = Some (m_size (writer_objs s ! d), s)"
  by (subst Finalize.simps) simp

subsection \<open>The contract a message needs of its writer, and what it gives its clients\<close>

text \<open>
  \<open>room n s\<close>: \<open>n\<close> more bytes can be written. A delegate that always finds memory gives room for any
  number; a writer that must not call its delegate has the room of its current range.

  \<open>clean d s\<close>: the message at depth \<open>d\<close> is the innermost open one. \<open>closes d s t\<close>: closing whatever is
  nested below depth \<open>d\<close> in \<open>s\<close> returns and gives \<open>t\<close>; every \<open>Append*\<close> call starts with this step.
\<close>

locale msg_writer =
  fixes gnb :: "('d, message list) get_new_buffer"
    and good :: "('d, message list) stream \<Rightarrow> bool"
    and room :: "nat \<Rightarrow> ('d, message list) stream \<Rightarrow> bool"
  assumes good_wf: "good s \<Longrightarrow> writer_wf s"
    and writes: "good s \<Longrightarrow> room (length bs) s \<Longrightarrow> \<exists>s'. WriteBytes gnb bs s = Some s' \<and> appends s bs s' \<and> good s' \<and>
      (\<forall>n. room (length bs + n) s \<longrightarrow> room n s')"
    and reserves: "good s \<Longrightarrow> room kMessageLengthFieldSize s \<Longrightarrow> \<exists>p s'. ReserveBytes gnb kMessageLengthFieldSize s = Some (p, s') \<and>
      appends s (replicate kMessageLengthFieldSize 0) s' \<and> good s' \<and>
      ptr_ok kMessageLengthFieldSize s' p \<and> ptr_pos s' p = length (contents s) \<and>
      (\<forall>n. room (kMessageLengthFieldSize + n) s \<longrightarrow> room n s')"
    and good_poke: "good s \<Longrightarrow> ptr_ok (length bs) s p \<Longrightarrow> good (poke p bs s)"
    and room_poke: "good s \<Longrightarrow> ptr_ok (length bs) s p \<Longrightarrow> room n s \<Longrightarrow> room n (poke p bs s)"
    and good_view: "good s \<Longrightarrow> heap s' = heap s \<Longrightarrow> cur_range s' = cur_range s \<Longrightarrow>
      written_previously s' = written_previously s \<Longrightarrow> delegate s' = delegate s \<Longrightarrow> good s'"
    and room_view: "room n s \<Longrightarrow> heap s' = heap s \<Longrightarrow> cur_range s' = cur_range s \<Longrightarrow>
      written_previously s' = written_previously s \<Longrightarrow> delegate s' = delegate s \<Longrightarrow> room n s'"
    and room_less: "room (m + n) s \<Longrightarrow> room m s"
begin

definition clean :: "nat \<Rightarrow> 'd mstream \<Rightarrow> bool" where
  "clean d s \<longleftrightarrow> good s \<and> length (writer_objs s) = Suc d \<and> (\<forall>j \<le> d. \<not> m_finalized (writer_objs s ! j))"

definition closes :: "nat \<Rightarrow> 'd mstream \<Rightarrow> 'd mstream \<Rightarrow> bool" where
  "closes d s t \<longleftrightarrow> d < length (writer_objs s) \<and> (\<forall>j \<le> d. \<not> m_finalized (writer_objs s ! j)) \<and>
     close_nested d s = Some t \<and> clean d t"

text \<open>\<open>advance\<close> is \<open>adds\<close> with what it costs in room.\<close>

definition advance :: "nat \<Rightarrow> 'd mstream \<Rightarrow> u8 list \<Rightarrow> 'd mstream \<Rightarrow> bool" where
  "advance d s bs s' \<longleftrightarrow> adds d s bs s' \<and> (\<forall>n. room (length bs + n) s \<longrightarrow> room n s')"

lemma advance_trans: "advance d s xs s1 \<Longrightarrow> advance d s1 ys s2 \<Longrightarrow> advance d s (xs @ ys) s2"
  using adds_trans by (fastforce simp: advance_def add.assoc)

lemma advance_room: "advance d s xs s1 \<Longrightarrow> room (length xs + n) s \<Longrightarrow> room n s1"
  by (simp add: advance_def)

lemma good_upd_msg: "good s \<Longrightarrow> good (upd_msg d f s)"
  by (rule good_view) simp_all

lemma clean_closes: "clean d s \<Longrightarrow> closes d s s"
  by (simp add: clean_def closes_def close_nested_def)

lemma WriteToStream_advance:
  assumes c: "clean d s" and r: "room (length bs) s" and short: "length bs < 2 ^ 32"
  shows "\<exists>s'. WriteToStream gnb d bs s = Some s' \<and> clean d s' \<and> advance d s bs s'"
proof -
  have g: "good s" and l: "length (writer_objs s) = Suc d" using c by (simp_all add: clean_def)
  from writes [OF g r] obtain s1 where w: "WriteBytes gnb bs s = Some s1"
    and a: "appends s bs s1" "good s1" and room1: "\<forall>n. room (length bs + n) s \<longrightarrow> room n s1" by blast
  then have o1: "writer_objs s1 = writer_objs s" by (simp add: appends_def)
  let ?s' = "upd_msg d (add_size (word_of_nat (length bs))) s1"
  have "adds d s bs ?s'"
    using appends_grows [OF a(1)] l by (simp add: adds_def o1)
  moreover have "clean d ?s'"
    using good_upd_msg [OF a(2)] c by (simp add: clean_def o1 nth_list_update)
  moreover have "room n s1 \<Longrightarrow> room n ?s'" for n by (erule room_view) simp_all
  moreover have "take (unat (word_of_nat (length bs) :: u32)) bs = bs" using short by (simp add: unat_of_nat)
  ultimately show ?thesis using w room1 by (simp add: WriteToStream_def advance_def)
qed

lemma length_WriteVarInt_u32: "length (WriteVarInt (v :: u32)) \<le> 5"
  using unsigned_less [of v, where ?'a = nat] by (intro length_WriteVarInt_le) simp_all

lemma tag_short: "length (WriteVarInt (v :: u32)) < 4294967295" "length (WriteVarInt (v :: u32)) < 4294967296"
  using length_WriteVarInt_u32 [of v] by simp_all

lemma bind_closes:
  assumes "closes d s t" and "room n t"
    and "\<And>u. clean d u \<Longrightarrow> room n u \<Longrightarrow> \<exists>s'. k u = Some s' \<and> clean d s' \<and> advance d u bs s'"
  shows "\<exists>s'. Option.bind (close_nested d s) k = Some s' \<and> clean d s' \<and> advance d t bs s'"
  using assms by (auto simp: closes_def)

lemma AppendVarInt_advance:
  "closes d s t \<Longrightarrow> room (length (WriteVarInt (MakeTagVarInt i) @ WriteVarInt v)) t \<Longrightarrow>
     length (WriteVarInt (MakeTagVarInt i) @ WriteVarInt v) < 2 ^ 32 \<Longrightarrow>
     \<exists>s'. AppendVarInt gnb d i v s = Some s' \<and> clean d s' \<and>
     advance d t (WriteVarInt (MakeTagVarInt i) @ WriteVarInt v) s'"
  unfolding AppendVarInt_def by (rule bind_closes) (auto intro: WriteToStream_advance)

lemma AppendTinyVarInt_advance:
  "closes d s t \<Longrightarrow> room (length (WriteVarInt (MakeTagVarInt i) @ [ucast v])) t \<Longrightarrow>
     \<exists>s'. AppendTinyVarInt gnb d i v s = Some s' \<and> clean d s' \<and>
     advance d t (WriteVarInt (MakeTagVarInt i) @ [ucast v]) s'"
  unfolding AppendTinyVarInt_def by (rule bind_closes) (auto intro: WriteToStream_advance simp: tag_short)

lemma AppendFixed_advance:
  "closes d s t \<Longrightarrow> room (length (WriteVarInt (MakeTagFixed n i) @ store_le n v)) t \<Longrightarrow>
     length (WriteVarInt (MakeTagFixed n i) @ store_le n v) < 2 ^ 32 \<Longrightarrow>
     \<exists>s'. AppendFixed gnb n d i v s = Some s' \<and> clean d s' \<and>
     advance d t (WriteVarInt (MakeTagFixed n i) @ store_le n v) s'"
  unfolding AppendFixed_def by (rule bind_closes) (auto intro: WriteToStream_advance)

lemma AppendBytes_advance:
  assumes "closes d s t" and "room (length (encode_field (PbBytes i src))) t" and short: "length src < 2 ^ 32"
  shows "\<exists>s'. AppendBytes gnb d i src s = Some s' \<and> clean d s' \<and> advance d t (encode_field (PbBytes i src)) s'"
  unfolding AppendBytes_def
proof (rule bind_closes [OF assms(1,2)])
  fix u :: "'d mstream"
  let ?hdr = "WriteVarInt (MakeTagLengthDelimited i) @ WriteVarInt (word_of_nat (length src) :: u32)"
  assume u: "clean d u" and "room (length (encode_field (PbBytes i src))) u"
  then have r: "room (length ?hdr + length src) u" by (simp add: add.assoc)
  have "length ?hdr < 2 ^ 32"
    using length_WriteVarInt_u32 [of "MakeTagLengthDelimited i"] length_WriteVarInt_u32 [of "word_of_nat (length src)"] by simp
  from WriteToStream_advance [OF u room_less [OF r] this] obtain u1 where u1:
    "WriteToStream gnb d ?hdr u = Some u1" "clean d u1" "advance d u ?hdr u1" by blast
  from WriteToStream_advance [OF u1(2) advance_room [OF u1(3) r] short] obtain u2 where
    "WriteToStream gnb d src u1 = Some u2" "clean d u2" "advance d u1 src u2" by blast
  with u1 advance_trans [OF u1(3)] show "\<exists>s'. Option.bind (WriteToStream gnb d ?hdr u)
      (WriteToStream gnb d src) = Some s' \<and> clean d s' \<and> advance d u (encode_field (PbBytes i src)) s'"
    by fastforce
qed

text \<open>
  \<open>BeginNestedMessage\<close> leaves a fresh innermost message whose size field points at the four bytes
  just reserved, already counted in the enclosing message.
\<close>

lemma BeginNestedMessage_opens:
  fixes i :: u32
  assumes "closes d s t"
  defines "tag \<equiv> WriteVarInt (MakeTagLengthDelimited i)"
  assumes rm: "room (length tag + 4) t"
  shows "\<exists>p s'. BeginNestedMessage gnb d i s = Some s' \<and> clean (Suc d) s' \<and> grows t (tag @ replicate 4 0) s' \<and>
    writer_objs s' = (writer_objs t)[d := add_size (word_of_nat (length tag + 4)) (writer_objs t ! d)]
      @ [fresh_message\<lparr>m_size_field := Some p\<rparr>] \<and>
    ptr_ok 4 s' p \<and> ptr_pos s' p = length (contents t @ tag) \<and>
    (\<forall>n. room (length tag + 4 + n) t \<longrightarrow> room n s')"
proof -
  have four: "kMessageLengthFieldSize = 4" by (simp add: kMessageLengthFieldSize_def)
  have t: "close_nested d s = Some t" "clean d t" using assms(1) by (simp_all add: closes_def)
  have "length tag < 2 ^ 32" by (simp add: tag_def tag_short)
  from WriteToStream_advance [OF t(2) room_less [OF rm] this] obtain u where u: "WriteToStream gnb d tag t = Some u"
    "clean d u" "adds d t tag u" and ru: "\<forall>n. room (length tag + n) t \<longrightarrow> room n u"
    unfolding advance_def by blast
  have lv: "length (writer_objs u) = Suc d" "length (writer_objs t) = Suc d" using u(2) t(2) by (simp_all add: clean_def)
  have gu: "good u" using u(2) by (simp add: clean_def)
  from rm ru have "room 4 u" by simp
  from reserves [OF gu, unfolded four, OF this] obtain p w where r: "ReserveBytes gnb 4 u = Some (p, w)"
    and w: "appends u (replicate 4 0) w" "good w" "ptr_ok 4 w p" "ptr_pos w p = length (contents u)"
    and rw: "\<forall>n. room (4 + n) u \<longrightarrow> room n w" by blast
  then have ow: "writer_objs w = writer_objs u" by (simp add: appends_def)
  define s1 where "s1 = upd_msg d (add_size 4) w"
  define s' where "s' = s1\<lparr>writer_objs := writer_objs s1 @ [fresh_message\<lparr>m_size_field := Some p\<rparr>]\<rparr>"
  have vs: "heap s' = heap w" "cur_range s' = cur_range w" "written_previously s' = written_previously w"
    "delegate s' = delegate w" by (simp_all add: s'_def s1_def)
  have os: "writer_objs s' = (writer_objs t)[d := add_size (word_of_nat (length tag + 4)) (writer_objs t ! d)]
      @ [fresh_message\<lparr>m_size_field := Some p\<rparr>]"
    using lv ow u(3) by (simp add: s'_def s1_def adds_def add.commute)
  have "grows u (replicate 4 0) w" using appends_grows [OF w(1)] .
  then have "grows t (tag @ replicate 4 0) w" using u(3) grows_trans by (auto simp: adds_def)
  then have "grows t (tag @ replicate 4 0) s'" by (simp add: grows_view [OF vs(1-3)])
  moreover have "clean (Suc d) s'" using good_view [OF w(2) vs] lv t(2)
    by (auto simp: clean_def os fresh_message_def nth_append nth_list_update le_Suc_eq)
  moreover have "ptr_ok 4 s' p" using w(3) by (simp add: view_cong [OF vs(1-3)])
  moreover have "ptr_pos s' p = length (contents t @ tag)"
    using w(4) u(3) by (simp add: view_cong [OF vs(1-3)] contents_def adds_def grows_def)
  moreover have "BeginNestedMessage gnb d i s = Some s'"
    using u(1) r by (simp add: BeginNestedMessage_def t(1) tag_def s'_def s1_def kMessageLengthFieldSize_def Let_def)
  moreover have "room (length tag + 4 + n) t \<longrightarrow> room n s'" for n
    using ru rw room_view [OF _ vs, of n] by (auto simp: add.assoc)
  ultimately show ?thesis using os by blast
qed

text \<open>Closing a nested message that has grown by \<open>bs\<close> since then writes the length of \<open>bs\<close> over its
  reserved bytes and adds it to the enclosing message.\<close>

lemma close_backfills:
  assumes c: "closes (Suc d) s t" and adv: "advance (Suc d) b bs t"
    and b: "clean (Suc d) b" "writer_objs b ! Suc d = fresh_message\<lparr>m_size_field := Some p\<rparr>"
      "ptr_ok 4 b p" "contents b = pre @ replicate 4 0" "ptr_pos b p = length pre"
  shows "\<exists>t'. closes d s t' \<and> contents t' = pre @ WriteRedundantVarInt (word_of_nat (length bs)) @ bs \<and>
     written t' = written b + length bs \<and>
     writer_objs t' = (butlast (writer_objs b))[d := add_size (word_of_nat (length bs)) (writer_objs b ! d)] \<and>
     (\<forall>n q. ptr_ok n b q \<longrightarrow> ptr_ok n t' q \<and> ptr_pos t' q = ptr_pos b q) \<and>
     (\<forall>n. room (length bs + n) b \<longrightarrow> room n t')"
proof -
  have a: "adds (Suc d) b bs t" and ra: "\<forall>n. room (length bs + n) b \<longrightarrow> room n t"
    using adv by (simp_all add: advance_def)
  let ?n = "word_of_nat (length bs) :: u32"
  have gt: "good t" and lt: "length (writer_objs t) = Suc (Suc d)" using c by (simp_all add: closes_def clean_def)
  have lb: "length (writer_objs b) = Suc (Suc d)" using b(1) by (simp add: clean_def)
  have grow: "grows b bs t" and ot: "writer_objs t = (writer_objs b)[Suc d := add_size ?n (writer_objs b ! Suc d)]"
    using a by (simp_all add: adds_def)
  have om: "writer_objs t ! Suc d = fresh_message\<lparr>m_size_field := Some p, m_size := ?n\<rparr>"
    using b(2) lb by (simp add: ot fresh_message_def add_size_def)
  have p: "ptr_ok 4 t p" "ptr_pos t p = length pre" using b(3,5) grow [unfolded grows_def] by metis+
  let ?w = "WriteRedundantVarInt ?n"
  have okw: "ptr_ok (length ?w) t p" using p by simp
  have wf: "writer_wf t" using gt by (rule good_wf)
  define u where "u = poke p ?w t"
  note pk = poke_props [OF wf okw, folded u_def]
  have ou: "writer_objs u = writer_objs t" by (rule pk(8))
  have gu: "good u" unfolding u_def by (rule good_poke [OF gt okw])
  define v where "v = seal (Suc d) t"
  have v: "v = upd_msg (Suc d) (\<lambda>m. m\<lparr>m_size_field := None, m_finalized := True\<rparr>) u"
    by (simp add: v_def seal_def om fresh_message_def u_def)
  define t' where "t' = pop_nested d ?n v"
  have view: "heap t' = heap u" "cur_range t' = cur_range u" "written_previously t' = written_previously u"
    "delegate t' = delegate u" by (simp_all add: t'_def pop_nested_def v Let_def)
  have "Finalize (Suc d) s = Some (?n, v)"
    using c by (simp add: Finalize_open closes_def om v_def)
  then have close: "close_nested d s = Some t'"
    using c by (simp add: close_nested_def closes_def EndNestedMessage_def t'_def)
  have nb: "butlast (writer_objs b) ! d = writer_objs b ! d" using lb by (simp add: nth_butlast)
  have obs: "writer_objs t' = (butlast (writer_objs b))[d := add_size ?n (writer_objs b ! d)]"
    using lb lt by (simp add: t'_def pop_nested_def v Let_def ou ot butlast_list_update)
  have "clean d t'" using good_view [OF gu view] lb nb b(1) by (auto simp: clean_def obs nth_list_update nth_butlast)
  then have "closes d s t'" using close c by (simp add: closes_def)
  moreover have "contents t' = pre @ ?w @ bs"
    using grow b(4) by (simp add: view_cong [OF view(1-3)] pk(1) p(2) grows_def)
  moreover have "written t' = written b + length bs"
    using grow by (simp add: view_cong [OF view(1-3)] pk(4) grows_def)
  moreover have "ptr_ok n b q \<longrightarrow> ptr_ok n t' q \<and> ptr_pos t' q = ptr_pos b q" for n q
    using grow unfolding view_cong [OF view(1-3)] pk(5,6) grows_def by blast
  moreover have "room (length bs + n) b \<longrightarrow> room n t'" for n
    using ra room_poke [OF gt okw, of n, folded u_def] room_view [OF _ view, of n] by blast
  ultimately show ?thesis using obs by blast
qed

text \<open>The correctness of the streaming writer: appending a field, whatever its nesting, puts its
  encoding at the end and accounts for its size. The proof is by the structure of the tree.\<close>

lemma put_advance:
  "closes d s t \<Longrightarrow> room (length (encode_field f)) t \<Longrightarrow> payloads_below (2 ^ 32) f \<Longrightarrow> \<exists>s' t'. put_field gnb d f s = Some s' \<and> closes d s' t' \<and> advance d t (encode_field f) t'"
  "closes d s t \<Longrightarrow> room (length (encode_fields fs)) t \<Longrightarrow> \<forall>f \<in> set fs. payloads_below (2 ^ 32) f \<Longrightarrow> \<exists>s' t'. put_fields gnb d fs s = Some s' \<and> closes d s' t' \<and> advance d t (encode_fields fs) t'"
proof (induction f and fs arbitrary: d s t and d s t rule: encode_field_encode_fields.induct)
  case (1 i v)
  have "unat v < 2 ^ (7 * 10)" using unsigned_less [of v, where ?'a = nat] by simp
  then have "length (WriteVarInt v) \<le> 10" by (rule length_WriteVarInt_le) simp
  then have "length (WriteVarInt (MakeTagVarInt i) @ WriteVarInt v) < 2 ^ 32"
    using length_WriteVarInt_u32 [of "MakeTagVarInt i"] by simp
  from AppendVarInt_advance [OF _ _ this, of d s t] 1 show ?case by (fastforce intro: clean_closes)
next
  case (2 i v)
  have "length (WriteVarInt (MakeTagFixed 4 i) @ store_le 4 v) < 2 ^ 32"
    using length_WriteVarInt_u32 [of "MakeTagFixed 4 i"] by simp
  from AppendFixed_advance [OF _ _ this, of d s t] 2 show ?case by (fastforce intro: clean_closes)
next
  case (3 i v)
  have "length (WriteVarInt (MakeTagFixed 8 i) @ store_le 8 v) < 2 ^ 32"
    using length_WriteVarInt_u32 [of "MakeTagFixed 8 i"] by simp
  from AppendFixed_advance [OF _ _ this, of d s t] 3 show ?case by (fastforce intro: clean_closes)
next
  case (4 i bs)
  from AppendBytes_advance [OF 4(1,2)] 4(3) show ?case by (fastforce intro: clean_closes)
next
  case (5 i fs)
  let ?tag = "WriteVarInt (MakeTagLengthDelimited i)" and ?bs = "encode_fields fs"
  have split: "length (encode_field (PbMsg i fs)) + n = length ?tag + 4 + (length ?bs + n)" for n by simp
  have rm: "room (length ?tag + 4 + length ?bs) t" using "5.prems"(2) split [of 0] by (simp only: add_0_right)
  from BeginNestedMessage_opens [OF "5.prems"(1) room_less [OF rm]] obtain p b where b:
    "BeginNestedMessage gnb d i s = Some b" "clean (Suc d) b" "grows t (?tag @ replicate 4 0) b"
    "writer_objs b = (writer_objs t)[d := add_size (word_of_nat (length ?tag + 4)) (writer_objs t ! d)]
      @ [fresh_message\<lparr>m_size_field := Some p\<rparr>]" "ptr_ok 4 b p" "ptr_pos b p = length (contents t @ ?tag)" and rb: "\<forall>n. room (length ?tag + 4 + n) t \<longrightarrow> room n b"
    by blast
  have lt: "length (writer_objs t) = Suc d" using "5.prems"(1) by (simp add: closes_def clean_def)
  from rm rb have "room (length ?bs) b" by blast
  moreover have "\<forall>f \<in> set fs. payloads_below (2 ^ 32) f" using "5.prems"(3) by simp
  ultimately have IH: "\<exists>s' t'. put_fields gnb (Suc d) fs b = Some s' \<and> closes (Suc d) s' t' \<and> advance (Suc d) b ?bs t'"
    by (rule "5.IH" [OF clean_closes [OF b(2)]])
  from IH obtain s' t1 where s': "put_fields gnb (Suc d) fs b = Some s'"
    "closes (Suc d) s' t1" "advance (Suc d) b ?bs t1" by blast
  have bl: "writer_objs b ! Suc d = fresh_message\<lparr>m_size_field := Some p\<rparr>" by (simp add: b(4) lt nth_append)
  have cb: "contents b = (contents t @ ?tag) @ replicate 4 0" using b(3) by (simp add: grows_def)
  from close_backfills [OF s'(2,3) b(2) bl b(5) cb b(6)] obtain t' where t': "closes d s' t'"
    "contents t' = (contents t @ ?tag) @ WriteRedundantVarInt (word_of_nat (length ?bs)) @ ?bs"
    "written t' = written b + length ?bs"
    "writer_objs t' = (butlast (writer_objs b))[d := add_size (word_of_nat (length ?bs)) (writer_objs b ! d)]"
    "\<forall>n q. ptr_ok n b q \<longrightarrow> ptr_ok n t' q \<and> ptr_pos t' q = ptr_pos b q"
    and rt: "\<forall>n. room (length ?bs + n) b \<longrightarrow> room n t'" by blast
  have "\<forall>n q. ptr_ok n t q \<longrightarrow> ptr_ok n t' q \<and> ptr_pos t' q = ptr_pos t q"
    using b(3) t'(5) unfolding grows_def by metis
  moreover have "written b = written t + length ?tag + 4" using b(3) by (simp add: grows_def)
  ultimately have "grows t (encode_field (PbMsg i fs)) t'"
    unfolding grows_def using t'(2,3) by (intro conjI) simp_all
  moreover have "writer_objs t' = (writer_objs t)[d := add_size (word_of_nat (length (encode_field (PbMsg i fs)))) (writer_objs t ! d)]"
    using t'(4) lt by (simp add: b(4) nth_append butlast_append add.commute add.left_commute)
  moreover have "room (length (encode_field (PbMsg i fs)) + n) t \<longrightarrow> room n t'" for n
    unfolding split using rb rt by blast
  ultimately have "advance d t (encode_field (PbMsg i fs)) t'" by (simp add: adds_def advance_def)
  then show ?case using b(1) s'(1) t'(1) by auto
next
  case 6
  then show ?case by (auto simp: advance_def)
next
  case (7 f fs)
  have rm: "room (length (encode_field f) + length (encode_fields fs)) t" using "7.prems"(2) by simp
  have pb: "payloads_below (2 ^ 32) f" "\<forall>f \<in> set fs. payloads_below (2 ^ 32) f" using "7.prems"(3) by simp_all
  from "7.IH"(1) [OF "7.prems"(1) room_less [OF rm] pb(1)] obtain s1 t1 where 1: "put_field gnb d f s = Some s1" "closes d s1 t1"
    "advance d t (encode_field f) t1" by blast
  from "7.IH"(2) [OF 1(2) advance_room [OF 1(3) rm] pb(2)] obtain s2 t2 where "put_fields gnb d fs s1 = Some s2" "closes d s2 t2"
    "advance d t1 (encode_fields fs) t2" by blast
  with 1 advance_trans [OF 1(3)] show ?case by fastforce
qed

end

text \<open>Where the delegate always finds memory for a size field, there is always room.\<close>

locale msg_delegate = growing_delegate gnb inv min_cap
  for gnb :: "('d, message list) get_new_buffer" and inv :: "('d, message list) stream \<Rightarrow> bool" and min_cap :: nat +
  assumes size_field_fits: "kMessageLengthFieldSize \<le> min_cap"

sublocale msg_delegate \<subseteq> W: msg_writer gnb good "\<lambda>_ _. True"
proof unfold_locales
  fix s :: "'d mstream" and bs :: "u8 list"
  assume g: "good s"
  then show "writer_wf s" by (simp add: good_def)
  from WriteBytes_returns [OF g] WriteBytes_good [OF _ g]
  show "\<exists>s'. WriteBytes gnb bs s = Some s' \<and> appends s bs s' \<and> good s' \<and> (\<forall>n. True \<longrightarrow> True)" by blast
  have pos: "0 < kMessageLengthFieldSize" by (simp add: kMessageLengthFieldSize_def)
  from ReserveBytes_returns [OF g size_field_fits pos] ReserveBytes_good [OF _ g pos]
  show "\<exists>p s'. ReserveBytes gnb kMessageLengthFieldSize s = Some (p, s') \<and>
      appends s (replicate kMessageLengthFieldSize 0) s' \<and> good s' \<and> ptr_ok kMessageLengthFieldSize s' p \<and>
      ptr_pos s' p = length (contents s) \<and> (\<forall>n. True \<longrightarrow> True)" by blast
next
  fix s s' :: "'d mstream"
  assume "good s" "heap s' = heap s" "cur_range s' = cur_range s" "written_previously s' = written_previously s"
    "delegate s' = delegate s"
  then show "good s'"
    using inv_write [of s s'] by (simp add: good_def view_cong [of s' s] same_buffers_def list_all2_same)
qed (auto intro: poke_good)

text \<open>A write that fits in the current range never calls the delegate, whatever that is: it happens in
  the buffers of the state \<open>s0\<close> it started from.\<close>

lemma WriteBytes_in_range:
  assumes "writer_wf s" and "length bs \<le> bytes_available s"
  shows "\<exists>s'. WriteBytes gnb bs s = Some s' \<and> appends s bs s' \<and> writer_wf s' \<and> same_buffers s s' \<and>
    bytes_available s' = bytes_available s - length bs"
  using WriteBytesUnsafe_returns [OF assms(2)] WriteBytesUnsafe_appends [OF assms(1)] assms(2)
  by (auto simp: WriteBytes_def)

lemma ReserveBytes_in_range:
  assumes wf: "writer_wf s" and n: "n \<le> bytes_available s" "0 < n"
  shows "\<exists>p s'. ReserveBytes gnb n s = Some (p, s') \<and> appends s (replicate n 0) s' \<and> writer_wf s' \<and>
    ptr_ok n s' p \<and> ptr_pos s' p = length (contents s) \<and> same_buffers s s' \<and>
    bytes_available s' = bytes_available s - n"
proof -
  from n obtain r where r: "cur_range s = Some r"
    by (cases "cur_range s") (auto simp: bytes_available_def)
  let ?k = "rg_chunk r"
  obtain s' where w: "WriteBytesUnsafe (replicate n 0) s = Some s'"
    using WriteBytesUnsafe_returns [of "replicate n 0" s] n by auto
  note a = WriteBytesUnsafe_appends [OF wf w]
  note hl = heap_last [OF wf r]
  have s': "heap s' = append_to_chunk ?k (replicate n 0) (heap s)"
    using w r by (auto simp: WriteBytesUnsafe_def split: if_splits)
  have h': "heap s' = butlast (heap s) @ [(heap s ! ?k)\<lparr>c_bytes := c_bytes (heap s ! ?k) @ replicate n 0\<rparr>]"
    unfolding s' using hl(1,3) by (rule append_to_last)
  have "ptr_ok n s' (?k, chunk_len s ?k)" using h' hl(3) by (simp add: ptr_ok_def chunk_len_def nth_append)
  moreover have "ptr_pos s' (?k, chunk_len s ?k) = length (contents s)"
    using h' hl(3) arg_cong [OF hl(1), of "\<lambda>h. length (concat (map c_bytes h))"]
    by (simp add: ptr_pos_def contents_def chunk_len_def)
  moreover have "ReserveBytes gnb n s = Some ((?k, chunk_len s ?k), s')"
    using n r w by (simp add: ReserveBytes_def ReserveBytesUnsafe_def write_ptr_def)
  ultimately show ?thesis using a by auto
qed

interpretation bounded: msg_writer gnb writer_wf "\<lambda>n t. n \<le> bytes_available t \<and> same_buffers s0 t"
  for gnb :: "'d mdelegate" and s0 :: "'d mstream"
proof unfold_locales
  fix s :: "'d mstream" and bs :: "u8 list"
  assume "writer_wf s" "length bs \<le> bytes_available s \<and> same_buffers s0 s"
  with WriteBytes_in_range [of s bs gnb] show "\<exists>s'. WriteBytes gnb bs s = Some s' \<and> appends s bs s' \<and> writer_wf s' \<and>
      (\<forall>n. length bs + n \<le> bytes_available s \<and> same_buffers s0 s \<longrightarrow> n \<le> bytes_available s' \<and> same_buffers s0 s')"
    by (auto intro: same_buffers_trans)
next
  fix s :: "'d mstream"
  assume "writer_wf s" "kMessageLengthFieldSize \<le> bytes_available s \<and> same_buffers s0 s"
  with ReserveBytes_in_range [of s kMessageLengthFieldSize gnb]
  show "\<exists>p s'. ReserveBytes gnb kMessageLengthFieldSize s = Some (p, s') \<and>
      appends s (replicate kMessageLengthFieldSize 0) s' \<and> writer_wf s' \<and> ptr_ok kMessageLengthFieldSize s' p \<and>
      ptr_pos s' p = length (contents s) \<and>
      (\<forall>n. kMessageLengthFieldSize + n \<le> bytes_available s \<and> same_buffers s0 s \<longrightarrow>
           n \<le> bytes_available s' \<and> same_buffers s0 s')"
    by (fastforce simp: kMessageLengthFieldSize_def intro: same_buffers_trans)
next
  fix s s' :: "'d mstream" and n
  assume "heap s' = heap s" "cur_range s' = cur_range s" "written_previously s' = written_previously s"
  note v = view_cong [OF this]
  show "writer_wf s \<Longrightarrow> writer_wf s'" by (simp add: v)
  assume "delegate s' = delegate s"
  then show "n \<le> bytes_available s \<and> same_buffers s0 s \<Longrightarrow> n \<le> bytes_available s' \<and> same_buffers s0 s'"
    using \<open>heap s' = heap s\<close> \<open>cur_range s' = cur_range s\<close> by (simp add: v same_buffers_def)
qed (auto simp: poke_props intro: same_buffers_trans poke_props(2))

end
