(* ===== verification/Message_Roundtrip.thy ===== *)
theory Message_Roundtrip
  imports Proto_Decoder Proto_Message
begin

section \<open>What was written is what is read\<close>

text \<open>
  The heap buffer gives the messages of \<open>Proto_Message\<close> the writer they need, so building a tree of
  fields always yields its encoding; and the decoder applied to that encoding, level by level,
  yields the tree back.
\<close>

interpretation hm: msg_delegate "heap_GetNewBuffer :: (ScatteredHeapBuffer, message list) get_new_buffer" "heap_inv 4" 4
  by unfold_locales (simp add: kMessageLengthFieldSize_def)

subsection \<open>Serialising\<close>

lemma HeapBuffered_clean:
  assumes "4 \<le> initial_size" and "initial_size \<le> max_size"
  shows "hm.W.clean 0 (HeapBuffered initial_size max_size)"
proof -
  have "hb.good (HeapBuffered initial_size max_size)"
    using hm.W.good_view [OF HeapBuffered_init_good [OF assms, of "[]"]]
    by (simp add: HeapBuffered_def root_Reset_def)
  then show ?thesis by (simp add: hm.W.clean_def HeapBuffered_def root_Reset_def fresh_message_def)
qed

lemma HeapBuffered_empty:
  "contents (HeapBuffered i k) = []" "written (HeapBuffered i k) = 0"
  "writer_objs (HeapBuffered i k) = [fresh_message]"
  by (simp_all add: HeapBuffered_def root_Reset_def HeapBuffered_init_def init_stream_def contents_def
      written_def written_in_range_def)

lemma Finalize_root:
  assumes c: "hm.W.closes 0 s t" and m: "writer_objs t = [m]" "m_size_field m = None"
  shows "\<exists>s'. Finalize 0 s = Some (m_size m, s') \<and> contents s' = contents t \<and> hb.good s' \<and> written s' = written t"
proof -
  have "Finalize 0 s = Some (m_size m, seal 0 t)"
    using c m by (simp add: Finalize_open hm.W.closes_def)
  moreover have "seal 0 t = upd_msg 0 (\<lambda>m. m\<lparr>m_size_field := None, m_finalized := True\<rparr>) t"
    using m by (simp add: seal_def Let_def)
  moreover have "hb.good t" using c by (simp add: hm.W.closes_def hm.W.clean_def)
  ultimately show ?thesis
    using hm.W.good_upd_msg [of t] view_cong(1,2) [of "seal 0 t" t] by simp
qed

subsection \<open>Reading back\<close>

text \<open>\<open>represents mem g f\<close>: the decoded field \<open>g\<close> of \<open>mem\<close> is the field \<open>f\<close> of the tree. For a nested message
  the payload is decoded again, all its fields in order.\<close>

fun represents :: "memory \<Rightarrow> Field \<Rightarrow> pb_field \<Rightarrow> bool"
  and represents_all :: "memory \<Rightarrow> Field list \<Rightarrow> pb_field list \<Rightarrow> bool" where
  "represents mem g (PbVarInt i v) \<longleftrightarrow>
     f_id g = ucast i \<and> f_type g = ucast (wire_code kVarInt) \<and> as_uint64 g = v"
| "represents mem g (PbFixed32 i v) \<longleftrightarrow>
     f_id g = ucast i \<and> f_type g = ucast (wire_code kFixed32) \<and> as_uint32 g = v"
| "represents mem g (PbFixed64 i v) \<longleftrightarrow>
     f_id g = ucast i \<and> f_type g = ucast (wire_code kFixed64) \<and> as_uint64 g = v"
| "represents mem g (PbBytes i bs) \<longleftrightarrow>
     f_id g = ucast i \<and> f_type g = ucast (wire_code kLengthDelimited) \<and> as_bytes mem g = bs"
| "represents mem g (PbMsg i fs) \<longleftrightarrow>
     f_id g = ucast i \<and> f_type g = ucast (wire_code kLengthDelimited) \<and>
     represents_all mem (AllFields mem (field_data g) (field_data g + unat (f_size g))) fs"
| "represents_all mem gs [] \<longleftrightarrow> gs = []"
| "represents_all mem gs (f # fs) \<longleftrightarrow> (case gs of [] \<Rightarrow> False | g # gs' \<Rightarrow> represents mem g f \<and> represents_all mem gs' fs)"

text \<open>What the wire format can carry: ids the decoder does not skip, payloads below \<open>2 ^ 28\<close>.\<close>

definition id_ok :: "u32 \<Rightarrow> bool" where
  "id_ok i \<longleftrightarrow> i \<noteq> 0 \<and> unat i \<le> 0xFFFF"

fun encodable :: "pb_field \<Rightarrow> bool" where
  "encodable (PbVarInt i v) = id_ok i"
| "encodable (PbFixed32 i v) = id_ok i"
| "encodable (PbFixed64 i v) = id_ok i"
| "encodable (PbBytes i bs) = (id_ok i \<and> length bs \<le> kMaxMessageLength)"
| "encodable (PbMsg i fs) = (id_ok i \<and> length (encode_fields fs) \<le> kMaxMessageLength \<and> (\<forall>f \<in> set fs. encodable f))"

lemma id_ok_u16:
  assumes "id_ok i"
  shows "ucast (ucast i :: u16) = i" and "(ucast i :: u16) \<noteq> 0"
proof -
  have u: "unat i < 2 ^ 16" using assms by (simp add: id_ok_def)
  then show e: "ucast (ucast i :: u16) = i"
    using bit_word_bound [OF u]
    by (intro bit_eqI) (auto simp: bit_simps)
  show "(ucast i :: u16) \<noteq> 0" using e assms by (auto simp: id_ok_def)
qed

definition id_field :: "u32 \<Rightarrow> Field" where
  "id_field i = field_initialize (ucast i) 0 0 0"

lemma id_field_tags:
  assumes "id_ok i"
  shows "f_valid (id_field i)" "f_id (id_field i) = ucast i"
    "MakeTagVarInt i = wire_tag (id_field i) kVarInt" "MakeTagFixed 4 i = wire_tag (id_field i) kFixed32"
    "MakeTagFixed 8 i = wire_tag (id_field i) kFixed64"
    "MakeTagLengthDelimited i = wire_tag (id_field i) kLengthDelimited"
  using id_ok_u16 [OF assms]
  by (simp_all add: id_field_def field_initialize_def f_valid_def wire_tag_def MakeTagVarInt_def
      MakeTagFixed_def MakeTagLengthDelimited_def)

text \<open>A token does not depend on memory past the end it is given.\<close>

lemma ParseOneField_tail: "ParseOneField (m @ tail) p (length m) = ParseOneField m p (length m)"
  by (rule ParseOneField_cong) (simp_all add: nth_append)

lemma as_bytes_tail:
  assumes "as_bytes m g = bs" and "length bs = unat (f_size g)"
  shows "as_bytes (m @ tail) g = bs"
proof (cases "bs = []")
  case True
  with assms show ?thesis by (simp add: as_bytes_def)
next
  case False
  with assms have "unat (f_size g) \<le> length m - field_data g" "field_data g < length m"
    by (auto simp: as_bytes_def mem_range_def)
  with assms show ?thesis by (simp add: as_bytes_def mem_range_def)
qed

definition reads_back :: "pb_field \<Rightarrow> bool" where
  "reads_back f \<longleftrightarrow> (\<forall>pre rest tail. length (pre @ encode_field f @ rest) < 2 ^ 64 \<longrightarrow>
     (\<exists>g. ParseOneField ((pre @ encode_field f @ rest) @ tail) (length pre) (length (pre @ encode_field f @ rest)) =
        \<lparr>parse_res = kOk, r_next = length pre + length (encode_field f), r_field = g\<rparr> \<and>
        represents ((pre @ encode_field f @ rest) @ tail) g f))"

definition read_back_all :: "pb_field list \<Rightarrow> bool" where
  "read_back_all fs \<longleftrightarrow> (\<forall>pre tail. length (pre @ encode_fields fs) < 2 ^ 64 \<longrightarrow>
     represents_all ((pre @ encode_fields fs) @ tail)
       (AllFields ((pre @ encode_fields fs) @ tail) (length pre) (length (pre @ encode_fields fs))) fs)"

lemma read_back_Nil: "read_back_all []"
  by (simp add: read_back_all_def AllFields_step ParseOneField_def)

lemma read_back_Cons:
  assumes "reads_back f" and "read_back_all fs"
  shows "read_back_all (f # fs)"
  unfolding read_back_all_def
proof (intro allI impI)
  fix pre tail :: "u8 list"
  let ?e = "encode_field f" and ?es = "encode_fields fs"
  let ?mem = "(pre @ ?e @ ?es) @ tail" and ?fin = "length (pre @ ?e @ ?es)"
  assume "length (pre @ encode_fields (f # fs)) < 2 ^ 64"
  then have l: "length (pre @ ?e @ ?es) < 2 ^ 64" by simp
  from assms(1) l obtain g where g: "ParseOneField ?mem (length pre) ?fin =
        \<lparr>parse_res = kOk, r_next = length pre + length ?e, r_field = g\<rparr>" "represents ?mem g f"
    unfolding reads_back_def by blast
  have "represents_all (((pre @ ?e) @ ?es) @ tail) (AllFields (((pre @ ?e) @ ?es) @ tail) (length (pre @ ?e)) (length ((pre @ ?e) @ ?es))) fs"
    using assms(2) l unfolding read_back_all_def by (metis append.assoc)
  then have "represents_all ?mem (AllFields ?mem (length pre + length ?e) ?fin) fs" by simp
  with g show "represents_all ((pre @ encode_fields (f # fs)) @ tail)
       (AllFields ((pre @ encode_fields (f # fs)) @ tail) (length pre) (length (pre @ encode_fields (f # fs)))) (f # fs)"
    by (subst AllFields_step) (simp add: Let_def)
qed

lemma reads_back_scalar:
  "id_ok i \<Longrightarrow> reads_back (PbVarInt i v)"
  "id_ok i \<Longrightarrow> reads_back (PbFixed64 i v)"
  unfolding reads_back_def ParseOneField_tail encode_field.simps
  using tokenise_VarInt [OF refl, of "id_field i"] tokenise_Fixed [OF refl, of "id_field i" _ 8]
    unsigned_less [of v, where ?'a = nat]
  by (auto simp: id_field_tags field_initialize_def as_uint64_def)

lemma store_le_u32: "store_le 4 (v :: u32) = store_le 4 (ucast v :: u64)"
  by (simp add: eval_nat_numeral ucast_u8_via_u64 ucast_drop_bit_u32)

lemma reads_back_Fixed32:
  assumes "id_ok i"
  shows "reads_back (PbFixed32 i v)"
proof -
  have "unat (ucast v :: u64) < 2 ^ (8 * 4)"
    using unsigned_less [of v, where ?'a = nat] by (simp add: unat_ucast_u32)
  moreover have "(ucast (ucast v :: u64) :: u32) = v" by (rule bit_eqI) (auto simp add: bit_simps)
  ultimately show ?thesis
    unfolding reads_back_def ParseOneField_tail encode_field.simps store_le_u32
    using tokenise_Fixed [OF refl, of "id_field i" kFixed32 4 "ucast v"] assms
    by (auto simp: id_field_tags field_initialize_def as_uint32_def)
qed

lemma length_u64: "n \<le> kMaxMessageLength \<Longrightarrow>
    unat (word_of_nat n :: u32) = n \<and> unat (ucast (word_of_nat n :: u32) :: u64) = n \<and> (ucast (ucast (word_of_nat n :: u32) :: u64) :: u32) = word_of_nat n"
proof -
  assume "n \<le> kMaxMessageLength"
  then have "unat (word_of_nat n :: u32) = n"
    by (simp add: unat_of_nat kMaxMessageLength_def kMessageLengthFieldSize_def)
  moreover have "(ucast (ucast w :: u64) :: u32) = w" for w :: u32 by (rule bit_eqI) (auto simp add: bit_simps)
  ultimately show ?thesis by (simp add: unat_ucast_u32)
qed

lemma reads_back_delimited:
  assumes i: "id_ok i" and n: "length p \<le> kMaxMessageLength" and L: "len_code L (ucast (word_of_nat (length p) :: u32))"
    and e: "encode_field f = WriteVarInt (MakeTagLengthDelimited i) @ L @ p"
    and r: "\<And>m tail g. f_id g = ucast i \<Longrightarrow> f_type g = ucast (wire_code kLengthDelimited) \<Longrightarrow> as_bytes m g = p \<Longrightarrow>
       length p = unat (f_size g) \<Longrightarrow> length m < 2 ^ 64 \<Longrightarrow> represents (m @ tail) g f"
  shows "reads_back f"
  unfolding reads_back_def ParseOneField_tail
proof (intro allI impI)
  fix pre rest tail :: "u8 list"
  let ?m = "pre @ encode_field f @ rest"
  assume len: "length ?m < 2 ^ 64"
  note u = length_u64 [OF n]
  from u n have pu: "length p = unat (ucast (word_of_nat (length p) :: u32) :: u64)"
    "unat (ucast (word_of_nat (length p) :: u32) :: u64) \<le> kMaxMessageLength" by simp_all
  from tokenise_Bytes [OF _ L _ pu len, of "id_field i"] obtain g where g:
    "ParseOneField ?m (length pre) (length ?m) =
       \<lparr>parse_res = kOk, r_next = length pre + length (encode_field f), r_field = g\<rparr>"
    "f_id g = ucast i" "f_type g = ucast (wire_code kLengthDelimited)"
    "f_size g = ucast (ucast (word_of_nat (length p) :: u32) :: u64)" "as_bytes ?m g = p"
    using e id_field_tags [OF i] by auto
  from g(4) u have "length p = unat (f_size g)" by simp
  from r [OF g(2,3,5) this len] g(1) show
    "\<exists>g. ParseOneField ?m (length pre) (length ?m) =
        \<lparr>parse_res = kOk, r_next = length pre + length (encode_field f), r_field = g\<rparr> \<and> represents (?m @ tail) g f"
    by blast
qed

lemma encode_field_nonempty [simp]: "encode_field f \<noteq> []"
  by (cases f) simp_all

lemma encode_fields_eq_Nil [simp]: "encode_fields fs = [] \<longleftrightarrow> fs = []"
  by (cases fs) simp_all

lemma reads_back_nested:
  assumes all: "read_back_all fs" and g: "as_bytes m g = encode_fields fs"
    "length (encode_fields fs) = unat (f_size g)" and len: "length m < 2 ^ 64"
  shows "represents_all (m @ tail) (AllFields (m @ tail) (field_data g) (field_data g + unat (f_size g))) fs"
proof (cases "fs = []")
  case True
  with g show ?thesis by (simp add: AllFields_step ParseOneField_def)
next
  case False
  let ?a = "field_data g" and ?es = "encode_fields fs"
  from g have t: "take (length ?es) (drop ?a m) = ?es" by (simp add: as_bytes_def mem_range_def)
  from arg_cong [OF this, of length] have "length ?es \<le> length m - ?a" by simp
  moreover have "0 < length ?es" using False by simp
  ultimately have b: "length ?es \<le> length m - ?a" "?a < length m" by linarith+
  note b = b t
  define pre post where "pre = take ?a m" and "post = drop (length ?es) (drop ?a m) @ tail"
  have lp: "length pre = ?a" using b by (simp add: pre_def)
  have "m @ tail = take ?a m @ (take (length ?es) (drop ?a m) @ drop (length ?es) (drop ?a m)) @ tail"
    by (simp only: append_take_drop_id)
      (metis append.assoc append_take_drop_id)
  then have m: "m @ tail = (pre @ ?es) @ post" using b(3) by (simp add: pre_def post_def)
  have "length (pre @ ?es) < 2 ^ 64" using b len lp by simp
  with all have "represents_all ((pre @ ?es) @ post) (AllFields ((pre @ ?es) @ post) (length pre) (length (pre @ ?es))) fs"
    unfolding read_back_all_def by blast
  then show ?thesis unfolding m using lp g(2) by simp
qed

lemma reads_back_tree:
  "encodable f \<Longrightarrow> reads_back f"
  "\<forall>f \<in> set fs. encodable f \<Longrightarrow> read_back_all fs"
proof (induction f and fs rule: encode_field_encode_fields.induct)
  case (4 i bs)
  then have i: "id_ok i" and n: "length bs \<le> kMaxMessageLength" by simp_all
  show ?case
  proof (rule reads_back_delimited [OF i n])
    show "len_code (WriteVarInt (ucast (word_of_nat (length bs) :: u32) :: u64)) (ucast (word_of_nat (length bs) :: u32))"
      by (rule len_code_WriteVarInt)
    show "encode_field (PbBytes i bs) = WriteVarInt (MakeTagLengthDelimited i) @
        WriteVarInt (ucast (word_of_nat (length bs) :: u32) :: u64) @ bs"
      by (simp add: WriteVarInt_u32)
  qed (simp add: as_bytes_tail)
next
  case (5 i fs)
  then have i: "id_ok i" and n: "length (encode_fields fs) \<le> kMaxMessageLength" by simp_all
  from n have "unat (word_of_nat (length (encode_fields fs)) :: u32) < 2 ^ 28"
    using length_u64 [OF n] by (simp add: kMaxMessageLength_def kMessageLengthFieldSize_def)
  note L = len_code_WriteRedundantVarInt [OF this]
  have all: "read_back_all fs" using 5 by simp
  show ?case
    by (rule reads_back_delimited [OF i n L]) (simp_all add: reads_back_nested [OF all])
next
  case (7 f fs)
  then show ?case by (intro read_back_Cons) simp_all
qed (simp_all add: reads_back_scalar reads_back_Fixed32 read_back_Nil)


lemma encodable_payloads: "encodable f \<Longrightarrow> payloads_below (2 ^ 32) f"
  by (induction f rule: encodable.induct) (auto simp: kMaxMessageLength_def kMessageLengthFieldSize_def)

lemma serialize_exact_aux:
  assumes "4 \<le> initial_size" and "initial_size \<le> max_size" and "\<forall>f \<in> set fs. payloads_below (2 ^ 32) f"
  shows "HeapBuffered_serialize initial_size max_size fs = Some (encode_fields fs)
    \<and> (\<exists>s s'. put_fields heap_GetNewBuffer 0 fs (HeapBuffered initial_size max_size) = Some s
         \<and> Finalize 0 s = Some (word_of_nat (length (encode_fields fs)), s')
         \<and> written s' = length (encode_fields fs))"
proof -
  let ?s0 = "HeapBuffered initial_size max_size"
  from hm.W.put_advance(2) [OF hm.W.clean_closes [OF HeapBuffered_clean [OF assms(1,2)]] TrueI assms(3)] obtain s t where
    s: "put_fields heap_GetNewBuffer 0 fs ?s0 = Some s" and t: "hm.W.closes 0 s t" "adds 0 ?s0 (encode_fields fs) t"
    by (auto simp: hm.W.advance_def)
  let ?m = "add_size (word_of_nat (length (encode_fields fs))) fresh_message"
  have o: "writer_objs t = [?m]" "contents t = encode_fields fs" "written t = length (encode_fields fs)"
    using t(2) by (simp_all add: adds_def grows_def HeapBuffered_empty)
  have "m_size_field ?m = None" by (simp add: fresh_message_def)
  from Finalize_root [OF t(1) o(1) this] obtain s' where s': "Finalize 0 s = Some (m_size ?m, s')"
    "contents s' = encode_fields fs" "hb.good s'" "written s' = length (encode_fields fs)"
    using o by auto
  have "fst (StitchSlices s') = encode_fields fs"
    using StitchSlices_contents [of 4 s'] s' by (simp add: hb.good_def)
  moreover have "m_size ?m = word_of_nat (length (encode_fields fs))" by (simp add: fresh_message_def)
  ultimately show ?thesis
    using s s' by (simp add: HeapBuffered_serialize_def SerializeAsArray_def)
qed

subsection \<open>Properties\<close>



text \<open>C21 message_roundtrip: decoding what was serialised gives the message back. For a tree with ids
  1 to 65535 and payloads below \<open>2 ^ 28\<close> bytes, the decoder run over the array the heap buffer
  serialised yields, in order, one field for each field of the tree, with its id, wire type and value,
  and recursively the fields of every nested message.\<close>
theorem message_roundtrip:
  assumes "4 \<le> initial_size" and "initial_size \<le> max_size"
    and "\<forall>f \<in> set fs. encodable f" and "length (encode_fields fs) < 2 ^ 64"
  shows "\<exists>bytes. HeapBuffered_serialize initial_size max_size fs = Some bytes
    \<and> represents_all bytes (AllFields bytes 0 (length bytes)) fs"
proof -
  from reads_back_tree(2) [OF assms(3)] assms(4)
  have "represents_all (([] @ encode_fields fs) @ [])
      (AllFields (([] @ encode_fields fs) @ []) (length ([] :: u8 list)) (length ([] @ encode_fields fs))) fs"
    unfolding read_back_all_def by (metis append_Nil)
  moreover have "\<forall>f \<in> set fs. payloads_below (2 ^ 32) f" using assms(3) encodable_payloads by blast
  ultimately show ?thesis using serialize_exact_aux [OF assms(1,2)] by simp
qed

theorem message_roundtrip_witness:
  "\<exists>bytes. HeapBuffered_serialize 4 8 [PbVarInt 1 300, PbMsg 2 [PbBytes 3 [7, 8, 9], PbMsg 4 []]] = Some bytes
    \<and> represents_all bytes (AllFields bytes 0 (length bytes)) [PbVarInt 1 300, PbMsg 2 [PbBytes 3 [7, 8, 9], PbMsg 4 []]]"
proof -
  let ?fs = "[PbVarInt 1 300, PbMsg 2 [PbBytes 3 [7, 8, 9], PbMsg 4 []]]"
  have "\<forall>f \<in> set ?fs. encodable f" by code_simp
  moreover have "length (encode_fields ?fs) < 2 ^ 64" by code_simp
  ultimately show ?thesis by (intro message_roundtrip) simp_all
qed

end
