(* ===== verification/Trace_Config.thy ===== *)
theory Trace_Config
  imports VP_Prelude
begin

section \<open>The tracing configuration and the tracing switch (vperfetto.h, vperfetto-util.h, vperfetto.cpp)\<close>

text \<open>
  \<open>sTraceConfig\<close> is one global record. A C string is \<open>None\<close> for the null pointer or its characters.
  The clock and the environment are arguments of the operations that read them: \<open>now\<close> is what
  \<open>bootTimeNs()\<close> returns, \<open>env\<close> what \<open>getenv\<close> returns. Writing the trace to disk is \<open>Trace_Storage\<close>; here
  \<open>disableTracing\<close> says whether \<open>onTracingDisabled\<close> is called.
\<close>

record VirtualDeviceTraceConfig =
  initialized :: bool
  tracingDisabled :: bool
  packetsWritten :: u32
  sequenceIdWritten :: bool
  currentInterningId :: u32
  currentThreadId :: u32
  hostFilename :: "string option"
  guestFilename :: "string option"
  combinedFilename :: "string option"
  hostStartTime :: u64
  guestStartTime :: u64
  guestTimeDiff :: i64
  perThreadStorageMb :: u32
  saving :: bool

definition sTraceConfig :: VirtualDeviceTraceConfig where
  "sTraceConfig = \<lparr>initialized = False, tracingDisabled = True, packetsWritten = 0, sequenceIdWritten = False,
     currentInterningId = 1, currentThreadId = 1, hostFilename = None, guestFilename = None,
     combinedFilename = None, hostStartTime = 0, guestStartTime = 0, guestTimeDiff = 0,
     perThreadStorageMb = 1, saving = False\<rparr>"

text \<open>\<open>int64_t\<close> differences: the magnitude is capped at \<open>INT64_MAX\<close> before the sign is applied.\<close>

definition INT64_MAX :: u64 where
  "INT64_MAX = 0x7FFFFFFFFFFFFFFF"

definition getSignedDifference :: "u64 \<Rightarrow> u64 \<Rightarrow> i64" where
  "getSignedDifference a b =
     (let absDiff = (if a > b then a - b else b - a);
          absDiff = (if absDiff < INT64_MAX then absDiff else INT64_MAX)
      in if a > b then absDiff else - absDiff)"

definition useFilenameByEnv :: "string option \<Rightarrow> bool" where
  "useFilenameByEnv s \<longleftrightarrow> (case s of None \<Rightarrow> False | Some n \<Rightarrow> n \<noteq> '''')"

definition setTraceConfig :: "(VirtualDeviceTraceConfig \<Rightarrow> VirtualDeviceTraceConfig) \<Rightarrow> VirtualDeviceTraceConfig \<Rightarrow> VirtualDeviceTraceConfig" where
  "setTraceConfig f c = f c"

definition setGuestTime :: "u64 \<Rightarrow> u64 \<Rightarrow> VirtualDeviceTraceConfig \<Rightarrow> VirtualDeviceTraceConfig" where
  "setGuestTime now t =
     setTraceConfig (\<lambda>config.
       if \<not> tracingDisabled config then config
       else config\<lparr>guestStartTime := t, hostStartTime := now,
                   guestTimeDiff := getSignedDifference t now\<rparr>)"

text \<open>The environment: the values of \<^verbatim>\<open>VPERFETTO_HOST_FILE\<close>, \<^verbatim>\<open>_GUEST_FILE\<close> and \<^verbatim>\<open>_COMBINED_FILE\<close>.\<close>

record trace_env =
  env_host :: "string option"
  env_guest :: "string option"
  env_combined :: "string option"

definition apply_env :: "trace_env \<Rightarrow> VirtualDeviceTraceConfig \<Rightarrow> VirtualDeviceTraceConfig" where
  "apply_env env c =
     (let c1 = (if useFilenameByEnv (env_host env) then c\<lparr>hostFilename := env_host env\<rparr> else c);
          c2 = (if useFilenameByEnv (env_guest env) then c1\<lparr>guestFilename := env_guest env\<rparr> else c1)
      in if useFilenameByEnv (env_combined env) then c2\<lparr>combinedFilename := env_combined env\<rparr> else c2)"

definition reset_counters :: "VirtualDeviceTraceConfig \<Rightarrow> VirtualDeviceTraceConfig" where
  "reset_counters c = c\<lparr>packetsWritten := 0, sequenceIdWritten := False,
      currentInterningId := 1, currentThreadId := 1\<rparr>"

definition enableTracing :: "trace_env \<Rightarrow> VirtualDeviceTraceConfig \<Rightarrow> VirtualDeviceTraceConfig" where
  "enableTracing env c0 =
     (let c = apply_env env c0 in
      if hostFilename c = None then c
      else if \<not> tracingDisabled c then c
      else if saving c then c
      else (reset_counters c)\<lparr>tracingDisabled := False\<rparr>)"

text \<open>\<open>disableTracing\<close> up to the call of \<open>onTracingDisabled\<close> (the boolean says whether it is made), and the
  rest of it after that call.\<close>

definition disableTracing_begin :: "VirtualDeviceTraceConfig \<Rightarrow> (bool \<times> VirtualDeviceTraceConfig) option" where
  "disableTracing_begin c =
     (if hostFilename c = None then None
      else
        (let tracingWasDisabled = tracingDisabled c;
             c1 = c\<lparr>tracingDisabled := True\<rparr>
         in Some (\<not> tracingWasDisabled, if \<not> tracingWasDisabled then c1\<lparr>saving := False\<rparr> else c1)))"

definition disableTracing_end :: "VirtualDeviceTraceConfig \<Rightarrow> VirtualDeviceTraceConfig" where
  "disableTracing_end c = (reset_counters c)\<lparr>guestTimeDiff := 0\<rparr>"

text \<open>\<open>waitSavingDone\<close> returns at once exactly when \<open>saving\<close> is off.\<close>

definition waitSavingDone_returns :: "VirtualDeviceTraceConfig \<Rightarrow> bool" where
  "waitSavingDone_returns c \<longleftrightarrow> \<not> saving c"

subsection \<open>Signed differences\<close>

lemma sint_of_int_small:
  assumes "- (2 ^ 63) \<le> k" and "k < 2 ^ 63"
  shows "sint (word_of_int k :: i64) = k"
  using signed_take_bit_int_eq_self [OF assms] by (simp add: signed_of_int)

lemma sint_u64_small:
  assumes "uint (x :: u64) < 2 ^ 63"
  shows "sint x = uint x" and "sint (- x) = - uint x"
proof -
  have z: "0 \<le> uint x" "- (2 ^ 63) \<le> (0 :: int)" "(0 :: int) < 2 ^ 63" by simp_all
  then have b: "- (2 ^ 63) \<le> uint x" "- uint x < 2 ^ 63" by (metis order_trans, metis neg_le_0_iff_le le_less_trans)
  from assms have c: "- (2 ^ 63) \<le> - uint x" by (metis neg_le_iff_le less_imp_le)
  show "sint x = uint x" "sint (- x) = - uint x"
    using sint_of_int_small [OF b(1) assms] sint_of_int_small [OF c b(2)] by simp_all
qed

lemma getSignedDifference_exact:
  "sint (getSignedDifference a b) =
     (if uint a > uint b then min (uint a - uint b) (2 ^ 63 - 1) else - min (uint b - uint a) (2 ^ 63 - 1))"
proof -
  have m: "uint INT64_MAX = 2 ^ 63 - 1" by (simp add: INT64_MAX_def)
  define d where "d = (if a > b then a - b else b - a)"
  define e where "e = (if d < INT64_MAX then d else INT64_MAX)"
  have d: "uint d = (if uint a > uint b then uint a - uint b else uint b - uint a)"
    by (auto simp: d_def word_less_def uint_sub_if_size word_size)
  have e: "uint e = min (uint d) (2 ^ 63 - 1)"
    using m by (auto simp: e_def word_less_def)
  then have s: "uint e < 2 ^ 63" by simp
  have "getSignedDifference a b = (if uint a > uint b then e else - e)"
    by (simp add: getSignedDifference_def Let_def d_def e_def word_less_def)
  then show ?thesis using sint_u64_small [OF s] by (simp add: e d)
qed

lemma getSignedDifference_adds_back:
  assumes "abs (uint a - uint b) < 2 ^ 63"
  shows "b + getSignedDifference a b = a"
proof -
  have "b + getSignedDifference a b = word_of_int (uint b + sint (getSignedDifference a b))"
    by simp
  also have "uint b + sint (getSignedDifference a b) = uint a"
    using assms by (simp add: getSignedDifference_exact)
  finally show ?thesis by simp
qed

subsection \<open>The tracing switch as a state machine\<close>

text \<open>
  The API calls as steps of the global configuration: \<open>SetGuestTime now t\<close>, \<open>Enable env\<close>, \<open>Disable\<close>,
  \<open>SetFiles\<close> and \<open>SetStorageMb\<close> for a client's \<open>setTraceConfig\<close>, and \<open>Traced\<close> for what tracing itself
  changes. A \<open>Disable\<close> that calls \<open>onTracingDisabled\<close> leaves \<open>saving\<close> off: both the synchronous path
  and the background thread end with \<^verbatim>\<open>saving = false\<close>.
\<close>

datatype api_call =
    SetGuestTime u64 u64
  | Enable trace_env
  | Disable
  | SetFiles "string option" "string option" "string option"
  | SetStorageMb u32
  | Traced u32 u32 u32

definition disableTracing :: "VirtualDeviceTraceConfig \<Rightarrow> VirtualDeviceTraceConfig" where
  "disableTracing c =
     (case disableTracing_begin c of
        None \<Rightarrow> c
      | Some (saves, c1) \<Rightarrow> disableTracing_end (if saves then c1\<lparr>saving := False\<rparr> else c1))"

fun api_step :: "api_call \<Rightarrow> VirtualDeviceTraceConfig \<Rightarrow> VirtualDeviceTraceConfig" where
  "api_step (SetGuestTime now t) c = setGuestTime now t c"
| "api_step (Enable env) c = enableTracing env c"
| "api_step Disable c = disableTracing c"
| "api_step (SetFiles h g k) c =
     setTraceConfig (\<lambda>c. c\<lparr>hostFilename := h, guestFilename := g, combinedFilename := k\<rparr>) c"
| "api_step (SetStorageMb mb) c = setTraceConfig (\<lambda>c. c\<lparr>perThreadStorageMb := mb\<rparr>) c"
| "api_step (Traced p i t) c =
     (if tracingDisabled c then c
      else c\<lparr>packetsWritten := p, sequenceIdWritten := True, currentInterningId := i, currentThreadId := t\<rparr>)"

inductive api_reachable :: "VirtualDeviceTraceConfig \<Rightarrow> bool" where
  start: "api_reachable sTraceConfig"
| step: "api_reachable c \<Longrightarrow> api_reachable (api_step a c)"

text \<open>While tracing is off the counters are at their start values; the time difference is the one of the
  stored start times, or zero.\<close>

definition config_inv :: "VirtualDeviceTraceConfig \<Rightarrow> bool" where
  "config_inv c \<longleftrightarrow> \<not> saving c \<and>
     (tracingDisabled c \<longrightarrow> packetsWritten c = 0 \<and> \<not> sequenceIdWritten c \<and>
        currentInterningId c = 1 \<and> currentThreadId c = 1) \<and>
     (guestTimeDiff c = 0 \<or> guestTimeDiff c = getSignedDifference (guestStartTime c) (hostStartTime c))"

lemma apply_env_only_files [simp]:
  "tracingDisabled (apply_env e c) = tracingDisabled c" "saving (apply_env e c) = saving c"
  "packetsWritten (apply_env e c) = packetsWritten c" "sequenceIdWritten (apply_env e c) = sequenceIdWritten c"
  "currentInterningId (apply_env e c) = currentInterningId c" "currentThreadId (apply_env e c) = currentThreadId c"
  "guestTimeDiff (apply_env e c) = guestTimeDiff c" "guestStartTime (apply_env e c) = guestStartTime c"
  "hostStartTime (apply_env e c) = hostStartTime c" "perThreadStorageMb (apply_env e c) = perThreadStorageMb c"
  by (simp_all add: apply_env_def Let_def)

lemma apply_env_files:
  "hostFilename (apply_env e c) = (if useFilenameByEnv (env_host e) then env_host e else hostFilename c)"
  "guestFilename (apply_env e c) = (if useFilenameByEnv (env_guest e) then env_guest e else guestFilename c)"
  "combinedFilename (apply_env e c) = (if useFilenameByEnv (env_combined e) then env_combined e else combinedFilename c)"
  by (simp_all add: apply_env_def Let_def)

lemma config_inv_init: "config_inv sTraceConfig"
  by (simp add: config_inv_def sTraceConfig_def)

lemma config_inv_step: "config_inv c \<Longrightarrow> config_inv (api_step a c)"
  by (cases a) (auto simp: config_inv_def setGuestTime_def setTraceConfig_def enableTracing_def disableTracing_def
      disableTracing_begin_def disableTracing_end_def reset_counters_def Let_def split: option.splits if_splits)

lemma api_reachable_inv: "api_reachable c \<Longrightarrow> config_inv c"
  by (induction rule: api_reachable.induct) (simp_all add: config_inv_init config_inv_step)

subsection \<open>Properties\<close>

text \<open>The time difference has the sign and the magnitude of the mathematical
  difference, capped at \<open>INT64_MAX\<close>; when it was not capped, adding it to the second time with 64-bit
  wrap-around gives the first, and swapping the times negates it.\<close>
theorem signed_difference:
  "sint (getSignedDifference a b) =
     (if uint a > uint b then min (uint a - uint b) (2 ^ 63 - 1) else - min (uint b - uint a) (2 ^ 63 - 1))
   \<and> (abs (uint a - uint b) < 2 ^ 63 \<longrightarrow>
        b + getSignedDifference a b = a \<and> getSignedDifference b a = - getSignedDifference a b)"
proof (intro conjI impI)
  assume s: "abs (uint a - uint b) < 2 ^ 63"
  then show diff: "b + getSignedDifference a b = a" by (rule getSignedDifference_adds_back)
  have "a + getSignedDifference b a = b"
    using s by (intro getSignedDifference_adds_back) (simp add: abs_minus_commute)
  with diff show "getSignedDifference b a = - getSignedDifference a b"
    by (metis add_diff_cancel_left' minus_diff_eq)
qed (rule getSignedDifference_exact)

theorem signed_difference_witness:
  "1000 + getSignedDifference 400 1000 = (400 :: u64) \<and> getSignedDifference 1000 400 = - getSignedDifference 400 (1000 :: u64)"
  using signed_difference [of 400 1000] by simp

text \<open>Every branch of the tracing switch. \<open>enableTracing\<close> turns tracing on only
  from off, with a host file name (the environment variables override the configured names unless
  empty) and with no save running, and restarts the counters; otherwise it changes file names only.
  \<open>disableTracing\<close> without a host file name does nothing, otherwise tracing is off and the time
  difference is cleared; the trace is saved exactly when tracing was on.\<close>
theorem enable_disable_behaviour:
  "(let c' = enableTracing env c;
        host = (if useFilenameByEnv (env_host env) then env_host env else hostFilename c);
        starts = (host \<noteq> None \<and> tracingDisabled c \<and> \<not> saving c)
    in hostFilename c' = host
     \<and> tracingDisabled c' = (tracingDisabled c \<and> \<not> starts)
     \<and> (starts \<longrightarrow> packetsWritten c' = 0 \<and> \<not> sequenceIdWritten c' \<and> currentInterningId c' = 1 \<and> currentThreadId c' = 1)
     \<and> (\<not> starts \<longrightarrow> c' = apply_env env c)
     \<and> guestTimeDiff c' = guestTimeDiff c)
   \<and> (hostFilename c = None \<longrightarrow> disableTracing c = c)
   \<and> (hostFilename c \<noteq> None \<longrightarrow>
        tracingDisabled (disableTracing c) \<and> guestTimeDiff (disableTracing c) = 0
        \<and> map_option fst (disableTracing_begin c) = Some (\<not> tracingDisabled c))"
  by (auto simp: enableTracing_def Let_def apply_env_files reset_counters_def disableTracing_def
      disableTracing_begin_def disableTracing_end_def split: option.splits if_splits)

theorem enable_disable_behaviour_witness:
  "let c = sTraceConfig\<lparr>hostFilename := Some ''h''\<rparr>;
       e = \<lparr>env_host = None, env_guest = Some '''', env_combined = None\<rparr>
   in \<not> tracingDisabled (enableTracing e c) \<and> tracingDisabled (disableTracing (enableTracing e c))"
proof -
  let ?c = "sTraceConfig\<lparr>hostFilename := Some ''h''\<rparr>"
  let ?e = "\<lparr>env_host = None, env_guest = Some '''', env_combined = None\<rparr>"
  have "tracingDisabled ?c" "\<not> saving ?c" "hostFilename ?c = Some ''h''" "\<not> useFilenameByEnv (env_host ?e)"
    by (simp_all add: sTraceConfig_def useFilenameByEnv_def)
  with enable_disable_behaviour [of ?e ?c] enable_disable_behaviour [of ?e "enableTracing ?e ?c"]
  show ?thesis by (simp add: Let_def)
qed

text \<open>Over any history of API calls, the difference added to host timestamps is
  either zero or the difference of the guest and host start times of the last \<open>setGuestTime\<close>; it cannot
  change while tracing is on except by disabling, and with start times less than \<open>2 ^ 63\<close> apart it maps
  the host start time to the guest start time. The save guard is never on, so \<open>enableTracing\<close>
  is never refused because of a save and \<open>waitSavingDone\<close> never waits.\<close>
theorem guest_time_applied:
  assumes "api_reachable c"
  shows "(guestTimeDiff c \<noteq> 0 \<and> abs (uint (guestStartTime c) - uint (hostStartTime c)) < 2 ^ 63 \<longrightarrow>
           hostStartTime c + guestTimeDiff c = guestStartTime c)
    \<and> (\<not> tracingDisabled c \<and> a \<noteq> Disable \<longrightarrow> guestTimeDiff (api_step a c) = guestTimeDiff c)
    \<and> \<not> saving c \<and> waitSavingDone_returns c"
proof -
  have inv: "config_inv c" by (rule api_reachable_inv [OF assms])
  have "guestTimeDiff (api_step a c) = guestTimeDiff c" if "\<not> tracingDisabled c" "a \<noteq> Disable"
    using that by (cases a) (simp_all add: setGuestTime_def setTraceConfig_def enableTracing_def Let_def)
  with inv show ?thesis
    using getSignedDifference_adds_back [of "guestStartTime c" "hostStartTime c"]
    by (auto simp: config_inv_def waitSavingDone_returns_def)
qed

theorem guest_time_applied_witness:
  "let c = api_step (SetGuestTime 1000 400) sTraceConfig
   in hostStartTime c + guestTimeDiff c = guestStartTime c \<and> waitSavingDone_returns c"
proof -
  let ?c = "api_step (SetGuestTime 1000 400) sTraceConfig"
  have "api_reachable ?c" by (rule api_reachable.step [OF api_reachable.start])
  moreover have "guestTimeDiff ?c \<noteq> 0" by code_simp
  moreover have "abs (uint (guestStartTime ?c) - uint (hostStartTime ?c)) < 2 ^ 63" by code_simp
  ultimately show ?thesis using guest_time_applied [of ?c Disable] by (simp add: Let_def)
qed

end
