(* ===== verification/Trace_Context.thy ===== *)
theory Trace_Context
  imports Trace_Config Message_Roundtrip "HOL-Library.Monad_Syntax"
begin

section \<open>The per-thread tracer (class TraceContext in vperfetto.cpp)\<close>

text \<open>
  A \<open>TraceContext\<close> is the delegate of its own stream writer. The state of one thread of tracing is a
  stream of \<open>Stream_Writer\<close> whose delegate part is a \<open>tracer\<close>: the context's fields, the global
  \<open>sTraceConfig\<close> and the \<open>mSavedTraces\<close> of the global \<open>TraceStorage\<close>. \<open>mWriter\<close> is the stream itself and
  \<open>mPacket\<close> its chain of messages. Each operation runs under \<open>mTracingLock\<close>, so it is one function;
  \<open>None\<close> is a failed check, an out-of-bounds store or a computation that does not return.

  A name is a C string: its address (the interning maps are keyed by it) and its bytes up to the
  NUL. \<open>mTraceBuffer\<close> is the chunk number of the buffer. \<open>ts\<close> is what \<open>bootTimeNs()\<close> returns in the call.
\<close>

type_synonym cstr = "nat \<times> u8 list"

record SavedTraceInfo =
  st_data :: "u8 list option"
  st_allocSize :: nat
  st_written :: nat
  st_first :: bool

record TraceContext =
  mTraceBuffer :: "nat option"
  mTraceBufferSize :: nat
  mFirst :: bool
  mWritingPacket :: bool
  mNeedToSetThreadId :: bool
  mThreadId :: u32
  mNeedToConfigureGuestTime :: bool
  mCurrentCounterId :: u32
  mTimeDiff :: u64
  mStackDepth :: nat
  mCurrentCategoryIid :: "u32 list"
  mCurrentEventNameIid :: "u32 list"
  mEventCategoryInterningIds :: "nat \<rightharpoonup> u32"
  mEventNameInterningIds :: "nat \<rightharpoonup> u32"
  mCounterNameToTrackUuids :: "nat \<rightharpoonup> u64"

record tracer =
  tc :: TraceContext
  cfg :: VirtualDeviceTraceConfig
  mSavedTraces :: "SavedTraceInfo list"

type_synonym tstream = "tracer mstream"

definition TRACE_STACK_DEPTH_MAX :: nat where
  "TRACE_STACK_DEPTH_MAX = 16"

definition kSequenceId :: u32 where
  "kSequenceId = 1"

definition init_TraceContext :: TraceContext where
  "init_TraceContext =
     \<lparr>mTraceBuffer = None, mTraceBufferSize = 0, mFirst = False, mWritingPacket = False,
      mNeedToSetThreadId = True, mThreadId = 0, mNeedToConfigureGuestTime = True,
      mCurrentCounterId = 1, mTimeDiff = 0, mStackDepth = 0,
      mCurrentCategoryIid = replicate TRACE_STACK_DEPTH_MAX 0,
      mCurrentEventNameIid = replicate TRACE_STACK_DEPTH_MAX 0,
      mEventCategoryInterningIds = Map.empty, mEventNameInterningIds = Map.empty,
      mCounterNameToTrackUuids = Map.empty\<rparr>"

definition new_tracer :: "VirtualDeviceTraceConfig \<Rightarrow> SavedTraceInfo list \<Rightarrow> tstream" where
  "new_tracer c sv =
     root_Reset (init_stream \<lparr>tc = init_TraceContext, cfg = c, mSavedTraces = sv\<rparr> [])"

abbreviation ctx :: "tstream \<Rightarrow> TraceContext" where "ctx s \<equiv> tc (delegate s)"
abbreviation config :: "tstream \<Rightarrow> VirtualDeviceTraceConfig" where "config s \<equiv> cfg (delegate s)"
abbreviation saved :: "tstream \<Rightarrow> SavedTraceInfo list" where "saved s \<equiv> mSavedTraces (delegate s)"

definition upd_ctx :: "(TraceContext \<Rightarrow> TraceContext) \<Rightarrow> tstream \<Rightarrow> tstream" where
  "upd_ctx f s = s\<lparr>delegate := (delegate s)\<lparr>tc := f (ctx s)\<rparr>\<rparr>"

definition upd_cfg :: "(VirtualDeviceTraceConfig \<Rightarrow> VirtualDeviceTraceConfig) \<Rightarrow> tstream \<Rightarrow> tstream" where
  "upd_cfg f s = s\<lparr>delegate := (delegate s)\<lparr>cfg := f (config s)\<rparr>\<rparr>"

text \<open>A store into one of the arrays of length 16; past the end it is undefined behaviour.\<close>

definition store_at :: "'a list \<Rightarrow> nat \<Rightarrow> 'a \<Rightarrow> 'a list option" where
  "store_at xs i v = (if i < length xs then Some (xs[i := v]) else None)"

definition load_at :: "'a list \<Rightarrow> nat \<Rightarrow> 'a option" where
  "load_at xs i = (if i < length xs then Some (xs ! i) else None)"

subsection \<open>Buffers\<close>

definition saveTrace :: "SavedTraceInfo \<Rightarrow> tstream \<Rightarrow> tstream" where
  "saveTrace info s =
     (if st_data info \<noteq> None
      then s\<lparr>delegate := (delegate s)\<lparr>mSavedTraces := saved s @ [info]\<rparr>\<rparr> else s)"

definition allocTraceBuffer :: "tstream \<Rightarrow> tstream" where
  "allocTraceBuffer s =
     (let size = unat (perThreadStorageMb (config s) * 1048576);
          c = length (heap s);
          s1 = upd_ctx (\<lambda>x. x\<lparr>mTraceBufferSize := size, mTraceBuffer := Some c\<rparr>)
                 (s\<lparr>heap := heap s @ [\<lparr>c_cap = size, c_bytes = []\<rparr>]\<rparr>)
      in writer_Reset (Some \<lparr>rg_chunk = c, rg_begin = 0, rg_end = size\<rparr>) s1)"

definition resetLocked :: "bool \<Rightarrow> tstream \<Rightarrow> tstream" where
  "resetLocked partialReset s =
     (let s1 = upd_ctx (\<lambda>x. x\<lparr>mTraceBuffer := None, mTraceBufferSize := 0, mFirst := False\<rparr>) s in
      if partialReset then s1
      else root_Reset (upd_ctx (\<lambda>x. x\<lparr>mNeedToSetThreadId := True, mThreadId := 0,
             mNeedToConfigureGuestTime := True, mCurrentCounterId := 1, mTimeDiff := 0, mStackDepth := 0,
             mEventCategoryInterningIds := Map.empty, mEventNameInterningIds := Map.empty,
             mCounterNameToTrackUuids := Map.empty\<rparr>) s1))"

text \<open>The bytes written are counted from the start of the buffer to the write pointer.\<close>

definition saveLocked :: "bool \<Rightarrow> tstream \<Rightarrow> SavedTraceInfo \<times> tstream" where
  "saveLocked partialReset s =
     (let info = \<lparr>st_data = map_option (\<lambda>c. c_bytes (heap s ! c)) (mTraceBuffer (ctx s)),
                  st_allocSize = mTraceBufferSize (ctx s),
                  st_written = (case write_ptr s of None \<Rightarrow> 0 | Some p \<Rightarrow> snd p),
                  st_first = mFirst (ctx s)\<rparr>
      in (info, resetLocked partialReset s))"

definition finishAndRefresh :: "tstream \<Rightarrow> tstream" where
  "finishAndRefresh s =
     allocTraceBuffer
       (if mTraceBuffer (ctx s) \<noteq> None
        then (let (info, s1) = saveLocked True s in saveTrace info s1) else s)"

subsection \<open>Packets\<close>

function writeVarInt :: "u32 \<Rightarrow> u8 list" where
  "writeVarInt v =
     (if v \<ge> 0x80 then ((ucast v :: u8) OR 0x80) # writeVarInt (drop_bit 7 v) else [ucast v])"
  by pat_completeness auto
termination
proof (relation "measure unat")
  fix v :: u32
  assume "v \<ge> 0x80"
  then have "0 < unat v" by (auto simp: word_le_nat_alt)
  then have "unat (drop_bit 7 v) < unat v" by (intro unat_drop_bit_less_self) simp_all
  then show "(drop_bit 7 v, v) \<in> measure unat" by (simp only: in_measure)
qed simp

declare writeVarInt.simps [simp del]

definition kTrackEventPadding :: nat where "kTrackEventPadding = 200"
definition kPacketHeaderSize :: nat where "kPacketHeaderSize = 4"

definition neededSpace :: nat where
  "neededSpace = kPacketHeaderSize + 4 + kTrackEventPadding"

definition beginPacket :: "tracer mdelegate \<Rightarrow> tstream \<Rightarrow> tstream option" where
  "beginPacket gnb s =
     (let s1 = (if mTraceBuffer (ctx s) = None then allocTraceBuffer s else s);
          s2 = (if bytes_available s1 < neededSpace then finishAndRefresh s1 else s1);
          s3 = root_Reset s2
      in do {
        s4 \<leftarrow> WriteBytes gnb (writeVarInt (MakeTagLengthDelimited 1)) s3;
        (header, s5) \<leftarrow> ReserveBytes gnb kPacketHeaderSize s4;
        Some (upd_ctx (\<lambda>x. x\<lparr>mWritingPacket := True\<rparr>)
               (set_size_field 0 header (poke header (replicate kPacketHeaderSize 0) s5)))
      })"

definition endPacket :: "tstream \<Rightarrow> tstream option" where
  "endPacket s = map_option snd (Finalize 0 (upd_ctx (\<lambda>x. x\<lparr>mWritingPacket := False\<rparr>) s))"

text \<open>
  \<open>GetNewBuffer\<close> calls \<open>beginPacket\<close> when it is called in the middle of a packet, and \<open>beginPacket\<close>
  writes through the same writer: the fuel bounds this mutual recursion (0 is a recursion that went
  too deep).
\<close>

fun GetNewBuffer :: "nat \<Rightarrow> tracer mdelegate" where
  "GetNewBuffer 0 s = None"
| "GetNewBuffer (Suc n) s =
     do {
       s1 \<leftarrow> (if mWritingPacket (ctx s) then map_option snd (Finalize 0 s) else Some s);
       let s2 = finishAndRefresh s1;
       if mWritingPacket (ctx s2) then
         do {
           s3 \<leftarrow> beginPacket (GetNewBuffer n) s2;
           c \<leftarrow> mTraceBuffer (ctx s3);
           (_, writtenThisTime) \<leftarrow> write_ptr s3;
           Some (s3, \<lparr>rg_chunk = c, rg_begin = writtenThisTime, rg_end = mTraceBufferSize (ctx s3)\<rparr>)
         }
       else
         do {
           c \<leftarrow> mTraceBuffer (ctx s2);
           Some (s2, \<lparr>rg_chunk = c, rg_begin = 0, rg_end = mTraceBufferSize (ctx s2)\<rparr>)
         }
     }"

subsection \<open>The packets (setters generated into perfetto.h)\<close>

text \<open>
  A packet is given by the sequence of setter calls the source makes; \<open>put_fields\<close> performs them on
  the message. \<open>set_type\<close> calls \<open>AppendTinyVarInt\<close>, which writes what \<open>AppendVarInt\<close> writes
  (\<open>AppendTinyVarInt_small\<close>).
\<close>

lemma AppendTinyVarInt_small:
  assumes "unat (v :: i32) < 0x80"
  shows "AppendTinyVarInt gnb d i v = AppendVarInt gnb d i (ucast v :: u64)"
proof -
  have "unat (ucast v :: u64) < 0x80" using assms by (simp add: unat_ucast_u32)
  moreover have "(ucast (ucast v :: u64) :: u8) = ucast v" by (rule bit_eqI) (auto simp: bit_simps)
  ultimately have "WriteVarInt (ucast v :: u64) = [ucast v]" by (subst WriteVarInt.simps) simp
  then show ?thesis by (rule_tac ext) (simp add: AppendTinyVarInt_def AppendVarInt_def)
qed

definition set_timestamp :: "u64 \<Rightarrow> pb_field" where "set_timestamp v = PbVarInt 8 v"
definition set_trusted_packet_sequence_id :: "u32 \<Rightarrow> pb_field" where
  "set_trusted_packet_sequence_id v = PbVarInt 10 (ucast v)"
definition set_sequence_flags :: "u32 \<Rightarrow> pb_field" where "set_sequence_flags v = PbVarInt 13 (ucast v)"
definition set_track_event :: "pb_field list \<Rightarrow> pb_field" where "set_track_event fs = PbMsg 11 fs"
definition set_interned_data :: "pb_field list \<Rightarrow> pb_field" where "set_interned_data fs = PbMsg 12 fs"
definition set_track_descriptor :: "pb_field list \<Rightarrow> pb_field" where "set_track_descriptor fs = PbMsg 60 fs"

definition add_event_categories :: "u32 \<Rightarrow> u8 list \<Rightarrow> pb_field" where
  "add_event_categories iid name = PbMsg 1 [PbVarInt 1 (ucast iid), PbBytes 2 name]"
definition add_event_names :: "u32 \<Rightarrow> u8 list \<Rightarrow> pb_field" where
  "add_event_names iid name = PbMsg 2 [PbVarInt 1 (ucast iid), PbBytes 2 name]"

definition set_track_uuid :: "u64 \<Rightarrow> pb_field" where "set_track_uuid v = PbVarInt 11 v"
definition add_category_iids :: "u32 \<Rightarrow> pb_field" where "add_category_iids v = PbVarInt 3 (ucast v)"
definition set_name_iid :: "u32 \<Rightarrow> pb_field" where "set_name_iid v = PbVarInt 10 (ucast v)"
definition set_counter_value :: "i64 \<Rightarrow> pb_field" where "set_counter_value v = PbVarInt 30 v"

datatype TrackEvent_Type = TYPE_SLICE_BEGIN | TYPE_SLICE_END | TYPE_COUNTER

fun set_type :: "TrackEvent_Type \<Rightarrow> pb_field" where
  "set_type TYPE_SLICE_BEGIN = PbVarInt 9 1"
| "set_type TYPE_SLICE_END = PbVarInt 9 2"
| "set_type TYPE_COUNTER = PbVarInt 9 4"

definition desc_set_uuid :: "u64 \<Rightarrow> pb_field" where "desc_set_uuid v = PbVarInt 1 v"
definition desc_set_name :: "u8 list \<Rightarrow> pb_field" where "desc_set_name name = PbBytes 2 name"
definition desc_set_counter :: pb_field where "desc_set_counter = PbMsg 8 []"

text \<open>Numbers are printed in decimal by the string stream.\<close>

fun decimal :: "nat \<Rightarrow> u8 list" where
  "decimal n = (if n < 10 then [word_of_nat (48 + n)] else decimal (n div 10) @ [word_of_nat (48 + n mod 10)])"

declare decimal.simps [simp del]

definition kTrackNamePrefix :: "u8 list" where "kTrackNamePrefix = [101, 109, 117, 45]"
definition kCounterNamePrefix :: "u8 list" where "kCounterNamePrefix = [45, 99, 111, 117, 110, 116, 45]"
definition kCategory :: cstr where "kCategory = (1, [103, 102, 120, 115, 116, 114, 101, 97, 109])"

definition getTrackNameFromThreadId :: "u32 \<Rightarrow> u8 list" where
  "getTrackNameFromThreadId threadId = kTrackNamePrefix @ decimal (unat threadId)"

definition getTrackNameFromThreadIdAndCounterName :: "u32 \<Rightarrow> cstr \<Rightarrow> u8 list" where
  "getTrackNameFromThreadIdAndCounterName threadId counterName =
     kTrackNamePrefix @ decimal (unat threadId) @ kCounterNamePrefix @ snd counterName"

definition write_packet :: "tracer mdelegate \<Rightarrow> pb_field list \<Rightarrow> tstream \<Rightarrow> tstream option" where
  "write_packet gnb fs s =
     do { s1 \<leftarrow> beginPacket gnb s; s2 \<leftarrow> put_fields gnb 0 fs s1; endPacket s2 }"

subsection \<open>Interning and counters\<close>

definition internCategory :: "cstr \<Rightarrow> tstream \<Rightarrow> u32 \<times> bool \<times> tstream" where
  "internCategory str s =
     (case mEventCategoryInterningIds (ctx s) (fst str) of
        Some iid \<Rightarrow> (iid, False, s)
      | None \<Rightarrow>
          (let res = currentInterningId (config s);
               s1 = upd_ctx (\<lambda>x. x\<lparr>mEventCategoryInterningIds := (mEventCategoryInterningIds x)(fst str \<mapsto> res)\<rparr>) s
           in (res, True, upd_cfg (\<lambda>c. c\<lparr>currentInterningId := currentInterningId c + 1\<rparr>) s1)))"

definition internEvent :: "cstr \<Rightarrow> tstream \<Rightarrow> u32 \<times> bool \<times> tstream" where
  "internEvent str s =
     (case mEventNameInterningIds (ctx s) (fst str) of
        Some iid \<Rightarrow> (iid, False, s)
      | None \<Rightarrow>
          (let res = currentInterningId (config s);
               s1 = upd_ctx (\<lambda>x. x\<lparr>mEventNameInterningIds := (mEventNameInterningIds x)(fst str \<mapsto> res)\<rparr>) s
           in (res, True, upd_cfg (\<lambda>c. c\<lparr>currentInterningId := currentInterningId c + 1\<rparr>) s1)))"

definition getOrCreateCounterTrackUuid :: "cstr \<Rightarrow> tstream \<Rightarrow> u64 \<times> u32 \<times> bool \<times> tstream" where
  "getOrCreateCounterTrackUuid name s =
     (case mCounterNameToTrackUuids (ctx s) (fst name) of
        None \<Rightarrow>
          (let res = push_bit 32 (ucast (mCurrentCounterId (ctx s))) OR ucast (mThreadId (ctx s));
               counterId = mCurrentCounterId (ctx s)
           in (res, counterId, True,
               upd_ctx (\<lambda>x. x\<lparr>mCounterNameToTrackUuids := (mCounterNameToTrackUuids x)(fst name \<mapsto> res),
                              mCurrentCounterId := mCurrentCounterId x + 1\<rparr>) s))
      | Some res \<Rightarrow> (res, ucast (drop_bit 32 res), False, s))"

subsection \<open>The traced operations\<close>

definition ensure_sequence :: "tracer mdelegate \<Rightarrow> tstream \<Rightarrow> tstream option" where
  "ensure_sequence gnb s0 =
     (let s = upd_cfg (\<lambda>c. c\<lparr>packetsWritten := packetsWritten c + 1\<rparr>) s0 in
      if packetsWritten (config s) = 1 then
        write_packet gnb [set_trusted_packet_sequence_id 1, set_sequence_flags 1]
          (upd_cfg (\<lambda>c. c\<lparr>sequenceIdWritten := True\<rparr>) (upd_ctx (\<lambda>x. x\<lparr>mFirst := True\<rparr>) s))
      else if \<not> sequenceIdWritten (config s) then None
      else Some s)"

definition ensure_category :: "tracer mdelegate \<Rightarrow> tstream \<Rightarrow> tstream option" where
  "ensure_category gnb s =
     (let (iid, needEmitCategoryIntern, s1) = internCategory kCategory s in
      do {
        iids \<leftarrow> store_at (mCurrentCategoryIid (ctx s1)) (mStackDepth (ctx s1)) iid;
        let s2 = upd_ctx (\<lambda>x. x\<lparr>mCurrentCategoryIid := iids\<rparr>) s1;
        if needEmitCategoryIntern then
          write_packet gnb [set_trusted_packet_sequence_id kSequenceId, set_sequence_flags 2,
            set_interned_data [add_event_categories iid (snd kCategory)]] s2
        else Some s2
      })"

definition ensure_thread :: "tracer mdelegate \<Rightarrow> tstream \<Rightarrow> tstream option" where
  "ensure_thread gnb s =
     (if mNeedToSetThreadId (ctx s) then
        (let s1 = upd_cfg (\<lambda>c. c\<lparr>currentThreadId := currentThreadId c + 1\<rparr>) s;
             tid = currentThreadId (config s1);
             s2 = upd_ctx (\<lambda>x. x\<lparr>mThreadId := tid, mNeedToSetThreadId := False\<rparr>) s1
         in write_packet gnb [set_trusted_packet_sequence_id kSequenceId, set_sequence_flags 2,
              set_track_descriptor [desc_set_uuid (ucast tid), desc_set_name (getTrackNameFromThreadId tid)]] s2)
      else Some s)"

definition ensureThreadInfo :: "tracer mdelegate \<Rightarrow> tstream \<Rightarrow> tstream option" where
  "ensureThreadInfo gnb s =
     do { s1 \<leftarrow> ensure_sequence gnb s; s2 \<leftarrow> ensure_category gnb s1; ensure_thread gnb s2 }"

definition getTimestamp :: "u64 \<Rightarrow> tstream \<Rightarrow> u64" where
  "getTimestamp ts s = ts + guestTimeDiff (config s)"

definition beginTrace :: "tracer mdelegate \<Rightarrow> u64 \<Rightarrow> cstr \<Rightarrow> tstream \<Rightarrow> tstream option" where
  "beginTrace gnb ts name s =
     (if tracingDisabled (config s) then Some s
      else if mStackDepth (ctx s) = TRACE_STACK_DEPTH_MAX then Some s
      else do {
        s1 \<leftarrow> ensureThreadInfo gnb s;
        let (iid, needEmitEventIntern, s2) = internEvent name s1;
        iids \<leftarrow> store_at (mCurrentEventNameIid (ctx s2)) (mStackDepth (ctx s2)) iid;
        let s3 = upd_ctx (\<lambda>x. x\<lparr>mCurrentEventNameIid := iids\<rparr>) s2;
        s4 \<leftarrow> (if needEmitEventIntern then
                 write_packet gnb [set_trusted_packet_sequence_id kSequenceId, set_sequence_flags 2,
                   set_interned_data [add_event_names iid (snd name)]] s3
               else Some s3);
        category \<leftarrow> load_at (mCurrentCategoryIid (ctx s4)) (mStackDepth (ctx s4));
        event \<leftarrow> load_at (mCurrentEventNameIid (ctx s4)) (mStackDepth (ctx s4));
        s5 \<leftarrow> write_packet gnb [set_trusted_packet_sequence_id kSequenceId, set_sequence_flags 2,
                set_timestamp (getTimestamp ts s4),
                set_track_event [set_track_uuid (ucast (mThreadId (ctx s4))), add_category_iids category,
                  set_name_iid event, set_type TYPE_SLICE_BEGIN]] s4;
        Some (upd_ctx (\<lambda>x. x\<lparr>mStackDepth := mStackDepth x + 1\<rparr>) s5)
      })"

definition endTrace :: "tracer mdelegate \<Rightarrow> u64 \<Rightarrow> tstream \<Rightarrow> tstream option" where
  "endTrace gnb ts s =
     (if tracingDisabled (config s) then Some s
      else if mStackDepth (ctx s) = TRACE_STACK_DEPTH_MAX then Some s
      else if mStackDepth (ctx s) = 0 then Some s
      else do {
        let s1 = upd_ctx (\<lambda>x. x\<lparr>mStackDepth := mStackDepth x - 1\<rparr>) s;
        category \<leftarrow> load_at (mCurrentCategoryIid (ctx s1)) (mStackDepth (ctx s1));
        event \<leftarrow> load_at (mCurrentEventNameIid (ctx s1)) (mStackDepth (ctx s1));
        write_packet gnb [set_trusted_packet_sequence_id kSequenceId, set_sequence_flags 2,
          set_timestamp (getTimestamp ts s1),
          set_track_event [add_category_iids category, set_track_uuid (ucast (mThreadId (ctx s1))),
            set_name_iid event, set_type TYPE_SLICE_END]] s1
      })"

definition traceCounter :: "tracer mdelegate \<Rightarrow> u64 \<Rightarrow> cstr \<Rightarrow> i64 \<Rightarrow> tstream \<Rightarrow> tstream option" where
  "traceCounter gnb ts name val s =
     (if tracingDisabled (config s) then Some s
      else do {
        s1 \<leftarrow> ensureThreadInfo gnb s;
        let (counterTrackUuid, counterId, first, s2) = getOrCreateCounterTrackUuid name s1;
        s3 \<leftarrow> (if first then
                 write_packet gnb [set_track_descriptor [desc_set_uuid counterTrackUuid,
                   desc_set_name (getTrackNameFromThreadIdAndCounterName (mThreadId (ctx s2)) name), desc_set_counter]] s2
               else Some s2);
        write_packet gnb [set_trusted_packet_sequence_id kSequenceId, set_sequence_flags 2,
          set_timestamp (getTimestamp ts s3),
          set_track_event [set_track_uuid counterTrackUuid, set_type TYPE_COUNTER, set_counter_value val]] s3
      })"

end
