(* ===== verification/Trace_Emission.thy ===== *)
theory Trace_Emission
  imports Trace_Context
begin

section \<open>What a traced packet leaves in the buffers\<close>

text \<open>
  \<open>write_packet\<close> is the only way the tracer writes. Here: as long as a packet fits the space that
  \<open>beginPacket\<close> checks for, it is appended to the buffer as one framed packet, or the full
  buffer is handed to the storage and the packet starts a new one; \<open>GetNewBuffer\<close> is never called.
\<close>

subsection \<open>The parts of the state\<close>

lemma upd_ctx_simps [simp]:
  "heap (upd_ctx f s) = heap s" "cur_range (upd_ctx f s) = cur_range s"
  "written_previously (upd_ctx f s) = written_previously s" "writer_objs (upd_ctx f s) = writer_objs s"
  "ctx (upd_ctx f s) = f (ctx s)" "config (upd_ctx f s) = config s" "saved (upd_ctx f s) = saved s"
  by (simp_all add: upd_ctx_def)

lemma upd_cfg_simps [simp]:
  "heap (upd_cfg f s) = heap s" "cur_range (upd_cfg f s) = cur_range s"
  "written_previously (upd_cfg f s) = written_previously s" "writer_objs (upd_cfg f s) = writer_objs s"
  "ctx (upd_cfg f s) = ctx s" "config (upd_cfg f s) = f (config s)" "saved (upd_cfg f s) = saved s"
  by (simp_all add: upd_cfg_def)

lemma root_Reset_simps [simp]:
  "heap (root_Reset s) = heap s" "cur_range (root_Reset s) = cur_range s"
  "written_previously (root_Reset s) = written_previously s" "writer_objs (root_Reset s) = [fresh_message]"
  "delegate (root_Reset s) = delegate s"
  by (simp_all add: root_Reset_def)

definition cur_bytes :: "tstream \<Rightarrow> u8 list" where
  "cur_bytes s = (case mTraceBuffer (ctx s) of None \<Rightarrow> [] | Some c \<Rightarrow> c_bytes (heap s ! c))"

definition storage_size :: "VirtualDeviceTraceConfig \<Rightarrow> nat" where
  "storage_size c = unat (perThreadStorageMb c * 1048576)"

text \<open>The state between two packets; the buffers are large enough for one.\<close>

definition ctx_ok :: "tstream \<Rightarrow> bool" where
  "ctx_ok s \<longleftrightarrow> writer_wf s \<and> \<not> mWritingPacket (ctx s) \<and> neededSpace \<le> storage_size (config s) \<and>
     (\<forall>c. mTraceBuffer (ctx s) = Some c \<longrightarrow> (\<exists>r. cur_range s = Some r \<and> rg_chunk r = c))"

text \<open>What is left of a context when its buffer is put aside: the part that decides what is traced.\<close>

definition logic :: "TraceContext \<Rightarrow> TraceContext" where
  "logic x = x\<lparr>mTraceBuffer := None, mTraceBufferSize := 0, mFirst := False, mWritingPacket := False\<rparr>"

lemma logic_upd [simp]:
  "logic (x\<lparr>mTraceBuffer := a\<rparr>) = logic x" "logic (x\<lparr>mTraceBufferSize := b\<rparr>) = logic x"
  "logic (x\<lparr>mFirst := c\<rparr>) = logic x" "logic (x\<lparr>mWritingPacket := c\<rparr>) = logic x"
  by (simp_all add: logic_def)

text \<open>The lengths of all chunks but the current one.\<close>

definition closed_lens :: "('d, 'm) stream \<Rightarrow> nat list" where
  "closed_lens s = map (length \<circ> c_bytes) (butlast (heap s))"

lemma same_buffers_closed: "same_buffers s s' \<Longrightarrow> closed_lens s' = closed_lens s \<and> cur_range s' = cur_range s \<and> delegate s' = delegate s"
  by (simp add: same_buffers_def closed_lens_def)

lemma last_chunk_appended:
  assumes wf: "writer_wf s" "writer_wf s'" and r: "cur_range s = Some r" "cur_range s' = Some r"
    and l: "closed_lens s' = closed_lens s" and c: "contents s' = contents s @ bs"
  shows "c_bytes (heap s' ! rg_chunk r) = c_bytes (heap s ! rg_chunk r) @ bs"
proof -
  note h = heap_last [OF wf(1) r(1)] and h' = heap_last [OF wf(2) r(2)]
  define a a' where "a = concat (map c_bytes (butlast (heap s)))" and "a' = concat (map c_bytes (butlast (heap s')))"
  have "length a' = length a"
    using l by (simp add: a_def a'_def length_concat closed_lens_def)
  moreover have "contents s = a @ c_bytes (heap s ! rg_chunk r)" "contents s' = a' @ c_bytes (heap s' ! rg_chunk r)"
    unfolding contents_def a_def a'_def
    by (subst (1) h(1), simp) (subst (1) h'(1), simp)
  ultimately show ?thesis using c by simp
qed

subsection \<open>New buffers\<close>

definition ready_for_packet :: "tstream \<Rightarrow> bool" where
  "ready_for_packet s \<longleftrightarrow> writer_wf s \<and> neededSpace \<le> bytes_available s \<and>
     (\<exists>r. cur_range s = Some r \<and> mTraceBuffer (ctx s) = Some (rg_chunk r))"

lemma allocTraceBuffer_props:
  assumes wf: "writer_wf s"
  shows "writer_wf (allocTraceBuffer s)" and "config (allocTraceBuffer s) = config s"
    and "bytes_available (allocTraceBuffer s) = storage_size (config s)"
    and "cur_bytes (allocTraceBuffer s) = []" and "saved (allocTraceBuffer s) = saved s"
    and "logic (ctx (allocTraceBuffer s)) = logic (ctx s)" and "mFirst (ctx (allocTraceBuffer s)) = mFirst (ctx s)"
    and "mWritingPacket (ctx (allocTraceBuffer s)) = mWritingPacket (ctx s)"
    and "\<exists>r. cur_range (allocTraceBuffer s) = Some r \<and> mTraceBuffer (ctx (allocTraceBuffer s)) = Some (rg_chunk r)"
  using wf by (auto simp: allocTraceBuffer_def Let_def writer_Reset_def writer_wf_def bytes_available_def
      chunk_len_def storage_size_def cur_bytes_def split: option.splits)

text \<open>What handing the full buffer to the storage adds there.\<close>

definition saved_as :: "tstream \<Rightarrow> SavedTraceInfo" where
  "saved_as s = \<lparr>st_data = Some (cur_bytes s), st_allocSize = mTraceBufferSize (ctx s),
      st_written = length (cur_bytes s), st_first = mFirst (ctx s)\<rparr>"

lemma saveLocked_info:
  assumes ok: "\<exists>r. cur_range s = Some r \<and> mTraceBuffer (ctx s) = Some (rg_chunk r)"
  shows "fst (saveLocked p s) = saved_as s"
  using ok by (auto simp: saveLocked_def saved_as_def write_ptr_def chunk_len_def cur_bytes_def)

lemma finishAndRefresh_props:
  assumes wf: "writer_wf s" and r: "\<exists>r. cur_range s = Some r \<and> mTraceBuffer (ctx s) = Some (rg_chunk r)"
  defines "t \<equiv> finishAndRefresh s"
  shows "writer_wf t" and "config t = config s" and "bytes_available t = storage_size (config s)"
    and "cur_bytes t = []" and "saved t = saved s @ [saved_as s]" and "logic (ctx t) = logic (ctx s)"
    and "\<not> mFirst (ctx t)" and "mWritingPacket (ctx t) = mWritingPacket (ctx s)"
    and "\<exists>r. cur_range t = Some r \<and> mTraceBuffer (ctx t) = Some (rg_chunk r)"
proof -
  define u where "u = saveTrace (saved_as s) (snd (saveLocked True s))"
  have d: "delegate u = (delegate s)\<lparr>tc := (ctx s)\<lparr>mTraceBuffer := None, mTraceBufferSize := 0, mFirst := False\<rparr>,
      mSavedTraces := saved s @ [saved_as s]\<rparr>"
    and v: "heap u = heap s" "cur_range u = cur_range s" "written_previously u = written_previously s"
    by (auto simp: u_def saveTrace_def saved_as_def saveLocked_def resetLocked_def upd_ctx_def Let_def)
  have t: "t = allocTraceBuffer u"
    using r saveLocked_info [OF r, of True] by (auto simp: t_def finishAndRefresh_def u_def split: prod.split)
  have "writer_wf u" using wf by (simp add: view_cong [OF v])
  note a = allocTraceBuffer_props [OF this, folded t]
  show "writer_wf t" "config t = config s" "bytes_available t = storage_size (config s)"
    "cur_bytes t = []" "saved t = saved s @ [saved_as s]" "logic (ctx t) = logic (ctx s)"
    "\<not> mFirst (ctx t)" "mWritingPacket (ctx t) = mWritingPacket (ctx s)"
    "\<exists>r. cur_range t = Some r \<and> mTraceBuffer (ctx t) = Some (rg_chunk r)"
    using a by (simp_all add: d)
qed

text \<open>\<open>beginPacket\<close> up to \<open>mPacket.Reset\<close>.\<close>

definition make_space :: "tstream \<Rightarrow> tstream" where
  "make_space s =
     (let s1 = (if mTraceBuffer (ctx s) = None then allocTraceBuffer s else s)
      in if bytes_available s1 < neededSpace then finishAndRefresh s1 else s1)"

text \<open>Either the buffer is kept, or it was saved and replaced by an empty one.\<close>

definition refreshed :: "tstream \<Rightarrow> tstream \<Rightarrow> bool" where
  "refreshed s t \<longleftrightarrow>
     (saved t = saved s \<and> cur_bytes t = cur_bytes s \<and> mFirst (ctx t) = mFirst (ctx s)) \<or>
     (mTraceBuffer (ctx s) \<noteq> None \<and> saved t = saved s @ [saved_as s] \<and> cur_bytes t = [] \<and> \<not> mFirst (ctx t))"

lemma make_space_props:
  assumes ok: "ctx_ok s"
  shows "ready_for_packet (make_space s)" and "config (make_space s) = config s"
    and "logic (ctx (make_space s)) = logic (ctx s)" and "refreshed s (make_space s)"
proof -
  have wf: "writer_wf s" and size: "neededSpace \<le> storage_size (config s)" using ok by (simp_all add: ctx_ok_def)
  have "ready_for_packet (make_space s) \<and> config (make_space s) = config s \<and>
      logic (ctx (make_space s)) = logic (ctx s) \<and> refreshed s (make_space s)"
  proof (cases "mTraceBuffer (ctx s)")
    case None
    note a = allocTraceBuffer_props [OF wf]
    have "make_space s = allocTraceBuffer s" using None a(3) size by (simp add: make_space_def)
    with a size None show ?thesis by (simp add: ready_for_packet_def refreshed_def cur_bytes_def)
  next
    case (Some c)
    with ok have r: "\<exists>r. cur_range s = Some r \<and> mTraceBuffer (ctx s) = Some (rg_chunk r)"
      by (auto simp: ctx_ok_def)
    note f = finishAndRefresh_props [OF wf r]
    show ?thesis
    proof (cases "bytes_available s < neededSpace")
      case True
      with Some have "make_space s = finishAndRefresh s" by (simp add: make_space_def)
      with f size Some show ?thesis by (simp add: ready_for_packet_def refreshed_def)
    next
      case False
      with Some have "make_space s = s" by (simp add: make_space_def)
      with False wf r show ?thesis by (simp add: ready_for_packet_def refreshed_def)
    qed
  qed
  then show "ready_for_packet (make_space s)" "config (make_space s) = config s"
    "logic (ctx (make_space s)) = logic (ctx s)" "refreshed s (make_space s)" by simp_all
qed

subsection \<open>Finalizing does not look at the context\<close>

lemma delegate_commutes:
  "poke p bs (s\<lparr>delegate := x\<rparr>) = (poke p bs s)\<lparr>delegate := x\<rparr>"
  "upd_msg d g (s\<lparr>delegate := x\<rparr>) = (upd_msg d g s)\<lparr>delegate := x\<rparr>"
  "seal d (s\<lparr>delegate := x\<rparr>) = (seal d s)\<lparr>delegate := x\<rparr>"
  "pop_nested d n (s\<lparr>delegate := x\<rparr>) = (pop_nested d n s)\<lparr>delegate := x\<rparr>"
  by (simp_all add: poke_def upd_msg_def seal_def pop_nested_def Let_def split: option.split)

lemma Finalize_delegate:
  "Finalize d (s\<lparr>delegate := x\<rparr>) = map_option (\<lambda>(n, t). (n, t\<lparr>delegate := x\<rparr>)) (Finalize d s)"
proof (induction d s rule: Finalize.induct)
  case (1 d s)
  show ?case
  proof (cases "d < length (writer_objs s) \<and> \<not> m_finalized (writer_objs s ! d)")
    case True
    then show ?thesis
      using "1.IH" by (subst (1 2) Finalize.simps)
        (auto simp: delegate_commutes option.map_comp comp_def split_beta intro!: option.map_cong)
  next
    case False
    then show ?thesis by (subst (1 2) Finalize.simps) auto
  qed
qed

lemma close_nested_delegate:
  "close_nested d (s\<lparr>delegate := x\<rparr>) = map_option (\<lambda>t. t\<lparr>delegate := x\<rparr>) (close_nested d s)"
  by (auto simp: close_nested_def EndNestedMessage_def Finalize_delegate delegate_commutes option.map_comp
      comp_def split_beta)

subsection \<open>The packet\<close>

lemma packet_tag: "writeVarInt (MakeTagLengthDelimited 1) = [10]" "WriteVarInt (MakeTagLengthDelimited 1) = [10]"
  by code_simp+

lemma beginPacket_make_space:
  "beginPacket gnb s =
     do { s4 \<leftarrow> WriteBytes gnb (writeVarInt (MakeTagLengthDelimited 1)) (root_Reset (make_space s));
          (header, s5) \<leftarrow> ReserveBytes gnb kPacketHeaderSize s4;
          Some (upd_ctx (\<lambda>x. x\<lparr>mWritingPacket := True\<rparr>)
               (set_size_field 0 header (poke header (replicate kPacketHeaderSize 0) s5))) }"
  by (simp add: beginPacket_def make_space_def Let_def)

text \<open>After \<open>beginPacket\<close>: a fresh root message whose size field is the four zero bytes just written.\<close>

lemma beginPacket_opens:
  assumes ok: "ctx_ok s"
  defines "m \<equiv> make_space s"
  shows "\<exists>p t. beginPacket gnb s = Some t \<and> writer_wf t \<and> writer_objs t = [fresh_message\<lparr>m_size_field := Some p\<rparr>] \<and>
    contents t = contents m @ [10] @ replicate 4 0 \<and> ptr_ok 4 t p \<and> ptr_pos t p = length (contents m) + 1 \<and>
    bytes_available t + 5 = bytes_available m \<and> closed_lens t = closed_lens m \<and> cur_range t = cur_range m \<and>
    delegate t = (delegate m)\<lparr>tc := (ctx m)\<lparr>mWritingPacket := True\<rparr>\<rparr>"
proof -
  have rd: "writer_wf m" "neededSpace \<le> bytes_available m"
    using make_space_props [OF ok] by (simp_all add: m_def ready_for_packet_def)
  then have av: "208 \<le> bytes_available m"
    by (simp add: neededSpace_def kPacketHeaderSize_def kTrackEventPadding_def)
  define s3 where "s3 = root_Reset m"
  have v3: "heap s3 = heap m" "cur_range s3 = cur_range m" "written_previously s3 = written_previously m"
    by (simp_all add: s3_def)
  note v = view_cong [OF v3]
  have o3: "writer_objs s3 = [fresh_message]" by (simp add: s3_def)
  have "length [10 :: u8] \<le> bytes_available s3" "writer_wf s3" using av rd by (simp_all add: v)
  from WriteBytes_in_range [OF this(2,1), of gnb] obtain s4 where s4: "WriteBytes gnb [10] s3 = Some s4"
    "appends s3 [10] s4" "writer_wf s4" "same_buffers s3 s4" "bytes_available s4 = bytes_available m - 1"
    by (auto simp: v)
  have "4 \<le> bytes_available s4" using s4(5) av by simp
  from ReserveBytes_in_range [OF s4(3) this, of gnb] obtain p s5 where s5: "ReserveBytes gnb 4 s4 = Some (p, s5)"
    "appends s4 (replicate 4 0) s5" "writer_wf s5" "ptr_ok 4 s5 p" "ptr_pos s5 p = length (contents s4)"
    "same_buffers s4 s5" "bytes_available s5 = bytes_available s4 - 4" by auto
  have c4: "contents s4 = contents m @ [10]" and o4: "writer_objs s4 = [fresh_message]"
    using s4(2) by (simp_all add: appends_def v o3)
  have c5: "contents s5 = contents m @ [10] @ replicate 4 0" and o5: "writer_objs s5 = [fresh_message]"
    using s5(2) c4 o4 by (simp_all add: appends_def)
  define s6 where "s6 = poke p (replicate 4 0) s5"
  have "ptr_ok (length (replicate 4 (0 :: u8))) s5 p" using s5(4) by simp
  note pk = poke_props [OF s5(3) this, folded s6_def]
  define t where "t = upd_ctx (\<lambda>x. x\<lparr>mWritingPacket := True\<rparr>) (set_size_field 0 p s6)"
  have vt: "heap t = heap s6" "cur_range t = cur_range s6" "written_previously t = written_previously s6"
    by (simp_all add: t_def set_size_field_def)
  note w = view_cong [OF vt]
  have "beginPacket gnb s = Some t"
    using s4(1) s5(1) by (simp add: beginPacket_make_space m_def [symmetric] s3_def [symmetric] packet_tag
        kPacketHeaderSize_def s6_def t_def)
  moreover have "contents s6 = contents m @ [10] @ replicate 4 0"
    using pk(1) s5(5) by (simp add: c5 c4)
  moreover have "same_buffers s3 s6"
    using s4(4) s5(6) pk(2) same_buffers_trans by blast
  then have cs: "closed_lens s6 = closed_lens s3 \<and> cur_range s6 = cur_range s3 \<and> delegate s6 = delegate s3"
    by (rule same_buffers_closed)
  moreover have "delegate t = (delegate m)\<lparr>tc := (ctx m)\<lparr>mWritingPacket := True\<rparr>\<rparr>"
    using cs by (simp add: t_def upd_ctx_def set_size_field_def s3_def)
  moreover have "closed_lens t = closed_lens m" "cur_range t = cur_range m"
    using cs vt v3 by (simp_all add: closed_lens_def)
  moreover have "writer_objs t = [fresh_message\<lparr>m_size_field := Some p\<rparr>]"
    using pk(8) o5 by (simp add: t_def set_size_field_def)
  moreover have "bytes_available t + 5 = bytes_available m" using pk(7) s5(7) s4(5) av by (simp add: w)
  moreover have "writer_wf t" "ptr_ok 4 t p" "ptr_pos t p = length (contents m) + 1"
    using pk s5(3,4,5) c4 by (simp_all add: w)
  ultimately show ?thesis by (intro exI [of _ p] exI [of _ t]) (simp add: w)
qed

lemma grows_ptr: "grows s bs s' \<Longrightarrow> ptr_ok n s p \<Longrightarrow> ptr_ok n s' p \<and> ptr_pos s' p = ptr_pos s p"
  unfolding grows_def by blast

text \<open>The whole of a packet.\<close>

lemma encode_packet:
  "encode_field (PbMsg 1 fs) = [10] @ WriteRedundantVarInt (word_of_nat (length (encode_fields fs))) @ encode_fields fs"
  by (simp add: packet_tag)

definition packet_fits :: "pb_field list \<Rightarrow> bool" where
  "packet_fits fs \<longleftrightarrow> length (encode_fields fs) \<le> kTrackEventPadding"

lemma payloads_encoded:
  "length (encode_field f) < n \<Longrightarrow> payloads_below n f"
  "length (encode_fields fs) < n \<Longrightarrow> \<forall>f \<in> set fs. payloads_below n f"
  by (induction f and fs rule: encode_field_encode_fields.induct) auto

lemma write_packet_step:
  assumes ok: "ctx_ok s" and fits: "packet_fits fs"
  shows "\<exists>s'. write_packet gnb fs s = Some s' \<and> ctx_ok s' \<and> config s' = config s \<and>
    logic (ctx s') = logic (ctx s) \<and>
    cur_bytes s' = cur_bytes (make_space s) @ encode_field (PbMsg 1 fs) \<and>
    saved s' = saved (make_space s) \<and> mFirst (ctx s') = mFirst (ctx (make_space s)) \<and>
    mTraceBuffer (ctx s') \<noteq> None"
proof -
  let ?m = "make_space s" and ?es = "encode_fields fs"
  note ms = make_space_props [OF ok]
  from ms(1) obtain r where m: "writer_wf ?m" "neededSpace \<le> bytes_available ?m" "cur_range ?m = Some r"
    "mTraceBuffer (ctx ?m) = Some (rg_chunk r)" by (auto simp: ready_for_packet_def)
  from beginPacket_opens [OF ok, of gnb] obtain p t where t: "beginPacket gnb s = Some t" "writer_wf t"
    "writer_objs t = [fresh_message\<lparr>m_size_field := Some p\<rparr>]" "contents t = contents ?m @ [10] @ replicate 4 0"
    "ptr_ok 4 t p" "ptr_pos t p = length (contents ?m) + 1" "bytes_available t + 5 = bytes_available ?m"
    "closed_lens t = closed_lens ?m" "cur_range t = cur_range ?m"
    "delegate t = (delegate ?m)\<lparr>tc := (ctx ?m)\<lparr>mWritingPacket := True\<rparr>\<rparr>" by blast
  have cl: "bounded.clean 0 t" using t(2,3) by (simp add: bounded.clean_def fresh_message_def)
  have "length ?es \<le> bytes_available t \<and> same_buffers t t"
    using fits m(2) t(7) by (simp add: packet_fits_def neededSpace_def kPacketHeaderSize_def kTrackEventPadding_def)
  moreover have "\<forall>f \<in> set fs. payloads_below (2 ^ 32) f"
    using payloads_encoded(2) [of fs "2 ^ 32"] fits by (simp add: packet_fits_def kTrackEventPadding_def)
  ultimately have "\<exists>s1 u. put_fields gnb 0 fs t = Some s1 \<and> bounded.closes 0 s1 u \<and> bounded.advance t 0 t ?es u"
    by (rule bounded.put_advance(2) [OF bounded.clean_closes [OF cl]])
  then obtain s1 u where
    s1: "put_fields gnb 0 fs t = Some s1" and u: "bounded.closes 0 s1 u" and adv: "bounded.advance t 0 t ?es u"
    by blast
  have ad: "adds 0 t ?es u" and sb: "same_buffers t u"
    using adv \<open>length ?es \<le> bytes_available t \<and> same_buffers t t\<close>
    by (auto simp: bounded.advance_def dest: spec [of _ 0])
  have wu: "writer_wf u" and cn: "close_nested 0 s1 = Some u" and l1: "0 < length (writer_objs s1)"
    "\<not> m_finalized (writer_objs s1 ! 0)"
    using u by (simp_all add: bounded.closes_def bounded.clean_def)
  let ?n = "word_of_nat (length ?es) :: u32"
  have ou: "writer_objs u = [fresh_message\<lparr>m_size_field := Some p, m_size := ?n\<rparr>]"
    and cu: "contents u = contents ?m @ [10] @ replicate 4 0 @ ?es"
    using ad t(3,4) by (auto simp: adds_def grows_def add_size_def fresh_message_def)
  have pu: "ptr_ok 4 u p" "ptr_pos u p = length (contents ?m) + 1"
    using grows_ptr [OF ad [unfolded adds_def, THEN conjunct1] t(5)] t(6) by simp_all
  have "ptr_ok (length (WriteRedundantVarInt ?n)) u p" using pu by simp
  note pk = poke_props [OF wu this]
  define v where "v = seal 0 u"
  have v: "v = upd_msg 0 (\<lambda>m. m\<lparr>m_size_field := None, m_finalized := True\<rparr>) (poke p (WriteRedundantVarInt ?n) u)"
    by (simp add: v_def seal_def ou fresh_message_def)
  have fin: "Finalize 0 s1 = Some (?n, v)"
    using Finalize_open [OF l1] by (simp add: cn ou v_def)
  have ds: "delegate s1 = delegate t"
  proof -
    have "close_nested 0 (s1\<lparr>delegate := delegate s1\<rparr>) = map_option (\<lambda>t. t\<lparr>delegate := delegate s1\<rparr>) (close_nested 0 s1)"
      by (rule close_nested_delegate)
    then have "u = u\<lparr>delegate := delegate s1\<rparr>" by (simp add: cn)
    then have "delegate u = delegate s1" by (metis stream.select_convs(4) stream.surjective stream.update_convs(4))
    with same_buffers_closed [OF sb] show ?thesis by simp
  qed
  define x where "x = (delegate s1)\<lparr>tc := (ctx s1)\<lparr>mWritingPacket := False\<rparr>\<rparr>"
  define s' where "s' = v\<lparr>delegate := x\<rparr>"
  have "endPacket s1 = Some s'"
    by (simp add: endPacket_def upd_ctx_def x_def [symmetric] Finalize_delegate fin s'_def)
  then have w: "write_packet gnb fs s = Some s'" using t(1) s1 by (simp add: write_packet_def)
  have vs: "heap s' = heap (poke p (WriteRedundantVarInt ?n) u)"
    "cur_range s' = cur_range (poke p (WriteRedundantVarInt ?n) u)"
    "written_previously s' = written_previously (poke p (WriteRedundantVarInt ?n) u)"
    by (simp_all add: s'_def v)
  have wf': "writer_wf s'" using pk(3) by (simp add: view_cong [OF vs])
  have c': "contents s' = contents ?m @ encode_field (PbMsg 1 fs)"
    using pk(1) pu by (simp add: view_cong [OF vs] cu packet_tag)
  have cr': "cur_range s' = Some r" and cl': "closed_lens s' = closed_lens ?m"
    using same_buffers_closed [OF sb] same_buffers_closed [OF pk(2)] t(8,9) m(3) vs
    by (simp_all add: closed_lens_def)
  note lc = last_chunk_appended [OF m(1) wf' m(3) cr' cl' c']
  have d': "ctx s' = (ctx ?m)\<lparr>mWritingPacket := False\<rparr>" "config s' = config ?m" "saved s' = saved ?m"
    by (simp_all add: s'_def x_def ds t(10))
  have size: "neededSpace \<le> storage_size (config s)" using ok by (simp add: ctx_ok_def)
  have "cur_bytes s' = cur_bytes ?m @ encode_field (PbMsg 1 fs)"
    using lc m(4) by (simp add: cur_bytes_def d')
  moreover have "ctx_ok s'" using wf' cr' m(4) size ms(2) by (simp add: ctx_ok_def d')
  ultimately show ?thesis using w ms(2,3) m(4) by (simp add: d')
qed

text \<open>\<open>emits s ps s'\<close>: going from \<open>s\<close> to \<open>s'\<close> appended the packets \<open>ps\<close>. If the buffer of \<open>s\<close> holds whole packets,
  so do the buffers saved since and the buffer of \<open>s'\<close>, and together they hold the old packets and \<open>ps\<close>.\<close>

definition packet_bytes :: "pb_field list list \<Rightarrow> u8 list" where
  "packet_bytes ps = encode_fields (map (PbMsg 1) ps)"

definition saved_bytes :: "SavedTraceInfo \<Rightarrow> u8 list" where
  "saved_bytes i = (case st_data i of None \<Rightarrow> [] | Some d \<Rightarrow> take (st_written i) d)"

definition chunk_holds :: "SavedTraceInfo \<Rightarrow> pb_field list list \<Rightarrow> bool" where
  "chunk_holds i ps \<longleftrightarrow> st_data i \<noteq> None \<and> saved_bytes i = packet_bytes ps"

definition emits :: "tstream \<Rightarrow> pb_field list list \<Rightarrow> tstream \<Rightarrow> bool" where
  "emits s ps s' \<longleftrightarrow> ctx_ok s' \<and>
     (\<exists>new. saved s' = saved s @ new \<and>
        (\<forall>cur. cur_bytes s = packet_bytes cur \<longrightarrow>
           (\<exists>cps cur'. list_all2 chunk_holds new cps \<and> cur_bytes s' = packet_bytes cur' \<and> concat cps @ cur' = cur @ ps)))"

lemma encode_fields_append [simp]: "encode_fields (xs @ ys) = encode_fields xs @ encode_fields ys"
  by (induction xs) simp_all

lemma packet_bytes_append [simp]: "packet_bytes (ps @ qs) = packet_bytes ps @ packet_bytes qs"
  by (simp add: packet_bytes_def)

lemma packet_bytes_Nil [simp]: "packet_bytes [] = []"
  by (simp add: packet_bytes_def)

lemma packet_bytes_single: "packet_bytes [fs] = encode_field (PbMsg 1 fs)"
  by (simp add: packet_bytes_def)

lemma emits_refl: "ctx_ok s \<Longrightarrow> emits s [] s"
  by (auto simp: emits_def intro!: exI [of _ "[]"])

lemma emits_trans:
  assumes "emits s ps t" and "emits t qs u"
  shows "emits s (ps @ qs) u"
proof -
  from assms(1) obtain n1 where n1: "saved t = saved s @ n1"
    "\<And>cur. cur_bytes s = packet_bytes cur \<Longrightarrow>
       \<exists>cps cur'. list_all2 chunk_holds n1 cps \<and> cur_bytes t = packet_bytes cur' \<and> concat cps @ cur' = cur @ ps"
    by (auto simp: emits_def)
  from assms(2) obtain n2 where n2: "saved u = saved t @ n2"
    "\<And>cur. cur_bytes t = packet_bytes cur \<Longrightarrow>
       \<exists>cps cur'. list_all2 chunk_holds n2 cps \<and> cur_bytes u = packet_bytes cur' \<and> concat cps @ cur' = cur @ qs"
    by (auto simp: emits_def)
  have "\<exists>cps cur'. list_all2 chunk_holds (n1 @ n2) cps \<and> cur_bytes u = packet_bytes cur' \<and> concat cps @ cur' = cur @ ps @ qs"
    if "cur_bytes s = packet_bytes cur" for cur
  proof -
    from n1(2) [OF that] obtain c1 k1 where 1: "list_all2 chunk_holds n1 c1" "cur_bytes t = packet_bytes k1"
      "concat c1 @ k1 = cur @ ps" by blast
    from n2(2) [OF 1(2)] obtain c2 k2 where 2: "list_all2 chunk_holds n2 c2" "cur_bytes u = packet_bytes k2"
      "concat c2 @ k2 = k1 @ qs" by blast
    have "concat (c1 @ c2) @ k2 = cur @ ps @ qs" by (metis 1(3) 2(3) append.assoc concat_append)
    moreover have "list_all2 chunk_holds (n1 @ n2) (c1 @ c2)" using 1(1) 2(1) by (rule list_all2_appendI)
    ultimately show ?thesis using 2(2) by blast
  qed
  moreover have "saved u = saved s @ n1 @ n2" using n1(1) n2(1) by simp
  moreover have "ctx_ok u" using assms(2) by (simp add: emits_def)
  ultimately show ?thesis unfolding emits_def append.assoc by blast
qed

text \<open>What a state keeps while packets are written.\<close>

definition writes :: "tstream \<Rightarrow> pb_field list list \<Rightarrow> tstream \<Rightarrow> bool" where
  "writes s ps s' \<longleftrightarrow> emits s ps s' \<and> config s' = config s \<and> logic (ctx s') = logic (ctx s)"

lemma write_packet_writes:
  assumes ok: "ctx_ok s" and fits: "packet_fits fs"
  shows "\<exists>s'. write_packet gnb fs s = Some s' \<and> writes s [fs] s'"
proof -
  from write_packet_step [OF ok fits, of gnb] obtain s' where s': "write_packet gnb fs s = Some s'" "ctx_ok s'"
    "config s' = config s" "logic (ctx s') = logic (ctx s)"
    "cur_bytes s' = cur_bytes (make_space s) @ encode_field (PbMsg 1 fs)" "saved s' = saved (make_space s)"
    by blast
  have "emits s [fs] s'"
    using make_space_props(4) [OF ok] unfolding refreshed_def
  proof
    assume "saved (make_space s) = saved s \<and> cur_bytes (make_space s) = cur_bytes s \<and> mFirst (ctx (make_space s)) = mFirst (ctx s)"
    then have "saved s' = saved s" "\<And>cur. cur_bytes s = packet_bytes cur \<Longrightarrow> cur_bytes s' = packet_bytes (cur @ [fs])"
      using s' by (simp_all add: packet_bytes_single del: encode_field.simps)
    with s'(2) show ?thesis unfolding emits_def
      by (intro conjI exI [of _ "[]"]) auto
  next
    assume "mTraceBuffer (ctx s) \<noteq> None \<and> saved (make_space s) = saved s @ [saved_as s] \<and>
      cur_bytes (make_space s) = [] \<and> \<not> mFirst (ctx (make_space s))"
    then have "saved s' = saved s @ [saved_as s]" "cur_bytes s' = packet_bytes [fs]"
      using s' by (simp_all add: packet_bytes_single del: encode_field.simps)
    moreover have "chunk_holds (saved_as s) cur" if "cur_bytes s = packet_bytes cur" for cur
      using that by (simp add: chunk_holds_def saved_as_def saved_bytes_def)
    ultimately show ?thesis using s'(2)
      by (auto simp: emits_def intro!: exI [of _ "[saved_as s]"])
         (metis concat.simps append.right_neutral list_all2_Cons list_all2_Nil)
  qed
  with s' show ?thesis by (simp add: writes_def)
qed

end
