(* ===== verification/Trace_Spec.thy ===== *)
theory Trace_Spec
  imports Trace_Emission
begin

section \<open>What the tracer promises, and that it keeps it\<close>

text \<open>
  The abstract tracer: the same decisions as \<open>TraceContext\<close>, but a call yields the packets it adds to
  the trace, with no buffers, writer or framing. \<open>sim\<close> is the refinement: a concrete call
  returns when the abstract one does, has appended exactly its packets and ends in the same view of
  the state; when the abstract call fails so does the concrete one.
\<close>

type_synonym tview = "TraceContext \<times> VirtualDeviceTraceConfig"
type_synonym packets = "pb_field list list"

definition view :: "tstream \<Rightarrow> tview" where
  "view s = (logic (ctx s), config s)"

definition wbind :: "(packets \<times> tview) option \<Rightarrow> (tview \<Rightarrow> (packets \<times> tview) option) \<Rightarrow> (packets \<times> tview) option" where
  "wbind m f = (case m of None \<Rightarrow> None | Some (ps, v) \<Rightarrow> map_option (\<lambda>(qs, v'). (ps @ qs, v')) (f v))"

definition emit :: "pb_field list \<Rightarrow> tview \<Rightarrow> (packets \<times> tview) option" where
  "emit fs v = Some ([fs], v)"

subsection \<open>The packets\<close>

definition start_packet :: "pb_field list" where
  "start_packet = [set_trusted_packet_sequence_id 1, set_sequence_flags 1]"

definition incremental :: "pb_field list \<Rightarrow> pb_field list" where
  "incremental fs = [set_trusted_packet_sequence_id kSequenceId, set_sequence_flags 2] @ fs"

definition category_packet :: "u32 \<Rightarrow> pb_field list" where
  "category_packet iid = incremental [set_interned_data [add_event_categories iid (snd kCategory)]]"

definition thread_packet :: "u32 \<Rightarrow> pb_field list" where
  "thread_packet tid = incremental
     [set_track_descriptor [desc_set_uuid (ucast tid), desc_set_name (getTrackNameFromThreadId tid)]]"

definition name_packet :: "u32 \<Rightarrow> cstr \<Rightarrow> pb_field list" where
  "name_packet iid name = incremental [set_interned_data [add_event_names iid (snd name)]]"

definition begin_packet :: "u64 \<Rightarrow> u32 \<Rightarrow> u32 \<Rightarrow> u32 \<Rightarrow> pb_field list" where
  "begin_packet t tid category event = incremental [set_timestamp t,
     set_track_event [set_track_uuid (ucast tid), add_category_iids category, set_name_iid event, set_type TYPE_SLICE_BEGIN]]"

definition end_packet :: "u64 \<Rightarrow> u32 \<Rightarrow> u32 \<Rightarrow> u32 \<Rightarrow> pb_field list" where
  "end_packet t tid category event = incremental [set_timestamp t,
     set_track_event [add_category_iids category, set_track_uuid (ucast tid), set_name_iid event, set_type TYPE_SLICE_END]]"

definition counter_packet :: "u64 \<Rightarrow> u64 \<Rightarrow> i64 \<Rightarrow> pb_field list" where
  "counter_packet t uuid val = incremental [set_timestamp t,
     set_track_event [set_track_uuid uuid, set_type TYPE_COUNTER, set_counter_value val]]"

definition counter_track_packet :: "u64 \<Rightarrow> u32 \<Rightarrow> cstr \<Rightarrow> pb_field list" where
  "counter_track_packet uuid tid name = [set_track_descriptor [desc_set_uuid uuid,
     desc_set_name (getTrackNameFromThreadIdAndCounterName tid name), desc_set_counter]]"

subsection \<open>The abstract calls\<close>

definition spec_sequence :: "tview \<Rightarrow> (packets \<times> tview) option" where
  "spec_sequence = (\<lambda>(x, c).
     let n = packetsWritten c + 1 in
     if n = 1 then Some ([start_packet], x, c\<lparr>packetsWritten := n, sequenceIdWritten := True\<rparr>)
     else if sequenceIdWritten c then Some ([], x, c\<lparr>packetsWritten := n\<rparr>) else None)"

text \<open>The id under which a name is interned, the packets that announce it, the new table and counter.\<close>

definition intern :: "(nat \<rightharpoonup> u32) \<Rightarrow> nat \<Rightarrow> u32 \<Rightarrow> u32 \<times> bool \<times> (nat \<rightharpoonup> u32) \<times> u32" where
  "intern tab key nxt = (case tab key of Some i \<Rightarrow> (i, False, tab, nxt) | None \<Rightarrow> (nxt, True, tab(key \<mapsto> nxt), nxt + 1))"

definition spec_category :: "tview \<Rightarrow> (packets \<times> tview) option" where
  "spec_category = (\<lambda>(x, c).
     let (iid, new, tab, nxt) = intern (mEventCategoryInterningIds x) (fst kCategory) (currentInterningId c) in
     if mStackDepth x < length (mCurrentCategoryIid x)
     then Some (if new then [category_packet iid] else [],
            x\<lparr>mEventCategoryInterningIds := tab, mCurrentCategoryIid := (mCurrentCategoryIid x)[mStackDepth x := iid]\<rparr>,
            c\<lparr>currentInterningId := nxt\<rparr>)
     else None)"

definition spec_thread :: "tview \<Rightarrow> (packets \<times> tview) option" where
  "spec_thread = (\<lambda>(x, c).
     if mNeedToSetThreadId x
     then (let tid = currentThreadId c + 1 in
           Some ([thread_packet tid], x\<lparr>mThreadId := tid, mNeedToSetThreadId := False\<rparr>, c\<lparr>currentThreadId := tid\<rparr>))
     else Some ([], x, c))"

definition spec_info :: "tview \<Rightarrow> (packets \<times> tview) option" where
  "spec_info v = wbind (wbind (spec_sequence v) spec_category) spec_thread"

definition spec_name :: "cstr \<Rightarrow> tview \<Rightarrow> (packets \<times> tview) option" where
  "spec_name name = (\<lambda>(x, c).
     let (iid, new, tab, nxt) = intern (mEventNameInterningIds x) (fst name) (currentInterningId c) in
     if mStackDepth x < length (mCurrentEventNameIid x)
     then Some (if new then [name_packet iid name] else [],
            x\<lparr>mEventNameInterningIds := tab, mCurrentEventNameIid := (mCurrentEventNameIid x)[mStackDepth x := iid]\<rparr>,
            c\<lparr>currentInterningId := nxt\<rparr>)
     else None)"

definition spec_slice_begin :: "u64 \<Rightarrow> tview \<Rightarrow> (packets \<times> tview) option" where
  "spec_slice_begin ts = (\<lambda>(x, c).
     if mStackDepth x < length (mCurrentCategoryIid x) \<and> mStackDepth x < length (mCurrentEventNameIid x)
     then Some ([begin_packet (ts + guestTimeDiff c) (mThreadId x)
                   (mCurrentCategoryIid x ! mStackDepth x) (mCurrentEventNameIid x ! mStackDepth x)],
                x\<lparr>mStackDepth := mStackDepth x + 1\<rparr>, c)
     else None)"

definition spec_beginTrace :: "u64 \<Rightarrow> cstr \<Rightarrow> tview \<Rightarrow> (packets \<times> tview) option" where
  "spec_beginTrace ts name = (\<lambda>(x, c).
     if tracingDisabled c \<or> mStackDepth x = TRACE_STACK_DEPTH_MAX then Some ([], x, c)
     else wbind (wbind (spec_info (x, c)) (spec_name name)) (spec_slice_begin ts))"

definition spec_endTrace :: "u64 \<Rightarrow> tview \<Rightarrow> (packets \<times> tview) option" where
  "spec_endTrace ts = (\<lambda>(x, c).
     if tracingDisabled c \<or> mStackDepth x = TRACE_STACK_DEPTH_MAX \<or> mStackDepth x = 0 then Some ([], x, c)
     else let depth = mStackDepth x - 1 in
       if depth < length (mCurrentCategoryIid x) \<and> depth < length (mCurrentEventNameIid x)
       then Some ([end_packet (ts + guestTimeDiff c) (mThreadId x)
                     (mCurrentCategoryIid x ! depth) (mCurrentEventNameIid x ! depth)],
                  x\<lparr>mStackDepth := depth\<rparr>, c)
       else None)"

definition spec_counter :: "u64 \<Rightarrow> cstr \<Rightarrow> i64 \<Rightarrow> tview \<Rightarrow> (packets \<times> tview) option" where
  "spec_counter ts name val = (\<lambda>(x, c).
     let new = mCounterNameToTrackUuids x (fst name) = None;
         uuid = (case mCounterNameToTrackUuids x (fst name) of Some u \<Rightarrow> u
                 | None \<Rightarrow> push_bit 32 (ucast (mCurrentCounterId x)) OR ucast (mThreadId x))
     in Some ((if new then [counter_track_packet uuid (mThreadId x) name] else []) @
                [counter_packet (ts + guestTimeDiff c) uuid val],
              (if new then x\<lparr>mCounterNameToTrackUuids := (mCounterNameToTrackUuids x)(fst name \<mapsto> uuid),
                             mCurrentCounterId := mCurrentCounterId x + 1\<rparr> else x), c))"

definition spec_traceCounter :: "u64 \<Rightarrow> cstr \<Rightarrow> i64 \<Rightarrow> tview \<Rightarrow> (packets \<times> tview) option" where
  "spec_traceCounter ts name val = (\<lambda>(x, c).
     if tracingDisabled c then Some ([], x, c) else wbind (spec_info (x, c)) (spec_counter ts name val))"

subsection \<open>Packets fit\<close>

fun size_bound :: "pb_field \<Rightarrow> nat" where
  "size_bound (PbVarInt i v) = 15"
| "size_bound (PbFixed32 i v) = 9"
| "size_bound (PbFixed64 i v) = 13"
| "size_bound (PbBytes i bs) = 10 + length bs"
| "size_bound (PbMsg i fs) = 9 + sum_list (map size_bound fs)"

lemma length_varint_u32: "length (WriteVarInt (v :: u32)) \<le> 5"
  using unsigned_less [of v, where ?'a = nat] by (intro length_WriteVarInt_le) (simp_all add: power_add)

lemma length_varint_u64: "length (WriteVarInt (v :: u64)) \<le> 10"
  using unsigned_less [of v, where ?'a = nat] by (intro length_WriteVarInt_le) (simp_all add: power_add)

lemma length_encode_bound:
  "length (encode_field f) \<le> size_bound f"
  "length (encode_fields fs) \<le> sum_list (map size_bound fs)"
proof (induction f and fs rule: encode_field_encode_fields.induct)
  case (1 i v)
  then show ?case using length_varint_u32 [of "MakeTagVarInt i"] length_varint_u64 [of v] by simp
next
  case (2 i v)
  then show ?case using length_varint_u32 [of "MakeTagFixed 4 i"] by simp
next
  case (3 i v)
  then show ?case using length_varint_u32 [of "MakeTagFixed 8 i"] by simp
next
  case (4 i bs)
  then show ?case
    using length_varint_u32 [of "MakeTagLengthDelimited i"] length_varint_u32 [of "word_of_nat (length bs)"] by simp
next
  case (5 i fs)
  then show ?case using length_varint_u32 [of "MakeTagLengthDelimited i"] by simp
qed simp_all

lemma length_decimal: "0 < k \<Longrightarrow> n < 10 ^ k \<Longrightarrow> length (decimal n) \<le> k"
proof (induction k arbitrary: n)
  case (Suc k)
  show ?case
  proof (cases "n < 10")
    case True
    then show ?thesis by (subst decimal.simps) simp
  next
    case False
    with Suc.prems have "0 < k" by (cases k) simp_all
    moreover have "n div 10 < 10 ^ k" using Suc.prems by (simp add: less_mult_imp_div_less mult.commute)
    ultimately have "length (decimal (n div 10)) \<le> k" by (rule Suc.IH)
    with False show ?thesis by (subst decimal.simps) simp
  qed
qed simp

lemma length_decimal_u32: "length (decimal (unat (v :: u32))) \<le> 10"
  using unsigned_less [of v, where ?'a = nat] by (intro length_decimal) simp_all

definition name_fits :: "cstr \<Rightarrow> bool" where
  "name_fits name \<longleftrightarrow> length (snd name) < 128"

lemmas packet_defs = incremental_def set_timestamp_def set_trusted_packet_sequence_id_def set_sequence_flags_def
  set_track_event_def set_interned_data_def set_track_descriptor_def add_event_categories_def add_event_names_def
  set_track_uuid_def add_category_iids_def set_name_iid_def set_counter_value_def desc_set_uuid_def desc_set_name_def
  desc_set_counter_def getTrackNameFromThreadId_def getTrackNameFromThreadIdAndCounterName_def

lemma packets_fit:
  "packet_fits start_packet" "packet_fits (category_packet iid)" "packet_fits (thread_packet tid)"
  "packet_fits (begin_packet t tid category event)" "packet_fits (end_packet t tid category event)"
  "packet_fits (counter_packet t uuid val)"
  "name_fits name \<Longrightarrow> packet_fits (name_packet iid name)"
  "name_fits name \<Longrightarrow> packet_fits (counter_track_packet uuid tid name)"
proof -
  have fit: "sum_list (map size_bound fs) \<le> 200 \<Longrightarrow> packet_fits fs" for fs
    using length_encode_bound(2) [of fs] by (simp add: packet_fits_def kTrackEventPadding_def)
  show "packet_fits start_packet" "packet_fits (category_packet iid)" "packet_fits (begin_packet t tid category event)"
    "packet_fits (end_packet t tid category event)" "packet_fits (counter_packet t uuid val)"
    "name_fits name \<Longrightarrow> packet_fits (name_packet iid name)"
    by (rule fit; simp add: start_packet_def category_packet_def begin_packet_def end_packet_def counter_packet_def
        name_packet_def packet_defs kCategory_def name_fits_def)+
  show "packet_fits (thread_packet tid)"
    using length_decimal_u32 [of tid] by (intro fit) (simp add: thread_packet_def packet_defs kTrackNamePrefix_def)
  show "name_fits name \<Longrightarrow> packet_fits (counter_track_packet uuid tid name)"
    using length_decimal_u32 [of tid]
    by (intro fit) (simp add: counter_track_packet_def packet_defs kTrackNamePrefix_def kCounterNamePrefix_def name_fits_def)
qed

subsection \<open>Simulation\<close>

definition sim :: "tstream \<Rightarrow> tstream option \<Rightarrow> (packets \<times> tview) option \<Rightarrow> bool" where
  "sim s m v \<longleftrightarrow>
     (case v of None \<Rightarrow> m = None | Some (ps, v') \<Rightarrow> \<exists>s'. m = Some s' \<and> emits s ps s' \<and> view s' = v')"

lemma sim_bind:
  assumes m: "sim s m v" and k: "\<And>t. ctx_ok t \<Longrightarrow> sim t (k t) (h (view t))"
  shows "sim s (Option.bind m k) (wbind v h)"
proof (cases v)
  case None
  with m show ?thesis by (simp add: sim_def wbind_def)
next
  case (Some pv)
  with m obtain t where t: "m = Some t" "emits s (fst pv) t" "view t = snd pv" by (auto simp: sim_def split: prod.splits)
  from k [of t] t have "sim t (k t) (h (snd pv))" by (simp add: emits_def)
  with t Some emits_trans [OF t(2)] show ?thesis
    by (cases "h (snd pv)") (auto simp: sim_def wbind_def split: prod.splits)
qed

text \<open>An update of the state that leaves the buffers alone.\<close>

definition quiet :: "tstream \<Rightarrow> tstream \<Rightarrow> bool" where
  "quiet s s1 \<longleftrightarrow> heap s1 = heap s \<and> cur_range s1 = cur_range s \<and> written_previously s1 = written_previously s \<and>
     saved s1 = saved s \<and> mTraceBuffer (ctx s1) = mTraceBuffer (ctx s) \<and>
     mWritingPacket (ctx s1) = mWritingPacket (ctx s) \<and> perThreadStorageMb (config s1) = perThreadStorageMb (config s)"

lemma quiet_refl [simp]: "quiet s s" by (simp add: quiet_def)

lemma quiet_emits:
  assumes "ctx_ok s" and "quiet s s1"
  shows "emits s [] s1"
proof -
  have v: "heap s1 = heap s" "cur_range s1 = cur_range s" "written_previously s1 = written_previously s"
    using assms(2) by (simp_all add: quiet_def)
  have "cur_bytes s1 = cur_bytes s" using assms(2) by (simp add: quiet_def cur_bytes_def cong: option.case_cong)
  moreover have "ctx_ok s1"
    using assms by (simp add: quiet_def ctx_ok_def view_cong(3) [OF v] storage_size_def)
  ultimately show ?thesis using assms(2) by (auto simp: emits_def quiet_def intro!: exI [of _ "[]"])
qed

lemma sim_quiet: "ctx_ok s \<Longrightarrow> quiet s s1 \<Longrightarrow> view s1 = v \<Longrightarrow> sim s (Some s1) (Some ([], v))"
  using quiet_emits by (simp add: sim_def)

lemma sim_packet:
  assumes "ctx_ok s" and "quiet s s1" and "packet_fits fs" and "view s1 = v"
  shows "sim s (write_packet gnb fs s1) (Some ([fs], v))"
proof -
  note e = quiet_emits [OF assms(1,2)]
  then have "ctx_ok s1" by (simp add: emits_def)
  from write_packet_writes [OF this assms(3), of gnb] obtain s' where "write_packet gnb fs s1 = Some s'"
    "emits s1 [fs] s'" "config s' = config s1" "logic (ctx s') = logic (ctx s1)" by (auto simp: writes_def)
  with emits_trans [OF e] assms(4) show ?thesis by (auto simp: sim_def view_def)
qed

lemma sim_Some_wbind: "sim s m (wbind v (\<lambda>u. Some ([], g u))) = sim s m (map_option (\<lambda>(ps, u). (ps, g u)) v)"
  by (auto simp: wbind_def split: option.splits)

lemma logic_fields [simp]:
  "mNeedToSetThreadId (logic x) = mNeedToSetThreadId x" "mThreadId (logic x) = mThreadId x"
  "mCurrentCounterId (logic x) = mCurrentCounterId x" "mStackDepth (logic x) = mStackDepth x"
  "mCurrentCategoryIid (logic x) = mCurrentCategoryIid x" "mCurrentEventNameIid (logic x) = mCurrentEventNameIid x"
  "mEventCategoryInterningIds (logic x) = mEventCategoryInterningIds x"
  "mEventNameInterningIds (logic x) = mEventNameInterningIds x"
  "mCounterNameToTrackUuids (logic x) = mCounterNameToTrackUuids x"
  by (simp_all add: logic_def)

lemma logic_updates [simp]:
  "logic (x\<lparr>mNeedToSetThreadId := a1\<rparr>) = (logic x)\<lparr>mNeedToSetThreadId := a1\<rparr>"
  "logic (x\<lparr>mThreadId := a2\<rparr>) = (logic x)\<lparr>mThreadId := a2\<rparr>"
  "logic (x\<lparr>mCurrentCounterId := a3\<rparr>) = (logic x)\<lparr>mCurrentCounterId := a3\<rparr>"
  "logic (x\<lparr>mStackDepth := a4\<rparr>) = (logic x)\<lparr>mStackDepth := a4\<rparr>"
  "logic (x\<lparr>mCurrentCategoryIid := a5\<rparr>) = (logic x)\<lparr>mCurrentCategoryIid := a5\<rparr>"
  "logic (x\<lparr>mCurrentEventNameIid := a6\<rparr>) = (logic x)\<lparr>mCurrentEventNameIid := a6\<rparr>"
  "logic (x\<lparr>mEventCategoryInterningIds := a7\<rparr>) = (logic x)\<lparr>mEventCategoryInterningIds := a7\<rparr>"
  "logic (x\<lparr>mEventNameInterningIds := a8\<rparr>) = (logic x)\<lparr>mEventNameInterningIds := a8\<rparr>"
  "logic (x\<lparr>mCounterNameToTrackUuids := a9\<rparr>) = (logic x)\<lparr>mCounterNameToTrackUuids := a9\<rparr>"
  by (simp_all add: logic_def)

lemma sim_sequence: "ctx_ok s \<Longrightarrow> sim s (ensure_sequence gnb s) (spec_sequence (view s))"
proof -
  assume ok: "ctx_ok s"
  let ?s1 = "upd_cfg (\<lambda>c. c\<lparr>packetsWritten := packetsWritten c + 1\<rparr>) s"
  let ?s2 = "upd_cfg (\<lambda>c. c\<lparr>sequenceIdWritten := True\<rparr>) (upd_ctx (\<lambda>x. x\<lparr>mFirst := True\<rparr>) ?s1)"
  have q: "quiet s ?s1" "quiet s ?s2" by (simp_all add: quiet_def)
  have "sim s (write_packet gnb start_packet ?s2) (Some ([start_packet], view ?s2))"
    by (rule sim_packet [OF ok q(2) packets_fit(1) refl])
  moreover have "sim s (Some ?s1) (Some ([], view ?s1))" by (rule sim_quiet [OF ok q(1) refl])
  ultimately show ?thesis
    by (auto simp: ensure_sequence_def spec_sequence_def view_def start_packet_def Let_def)
      (simp add: sim_def)
qed

lemma sim_category: "ctx_ok s \<Longrightarrow> sim s (ensure_category gnb s) (spec_category (view s))"
proof -
  assume ok: "ctx_ok s"
  obtain iid new s1 where i: "internCategory kCategory s = (iid, new, s1)" by (cases "internCategory kCategory s") auto
  obtain tab nxt where n: "intern (mEventCategoryInterningIds (ctx s)) (fst kCategory) (currentInterningId (config s)) = (iid, new, tab, nxt)"
    and q: "quiet s s1" and v: "ctx s1 = (ctx s)\<lparr>mEventCategoryInterningIds := tab\<rparr>"
      "config s1 = (config s)\<lparr>currentInterningId := nxt\<rparr>"
    using i by (auto simp: internCategory_def intern_def Let_def quiet_def split: option.splits)
  let ?s2 = "upd_ctx (\<lambda>x. x\<lparr>mCurrentCategoryIid := (mCurrentCategoryIid (ctx s1))[mStackDepth (ctx s1) := iid]\<rparr>) s1"
  have q2: "quiet s ?s2" using q by (simp add: quiet_def)
  have "sim s (write_packet gnb (category_packet iid) ?s2) (Some ([category_packet iid], view ?s2))"
    by (rule sim_packet [OF ok q2 packets_fit(2) refl])
  moreover have "sim s (Some ?s2) (Some ([], view ?s2))" by (rule sim_quiet [OF ok q2 refl])
  ultimately show ?thesis
    using n by (auto simp: ensure_category_def spec_category_def i view_def v store_at_def category_packet_def
        incremental_def Let_def) (simp add: sim_def)
qed

lemma sim_thread: "ctx_ok s \<Longrightarrow> sim s (ensure_thread gnb s) (spec_thread (view s))"
proof -
  assume ok: "ctx_ok s"
  let ?tid = "currentThreadId (config s) + 1"
  let ?s2 = "upd_ctx (\<lambda>x. x\<lparr>mThreadId := ?tid, mNeedToSetThreadId := False\<rparr>)
               (upd_cfg (\<lambda>c. c\<lparr>currentThreadId := currentThreadId c + 1\<rparr>) s)"
  have q: "quiet s ?s2" by (simp add: quiet_def)
  have "sim s (write_packet gnb (thread_packet ?tid) ?s2) (Some ([thread_packet ?tid], view ?s2))"
    by (rule sim_packet [OF ok q packets_fit(3) refl])
  moreover have "sim s (Some s) (Some ([], view s))" by (rule sim_quiet [OF ok quiet_refl refl])
  ultimately show ?thesis
    by (auto simp: ensure_thread_def spec_thread_def view_def thread_packet_def incremental_def Let_def)
qed

lemma sim_info: "ctx_ok s \<Longrightarrow> sim s (ensureThreadInfo gnb s) (spec_info (view s))"
proof -
  assume ok: "ctx_ok s"
  have eq: "ensureThreadInfo gnb s = Option.bind (Option.bind (ensure_sequence gnb s) (ensure_category gnb)) (ensure_thread gnb)"
    by (simp add: ensureThreadInfo_def)
  show ?thesis unfolding spec_info_def eq
    by (rule sim_bind [OF sim_bind [OF sim_sequence [OF ok] sim_category] sim_thread])
qed

text \<open>The three parts of \<open>beginTrace\<close> after \<open>ensureThreadInfo\<close>.\<close>

definition begin_name :: "tracer mdelegate \<Rightarrow> cstr \<Rightarrow> tstream \<Rightarrow> tstream option" where
  "begin_name gnb name s1 =
     (let (iid, needEmitEventIntern, s2) = internEvent name s1 in
      do {
        iids \<leftarrow> store_at (mCurrentEventNameIid (ctx s2)) (mStackDepth (ctx s2)) iid;
        let s3 = upd_ctx (\<lambda>x. x\<lparr>mCurrentEventNameIid := iids\<rparr>) s2;
        if needEmitEventIntern then write_packet gnb (name_packet iid name) s3 else Some s3
      })"

definition begin_slice :: "tracer mdelegate \<Rightarrow> u64 \<Rightarrow> tstream \<Rightarrow> tstream option" where
  "begin_slice gnb ts s4 =
     do {
        category \<leftarrow> load_at (mCurrentCategoryIid (ctx s4)) (mStackDepth (ctx s4));
        event \<leftarrow> load_at (mCurrentEventNameIid (ctx s4)) (mStackDepth (ctx s4));
        s5 \<leftarrow> write_packet gnb (begin_packet (getTimestamp ts s4) (mThreadId (ctx s4)) category event) s4;
        Some (upd_ctx (\<lambda>x. x\<lparr>mStackDepth := mStackDepth x + 1\<rparr>) s5)
     }"

lemma sim_name: "ctx_ok s \<Longrightarrow> name_fits name \<Longrightarrow> sim s (begin_name gnb name s) (spec_name name (view s))"
proof -
  assume ok: "ctx_ok s" and fits: "name_fits name"
  obtain iid new s1 where i: "internEvent name s = (iid, new, s1)" by (cases "internEvent name s") auto
  obtain tab nxt where n: "intern (mEventNameInterningIds (ctx s)) (fst name) (currentInterningId (config s)) = (iid, new, tab, nxt)"
    and q: "quiet s s1" and v: "ctx s1 = (ctx s)\<lparr>mEventNameInterningIds := tab\<rparr>"
      "config s1 = (config s)\<lparr>currentInterningId := nxt\<rparr>"
    using i by (auto simp: internEvent_def intern_def Let_def quiet_def split: option.splits)
  let ?s2 = "upd_ctx (\<lambda>x. x\<lparr>mCurrentEventNameIid := (mCurrentEventNameIid (ctx s1))[mStackDepth (ctx s1) := iid]\<rparr>) s1"
  have q2: "quiet s ?s2" using q by (simp add: quiet_def)
  have "sim s (write_packet gnb (name_packet iid name) ?s2) (Some ([name_packet iid name], view ?s2))"
    by (rule sim_packet [OF ok q2 packets_fit(7) [OF fits] refl])
  moreover have "sim s (Some ?s2) (Some ([], view ?s2))" by (rule sim_quiet [OF ok q2 refl])
  ultimately show ?thesis
    using n by (auto simp: begin_name_def spec_name_def i view_def v store_at_def Let_def) (simp add: sim_def)
qed

lemma sim_slice: "ctx_ok s \<Longrightarrow> sim s (begin_slice gnb ts s) (spec_slice_begin ts (view s))"
proof (cases "mStackDepth (ctx s) < length (mCurrentCategoryIid (ctx s)) \<and> mStackDepth (ctx s) < length (mCurrentEventNameIid (ctx s))")
  case False
  then show ?thesis by (auto simp: begin_slice_def spec_slice_begin_def view_def load_at_def sim_def)
next
  case True
  assume ok: "ctx_ok s"
  let ?up = "\<lambda>t. upd_ctx (\<lambda>x. x\<lparr>mStackDepth := mStackDepth x + 1\<rparr>) t"
  let ?p = "begin_packet (getTimestamp ts s) (mThreadId (ctx s)) (mCurrentCategoryIid (ctx s) ! mStackDepth (ctx s))
     (mCurrentEventNameIid (ctx s) ! mStackDepth (ctx s))"
  have "sim s (write_packet gnb ?p s) (Some ([?p], view s))"
    by (rule sim_packet [OF ok quiet_refl packets_fit(4) refl])
  then obtain s5 where s5: "write_packet gnb ?p s = Some s5" "emits s [?p] s5" "view s5 = view s" by (auto simp: sim_def)
  have "emits s5 [] (?up s5)" using s5(2) by (intro quiet_emits) (simp_all add: emits_def quiet_def)
  from emits_trans [OF s5(2) this] have "emits s [?p] (?up s5)" by simp
  moreover have "view (?up s5) = ((logic (ctx s))\<lparr>mStackDepth := mStackDepth (ctx s) + 1\<rparr>, config s)"
    using s5(3) by (simp add: view_def) (metis logic_fields(4))
  ultimately show ?thesis
    using True s5(1) by (simp add: begin_slice_def load_at_def spec_slice_begin_def view_def sim_def getTimestamp_def)
qed

lemma beginTrace_parts:
  "beginTrace gnb ts name s =
     (if tracingDisabled (config s) \<or> mStackDepth (ctx s) = TRACE_STACK_DEPTH_MAX then Some s
      else Option.bind (Option.bind (ensureThreadInfo gnb s) (begin_name gnb name)) (begin_slice gnb ts))"
  unfolding beginTrace_def begin_name_def begin_slice_def name_packet_def begin_packet_def incremental_def Let_def
    append.simps bind_assoc by (simp add: split_beta bind_assoc cong: if_cong)

lemma sim_beginTrace:
  assumes ok: "ctx_ok s" and fits: "name_fits name"
  shows "sim s (beginTrace gnb ts name s) (spec_beginTrace ts name (view s))"
proof -
  have "sim s (Option.bind (Option.bind (ensureThreadInfo gnb s) (begin_name gnb name)) (begin_slice gnb ts))
      (wbind (wbind (spec_info (view s)) (spec_name name)) (spec_slice_begin ts))"
    by (rule sim_bind [OF sim_bind [OF sim_info [OF ok] sim_name [OF _ fits]] sim_slice])
  moreover have "sim s (Some s) (Some ([], view s))" by (rule sim_quiet [OF ok quiet_refl refl])
  ultimately show ?thesis by (simp add: beginTrace_parts spec_beginTrace_def view_def)
qed

lemma sim_endTrace: "ctx_ok s \<Longrightarrow> sim s (endTrace gnb ts s) (spec_endTrace ts (view s))"
proof -
  assume ok: "ctx_ok s"
  let ?d = "mStackDepth (ctx s) - 1"
  let ?s1 = "upd_ctx (\<lambda>x. x\<lparr>mStackDepth := mStackDepth x - 1\<rparr>) s"
  have q: "quiet s ?s1" by (simp add: quiet_def)
  let ?p = "end_packet (getTimestamp ts s) (mThreadId (ctx s)) (mCurrentCategoryIid (ctx s) ! ?d) (mCurrentEventNameIid (ctx s) ! ?d)"
  have "sim s (write_packet gnb ?p ?s1) (Some ([?p], view ?s1))"
    by (rule sim_packet [OF ok q packets_fit(5) refl])
  moreover have "sim s (Some s) (Some ([], view s))" by (rule sim_quiet [OF ok quiet_refl refl])
  ultimately show ?thesis
    by (auto simp: endTrace_def spec_endTrace_def view_def load_at_def Let_def end_packet_def incremental_def
        getTimestamp_def) (simp_all add: sim_def)
qed

lemma sim_counter:
  assumes ok: "ctx_ok s" and fits: "name_fits name"
  shows "sim s
     (let (counterTrackUuid, counterId, first, s2) = getOrCreateCounterTrackUuid name s in
      do { s3 \<leftarrow> (if first then
                 write_packet gnb [set_track_descriptor [desc_set_uuid counterTrackUuid,
                   desc_set_name (getTrackNameFromThreadIdAndCounterName (mThreadId (ctx s2)) name), desc_set_counter]] s2
               else Some s2);
           write_packet gnb [set_trusted_packet_sequence_id kSequenceId, set_sequence_flags 2,
             set_timestamp (getTimestamp ts s3),
             set_track_event [set_track_uuid counterTrackUuid, set_type TYPE_COUNTER, set_counter_value val]] s3 })
     (spec_counter ts name val (view s))"
proof -
  obtain uuid i new s2 where g: "getOrCreateCounterTrackUuid name s = (uuid, i, new, s2)"
    by (cases "getOrCreateCounterTrackUuid name s") auto
  have q: "quiet s s2" and new: "new = (mCounterNameToTrackUuids (ctx s) (fst name) = None)"
    and uuid: "uuid = (case mCounterNameToTrackUuids (ctx s) (fst name) of Some u \<Rightarrow> u
                 | None \<Rightarrow> push_bit 32 (ucast (mCurrentCounterId (ctx s))) OR ucast (mThreadId (ctx s)))"
    and v: "ctx s2 = (if new then (ctx s)\<lparr>mCounterNameToTrackUuids := (mCounterNameToTrackUuids (ctx s))(fst name \<mapsto> uuid),
                             mCurrentCounterId := mCurrentCounterId (ctx s) + 1\<rparr> else ctx s)"
      "config s2 = config s"
    using g by (auto simp: getOrCreateCounterTrackUuid_def Let_def quiet_def split: option.splits)
  have tid: "mThreadId (ctx s2) = mThreadId (ctx s)" by (simp add: v)
  let ?c = "counter_track_packet uuid (mThreadId (ctx s)) name"
  let ?p = "\<lambda>t. counter_packet (ts + guestTimeDiff (config t)) uuid val"
  have "sim s (if new then write_packet gnb ?c s2 else Some s2) (Some (if new then [?c] else [], view s2))"
    using sim_packet [OF ok q packets_fit(8) [OF fits] refl] sim_quiet [OF ok q refl] by simp
  moreover have "sim t (write_packet gnb (?p t) t) (emit (counter_packet (ts + guestTimeDiff (snd (view t))) uuid val) (view t))"
    if "ctx_ok t" for t
    using sim_packet [OF that quiet_refl packets_fit(6) refl] by (simp add: emit_def view_def)
  ultimately have "sim s (Option.bind (if new then write_packet gnb ?c s2 else Some s2) (\<lambda>t. write_packet gnb (?p t) t))
      (wbind (Some (if new then [?c] else [], view s2)) (\<lambda>v. emit (counter_packet (ts + guestTimeDiff (snd v)) uuid val) v))"
    by (rule sim_bind)
  moreover have "wbind (Some (if new then [?c] else [], view s2)) (\<lambda>v. emit (counter_packet (ts + guestTimeDiff (snd v)) uuid val) v)
      = spec_counter ts name val (view s)"
    by (simp add: wbind_def emit_def spec_counter_def view_def v new uuid Let_def split: option.split)
  ultimately show ?thesis
    unfolding g by (simp only: Let_def case_prod_conv counter_track_packet_def counter_packet_def incremental_def
        getTimestamp_def tid append.simps)
qed

lemma sim_traceCounter:
  assumes ok: "ctx_ok s" and fits: "name_fits name"
  shows "sim s (traceCounter gnb ts name val s) (spec_traceCounter ts name val (view s))"
proof -
  have "sim s (Some s) (Some ([], view s))" by (rule sim_quiet [OF ok quiet_refl refl])
  then show ?thesis
    using sim_bind [OF sim_info [OF ok, where gnb = gnb] sim_counter [OF _ fits, where gnb = gnb and ts = ts and val = val]]
    by (simp add: traceCounter_def spec_traceCounter_def view_def)
qed

subsection \<open>Sequences of calls\<close>

datatype trace_op = Begin u64 cstr | End u64 | Counter u64 cstr i64

fun trace_call :: "tracer mdelegate \<Rightarrow> trace_op \<Rightarrow> tstream \<Rightarrow> tstream option" where
  "trace_call gnb (Begin ts name) s = beginTrace gnb ts name s"
| "trace_call gnb (End ts) s = endTrace gnb ts s"
| "trace_call gnb (Counter ts name val) s = traceCounter gnb ts name val s"

fun spec_call :: "trace_op \<Rightarrow> tview \<Rightarrow> (packets \<times> tview) option" where
  "spec_call (Begin ts name) v = spec_beginTrace ts name v"
| "spec_call (End ts) v = spec_endTrace ts v"
| "spec_call (Counter ts name val) v = spec_traceCounter ts name val v"

fun trace_calls :: "tracer mdelegate \<Rightarrow> trace_op list \<Rightarrow> tstream \<Rightarrow> tstream option" where
  "trace_calls gnb [] s = Some s"
| "trace_calls gnb (a # as) s = Option.bind (trace_call gnb a s) (trace_calls gnb as)"

fun spec_calls :: "trace_op list \<Rightarrow> tview \<Rightarrow> (packets \<times> tview) option" where
  "spec_calls [] v = Some ([], v)"
| "spec_calls (a # as) v = wbind (spec_call a v) (spec_calls as)"

fun op_fits :: "trace_op \<Rightarrow> bool" where
  "op_fits (Begin ts name) = name_fits name"
| "op_fits (End ts) = True"
| "op_fits (Counter ts name val) = name_fits name"

lemma sim_call: "ctx_ok s \<Longrightarrow> op_fits a \<Longrightarrow> sim s (trace_call gnb a s) (spec_call a (view s))"
  by (cases a) (simp_all add: sim_beginTrace sim_endTrace sim_traceCounter)

lemma sim_calls: "ctx_ok s \<Longrightarrow> \<forall>a \<in> set as. op_fits a \<Longrightarrow> sim s (trace_calls gnb as s) (spec_calls as (view s))"
proof (induction as arbitrary: s)
  case Nil
  then show ?case using sim_quiet [OF _ quiet_refl refl] by simp
next
  case (Cons a as)
  then have "sim s (trace_call gnb a s) (spec_call a (view s))" by (simp add: sim_call)
  from sim_bind [OF this Cons.IH] Cons.prems show ?case by simp
qed

lemma new_tracer_ok:
  assumes "neededSpace \<le> storage_size c"
  shows "ctx_ok (new_tracer c sv)" and "cur_bytes (new_tracer c sv) = []" and "saved (new_tracer c sv) = sv"
    and "view (new_tracer c sv) = (init_TraceContext, c)"
  using assms by (simp_all add: ctx_ok_def new_tracer_def init_stream_def root_Reset_def writer_wf_def
      init_TraceContext_def cur_bytes_def view_def logic_def)

subsection \<open>Properties\<close>

text \<open>C2 tracer_refines: the buffered tracer implements the abstract one. For any sequence of
  \<open>beginTrace\<close>, \<open>endTrace\<close> and \<open>traceCounter\<close> calls with names below 128 bytes, from a state between packets
  whose buffers can hold one, and whatever \<open>GetNewBuffer\<close> would do: the concrete calls return exactly
  when the abstract ones do, and the buffers saved since and the current buffer then hold whole
  framed packets, namely those held before followed by those the abstract calls emit, in order.\<close>
theorem tracer_refines:
  assumes "ctx_ok s" and "\<forall>a \<in> set as. op_fits a"
  shows "case spec_calls as (view s) of
      None \<Rightarrow> trace_calls gnb as s = None
    | Some (ps, v) \<Rightarrow>
        \<exists>s' new. trace_calls gnb as s = Some s' \<and> view s' = v \<and> ctx_ok s' \<and> saved s' = saved s @ new \<and>
          (\<forall>cur. cur_bytes s = packet_bytes cur \<longrightarrow>
             (\<exists>cps cur'. list_all2 chunk_holds new cps \<and> cur_bytes s' = packet_bytes cur' \<and>
                concat cps @ cur' = cur @ ps))"
  using sim_calls [OF assms, of gnb]
  by (auto simp: sim_def emits_def split: option.splits prod.splits)

theorem tracer_refines_witness:
  "let c = sTraceConfig\<lparr>hostFilename := Some ''h'', tracingDisabled := False\<rparr>;
       as = [Begin 5 (100, [97]), End 6]
   in \<exists>s' cps cur. trace_calls (GetNewBuffer 1) as (new_tracer c []) = Some s' \<and>
        list_all2 chunk_holds (saved s') cps \<and> cur_bytes s' = packet_bytes cur \<and>
        concat cps @ cur = [start_packet, category_packet 1, thread_packet 2,
          name_packet 2 (100, [97]), begin_packet 5 2 1 2, end_packet 6 2 1 2]"
proof -
  let ?c = "sTraceConfig\<lparr>hostFilename := Some ''h'', tracingDisabled := False\<rparr>"
  let ?as = "[Begin 5 (100, [97]), End 6]"
  have size: "neededSpace \<le> storage_size ?c" by code_simp
  note nt = new_tracer_ok [OF size, of "[]"]
  have fits: "\<forall>a \<in> set ?as. op_fits a" by (simp add: name_fits_def)
  have "map_option fst (spec_calls ?as (init_TraceContext, ?c)) =
     Some [start_packet, category_packet 1, thread_packet 2,
          name_packet 2 (100, [97]), begin_packet 5 2 1 2, end_packet 6 2 1 2]"
    by code_simp
  then obtain v where sp: "spec_calls ?as (view (new_tracer ?c [])) = Some ([start_packet, category_packet 1, thread_packet 2,
          name_packet 2 (100, [97]), begin_packet 5 2 1 2, end_packet 6 2 1 2], v)"
    by (auto simp: nt)
  from tracer_refines [OF nt(1) fits, of "GetNewBuffer 1"] sp nt(2,3)
  obtain s' where s': "trace_calls (GetNewBuffer 1) ?as (new_tracer ?c []) = Some s'"
    "\<And>cur. [] = packet_bytes cur \<Longrightarrow> \<exists>cps cur'. list_all2 chunk_holds (saved s') cps \<and> cur_bytes s' = packet_bytes cur' \<and>
       concat cps @ cur' = cur @ [start_packet, category_packet 1, thread_packet 2,
          name_packet 2 (100, [97]), begin_packet 5 2 1 2, end_packet 6 2 1 2]"
    by auto
  from s'(2) [of "[]"] s'(1) show ?thesis by (simp add: Let_def)
qed

end
