(* ===== verification/Trace_Semantics.thy ===== *)
theory Trace_Semantics
  imports Trace_Spec
begin

section \<open>What the packets of one thread mean\<close>

text \<open>
  A reader of the trace sees packets. Here are the reader's side notions (the slices that begin and
  end, the names announced for interned ids) and the theorems that the tracer's packets make sense
  to it: slices nest and every end matches its begin, and every name id resolves to the name the
  client gave. The limits of the tracer are here too: the stack of 16 open slices.
\<close>

subsection \<open>Slices\<close>

fun varint_field :: "u32 \<Rightarrow> pb_field list \<Rightarrow> u64 option" where
  "varint_field i [] = None"
| "varint_field i (PbVarInt j v # fs) = (if j = i then Some v else varint_field i fs)"
| "varint_field i (f # fs) = varint_field i fs"

fun message_fields :: "u32 \<Rightarrow> pb_field list \<Rightarrow> pb_field list list" where
  "message_fields i [] = []"
| "message_fields i (PbMsg j gs # fs) = (if j = i then gs # message_fields i fs else message_fields i fs)"
| "message_fields i (f # fs) = message_fields i fs"

text \<open>A slice event: begin or end, and its track, category and name ids.\<close>

type_synonym slice_id = "u64 option \<times> u64 option \<times> u64 option"

definition slice_event :: "pb_field list \<Rightarrow> (bool \<times> slice_id) option" where
  "slice_event p =
     (case message_fields 11 p of
        [fs] \<Rightarrow>
          (let e = (varint_field 11 fs, varint_field 3 fs, varint_field 10 fs) in
           if varint_field 9 fs = Some 1 then Some (True, e)
           else if varint_field 9 fs = Some 2 then Some (False, e) else None)
      | _ \<Rightarrow> None)"

fun slices_in :: "packets \<Rightarrow> (bool \<times> slice_id) list" where
  "slices_in [] = []"
| "slices_in (p # ps) = (case slice_event p of None \<Rightarrow> slices_in ps | Some e \<Rightarrow> e # slices_in ps)"

text \<open>The open slices after reading events, innermost first; \<open>None\<close> if an end does not match.\<close>

fun nest :: "(bool \<times> slice_id) list \<Rightarrow> slice_id list \<Rightarrow> slice_id list option" where
  "nest [] st = Some st"
| "nest ((True, e) # es) st = nest es (e # st)"
| "nest ((False, e) # es) st = (case st of [] \<Rightarrow> None | t # ts \<Rightarrow> if t = e then nest es ts else None)"

lemma slices_in_append [simp]: "slices_in (ps @ qs) = slices_in ps @ slices_in qs"
  by (induction ps) (auto split: option.split)

lemma nest_append: "nest (es @ fs) st = Option.bind (nest es st) (nest fs)"
  by (induction es st rule: nest.induct) (auto split: list.split)

lemma slice_events [simp]:
  "slice_event start_packet = None" "slice_event (category_packet iid) = None"
  "slice_event (thread_packet tid) = None" "slice_event (name_packet iid name) = None"
  "slice_event (counter_packet t uuid val) = None" "slice_event (counter_track_packet uuid tid name) = None"
  "slice_event (begin_packet t tid category event) = Some (True, Some (ucast tid), Some (ucast category), Some (ucast event))"
  "slice_event (end_packet t tid category event) = Some (False, Some (ucast tid), Some (ucast category), Some (ucast event))"
  by (simp_all add: slice_event_def start_packet_def category_packet_def thread_packet_def name_packet_def
      counter_packet_def counter_track_packet_def begin_packet_def end_packet_def packet_defs)

text \<open>The open slices as the context has them.\<close>

definition stack_entry :: "TraceContext \<Rightarrow> nat \<Rightarrow> slice_id" where
  "stack_entry x i = (Some (ucast (mThreadId x)), Some (ucast (mCurrentCategoryIid x ! i)), Some (ucast (mCurrentEventNameIid x ! i)))"

definition stack_of :: "TraceContext \<Rightarrow> slice_id list" where
  "stack_of x = map (stack_entry x) (rev [0..<mStackDepth x])"

definition stack_inv :: "TraceContext \<Rightarrow> bool" where
  "stack_inv x \<longleftrightarrow> mStackDepth x \<le> TRACE_STACK_DEPTH_MAX \<and> length (mCurrentCategoryIid x) = TRACE_STACK_DEPTH_MAX \<and>
     length (mCurrentEventNameIid x) = TRACE_STACK_DEPTH_MAX \<and> (0 < mStackDepth x \<longrightarrow> \<not> mNeedToSetThreadId x)"

definition nests :: "tview \<Rightarrow> (packets \<times> tview) option \<Rightarrow> bool" where
  "nests v r \<longleftrightarrow> (\<forall>ps v'. r = Some (ps, v') \<longrightarrow> stack_inv (fst v) \<longrightarrow>
     stack_inv (fst v') \<and> nest (slices_in ps) (stack_of (fst v)) = Some (stack_of (fst v')))"

lemma nests_wbind: "nests v r \<Longrightarrow> (\<And>u. nests u (h u)) \<Longrightarrow> nests v (wbind r h)"
  unfolding nests_def wbind_def by (fastforce simp: nest_append split: option.splits)

lemma nests_nothing: "nests v (Some ([], v))"
  by (simp add: nests_def)

lemma stack_of_cong:
  "mStackDepth y = mStackDepth x \<Longrightarrow> (0 < mStackDepth x \<Longrightarrow> mThreadId y = mThreadId x) \<Longrightarrow>
   (\<And>i. i < mStackDepth x \<Longrightarrow> mCurrentCategoryIid y ! i = mCurrentCategoryIid x ! i \<and>
      mCurrentEventNameIid y ! i = mCurrentEventNameIid x ! i) \<Longrightarrow> stack_of y = stack_of x"
  by (auto simp: stack_of_def stack_entry_def)

lemma stack_of_Suc: "mStackDepth x = Suc d \<Longrightarrow> stack_of x = stack_entry x d # stack_of (x\<lparr>mStackDepth := d\<rparr>)"
  by (auto simp: stack_of_def stack_entry_def)

lemma nests_info_parts: "nests v (spec_sequence v)" "nests v (spec_category v)" "nests v (spec_thread v)"
  by (auto simp: nests_def spec_sequence_def spec_category_def spec_thread_def stack_inv_def Let_def
      split: prod.splits if_splits intro!: stack_of_cong)

lemma nests_info: "nests v (spec_info v)"
  unfolding spec_info_def by (intro nests_wbind nests_info_parts)

lemma nests_name: "nests v (spec_name name v)"
  by (auto simp: nests_def spec_name_def stack_inv_def Let_def split: prod.splits if_splits intro!: stack_of_cong)

lemma wbind_Some:
  "wbind r h = Some (ps, v') \<longleftrightarrow> (\<exists>ps1 u ps2. r = Some (ps1, u) \<and> h u = Some (ps2, v') \<and> ps = ps1 @ ps2)"
  by (cases v') (auto simp: wbind_def split: option.splits)

lemma spec_info_tid: "spec_info v = Some (ps, v') \<Longrightarrow> \<not> mNeedToSetThreadId (fst v')"
  by (auto simp: spec_info_def wbind_Some spec_thread_def Let_def split: if_splits)

lemma spec_name_tid: "spec_name name v = Some (ps, v') \<Longrightarrow> mNeedToSetThreadId (fst v') = mNeedToSetThreadId (fst v)"
  by (auto simp: spec_name_def Let_def split: prod.splits if_splits)

lemma nests_slice_begin:
  assumes "spec_slice_begin ts u = Some (ps, v')" and "stack_inv (fst u)" and "\<not> mNeedToSetThreadId (fst u)"
  shows "stack_inv (fst v') \<and> nest (slices_in ps) (stack_of (fst u)) = Some (stack_of (fst v'))"
proof -
  obtain x c where u: "u = (x, c)" by fastforce
  with assms have v': "v' = (x\<lparr>mStackDepth := Suc (mStackDepth x)\<rparr>, c)"
    and d: "mStackDepth x < TRACE_STACK_DEPTH_MAX"
    and ps: "slices_in ps = [(True, stack_entry x (mStackDepth x))]"
    by (auto simp: spec_slice_begin_def stack_inv_def stack_entry_def split: if_splits)
  have "stack_of (x\<lparr>mStackDepth := Suc (mStackDepth x)\<rparr>) = stack_entry x (mStackDepth x) # stack_of x"
    by (auto simp: stack_of_def stack_entry_def)
  then show ?thesis using assms d by (simp add: u v' ps stack_inv_def)
qed

lemma nests_begin: "nests v (spec_beginTrace ts name v)"
proof -
  obtain x c where v: "v = (x, c)" by fastforce
  have i: "nests v (wbind (spec_info v) (spec_name name))" by (intro nests_wbind nests_info nests_name)
  have "nests v (wbind (wbind (spec_info v) (spec_name name)) (spec_slice_begin ts))"
    unfolding nests_def
  proof (intro allI impI)
    fix ps v'
    assume w: "wbind (wbind (spec_info v) (spec_name name)) (spec_slice_begin ts) = Some (ps, v')" and inv: "stack_inv (fst v)"
    then obtain ps1 u ps2 where u: "wbind (spec_info v) (spec_name name) = Some (ps1, u)"
      "spec_slice_begin ts u = Some (ps2, v')" "ps = ps1 @ ps2" by (auto simp: wbind_Some)
    from u(1) obtain qs w ps3 where "spec_info v = Some (qs, w)" "spec_name name w = Some (ps3, u)"
      unfolding wbind_Some by blast
    then have "\<not> mNeedToSetThreadId (fst u)" using spec_info_tid spec_name_tid by metis
    moreover have s: "stack_inv (fst u)" "nest (slices_in ps1) (stack_of (fst v)) = Some (stack_of (fst u))"
      using i u(1) inv unfolding nests_def by blast+
    ultimately show "stack_inv (fst v') \<and> nest (slices_in ps) (stack_of (fst v)) = Some (stack_of (fst v'))"
      using nests_slice_begin [OF u(2)] by (simp add: u(3) nest_append)
  qed
  then show ?thesis using nests_nothing [of v] by (auto simp: spec_beginTrace_def v)
qed

lemma nests_end: "nests v (spec_endTrace ts v)"
proof -
  obtain x c where v: "v = (x, c)" by fastforce
  show ?thesis
  proof (cases "tracingDisabled c \<or> mStackDepth x = TRACE_STACK_DEPTH_MAX \<or> mStackDepth x = 0")
    case True
    then show ?thesis using nests_nothing [of v] by (simp add: spec_endTrace_def v)
  next
    case False
    then obtain d where d: "mStackDepth x = Suc d" by (cases "mStackDepth x") auto
    show ?thesis unfolding nests_def
    proof (intro allI impI)
      fix ps v' assume e: "spec_endTrace ts v = Some (ps, v')" and inv: "stack_inv (fst v)"
      with False d have v': "v' = (x\<lparr>mStackDepth := d\<rparr>, c)" and ps: "slices_in ps = [(False, stack_entry x d)]"
        by (auto simp: spec_endTrace_def v stack_entry_def Let_def split: if_splits)
      show "stack_inv (fst v') \<and> nest (slices_in ps) (stack_of (fst v)) = Some (stack_of (fst v'))"
        using inv d by (simp add: v v' ps stack_of_Suc [OF d] stack_inv_def)
    qed
  qed
qed

lemma nests_counter: "nests v (spec_traceCounter ts name val v)"
proof -
  have c: "nests u (spec_counter ts name val u)" for u
    by (auto simp: nests_def spec_counter_def stack_inv_def Let_def split: prod.splits if_splits intro!: stack_of_cong)
  have "nests v (wbind (spec_info v) (spec_counter ts name val))" by (intro nests_wbind nests_info c)
  then show ?thesis using nests_nothing [of v] by (cases v) (simp add: spec_traceCounter_def)
qed

lemma nests_calls: "nests v (spec_calls as v)"
proof (induction as arbitrary: v)
  case Nil
  then show ?case by (simp add: nests_nothing)
next
  case (Cons a as)
  have "nests v (spec_call a v)" by (cases a) (simp_all add: nests_begin nests_end nests_counter)
  then show ?case using Cons.IH by (simp add: nests_wbind)
qed

lemma stack_inv_logic [simp]: "stack_inv (logic x) = stack_inv x"
  by (simp add: stack_inv_def)

lemma stack_of_logic [simp]: "stack_of (logic x) = stack_of x"
  by (simp add: stack_of_def stack_entry_def cong: map_cong)

subsection \<open>Properties\<close>

text \<open>C13 slices_match: in the packets any sequence of calls of one thread emits, slices nest: every end event
  closes the innermost slice still open and carries the track, category and name ids of the begin
  event that opened it, no end event is emitted without an open slice, and the slices left open
  are the ones on the context's stack.\<close>
theorem slices_match:
  assumes "ctx_ok s" and "\<forall>a \<in> set as. op_fits a" and "stack_inv (ctx s)" and "trace_calls gnb as s = Some s'"
  shows "\<exists>ps. emits s ps s' \<and> nest (slices_in ps) (stack_of (ctx s)) = Some (stack_of (ctx s')) \<and> stack_inv (ctx s')"
proof -
  from sim_calls [OF assms(1,2), of gnb] assms(4) obtain ps where
    ps: "spec_calls as (view s) = Some (ps, view s')" "emits s ps s'"
    by (auto simp: sim_def split: option.splits)
  from nests_calls [of "view s" as] ps assms(3) show ?thesis
    by (auto simp: nests_def view_def)
qed

theorem slices_match_witness:
  "let s = new_tracer (sTraceConfig\<lparr>tracingDisabled := False\<rparr>) []
   in \<exists>s' ps. trace_calls (GetNewBuffer 2) [Begin 5 (100, [97]), Begin 6 (200, [98]), End 7] s = Some s' \<and>
        emits s ps s' \<and> nest (slices_in ps) [] = Some (stack_of (ctx s')) \<and> length (stack_of (ctx s')) = 1"
proof -
  let ?c = "sTraceConfig\<lparr>tracingDisabled := False\<rparr>"
  let ?s = "new_tracer ?c []" and ?as = "[Begin 5 (100, [97]), Begin 6 (200, [98]), End 7]"
  have size: "neededSpace \<le> storage_size ?c" by code_simp
  note nt = new_tracer_ok [OF size, of "[]"]
  have fits: "\<forall>a \<in> set ?as. op_fits a" by (simp add: name_fits_def)
  have inv: "stack_inv (ctx ?s)" "stack_of (ctx ?s) = []"
    by (simp_all add: new_tracer_def init_stream_def root_Reset_def init_TraceContext_def stack_inv_def stack_of_def)
  have "map_option (\<lambda>(ps, x, c). mStackDepth x) (spec_calls ?as (init_TraceContext, ?c)) = Some 1" by code_simp
  then obtain ps x c where sp: "spec_calls ?as (view ?s) = Some (ps, x, c)" "mStackDepth x = 1" by (auto simp: nt)
  from sim_calls [OF nt(1) fits, of "GetNewBuffer 2"] sp obtain s' where
    s': "trace_calls (GetNewBuffer 2) ?as ?s = Some s'" "view s' = (x, c)" by (auto simp: sim_def)
  then have "length (stack_of (ctx s')) = 1" using sp(2) by (auto simp: view_def stack_of_def)
  with slices_match [OF nt(1) fits inv(1) s'(1)] s'(1) inv(2) show ?thesis by (auto simp: Let_def)
qed

lemma spec_info_full:
  assumes "length (mCurrentCategoryIid (fst v)) \<le> mStackDepth (fst v)"
  shows "spec_info v = None"
proof -
  have "wbind (spec_sequence v) spec_category = None"
    using assms by (auto simp: wbind_def spec_sequence_def spec_category_def Let_def split: prod.splits option.splits)
  then show ?thesis by (simp add: spec_info_def wbind_def)
qed

text \<open>C40 full_stack_stuck: once 16 slices are open the thread's slice tracing is stuck for the rest of the
  session: \<open>beginTrace\<close> and \<open>endTrace\<close> both do nothing, so the open slices never end; and
  \<open>traceCounter\<close> stores past the end of the category array.\<close>
theorem full_stack_stuck:
  assumes "ctx_ok s" and "stack_inv (ctx s)" and "mStackDepth (ctx s) = TRACE_STACK_DEPTH_MAX"
    and "\<not> tracingDisabled (config s)" and "name_fits name"
  shows "beginTrace gnb ts name s = Some s \<and> endTrace gnb ts s = Some s \<and> traceCounter gnb ts name val s = None"
proof -
  have "spec_info (view s) = None"
    using assms(2,3) by (intro spec_info_full) (simp add: view_def stack_inv_def)
  then have "spec_traceCounter ts name val (view s) = None"
    using assms(4) by (simp add: spec_traceCounter_def view_def wbind_def)
  with sim_traceCounter [OF assms(1,5), of gnb ts val] have "traceCounter gnb ts name val s = None"
    by (simp add: sim_def)
  then show ?thesis using assms(3,4) by (simp add: beginTrace_def endTrace_def)
qed

theorem full_stack_stuck_witness:
  "\<exists>s. trace_calls (GetNewBuffer 2) (replicate 16 (Begin 5 (100, [97])))
         (new_tracer (sTraceConfig\<lparr>tracingDisabled := False\<rparr>) []) = Some s \<and>
     endTrace (GetNewBuffer 2) 7 s = Some s \<and> traceCounter (GetNewBuffer 2) 7 (200, [98]) 1 s = None"
proof -
  let ?c = "sTraceConfig\<lparr>tracingDisabled := False\<rparr>"
  let ?s = "new_tracer ?c []" and ?as = "replicate 16 (Begin 5 (100, [97]))"
  have size: "neededSpace \<le> storage_size ?c" by code_simp
  note nt = new_tracer_ok [OF size, of "[]"]
  have fits: "\<forall>a \<in> set ?as. op_fits a" by (simp add: name_fits_def)
  have "map_option (\<lambda>(ps, x, c). (mStackDepth x, length (mCurrentCategoryIid x), length (mCurrentEventNameIid x),
      mNeedToSetThreadId x, tracingDisabled c)) (spec_calls ?as (init_TraceContext, ?c)) = Some (16, 16, 16, False, False)"
    by code_simp
  then obtain ps x c where sp: "spec_calls ?as (view ?s) = Some (ps, x, c)" "mStackDepth x = 16"
    "length (mCurrentCategoryIid x) = 16" "length (mCurrentEventNameIid x) = 16" "\<not> mNeedToSetThreadId x" "\<not> tracingDisabled c"
    by (auto simp: nt)
  from sim_calls [OF nt(1) fits, of "GetNewBuffer 2"] sp(1) obtain s where
    s: "trace_calls (GetNewBuffer 2) ?as ?s = Some s" "view s = (x, c)" "ctx_ok s"
    by (auto simp: sim_def emits_def)
  have inv: "stack_inv (ctx s)" "mStackDepth (ctx s) = TRACE_STACK_DEPTH_MAX" "\<not> tracingDisabled (config s)"
    using s(2) sp(2-6) by (auto simp: view_def stack_inv_def TRACE_STACK_DEPTH_MAX_def)
  have "name_fits (200, [98])" by (simp add: name_fits_def)
  from full_stack_stuck [OF s(3) inv this, of "GetNewBuffer 2" 7 1] s(1) show ?thesis by blast
qed

end
