(* ===== verification/Trace_Storage.thy ===== *)
theory Trace_Storage
  imports Trace_Spec "HOL-Library.Multiset"
begin

section \<open>Many threads, saving the trace (class TraceStorage and the API in vperfetto.cpp)\<close>

text \<open>
  The world: the global configuration and storage, and one context per thread that has traced
  (\<open>sThreadLocalTraceContext\<close>, created by its first call and then in \<open>mContexts\<close>). A thread's call runs
  with the globals in place. \<open>mContexts\<close> is an unordered set: the order in which saving visits it is
  the order of the list, which no result depends on.
\<close>

record world =
  w_cfg :: VirtualDeviceTraceConfig
  w_saved :: "SavedTraceInfo list"
  w_ctxs :: "(nat \<times> tstream) list"

definition init_world :: world where
  "init_world = \<lparr>w_cfg = sTraceConfig, w_saved = [], w_ctxs = []\<rparr>"

definition with_globals :: "world \<Rightarrow> tstream \<Rightarrow> tstream" where
  "with_globals w s = s\<lparr>delegate := (delegate s)\<lparr>cfg := w_cfg w, mSavedTraces := w_saved w\<rparr>\<rparr>"

text \<open>\<open>storage_add\<close> and \<open>storage_remove\<close>: \<open>TraceStorage::add\<close> of a new context, \<open>remove\<close> of a destroyed one.\<close>

definition storage_add :: "nat \<Rightarrow> tstream \<Rightarrow> (nat \<times> tstream) list \<Rightarrow> (nat \<times> tstream) list" where
  "storage_add tid s cs = cs @ [(tid, s)]"

definition storage_remove :: "nat \<Rightarrow> (nat \<times> tstream) list \<Rightarrow> (nat \<times> tstream) list" where
  "storage_remove tid cs = filter (\<lambda>(t, s). t \<noteq> tid) cs"

fun set_context :: "nat \<Rightarrow> tstream \<Rightarrow> (nat \<times> tstream) list \<Rightarrow> (nat \<times> tstream) list" where
  "set_context tid s [] = []"
| "set_context tid s ((t, u) # cs) = (if t = tid then (t, s) # cs else (t, u) # set_context tid s cs)"

definition thread_context :: "nat \<Rightarrow> world \<Rightarrow> tstream \<times> world" where
  "thread_context tid w =
     (case map_of (w_ctxs w) tid of
        Some s \<Rightarrow> (s, w)
      | None \<Rightarrow> (let s = new_tracer (w_cfg w) (w_saved w) in (s, w\<lparr>w_ctxs := storage_add tid s (w_ctxs w)\<rparr>)))"

definition run_thread :: "nat \<Rightarrow> (tstream \<Rightarrow> tstream option) \<Rightarrow> world \<Rightarrow> world option" where
  "run_thread tid f w =
     (let (s, w1) = thread_context tid w in
      do { s' \<leftarrow> f (with_globals w1 s);
           Some \<lparr>w_cfg = config s', w_saved = saved s', w_ctxs = set_context tid s' (w_ctxs w1)\<rparr> })"

text \<open>The API calls test \<open>tracingDisabled\<close> before they touch the thread's context.\<close>

definition api_trace :: "nat \<Rightarrow> trace_op \<Rightarrow> world \<Rightarrow> world option" where
  "api_trace tid a w =
     (if tracingDisabled (w_cfg w) then Some w else run_thread tid (trace_call (GetNewBuffer 2) a) w)"

text \<open>A thread that exits destroys its context: removed from the set, then its buffer is saved.\<close>

definition save_context :: "bool \<Rightarrow> tstream \<Rightarrow> SavedTraceInfo \<times> tstream" where
  "save_context partialReset s = saveLocked partialReset s"

definition thread_exit :: "nat \<Rightarrow> world \<Rightarrow> world" where
  "thread_exit tid w =
     (case map_of (w_ctxs w) tid of
        None \<Rightarrow> w
      | Some s \<Rightarrow>
          (let w1 = w\<lparr>w_ctxs := storage_remove tid (w_ctxs w)\<rparr> in
           if mTraceBuffer (ctx s) \<noteq> None
           then (let info = fst (save_context False s) in
                 if st_data info \<noteq> None then w1\<lparr>w_saved := w_saved w1 @ [info]\<rparr> else w1)
           else w1))"

text \<open>\<open>saveTracesToDisk\<close>: every context is saved and fully reset, then the file is written: buffers that
  hold the first packet of the trace come first.\<close>

fun save_contexts :: "(nat \<times> tstream) list \<Rightarrow> SavedTraceInfo list \<times> (nat \<times> tstream) list" where
  "save_contexts [] = ([], [])"
| "save_contexts ((tid, s) # cs) =
     (let (info, s') = save_context False s; (infos, cs') = save_contexts cs
      in ((if st_data info \<noteq> None then info # infos else infos), (tid, s') # cs'))"

definition host_file :: "SavedTraceInfo list \<Rightarrow> u8 list" where
  "host_file infos =
     concat (map saved_bytes (filter st_first infos)) @ concat (map saved_bytes (filter (\<lambda>i. \<not> st_first i) infos))"

text \<open>The result also says whether the combined trace is to be saved by a background thread.\<close>

definition saveTracesToDisk :: "world \<Rightarrow> u8 list \<times> bool \<times> world" where
  "saveTracesToDisk w =
     (let (infos, cs) = save_contexts (w_ctxs w);
          all = w_saved w @ infos;
          w1 = w\<lparr>w_saved := [], w_ctxs := cs\<rparr>
      in if guestFilename (w_cfg w) = None \<or> combinedFilename (w_cfg w) = None
         then (host_file all, False, w1\<lparr>w_cfg := (w_cfg w1)\<lparr>saving := False\<rparr>\<rparr>)
         else (host_file all, True, w1))"

definition api_enable :: "trace_env \<Rightarrow> world \<Rightarrow> world" where
  "api_enable env w = w\<lparr>w_cfg := enableTracing env (w_cfg w)\<rparr>"

definition api_disable :: "world \<Rightarrow> (u8 list \<times> bool) option \<times> world" where
  "api_disable w =
     (case disableTracing_begin (w_cfg w) of
        None \<Rightarrow> (None, w)
      | Some (saves, c) \<Rightarrow>
          (let w1 = w\<lparr>w_cfg := c\<rparr> in
           if saves then
             (let (file, combine, w2) = saveTracesToDisk w1
              in (Some (file, combine), w2\<lparr>w_cfg := disableTracing_end (w_cfg w2)\<rparr>))
           else (None, w1\<lparr>w_cfg := disableTracing_end (w_cfg w1)\<rparr>)))"

subsection \<open>The packets in the world\<close>

definition raw_ok :: "tstream \<Rightarrow> bool" where
  "raw_ok s \<longleftrightarrow> writer_wf s \<and> \<not> mWritingPacket (ctx s) \<and>
     (\<forall>c. mTraceBuffer (ctx s) = Some c \<longrightarrow> (\<exists>r. cur_range s = Some r \<and> rg_chunk r = c))"

text \<open>\<open>world_holds w cps kps\<close>: the saved buffers hold the packets \<open>cps\<close>, the current buffers \<open>kps\<close>, all whole.\<close>

definition context_holds :: "nat \<times> tstream \<Rightarrow> packets \<Rightarrow> bool" where
  "context_holds c ps \<longleftrightarrow> raw_ok (snd c) \<and> cur_bytes (snd c) = packet_bytes ps"

definition world_holds :: "world \<Rightarrow> packets list \<Rightarrow> packets list \<Rightarrow> bool" where
  "world_holds w cps kps \<longleftrightarrow> neededSpace \<le> storage_size (w_cfg w) \<and> distinct (map fst (w_ctxs w)) \<and>
     list_all2 chunk_holds (w_saved w) cps \<and> list_all2 context_holds (w_ctxs w) kps"

text \<open>\<open>world_packets w L\<close>: the packets of the world are those of \<open>L\<close>, in some order.\<close>

definition world_packets :: "world \<Rightarrow> packets \<Rightarrow> bool" where
  "world_packets w L \<longleftrightarrow> (\<exists>cps kps. world_holds w cps kps \<and> mset L = mset (concat cps) + mset (concat kps))"

lemma with_globals_simps [simp]:
  "heap (with_globals w s) = heap s" "cur_range (with_globals w s) = cur_range s"
  "written_previously (with_globals w s) = written_previously s" "ctx (with_globals w s) = ctx s"
  "config (with_globals w s) = w_cfg w" "saved (with_globals w s) = w_saved w"
  by (simp_all add: with_globals_def)

lemma ctx_ok_raw: "ctx_ok s \<longleftrightarrow> raw_ok s \<and> neededSpace \<le> storage_size (config s)"
  by (auto simp: ctx_ok_def raw_ok_def)

lemma raw_ok_globals [simp]: "raw_ok (with_globals w s) = raw_ok s"
  using view_cong(3) [of "with_globals w s" s] by (simp add: raw_ok_def)

lemma cur_bytes_globals [simp]: "cur_bytes (with_globals w s) = cur_bytes s"
  by (simp add: cur_bytes_def cong: option.case_cong)

lemma set_context_fst [simp]: "map fst (set_context tid s cs) = map fst cs"
  by (induction tid s cs rule: set_context.induct) auto

lemma set_context_split: "tid \<notin> fst ` set pre \<Longrightarrow> set_context tid s' (pre @ (tid, s) # post) = pre @ (tid, s') # post"
  by (induction pre) auto

lemma map_of_split:
  "map_of cs tid = Some s \<Longrightarrow> \<exists>pre post. cs = pre @ (tid, s) # post \<and> tid \<notin> fst ` set pre"
proof (induction cs)
  case (Cons c cs)
  show ?case
  proof (cases "fst c = tid")
    case True
    with Cons.prems show ?thesis by (intro exI [of _ "[]"] exI [of _ cs]) (cases c, simp)
  next
    case False
    with Cons obtain pre post where "cs = pre @ (tid, s) # post" "tid \<notin> fst ` set pre" by (auto split: prod.splits)
    with False show ?thesis by (intro exI [of _ "c # pre"] exI [of _ post]) auto
  qed
qed simp

text \<open>The context a thread's call runs on, with what it holds.\<close>

lemma thread_context_holds:
  assumes "world_holds w cps kps"
  shows "\<exists>s w1 pre post kpre k kpost. thread_context tid w = (s, w1) \<and> w_cfg w1 = w_cfg w \<and> w_saved w1 = w_saved w \<and>
    w_ctxs w1 = pre @ (tid, s) # post \<and> tid \<notin> fst ` set pre \<and> distinct (map fst (w_ctxs w1)) \<and>
    list_all2 context_holds pre kpre \<and> context_holds (tid, s) k \<and> list_all2 context_holds post kpost \<and>
    mset (concat kps) = mset (concat kpre) + mset k + mset (concat kpost)"
proof (cases "map_of (w_ctxs w) tid")
  case (Some s)
  from map_of_split [OF Some] obtain pre post where p: "w_ctxs w = pre @ (tid, s) # post" "tid \<notin> fst ` set pre" by blast
  with assms obtain kpre krest where k: "kps = kpre @ krest" "list_all2 context_holds pre kpre"
    "list_all2 context_holds ((tid, s) # post) krest"
    by (auto simp: world_holds_def list_all2_append1)
  then obtain k kpost where "krest = k # kpost" "context_holds (tid, s) k" "list_all2 context_holds post kpost"
    by (auto simp: list_all2_Cons1)
  with k p Some assms show ?thesis
    by (intro exI [of _ s] exI [of _ w] exI [of _ pre] exI [of _ post] exI [of _ kpre] exI [of _ k] exI [of _ kpost])
      (simp add: thread_context_def world_holds_def)
next
  case None
  have size: "neededSpace \<le> storage_size (w_cfg w)" using assms by (simp add: world_holds_def)
  let ?s = "new_tracer (w_cfg w) (w_saved w)"
  have "context_holds (tid, ?s) []"
    using new_tracer_ok [OF size] by (simp add: context_holds_def ctx_ok_raw)
  moreover have "tid \<notin> fst ` set (w_ctxs w)" using None by (metis map_of_eq_None_iff)
  ultimately show ?thesis
    using None assms
    by (intro exI [of _ ?s] exI [of _ "w\<lparr>w_ctxs := storage_add tid ?s (w_ctxs w)\<rparr>"] exI [of _ "w_ctxs w"]
        exI [of _ "[]"] exI [of _ kps] exI [of _ "[]"] exI [of _ "[]"])
      (simp add: thread_context_def storage_add_def world_holds_def Let_def)
qed

definition thread_view :: "nat \<Rightarrow> world \<Rightarrow> tview" where
  "thread_view tid w = (let (s, w1) = thread_context tid w in view (with_globals w1 s))"

lemma api_trace_step:
  assumes w: "world_packets w L" and on: "\<not> tracingDisabled (w_cfg w)" and fits: "op_fits a"
    and sp: "spec_call a (thread_view tid w) = Some (ps, v)"
  shows "\<exists>w'. api_trace tid a w = Some w' \<and> world_packets w' (L @ ps) \<and> w_cfg w' = snd v"
proof -
  from w obtain cps kps where h: "world_holds w cps kps" and L: "mset L = mset (concat cps) + mset (concat kps)"
    by (auto simp: world_packets_def)
  from thread_context_holds [OF h, of tid] obtain s w1 pre post kpre k kpost where t: "thread_context tid w = (s, w1)"
    and w1: "w_cfg w1 = w_cfg w" "w_saved w1 = w_saved w" "w_ctxs w1 = pre @ (tid, s) # post" "tid \<notin> fst ` set pre" "distinct (map fst (w_ctxs w1))"
    and k: "list_all2 context_holds pre kpre" "context_holds (tid, s) k" "list_all2 context_holds post kpost"
    and m: "mset (concat kps) = mset (concat kpre) + mset k + mset (concat kpost)" by blast
  let ?s = "with_globals w1 s"
  have ok: "ctx_ok ?s" using k(2) h w1(1) by (simp add: ctx_ok_raw context_holds_def world_holds_def)
  have cur: "cur_bytes ?s = packet_bytes k" using k(2) by (simp add: context_holds_def)
  from sim_call [OF ok fits, of "GetNewBuffer 2"] sp t obtain s' where
    s': "trace_call (GetNewBuffer 2) a ?s = Some s'" "emits ?s ps s'" "view s' = v"
    by (auto simp: sim_def thread_view_def)
  then obtain new ncps k' where n: "saved s' = w_saved w @ new" "list_all2 chunk_holds new ncps"
    "cur_bytes s' = packet_bytes k'" "concat ncps @ k' = k @ ps" "ctx_ok s'"
    using cur by (auto simp: emits_def w1(2))
  let ?w' = "\<lparr>w_cfg = config s', w_saved = saved s', w_ctxs = pre @ (tid, s') # post\<rparr>"
  have "api_trace tid a w = Some ?w'"
    using on s'(1) by (simp add: api_trace_def run_thread_def t w1(3) set_context_split [OF w1(4)])
  moreover have "world_holds ?w' (cps @ ncps) (kpre @ k' # kpost)"
    using h n k w1(3,5) by (auto simp: world_holds_def context_holds_def ctx_ok_raw intro: list_all2_appendI)
  moreover have "mset (L @ ps) = mset (concat (cps @ ncps)) + mset (concat (kpre @ k' # kpost))"
  proof -
    have "mset (concat ncps) + mset k' = mset k + mset ps" using arg_cong [OF n(4), of mset] by simp
    then show ?thesis using L m by (simp add: ac_simps)
  qed
  moreover have "w_cfg ?w' = snd v" using s'(3) by (auto simp: view_def)
  ultimately show ?thesis unfolding world_packets_def by blast
qed

lemma packet_bytes_eq_Nil [simp]: "packet_bytes ps = [] \<longleftrightarrow> ps = []" "[] = packet_bytes ps \<longleftrightarrow> ps = []"
proof -
  show e: "packet_bytes ps = [] \<longleftrightarrow> ps = []" by (simp add: packet_bytes_def)
  show "[] = packet_bytes ps \<longleftrightarrow> ps = []" using e by (simp only: eq_commute [of "[]"])
qed

lemma saved_as_holds: "cur_bytes s = packet_bytes k \<Longrightarrow> chunk_holds (saved_as s) k"
  by (simp add: chunk_holds_def saved_as_def saved_bytes_def)

lemma save_context_holds:
  assumes "context_holds (tid, s) k"
  shows "if mTraceBuffer (ctx s) = None then st_data (fst (save_context False s)) = None \<and> k = []
     else chunk_holds (fst (save_context False s)) k"
    and "context_holds (tid, snd (save_context False s)) []"
proof -
  have raw: "raw_ok s" and cur: "cur_bytes s = packet_bytes k" using assms by (simp_all add: context_holds_def)
  show "if mTraceBuffer (ctx s) = None then st_data (fst (save_context False s)) = None \<and> k = []
     else chunk_holds (fst (save_context False s)) k"
  proof (cases "mTraceBuffer (ctx s)")
    case None
    with cur show ?thesis by (simp add: save_context_def saveLocked_def cur_bytes_def)
  next
    case (Some c)
    with raw have "\<exists>r. cur_range s = Some r \<and> mTraceBuffer (ctx s) = Some (rg_chunk r)" by (auto simp: raw_ok_def)
    from saveLocked_info [OF this] saved_as_holds [OF cur] Some show ?thesis by (simp add: save_context_def)
  qed
  have v: "heap (resetLocked False s) = heap s" "cur_range (resetLocked False s) = cur_range s"
    "written_previously (resetLocked False s) = written_previously s"
    by (simp_all add: resetLocked_def Let_def)
  have c: "mTraceBuffer (ctx (resetLocked False s)) = None"
    "mWritingPacket (ctx (resetLocked False s)) = mWritingPacket (ctx s)"
    by (simp_all add: resetLocked_def Let_def)
  show "context_holds (tid, snd (save_context False s)) []"
    using raw by (simp add: save_context_def saveLocked_def context_holds_def raw_ok_def view_cong(3) [OF v] c cur_bytes_def)
qed

lemma save_contexts_hold:
  "list_all2 context_holds cs kps \<Longrightarrow>
     \<exists>cps. list_all2 chunk_holds (fst (save_contexts cs)) cps \<and> mset (concat cps) = mset (concat kps) \<and>
       list_all2 context_holds (snd (save_contexts cs)) (map (\<lambda>_. []) cs)"
proof (induction cs kps rule: list_all2_induct)
  case (Cons c cs k kps)
  obtain tid s where c: "c = (tid, s)" by fastforce
  obtain cps where cps: "list_all2 chunk_holds (fst (save_contexts cs)) cps" "mset (concat cps) = mset (concat kps)"
    "list_all2 context_holds (snd (save_contexts cs)) (map (\<lambda>_. []) cs)" using Cons.IH by blast
  note h = save_context_holds [OF Cons.hyps(1) [unfolded c]]
  show ?case
  proof (cases "mTraceBuffer (ctx s)")
    case None
    with h cps show ?thesis by (intro exI [of _ cps]) (simp add: c split_beta)
  next
    case (Some b)
    with h have ch: "chunk_holds (fst (save_context False s)) k" by simp
    then have "st_data (fst (save_context False s)) \<noteq> None" by (simp add: chunk_holds_def)
    with ch h(2) cps show ?thesis
      by (intro exI [of _ "k # cps"]) (simp add: c split_beta)
  qed
qed simp

lemma storage_remove_split:
  "distinct (map fst (pre @ (tid, s) # post)) \<Longrightarrow> storage_remove tid (pre @ (tid, s) # post) = pre @ post"
proof -
  have "filter (\<lambda>(t, s). t \<noteq> tid) cs = cs" if "tid \<notin> fst ` set cs" for cs :: "(nat \<times> tstream) list"
    using that by (force intro: filter_True)
  then show "distinct (map fst (pre @ (tid, s) # post)) \<Longrightarrow> storage_remove tid (pre @ (tid, s) # post) = pre @ post"
    by (simp add: storage_remove_def)
qed

lemma thread_exit_step: "world_packets w L \<Longrightarrow> world_packets (thread_exit tid w) L"
proof -
  assume w: "world_packets w L"
  then obtain cps kps where h: "world_holds w cps kps" and L: "mset L = mset (concat cps) + mset (concat kps)"
    by (auto simp: world_packets_def)
  show ?thesis
  proof (cases "map_of (w_ctxs w) tid")
    case None
    with w show ?thesis by (simp add: thread_exit_def)
  next
    case (Some s)
    then have tc: "thread_context tid w = (s, w)" by (simp add: thread_context_def)
    from thread_context_holds [OF h, of tid] tc obtain pre post kpre k kpost where
      p: "w_ctxs w = pre @ (tid, s) # post" "distinct (map fst (w_ctxs w))"
      and k: "list_all2 context_holds pre kpre" "context_holds (tid, s) k" "list_all2 context_holds post kpost"
      and m: "mset (concat kps) = mset (concat kpre) + mset k + mset (concat kpost)" by auto
    have rm: "storage_remove tid (w_ctxs w) = pre @ post" using p storage_remove_split by simp
    have d: "distinct (map fst (pre @ post))" using p by auto
    note sc = save_context_holds(1) [OF k(2)]
    let ?i = "fst (save_context False s)"
    have rest: "world_holds (w\<lparr>w_ctxs := pre @ post, w_saved := w_saved w @ new\<rparr>) (cps @ ncps) (kpre @ kpost)"
      if "list_all2 chunk_holds new ncps" for new ncps
      using h k d that by (auto simp: world_holds_def intro: list_all2_appendI)
    show ?thesis
    proof (cases "mTraceBuffer (ctx s)")
      case None
      with sc have "k = []" by simp
      moreover have "thread_exit tid w = w\<lparr>w_ctxs := pre @ post, w_saved := w_saved w @ []\<rparr>"
        using Some None rm by (simp add: thread_exit_def)
      ultimately show ?thesis using rest [of "[]" "[]"] L m unfolding world_packets_def by fastforce
    next
      case (Some b)
      with sc have ch: "chunk_holds ?i k" by simp
      then have "st_data ?i \<noteq> None" by (simp add: chunk_holds_def)
      then have "thread_exit tid w = w\<lparr>w_ctxs := pre @ post, w_saved := w_saved w @ [?i]\<rparr>"
        using Some rm \<open>map_of (w_ctxs w) tid = Some s\<close> by (simp add: thread_exit_def Let_def)
      moreover have "mset L = mset (concat (cps @ [k])) + mset (concat (kpre @ kpost))" using L m by simp
      moreover have "world_holds (w\<lparr>w_ctxs := pre @ post, w_saved := w_saved w @ [?i]\<rparr>) (cps @ [k]) (kpre @ kpost)"
        using rest [of "[?i]" "[k]"] ch by simp
      ultimately show ?thesis unfolding world_packets_def by metis
    qed
  qed
qed

text \<open>The host file is a rearrangement of the saved buffers.\<close>

lemma saved_bytes_concat:
  "list_all2 chunk_holds infos cps \<Longrightarrow> concat (map saved_bytes infos) = packet_bytes (concat cps)"
  by (induction infos cps rule: list_all2_induct) (simp_all add: chunk_holds_def)

lemma list_all2_filter:
  assumes "list_all2 P xs ys"
  shows "\<exists>as bs. list_all2 P (filter Q xs) as \<and> list_all2 P (filter (\<lambda>x. \<not> Q x) xs) bs \<and>
     mset ys = mset as + mset bs"
  using assms
proof (induction xs ys rule: list_all2_induct)
  case (Cons x xs y ys)
  then obtain as bs where "list_all2 P (filter Q xs) as" "list_all2 P (filter (\<lambda>x. \<not> Q x) xs) bs"
     "mset ys = mset as + mset bs" by blast
  with Cons.hyps(1) show ?case
    by (cases "Q x") (force intro: exI [of _ "y # as"], force intro: exI [of _ "y # bs"])
qed simp

lemma mset_concat_cong: "mset xss = mset yss \<Longrightarrow> mset (concat xss) = mset (concat yss)"
  by (metis mset_concat mset_map sum_mset_sum_list)

lemma host_file_packets:
  assumes "list_all2 chunk_holds infos cps"
  shows "\<exists>P. host_file infos = packet_bytes P \<and> mset P = mset (concat cps)"
proof -
  from list_all2_filter [OF assms, of st_first] obtain as bs where
    a: "list_all2 chunk_holds (filter st_first infos) as" "list_all2 chunk_holds (filter (\<lambda>x. \<not> st_first x) infos) bs"
    "mset cps = mset as + mset bs" by blast
  then have "host_file infos = packet_bytes (concat as @ concat bs)"
    by (simp add: host_file_def saved_bytes_concat)
  moreover have "mset (concat as @ concat bs) = mset (concat cps)"
    using mset_concat_cong [of cps "as @ bs"] a(3) by simp
  ultimately show ?thesis by blast
qed

lemma save_contexts_fst: "map fst (snd (save_contexts cs)) = map fst cs"
  by (induction cs) (auto simp: split_beta)

lemma saveTracesToDisk_packets:
  assumes "world_packets w L"
  shows "\<exists>P. fst (saveTracesToDisk w) = packet_bytes P \<and> mset P = mset L \<and>
     world_packets (snd (snd (saveTracesToDisk w))) []"
proof -
  from assms obtain cps kps where h: "world_holds w cps kps" and L: "mset L = mset (concat cps) + mset (concat kps)"
    by (auto simp: world_packets_def)
  then obtain ncps where n: "list_all2 chunk_holds (fst (save_contexts (w_ctxs w))) ncps" "mset (concat ncps) = mset (concat kps)"
     "list_all2 context_holds (snd (save_contexts (w_ctxs w))) (map (\<lambda>_. []) (w_ctxs w))"
    using save_contexts_hold [of "w_ctxs w" kps] by (auto simp: world_holds_def)
  have "list_all2 chunk_holds (w_saved w @ fst (save_contexts (w_ctxs w))) (cps @ ncps)"
    using h n(1) by (auto simp: world_holds_def intro: list_all2_appendI)
  from host_file_packets [OF this] L n(2) obtain P where
    P: "host_file (w_saved w @ fst (save_contexts (w_ctxs w))) = packet_bytes P" "mset P = mset L" by auto
  have size: "neededSpace \<le> storage_size (w_cfg w)" using h by (simp add: world_holds_def)
  have "world_holds (snd (snd (saveTracesToDisk w))) [] (map (\<lambda>_. []) (w_ctxs w))"
    using n(3) size h by (auto simp: saveTracesToDisk_def split_beta Let_def world_holds_def storage_size_def save_contexts_fst)
  then have "world_packets (snd (snd (saveTracesToDisk w))) []"
    unfolding world_packets_def by (intro exI conjI) (assumption, simp add: comp_def)
  with P show ?thesis by (auto simp: saveTracesToDisk_def split_beta Let_def)
qed

subsection \<open>What the abstract calls keep\<close>

text \<open>A relation between the view before and after, closed under \<open>wbind\<close>: the packets are well-formed, the switch, the file
  names, the storage size and the time difference stay.\<close>

fun ids_ok :: "pb_field \<Rightarrow> bool" where
  "ids_ok (PbVarInt i v) = id_ok i"
| "ids_ok (PbFixed32 i v) = id_ok i"
| "ids_ok (PbFixed64 i v) = id_ok i"
| "ids_ok (PbBytes i bs) = id_ok i"
| "ids_ok (PbMsg i fs) = (id_ok i \<and> (\<forall>f \<in> set fs. ids_ok f))"

definition packet_ok :: "pb_field list \<Rightarrow> bool" where
  "packet_ok p \<longleftrightarrow> packet_fits p \<and> (\<forall>f \<in> set p. ids_ok f)"

definition same_setup :: "VirtualDeviceTraceConfig \<Rightarrow> VirtualDeviceTraceConfig \<Rightarrow> bool" where
  "same_setup c c' \<longleftrightarrow> tracingDisabled c' = tracingDisabled c \<and> hostFilename c' = hostFilename c \<and>
     guestFilename c' = guestFilename c \<and> combinedFilename c' = combinedFilename c \<and>
     perThreadStorageMb c' = perThreadStorageMb c \<and> guestTimeDiff c' = guestTimeDiff c"

definition well_behaved :: "tview \<Rightarrow> (packets \<times> tview) option \<Rightarrow> bool" where
  "well_behaved v r \<longleftrightarrow> (\<forall>ps v'. r = Some (ps, v') \<longrightarrow> (\<forall>p \<in> set ps. packet_ok p) \<and> same_setup (snd v) (snd v'))"

lemma well_behaved_wbind:
  assumes "well_behaved v r" and "\<And>u. well_behaved u (h u)"
  shows "well_behaved v (wbind r h)"
  using assms unfolding well_behaved_def wbind_def same_setup_def
  by (fastforce split: option.splits)

lemma packets_ok:
  "packet_ok start_packet" "packet_ok (category_packet iid)" "packet_ok (thread_packet tid)"
  "packet_ok (begin_packet t tid category event)" "packet_ok (end_packet t tid category event)"
  "packet_ok (counter_packet t uuid val)"
  "name_fits name \<Longrightarrow> packet_ok (name_packet iid name)"
  "name_fits name \<Longrightarrow> packet_ok (counter_track_packet uuid tid name)"
  using packets_fit by (simp_all add: packet_ok_def start_packet_def category_packet_def thread_packet_def begin_packet_def
      end_packet_def counter_packet_def name_packet_def counter_track_packet_def packet_defs id_ok_def)

lemma well_behaved_parts:
  "well_behaved v (spec_sequence v)" "well_behaved v (spec_category v)" "well_behaved v (spec_thread v)"
  "well_behaved v (spec_slice_begin ts v)" "well_behaved v (spec_endTrace ts v)"
  "name_fits name \<Longrightarrow> well_behaved v (spec_name name v)"
  "name_fits name \<Longrightarrow> well_behaved v (spec_counter ts name val v)"
  by (auto simp: well_behaved_def spec_sequence_def spec_category_def spec_thread_def spec_slice_begin_def
      spec_endTrace_def spec_name_def spec_counter_def same_setup_def packets_ok Let_def
      split: prod.splits if_splits)

lemma well_behaved_info: "well_behaved v (spec_info v)"
  unfolding spec_info_def by (intro well_behaved_wbind well_behaved_parts)

lemma well_behaved_nothing: "well_behaved v (Some ([], v))"
  by (simp add: well_behaved_def same_setup_def)

lemma spec_call_well_behaved: "op_fits a \<Longrightarrow> well_behaved v (spec_call a v)"
proof (cases a; cases v)
  fix x c ts name assume "a = Begin ts name" "op_fits a" "v = (x, c)"
  then show ?thesis
    using well_behaved_wbind [OF well_behaved_wbind [OF well_behaved_info well_behaved_parts(6)] well_behaved_parts(4)]
    by (auto simp: spec_beginTrace_def well_behaved_nothing)
next
  fix x c ts name val assume "a = Counter ts name val" "op_fits a" "v = (x, c)"
  then show ?thesis
    using well_behaved_wbind [OF well_behaved_info well_behaved_parts(7)]
    by (auto simp: spec_traceCounter_def well_behaved_nothing)
qed (simp_all add: well_behaved_parts)

lemma length_encode_member: "f \<in> set fs \<Longrightarrow> length (encode_field f) \<le> length (encode_fields fs)"
  by (induction fs) auto

lemma ids_ok_encodable: "ids_ok f \<Longrightarrow> length (encode_field f) \<le> kMaxMessageLength \<Longrightarrow> encodable f"
proof (induction f)
  case (PbMsg i fs)
  have le: "length (encode_fields fs) \<le> kMaxMessageLength" using PbMsg.prems(2) by simp
  have "encodable g" if "g \<in> set fs" for g
    using that PbMsg.IH [OF that] PbMsg.prems(1) length_encode_member [OF that] le by simp
  with PbMsg.prems le show ?case by simp
qed simp_all

lemma packet_ok_encodable: "packet_ok p \<Longrightarrow> encodable (PbMsg 1 p)"
proof -
  assume p: "packet_ok p"
  then have l: "length (encode_fields p) \<le> 200" by (simp add: packet_ok_def packet_fits_def kTrackEventPadding_def)
  have "length (WriteVarInt (MakeTagLengthDelimited 1)) = 1" by (simp add: packet_tag)
  then have "length (encode_field (PbMsg 1 p)) \<le> kMaxMessageLength"
    using l by (simp add: kMaxMessageLength_def kMessageLengthFieldSize_def)
  with p show ?thesis by (intro ids_ok_encodable) (simp_all add: packet_ok_def id_ok_def)
qed

subsection \<open>Tracing sessions\<close>

text \<open>A session starts when tracing is turned on in a world without buffers; then threads trace, in any
  interleaving of calls, and exit. \<open>session w ops L\<close>: \<open>ops\<close> lists the calls and \<open>L\<close> the packets of their abstract
  counterparts, in the order of the calls. The properties are about sessions in which every name is shorter than 128
  bytes (\<open>op_fits\<close> of every call): a packet with a longer name may not fit in what is left of a buffer, and
  then \<open>GetNewBuffer\<close> cuts it in two, which no decoder puts together again.\<close>

inductive session :: "world \<Rightarrow> trace_op list \<Rightarrow> packets \<Rightarrow> bool" where
  enabled: "world_packets w [] \<Longrightarrow> \<not> tracingDisabled (w_cfg (api_enable env w)) \<Longrightarrow> tracingDisabled (w_cfg w) \<Longrightarrow>
     session (api_enable env w) [] []"
| called: "session w ops L \<Longrightarrow> spec_call a (thread_view tid w) = Some (ps, v) \<Longrightarrow>
     api_trace tid a w = Some w' \<Longrightarrow> session w' (ops @ [a]) (L @ ps)"
| exited: "session w ops L \<Longrightarrow> session (thread_exit tid w) ops L"

lemma init_world_packets: "world_packets init_world []"
proof -
  have "neededSpace \<le> storage_size sTraceConfig" by code_simp
  then show ?thesis by (simp add: world_packets_def world_holds_def init_world_def)
qed

lemma world_packets_cfg:
  "world_packets w L \<Longrightarrow> perThreadStorageMb (w_cfg w') = perThreadStorageMb (w_cfg w) \<Longrightarrow> w_saved w' = w_saved w \<Longrightarrow>
     w_ctxs w' = w_ctxs w \<Longrightarrow> world_packets w' L"
  by (simp add: world_packets_def world_holds_def storage_size_def)

lemma thread_view_cfg: "snd (thread_view tid w) = w_cfg w"
  by (auto simp: thread_view_def thread_context_def view_def Let_def split: option.splits)

definition session_inv :: "world \<Rightarrow> packets \<Rightarrow> bool" where
  "session_inv w L \<longleftrightarrow> world_packets w L \<and> \<not> tracingDisabled (w_cfg w) \<and> hostFilename (w_cfg w) \<noteq> None \<and>
     (\<forall>p \<in> set L. packet_ok p)"

lemma thread_exit_cfg [simp]: "w_cfg (thread_exit tid w) = w_cfg w"
  by (auto simp: thread_exit_def Let_def split: option.splits)

lemma session_holds: "session w ops L \<Longrightarrow> \<forall>a \<in> set ops. op_fits a \<Longrightarrow> session_inv w L"
proof (induction rule: session.induct)
  case (enabled w env)
  then have "world_packets (api_enable env w) []"
    by (intro world_packets_cfg [OF enabled(1)])
      (auto simp: api_enable_def enableTracing_def Let_def reset_counters_def)
  moreover have "hostFilename (w_cfg (api_enable env w)) \<noteq> None"
    using enabled(2,3) by (auto simp: api_enable_def enableTracing_def Let_def reset_counters_def split: if_splits)
  ultimately show ?case using enabled(2) by (simp add: session_inv_def)
next
  case (called w ops L a tid ps v w')
  then have inv: "world_packets w L" "\<not> tracingDisabled (w_cfg w)" "hostFilename (w_cfg w) \<noteq> None" "\<forall>p \<in> set L. packet_ok p"
    and fits: "op_fits a" by (simp_all add: session_inv_def)
  from api_trace_step [OF inv(1,2) fits called(2)] called(3)
  have w': "world_packets w' (L @ ps)" "w_cfg w' = snd v" by auto
  have "\<forall>p \<in> set ps. packet_ok p" "same_setup (w_cfg w) (snd v)"
    using spec_call_well_behaved [OF fits, of "thread_view tid w"] called(2)
    unfolding well_behaved_def thread_view_cfg by blast+
  then show ?case using w' inv by (auto simp: session_inv_def same_setup_def)
next
  case (exited w ops L tid)
  then show ?case using thread_exit_step by (simp add: session_inv_def)
qed

lemma api_disable_saves:
  assumes "\<not> tracingDisabled (w_cfg w)" and "hostFilename (w_cfg w) \<noteq> None"
  defines "w1 \<equiv> w\<lparr>w_cfg := (w_cfg w)\<lparr>tracingDisabled := True, saving := False\<rparr>\<rparr>"
  shows "api_disable w = (Some (fst (saveTracesToDisk w1), fst (snd (saveTracesToDisk w1))),
     (snd (snd (saveTracesToDisk w1)))\<lparr>w_cfg := disableTracing_end (w_cfg (snd (snd (saveTracesToDisk w1))))\<rparr>)"
  using assms by (simp add: api_disable_def disableTracing_begin_def split_beta Let_def)

lemma packets_encodable:
  "\<forall>p \<in> set P. packet_ok p \<Longrightarrow> \<forall>f \<in> set (map (PbMsg 1) P). encodable f"
  using packet_ok_encodable by auto

lemma decode_packets:
  assumes "\<forall>p \<in> set P. packet_ok p" and "length (packet_bytes P) < 2 ^ 64"
  shows "represents_all (packet_bytes P) (AllFields (packet_bytes P) 0 (length (packet_bytes P))) (map (PbMsg 1) P)"
proof -
  have "length ([] @ encode_fields (map (PbMsg 1) P)) < 2 ^ 64" using assms(2) by (simp add: packet_bytes_def)
  with reads_back_tree(2) [OF packets_encodable [OF assms(1)]]
  have "represents_all (([] @ packet_bytes P) @ [])
      (AllFields (([] @ packet_bytes P) @ []) (length ([] :: u8 list)) (length ([] @ packet_bytes P))) (map (PbMsg 1) P)"
    unfolding read_back_all_def packet_bytes_def by blast
  then show ?thesis by simp
qed

text \<open>A context as a new thread has it. The two arrays that remember the ids of the open slices keep their contents,
  but none is open.\<close>

definition clean_context :: "tstream \<Rightarrow> bool" where
  "clean_context s \<longleftrightarrow> ctx s = init_TraceContext\<lparr>mCurrentCategoryIid := mCurrentCategoryIid (ctx s),
       mCurrentEventNameIid := mCurrentEventNameIid (ctx s)\<rparr> \<and>
     writer_objs s = [fresh_message]"

definition clean_config :: "VirtualDeviceTraceConfig \<Rightarrow> bool" where
  "clean_config c \<longleftrightarrow> tracingDisabled c \<and> packetsWritten c = 0 \<and> \<not> sequenceIdWritten c \<and> currentInterningId c = 1 \<and>
     currentThreadId c = 1 \<and> guestTimeDiff c = 0"

definition clean_world :: "world \<Rightarrow> bool" where
  "clean_world w \<longleftrightarrow> w_saved w = [] \<and> (\<forall>c \<in> set (w_ctxs w). clean_context (snd c)) \<and> clean_config (w_cfg w)"

lemma save_context_clean: "raw_ok s \<Longrightarrow> clean_context (snd (save_context False s))"
  by (simp add: clean_context_def save_context_def saveLocked_def resetLocked_def root_Reset_def upd_ctx_def raw_ok_def
      init_TraceContext_def Let_def)

lemma save_contexts_clean:
  "\<forall>c \<in> set cs. raw_ok (snd c) \<Longrightarrow> \<forall>c \<in> set (snd (save_contexts cs)). clean_context (snd c)"
  by (induction cs) (auto simp: split_beta save_context_clean)

lemma world_holds_raw: "world_holds w cps kps \<Longrightarrow> c \<in> set (w_ctxs w) \<Longrightarrow> raw_ok (snd c)"
  by (auto simp: world_holds_def context_holds_def list_all2_conv_all_nth in_set_conv_nth)

lemma saveTracesToDisk_clean:
  assumes "world_packets w L"
  shows "w_saved (snd (snd (saveTracesToDisk w))) = []"
    and "\<forall>c \<in> set (w_ctxs (snd (snd (saveTracesToDisk w)))). clean_context (snd c)"
    and "map fst (w_ctxs (snd (snd (saveTracesToDisk w)))) = map fst (w_ctxs w)"
proof -
  have "\<forall>c \<in> set (w_ctxs w). raw_ok (snd c)" using assms world_holds_raw unfolding world_packets_def by blast
  note clean = save_contexts_clean [OF this]
  show "w_saved (snd (snd (saveTracesToDisk w))) = []" "map fst (w_ctxs (snd (snd (saveTracesToDisk w)))) = map fst (w_ctxs w)"
    by (simp_all add: saveTracesToDisk_def save_contexts_fst split_beta Let_def)
  show "\<forall>c \<in> set (w_ctxs (snd (snd (saveTracesToDisk w)))). clean_context (snd c)"
    using clean by (simp add: saveTracesToDisk_def split_beta Let_def)
qed

text \<open>Turning tracing off.\<close>

lemma saved_packets:
  assumes "session w ops L" and "\<forall>a \<in> set ops. op_fits a"
  shows "\<exists>file combine w' P. api_disable w = (Some (file, combine), w') \<and> file = packet_bytes P \<and> mset P = mset L
    \<and> (length file < 2 ^ 64 \<longrightarrow> represents_all file (AllFields file 0 (length file)) (map (PbMsg 1) P))
    \<and> combine = (guestFilename (w_cfg w) \<noteq> None \<and> combinedFilename (w_cfg w) \<noteq> None)
    \<and> world_packets w' [] \<and> clean_world w' \<and> map fst (w_ctxs w') = map fst (w_ctxs w)"
proof -
  have inv: "world_packets w L" "\<not> tracingDisabled (w_cfg w)" "hostFilename (w_cfg w) \<noteq> None" "\<forall>p \<in> set L. packet_ok p"
    using session_holds [OF assms] by (simp_all add: session_inv_def)
  let ?w1 = "w\<lparr>w_cfg := (w_cfg w)\<lparr>tracingDisabled := True, saving := False\<rparr>\<rparr>"
  have w1: "world_packets ?w1 L" by (rule world_packets_cfg [OF inv(1)]) simp_all
  from saveTracesToDisk_packets [OF this] obtain P where P: "fst (saveTracesToDisk ?w1) = packet_bytes P" "mset P = mset L"
    and empty: "world_packets (snd (snd (saveTracesToDisk ?w1))) []" by blast
  have "\<forall>p \<in> set P. packet_ok p" using inv(4) P(2) by (metis set_mset_mset)
  note dec = decode_packets [OF this]
  let ?w' = "(snd (snd (saveTracesToDisk ?w1)))\<lparr>w_cfg := disableTracing_end (w_cfg (snd (snd (saveTracesToDisk ?w1))))\<rparr>"
  have "world_packets ?w' []"
    by (rule world_packets_cfg [OF empty]) (simp_all add: disableTracing_end_def reset_counters_def)
  moreover have "clean_config (w_cfg ?w')"
    by (simp add: saveTracesToDisk_def clean_config_def split_beta Let_def disableTracing_end_def reset_counters_def)
  then have "clean_world ?w'" "map fst (w_ctxs ?w') = map fst (w_ctxs w)"
    using saveTracesToDisk_clean [OF w1] by (simp_all add: clean_world_def)
  moreover have "fst (snd (saveTracesToDisk ?w1)) = (guestFilename (w_cfg w) \<noteq> None \<and> combinedFilename (w_cfg w) \<noteq> None)"
    by (simp add: saveTracesToDisk_def split_beta Let_def)
  ultimately show ?thesis
    using api_disable_saves [OF inv(2,3)] P dec by (intro exI conjI) (assumption | simp)+
qed

subsection \<open>Properties\<close>

text \<open>The world in which the witnesses trace: a host file name is set, then tracing is enabled.\<close>

definition demo_world :: world where
  "demo_world = api_enable \<lparr>env_host = Some ''h.trace'', env_guest = None, env_combined = Some ''''\<rparr> init_world"

lemma demo_session: "session demo_world [] []"
  unfolding demo_world_def
proof (rule session.enabled [OF init_world_packets])
  show "\<not> tracingDisabled (w_cfg (api_enable \<lparr>env_host = Some ''h.trace'', env_guest = None, env_combined = Some ''''\<rparr> init_world))"
    by code_simp
  show "tracingDisabled (w_cfg init_world)" by code_simp
qed

lemma demo_begin:
  "map_option fst (spec_call (Begin 5 (100, [97])) (thread_view 7 demo_world)) =
     Some [start_packet, category_packet 1, thread_packet 2, name_packet 2 (100, [97]), begin_packet 5 2 1 2]"
  by code_simp

text \<open>C6 calls_recorded: while tracing is on, a thread's call whose abstract counterpart succeeds returns, in any world reached
  by any interleaving of calls and thread exits, and adds exactly the abstract packets to the buffers, provided that the
  names of this call and of those before it are shorter than 128 bytes.\<close>
theorem calls_recorded:
  assumes "session w ops L" and "\<forall>b \<in> set ops. op_fits b" and "op_fits a" and "spec_call a (thread_view tid w) = Some (ps, v)"
  shows "\<exists>w'. api_trace tid a w = Some w' \<and> session w' (ops @ [a]) (L @ ps) \<and> world_packets w' (L @ ps) \<and> w_cfg w' = snd v"
proof -
  have inv: "world_packets w L" "\<not> tracingDisabled (w_cfg w)"
    using session_holds [OF assms(1,2)] by (simp_all add: session_inv_def)
  from api_trace_step [OF inv assms(3,4)] session.called [OF assms(1,4)] show ?thesis by blast
qed

theorem calls_recorded_witness:
  "\<exists>w'. api_trace 7 (Begin 5 (100, [97])) demo_world = Some w' \<and>
     world_packets w' [start_packet, category_packet 1, thread_packet 2, name_packet 2 (100, [97]), begin_packet 5 2 1 2]"
proof -
  have fits: "op_fits (Begin 5 (100, [97]))" by (simp add: name_fits_def)
  obtain v where "spec_call (Begin 5 (100, [97])) (thread_view 7 demo_world) =
     Some ([start_packet, category_packet 1, thread_packet 2, name_packet 2 (100, [97]), begin_packet 5 2 1 2], v)"
    using demo_begin by auto
  from calls_recorded [OF demo_session _ fits this] show ?thesis by auto
qed

text \<open>C1 saved_trace_complete: in a session whose names are shorter than 128 bytes, turning tracing off writes every packet of
  the session, from all threads, living or exited, to the host file, each exactly once and whole: the file is the
  concatenation of framed packets that are a rearrangement of those emitted, and the decoder reads them back.
  Afterwards the world is clean: no buffer or packet is left, every context is as that of a new thread (no
  interned names, counters, thread id, open slices or time difference, and no packet begun) and the shared counters
  have their initial values, so that the next session starts anew.\<close>
theorem saved_trace_complete:
  assumes "session w ops L" and "\<forall>a \<in> set ops. op_fits a"
  shows "\<exists>file combine w' P. api_disable w = (Some (file, combine), w') \<and> file = packet_bytes P \<and> mset P = mset L
    \<and> (length file < 2 ^ 64 \<longrightarrow> represents_all file (AllFields file 0 (length file)) (map (PbMsg 1) P))
    \<and> combine = (guestFilename (w_cfg w) \<noteq> None \<and> combinedFilename (w_cfg w) \<noteq> None)
    \<and> world_packets w' [] \<and> clean_world w' \<and> map fst (w_ctxs w') = map fst (w_ctxs w)"
  using saved_packets [OF assms] .

theorem saved_trace_complete_witness:
  "\<exists>w1 file w2 P. api_trace 7 (Begin 5 (100, [97])) demo_world = Some w1 \<and>
     api_disable w1 = (Some (file, False), w2) \<and> file = packet_bytes P \<and>
     mset P = mset [start_packet, category_packet 1, thread_packet 2, name_packet 2 (100, [97]), begin_packet 5 2 1 2] \<and>
     w_ctxs w1 \<noteq> [] \<and> clean_world w2 \<and> map fst (w_ctxs w2) = map fst (w_ctxs w1)"
proof -
  have fits: "op_fits (Begin 5 (100, [97]))" by (simp add: name_fits_def)
  obtain v where v: "spec_call (Begin 5 (100, [97])) (thread_view 7 demo_world) =
     Some ([start_packet, category_packet 1, thread_packet 2, name_packet 2 (100, [97]), begin_packet 5 2 1 2], v)"
    using demo_begin by auto
  have inv: "world_packets demo_world []" "\<not> tracingDisabled (w_cfg demo_world)"
    using session_holds [OF demo_session] by (simp_all add: session_inv_def)
  from api_trace_step [OF inv fits v] obtain w1 where w1: "api_trace 7 (Begin 5 (100, [97])) demo_world = Some w1"
    "w_cfg w1 = snd v" by blast
  have "same_setup (w_cfg demo_world) (snd v)"
    using spec_call_well_behaved [OF fits, of "thread_view 7 demo_world"] v thread_view_cfg [of 7 demo_world]
    unfolding well_behaved_def by metis
  moreover have "guestFilename (w_cfg demo_world) = None" by code_simp
  ultimately have g: "guestFilename (w_cfg w1) = None" using w1(2) by (simp add: same_setup_def)
  have "w_ctxs w1 \<noteq> []"
    using w1(1) inv(2) by (auto simp: api_trace_def run_thread_def thread_context_def storage_add_def split_beta Let_def bind_eq_Some_conv
      split: option.splits if_splits dest: arg_cong [of _ _ "map fst"])
  with saved_trace_complete [OF session.called [OF demo_session v w1(1)]] w1(1) g fits show ?thesis by auto
qed

end
