(* ===== verification/Trace_Interning.thy ===== *)
theory Trace_Interning
  imports Trace_Semantics Trace_Storage
begin

section \<open>Interned names\<close>

text \<open>
  A begin event carries an id; the name is in an earlier packet of the same sequence. The reader
  keeps the table of announced ids. The tracer keys its own table by the address of the name, so the
  theorem needs that an address keeps its contents (\<open>contents_of\<close>).
\<close>

subsection \<open>The reader\<close>

fun bytes_field :: "u32 \<Rightarrow> pb_field list \<Rightarrow> u8 list option" where
  "bytes_field i [] = None"
| "bytes_field i (PbBytes j v # fs) = (if j = i then Some v else bytes_field i fs)"
| "bytes_field i (f # fs) = bytes_field i fs"

fun announce :: "pb_field list list \<Rightarrow> (u64 \<rightharpoonup> u8 list) \<Rightarrow> (u64 \<rightharpoonup> u8 list)" where
  "announce [] tab = tab"
| "announce (e # es) tab =
     announce es (case (varint_field 1 e, bytes_field 2 e) of (Some i, Some n) \<Rightarrow> tab(i \<mapsto> n) | _ \<Rightarrow> tab)"

definition announced :: "pb_field list \<Rightarrow> (u64 \<rightharpoonup> u8 list) \<Rightarrow> (u64 \<rightharpoonup> u8 list)" where
  "announced p = announce (concat (map (message_fields 2) (message_fields 12 p)))"

definition begun_name :: "pb_field list \<Rightarrow> (u64 \<rightharpoonup> u8 list) \<Rightarrow> u8 list option list" where
  "begun_name p tab = (case slice_event p of Some (True, _, _, Some i) \<Rightarrow> [tab i] | _ \<Rightarrow> [])"

text \<open>The names of the slices begun, as resolved through the table so far.\<close>

fun begun_names :: "packets \<Rightarrow> (u64 \<rightharpoonup> u8 list) \<Rightarrow> u8 list option list \<times> (u64 \<rightharpoonup> u8 list)" where
  "begun_names [] tab = ([], tab)"
| "begun_names (p # ps) tab =
     (let tab1 = announced p tab; (ns, tab2) = begun_names ps tab1 in (begun_name p tab1 @ ns, tab2))"

lemma begun_names_append:
  "begun_names (ps @ qs) tab =
     (let (ns, tab1) = begun_names ps tab; (ms, tab2) = begun_names qs tab1 in (ns @ ms, tab2))"
  by (induction ps arbitrary: tab) (simp_all add: split_beta Let_def)

lemma announced_simps [simp]:
  "announced start_packet tab = tab" "announced (category_packet iid) tab = tab"
  "announced (thread_packet tid) tab = tab" "announced (name_packet iid name) tab = tab(ucast iid \<mapsto> snd name)"
  "announced (counter_packet t uuid val) tab = tab" "announced (counter_track_packet uuid tid name) tab = tab"
  "announced (begin_packet t tid category event) tab = tab" "announced (end_packet t tid category event) tab = tab"
  by (simp_all add: announced_def start_packet_def category_packet_def thread_packet_def name_packet_def
      counter_packet_def counter_track_packet_def begin_packet_def end_packet_def packet_defs)

lemma begun_name_simps [simp]:
  "begun_name start_packet tab = []" "begun_name (category_packet iid) tab = []"
  "begun_name (thread_packet tid) tab = []" "begun_name (name_packet iid name) tab = []"
  "begun_name (counter_packet t uuid val) tab = []" "begun_name (counter_track_packet uuid tid name) tab = []"
  "begun_name (begin_packet t tid category event) tab = [tab (ucast event)]"
  "begun_name (end_packet t tid category event) tab = []"
  by (simp_all add: begun_name_def)

subsection \<open>The tables agree\<close>

definition names_inv :: "(nat \<Rightarrow> u8 list) \<Rightarrow> tview \<Rightarrow> (u64 \<rightharpoonup> u8 list) \<Rightarrow> nat \<Rightarrow> bool" where
  "names_inv contents_of v tab k \<longleftrightarrow>
     (\<forall>key i. mEventNameInterningIds (fst v) key = Some i \<longrightarrow>
        tab (ucast i) = Some (contents_of key) \<and> unat i < unat (currentInterningId (snd v))) \<and>
     unat (currentInterningId (snd v)) + k < 2 ^ 32"

text \<open>\<open>reads f k ns v r\<close>: the step uses at most \<open>k\<close> new ids and the reader sees slices with the names \<open>ns\<close> begin.\<close>

definition reads :: "(nat \<Rightarrow> u8 list) \<Rightarrow> nat \<Rightarrow> u8 list list \<Rightarrow> tview \<Rightarrow> (packets \<times> tview) option \<Rightarrow> bool" where
  "reads f k ns v r \<longleftrightarrow> (\<forall>ps v' tab n. r = Some (ps, v') \<longrightarrow> names_inv f v tab (k + n) \<longrightarrow>
     (\<exists>tab'. begun_names ps tab = (map Some ns, tab') \<and> names_inv f v' tab' n))"

lemma reads_wbind:
  assumes "reads f k ns v r" and "\<And>u. reads f m ms u (h u)"
  shows "reads f (k + m) (ns @ ms) v (wbind r h)"
  unfolding reads_def
proof (intro allI impI)
  fix ps v' tab n
  assume w: "wbind r h = Some (ps, v')" and inv: "names_inv f v tab (k + m + n)"
  then obtain ps1 u ps2 where u: "r = Some (ps1, u)" "h u = Some (ps2, v')" "ps = ps1 @ ps2"
    by (auto simp: wbind_Some)
  from assms(1) u(1) inv obtain tab1 where 1: "begun_names ps1 tab = (map Some ns, tab1)" "names_inv f u tab1 (m + n)"
    unfolding reads_def by (metis add.assoc)
  from assms(2) [of u] u(2) 1(2) obtain tab2 where "begun_names ps2 tab1 = (map Some ms, tab2)" "names_inv f v' tab2 n"
    unfolding reads_def by blast
  with 1 u(3) show "\<exists>tab'. begun_names ps tab = (map Some (ns @ ms), tab') \<and> names_inv f v' tab' n"
    by (simp add: begun_names_append)
qed

lemma unat_next_id: "unat (i :: u32) + Suc k < 2 ^ 32 \<Longrightarrow> unat (i + 1) = unat i + 1"
  by (simp add: unat_add_lem [THEN iffD1])

lemma reads_sequence: "reads f 0 [] v (spec_sequence v)"
  by (auto simp: reads_def spec_sequence_def names_inv_def Let_def split: prod.splits if_splits)

lemma reads_thread: "reads f 0 [] v (spec_thread v)"
  by (auto simp: reads_def spec_thread_def names_inv_def Let_def split: prod.splits if_splits)

lemma reads_category: "reads f 1 [] v (spec_category v)"
  unfolding reads_def
proof (intro allI impI)
  fix ps v' tab n
  assume s: "spec_category v = Some (ps, v')" and inv: "names_inv f v tab (1 + n)"
  obtain x c where v: "v = (x, c)" by fastforce
  have nxt: "unat (currentInterningId c + 1) = unat (currentInterningId c) + 1"
    using inv unat_next_id [of "currentInterningId c" n] by (simp add: names_inv_def v)
  have "mEventNameInterningIds (fst v') = mEventNameInterningIds x"
    and "currentInterningId (snd v') = currentInterningId c \<or> currentInterningId (snd v') = currentInterningId c + 1"
    and "begun_names ps tab = ([], tab)"
    using s by (auto simp: spec_category_def v intern_def Let_def split: if_splits option.splits)
  with inv nxt show "\<exists>tab'. begun_names ps tab = (map Some [], tab') \<and> names_inv f v' tab' n"
    by (auto simp: names_inv_def v less_Suc_eq)
qed

lemma reads_info: "reads f 1 [] v (spec_info v)"
  using reads_wbind [OF reads_wbind [OF reads_sequence reads_category] reads_thread, of f v]
  by (simp add: spec_info_def)

text \<open>\<open>spec_name\<close> followed by \<open>spec_slice_begin\<close>.\<close>

lemma reads_name_slice:
  assumes name: "f (fst name) = snd name"
  shows "reads f 1 [snd name] v (wbind (spec_name name v) (spec_slice_begin ts))"
  unfolding reads_def
proof (intro allI impI)
  fix ps v' tab n
  assume w: "wbind (spec_name name v) (spec_slice_begin ts) = Some (ps, v')" and inv: "names_inv f v tab (1 + n)"
  obtain x c where v: "v = (x, c)" by fastforce
  let ?d = "mStackDepth x"
  obtain iid new t nxt where i: "intern (mEventNameInterningIds x) (fst name) (currentInterningId c) = (iid, new, t, nxt)"
    by (cases "intern (mEventNameInterningIds x) (fst name) (currentInterningId c)") auto
  let ?y = "x\<lparr>mEventNameInterningIds := t, mCurrentEventNameIid := (mCurrentEventNameIid x)[?d := iid]\<rparr>"
  from w i have ps: "ps = (if new then [name_packet iid name] else []) @
      [begin_packet (ts + guestTimeDiff c) (mThreadId x) (mCurrentCategoryIid x ! ?d) iid]"
    and v': "v' = (?y\<lparr>mStackDepth := Suc ?d\<rparr>, c\<lparr>currentInterningId := nxt\<rparr>)"
    by (auto simp: wbind_Some spec_name_def spec_slice_begin_def v split: if_splits)
  show "\<exists>tab'. begun_names ps tab = (map Some [snd name], tab') \<and> names_inv f v' tab' n"
  proof (cases "mEventNameInterningIds x (fst name)")
    case (Some j)
    with i have e: "iid = j" "\<not> new" "t = mEventNameInterningIds x" "nxt = currentInterningId c" by (auto simp: intern_def)
    from inv Some have "tab (ucast j) = Some (snd name)" by (simp add: names_inv_def v name)
    then have "begun_names ps tab = ([Some (snd name)], tab)" using e by (simp add: ps)
    moreover have "names_inv f v' tab n" using inv by (simp add: names_inv_def v v' e)
    ultimately show ?thesis by simp
  next
    case None
    with i have e: "iid = currentInterningId c" "new" "t = (mEventNameInterningIds x)(fst name \<mapsto> currentInterningId c)"
      "nxt = currentInterningId c + 1" by (auto simp: intern_def)
    let ?tab = "tab(ucast (currentInterningId c) \<mapsto> snd name)"
    have nx: "unat (currentInterningId c + 1) = unat (currentInterningId c) + 1"
      using inv unat_next_id [of "currentInterningId c" n] by (simp add: names_inv_def v)
    have old: "?tab (ucast i) = Some (f key) \<and> unat i < unat (currentInterningId c)"
      if "mEventNameInterningIds x key = Some i" for key i
    proof -
      from that inv have b: "tab (ucast i) = Some (f key)" "unat i < unat (currentInterningId c)"
        by (auto simp: names_inv_def v)
      then have "(ucast i :: u64) \<noteq> ucast (currentInterningId c)"
        by (metis less_irrefl unat_ucast_u32)
      with b show ?thesis by simp
    qed
    have "begun_names ps tab = ([Some (snd name)], ?tab)" using e by (simp add: ps)
    moreover have "names_inv f v' ?tab n"
      using old inv nx name by (auto simp: names_inv_def v v' e less_Suc_eq)
    ultimately show ?thesis by simp
  qed
qed

lemma wbind_assoc: "wbind (wbind r f) g = wbind r (\<lambda>u. wbind (f u) g)"
  by (simp add: wbind_def option.map_comp comp_def case_prod_unfold split: option.split)

lemma reads_nothing: "reads f k [] v (Some ([], v))"
  by (auto simp: reads_def names_inv_def)

lemma reads_more: "reads f k ns v r \<Longrightarrow> k \<le> m \<Longrightarrow> reads f m ns v r"
  unfolding reads_def
proof (intro allI impI)
  fix ps v' tab n
  assume r: "\<forall>ps v' tab n. r = Some (ps, v') \<longrightarrow> names_inv f v tab (k + n) \<longrightarrow>
     (\<exists>tab'. begun_names ps tab = (map Some ns, tab') \<and> names_inv f v' tab' n)"
    and "k \<le> m" "r = Some (ps, v')" "names_inv f v tab (m + n)"
  moreover from this have "names_inv f v tab (k + n)" by (auto simp: names_inv_def)
  ultimately show "\<exists>tab'. begun_names ps tab = (map Some ns, tab') \<and> names_inv f v' tab' n" by blast
qed

text \<open>Which slices begin depends on how many are open.\<close>

fun op_names :: "trace_op \<Rightarrow> nat \<Rightarrow> u8 list list" where
  "op_names (Begin ts name) d = (if d = TRACE_STACK_DEPTH_MAX then [] else [snd name])"
| "op_names a d = []"

fun next_depth :: "trace_op \<Rightarrow> nat \<Rightarrow> nat" where
  "next_depth (Begin ts name) d = (if d = TRACE_STACK_DEPTH_MAX then d else Suc d)"
| "next_depth (End ts) d = (if d = TRACE_STACK_DEPTH_MAX then d else d - 1)"
| "next_depth (Counter ts name val) d = d"

fun calls_names :: "trace_op list \<Rightarrow> nat \<Rightarrow> u8 list list" where
  "calls_names [] d = []"
| "calls_names (a # as) d = op_names a d @ calls_names as (next_depth a d)"

fun op_contents :: "(nat \<Rightarrow> u8 list) \<Rightarrow> trace_op \<Rightarrow> bool" where
  "op_contents f (Begin ts name) = (f (fst name) = snd name)"
| "op_contents f a = True"

lemma reads_counter: "reads f 0 [] v (spec_counter ts name val v)"
  by (auto simp: reads_def spec_counter_def names_inv_def Let_def split: prod.splits if_splits)

lemma reads_end: "reads f 0 [] v (spec_endTrace ts v)"
  by (auto simp: reads_def spec_endTrace_def names_inv_def Let_def split: prod.splits if_splits)

lemma reads_call:
  assumes "op_contents f a" and "\<not> tracingDisabled (snd v)"
  shows "reads f 2 (op_names a (mStackDepth (fst v))) v (spec_call a v)"
proof (cases a)
  case (Begin ts name)
  have "f (fst name) = snd name" using assms(1) Begin by simp
  then have "reads f (1 + 1) ([] @ [snd name]) v (wbind (spec_info v) (\<lambda>u. wbind (spec_name name u) (spec_slice_begin ts)))"
    by (intro reads_wbind [OF reads_info] reads_name_slice [where f = f and name = name])
  with reads_nothing [of f 2 v] show ?thesis
    using assms(2) Begin by (auto simp: spec_beginTrace_def wbind_assoc numeral_2_eq_2 split: prod.splits)
next
  case (End ts)
  then show ?thesis using reads_more [OF reads_end, of 2] by simp
next
  case (Counter ts name val)
  have "reads f (1 + 0) ([] @ []) v (wbind (spec_info v) (spec_counter ts name val))"
    by (intro reads_wbind reads_info reads_counter)
  then have "reads f 2 [] v (wbind (spec_info v) (spec_counter ts name val))" using reads_more [of f 1] by simp
  then show ?thesis using assms(2) Counter by (auto simp: spec_traceCounter_def split: prod.splits)
qed

lemma depth_parts:
  "spec_sequence v = Some (ps, v') \<Longrightarrow> mStackDepth (fst v') = mStackDepth (fst v)"
  "spec_category v = Some (ps, v') \<Longrightarrow> mStackDepth (fst v') = mStackDepth (fst v)"
  "spec_thread v = Some (ps, v') \<Longrightarrow> mStackDepth (fst v') = mStackDepth (fst v)"
  by (auto simp: spec_sequence_def spec_category_def spec_thread_def Let_def split: prod.splits if_splits)

lemma depth_info:
  assumes "spec_info v = Some (ps, v')"
  shows "mStackDepth (fst v') = mStackDepth (fst v)"
proof -
  from assms obtain p1 u1 p2 u2 p3 where "spec_sequence v = Some (p1, u1)" "spec_category u1 = Some (p2, u2)"
    "spec_thread u2 = Some (p3, v')"
    unfolding spec_info_def wbind_Some by blast
  then show ?thesis using depth_parts by metis
qed

lemma depth_call:
  assumes "spec_call a v = Some (ps, v')" and on: "\<not> tracingDisabled (snd v)"
  shows "mStackDepth (fst v') = next_depth a (mStackDepth (fst v))"
proof (cases a)
  case (Begin ts name)
  show ?thesis
  proof (cases "mStackDepth (fst v) = TRACE_STACK_DEPTH_MAX")
    case False
    with assms Begin obtain p1 u1 p2 u2 p3 where "spec_info v = Some (p1, u1)" "spec_name name u1 = Some (p2, u2)"
      "spec_slice_begin ts u2 = Some (p3, v')"
      by (cases v) (auto simp: spec_beginTrace_def wbind_Some)
    moreover from this have "mStackDepth (fst u2) = mStackDepth (fst v)" using depth_info [of v p1 u1]
      by (auto simp: spec_name_def Let_def split: prod.splits if_splits)
    ultimately show ?thesis using Begin False
      by (auto simp: spec_slice_begin_def split: prod.splits if_splits)
  qed (use assms Begin in \<open>auto simp: spec_beginTrace_def split: prod.splits\<close>)
next
  case (End ts)
  then show ?thesis using assms
    by (cases v) (auto simp: spec_endTrace_def Let_def split: if_splits)
next
  case (Counter ts name val)
  then obtain p1 u1 p2 where "spec_info v = Some (p1, u1)" "spec_counter ts name val u1 = Some (p2, v')"
    using assms by (cases v) (auto simp: spec_traceCounter_def wbind_Some)
  then show ?thesis using Counter depth_info [of v p1 u1]
    by (auto simp: spec_counter_def Let_def split: prod.splits if_splits)
qed

lemma reads_calls:
  "\<forall>a \<in> set as. op_contents f a \<and> op_fits a \<Longrightarrow> \<not> tracingDisabled (snd v) \<Longrightarrow>
     reads f (2 * length as) (calls_names as (mStackDepth (fst v))) v (spec_calls as v)"
proof (induction as arbitrary: v)
  case Nil
  then show ?case using reads_nothing by simp
next
  case (Cons a as)
  have c: "reads f 2 (op_names a (mStackDepth (fst v))) v (spec_call a v)" using Cons.prems by (intro reads_call) simp_all
  show ?case
    unfolding reads_def
  proof (intro allI impI)
    fix ps v' tab n
    assume w: "spec_calls (a # as) v = Some (ps, v')" and inv: "names_inv f v tab (2 * length (a # as) + n)"
    then obtain ps1 u ps2 where u: "spec_call a v = Some (ps1, u)" "spec_calls as u = Some (ps2, v')" "ps = ps1 @ ps2"
      by (auto simp: wbind_Some)
    have inv2: "names_inv f v tab (2 + (2 * length as + n))" using inv by simp
    from c u(1) inv2 obtain tab1 where
      1: "begun_names ps1 tab = (map Some (op_names a (mStackDepth (fst v))), tab1)" "names_inv f u tab1 (2 * length as + n)"
      unfolding reads_def by blast
    have "\<not> tracingDisabled (snd u)"
      using spec_call_well_behaved [of a v] Cons.prems u(1) unfolding well_behaved_def same_setup_def
      by (metis list.set_intros(1) snd_conv)
    from Cons.IH [OF _ this] Cons.prems u(2) 1(2) obtain tab2 where
      "begun_names ps2 tab1 = (map Some (calls_names as (mStackDepth (fst u))), tab2)" "names_inv f v' tab2 n"
      unfolding reads_def by (metis list.set_intros(2))
    with 1 u(3) depth_call [OF u(1) Cons.prems(2)]
    show "\<exists>tab'. begun_names ps tab = (map Some (calls_names (a # as) (mStackDepth (fst v))), tab') \<and> names_inv f v' tab' n"
      by (simp add: begun_names_append)
  qed
qed

lemma same_setup_trans: "same_setup a b \<Longrightarrow> same_setup b c \<Longrightarrow> same_setup a c"
  by (simp add: same_setup_def)

lemma well_behaved_calls: "\<forall>a \<in> set as. op_fits a \<Longrightarrow> well_behaved v (spec_calls as v)"
proof (induction as arbitrary: v)
  case (Cons a as)
  show ?case
    unfolding well_behaved_def
  proof (intro allI impI)
    fix ps v'
    assume "spec_calls (a # as) v = Some (ps, v')"
    then obtain ps1 u ps2 where u: "spec_call a v = Some (ps1, u)" "spec_calls as u = Some (ps2, v')" "ps = ps1 @ ps2"
      by (auto simp: wbind_Some)
    have "well_behaved v (spec_call a v)" "well_behaved u (spec_calls as u)"
      using spec_call_well_behaved Cons by simp_all
    with u show "(\<forall>p \<in> set ps. packet_ok p) \<and> same_setup (snd v) (snd v')"
      using same_setup_trans unfolding well_behaved_def u(3) set_append by blast
  qed
qed (simp add: well_behaved_nothing)

subsection \<open>The calls return\<close>

text \<open>The sequence-id flag is set once the first packet was counted.\<close>

definition sequence_ok :: "VirtualDeviceTraceConfig \<Rightarrow> bool" where
  "sequence_ok c \<longleftrightarrow> packetsWritten c = 0 \<or> sequenceIdWritten c"

fun counters_have_room :: "trace_op list \<Rightarrow> nat \<Rightarrow> bool" where
  "counters_have_room [] d = True"
| "counters_have_room (Counter ts name val # as) d = (d < TRACE_STACK_DEPTH_MAX \<and> counters_have_room as d)"
| "counters_have_room (a # as) d = counters_have_room as (next_depth a d)"

definition call_state :: "tview \<Rightarrow> bool" where
  "call_state v \<longleftrightarrow> sequence_ok (snd v) \<and> stack_inv (fst v)"

lemma info_returns:
  assumes "call_state v"
  shows "if mStackDepth (fst v) < TRACE_STACK_DEPTH_MAX
    then \<exists>ps u. spec_info v = Some (ps, u) \<and> mStackDepth (fst u) = mStackDepth (fst v) \<and> sequenceIdWritten (snd u) \<and>
      length (mCurrentCategoryIid (fst u)) = TRACE_STACK_DEPTH_MAX \<and> length (mCurrentEventNameIid (fst u)) = TRACE_STACK_DEPTH_MAX
    else spec_info v = None"
proof -
  obtain x c where v: "v = (x, c)" by fastforce
  have len: "length (mCurrentCategoryIid x) = TRACE_STACK_DEPTH_MAX" "length (mCurrentEventNameIid x) = TRACE_STACK_DEPTH_MAX"
    using assms by (simp_all add: call_state_def stack_inv_def v)
  obtain ps c' where s: "spec_sequence v = Some (ps, x, c')" and on: "sequenceIdWritten c'"
    using assms by (cases "packetsWritten c = 0") (auto simp: spec_sequence_def call_state_def sequence_ok_def v Let_def)
  show ?thesis
  proof (cases "mStackDepth x < TRACE_STACK_DEPTH_MAX")
    case True
    with len obtain qs y d where c: "spec_category (x, c') = Some (qs, y, d)" and y: "mStackDepth y = mStackDepth x"
      "length (mCurrentCategoryIid y) = TRACE_STACK_DEPTH_MAX" "length (mCurrentEventNameIid y) = TRACE_STACK_DEPTH_MAX"
      "sequenceIdWritten d"
      using on by (auto simp: spec_category_def Let_def split_beta)
    obtain rs z e where t: "spec_thread (y, d) = Some (rs, z, e)" "mStackDepth z = mStackDepth y"
      "mCurrentCategoryIid z = mCurrentCategoryIid y" "mCurrentEventNameIid z = mCurrentEventNameIid y"
      "sequenceIdWritten e = sequenceIdWritten d"
      by (cases "mNeedToSetThreadId y") (auto simp: spec_thread_def Let_def)
    have "spec_info v = Some ((ps @ qs) @ rs, z, e)"
      unfolding spec_info_def wbind_def by (simp add: s c t)
    with t(2-) y True show ?thesis by (simp add: v)
  next
    case False
    with len have "spec_category (x, c') = None" by (auto simp: spec_category_def split_beta)
    then have "spec_info v = None" unfolding spec_info_def wbind_def by (simp add: s)
    with False show ?thesis by (simp add: v)
  qed
qed

lemma spec_calls_one: "spec_calls [a] v = spec_call a v"
  by (auto simp: wbind_def map_option_case split: option.splits)

lemma call_returns:
  assumes ok: "call_state v" and on: "\<not> tracingDisabled (snd v)"
  shows "spec_call a v = None \<longleftrightarrow> (\<exists>ts name val. a = Counter ts name val) \<and> mStackDepth (fst v) = TRACE_STACK_DEPTH_MAX"
    and "spec_call a v = Some (ps, v') \<Longrightarrow> sequence_ok (snd v')"
proof -
  have d: "mStackDepth (fst v) \<le> TRACE_STACK_DEPTH_MAX" using ok by (simp add: call_state_def stack_inv_def)
  have info: "\<exists>ps u. spec_info v = Some (ps, u) \<and> mStackDepth (fst u) = mStackDepth (fst v) \<and> sequenceIdWritten (snd u) \<and>
      length (mCurrentCategoryIid (fst u)) = TRACE_STACK_DEPTH_MAX \<and> length (mCurrentEventNameIid (fst u)) = TRACE_STACK_DEPTH_MAX"
    if "mStackDepth (fst v) \<noteq> TRACE_STACK_DEPTH_MAX"
    using info_returns [OF ok] that d by simp
  have "(spec_call a v = None \<longleftrightarrow> (\<exists>ts name val. a = Counter ts name val) \<and> mStackDepth (fst v) = TRACE_STACK_DEPTH_MAX) \<and>
      (spec_call a v = Some (ps, v') \<longrightarrow> sequence_ok (snd v'))"
  proof (cases a)
    case (Begin ts name)
    show ?thesis
    proof (cases "mStackDepth (fst v) = TRACE_STACK_DEPTH_MAX")
      case True
      then have "spec_call a v = Some ([], v)" using Begin by (auto simp: spec_beginTrace_def split: prod.splits)
      with ok Begin show ?thesis by (auto simp: call_state_def)
    next
      case False
      from info [OF this] obtain p1 u where u: "spec_info v = Some (p1, u)" "mStackDepth (fst u) = mStackDepth (fst v)"
        "sequenceIdWritten (snd u)" "length (mCurrentCategoryIid (fst u)) = TRACE_STACK_DEPTH_MAX"
        "length (mCurrentEventNameIid (fst u)) = TRACE_STACK_DEPTH_MAX" by blast
      have room: "mStackDepth (fst u) < TRACE_STACK_DEPTH_MAX" using False d u(2) by simp
      then obtain p2 w where w: "spec_name name u = Some (p2, w)" "mStackDepth (fst w) = mStackDepth (fst u)"
        "sequenceIdWritten (snd w)" "length (mCurrentCategoryIid (fst w)) = TRACE_STACK_DEPTH_MAX"
        "length (mCurrentEventNameIid (fst w)) = TRACE_STACK_DEPTH_MAX"
        using u(3-) by (auto simp: spec_name_def Let_def split_beta)
      obtain p3 z where z: "spec_slice_begin ts w = Some (p3, z)" "sequenceIdWritten (snd z)"
        using w(2-) room by (auto simp: spec_slice_begin_def split_beta)
      have "spec_call a v = Some ((p1 @ p2) @ p3, z)"
        using on False Begin u(1) w(1) z(1) by (auto simp: spec_beginTrace_def wbind_def split: prod.splits)
      with z(2) Begin show ?thesis by (auto simp: sequence_ok_def)
    qed
  next
    case (End ts)
    then show ?thesis using ok
      by (auto simp: spec_endTrace_def call_state_def stack_inv_def Let_def split: prod.splits if_splits)
  next
    case (Counter ts name val)
    then have c: "spec_call a v = wbind (spec_info v) (spec_counter ts name val)"
      using on by (auto simp: spec_traceCounter_def split: prod.splits)
    show ?thesis
    proof (cases "mStackDepth (fst v) = TRACE_STACK_DEPTH_MAX")
      case True
      then have "spec_info v = None" using info_returns [OF ok] by simp
      with c Counter True show ?thesis by (simp add: wbind_def)
    next
      case False
      from info [OF this] obtain p1 x c' where u: "spec_info v = Some (p1, x, c')" "sequenceIdWritten c'" by auto
      have "\<exists>qs y. spec_counter ts name val (x, c') = Some (qs, y, c')" by (simp add: spec_counter_def Let_def)
      with u c False show ?thesis by (auto simp: wbind_def sequence_ok_def)
    qed
  qed
  then show "spec_call a v = None \<longleftrightarrow> (\<exists>ts name val. a = Counter ts name val) \<and> mStackDepth (fst v) = TRACE_STACK_DEPTH_MAX"
    and "spec_call a v = Some (ps, v') \<Longrightarrow> sequence_ok (snd v')" by simp_all
qed

lemma calls_return:
  assumes "call_state v" and "\<not> tracingDisabled (snd v)" and "\<forall>a \<in> set as. op_fits a"
  shows "spec_calls as v \<noteq> None \<longleftrightarrow> counters_have_room as (mStackDepth (fst v))"
  using assms
proof (induction as arbitrary: v)
  case (Cons a as)
  show ?case
  proof (cases "spec_call a v")
    case None
    with call_returns(1) [OF Cons.prems(1,2), of a] show ?thesis by (auto simp: wbind_def)
  next
    case (Some r)
    obtain ps u where r: "r = (ps, u)" by (metis surj_pair)
    have d: "mStackDepth (fst u) = next_depth a (mStackDepth (fst v))"
      using depth_call [OF Some [unfolded r] Cons.prems(2)] .
    have "\<not> tracingDisabled (snd u)"
      using spec_call_well_behaved [of a v] Cons.prems(2,3) Some r unfolding well_behaved_def same_setup_def
      by (metis list.set_intros(1))
    moreover have "call_state u"
      using nests_calls [of v "[a]"] call_returns(2) [OF Cons.prems(1,2) Some [unfolded r]] Some r Cons.prems(1)
      spec_calls_one [of a v]
      unfolding nests_def call_state_def by (cases u) simp
    ultimately have "spec_calls as u \<noteq> None \<longleftrightarrow> counters_have_room as (next_depth a (mStackDepth (fst v)))"
      using Cons.IH [of u] Cons.prems(3) d by simp
    moreover have "counters_have_room (a # as) (mStackDepth (fst v)) \<longleftrightarrow>
        counters_have_room as (next_depth a (mStackDepth (fst v)))"
      using call_returns(1) [OF Cons.prems(1,2), of a] Cons.prems(1) Some
      by (cases a) (auto simp: call_state_def stack_inv_def)
    moreover have "spec_calls (a # as) v \<noteq> None \<longleftrightarrow> spec_calls as u \<noteq> None"
      using Some r by (auto simp: wbind_def)
    ultimately show ?thesis by simp
  qed
qed simp

subsection \<open>Properties\<close>

text \<open>The buffered calls on a fresh context, by their abstract counterparts.\<close>

lemma fresh_calls:
  assumes "neededSpace \<le> storage_size c" and "\<forall>a \<in> set as. op_fits a"
  shows "trace_calls gnb as (new_tracer c sv) = None \<longleftrightarrow> spec_calls as (init_TraceContext, c) = None"
    and "trace_calls gnb as (new_tracer c sv) = Some s' \<Longrightarrow>
      \<exists>ps. spec_calls as (init_TraceContext, c) = Some (ps, view s') \<and> emits (new_tracer c sv) ps s'"
  using sim_calls [OF new_tracer_ok(1) [OF assms(1)] assms(2), of sv gnb] new_tracer_ok(4) [OF assms(1), of sv]
  by (auto simp: sim_def split: option.splits)

text \<open>C39 tracing_returns: from a fresh thread context with tracing on and buffers that can hold a packet, a sequence of
  calls of \<open>beginTrace\<close>, \<open>endTrace\<close> and \<open>traceCounter\<close> with names below 128 bytes runs to its end exactly when no
  \<open>traceCounter\<close> comes while 16 slices are open: that call writes its category id past the end of
  \<open>mCurrentCategoryIid\<close>. Begin and end calls always return.\<close>
theorem tracing_returns:
  assumes "neededSpace \<le> storage_size c" and "\<not> tracingDisabled c" and "packetsWritten c = 0 \<or> sequenceIdWritten c"
    and "\<forall>a \<in> set as. op_fits a"
  shows "trace_calls gnb as (new_tracer c sv) \<noteq> None \<longleftrightarrow> counters_have_room as 0"
  using calls_return [of "(init_TraceContext, c)" as] fresh_calls(1) [OF assms(1,4), of gnb sv] assms
  by (simp add: call_state_def sequence_ok_def stack_inv_def init_TraceContext_def)

theorem tracing_returns_witness:
  "trace_calls (GetNewBuffer 2) (replicate 16 (Begin 5 (100, [97]))) (new_tracer (sTraceConfig\<lparr>tracingDisabled := False\<rparr>) []) \<noteq> None \<and>
   trace_calls (GetNewBuffer 2) (replicate 16 (Begin 5 (100, [97])) @ [Counter 6 (200, [98]) 1])
     (new_tracer (sTraceConfig\<lparr>tracingDisabled := False\<rparr>) []) = None"
proof -
  let ?c = "sTraceConfig\<lparr>tracingDisabled := False\<rparr>"
  let ?as = "replicate 16 (Begin 5 (100, [97]))"
  have size: "neededSpace \<le> storage_size ?c" by code_simp
  have c: "\<not> tracingDisabled ?c" "packetsWritten ?c = 0 \<or> sequenceIdWritten ?c" by (simp_all add: sTraceConfig_def)
  have "counters_have_room ?as 0" "\<not> counters_have_room (?as @ [Counter 6 (200, [98]) 1]) 0"
    by (simp_all add: numeral_eq_Suc TRACE_STACK_DEPTH_MAX_def)
  moreover have "\<forall>a \<in> set (?as @ [Counter 6 (200, [98]) 1]). op_fits a" by (auto simp: name_fits_def)
  ultimately show ?thesis
    using tracing_returns [OF size c, of ?as] tracing_returns [OF size c, of "?as @ [Counter 6 (200, [98]) 1]"]
    by (metis Un_iff set_append)
qed

lemma spec_names_resolve:
  assumes "spec_calls as (init_TraceContext, c) = Some (ps, v)" and "\<not> tracingDisabled c"
    and "\<forall>a \<in> set as. op_contents f a \<and> op_fits a"
    and "unat (currentInterningId c) + 2 * length as < 2 ^ 32"
  shows "fst (begun_names ps Map.empty) = map Some (calls_names as 0)"
proof -
  have "reads f (2 * length as) (calls_names as 0) (init_TraceContext, c) (spec_calls as (init_TraceContext, c))"
    using reads_calls [of as f "(init_TraceContext, c)"] assms(2,3) by (simp add: init_TraceContext_def)
  moreover have "names_inv f (init_TraceContext, c) Map.empty (2 * length as + 0)"
    using assms(4) by (simp add: names_inv_def init_TraceContext_def)
  ultimately obtain tab' where "begun_names ps Map.empty = (map Some (calls_names as 0), tab')"
    using assms(1) unfolding reads_def by blast
  then show ?thesis by simp
qed

text \<open>C11 names_resolve: a fresh thread's calls of \<open>beginTrace\<close>, \<open>endTrace\<close> and \<open>traceCounter\<close> leave in the buffers packets from which a
  reader that keeps the announced names resolves the name id of every begin event to the name the client
  passed to \<open>beginTrace\<close>, in order, for exactly the calls that were not dropped at a full stack. This needs names
  below 128 bytes, buffers that can hold a packet, that an address keeps its contents and that the
  32-bit id counter does not wrap (at most two ids per call).\<close>
theorem names_resolve:
  assumes "neededSpace \<le> storage_size c" and "trace_calls gnb as (new_tracer c sv) = Some s'" and "\<not> tracingDisabled c"
    and "\<forall>a \<in> set as. op_contents f a \<and> op_fits a"
    and "unat (currentInterningId c) + 2 * length as < 2 ^ 32"
  shows "\<exists>ps. emits (new_tracer c sv) ps s' \<and> fst (begun_names ps Map.empty) = map Some (calls_names as 0)"
proof -
  from assms(4) have "\<forall>a \<in> set as. op_fits a" by blast
  from fresh_calls(2) [OF assms(1) this assms(2)] obtain ps where
    "spec_calls as (init_TraceContext, c) = Some (ps, view s')" "emits (new_tracer c sv) ps s'" by blast
  with spec_names_resolve [OF _ assms(3-5)] show ?thesis by blast
qed

theorem names_resolve_witness:
  "\<exists>ps s'. trace_calls (GetNewBuffer 2) [Begin 5 (100, [97]), Begin 6 (200, [98]), End 7, Begin 8 (200, [98])]
         (new_tracer (sTraceConfig\<lparr>tracingDisabled := False\<rparr>) []) = Some s' \<and>
     emits (new_tracer (sTraceConfig\<lparr>tracingDisabled := False\<rparr>) []) ps s' \<and>
     fst (begun_names ps Map.empty) = [Some [97], Some [98], Some [98]]"
proof -
  let ?c = "sTraceConfig\<lparr>tracingDisabled := False\<rparr>"
  let ?as = "[Begin 5 (100, [97]), Begin 6 (200, [98]), End 7, Begin 8 (200, [98])]"
  let ?f = "\<lambda>p. if p = 100 then [97] else [98 :: u8]"
  have size: "neededSpace \<le> storage_size ?c" by code_simp
  have names: "\<forall>a \<in> set ?as. op_contents ?f a \<and> op_fits a" by (simp add: name_fits_def)
  then have fits: "\<forall>a \<in> set ?as. op_fits a" by blast
  have ne: "spec_calls ?as (init_TraceContext, ?c) \<noteq> None" by code_simp
  have "trace_calls (GetNewBuffer 2) ?as (new_tracer ?c []) \<noteq> None" unfolding fresh_calls(1) [OF size fits] by (rule ne)
  then obtain s' where s': "trace_calls (GetNewBuffer 2) ?as (new_tracer ?c []) = Some s'" unfolding not_None_eq by blast
  have "unat (currentInterningId ?c) + 2 * length ?as < 2 ^ 32" by (simp add: sTraceConfig_def)
  from names_resolve [OF size s' _ names this] obtain ps where
    "emits (new_tracer ?c []) ps s'" "fst (begun_names ps Map.empty) = map Some (calls_names ?as 0)" by auto
  with s' show ?thesis by (auto simp: TRACE_STACK_DEPTH_MAX_def)
qed

end
