(* ===== verification/Trace_Counters.thy ===== *)
theory Trace_Counters
  imports Trace_Interning
begin

section \<open>Counter tracks\<close>

text \<open>
  A counter event carries the uuid of its track; an earlier packet of the thread describes the track
  and names it. A uuid is the thread's counter number above the thread id, so that the tracks of
  different counters and of different threads are different, and none is the track of a thread.
\<close>

definition counter_uuid :: "u32 \<Rightarrow> u32 \<Rightarrow> u64" where
  "counter_uuid counter tid = push_bit 32 (ucast counter) OR ucast tid"

lemma counter_uuid_parts:
  "drop_bit 32 (counter_uuid k t) = ucast k" "(ucast (counter_uuid k t) :: u32) = t"
  "(ucast (drop_bit 32 (counter_uuid k t)) :: u32) = k"
  unfolding counter_uuid_def by (rule bit_eqI; auto simp: bit_simps dest: bit_imp_le_length)+

lemma counter_uuid_inject [simp]: "counter_uuid k t = counter_uuid k' t' \<longleftrightarrow> k = k' \<and> t = t'"
  by (metis counter_uuid_parts(2,3))

lemma counter_uuid_thread: "ucast t' = counter_uuid k t \<longleftrightarrow> k = 0 \<and> t' = t"
proof -
  have "ucast t' = counter_uuid 0 t'" by (simp add: counter_uuid_def)
  then show ?thesis by auto
qed

subsection \<open>The reader\<close>

fun describe :: "pb_field list list \<Rightarrow> (u64 \<rightharpoonup> u8 list) \<Rightarrow> (u64 \<rightharpoonup> u8 list)" where
  "describe [] tab = tab"
| "describe (e # es) tab =
     describe es (case (varint_field 1 e, bytes_field 2 e) of (Some u, Some n) \<Rightarrow> tab(u \<mapsto> n) | _ \<Rightarrow> tab)"

definition described :: "pb_field list \<Rightarrow> (u64 \<rightharpoonup> u8 list) \<Rightarrow> (u64 \<rightharpoonup> u8 list)" where
  "described p = describe (message_fields 60 p)"

text \<open>The track of a counter event and its value.\<close>

definition sample :: "pb_field list \<Rightarrow> (u64 \<times> u64) option" where
  "sample p = (case message_fields 11 p of
     [fs] \<Rightarrow> (if varint_field 9 fs = Some 4
       then (case (varint_field 11 fs, varint_field 30 fs) of (Some u, Some v) \<Rightarrow> Some (u, v) | _ \<Rightarrow> None) else None)
   | _ \<Rightarrow> None)"

text \<open>The samples read, each with the name of its track, and the tracks known at the end.\<close>

fun samples :: "packets \<Rightarrow> (u64 \<rightharpoonup> u8 list) \<Rightarrow> (u8 list option \<times> u64) list \<times> (u64 \<rightharpoonup> u8 list)" where
  "samples [] tab = ([], tab)"
| "samples (p # ps) tab =
     (let tab1 = described p tab; (ns, tab2) = samples ps tab1
      in ((case sample p of Some (u, v) \<Rightarrow> [(tab1 u, v)] | None \<Rightarrow> []) @ ns, tab2))"

lemma samples_append:
  "samples (ps @ qs) tab =
     (let (ns, tab1) = samples ps tab; (ms, tab2) = samples qs tab1 in (ns @ ms, tab2))"
  by (induction ps arbitrary: tab) (simp_all add: split_beta Let_def)

lemma described_simps [simp]:
  "described start_packet tab = tab" "described (category_packet iid) tab = tab"
  "described (thread_packet tid) tab = tab(ucast tid \<mapsto> getTrackNameFromThreadId tid)"
  "described (name_packet iid name) tab = tab" "described (counter_packet t uuid val) tab = tab"
  "described (counter_track_packet uuid tid name) tab = tab(uuid \<mapsto> getTrackNameFromThreadIdAndCounterName tid name)"
  "described (begin_packet t tid category event) tab = tab" "described (end_packet t tid category event) tab = tab"
  by (simp_all add: described_def start_packet_def category_packet_def thread_packet_def name_packet_def
      counter_packet_def counter_track_packet_def begin_packet_def end_packet_def packet_defs)

lemma sample_simps [simp]:
  "sample start_packet = None" "sample (category_packet iid) = None" "sample (thread_packet tid) = None"
  "sample (name_packet iid name) = None" "sample (counter_packet t uuid val) = Some (uuid, val)"
  "sample (counter_track_packet uuid tid name) = None" "sample (begin_packet t tid category event) = None"
  "sample (end_packet t tid category event) = None"
  by (simp_all add: sample_def start_packet_def category_packet_def thread_packet_def name_packet_def
      counter_packet_def counter_track_packet_def begin_packet_def end_packet_def packet_defs)

subsection \<open>The tables agree\<close>

definition track_name :: "u32 \<Rightarrow> u8 list \<Rightarrow> u8 list" where
  "track_name tid name = getTrackNameFromThreadIdAndCounterName tid (0, name)"

text \<open>\<open>tid\<close> is the id the thread has, or gets with its first packet; the reader knows no track of another thread.\<close>

definition tracks_inv :: "(nat \<Rightarrow> u8 list) \<Rightarrow> u32 \<Rightarrow> tview \<Rightarrow> (u64 \<rightharpoonup> u8 list) \<Rightarrow> nat \<Rightarrow> bool" where
  "tracks_inv f tid v tab k \<longleftrightarrow>
     (if mNeedToSetThreadId (fst v) then currentThreadId (snd v) + 1 = tid \<and> mCounterNameToTrackUuids (fst v) = Map.empty
        \<and> tab = Map.empty
      else mThreadId (fst v) = tid \<and> currentThreadId (snd v) = tid) \<and>
     (\<forall>key u. mCounterNameToTrackUuids (fst v) key = Some u \<longrightarrow> tab u = Some (track_name tid (f key)) \<and>
        (\<exists>c. u = counter_uuid c tid \<and> 0 < unat c \<and> unat c < unat (mCurrentCounterId (fst v)))) \<and>
     0 < unat (mCurrentCounterId (fst v)) \<and> unat (mCurrentCounterId (fst v)) + k < 2 ^ 32 \<and>
     (\<forall>u \<in> dom tab. ucast u = tid)"

text \<open>\<open>counts f tid k ns v r\<close>: the step makes at most \<open>k\<close> new counters and the reader sees the samples \<open>ns\<close>.\<close>

definition counts :: "(nat \<Rightarrow> u8 list) \<Rightarrow> u32 \<Rightarrow> nat \<Rightarrow> (u8 list \<times> u64) list \<Rightarrow> tview \<Rightarrow> (packets \<times> tview) option \<Rightarrow> bool" where
  "counts f tid k ns v r \<longleftrightarrow> (\<forall>ps v' tab n. r = Some (ps, v') \<longrightarrow> tracks_inv f tid v tab (k + n) \<longrightarrow>
     (\<exists>tab'. samples ps tab = (map (map_prod (Some \<circ> track_name tid) id) ns, tab') \<and> tracks_inv f tid v' tab' n))"

lemma counts_wbind:
  assumes "counts f tid k ns v r" and "\<And>u. counts f tid m ms u (h u)"
  shows "counts f tid (k + m) (ns @ ms) v (wbind r h)"
  unfolding counts_def
proof (intro allI impI)
  fix ps v' tab n
  assume w: "wbind r h = Some (ps, v')" and inv: "tracks_inv f tid v tab (k + m + n)"
  then obtain ps1 u ps2 where u: "r = Some (ps1, u)" "h u = Some (ps2, v')" "ps = ps1 @ ps2"
    by (auto simp: wbind_Some)
  from inv have inv1: "tracks_inv f tid v tab (k + (m + n))" by (simp add: add.assoc)
  from assms(1) u(1) inv1 obtain tab1 where
    1: "samples ps1 tab = (map (map_prod (Some \<circ> track_name tid) id) ns, tab1)" "tracks_inv f tid u tab1 (m + n)"
    unfolding counts_def by blast
  from assms(2) [of u] u(2) 1(2) obtain tab2 where
    "samples ps2 tab1 = (map (map_prod (Some \<circ> track_name tid) id) ms, tab2)" "tracks_inv f tid v' tab2 n"
    unfolding counts_def by blast
  with 1 u(3) show "\<exists>tab'. samples ps tab = (map (map_prod (Some \<circ> track_name tid) id) (ns @ ms), tab') \<and> tracks_inv f tid v' tab' n"
    by (simp add: samples_append)
qed

text \<open>A step that leaves the tracks alone.\<close>

definition same_tracks :: "tview \<Rightarrow> tview \<Rightarrow> bool" where
  "same_tracks v v' \<longleftrightarrow> mNeedToSetThreadId (fst v') = mNeedToSetThreadId (fst v) \<and> mThreadId (fst v') = mThreadId (fst v) \<and>
     mCounterNameToTrackUuids (fst v') = mCounterNameToTrackUuids (fst v) \<and>
     mCurrentCounterId (fst v') = mCurrentCounterId (fst v) \<and> currentThreadId (snd v') = currentThreadId (snd v)"

lemma counts_quiet:
  assumes "\<And>ps v' tab. r = Some (ps, v') \<Longrightarrow> samples ps tab = ([], tab) \<and> same_tracks v v'"
  shows "counts f tid k [] v r"
  unfolding counts_def
proof (intro allI impI)
  fix ps v' tab n
  assume r: "r = Some (ps, v')" and inv: "tracks_inv f tid v tab (k + n)"
  then have "tracks_inv f tid v' tab n" using assms [OF r, of tab] by (simp add: tracks_inv_def same_tracks_def)
  then show "\<exists>tab'. samples ps tab = (map (map_prod (Some \<circ> track_name tid) id) [], tab') \<and> tracks_inv f tid v' tab' n"
    using assms [OF r, of tab] by simp
qed

lemma counts_parts:
  "counts f tid k [] v (spec_sequence v)" "counts f tid k [] v (spec_category v)"
  "counts f tid k [] v (spec_name name v)" "counts f tid k [] v (spec_slice_begin ts v)"
  "counts f tid k [] v (spec_endTrace ts v)" "counts f tid k [] v (Some ([], v))"
  by (rule counts_quiet; auto simp: same_tracks_def spec_sequence_def spec_category_def spec_name_def spec_slice_begin_def
      spec_endTrace_def Let_def split: prod.splits if_splits)+


lemma ucast_widen [simp]: "(ucast (ucast (t :: u32) :: u64) :: u32) = t"
  by (rule bit_eqI) (auto simp: bit_simps dest: bit_imp_le_length)

lemma counts_thread: "counts f tid 0 [] v (spec_thread v)"
  by (cases v) (auto simp: counts_def spec_thread_def tracks_inv_def Let_def split: if_splits)

lemma counts_info: "counts f tid 0 [] v (spec_info v)"
  using counts_wbind [OF counts_wbind [OF counts_parts(1) [where k = 0] counts_parts(2) [where k = 0]] counts_thread, of f tid v]
  by (simp add: spec_info_def)

lemma counts_counter:
  assumes name: "f (fst name) = snd name" and tid: "\<not> mNeedToSetThreadId (fst v)"
  shows "counts f tid 1 [(snd name, val)] v (spec_counter ts name val v)"
  unfolding counts_def
proof (intro allI impI)
  fix ps v' tab n
  assume w: "spec_counter ts name val v = Some (ps, v')" and inv: "tracks_inv f tid v tab (1 + n)"
  obtain x c where v: "v = (x, c)" by fastforce
  let ?k = "mCurrentCounterId x"
  have i: "mThreadId x = tid" "currentThreadId c = tid"
    "\<And>key u. mCounterNameToTrackUuids x key = Some u \<Longrightarrow> tab u = Some (track_name tid (f key)) \<and>
        (\<exists>c. u = counter_uuid c tid \<and> 0 < unat c \<and> unat c < unat ?k)"
    "0 < unat ?k" "unat ?k + Suc n < 2 ^ 32" "\<And>u. u \<in> dom tab \<Longrightarrow> ucast u = tid"
    using inv tid by (simp_all add: tracks_inv_def v)
  show "\<exists>tab'. samples ps tab = (map (map_prod (Some \<circ> track_name tid) id) [(snd name, val)], tab') \<and> tracks_inv f tid v' tab' n"
  proof (cases "mCounterNameToTrackUuids x (fst name)")
    case (Some u)
    with w have "ps = [counter_packet (ts + guestTimeDiff c) u val]" "v' = v" by (simp_all add: spec_counter_def v)
    with i(3) [OF Some] inv show ?thesis by (auto simp: name tracks_inv_def)
  next
    case None
    let ?u = "counter_uuid ?k tid"
    let ?tab = "tab(?u \<mapsto> track_name tid (snd name))"
    from w None have ps: "ps = [counter_track_packet ?u tid name, counter_packet (ts + guestTimeDiff c) ?u val]"
      and v': "v' = (x\<lparr>mCounterNameToTrackUuids := (mCounterNameToTrackUuids x)(fst name \<mapsto> ?u),
                       mCurrentCounterId := ?k + 1\<rparr>, c)"
      by (auto simp: spec_counter_def v Let_def i(1) counter_uuid_def)
    have nxt: "unat (?k + 1) = unat ?k + 1" using i(5) unat_next_id by blast
    have old: "?tab u = Some (track_name tid (f key)) \<and> (\<exists>c. u = counter_uuid c tid \<and> 0 < unat c \<and> unat c < unat ?k + 1)"
      if "mCounterNameToTrackUuids x key = Some u" for key u
      using i(3) [OF that] by (metis counter_uuid_inject fun_upd_other less_SucI less_irrefl Suc_eq_plus1)
    have "samples ps tab = ([(Some (track_name tid (snd name)), val)], ?tab)"
      by (simp add: ps track_name_def getTrackNameFromThreadIdAndCounterName_def)
    moreover have "tracks_inv f tid v' ?tab n"
      unfolding tracks_inv_def v' using i old tid nxt name
      by (auto simp: v counter_uuid_parts)
    ultimately show ?thesis by simp
  qed
qed

lemma counts_more: "counts f tid k ns v r \<Longrightarrow> k \<le> m \<Longrightarrow> counts f tid m ns v r"
  unfolding counts_def
proof (intro allI impI)
  fix ps v' tab n
  assume r: "\<forall>ps v' tab n. r = Some (ps, v') \<longrightarrow> tracks_inv f tid v tab (k + n) \<longrightarrow>
     (\<exists>tab'. samples ps tab = (map (map_prod (Some \<circ> track_name tid) id) ns, tab') \<and> tracks_inv f tid v' tab' n)"
    and "k \<le> m" "r = Some (ps, v')" "tracks_inv f tid v tab (m + n)"
  moreover from this have "tracks_inv f tid v tab (k + n)" by (auto simp: tracks_inv_def)
  ultimately show "\<exists>tab'. samples ps tab = (map (map_prod (Some \<circ> track_name tid) id) ns, tab') \<and> tracks_inv f tid v' tab' n"
    by blast
qed

text \<open>What the calls sample.\<close>

fun op_samples :: "trace_op \<Rightarrow> (u8 list \<times> u64) list" where
  "op_samples (Counter ts name val) = [(snd name, val)]"
| "op_samples a = []"

fun counter_contents :: "(nat \<Rightarrow> u8 list) \<Rightarrow> trace_op \<Rightarrow> bool" where
  "counter_contents f (Counter ts name val) = (f (fst name) = snd name)"
| "counter_contents f a = True"

lemma counts_call:
  assumes "counter_contents f a" and "\<not> tracingDisabled (snd v)"
  shows "counts f tid 1 (op_samples a) v (spec_call a v)"
proof (cases a)
  case (Begin ts name)
  have "counts f tid (0 + 0 + 0) ([] @ [] @ []) v (wbind (wbind (spec_info v) (spec_name name)) (spec_slice_begin ts))"
    unfolding append_assoc [symmetric] by (intro counts_wbind counts_info counts_parts)
  then have "counts f tid 1 [] v (wbind (wbind (spec_info v) (spec_name name)) (spec_slice_begin ts))"
    using counts_more [where k = 0] by simp
  with Begin counts_parts(6) show ?thesis by (auto simp: spec_beginTrace_def split: prod.splits)
next
  case (End ts)
  then show ?thesis using counts_parts(5) by simp
next
  case (Counter ts name val)
  then have c: "spec_call a v = wbind (spec_info v) (spec_counter ts name val)"
    using assms(2) by (auto simp: spec_traceCounter_def split: prod.splits)
  show ?thesis
    unfolding counts_def
  proof (intro allI impI)
    fix ps v' tab n
    assume w: "spec_call a v = Some (ps, v')" and inv: "tracks_inv f tid v tab (1 + n)"
    from w c obtain ps1 u ps2 where u: "spec_info v = Some (ps1, u)" "spec_counter ts name val u = Some (ps2, v')"
      "ps = ps1 @ ps2" unfolding c wbind_Some by blast
    from counts_info [of f tid v] u(1) inv obtain tab1 where 1: "samples ps1 tab = ([], tab1)" "tracks_inv f tid u tab1 (1 + n)"
      unfolding counts_def by (metis add_0 list.simps(8))
    have "counts f tid 1 [(snd name, val)] u (spec_counter ts name val u)"
      using assms(1) Counter spec_info_tid [OF u(1)] by (intro counts_counter) simp_all
    with u(2) 1(2) obtain tab2 where
      "samples ps2 tab1 = (map (map_prod (Some \<circ> track_name tid) id) [(snd name, val)], tab2)" "tracks_inv f tid v' tab2 n"
      unfolding counts_def by blast
    with 1 u(3) Counter
    show "\<exists>tab'. samples ps tab = (map (map_prod (Some \<circ> track_name tid) id) (op_samples a), tab') \<and> tracks_inv f tid v' tab' n"
      by (simp add: samples_append)
  qed
qed

lemma counts_calls:
  "\<forall>a \<in> set as. counter_contents f a \<and> op_fits a \<Longrightarrow> \<not> tracingDisabled (snd v) \<Longrightarrow>
     counts f tid (length as) (concat (map op_samples as)) v (spec_calls as v)"
proof (induction as arbitrary: v)
  case Nil
  then show ?case using counts_parts(6) by simp
next
  case (Cons a as)
  have c: "counts f tid 1 (op_samples a) v (spec_call a v)" using Cons.prems by (intro counts_call) simp_all
  show ?case
    unfolding counts_def
  proof (intro allI impI)
    fix ps v' tab n
    assume w: "spec_calls (a # as) v = Some (ps, v')" and inv: "tracks_inv f tid v tab (length (a # as) + n)"
    then obtain ps1 u ps2 where u: "spec_call a v = Some (ps1, u)" "spec_calls as u = Some (ps2, v')" "ps = ps1 @ ps2"
      by (auto simp: wbind_Some)
    have inv1: "tracks_inv f tid v tab (1 + (length as + n))" using inv by simp
    from c u(1) inv1 obtain tab1 where
      1: "samples ps1 tab = (map (map_prod (Some \<circ> track_name tid) id) (op_samples a), tab1)"
        "tracks_inv f tid u tab1 (length as + n)"
      unfolding counts_def by blast
    have "\<not> tracingDisabled (snd u)"
      using spec_call_well_behaved [of a v] Cons.prems u(1) unfolding well_behaved_def same_setup_def
      by (metis list.set_intros(1) snd_conv)
    from Cons.IH [OF _ this] Cons.prems have
      "counts f tid (length as) (concat (map op_samples as)) u (spec_calls as u)" by simp
    with u(2) 1(2) obtain tab2 where
      "samples ps2 tab1 = (map (map_prod (Some \<circ> track_name tid) id) (concat (map op_samples as)), tab2)"
      "tracks_inv f tid v' tab2 n"
      unfolding counts_def by blast
    with 1 u(3)
    show "\<exists>tab'. samples ps tab = (map (map_prod (Some \<circ> track_name tid) id) (concat (map op_samples (a # as))), tab') \<and>
        tracks_inv f tid v' tab' n"
      by (simp add: samples_append)
  qed
qed

subsection \<open>Properties\<close>

text \<open>A thread's packets and the tracks a reader knows after them.\<close>

lemma thread_counts:
  assumes "spec_calls as (init_TraceContext, c) = Some (ps, v)" and "\<not> tracingDisabled c"
    and "\<forall>a \<in> set as. counter_contents f a \<and> op_fits a" and "length as < 2 ^ 32 - 1"
  obtains tab where "samples ps Map.empty =
      (map (map_prod (Some \<circ> track_name (currentThreadId c + 1)) id) (concat (map op_samples as)), tab)"
    "tracks_inv f (currentThreadId c + 1) v tab 0"
proof -
  have "counts f (currentThreadId c + 1) (length as) (concat (map op_samples as)) (init_TraceContext, c)
      (spec_calls as (init_TraceContext, c))"
    using counts_calls [of as f "(init_TraceContext, c)"] assms(2,3) by simp
  moreover have "tracks_inv f (currentThreadId c + 1) (init_TraceContext, c) Map.empty (length as + 0)"
    using assms(4) by (simp add: tracks_inv_def init_TraceContext_def)
  ultimately show ?thesis using assms(1) that unfolding counts_def by blast
qed

text \<open>C12 counters_resolve: a fresh thread's calls of \<open>beginTrace\<close>, \<open>endTrace\<close> and \<open>traceCounter\<close> leave in the buffers packets from
  which a reader that keeps the track descriptors resolves the track of every counter event to the track named
  after the thread and the counter the client passed to \<open>traceCounter\<close>, and reads the values in call order: no counter
  overwrites the track of another or the track of the thread. Names are below 128 bytes and compared by address, so an
  address has to keep its contents, the buffers can hold a packet, and the thread may not make more than
  \<open>2 ^ 32 - 2\<close> calls.\<close>
theorem counters_resolve:
  assumes "neededSpace \<le> storage_size c" and "trace_calls gnb as (new_tracer c sv) = Some s'" and "\<not> tracingDisabled c"
    and "\<forall>a \<in> set as. counter_contents f a \<and> op_fits a" and "length as < 2 ^ 32 - 1"
  shows "\<exists>ps. emits (new_tracer c sv) ps s' \<and> fst (samples ps Map.empty) =
    map (\<lambda>(name, val). (Some (track_name (currentThreadId c + 1) name), val)) (concat (map op_samples as))"
proof -
  from assms(4) have "\<forall>a \<in> set as. op_fits a" by blast
  from fresh_calls(2) [OF assms(1) this assms(2)] obtain ps where
    ps: "spec_calls as (init_TraceContext, c) = Some (ps, view s')" "emits (new_tracer c sv) ps s'" by blast
  have "fst (samples ps Map.empty) =
      map (\<lambda>(name, val). (Some (track_name (currentThreadId c + 1) name), val)) (concat (map op_samples as))"
    by (rule thread_counts [OF ps(1) assms(3-5)]) (simp add: map_prod_def comp_def id_def)
  with ps(2) show ?thesis by blast
qed

theorem counters_resolve_witness:
  "\<exists>ps s'. trace_calls (GetNewBuffer 2) [Counter 5 (100, [97]) 7, Begin 6 (300, [99]), Counter 8 (200, [98]) 9, Counter 10 (100, [97]) 11]
         (new_tracer (sTraceConfig\<lparr>tracingDisabled := False\<rparr>) []) = Some s' \<and>
     emits (new_tracer (sTraceConfig\<lparr>tracingDisabled := False\<rparr>) []) ps s' \<and>
     fst (samples ps Map.empty) =
       [(Some (track_name 2 [97]), 7), (Some (track_name 2 [98]), 9), (Some (track_name 2 [97]), 11)]"
proof -
  let ?c = "sTraceConfig\<lparr>tracingDisabled := False\<rparr>"
  let ?as = "[Counter 5 (100, [97]) 7, Begin 6 (300, [99]), Counter 8 (200, [98]) 9, Counter 10 (100, [97]) 11]"
  let ?f = "\<lambda>p. if p = 100 then [97] else [98 :: u8]"
  have size: "neededSpace \<le> storage_size ?c" by code_simp
  have names: "\<forall>a \<in> set ?as. counter_contents ?f a \<and> op_fits a" by (simp add: name_fits_def)
  then have fits: "\<forall>a \<in> set ?as. op_fits a" by blast
  have ne: "spec_calls ?as (init_TraceContext, ?c) \<noteq> None"
    using calls_return [of "(init_TraceContext, ?c)" ?as]
    by (simp add: call_state_def sequence_ok_def stack_inv_def init_TraceContext_def sTraceConfig_def name_fits_def TRACE_STACK_DEPTH_MAX_def)
  have "trace_calls (GetNewBuffer 2) ?as (new_tracer ?c []) \<noteq> None" unfolding fresh_calls(1) [OF size fits] by (rule ne)
  then obtain s' where s': "trace_calls (GetNewBuffer 2) ?as (new_tracer ?c []) = Some s'" unfolding not_None_eq by blast
  have t: "currentThreadId ?c + 1 = 2" by (simp add: sTraceConfig_def)
  from counters_resolve [OF size s' _ names] obtain ps where
    ps: "emits (new_tracer ?c []) ps s'" "fst (samples ps Map.empty) =
      map (\<lambda>(name, val). (Some (track_name (currentThreadId ?c + 1) name), val)) (concat (map op_samples ?as))" by auto
  show ?thesis using s' ps(1) ps(2) [unfolded t] by (intro exI [of _ ps] exI [of _ s'] conjI) simp_all
qed

text \<open>The tracks one thread describes (its own and those of its counters) and those of a
  thread that starts later are disjoint, so a reader of the merged trace keeps the threads apart.\<close>
theorem tracks_of_threads:
  assumes "spec_calls as (init_TraceContext, c) = Some (ps, v)" and "spec_calls bs (init_TraceContext, snd v) = Some (qs, w)"
    and "\<not> tracingDisabled c" and "\<forall>a \<in> set as \<union> set bs. counter_contents f a \<and> op_fits a"
    and "length as < 2 ^ 32 - 1" and "length bs < 2 ^ 32 - 1"
  shows "dom (snd (samples ps Map.empty)) \<inter> dom (snd (samples qs Map.empty)) = {}"
proof -
  obtain tab where a: "snd (samples ps Map.empty) = tab" "tracks_inv f (currentThreadId c + 1) v tab 0"
    by (rule thread_counts [OF assms(1,3) _ assms(5), of f]) (use assms(4) in simp_all)
  have "\<not> tracingDisabled (snd v)"
    using well_behaved_calls [of as "(init_TraceContext, c)"] assms(1,3,4)
    unfolding well_behaved_def same_setup_def by (metis UnCI snd_conv)
  then obtain tab' where b: "snd (samples qs Map.empty) = tab'" "tracks_inv f (currentThreadId (snd v) + 1) w tab' 0"
    by (rule thread_counts [OF assms(2) _ _ assms(6), of f]) (use assms(4) in simp_all)
  show ?thesis
  proof (cases "mNeedToSetThreadId (fst v)")
    case True
    then show ?thesis using a by (simp add: tracks_inv_def)
  next
    case False
    then have "currentThreadId c + 1 \<noteq> currentThreadId (snd v) + 1" using a by (simp add: tracks_inv_def)
    moreover have "\<forall>u \<in> dom tab. ucast u = currentThreadId c + 1" "\<forall>u \<in> dom tab'. ucast u = currentThreadId (snd v) + 1"
      using a(2) b(2) unfolding tracks_inv_def by blast+
    ultimately show ?thesis unfolding a(1) b(1) disjoint_iff by metis
  qed
qed

theorem tracks_of_threads_witness:
  "\<exists>ps v qs w. spec_calls [Begin 5 (100, [97])] (init_TraceContext, sTraceConfig\<lparr>tracingDisabled := False\<rparr>) = Some (ps, v) \<and>
     spec_calls [Begin 6 (200, [98])] (init_TraceContext, snd v) = Some (qs, w) \<and>
     dom (snd (samples ps Map.empty)) \<inter> dom (snd (samples qs Map.empty)) = {}"
proof -
  let ?c = "sTraceConfig\<lparr>tracingDisabled := False\<rparr>"
  let ?f = "\<lambda>p. if p = 100 then [97] else [98 :: u8]"
  have "(case spec_calls [Begin 5 (100, [97])] (init_TraceContext, ?c) of None \<Rightarrow> None
      | Some (ps, v) \<Rightarrow> spec_calls [Begin 6 (200, [98])] (init_TraceContext, snd v)) \<noteq> None"
    by code_simp
  then obtain ps v qs w where r: "spec_calls [Begin 5 (100, [97])] (init_TraceContext, ?c) = Some (ps, v)"
    "spec_calls [Begin 6 (200, [98])] (init_TraceContext, snd v) = Some (qs, w)"
    by (auto split: option.splits)
  have "\<not> tracingDisabled ?c" by simp
  moreover have "\<forall>a \<in> set [Begin 5 (100, [97])] \<union> set [Begin 6 (200, [98])]. counter_contents ?f a \<and> op_fits a"
    by (simp add: name_fits_def)
  ultimately have "dom (snd (samples ps Map.empty)) \<inter> dom (snd (samples qs Map.empty)) = {}"
    using tracks_of_threads [OF r] by simp
  with r show ?thesis by blast
qed

end
