(* ===== verification/Trace_Async.thy ===== *)
theory Trace_Async
  imports Trace_Storage
begin

section \<open>Saving the combined trace (asyncTraceSaveFunc in vperfetto.cpp)\<close>

text \<open>
  The background thread looks at the size of the guest trace once a second and appends the host trace
  to it when the size has stopped changing. \<open>probe i\<close> is what \<open>tellg\<close> returns in iteration \<open>i\<close>: the
  size of the file, or -1 when it cannot be opened. A file is \<open>None\<close> when it cannot be opened.
\<close>

definition kMaxIters :: nat where "kMaxIters = 20"
definition kMinItersForGuestFileSize :: nat where "kMinItersForGuestFileSize = 2"

fun wait_stable :: "nat \<Rightarrow> nat \<Rightarrow> (nat \<Rightarrow> int) \<Rightarrow> int \<Rightarrow> nat \<Rightarrow> bool" where
  "wait_stable 0 i probe currGuestSize numGood = False"
| "wait_stable (Suc k) i probe currGuestSize numGood =
     (let size = probe i in
      if size = 0 then wait_stable k (Suc i) probe currGuestSize numGood
      else if size \<noteq> currGuestSize then wait_stable k (Suc i) probe size numGood
      else if numGood + 1 = kMinItersForGuestFileSize then True
      else wait_stable k (Suc i) probe currGuestSize (numGood + 1))"

text \<open>\<open>operator<<\<close> on a stream buffer: an output stream that has failed takes nothing, and copying no
  character makes it fail. The state is whether the stream is good, and what was written.\<close>

definition insert_rdbuf :: "u8 list option \<Rightarrow> bool \<times> u8 list \<Rightarrow> bool \<times> u8 list" where
  "insert_rdbuf src out =
     (if \<not> fst out then out
      else case src of
        None \<Rightarrow> (False, snd out)
      | Some bs \<Rightarrow> (bs \<noteq> [], snd out @ bs))"

definition combined_file :: "u8 list option \<Rightarrow> u8 list option \<Rightarrow> u8 list" where
  "combined_file guestFile hostFile = snd (insert_rdbuf hostFile (insert_rdbuf guestFile (True, [])))"

text \<open>The combined file, if one is written, from the files as they are when it is.\<close>

definition asyncTraceSaveFunc :: "(nat \<Rightarrow> int) \<Rightarrow> u8 list option \<Rightarrow> u8 list option \<Rightarrow>
    VirtualDeviceTraceConfig \<Rightarrow> u8 list option \<times> VirtualDeviceTraceConfig" where
  "asyncTraceSaveFunc probe guestFile hostFile c =
     (if \<not> wait_stable kMaxIters 0 probe 0 0 then (None, c\<lparr>saving := False\<rparr>)
      else (Some (combined_file guestFile hostFile), c\<lparr>saving := False\<rparr>))"

subsection \<open>When the size counts as stable\<close>

text \<open>The reference: among the sizes seen that are not 0, count those equal to the one before.\<close>

fun repeats :: "int list \<Rightarrow> nat" where
  "repeats (a # b # xs) = (if a = b then 1 else 0) + repeats (b # xs)"
| "repeats xs = 0"

lemma wait_stable_repeats:
  "good < 2 \<Longrightarrow> wait_stable k i probe cur good \<longleftrightarrow>
     2 \<le> good + repeats (cur # filter (\<lambda>s. s \<noteq> 0) (map probe [i..<i + k]))"
proof (induction k arbitrary: i cur good)
  case (Suc k)
  have l: "[i..<i + Suc k] = i # [Suc i..<Suc i + k]" by (simp add: upt_conv_Cons)
  show ?case
  proof (cases "probe i = 0 \<or> probe i \<noteq> cur")
    case True
    then show ?thesis unfolding l using Suc.IH [OF Suc.prems] by (auto simp: Let_def simp del: upt_Suc)
  next
    case False
    consider "good = 0" | "good = 1" using Suc.prems by linarith
    then show ?thesis
    proof cases
      case 1
      with False show ?thesis unfolding l using Suc.IH [of 1 "Suc i" cur]
        by (simp add: kMinItersForGuestFileSize_def del: upt_Suc)
    next
      case 2
      with False show ?thesis unfolding l by (simp add: kMinItersForGuestFileSize_def del: upt_Suc)
    qed
  qed
qed simp

lemma repeats_stable: "2 \<le> repeats (xs @ [a, a, a])"
  by (induction xs rule: repeats.induct) (simp_all add: le_Suc_eq)

text \<open>Three equal looks at the end are enough.\<close>

lemma async_decides:
  assumes "\<forall>i. 17 \<le> i \<and> i < 20 \<longrightarrow> probe i = int (length gs)" and "gs \<noteq> []"
  shows "wait_stable kMaxIters 0 probe 0 0" and "combined_file (Some gs) (Some hs) = gs @ hs"
proof -
  have u: "[0..<20 :: nat] = [0..<17] @ [17, 18, 19]" by code_simp
  let ?xs = "filter (\<lambda>s. s \<noteq> 0) (map probe [0..<17])"
  let ?l = "int (length gs)"
  have f: "filter (\<lambda>s. s \<noteq> 0) (map probe [0..<20]) = ?xs @ [?l, ?l, ?l]"
    using assms unfolding u map_append filter_append by (simp del: upt_rec_numeral)
  have "2 \<le> repeats (0 # filter (\<lambda>s. s \<noteq> 0) (map probe [0..<20]))"
    unfolding f using repeats_stable [of "0 # ?xs" ?l] by (simp del: upt_rec_numeral)
  then show "wait_stable kMaxIters 0 probe 0 0"
    using wait_stable_repeats [of 0 20 0 probe 0] by (simp add: kMaxIters_def del: upt_rec_numeral)
  show "combined_file (Some gs) (Some hs) = gs @ hs" using assms(2) by (simp add: combined_file_def insert_rdbuf_def)
qed

subsection \<open>Properties\<close>

text \<open>The background thread ends after at most 20 looks, turns \<open>saving\<close> off on every path,
  and writes the combined trace exactly when, among the sizes that were not 0, at least two equal
  the one seen before. The two need not be adjacent, so the file may still have grown between them.\<close>
theorem async_save_decision:
  "asyncTraceSaveFunc probe guestFile hostFile c =
     (if 2 \<le> repeats (filter (\<lambda>s. s \<noteq> 0) (map probe [0..<20])) then Some (combined_file guestFile hostFile) else None,
      c\<lparr>saving := False\<rparr>)"
proof -
  have "repeats (0 # filter (\<lambda>s. s \<noteq> 0) xs) = repeats (filter (\<lambda>s. s \<noteq> 0) xs)" for xs :: "int list"
  proof (cases "filter (\<lambda>s. s \<noteq> 0) xs")
    case (Cons a ys)
    then have "a \<noteq> 0" by (auto simp: filter_eq_Cons_iff)
    with Cons show ?thesis by simp
  qed simp
  then show ?thesis by (simp add: asyncTraceSaveFunc_def wait_stable_repeats kMaxIters_def del: upt_Suc upt_rec_numeral)
qed

text \<open>If the guest trace is complete (its size is the same nonzero number in the
  last three looks) the combined trace is written, whatever was seen before, and holds the guest
  trace followed by the host trace, every byte of both.\<close>
theorem async_stable_guest_combined:
  assumes "\<forall>i. 17 \<le> i \<and> i < 20 \<longrightarrow> probe i = int (length gs)" and "gs \<noteq> []"
  shows "fst (asyncTraceSaveFunc probe (Some gs) (Some hs) c) = Some (gs @ hs)"
  using async_decides [OF assms] by (simp add: asyncTraceSaveFunc_def)

theorem async_stable_guest_combined_witness:
  "fst (asyncTraceSaveFunc (\<lambda>i. if i < 17 then int i else 2) (Some [1, 2]) (Some [3]) sTraceConfig) = Some [1, 2, 3]"
  using async_stable_guest_combined [of "\<lambda>i. if i < 17 then int i else 2" "[1, 2]" "[3]" sTraceConfig] by simp

text \<open>A guest file that does not exist looks stable (its size is -1 every time), so the
  combined trace is written after three looks; and as copying nothing fails the output stream, it is empty: the
  host trace is not in it either.\<close>
theorem async_missing_guest:
  "wait_stable 3 0 (\<lambda>i. - 1) 0 0 \<and> asyncTraceSaveFunc (\<lambda>i. - 1) None hostFile c = (Some [], c\<lparr>saving := False\<rparr>)"
proof -
  have "wait_stable (Suc (Suc (Suc k))) 0 (\<lambda>i. - 1) 0 0" for k
    by (simp add: kMinItersForGuestFileSize_def)
  from this [of 0] this [of 17] show ?thesis
    by (simp add: asyncTraceSaveFunc_def combined_file_def insert_rdbuf_def kMaxIters_def numeral_3_eq_3)
qed




end
