(* ===== verification/Base_Uuid.thy ===== *)
theory Base_Uuid
  imports VP_Prelude
begin

section \<open>Uuids (uuid.h and uuid.cc)\<close>

text \<open>
  A \<open>Uuid\<close> is 16 bytes; its two 64-bit halves are read and stored in memory order (little endian).
  The static generator of \<open>Uuidv4\<close> is \<open>std::minstd_rand\<close>: its state is an argument and a result.
\<close>

type_synonym uuid = "u8 list"

definition uuid_ok :: "uuid \<Rightarrow> bool" where
  "uuid_ok d \<longleftrightarrow> length d = 16"

fun bytes_le :: "nat \<Rightarrow> u64 \<Rightarrow> u8 list" where
  "bytes_le 0 v = []"
| "bytes_le (Suc n) v = ucast v # bytes_le n (drop_bit 8 v)"

fun word_le :: "u8 list \<Rightarrow> u64" where
  "word_le [] = 0"
| "word_le (b # bs) = ucast b + 256 * word_le bs"

definition Uuid_default :: uuid where
  "Uuid_default = replicate 16 0"

definition msb :: "uuid \<Rightarrow> i64" where
  "msb d = word_le (take 8 (drop 8 d))"

definition lsb :: "uuid \<Rightarrow> i64" where
  "lsb d = word_le (take 8 d)"

definition set_msb :: "i64 \<Rightarrow> uuid \<Rightarrow> uuid" where
  "set_msb v d = take 8 d @ bytes_le 8 v"

definition set_lsb :: "i64 \<Rightarrow> uuid \<Rightarrow> uuid" where
  "set_lsb v d = bytes_le 8 v @ drop 8 d"

definition set_lsb_msb :: "i64 \<Rightarrow> i64 \<Rightarrow> uuid \<Rightarrow> uuid" where
  "set_lsb_msb l m d = set_msb m (set_lsb l d)"

definition Uuid_halves :: "i64 \<Rightarrow> i64 \<Rightarrow> uuid" where
  "Uuid_halves l m = set_lsb_msb l m Uuid_default"

text \<open>The constructor from a string checks its size; \<open>ToString\<close> gives the bytes back.\<close>

definition Uuid_string :: "u8 list \<Rightarrow> uuid option" where
  "Uuid_string s = (if length s = 16 then Some s else None)"

definition Uuid_ToString :: "uuid \<Rightarrow> u8 list" where
  "Uuid_ToString d = d"

definition kHexmap :: "u8 list" where
  "kHexmap = [48, 49, 50, 51, 52, 53, 54, 55, 56, 57, 97, 98, 99, 100, 101, 102]"

text \<open>One byte of the pretty form: the loop runs down from the last byte and skips a position
  before bytes 4, 6, 8 and 10, where the filling \<open>-\<close> stays.\<close>

definition pretty_byte :: "uuid \<Rightarrow> nat \<Rightarrow> u8 list" where
  "pretty_byte d i =
     (let b = d ! (length d - i - 1) in
      (if i = 4 \<or> i = 6 \<or> i = 8 \<or> i = 10 then [45] else []) @
      [kHexmap ! unat (drop_bit 4 (b AND 0xf0)), kHexmap ! unat (b AND 0x0f)])"

definition ToPrettyString :: "uuid \<Rightarrow> u8 list" where
  "ToPrettyString d = concat (map (pretty_byte d) [0..<length d])"

definition minstd_next :: "nat \<Rightarrow> nat" where
  "minstd_next x = 48271 * x mod 2147483647"

text \<open>Seeding: a multiple of the modulus becomes 1.\<close>

definition minstd_seed :: "u32 \<Rightarrow> nat" where
  "minstd_seed s = (if unat s mod 2147483647 = 0 then 1 else unat s mod 2147483647)"

fun draw_bytes :: "nat \<Rightarrow> nat \<Rightarrow> u8 list \<times> nat" where
  "draw_bytes 0 rng = ([], rng)"
| "draw_bytes (Suc n) rng =
     (let rng = minstd_next rng; (bs, rng') = draw_bytes n rng in (word_of_nat rng # bs, rng'))"

definition Uuidv4 :: "nat \<Rightarrow> uuid \<times> nat" where
  "Uuidv4 rng =
     (let (data, rng') = draw_bytes 16 rng;
          data = data[6 := (data ! 6 AND 0x0f) OR 0x40];
          data = data[8 := (data ! 8 AND 0x3f) OR 0x80]
      in (data, rng'))"

definition GenUuidv4Lsb :: "nat \<Rightarrow> u64 \<times> nat" where
  "GenUuidv4Lsb rng = (let (u, rng') = Uuidv4 rng in (lsb u, rng'))"

subsection \<open>Halves\<close>

lemma length_bytes_le [simp]: "length (bytes_le n v) = n"
  by (induction n v rule: bytes_le.induct) simp_all

lemma word_le_Cons: "word_le (b # bs) = ucast b OR push_bit 8 (word_le bs)"
proof -
  have "\<not> bit (ucast b :: u64) n \<or> \<not> bit (push_bit 8 (word_le bs)) n" for n
    by (auto simp: bit_simps dest: bit_imp_le_length)
  then have "ucast b + push_bit 8 (word_le bs) = (ucast b OR push_bit 8 (word_le bs) :: u64)"
    by (rule disjunctive_add)
  then show ?thesis by (simp add: push_bit_eq_mult mult.commute)
qed

lemma word_le_bytes_le: "word_le (bytes_le n v) = take_bit (8 * n) v"
proof (induction n v rule: bytes_le.induct)
  case (2 n v)
  have "ucast (ucast v :: u8) OR push_bit 8 (take_bit (8 * n) (drop_bit 8 v)) = take_bit (8 * Suc n) v"
    by (rule bit_eqI) (auto simp: bit_simps dest: bit_imp_le_length)
  then show ?case by (simp only: bytes_le.simps word_le_Cons "2.IH")
qed simp

lemma take_bit_64 [simp]: "take_bit 64 (v :: u64) = v"
  by (rule bit_eqI) (auto simp: bit_simps dest: bit_imp_le_length)

lemma word_le_bytes_le_8 [simp]: "word_le (bytes_le 8 v) = v"
  by (simp add: word_le_bytes_le)

lemma bytes_le_word_le: "length bs \<le> 8 \<Longrightarrow> bytes_le (length bs) (word_le bs) = bs"
proof (induction bs)
  case (Cons b bs)
  have b: "(ucast ((ucast b :: u64) OR push_bit 8 (word_le bs)) :: u8) = b"
    by (rule bit_eqI) (auto simp: bit_simps dest: bit_imp_le_length)
  have "word_le bs = take_bit (8 * length bs) (word_le bs)"
    using Cons word_le_bytes_le [of "length bs" "word_le bs"] by simp
  then have "\<not> bit (word_le bs) k" if "56 \<le> k" for k
  proof -
    have "\<not> bit (take_bit (8 * length bs) (word_le bs)) k" using that Cons.prems by (simp add: bit_take_bit_iff)
    with \<open>word_le bs = take_bit (8 * length bs) (word_le bs)\<close> show ?thesis by metis
  qed
  then have d: "drop_bit 8 ((ucast b :: u64) OR push_bit 8 (word_le bs)) = word_le bs"
    by (intro bit_eqI) (auto simp: bit_simps dest: bit_imp_le_length)
  from Cons b d show ?case by (simp add: word_le_Cons del: word_le.simps)
qed simp

lemma draw_bytes_length: "length (fst (draw_bytes n rng)) = n"
  by (induction n arbitrary: rng) (simp_all add: Let_def split_beta)

text \<open>The low byte of a generated half is the first byte drawn, so halves can be told apart by it.\<close>

lemma gen_low_byte: "(ucast (fst (GenUuidv4Lsb g)) :: u8) = word_of_nat (minstd_next g)"
proof -
  obtain b bs where b: "fst (draw_bytes 16 g) = b # bs"
    using draw_bytes_length [of 16 g] by (cases "fst (draw_bytes 16 g)") auto
  then have "b = word_of_nat (minstd_next g)" by (simp add: numeral_eq_Suc Let_def split_beta)
  moreover have "fst (Uuidv4 g) = b # tl (fst (Uuidv4 g))"
    using b by (simp add: Uuidv4_def Let_def split_beta numeral_eq_Suc)
  then have "fst (GenUuidv4Lsb g) = word_le (b # take 7 (tl (fst (Uuidv4 g))))"
    by (metis GenUuidv4Lsb_def fst_conv lsb_def case_prod_unfold take_Suc_Cons eval_nat_numeral(2) semiring_norm(26) semiring_norm(27))
  moreover have "(ucast (word_le (b # xs)) :: u8) = b" for xs
    unfolding word_le_Cons by (rule bit_eqI) (auto simp: bit_simps dest: bit_imp_le_length)
  ultimately show ?thesis by simp
qed

lemma snd_GenUuidv4Lsb: "snd (GenUuidv4Lsb g) = snd (draw_bytes 16 g)"
  by (simp add: GenUuidv4Lsb_def Uuidv4_def Let_def split_beta)

text \<open>The two generated nibbles.\<close>

lemma version_nibble: "drop_bit 4 ((b AND 0x0f) OR 0x40 :: u8) = 4"
proof -
  have "drop_bit 4 (b AND 0x0f) = 0" for b :: u8
  proof -
    have "b AND 0x0f = take_bit 4 b" by (simp add: take_bit_eq_mask mask_eq_exp_minus_1)
    then show ?thesis by (simp add: drop_bit_take_bit)
  qed
  moreover have "drop_bit 4 (0x40 :: u8) = 4" by (simp add: drop_bit_eq_div)
  ultimately show ?thesis by (simp add: drop_bit_or)
qed

lemma variant_bits: "drop_bit 6 ((b AND 0x3f) OR 0x80 :: u8) = 2"
proof -
  have "b AND 0x3f = take_bit 6 b" for b :: u8 by (simp add: take_bit_eq_mask mask_eq_exp_minus_1)
  moreover have "drop_bit 6 (0x80 :: u8) = 2" by (simp add: drop_bit_eq_div)
  ultimately show ?thesis by (simp add: drop_bit_or drop_bit_take_bit)
qed

subsection \<open>Properties\<close>

text \<open>Setting the halves of a uuid and reading them back gives the values, and a uuid is
  rebuilt from its halves and from its string; strings of another size are refused.\<close>
theorem uuid_halves:
  "lsb (Uuid_halves l m) = l \<and> msb (Uuid_halves l m) = m \<and> uuid_ok (Uuid_halves l m) \<and>
   (uuid_ok d \<longrightarrow> Uuid_halves (lsb d) (msb d) = d \<and> Uuid_string (Uuid_ToString d) = Some d) \<and>
   (\<not> uuid_ok s \<longrightarrow> Uuid_string s = None)"
proof (intro conjI impI)
  show "lsb (Uuid_halves l m) = l" "msb (Uuid_halves l m) = m" "uuid_ok (Uuid_halves l m)"
    by (simp_all add: lsb_def msb_def Uuid_halves_def set_lsb_msb_def set_msb_def set_lsb_def uuid_ok_def)
  assume d: "uuid_ok d"
  then have "bytes_le 8 (word_le (take 8 d)) = take 8 d" "bytes_le 8 (word_le (take 8 (drop 8 d))) = drop 8 d"
    using bytes_le_word_le [of "take 8 d"] bytes_le_word_le [of "take 8 (drop 8 d)"] by (simp_all add: uuid_ok_def)
  then show "Uuid_halves (lsb d) (msb d) = d"
    using d by (simp add: lsb_def msb_def Uuid_halves_def set_lsb_msb_def set_msb_def set_lsb_def uuid_ok_def)
  show "Uuid_string (Uuid_ToString d) = Some d" using d by (simp add: Uuid_string_def Uuid_ToString_def uuid_ok_def)
next
  assume "\<not> uuid_ok s"
  then show "Uuid_string s = None" by (simp add: Uuid_string_def uuid_ok_def)
qed

theorem uuid_halves_witness:
  "Uuid_halves (lsb [1, 2, 3, 4, 5, 6, 7, 8, 9, 10, 11, 12, 13, 14, 15, 255]) (msb [1, 2, 3, 4, 5, 6, 7, 8, 9, 10, 11, 12, 13, 14, 15, 255])
     = [1, 2, 3, 4, 5, 6, 7, 8, 9, 10, 11, 12, 13, 14, 15, 255] \<and> Uuid_string [1] = None"
  using uuid_halves [of 0 0 "[1, 2, 3, 4, 5, 6, 7, 8, 9, 10, 11, 12, 13, 14, 15, 255]" "[1]"]
  by (simp add: uuid_ok_def)

text \<open>A generated uuid has 16 bytes and the version and variant bits of a random uuid.\<close>
theorem uuidv4_format:
  "uuid_ok (fst (Uuidv4 rng)) \<and> drop_bit 4 (fst (Uuidv4 rng) ! 6) = 4 \<and> drop_bit 6 (fst (Uuidv4 rng) ! 8) = 2"
  using draw_bytes_length [of 16 rng]
  by (simp add: Uuidv4_def Let_def split_beta uuid_ok_def version_nibble variant_bits)

end
