(* ===== verification/Sdk_Trace.thy ===== *)
theory Sdk_Trace
  imports Base_Uuid "HOL-Library.State_Monad"
begin

section \<open>Parsed traces and the walks over them (vperfetto-sdk.cpp)\<close>

text \<open>
  A trace parsed by the protobuf library is a list of packets. A packet is given by the fields the
  walks read or set; \<open>tp_rest\<close>, \<open>ft_rest\<close> and the other fields of type \<open>'o\<close> stand for everything else, which
  is carried along. A protobuf \<open>oneof\<close> is a datatype, an optional field an option; a pid field with
  the messages around it is one option, present when all the \<open>has_\<close> tests succeed. Ids of
  every type are 32-bit words.

  The walks take one function per kind of id. The functions change captured variables, so they are
  state monad actions; \<open>'s\<close> is the state of those variables.
\<close>

datatype FtraceEvent_event =
    Sched_switch (prev_pid: "u32 option") (next_pid: "u32 option")
  | Sched_wakeup "u32 option"
  | Sched_blocked_reason "u32 option"
  | Sched_waking "u32 option"
  | Sched_wakeup_new "u32 option"
  | Sched_process_exec "u32 option" "u32 option"
  | Sched_process_exit "u32 option" "u32 option"
  | Sched_process_fork "u32 option" "u32 option"
  | Sched_process_free "u32 option"
  | Sched_process_hang "u32 option"
  | Sched_process_wait "u32 option"
  | Other_event

record 'o FtraceEvent =
  ft_timestamp :: "u64 option"
  ft_pid :: "u32 option"
  ft_event :: FtraceEvent_event
  ft_rest :: 'o

record 'o FtraceEventBundle =
  fb_cpu :: "u32 option"
  fb_event :: "'o FtraceEvent list"
  fb_rest :: 'o

record 'o TrackDescriptor =
  td_uuid :: "u64 option"
  td_parent_uuid :: "u64 option"
  td_process_pid :: "u32 option"
  td_thread_pid :: "u32 option"
  td_rest :: 'o

record 'o ProcessTree =
  pt_processes :: "u32 option list"
  pt_threads :: "(u32 option \<times> u32 option) list"
  pt_rest :: 'o

text \<open>A clock snapshot is its list of clock ids and timestamps.\<close>

datatype 'o TracePacket_data =
    Ftrace_events "'o FtraceEventBundle"
  | Track_event "u64 option" 'o
  | Track_descriptor "'o TrackDescriptor"
  | Process_tree "'o ProcessTree"
  | Clock_snapshot "(u32 \<times> u64) list" 'o
  | Service_event 'o
  | Other_data 'o
  | No_data

record 'o TracePacket =
  tp_timestamp :: "u64 option"
  tp_trusted_uid :: "u32 option"
  tp_trusted_packet_sequence_id :: "u32 option"
  tp_default_track_uuid :: "u64 option"
  tp_data :: "'o TracePacket_data"
  tp_rest :: 'o

type_synonym 'o Trace = "'o TracePacket list"

definition mutateTracePackets :: "'o Trace \<Rightarrow> ('o TracePacket \<Rightarrow> 'o TracePacket) \<Rightarrow> 'o Trace" where
  "mutateTracePackets pbtrace mutator = map mutator pbtrace"

subsection \<open>Timestamps\<close>

fun data_timestamps :: "(u64 \<Rightarrow> u64) \<Rightarrow> 'o TracePacket_data \<Rightarrow> 'o TracePacket_data" where
  "data_timestamps f (Ftrace_events b) =
     Ftrace_events (b\<lparr>fb_event := map (\<lambda>e. e\<lparr>ft_timestamp := map_option f (ft_timestamp e)\<rparr>) (fb_event b)\<rparr>)"
| "data_timestamps f d = d"

definition iterateTraceTimestamps :: "'o Trace \<Rightarrow> (u64 \<Rightarrow> u64) \<Rightarrow> 'o Trace" where
  "iterateTraceTimestamps pbtrace forEachTimestamp =
     map (\<lambda>p. p\<lparr>tp_timestamp := map_option forEachTimestamp (tp_timestamp p),
                tp_data := data_timestamps forEachTimestamp (tp_data p)\<rparr>) pbtrace"

subsection \<open>Track uuids\<close>

text \<open>\<open>on_field f x\<close> applies \<open>f\<close> to a field that is set.\<close>

definition on_field :: "('a \<Rightarrow> ('s, 'a) state) \<Rightarrow> 'a option \<Rightarrow> ('s, 'a option) state" where
  "on_field f x = (case x of None \<Rightarrow> State_Monad.return None | Some v \<Rightarrow> do { w \<leftarrow> f v; State_Monad.return (Some w) })"

fun data_uuids :: "(u64 \<Rightarrow> ('s, u64) state) \<Rightarrow> 'o TracePacket_data \<Rightarrow> ('s, 'o TracePacket_data) state" where
  "data_uuids f (Track_event u r) = do { u' \<leftarrow> on_field f u; State_Monad.return (Track_event u' r) }"
| "data_uuids f (Track_descriptor d) =
     do { u \<leftarrow> on_field f (td_uuid d);
          p \<leftarrow> on_field f (td_parent_uuid d);
          State_Monad.return (Track_descriptor (d\<lparr>td_uuid := u, td_parent_uuid := p\<rparr>)) }"
| "data_uuids f d = State_Monad.return d"

definition iterateTraceTrackDescriptorUuids :: "'o Trace \<Rightarrow> (u64 \<Rightarrow> ('s, u64) state) \<Rightarrow> ('s, 'o Trace) state" where
  "iterateTraceTrackDescriptorUuids pbtrace forEachUuid =
     State_Monad.traverse_list (\<lambda>p.
       do { u \<leftarrow> on_field forEachUuid (tp_default_track_uuid p);
            d \<leftarrow> data_uuids forEachUuid (tp_data p);
            State_Monad.return (p\<lparr>tp_default_track_uuid := u, tp_data := d\<rparr>) }) pbtrace"

subsection \<open>Ids\<close>

datatype id_kind = TrustedUid | SequenceId | Pid | Tid | Cpu

type_synonym 's visitors = "id_kind \<Rightarrow> u32 \<Rightarrow> ('s, u32) state"

text \<open>The variables of the walk: those of the functions, and the new uuids of the tracks of a process or
  thread whose pid changed. \<open>rng\<close> is the state of the uuid generator.\<close>

record 's walk =
  captured :: 's
  uuidMap :: "u64 \<rightharpoonup> u64"
  needRemapUuids :: bool
  rng :: nat

definition visit :: "'s visitors \<Rightarrow> id_kind \<Rightarrow> u32 \<Rightarrow> ('s walk, u32) state" where
  "visit V k x = State (\<lambda>w. let (y, s) = run_state (V k x) (captured w) in (y, w\<lparr>captured := s\<rparr>))"

text \<open>Inside scheduler events a pid of 0 (the idle task) is left alone.\<close>

definition on_pid :: "'s visitors \<Rightarrow> u32 option \<Rightarrow> ('s walk, u32 option) state" where
  "on_pid V x = (case x of None \<Rightarrow> State_Monad.return None
     | Some v \<Rightarrow> if v \<noteq> 0 then do { w \<leftarrow> visit V Pid v; State_Monad.return (Some w) } else State_Monad.return (Some v))"

fun event_ids :: "'s visitors \<Rightarrow> FtraceEvent_event \<Rightarrow> ('s walk, FtraceEvent_event) state" where
  "event_ids V (Sched_switch a b) = do { a' \<leftarrow> on_pid V a; b' \<leftarrow> on_pid V b; State_Monad.return (Sched_switch a' b') }"
| "event_ids V (Sched_wakeup a) = do { a' \<leftarrow> on_pid V a; State_Monad.return (Sched_wakeup a') }"
| "event_ids V (Sched_blocked_reason a) = do { a' \<leftarrow> on_pid V a; State_Monad.return (Sched_blocked_reason a') }"
| "event_ids V (Sched_waking a) = do { a' \<leftarrow> on_pid V a; State_Monad.return (Sched_waking a') }"
| "event_ids V (Sched_wakeup_new a) = do { a' \<leftarrow> on_pid V a; State_Monad.return (Sched_wakeup_new a') }"
| "event_ids V (Sched_process_exec a b) = do { a' \<leftarrow> on_pid V a; b' \<leftarrow> on_pid V b; State_Monad.return (Sched_process_exec a' b') }"
| "event_ids V (Sched_process_exit a b) = do { a' \<leftarrow> on_pid V a; b' \<leftarrow> on_pid V b; State_Monad.return (Sched_process_exit a' b') }"
| "event_ids V (Sched_process_fork a b) = do { a' \<leftarrow> on_pid V a; b' \<leftarrow> on_pid V b; State_Monad.return (Sched_process_fork a' b') }"
| "event_ids V (Sched_process_free a) = do { a' \<leftarrow> on_pid V a; State_Monad.return (Sched_process_free a') }"
| "event_ids V (Sched_process_hang a) = do { a' \<leftarrow> on_pid V a; State_Monad.return (Sched_process_hang a') }"
| "event_ids V (Sched_process_wait a) = do { a' \<leftarrow> on_pid V a; State_Monad.return (Sched_process_wait a') }"
| "event_ids V Other_event = State_Monad.return Other_event"

definition ftrace_ids :: "'s visitors \<Rightarrow> 'o FtraceEvent \<Rightarrow> ('s walk, 'o FtraceEvent) state" where
  "ftrace_ids V e =
     do { p \<leftarrow> on_field (visit V Pid) (ft_pid e);
          ev \<leftarrow> event_ids V (ft_event e);
          State_Monad.return (e\<lparr>ft_pid := p, ft_event := ev\<rparr>) }"

definition transformPidWithUuidRemapTracking :: "'s visitors \<Rightarrow> u32 \<Rightarrow> u64 \<Rightarrow> ('s walk, u32) state" where
  "transformPidWithUuidRemapTracking V prev prevUuid =
     do { nxt \<leftarrow> visit V Pid prev;
          w \<leftarrow> State_Monad.get;
          if prev = nxt then State_Monad.return nxt
          else if uuidMap w prevUuid \<noteq> None then State_Monad.return nxt
          else do {
            let (u, g) = GenUuidv4Lsb (rng w);
            State_Monad.set (w\<lparr>uuidMap := (uuidMap w)(prevUuid \<mapsto> u), rng := g, needRemapUuids := True\<rparr>);
            State_Monad.return nxt } }"

text \<open>\<open>trd->uuid()\<close> of a descriptor without a uuid is 0.\<close>

definition descriptor_ids :: "'s visitors \<Rightarrow> 'o TrackDescriptor \<Rightarrow> ('s walk, 'o TrackDescriptor) state" where
  "descriptor_ids V d =
     (let uuid = (case td_uuid d of None \<Rightarrow> 0 | Some u \<Rightarrow> u) in
      do { p \<leftarrow> on_field (\<lambda>v. transformPidWithUuidRemapTracking V v uuid) (td_process_pid d);
           t \<leftarrow> on_field (\<lambda>v. transformPidWithUuidRemapTracking V v uuid) (td_thread_pid d);
           State_Monad.return (d\<lparr>td_process_pid := p, td_thread_pid := t\<rparr>) })"

definition tree_thread_ids :: "'s visitors \<Rightarrow> u32 option \<times> u32 option \<Rightarrow> ('s walk, u32 option \<times> u32 option) state" where
  "tree_thread_ids V t =
     do { i \<leftarrow> on_field (visit V Tid) (fst t);
          g \<leftarrow> on_field (visit V Pid) (snd t);
          State_Monad.return (i, g) }"

definition tree_ids :: "'s visitors \<Rightarrow> 'o ProcessTree \<Rightarrow> ('s walk, 'o ProcessTree) state" where
  "tree_ids V t =
     do { ps \<leftarrow> State_Monad.traverse_list (on_field (visit V Pid)) (pt_processes t);
          ts \<leftarrow> State_Monad.traverse_list (tree_thread_ids V) (pt_threads t);
          State_Monad.return (t\<lparr>pt_processes := ps, pt_threads := ts\<rparr>) }"

fun data_ids :: "'s visitors \<Rightarrow> 'o TracePacket_data \<Rightarrow> ('s walk, 'o TracePacket_data) state" where
  "data_ids V (Ftrace_events b) =
     do { c \<leftarrow> on_field (visit V Cpu) (fb_cpu b);
          es \<leftarrow> State_Monad.traverse_list (ftrace_ids V) (fb_event b);
          State_Monad.return (Ftrace_events (b\<lparr>fb_cpu := c, fb_event := es\<rparr>)) }"
| "data_ids V (Track_descriptor d) = do { d' \<leftarrow> descriptor_ids V d; State_Monad.return (Track_descriptor d') }"
| "data_ids V (Process_tree t) = do { t' \<leftarrow> tree_ids V t; State_Monad.return (Process_tree t') }"
| "data_ids V d = State_Monad.return d"

definition packet_ids :: "'s visitors \<Rightarrow> 'o TracePacket \<Rightarrow> ('s walk, 'o TracePacket) state" where
  "packet_ids V p =
     do { u \<leftarrow> on_field (visit V TrustedUid) (tp_trusted_uid p);
          s \<leftarrow> on_field (visit V SequenceId) (tp_trusted_packet_sequence_id p);
          d \<leftarrow> data_ids V (tp_data p);
          State_Monad.return (p\<lparr>tp_trusted_uid := u, tp_trusted_packet_sequence_id := s, tp_data := d\<rparr>) }"

text \<open>The last walk looks uuids up with \<open>operator[]\<close>, which inserts 0 for a missing one.\<close>

definition lookup_uuid :: "u64 \<Rightarrow> ('s walk, u64) state" where
  "lookup_uuid uuid =
     do { w \<leftarrow> State_Monad.get;
          case uuidMap w uuid of
            Some u \<Rightarrow> State_Monad.return u
          | None \<Rightarrow> do { State_Monad.set (w\<lparr>uuidMap := (uuidMap w)(uuid \<mapsto> 0)\<rparr>); State_Monad.return 0 } }"

definition iterateTraceIds :: "'s visitors \<Rightarrow> 'o Trace \<Rightarrow> ('s walk, 'o Trace) state" where
  "iterateTraceIds V pbtrace =
     do { t \<leftarrow> State_Monad.traverse_list (packet_ids V) pbtrace;
          w \<leftarrow> State_Monad.get;
          if needRemapUuids w then iterateTraceTrackDescriptorUuids t lookup_uuid else State_Monad.return t }"

definition start_walk :: "'s \<Rightarrow> nat \<Rightarrow> 's walk" where
  "start_walk s g = \<lparr>captured = s, uuidMap = Map.empty, needRemapUuids = False, rng = g\<rparr>"

end
