(* ===== verification/Sdk_Merge.thy ===== *)
theory Sdk_Merge
  imports Sdk_Trace
begin

section \<open>Merging two traces (sCalcMaxIds and constructCombinedTrace in vperfetto-sdk.cpp)\<close>

text \<open>
  The protobuf parser and serializer are arguments: \<open>parse\<close> is \<open>ParseFromString\<close> (\<open>None\<close> when it
  fails) and \<open>serialize\<close> is \<open>SerializeToString\<close>.
\<close>

record max_ids =
  maxTrustedUid :: u32
  maxSequenceId :: u32
  maxPid :: u32
  maxTid :: u32
  maxCpu :: u32

definition zero_ids :: max_ids where
  "zero_ids = \<lparr>maxTrustedUid = 0, maxSequenceId = 0, maxPid = 0, maxTid = 0, maxCpu = 0\<rparr>"

fun max_visitors :: "max_ids visitors" where
  "max_visitors TrustedUid uid = State (\<lambda>m. (uid, if uid > maxTrustedUid m then m\<lparr>maxTrustedUid := uid\<rparr> else m))"
| "max_visitors SequenceId seqid = State (\<lambda>m. (seqid, if seqid > maxSequenceId m then m\<lparr>maxSequenceId := seqid\<rparr> else m))"
| "max_visitors Pid pid = State (\<lambda>m. (pid, if pid > maxPid m then m\<lparr>maxPid := pid\<rparr> else m))"
| "max_visitors Tid tid = State (\<lambda>m. (tid, if tid > maxTid m then m\<lparr>maxTid := tid\<rparr> else m))"
| "max_visitors Cpu cpu = State (\<lambda>m. (cpu, if cpu > maxCpu m then m\<lparr>maxCpu := cpu\<rparr> else m))"

definition sCalcMaxIds :: "(u8 list \<Rightarrow> 'o Trace option) \<Rightarrow> u8 list \<Rightarrow> nat \<Rightarrow> max_ids \<times> nat" where
  "sCalcMaxIds parse trace g =
     (case parse trace of
        None \<Rightarrow> (zero_ids, g)
      | Some pbtrace \<Rightarrow>
          (let (_, w) = run_state (iterateTraceIds max_visitors pbtrace) (start_walk zero_ids g)
           in (captured w, rng w)))"

fun offset_id :: "max_ids \<Rightarrow> id_kind \<Rightarrow> u32 \<Rightarrow> u32" where
  "offset_id m TrustedUid uid = uid + maxTrustedUid m"
| "offset_id m SequenceId seqid = seqid + maxSequenceId m"
| "offset_id m Pid pid = (if pid = 0 then 0 else pid + maxPid m)"
| "offset_id m Tid tid = (if tid = 0 then 0 else tid + maxTid m)"
| "offset_id m Cpu cpu = cpu + maxCpu m + 1"

definition addon_visitors :: "max_ids \<Rightarrow> unit visitors" where
  "addon_visitors m = (\<lambda>k x. State_Monad.return (offset_id m k x))"

definition clear_snapshots :: "'o TracePacket \<Rightarrow> 'o TracePacket" where
  "clear_snapshots p =
     (case tp_data p of
        Clock_snapshot cs r \<Rightarrow> p\<lparr>tp_data := No_data\<rparr>
      | Service_event r \<Rightarrow> p\<lparr>tp_data := No_data\<rparr>
      | _ \<Rightarrow> p)"

text \<open>What is done to the packets of the added trace.\<close>

definition transform_addon :: "max_ids \<Rightarrow> i64 \<Rightarrow> nat \<Rightarrow> 'o Trace \<Rightarrow> 'o Trace \<times> nat" where
  "transform_addon m mainTimeDiff g addon =
     (let t = iterateTraceTimestamps (mutateTracePackets addon clear_snapshots) (\<lambda>ts. ts + mainTimeDiff);
          (t', w) = run_state (iterateTraceIds (addon_visitors m) t) (start_walk () g)
      in (t', rng w))"

definition constructCombinedTrace :: "(u8 list \<Rightarrow> 'o Trace option) \<Rightarrow> ('o Trace \<Rightarrow> u8 list) \<Rightarrow>
    u8 list \<Rightarrow> u8 list \<Rightarrow> i64 \<Rightarrow> nat \<Rightarrow> u8 list \<times> nat" where
  "constructCombinedTrace parse serialize mainTrace addonTrace mainTimeDiff g =
     (let (m, g1) = sCalcMaxIds parse mainTrace g in
      case parse addonTrace of
        None \<Rightarrow> ([], g1)
      | Some addon_pbtrace \<Rightarrow>
          (let (t, g2) = transform_addon m mainTimeDiff g1 addon_pbtrace
           in (mainTrace @ serialize t, g2)))"

subsection \<open>The walk as a map\<close>

text \<open>What a walk does to a packet and what it visits, for functions that return \<open>G k x\<close>.\<close>

definition map_nonzero :: "(u32 \<Rightarrow> u32) \<Rightarrow> u32 option \<Rightarrow> u32 option" where
  "map_nonzero g = map_option (\<lambda>v. if v \<noteq> 0 then g v else v)"

fun map_event :: "(u32 option \<Rightarrow> u32 option) \<Rightarrow> FtraceEvent_event \<Rightarrow> FtraceEvent_event" where
  "map_event f (Sched_switch a b) = Sched_switch (f a) (f b)"
| "map_event f (Sched_wakeup a) = Sched_wakeup (f a)"
| "map_event f (Sched_blocked_reason a) = Sched_blocked_reason (f a)"
| "map_event f (Sched_waking a) = Sched_waking (f a)"
| "map_event f (Sched_wakeup_new a) = Sched_wakeup_new (f a)"
| "map_event f (Sched_process_exec a b) = Sched_process_exec (f a) (f b)"
| "map_event f (Sched_process_exit a b) = Sched_process_exit (f a) (f b)"
| "map_event f (Sched_process_fork a b) = Sched_process_fork (f a) (f b)"
| "map_event f (Sched_process_free a) = Sched_process_free (f a)"
| "map_event f (Sched_process_hang a) = Sched_process_hang (f a)"
| "map_event f (Sched_process_wait a) = Sched_process_wait (f a)"
| "map_event f Other_event = Other_event"

fun event_fields :: "FtraceEvent_event \<Rightarrow> u32 option list" where
  "event_fields (Sched_switch a b) = [a, b]"
| "event_fields (Sched_process_exec a b) = [a, b]"
| "event_fields (Sched_process_exit a b) = [a, b]"
| "event_fields (Sched_process_fork a b) = [a, b]"
| "event_fields (Sched_wakeup a) = [a]"
| "event_fields (Sched_blocked_reason a) = [a]"
| "event_fields (Sched_waking a) = [a]"
| "event_fields (Sched_wakeup_new a) = [a]"
| "event_fields (Sched_process_free a) = [a]"
| "event_fields (Sched_process_hang a) = [a]"
| "event_fields (Sched_process_wait a) = [a]"
| "event_fields Other_event = []"

definition field_list :: "id_kind \<Rightarrow> u32 option \<Rightarrow> (id_kind \<times> u32) list" where
  "field_list k x = (case x of None \<Rightarrow> [] | Some v \<Rightarrow> [(k, v)])"

definition nonzero_list :: "u32 option \<Rightarrow> (id_kind \<times> u32) list" where
  "nonzero_list x = (case x of None \<Rightarrow> [] | Some v \<Rightarrow> if v \<noteq> 0 then [(Pid, v)] else [])"

definition event_visits :: "FtraceEvent_event \<Rightarrow> (id_kind \<times> u32) list" where
  "event_visits e = concat (map nonzero_list (event_fields e))"

fun data_visits :: "'o TracePacket_data \<Rightarrow> (id_kind \<times> u32) list" where
  "data_visits (Ftrace_events b) =
     field_list Cpu (fb_cpu b) @ concat (map (\<lambda>e. field_list Pid (ft_pid e) @ event_visits (ft_event e)) (fb_event b))"
| "data_visits (Track_descriptor d) = field_list Pid (td_process_pid d) @ field_list Pid (td_thread_pid d)"
| "data_visits (Process_tree t) =
     concat (map (field_list Pid) (pt_processes t)) @
     concat (map (\<lambda>(i, g). field_list Tid i @ field_list Pid g) (pt_threads t))"
| "data_visits d = []"

definition packet_visits :: "'o TracePacket \<Rightarrow> (id_kind \<times> u32) list" where
  "packet_visits p = field_list TrustedUid (tp_trusted_uid p) @
     field_list SequenceId (tp_trusted_packet_sequence_id p) @ data_visits (tp_data p)"

definition trace_visits :: "'o Trace \<Rightarrow> (id_kind \<times> u32) list" where
  "trace_visits t = concat (map packet_visits t)"

fun map_data_ids :: "(id_kind \<Rightarrow> u32 \<Rightarrow> u32) \<Rightarrow> 'o TracePacket_data \<Rightarrow> 'o TracePacket_data" where
  "map_data_ids G (Ftrace_events b) =
     Ftrace_events (b\<lparr>fb_cpu := map_option (G Cpu) (fb_cpu b),
       fb_event := map (\<lambda>e. e\<lparr>ft_pid := map_option (G Pid) (ft_pid e),
                            ft_event := map_event (map_nonzero (G Pid)) (ft_event e)\<rparr>) (fb_event b)\<rparr>)"
| "map_data_ids G (Track_descriptor d) =
     Track_descriptor (d\<lparr>td_process_pid := map_option (G Pid) (td_process_pid d),
                         td_thread_pid := map_option (G Pid) (td_thread_pid d)\<rparr>)"
| "map_data_ids G (Process_tree t) =
     Process_tree (t\<lparr>pt_processes := map (map_option (G Pid)) (pt_processes t),
       pt_threads := map (map_prod (map_option (G Tid)) (map_option (G Pid))) (pt_threads t)\<rparr>)"
| "map_data_ids G d = d"

definition map_ids :: "(id_kind \<Rightarrow> u32 \<Rightarrow> u32) \<Rightarrow> 'o TracePacket \<Rightarrow> 'o TracePacket" where
  "map_ids G p = p\<lparr>tp_trusted_uid := map_option (G TrustedUid) (tp_trusted_uid p),
     tp_trusted_packet_sequence_id := map_option (G SequenceId) (tp_trusted_packet_sequence_id p),
     tp_data := map_data_ids G (tp_data p)\<rparr>"

text \<open>The tracks whose process or thread has a pid: the pid and the uuid of the track.\<close>

fun data_tracks :: "'o TracePacket_data \<Rightarrow> (u32 \<times> u64) list" where
  "data_tracks (Track_descriptor d) =
     (let uuid = (case td_uuid d of None \<Rightarrow> 0 | Some u \<Rightarrow> u)
      in map (\<lambda>(k, v). (v, uuid)) (field_list Pid (td_process_pid d) @ field_list Pid (td_thread_pid d)))"
| "data_tracks d = []"

definition trace_tracks :: "'o Trace \<Rightarrow> (u32 \<times> u64) list" where
  "trace_tracks t = concat (map (\<lambda>p. data_tracks (tp_data p)) t)"

definition remember :: "(u32 \<Rightarrow> u32) \<Rightarrow> u32 \<times> u64 \<Rightarrow> 's walk \<Rightarrow> 's walk" where
  "remember g = (\<lambda>(prev, uuid) w.
     if g prev = prev \<or> uuidMap w uuid \<noteq> None then w
     else w\<lparr>uuidMap := (uuidMap w)(uuid \<mapsto> fst (GenUuidv4Lsb (rng w))), rng := snd (GenUuidv4Lsb (rng w)),
           needRemapUuids := True\<rparr>)"

definition visited :: "(id_kind \<Rightarrow> u32 \<Rightarrow> 's \<Rightarrow> 's) \<Rightarrow> (id_kind \<times> u32) list \<Rightarrow> 's walk \<Rightarrow> 's walk" where
  "visited H xs w = w\<lparr>captured := fold (\<lambda>(k, x). H k x) xs (captured w)\<rparr>"

lemma visited_simps [simp]:
  "visited H [] w = w" "visited H (xs @ ys) w = visited H ys (visited H xs w)"
  "needRemapUuids (visited H xs w) = needRemapUuids w" "uuidMap (visited H xs w) = uuidMap w" "rng (visited H xs w) = rng w"
  "captured (visited H xs w) = fold (\<lambda>(k, x). H k x) xs (captured w)"
  by (simp_all add: visited_def)

lemma remember_visited: "remember g t (visited H xs w) = visited H xs (remember g t w)"
  by (cases t) (simp add: remember_def visited_def)

lemma fold_remember_visited: "fold (remember g) ts (visited H xs w) = visited H xs (fold (remember g) ts w)"
  by (induction ts arbitrary: w) (simp_all add: remember_visited)

lemma traverse_runs:
  "(\<And>x w. x \<in> set xs \<Longrightarrow> run_state (f x) w = (g x, visited H (h x) w)) \<Longrightarrow>
     run_state (State_Monad.traverse_list f xs) w = (map g xs, visited H (concat (map h xs)) w)"
  by (induction xs arbitrary: w) simp_all

text \<open>The functions given to the walk: each returns \<open>G k x\<close> and changes the captured variables by \<open>H k x\<close>.\<close>

locale id_functions =
  fixes V :: "'s visitors" and G :: "id_kind \<Rightarrow> u32 \<Rightarrow> u32" and H :: "id_kind \<Rightarrow> u32 \<Rightarrow> 's \<Rightarrow> 's"
  assumes runs: "run_state (V k x) s = (G k x, H k x s)"
begin

lemma run_visit [simp]: "run_state (visit V k x) w = (G k x, visited H [(k, x)] w)"
  by (simp add: visit_def runs visited_def)

lemma run_on_field [simp]: "run_state (on_field (visit V k) x) w = (map_option (G k) x, visited H (field_list k x) w)"
  by (simp add: on_field_def field_list_def split: option.split)

lemma run_on_pid [simp]: "run_state (on_pid V x) w = (map_nonzero (G Pid) x, visited H (nonzero_list x) w)"
  by (simp add: on_pid_def nonzero_list_def map_nonzero_def split: option.split)

lemma run_event [simp]: "run_state (event_ids V e) w = (map_event (map_nonzero (G Pid)) e, visited H (event_visits e) w)"
  by (cases e) (simp_all add: event_visits_def)

lemma run_ftrace [simp]:
  "run_state (ftrace_ids V e) w =
     (e\<lparr>ft_pid := map_option (G Pid) (ft_pid e), ft_event := map_event (map_nonzero (G Pid)) (ft_event e)\<rparr>,
      visited H (field_list Pid (ft_pid e) @ event_visits (ft_event e)) w)"
  by (simp add: ftrace_ids_def)

lemma run_tree [simp]:
  "run_state (tree_ids V t) w =
     (t\<lparr>pt_processes := map (map_option (G Pid)) (pt_processes t),
       pt_threads := map (map_prod (map_option (G Tid)) (map_option (G Pid))) (pt_threads t)\<rparr>,
      visited H (concat (map (field_list Pid) (pt_processes t)) @
        concat (map (\<lambda>(i, g). field_list Tid i @ field_list Pid g) (pt_threads t))) w)"
proof -
  have "run_state (tree_thread_ids V x) w =
      (map_prod (map_option (G Tid)) (map_option (G Pid)) x, visited H ((\<lambda>(i, g). field_list Tid i @ field_list Pid g) x) w)" for x w
    by (cases x) (simp add: tree_thread_ids_def)
  note t = traverse_runs [where f = "tree_thread_ids V", OF this]
  have "run_state (State_Monad.traverse_list (on_field (visit V Pid)) xs) w =
      (map (map_option (G Pid)) xs, visited H (concat (map (field_list Pid) xs)) w)" for xs w
    by (rule traverse_runs) simp
  with t show ?thesis by (simp add: tree_ids_def)
qed

lemma run_transform:
  "run_state (transformPidWithUuidRemapTracking V v uuid) w = (G Pid v, remember (G Pid) (v, uuid) (visited H [(Pid, v)] w))"
  by (auto simp: transformPidWithUuidRemapTracking_def remember_def split_beta Let_def)

lemma run_descriptor [simp]:
  "run_state (descriptor_ids V d) w =
     (d\<lparr>td_process_pid := map_option (G Pid) (td_process_pid d), td_thread_pid := map_option (G Pid) (td_thread_pid d)\<rparr>,
      fold (remember (G Pid)) (data_tracks (Track_descriptor d))
        (visited H (field_list Pid (td_process_pid d) @ field_list Pid (td_thread_pid d)) w))"
  by (simp add: descriptor_ids_def on_field_def field_list_def run_transform remember_visited Let_def split: option.split)

lemma run_data [simp]:
  "run_state (data_ids V d) w = (map_data_ids G d, fold (remember (G Pid)) (data_tracks d) (visited H (data_visits d) w))"
proof (cases d)
  case (Ftrace_events b)
  have "run_state (State_Monad.traverse_list (ftrace_ids V) (fb_event b)) w =
      (map (\<lambda>e. e\<lparr>ft_pid := map_option (G Pid) (ft_pid e), ft_event := map_event (map_nonzero (G Pid)) (ft_event e)\<rparr>) (fb_event b),
       visited H (concat (map (\<lambda>e. field_list Pid (ft_pid e) @ event_visits (ft_event e)) (fb_event b))) w)" for w
    by (rule traverse_runs) simp
  with Ftrace_events show ?thesis by simp
qed (simp_all del: data_tracks.simps(1) add: data_tracks.simps(2-))

lemma run_packet:
  "run_state (packet_ids V p) w =
     (map_ids G p, fold (remember (G Pid)) (data_tracks (tp_data p)) (visited H (packet_visits p) w))"
  by (simp add: packet_ids_def map_ids_def packet_visits_def)

lemma run_packets:
  "run_state (State_Monad.traverse_list (packet_ids V) t) w =
     (map (map_ids G) t, fold (remember (G Pid)) (trace_tracks t) (visited H (trace_visits t) w))"
  by (induction t arbitrary: w)
    (simp_all add: run_packet trace_tracks_def trace_visits_def fold_remember_visited)

end

subsection \<open>The second walk: uuids\<close>

definition remap :: "(u64 \<rightharpoonup> u64) \<Rightarrow> u64 \<Rightarrow> u64" where
  "remap m u = (case m u of Some v \<Rightarrow> v | None \<Rightarrow> 0)"

fun map_data_uuids :: "(u64 \<Rightarrow> u64) \<Rightarrow> 'o TracePacket_data \<Rightarrow> 'o TracePacket_data" where
  "map_data_uuids r (Track_event u x) = Track_event (map_option r u) x"
| "map_data_uuids r (Track_descriptor d) =
     Track_descriptor (d\<lparr>td_uuid := map_option r (td_uuid d), td_parent_uuid := map_option r (td_parent_uuid d)\<rparr>)"
| "map_data_uuids r d = d"

definition map_uuids :: "(u64 \<Rightarrow> u64) \<Rightarrow> 'o TracePacket \<Rightarrow> 'o TracePacket" where
  "map_uuids r p = p\<lparr>tp_default_track_uuid := map_option r (tp_default_track_uuid p), tp_data := map_data_uuids r (tp_data p)\<rparr>"

text \<open>Inserting 0 for a missing uuid does not change what uuids are mapped to.\<close>

definition maps_to :: "(u64 \<Rightarrow> u64) \<Rightarrow> ('s walk, 'a) state \<Rightarrow> 'a \<Rightarrow> bool" where
  "maps_to r m x \<longleftrightarrow> (\<forall>w. remap (uuidMap w) = r \<longrightarrow>
     (\<exists>w'. run_state m w = (x, w') \<and> remap (uuidMap w') = r \<and> captured w' = captured w \<and> rng w' = rng w))"

lemma maps_to_return: "maps_to r (State_Monad.return x) x"
  by (simp add: maps_to_def)

lemma maps_to_bind: "maps_to r m x \<Longrightarrow> maps_to r (f x) y \<Longrightarrow> maps_to r (State_Monad.bind m f) y"
  unfolding maps_to_def by fastforce

lemma maps_to_lookup: "maps_to r (lookup_uuid u) (r u)"
  by (auto simp: maps_to_def lookup_uuid_def remap_def fun_eq_iff split: option.splits)

lemma maps_to_field: "maps_to r (on_field lookup_uuid u) (map_option r u)"
  by (cases u) (auto simp: on_field_def intro!: maps_to_return maps_to_bind [OF maps_to_lookup])

lemma maps_to_data: "maps_to r (data_uuids lookup_uuid d) (map_data_uuids r d)"
  by (cases d) (auto intro!: maps_to_return maps_to_bind [OF maps_to_field])

lemma maps_to_traverse:
  "(\<And>x. maps_to r (f x) (g x)) \<Longrightarrow> maps_to r (State_Monad.traverse_list f xs) (map g xs)"
  by (induction xs) (auto intro!: maps_to_return maps_to_bind)

lemma maps_to_uuids: "maps_to r (iterateTraceTrackDescriptorUuids t lookup_uuid) (map (map_uuids r) t)"
  unfolding iterateTraceTrackDescriptorUuids_def map_uuids_def
  by (intro maps_to_traverse maps_to_bind [OF maps_to_field] maps_to_bind [OF maps_to_data] maps_to_return)

subsection \<open>The remembered tracks\<close>

fun after_draws :: "nat \<Rightarrow> nat \<Rightarrow> nat" where
  "after_draws 0 g = g"
| "after_draws (Suc n) g = snd (GenUuidv4Lsb (after_draws n g))"

definition draw_uuids :: "nat \<Rightarrow> nat \<Rightarrow> u64 list" where
  "draw_uuids n g = map (\<lambda>i. fst (GenUuidv4Lsb (after_draws i g))) [0..<n]"

lemma length_draw_uuids [simp]: "length (draw_uuids n g) = n"
  by (simp add: draw_uuids_def)

lemma draw_uuids_Suc: "draw_uuids (Suc n) g = draw_uuids n g @ [fst (GenUuidv4Lsb (after_draws n g))]"
  by (simp add: draw_uuids_def)

lemma map_of_zip_snoc:
  "length ks = length ds \<Longrightarrow> k \<notin> set ks \<Longrightarrow> map_of (zip (ks @ [k]) (ds @ [d])) = (map_of (zip ks ds))(k \<mapsto> d)"
proof -
  assume a: "length ks = length ds" "k \<notin> set ks"
  then have "dom (map_of (zip ks ds)) = set ks" by simp
  with a have "[k \<mapsto> d] ++ map_of (zip ks ds) = map_of (zip ks ds) ++ [k \<mapsto> d]" by (intro map_add_comm) simp
  with a show ?thesis by simp
qed

lemma remember_apply:
  "remember g (p, u) w =
     (if g p = p \<or> uuidMap w u \<noteq> None then w
      else w\<lparr>uuidMap := (uuidMap w)(u \<mapsto> fst (GenUuidv4Lsb (rng w))), rng := snd (GenUuidv4Lsb (rng w)),
            needRemapUuids := True\<rparr>)"
  by (simp add: remember_def)

text \<open>The tracks whose pid changes get a new uuid, each uuid one.\<close>

lemma fold_remember:
  assumes "uuidMap w = Map.empty" and "\<not> needRemapUuids w"
  shows "\<exists>keys. distinct keys \<and> set keys = {u. \<exists>p. (p, u) \<in> set ts \<and> g p \<noteq> p} \<and> length keys \<le> length ts \<and>
    uuidMap (fold (remember g) ts w) = map_of (zip keys (draw_uuids (length keys) (rng w))) \<and>
    rng (fold (remember g) ts w) = after_draws (length keys) (rng w) \<and>
    needRemapUuids (fold (remember g) ts w) = (keys \<noteq> [])"
proof (induction ts rule: rev_induct)
  case Nil
  then show ?case using assms by (intro exI [of _ "[]"]) simp
next
  case (snoc t ts)
  obtain p u where t: "t = (p, u)" by fastforce
  from snoc obtain keys where k: "distinct keys" "set keys = {u. \<exists>p. (p, u) \<in> set ts \<and> g p \<noteq> p}" "length keys \<le> length ts"
    "uuidMap (fold (remember g) ts w) = map_of (zip keys (draw_uuids (length keys) (rng w)))"
    "rng (fold (remember g) ts w) = after_draws (length keys) (rng w)"
    "needRemapUuids (fold (remember g) ts w) = (keys \<noteq> [])" by blast
  have known: "uuidMap (fold (remember g) ts w) u \<noteq> None \<longleftrightarrow> u \<in> set keys"
    unfolding k(4) using map_of_zip_is_None [of keys "draw_uuids (length keys) (rng w)" u] by simp
  show ?case
  proof (cases "g p = p \<or> u \<in> set keys")
    case True
    then have "remember g t (fold (remember g) ts w) = fold (remember g) ts w"
      using known by (auto simp: t remember_apply)
    moreover have "set keys = {u'. \<exists>p'. (p', u') \<in> set (ts @ [t]) \<and> g p' \<noteq> p'}"
      using True k(2) by (auto simp: t)
    ultimately show ?thesis using k by (intro exI [of _ keys]) simp
  next
    case False
    with known have "uuidMap (fold (remember g) ts w) u = None" by blast
    define w1 where "w1 = fold (remember g) ts w"
    have "fold (remember g) (ts @ [t]) w = w1\<lparr>uuidMap := (uuidMap w1)(u \<mapsto> fst (GenUuidv4Lsb (rng w1))),
        rng := snd (GenUuidv4Lsb (rng w1)), needRemapUuids := True\<rparr>"
      using False \<open>uuidMap _ u = None\<close> by (simp add: t remember_apply w1_def)
    moreover have "uuidMap w1 = map_of (zip keys (draw_uuids (length keys) (rng w)))" "rng w1 = after_draws (length keys) (rng w)"
      using k by (simp_all add: w1_def)
    moreover have "set (keys @ [u]) = {u'. \<exists>p'. (p', u') \<in> set (ts @ [t]) \<and> g p' \<noteq> p'}"
      using False k(2) by (auto simp: t)
    ultimately show ?thesis
      using False k(1,3) by (intro exI [of _ "keys @ [u]"]) (simp add: draw_uuids_Suc map_of_zip_snoc del: zip_append)
  qed
qed

lemma map_of_zip_inj: "distinct ks \<Longrightarrow> distinct ds \<Longrightarrow> length ks = length ds \<Longrightarrow> inj_on (map_of (zip ks ds)) (set ks)"
proof (rule inj_onI)
  fix x y
  assume a: "distinct ks" "distinct ds" "length ks = length ds" "x \<in> set ks" "y \<in> set ks"
    and e: "map_of (zip ks ds) x = map_of (zip ks ds) y"
  from a(4,5) obtain i j where "i < length ks" "j < length ks" "x = ks ! i" "y = ks ! j" by (auto simp: in_set_conv_nth)
  with a(1-3) e show "x = y" by (simp add: map_of_zip_nth nth_eq_iff_index_eq)
qed

text \<open>The whole walk from a start state.\<close>

definition uuid_table :: "(u32 \<Rightarrow> u32) \<Rightarrow> 'o Trace \<Rightarrow> nat \<Rightarrow> (u64 \<rightharpoonup> u64)" where
  "uuid_table g t r = uuidMap (fold (remember g) (trace_tracks t) (start_walk () r))"

lemma remember_parts:
  "uuidMap w = uuidMap w2 \<Longrightarrow> rng w = rng w2 \<Longrightarrow> needRemapUuids w = needRemapUuids w2 \<Longrightarrow>
     uuidMap (fold (remember g) ts w) = uuidMap (fold (remember g) ts w2) \<and>
     rng (fold (remember g) ts w) = rng (fold (remember g) ts w2) \<and>
     needRemapUuids (fold (remember g) ts w) = needRemapUuids (fold (remember g) ts w2)"
proof (induction ts arbitrary: w w2)
  case (Cons t ts)
  have "uuidMap (remember g t w) = uuidMap (remember g t w2)" "rng (remember g t w) = rng (remember g t w2)"
    "needRemapUuids (remember g t w) = needRemapUuids (remember g t w2)"
    using Cons.prems by (simp_all add: remember_def split_beta)
  from Cons.IH [OF this] show ?case by simp
qed simp

lemma fold_remember_captured [simp]: "captured (fold (remember g) ts w) = captured w"
  by (induction ts arbitrary: w) (simp_all add: remember_def split_beta)

end
