(* ===== verification/Sdk_Session.thy ===== *)
theory Sdk_Session
  imports Sdk_Merge Trace_Async
begin

section \<open>Tracing with the SDK (the API of vperfetto-sdk.cpp)\<close>

text \<open>
  With the full SDK the library records the trace: a \<open>TracingSession\<close> exists while tracing, and stopping
  it gives the host trace. \<open>sdk_session\<close> says whether \<open>sTracingSession\<close> is set; \<open>trace\<close> is what
  \<open>ReadTraceBlocking\<close> returns. A file write is the name and the bytes. \<open>saveNames\<close> is not a global of the program: it holds
  the local variables of the background thread, the file names it reads when it starts.
\<close>

record sdk_state =
  sdk_cfg :: VirtualDeviceTraceConfig
  sPerfettoInitialized :: bool
  sdk_session :: bool
  hostTrace :: "u8 list"
  guestTrace :: "u8 list"
  combinedTrace :: "u8 list"
  saveNames :: "(string option \<times> string option \<times> string option) option"

type_synonym file_write = "string option \<times> u8 list"

definition sdk_sTraceConfig :: VirtualDeviceTraceConfig where
  "sdk_sTraceConfig = \<lparr>initialized = False, tracingDisabled = True, packetsWritten = 0, sequenceIdWritten = False,
     currentInterningId = 1, currentThreadId = 1, hostFilename = Some ''vmm.trace'', guestFilename = None,
     combinedFilename = None, hostStartTime = 0, guestStartTime = 0, guestTimeDiff = 0,
     perThreadStorageMb = 1, saving = False\<rparr>"

definition sdk_init :: sdk_state where
  "sdk_init = \<lparr>sdk_cfg = sdk_sTraceConfig, sPerfettoInitialized = False, sdk_session = False,
     hostTrace = [], guestTrace = [], combinedTrace = [], saveNames = None\<rparr>"

definition sdk_setTraceConfig :: "(VirtualDeviceTraceConfig \<Rightarrow> VirtualDeviceTraceConfig) \<Rightarrow> sdk_state \<Rightarrow> sdk_state" where
  "sdk_setTraceConfig f s = s\<lparr>sdk_cfg := f (sdk_cfg s)\<rparr>"

definition sdk_initPerfetto :: "sdk_state \<Rightarrow> sdk_state" where
  "sdk_initPerfetto s = (if \<not> sPerfettoInitialized s then s\<lparr>sPerfettoInitialized := True\<rparr> else s)"

definition sdk_enableTracing :: "trace_env \<Rightarrow> sdk_state \<Rightarrow> sdk_state" where
  "sdk_enableTracing env s0 =
     (let s = s0\<lparr>sdk_cfg := apply_env env (sdk_cfg s0)\<rparr> in
      if hostFilename (sdk_cfg s) = None then s
      else if \<not> tracingDisabled (sdk_cfg s) then s
      else if saving (sdk_cfg s) then s
      else
        (let s1 = sdk_initPerfetto s in
         if \<not> sdk_session s1 then s1\<lparr>sdk_session := True, sdk_cfg := (sdk_cfg s1)\<lparr>tracingDisabled := False\<rparr>\<rparr>
         else s1))"

text \<open>The files written, and whether the background thread is started.\<close>

definition sdk_disableTracing :: "u8 list \<Rightarrow> sdk_state \<Rightarrow> file_write list \<times> bool \<times> sdk_state" where
  "sdk_disableTracing trace s =
     (if sdk_session s then
        (let s1 = s\<lparr>sdk_cfg := (sdk_cfg s)\<lparr>tracingDisabled := True\<rparr>\<rparr> in
         if saving (sdk_cfg s1) then ([], False, s1)
         else
           (let s2 = s1\<lparr>sdk_cfg := (sdk_cfg s1)\<lparr>saving := True\<rparr>, hostTrace := trace, sdk_session := False\<rparr> in
            if guestFilename (sdk_cfg s2) = None \<or> combinedFilename (sdk_cfg s2) = None
            then ([(hostFilename (sdk_cfg s2), hostTrace s2)], False, s2\<lparr>sdk_cfg := (sdk_cfg s2)\<lparr>saving := False\<rparr>\<rparr>)
            else ([], True, s2)))
      else ([], False, s))"

text \<open>The background thread. First it copies the three file names, which another thread may change afterwards; the rest, from
  the copies (host, guest, combined), the difference of the times being read when the guest file is there. \<open>None\<close> is an
  exception that ends the process (the guest file cannot be opened, so the vector is resized to -1).\<close>

definition sdk_readNames :: "sdk_state \<Rightarrow> string option \<times> string option \<times> string option" where
  "sdk_readNames s = (hostFilename (sdk_cfg s), guestFilename (sdk_cfg s), combinedFilename (sdk_cfg s))"

definition sdk_startSave :: "sdk_state \<Rightarrow> sdk_state" where
  "sdk_startSave s = s\<lparr>saveNames := Some (sdk_readNames s)\<rparr>"

definition sdk_asyncTraceSaveFunc :: "(u8 list \<Rightarrow> 'o Trace option) \<Rightarrow> ('o Trace \<Rightarrow> u8 list) \<Rightarrow> (nat \<Rightarrow> int) \<Rightarrow>
    (string option \<Rightarrow> u8 list option) \<Rightarrow> nat \<Rightarrow> string option \<times> string option \<times> string option \<Rightarrow>
    sdk_state \<Rightarrow> (file_write list \<times> sdk_state) option" where
  "sdk_asyncTraceSaveFunc parse serialize probe readFile g names s =
     (let (hostName, guestName, combinedName) = names;
          done = s\<lparr>hostTrace := [], guestTrace := [], combinedTrace := [], saveNames := None, sdk_cfg := (sdk_cfg s)\<lparr>saving := False\<rparr>\<rparr> in
      if \<not> wait_stable kMaxIters 0 probe 0 0 then Some ([], done)
      else
        (case readFile guestName of
           None \<Rightarrow> None
         | Some bytes \<Rightarrow>
             (let combined = fst (constructCombinedTrace parse serialize bytes (hostTrace s) (guestTimeDiff (sdk_cfg s)) g)
              in Some ([(hostName, hostTrace s), (combinedName, combined)], done))))"

text \<open>Guest times are compared with the wall clock here (\<open>now\<close>).\<close>

definition sdk_setGuestTime :: "u64 \<Rightarrow> u64 \<Rightarrow> sdk_state \<Rightarrow> sdk_state" where
  "sdk_setGuestTime now t = sdk_setTraceConfig (\<lambda>config.
     if \<not> tracingDisabled config then config
     else config\<lparr>guestStartTime := t, hostStartTime := now, guestTimeDiff := getSignedDifference t now\<rparr>)"

definition sdk_waitSavingDone_returns :: "sdk_state \<Rightarrow> bool" where
  "sdk_waitSavingDone_returns s \<longleftrightarrow> \<not> saving (sdk_cfg s)"

subsection \<open>Histories\<close>

text \<open>The API calls of the application, and a background thread that was started: its first statements and, later, its end. \<open>written\<close> collects the
  files, \<open>running\<close> says whether a thread is at work.\<close>

inductive sdk_run :: "(u8 list \<Rightarrow> 'o Trace option) \<Rightarrow> ('o Trace \<Rightarrow> u8 list) \<Rightarrow> sdk_state \<Rightarrow> bool \<Rightarrow> file_write list \<Rightarrow> bool"
  for parse :: "u8 list \<Rightarrow> 'o Trace option" and serialize :: "'o Trace \<Rightarrow> u8 list" where
  start: "sdk_run parse serialize sdk_init False []"
| enable: "sdk_run parse serialize s b fs \<Longrightarrow> sdk_run parse serialize (sdk_enableTracing env s) b fs"
| disable: "sdk_run parse serialize s b fs \<Longrightarrow> sdk_disableTracing trace s = (ws, starts, s') \<Longrightarrow> sdk_run parse serialize s' (b \<or> starts) (fs @ ws)"
| starts: "sdk_run parse serialize s True fs \<Longrightarrow> saveNames s = None \<Longrightarrow> sdk_run parse serialize (sdk_startSave s) True fs"
| finish: "sdk_run parse serialize s True fs \<Longrightarrow> saveNames s = Some names \<Longrightarrow>
     sdk_asyncTraceSaveFunc parse serialize probe readFile g names s = Some (ws, s') \<Longrightarrow>
     sdk_run parse serialize s' False (fs @ ws)"
| guest_time: "sdk_run parse serialize s b fs \<Longrightarrow> sdk_run parse serialize (sdk_setGuestTime now t s) b fs"
| files: "sdk_run parse serialize s b fs \<Longrightarrow>
     sdk_run parse serialize (sdk_setTraceConfig (\<lambda>c. c\<lparr>hostFilename := h, guestFilename := gf, combinedFilename := cf\<rparr>) s) b fs"

lemmas sdk_defs = sdk_enableTracing_def sdk_disableTracing_def sdk_asyncTraceSaveFunc_def sdk_setGuestTime_def
  sdk_setTraceConfig_def sdk_initPerfetto_def Let_def

lemma sdk_enable_cases:
  "sdk_enableTracing env s = (let c = apply_env env (sdk_cfg s) in
     if hostFilename c \<noteq> None \<and> tracingDisabled c \<and> \<not> saving c
     then (if sdk_session s then s\<lparr>sdk_cfg := c, sPerfettoInitialized := True\<rparr>
           else s\<lparr>sdk_cfg := c\<lparr>tracingDisabled := False\<rparr>, sPerfettoInitialized := True, sdk_session := True\<rparr>)
     else s\<lparr>sdk_cfg := c\<rparr>)"
  by (cases s) (auto simp: sdk_enableTracing_def sdk_initPerfetto_def Let_def)

subsection \<open>Properties\<close>

text \<open>C24 sdk_session_matches: over any history, a session exists exactly while tracing is on, the saving flag is on exactly while a
  background thread runs (so \<open>waitSavingDone\<close> waits for it and no second thread is ever started) and no session
  exists meanwhile.\<close>
theorem sdk_session_matches:
  assumes "sdk_run parse serialize s running fs"
  shows "(sdk_session s \<longleftrightarrow> \<not> tracingDisabled (sdk_cfg s)) \<and> (saving (sdk_cfg s) \<longleftrightarrow> running) \<and> (running \<longrightarrow> \<not> sdk_session s)"
  using assms
proof (induction rule: sdk_run.induct)
  case start
  then show ?case by (simp add: sdk_init_def sdk_sTraceConfig_def)
next
  case (enable s b fs env)
  then show ?case by (auto simp: sdk_enable_cases Let_def)
next
  case (disable s b fs trace ws starts s')
  then show ?case by (auto simp: sdk_disableTracing_def Let_def split: if_splits)
next
  case (starts s fs)
  then show ?case by (auto simp: sdk_startSave_def)
next
  case (finish s fs names probe readFile g ws s')
  then show ?case by (auto simp: sdk_asyncTraceSaveFunc_def Let_def split: if_splits option.splits prod.splits)
next
  case (guest_time s b fs now t)
  then show ?case by (auto simp: sdk_setGuestTime_def sdk_setTraceConfig_def)
next
  case (files s b fs h gf cf)
  then show ?case by (auto simp: sdk_setTraceConfig_def)
qed

theorem sdk_session_matches_witness:
  "sdk_session (sdk_enableTracing \<lparr>env_host = None, env_guest = None, env_combined = None\<rparr> sdk_init) \<and>
   \<not> tracingDisabled (sdk_cfg (sdk_enableTracing \<lparr>env_host = None, env_guest = None, env_combined = None\<rparr> sdk_init))"
proof -
  let ?s = "sdk_enableTracing \<lparr>env_host = None, env_guest = None, env_combined = None\<rparr> sdk_init"
  have "sdk_run (\<lambda>bytes. None :: unit Trace option) (\<lambda>t. []) ?s False []" by (intro sdk_run.enable sdk_run.start)
  from sdk_session_matches [OF this] have "sdk_session ?s \<longleftrightarrow> \<not> tracingDisabled (sdk_cfg ?s)" by simp
  moreover have "sdk_session ?s" by code_simp
  ultimately show ?thesis by simp
qed

text \<open>What happens to the host trace when tracing is turned off. Without a guest or combined file name it is
  written at once. Otherwise the background thread writes it unchanged, together with the combined trace, to the files
  named when the thread started (whatever the names are when it ends), if the guest file is seen stable and can be
  opened; if the guest file never becomes stable nothing is written and the host trace is lost; if it looks stable
  but cannot be opened the process ends with an exception.\<close>
theorem sdk_save_outcomes:
  assumes "sdk_session s" and "\<not> saving (sdk_cfg s)"
  shows "(guestFilename (sdk_cfg s) = None \<or> combinedFilename (sdk_cfg s) = None \<longrightarrow>
       fst (sdk_disableTracing trace s) = [(hostFilename (sdk_cfg s), trace)] \<and> \<not> fst (snd (sdk_disableTracing trace s))) \<and>
     (guestFilename (sdk_cfg s) \<noteq> None \<and> combinedFilename (sdk_cfg s) \<noteq> None \<longrightarrow>
       (\<exists>s'. sdk_disableTracing trace s = ([], True, s') \<and> saveNames (sdk_startSave s') = Some (sdk_readNames s) \<and>
         (\<forall>f. case sdk_asyncTraceSaveFunc parse serialize probe readFile g (sdk_readNames s) (sdk_setTraceConfig f (sdk_startSave s')) of
            None \<Rightarrow> wait_stable kMaxIters 0 probe 0 0 \<and> readFile (guestFilename (sdk_cfg s)) = None
          | Some (ws, s2) \<Rightarrow>
              hostTrace s2 = [] \<and> \<not> saving (sdk_cfg s2) \<and>
              ws = (if wait_stable kMaxIters 0 probe 0 0
                then [(hostFilename (sdk_cfg s), trace),
                      (combinedFilename (sdk_cfg s),
                       fst (constructCombinedTrace parse serialize (the (readFile (guestFilename (sdk_cfg s)))) trace
                         (guestTimeDiff (sdk_cfg (sdk_setTraceConfig f (sdk_startSave s')))) g))]
                else []))))"
  using assms by (auto simp: sdk_disableTracing_def sdk_asyncTraceSaveFunc_def sdk_startSave_def sdk_readNames_def
    sdk_setTraceConfig_def Let_def split: option.split)

theorem sdk_save_outcomes_witness:
  "fst (sdk_disableTracing [1, 2] (sdk_enableTracing \<lparr>env_host = None, env_guest = None, env_combined = None\<rparr> sdk_init))
     = [(Some ''vmm.trace'', [1, 2])]"
proof -
  let ?s = "sdk_enableTracing \<lparr>env_host = None, env_guest = None, env_combined = None\<rparr> sdk_init"
  have "sdk_session ?s" "\<not> saving (sdk_cfg ?s)" "guestFilename (sdk_cfg ?s) = None" "hostFilename (sdk_cfg ?s) = Some ''vmm.trace''"
    by code_simp+
  with sdk_save_outcomes [of ?s "[1, 2]"] show ?thesis by simp
qed

end
