(* ===== verification/Sdk_Merge_Spec.thy ===== *)
theory Sdk_Merge_Spec
  imports Sdk_Merge
begin

section \<open>What merging does to ids, times and tracks\<close>

text \<open>
  The two uses of the walk are instances of \<open>id_functions\<close>: finding the greatest ids of the main trace,
  and moving the ids of the added trace above them.
\<close>

lemma table_needed:
  "needRemapUuids (fold (remember g) ts (start_walk s r)) \<longleftrightarrow> uuidMap (fold (remember g) ts (start_walk s r)) \<noteq> Map.empty"
proof -
  obtain keys where k: "uuidMap (fold (remember g) ts (start_walk s r)) = map_of (zip keys (draw_uuids (length keys) (rng (start_walk s r))))"
    "needRemapUuids (fold (remember g) ts (start_walk s r)) = (keys \<noteq> [])"
    using fold_remember [of "start_walk s r" ts g] by (auto simp: start_walk_def)
  show ?thesis
  proof (cases keys)
    case (Cons u us)
    then have "uuidMap (fold (remember g) ts (start_walk s r)) u \<noteq> None"
      unfolding k(1) by (simp add: map_of_zip_is_None)
    with k(2) Cons show ?thesis by auto
  qed (use k in simp)
qed

context id_functions
begin

lemma run_ids:
  "\<exists>w'. run_state (iterateTraceIds V t) (start_walk s g) =
      (if uuid_table (G Pid) t g = Map.empty then map (map_ids G) t
       else map (map_uuids (remap (uuid_table (G Pid) t g))) (map (map_ids G) t), w') \<and>
     captured w' = fold (\<lambda>(k, x). H k x) (trace_visits t) s \<and>
     rng w' = rng (fold (remember (G Pid)) (trace_tracks t) (start_walk () g))"
proof -
  define w1 where "w1 = fold (remember (G Pid)) (trace_tracks t) (visited H (trace_visits t) (start_walk s g))"
  define u1 where "u1 = fold (remember (G Pid)) (trace_tracks t) (start_walk () g)"
  have p: "uuidMap w1 = uuidMap u1" "rng w1 = rng u1" "needRemapUuids w1 = needRemapUuids u1"
    using remember_parts [of "visited H (trace_visits t) (start_walk s g)" "start_walk () g"]
    by (simp_all add: w1_def u1_def start_walk_def)
  have c: "captured w1 = fold (\<lambda>(k, x). H k x) (trace_visits t) s" by (simp add: w1_def start_walk_def)
  have n: "needRemapUuids u1 \<longleftrightarrow> uuidMap u1 \<noteq> Map.empty"
    unfolding u1_def by (rule table_needed)
  have r: "run_state (State_Monad.traverse_list (packet_ids V) t) (start_walk s g) = (map (map_ids G) t, w1)"
    by (simp add: run_packets w1_def)
  show ?thesis
  proof (cases "needRemapUuids w1")
    case True
    obtain w' where "run_state (iterateTraceTrackDescriptorUuids (map (map_ids G) t) lookup_uuid) w1 =
        (map (map_uuids (remap (uuidMap w1))) (map (map_ids G) t), w')" "captured w' = captured w1" "rng w' = rng w1"
      using maps_to_uuids [of "remap (uuidMap w1)" "map (map_ids G) t"] unfolding maps_to_def by blast
    with True r p n c show ?thesis by (simp add: iterateTraceIds_def uuid_table_def u1_def)
  next
    case False
    with r p n c show ?thesis by (simp add: iterateTraceIds_def uuid_table_def u1_def)
  qed
qed

end

subsection \<open>The greatest ids\<close>

fun max_of :: "id_kind \<Rightarrow> max_ids \<Rightarrow> u32" where
  "max_of TrustedUid m = maxTrustedUid m"
| "max_of SequenceId m = maxSequenceId m"
| "max_of Pid m = maxPid m"
| "max_of Tid m = maxTid m"
| "max_of Cpu m = maxCpu m"

fun raise_max :: "id_kind \<Rightarrow> u32 \<Rightarrow> max_ids \<Rightarrow> max_ids" where
  "raise_max TrustedUid x m = (if x > maxTrustedUid m then m\<lparr>maxTrustedUid := x\<rparr> else m)"
| "raise_max SequenceId x m = (if x > maxSequenceId m then m\<lparr>maxSequenceId := x\<rparr> else m)"
| "raise_max Pid x m = (if x > maxPid m then m\<lparr>maxPid := x\<rparr> else m)"
| "raise_max Tid x m = (if x > maxTid m then m\<lparr>maxTid := x\<rparr> else m)"
| "raise_max Cpu x m = (if x > maxCpu m then m\<lparr>maxCpu := x\<rparr> else m)"

interpretation maxima: id_functions max_visitors "\<lambda>k x. x" raise_max
proof
  show "run_state (max_visitors k x) s = (x, raise_max k x s)" for k x s by (cases k) simp_all
qed

interpretation offsets: id_functions "addon_visitors m" "offset_id m" "\<lambda>k x s. s" for m
  by unfold_locales (simp add: addon_visitors_def)

lemma finite_tagged [simp]: "finite {x. (k, x) \<in> set xs}"
  by (rule finite_subset [of _ "snd ` set xs"]) force+

lemma remember_same [simp]: "fold (remember (\<lambda>x. x)) ts w = w"
  by (induction ts) (simp_all add: remember_def split_beta)

lemma max_of_raise: "max_of k (raise_max k' x m) = (if k = k' then max (max_of k m) x else max_of k m)"
  by (cases k; cases k') (auto simp: max_def)

lemma max_of_fold:
  "max_of k (fold (\<lambda>(k, x). raise_max k x) xs m) = Max (insert (max_of k m) {x. (k, x) \<in> set xs})"
proof (induction xs arbitrary: m)
  case (Cons e xs)
  obtain k' x where e: "e = (k', x)" by fastforce
  show ?case
  proof (cases "k = k'")
    case True
    then have "{y. (k, y) \<in> set (e # xs)} = insert x {y. (k, y) \<in> set xs}" by (auto simp: e)
    then have "Max (insert (max_of k m) {y. (k, y) \<in> set (e # xs)}) = Max (insert (max (max_of k m) x) {y. (k, y) \<in> set xs})"
      by (cases "{y. (k, y) \<in> set xs} = {}") (simp_all add: max.assoc)
    with True Cons.IH show ?thesis by (simp add: e max_of_raise)
  next
    case False
    then have "{y. (k, y) \<in> set (e # xs)} = {y. (k, y) \<in> set xs}" by (auto simp: e)
    with False Cons.IH show ?thesis by (simp add: e max_of_raise)
  qed
qed simp

lemma uuid_table_same [simp]: "uuid_table (\<lambda>x. x) t g = Map.empty"
  by (simp add: uuid_table_def start_walk_def)

definition ids_of :: "id_kind \<Rightarrow> 'o Trace \<Rightarrow> u32 set" where
  "ids_of k t = {x. (k, x) \<in> set (trace_visits t)}"

lemma finite_ids_of [simp]: "finite (ids_of k t)"
  by (simp add: ids_of_def)

lemma maxima_run:
  assumes "parse trace = Some t"
  shows "max_of k (fst (sCalcMaxIds parse trace g)) = Max (insert 0 (ids_of k t))" and "snd (sCalcMaxIds parse trace g) = g"
proof -
  obtain w' where "run_state (iterateTraceIds max_visitors t) (start_walk zero_ids g) = (map (map_ids (\<lambda>k x. x)) t, w')"
    "captured w' = fold (\<lambda>(k, x). raise_max k x) (trace_visits t) zero_ids"
    "rng w' = rng (fold (remember (\<lambda>x. x)) (trace_tracks t) (start_walk () g))"
    using maxima.run_ids [of t zero_ids g] by auto
  moreover have "max_of k zero_ids = 0" by (cases k) (simp_all add: zero_ids_def)
  ultimately show "max_of k (fst (sCalcMaxIds parse trace g)) = Max (insert 0 (ids_of k t))"
    "snd (sCalcMaxIds parse trace g) = g"
    using assms by (simp_all add: sCalcMaxIds_def max_of_fold ids_of_def start_walk_def)
qed

subsection \<open>The added trace\<close>

definition shift_times :: "i64 \<Rightarrow> 'o TracePacket \<Rightarrow> 'o TracePacket" where
  "shift_times d p = p\<lparr>tp_timestamp := map_option (\<lambda>ts. ts + d) (tp_timestamp p),
     tp_data := data_timestamps (\<lambda>ts. ts + d) (tp_data p)\<rparr>"

text \<open>The new uuids: none when no pid changes.\<close>

definition new_uuid :: "(u64 \<rightharpoonup> u64) \<Rightarrow> u64 \<Rightarrow> u64" where
  "new_uuid table = (if table = Map.empty then id else remap table)"

definition merged_packet :: "max_ids \<Rightarrow> i64 \<Rightarrow> (u64 \<rightharpoonup> u64) \<Rightarrow> 'o TracePacket \<Rightarrow> 'o TracePacket" where
  "merged_packet m d table p = map_uuids (new_uuid table) (map_ids (offset_id m) (shift_times d (clear_snapshots p)))"

lemma data_tracks_shift [simp]: "data_tracks (tp_data (shift_times d p)) = data_tracks (tp_data p)"
  by (cases "tp_data p") (simp_all add: shift_times_def)

lemma data_tracks_clear [simp]: "data_tracks (tp_data (clear_snapshots p)) = data_tracks (tp_data p)"
  by (cases "tp_data p") (simp_all add: clear_snapshots_def)

lemma data_visits_shift [simp]: "packet_visits (shift_times d p) = packet_visits p"
  by (cases "tp_data p") (simp_all add: shift_times_def packet_visits_def comp_def)

lemma data_visits_clear [simp]: "packet_visits (clear_snapshots p) = packet_visits p"
  by (cases "tp_data p") (simp_all add: clear_snapshots_def packet_visits_def)

lemma map_data_uuids_id [simp]: "map_data_uuids id d = d"
  by (cases d) (simp_all add: option.map_id0)

lemma map_uuids_id [simp]: "map_uuids id p = p"
  by (simp add: map_uuids_def option.map_id0)

lemma transform_is_map:
  "fst (transform_addon m d g t) = map (merged_packet m d (uuid_table (offset_id m Pid) t g)) t"
proof -
  let ?t = "map (\<lambda>p. shift_times d (clear_snapshots p)) t"
  have i: "iterateTraceTimestamps (mutateTracePackets t clear_snapshots) (\<lambda>ts. ts + d) = ?t"
    by (simp add: iterateTraceTimestamps_def mutateTracePackets_def shift_times_def comp_def)
  have tr: "trace_tracks ?t = trace_tracks t" by (simp add: trace_tracks_def comp_def)
  then have tab: "uuid_table (offset_id m Pid) ?t g = uuid_table (offset_id m Pid) t g" by (simp add: uuid_table_def)
  obtain w' where "run_state (iterateTraceIds (addon_visitors m) ?t) (start_walk () g) =
      (if uuid_table (offset_id m Pid) ?t g = Map.empty then map (map_ids (offset_id m)) ?t
       else map (map_uuids (remap (uuid_table (offset_id m Pid) ?t g))) (map (map_ids (offset_id m)) ?t), w')"
    using offsets.run_ids [of m ?t "()" g] by blast
  then show ?thesis
    by (simp add: transform_addon_def i tab merged_packet_def new_uuid_def comp_def split_beta Let_def)
qed

lemma combined_bytes:
  assumes "parse addon = Some t"
  shows "fst (constructCombinedTrace parse serialize main addon d g) =
    main @ serialize (map (merged_packet (fst (sCalcMaxIds parse main g)) d
      (uuid_table (offset_id (fst (sCalcMaxIds parse main g)) Pid) t (snd (sCalcMaxIds parse main g)))) t)"
  using transform_is_map [of "fst (sCalcMaxIds parse main g)" d "snd (sCalcMaxIds parse main g)" t] assms
  by (simp add: constructCombinedTrace_def split_beta Let_def)

subsection \<open>Ids of the merged packets\<close>

lemma field_list_mem [simp]: "(k, x) \<in> set (field_list k' f) \<longleftrightarrow> k = k' \<and> f = Some x"
  by (auto simp: field_list_def split: option.splits)

lemma nonzero_list_mem [simp]: "(k, x) \<in> set (nonzero_list f) \<longleftrightarrow> k = Pid \<and> f = Some x \<and> x \<noteq> 0"
  by (auto simp: nonzero_list_def split: option.splits)

lemma event_fields_map: "event_fields (map_event f e) = map f (event_fields e)"
  by (cases e) simp_all

lemma packet_visits_uuids [simp]: "packet_visits (map_uuids r p) = packet_visits p"
  by (cases "tp_data p") (simp_all add: map_uuids_def packet_visits_def)

text \<open>The ids of a renamed packet are the renamed ids, one by one, when no pid becomes 0 (the walk skips an event's pid 0).\<close>

abbreviation renamed :: "(id_kind \<Rightarrow> u32 \<Rightarrow> u32) \<Rightarrow> (id_kind \<times> u32) list \<Rightarrow> (id_kind \<times> u32) list" where
  "renamed G \<equiv> map (\<lambda>(k, y). (k, G k y))"

definition keeps_pids :: "(id_kind \<Rightarrow> u32 \<Rightarrow> u32) \<Rightarrow> (id_kind \<times> u32) list \<Rightarrow> bool" where
  "keeps_pids G vs \<longleftrightarrow> (\<forall>y. (Pid, y) \<in> set vs \<longrightarrow> y \<noteq> 0 \<longrightarrow> G Pid y \<noteq> 0)"

lemma keeps_pids_append: "keeps_pids G (xs @ ys) \<longleftrightarrow> keeps_pids G xs \<and> keeps_pids G ys"
  by (auto simp: keeps_pids_def)

lemma keeps_pids_concat: "keeps_pids G (concat xss) \<longleftrightarrow> (\<forall>xs \<in> set xss. keeps_pids G xs)"
  by (auto simp: keeps_pids_def)

lemma field_list_renamed [simp]: "field_list k (map_option (G k) x) = renamed G (field_list k x)"
  by (simp add: field_list_def split: option.split)

lemma concat_renamed:
  "(\<And>x. x \<in> set xs \<Longrightarrow> h (f x) = renamed G (h x)) \<Longrightarrow> concat (map h (map f xs)) = renamed G (concat (map h xs))"
  by (induction xs) simp_all

lemma nonzero_list_renamed: "keeps_pids G (nonzero_list x) \<Longrightarrow> nonzero_list (map_nonzero (G Pid) x) = renamed G (nonzero_list x)"
  by (auto simp: nonzero_list_def map_nonzero_def keeps_pids_def split: option.splits)

lemma event_visits_renamed:
  assumes "keeps_pids G (event_visits e)"
  shows "event_visits (map_event (map_nonzero (G Pid)) e) = renamed G (event_visits e)"
  using assms unfolding event_visits_def event_fields_map
  by (intro concat_renamed nonzero_list_renamed) (simp add: keeps_pids_concat)

lemma data_visits_renamed:
  assumes "keeps_pids G (data_visits d)"
  shows "data_visits (map_data_ids G d) = renamed G (data_visits d)"
proof (cases d)
  case (Ftrace_events b)
  let ?f = "\<lambda>e. e\<lparr>ft_pid := map_option (G Pid) (ft_pid e), ft_event := map_event (map_nonzero (G Pid)) (ft_event e)\<rparr>"
  let ?h = "\<lambda>e. field_list Pid (ft_pid e) @ event_visits (ft_event e)"
  have "concat (map ?h (map ?f (fb_event b))) = renamed G (concat (map ?h (fb_event b)))"
    using assms by (intro concat_renamed) (simp add: Ftrace_events keeps_pids_append keeps_pids_concat event_visits_renamed)
  then show ?thesis by (simp add: Ftrace_events comp_def)
next
  case (Process_tree t)
  have "concat (map (field_list Pid) (map (map_option (G Pid)) xs)) = renamed G (concat (map (field_list Pid) xs))" for xs
    by (rule concat_renamed) simp
  moreover have "concat (map (\<lambda>(i, g). field_list Tid i @ field_list Pid g) (map (map_prod (map_option (G Tid)) (map_option (G Pid))) xs)) =
      renamed G (concat (map (\<lambda>(i, g). field_list Tid i @ field_list Pid g) xs))" for xs
    by (rule concat_renamed) auto
  ultimately show ?thesis by (simp add: Process_tree)
qed simp_all

lemma packet_visits_renamed:
  "keeps_pids G (packet_visits p) \<Longrightarrow> packet_visits (map_ids G p) = renamed G (packet_visits p)"
  by (simp add: packet_visits_def map_ids_def keeps_pids_append data_visits_renamed)

text \<open>Ids of the added trace that the offset moves without wrapping around; the sequence and user ids are not 0.\<close>

definition ids_fit :: "max_ids \<Rightarrow> 'o Trace \<Rightarrow> bool" where
  "ids_fit m t \<longleftrightarrow> (\<forall>k. \<forall>y \<in> ids_of k t.
     (k = TrustedUid \<or> k = SequenceId \<longrightarrow> y \<noteq> 0) \<and> unat (max_of k m) + unat y + 1 < 2 ^ 32)"

lemma offset_above:
  assumes "unat (max_of k m) + unat y + 1 < 2 ^ 32"
  shows "offset_id m k y = (if (k = Pid \<or> k = Tid) \<and> y = 0 then 0 else y + max_of k m + (if k = Cpu then 1 else 0))"
    and "unat (y + max_of k m + (if k = Cpu then 1 else 0)) = unat y + unat (max_of k m) + (if k = Cpu then 1 else 0)"
proof -
  show "offset_id m k y = (if (k = Pid \<or> k = Tid) \<and> y = 0 then 0 else y + max_of k m + (if k = Cpu then 1 else 0))"
    by (cases k) simp_all
  have y: "unat (y + max_of k m) = unat y + unat (max_of k m)" using assms by (simp add: unat_add_lem [THEN iffD1])
  then have "unat (y + max_of k m + 1) = unat y + unat (max_of k m) + 1"
    using assms unat_add_lem [of "y + max_of k m" 1] by simp
  with y show "unat (y + max_of k m + (if k = Cpu then 1 else 0)) = unat y + unat (max_of k m) + (if k = Cpu then 1 else 0)"
    by (cases "k = Cpu") (simp_all del: max_of.simps)
qed

subsection \<open>Timestamps of the merged packets\<close>

fun data_times :: "'o TracePacket_data \<Rightarrow> u64 option list" where
  "data_times (Ftrace_events b) = map ft_timestamp (fb_event b)"
| "data_times d = []"

definition trace_times :: "'o Trace \<Rightarrow> u64 option list" where
  "trace_times t = concat (map (\<lambda>p. tp_timestamp p # data_times (tp_data p)) t)"

lemma data_times_simps [simp]:
  "data_times (map_data_uuids r x) = data_times x" "data_times (map_data_ids G x) = data_times x"
  "data_times (data_timestamps f x) = map (map_option f) (data_times x)"
  by (cases x; simp add: comp_def)+

lemma data_times_clear [simp]:
  "data_times (tp_data (clear_snapshots p)) = data_times (tp_data p)" "tp_timestamp (clear_snapshots p) = tp_timestamp p"
  by (cases "tp_data p"; simp add: clear_snapshots_def)+

lemma merged_times: "trace_times (map (merged_packet m d tab) t) = map (map_option (\<lambda>ts. ts + d)) (trace_times t)"
  by (simp add: trace_times_def merged_packet_def map_uuids_def map_ids_def shift_times_def comp_def map_concat)

text \<open>The tracks of processes and threads whose pid changes.\<close>

definition moved_tracks :: "max_ids \<Rightarrow> 'o Trace \<Rightarrow> u64 set" where
  "moved_tracks m t = {u. \<exists>p. (p, u) \<in> set (trace_tracks t) \<and> offset_id m Pid p \<noteq> p}"

subsection \<open>Properties\<close>

text \<open>For a trace that parses, the greatest ids found are the maxima (as unsigned numbers, 0 if there are
  none) of the user ids, sequence ids, pids, tids and cpus the walk visits, and the walk leaves the
  uuid generator alone; a trace that does not parse counts as having no ids.\<close>
theorem greatest_ids:
  "(case parse trace of
      None \<Rightarrow> sCalcMaxIds parse trace g = (zero_ids, g)
    | Some t \<Rightarrow> (\<forall>k. max_of k (fst (sCalcMaxIds parse trace g)) = Max (insert 0 (ids_of k t))) \<and>
        snd (sCalcMaxIds parse trace g) = g)"
  using maxima_run [of parse trace] by (simp add: sCalcMaxIds_def split: option.split)

text \<open>C9 combined_is_main_then_added: the combined trace is the main trace, byte for byte, followed by the
  serialization of the added trace, in which every packet is changed in place: clock snapshots and
  service events emptied, all times shifted by the difference, each id moved by the greatest id of its
  kind in the main trace, and the uuids of the renumbered tracks replaced through one table. If the
  added trace does not parse, the combined trace is empty.\<close>
theorem combined_is_main_then_added:
  "case parse addon of
      None \<Rightarrow> fst (constructCombinedTrace parse serialize main addon d g) = []
    | Some t \<Rightarrow>
        (let (m, g1) = sCalcMaxIds parse main g
         in fst (constructCombinedTrace parse serialize main addon d g) =
              main @ serialize (map (merged_packet m d (uuid_table (offset_id m Pid) t g1)) t))"
  using combined_bytes [of parse addon]
  by (simp add: constructCombinedTrace_def split_beta Let_def split: option.split)

text \<open>Every packet and scheduler event of the added trace keeps its place and is moved by
  the same difference (with 64-bit wrap-around), so times between its events are kept.\<close>
theorem merged_times_shifted:
  "trace_times (fst (transform_addon m d g t)) = map (map_option (\<lambda>ts. ts + d)) (trace_times t)"
  by (simp add: transform_is_map merged_times)

lemma ids_fitD:
  "ids_fit m t \<Longrightarrow> y \<in> ids_of k t \<Longrightarrow> unat (max_of k m) + unat y + 1 < 2 ^ 32"
  "ids_fit m t \<Longrightarrow> y \<in> ids_of k t \<Longrightarrow> k = TrustedUid \<or> k = SequenceId \<Longrightarrow> y \<noteq> 0"
  unfolding ids_fit_def by blast+

lemma unat_offset:
  assumes "ids_fit m t" "y \<in> ids_of k t"
  shows "unat (offset_id m k y) =
    (if (k = Pid \<or> k = Tid) \<and> y = 0 then 0 else unat y + unat (max_of k m) + (if k = Cpu then 1 else 0))"
  unfolding offset_above(1) [OF ids_fitD(1) [OF assms]]
  by (cases "(k = Pid \<or> k = Tid) \<and> y = 0") (simp, simp only: offset_above(2) [OF ids_fitD(1) [OF assms]] if_False)

lemma offset_inj:
  assumes "ids_fit m t"
  shows "inj_on (offset_id m k) (ids_of k t)"
proof (rule inj_onI)
  fix x y
  assume xy: "x \<in> ids_of k t" "y \<in> ids_of k t" "offset_id m k x = offset_id m k y"
  have "unat x = unat y"
    using arg_cong [OF xy(3), of unat] unfolding unat_offset [OF assms xy(1)] unat_offset [OF assms xy(2)]
    by (auto simp: unat_eq_0 split: if_splits)
  then show "x = y" by (rule word_unat_eq_iff [THEN iffD2])
qed

lemma visits_merged:
  assumes "ids_fit m t" and "p \<in> set t"
  shows "packet_visits (merged_packet m d tab p) = renamed (offset_id m) (packet_visits p)"
proof -
  have "offset_id m Pid y \<noteq> 0" if "(Pid, y) \<in> set (packet_visits p)" "y \<noteq> 0" for y
  proof -
    have "y \<in> ids_of Pid t" using that(1) assms(2) by (auto simp: ids_of_def trace_visits_def)
    with unat_offset [OF assms(1) this] that(2) show ?thesis by (metis add_is_0 unat_0 unat_eq_0 id_kind.distinct(1,3,5,7,9,11,13,15,17,19))
  qed
  then show ?thesis by (simp add: merged_packet_def packet_visits_renamed keeps_pids_def)
qed

text \<open>C8 merged_ids_apart: every packet of the added trace holds after merging, at the same places, the ids it held, each replaced by its
  new id. Different ids of one kind have different new ids, and no new id is an id of the main trace of the same kind: two
  sequences, processes, threads or cpus are never confused. The exceptions are pid and tid 0 (idle), which
  stay 0. This needs that the sums do not wrap around (a negative pid in the main trace counts as huge and
  breaks it) and that sequence and user ids are not 0.\<close>
theorem merged_ids_apart:
  assumes "parse main = Some ms" and "m = fst (sCalcMaxIds parse main g)" and "ids_fit m t"
  shows "map packet_visits (fst (transform_addon m d g' t)) = map (\<lambda>p. map (\<lambda>(k, y). (k, offset_id m k y)) (packet_visits p)) t \<and>
    (\<forall>k. inj_on (offset_id m k) (ids_of k t)) \<and>
    (\<forall>k. \<forall>y \<in> ids_of k t. offset_id m k y \<notin> ids_of k ms \<or> (y = 0 \<and> offset_id m k y = 0 \<and> (k = Pid \<or> k = Tid)))"
proof (intro conjI allI ballI)
  show "map packet_visits (fst (transform_addon m d g' t)) = map (\<lambda>p. map (\<lambda>(k, y). (k, offset_id m k y)) (packet_visits p)) t"
    unfolding transform_is_map by (simp add: visits_merged [OF assms(3)])
  show "inj_on (offset_id m k) (ids_of k t)" for k by (rule offset_inj [OF assms(3)])
  fix k y
  assume y: "y \<in> ids_of k t"
  note fit = ids_fitD [OF assms(3) y]
  have max: "max_of k m = Max (insert 0 (ids_of k ms))" using maxima_run(1) [of parse main ms k g] assms(1,2) by simp
  show "offset_id m k y \<notin> ids_of k ms \<or> (y = 0 \<and> offset_id m k y = 0 \<and> (k = Pid \<or> k = Tid))"
  proof (cases "(k = Pid \<or> k = Tid) \<and> y = 0")
    case True
    with offset_above(1) [OF fit(1)] show ?thesis by simp
  next
    case False
    with unat_offset [OF assms(3) y] have "unat (offset_id m k y) = unat y + unat (max_of k m) + (if k = Cpu then 1 else 0)" by simp
    moreover have "0 < unat y \<or> k = Cpu" using False fit(2) by (cases k) (auto simp: unat_gt_0)
    ultimately have "max_of k m < offset_id m k y" by (auto simp: word_less_nat_alt)
    moreover have "x \<le> max_of k m" if "x \<in> ids_of k ms" for x unfolding max using that by simp
    ultimately show ?thesis by (metis not_le)
  qed
qed

lemma draw_uuids_prefix: "j \<le> n \<Longrightarrow> draw_uuids j g = take j (draw_uuids n g)"
  by (simp add: draw_uuids_def take_map)

text \<open>A table from distinct keys to distinct uuids renames its keys injectively and everything else to 0.\<close>

lemma remap_zip:
  assumes "distinct keys" "distinct us" "length us = length keys"
  shows "inj_on (remap (map_of (zip keys us))) (set keys)" and "remap (map_of (zip keys us)) ` set keys \<subseteq> set us"
    and "u \<notin> set keys \<Longrightarrow> remap (map_of (zip keys us)) u = 0"
proof -
  have some: "\<exists>v \<in> set us. map_of (zip keys us) k = Some v" if "k \<in> set keys" for k
    using that assms(3) by (metis map_of_SomeD map_of_zip_is_None not_None_eq set_zip_rightD)
  show "inj_on (remap (map_of (zip keys us))) (set keys)"
  proof (rule inj_onI)
    fix u v
    assume uv: "u \<in> set keys" "v \<in> set keys" "remap (map_of (zip keys us)) u = remap (map_of (zip keys us)) v"
    with some [of u] some [of v] have "map_of (zip keys us) u = map_of (zip keys us) v" by (auto simp: remap_def)
    with uv map_of_zip_inj [OF assms(1,2)] assms(3) show "u = v" by (simp add: inj_on_def)
  qed
  show "remap (map_of (zip keys us)) ` set keys \<subseteq> set us" using some by (fastforce simp: remap_def)
  show "remap (map_of (zip keys us)) u = 0" if "u \<notin> set keys"
  proof -
    have "map_of (zip keys us) u = None" using map_of_zip_is_None [OF assms(3) [symmetric]] that by blast
    then show ?thesis by (simp add: remap_def)
  qed
qed

text \<open>C10 merged_tracks: the tracks of processes and threads whose pid moves get new uuids, the same uuid for every
  mention of a track and different ones for different tracks, if the generator gives no uuid twice; but once one track is
  renumbered, every other uuid in the added trace (also of its counters and events) becomes 0.\<close>
theorem merged_tracks:
  assumes "distinct (draw_uuids (length (trace_tracks t)) g)"
  shows "\<exists>r. fst (transform_addon m d g t) =
      map (\<lambda>p. map_uuids r (map_ids (offset_id m) (shift_times d (clear_snapshots p)))) t \<and>
    (moved_tracks m t = {} \<longrightarrow> r = id) \<and>
    (moved_tracks m t \<noteq> {} \<longrightarrow> inj_on r (moved_tracks m t) \<and> r ` moved_tracks m t \<subseteq> set (draw_uuids (length (trace_tracks t)) g) \<and> (\<forall>u. u \<notin> moved_tracks m t \<longrightarrow> r u = 0))"
proof -
  let ?moved = "moved_tracks m t"
  let ?w = "fold (remember (offset_id m Pid)) (trace_tracks t) (start_walk () g)"
  let ?r = "new_uuid (uuid_table (offset_id m Pid) t g)"
  obtain keys where k: "distinct keys" "set keys = ?moved" "length keys \<le> length (trace_tracks t)"
    "uuidMap ?w = map_of (zip keys (draw_uuids (length keys) g))"
    using fold_remember [of "start_walk () g" "trace_tracks t" "offset_id m Pid"]
    by (auto simp: start_walk_def moved_tracks_def)
  have tab: "uuid_table (offset_id m Pid) t g = map_of (zip keys (draw_uuids (length keys) g))"
    using k(4) by (simp add: uuid_table_def)
  note prefix = draw_uuids_prefix [OF k(3), of g]
  have sub: "set (draw_uuids (length keys) g) \<subseteq> set (draw_uuids (length (trace_tracks t)) g)"
    unfolding prefix by (rule set_take_subset)
  have dist: "distinct (draw_uuids (length keys) g)" unfolding prefix by (rule distinct_take [OF assms])
  have len: "length (draw_uuids (length keys) g) = length keys" by (simp add: draw_uuids_def)
  have "?moved = {} \<longrightarrow> ?r = id" using k(2) by (auto simp: tab new_uuid_def)
  moreover have "inj_on ?r ?moved \<and> ?r ` ?moved \<subseteq> set (draw_uuids (length (trace_tracks t)) g) \<and> (\<forall>u. u \<notin> ?moved \<longrightarrow> ?r u = 0)"
    if "?moved \<noteq> {}"
  proof -
    have "uuid_table (offset_id m Pid) t g \<noteq> Map.empty"
    proof
      assume "uuid_table (offset_id m Pid) t g = Map.empty"
      then have "zip keys (draw_uuids (length keys) g) = []" by (simp add: tab)
      then have "keys = []" using len by (cases keys; cases "draw_uuids (length keys) g") auto
      with that k(2) show False by simp
    qed
    then have r: "?r = remap (map_of (zip keys (draw_uuids (length keys) g)))" by (simp add: new_uuid_def tab)
    show ?thesis unfolding r k(2) [symmetric] using remap_zip [OF k(1) dist len] sub by blast
  qed
  ultimately show ?thesis
    by (intro exI [of _ ?r]) (simp add: transform_is_map merged_packet_def)
qed

text \<open>A trace of one packet with a sequence id, and one with the track of a process.\<close>

definition demo_packet :: "u32 \<Rightarrow> unit TracePacket" where
  "demo_packet s = \<lparr>tp_timestamp = Some 5, tp_trusted_uid = None, tp_trusted_packet_sequence_id = Some s,
     tp_default_track_uuid = None, tp_data = No_data, tp_rest = ()\<rparr>"

definition demo_process :: "u32 \<Rightarrow> u64 \<Rightarrow> unit TracePacket" where
  "demo_process pid uuid = (demo_packet 1)\<lparr>tp_data := Track_descriptor
     \<lparr>td_uuid = Some uuid, td_parent_uuid = None, td_process_pid = Some pid, td_thread_pid = None, td_rest = ()\<rparr>\<rparr>"

theorem merged_ids_apart_witness:
  "\<exists>m. map packet_visits (fst (transform_addon m 0 1 [demo_packet 1])) = [[(SequenceId, 6)]] \<and>
     6 \<notin> ids_of SequenceId [demo_packet 5] \<and> maxSequenceId m = 5"
proof -
  let ?parse = "\<lambda>bs. if bs = [1 :: u8] then Some [demo_packet 5] else None"
  define m where "m = fst (sCalcMaxIds ?parse [1] 1)"
  have p: "?parse [1] = Some [demo_packet 5]" by simp
  have max: "max_of k m = Max (insert 0 (ids_of k [demo_packet 5]))" for k
    unfolding m_def using maxima_run(1) [of ?parse "[1]", OF p] .
  have v: "packet_visits (demo_packet s) = [(SequenceId, s)]" for s
    by (simp add: packet_visits_def demo_packet_def field_list_def)
  have i: "ids_of k [demo_packet s] = (if k = SequenceId then {s} else {})" for k s
    by (auto simp: ids_of_def trace_visits_def v)
  have "max_of SequenceId m = 5" by (simp add: max i)
  then have five: "maxSequenceId m = 5" by simp
  have fit: "ids_fit m [demo_packet 1]" using max by (simp add: ids_fit_def i)
  have "map packet_visits (fst (transform_addon m 0 1 [demo_packet 1])) = [[(SequenceId, 6)]]"
    using merged_ids_apart [OF p m_def fit, of 0 1] five by (simp add: v)
  with five show ?thesis by (intro exI [of _ m]) (simp add: i)
qed

theorem merged_tracks_witness:
  "\<exists>r. fst (transform_addon (zero_ids\<lparr>maxPid := 100\<rparr>) 0 1 [demo_process 7 50, demo_process 8 60]) =
      map (\<lambda>p. map_uuids r (map_ids (offset_id (zero_ids\<lparr>maxPid := 100\<rparr>)) (shift_times 0 (clear_snapshots p))))
        [demo_process 7 50, demo_process 8 60] \<and>
     r 50 \<noteq> r 60 \<and> r 70 = 0"
proof -
  let ?m = "zero_ids\<lparr>maxPid := 100\<rparr>"
  let ?t = "[demo_process 7 50, demo_process 8 60]"
  have t: "trace_tracks ?t = [(7, 50), (8, 60)]"
    by (simp add: trace_tracks_def demo_process_def field_list_def)
  have "snd (draw_bytes 16 1) = 1098894339" by code_simp
  moreover have "(word_of_nat (minstd_next 1) :: u8) \<noteq> word_of_nat (minstd_next 1098894339)" by (simp add: minstd_next_def)
  ultimately have "fst (GenUuidv4Lsb 1) \<noteq> fst (GenUuidv4Lsb (snd (GenUuidv4Lsb 1)))"
    using gen_low_byte [of 1] gen_low_byte [of "snd (GenUuidv4Lsb 1)"] by (auto simp: snd_GenUuidv4Lsb)
  then have "distinct (draw_uuids 2 1)" by (simp add: draw_uuids_def upt_rec)
  then have "distinct (draw_uuids (length (trace_tracks ?t)) 1)" by (simp add: t numeral_2_eq_2)
  from merged_tracks [OF this, of ?m 0] obtain r where
    r: "fst (transform_addon ?m 0 1 ?t) = map (\<lambda>p. map_uuids r (map_ids (offset_id ?m) (shift_times 0 (clear_snapshots p)))) ?t"
    "moved_tracks ?m ?t \<noteq> {} \<longrightarrow> inj_on r (moved_tracks ?m ?t) \<and> (\<forall>u. u \<notin> moved_tracks ?m ?t \<longrightarrow> r u = 0)" by blast
  have moved: "moved_tracks ?m ?t = {50, 60}" unfolding moved_tracks_def t
    by (auto simp: zero_ids_def intro: exI [of _ 7] exI [of _ 8])
  with r(2) have "r 50 \<noteq> r 60" "r 70 = 0" by (auto simp: inj_on_def)
  with r(1) show ?thesis by blast
qed

end
