(* ===== verification/Double_Arith.thy ===== *)
theory Double_Arith
  imports VP_Prelude Complex_Main "HOL-Library.Log_Nat"
begin

section \<open>The double arithmetic of the clock synchronisation\<close>

text \<open>
  The C++ code converts 64-bit integers to \<open>double\<close> and divides them. A \<open>double\<close> is a rational with a
  significand of 53 bits, rounded to nearest with ties to even; \<open>None\<close> is infinity, what dividing
  a positive number by zero gives. The numbers here lie between \<open>2 ^ -64\<close> and \<open>2 ^ 128\<close>, so exponents never
  overflow or underflow.
\<close>

type_synonym double = "rat option"

definition round_even :: "rat \<Rightarrow> int" where
  "round_even q =
     (let n = \<lfloor>q\<rfloor>; r = q - of_int n in
      if r < 1 / 2 then n else if r > 1 / 2 then n + 1 else if even n then n else n + 1)"

definition scale2 :: "int \<Rightarrow> rat" where
  "scale2 e = power_int 2 e"

text \<open>The exponent that brings the significand between \<open>2 ^ 52\<close> and \<open>2 ^ 53\<close>.\<close>

definition exponent53 :: "rat \<Rightarrow> int" where
  "exponent53 q =
     (let (n, d) = quotient_of q; e = int (floorlog 2 (nat n)) - int (floorlog 2 (nat d)) - 53
      in if q / scale2 e < 2 ^ 53 then e else e + 1)"

definition round_positive :: "rat \<Rightarrow> rat" where
  "round_positive q = of_int (round_even (q / scale2 (exponent53 q))) * scale2 (exponent53 q)"

definition round_double :: "rat \<Rightarrow> rat" where
  "round_double q = (if q = 0 then 0 else if 0 < q then round_positive q else - round_positive (- q))"

definition double_of_u64 :: "u64 \<Rightarrow> rat" where
  "double_of_u64 v = round_double (of_int (uint v))"

definition double_of_i64 :: "i64 \<Rightarrow> rat" where
  "double_of_i64 v = round_double (of_int (sint v))"

text \<open>\<open>x / y\<close> for a positive \<open>x\<close> when \<open>y\<close> is 0, and any finite \<open>x\<close> otherwise.\<close>

definition double_div :: "rat \<Rightarrow> rat \<Rightarrow> double" where
  "double_div x y = (if y = 0 then None else Some (round_double (x / y)))"

text \<open>A finite number divided by infinity is 0.\<close>

definition double_div_by :: "rat \<Rightarrow> double \<Rightarrow> double" where
  "double_div_by x y = (case y of None \<Rightarrow> Some 0 | Some q \<Rightarrow> double_div x q)"

text \<open>Conversion to \<open>int64_t\<close> truncates; out of range it is undefined (\<open>None\<close>).\<close>

definition int64_of_double :: "double \<Rightarrow> i64 option" where
  "int64_of_double x =
     (case x of None \<Rightarrow> None
      | Some q \<Rightarrow>
          (let n = (if 0 \<le> q then \<lfloor>q\<rfloor> else \<lceil>q\<rceil>)
           in if - (2 ^ 63) \<le> n \<and> n < 2 ^ 63 then Some (word_of_int n) else None))"

subsection \<open>Rounding\<close>

lemma round_double_0 [simp]: "round_double 0 = 0"
  by (simp add: round_double_def)

lemma double_of_i64_0 [simp]: "double_of_i64 0 = 0"
  by (simp add: double_of_i64_def)

lemma int64_of_double_0 [simp]: "int64_of_double (Some 0) = Some 0"
  by (simp add: int64_of_double_def)

lemma round_even_of_int [simp]: "round_even (of_int n) = n"
  by (simp add: round_even_def)

lemma round_even_ge: "\<lfloor>q\<rfloor> \<le> round_even q"
  by (simp add: round_even_def Let_def)

lemma scale2_pos [simp]: "0 < scale2 e"
  by (simp add: scale2_def)

lemma scale2_add: "scale2 (a + b) = scale2 a * scale2 b"
  by (simp add: scale2_def power_int_add)

text \<open>An integer below \<open>2 ^ 53\<close> is a double.\<close>

lemma quotient_of_int_one: "quotient_of (of_int n) = (n, 1)"
  by (simp add: of_int_rat quotient_of_Fract normalize_def)

lemma scale2_mult_int: "e \<le> 0 \<Longrightarrow> of_int n / scale2 e = of_int (n * 2 ^ nat (- e))"
  by (cases "e = 0") (simp_all add: scale2_def power_int_def field_simps)

lemma round_positive_int:
  assumes "0 < n" and "n < 2 ^ 53"
  shows "round_positive (of_int n) = of_int n"
proof -
  define L where "L = floorlog 2 (nat n)"
  have b: "2 ^ (L - 1) \<le> nat n" "nat n < 2 ^ L"
    using floorlog_bounds [of "nat n" 2] assms by (simp_all add: L_def)
  have "0 < L" using b(2) assms(1) by (cases L) simp_all
  have "nat n < 2 ^ 53" using assms by (simp add: nat_less_iff)
  with b(1) have "(2 :: nat) ^ (L - 1) < 2 ^ 53" by (rule le_less_trans)
  then have L: "L \<le> 53" using power_less_imp_less_exp [of "2 :: nat" "L - 1" 53] by simp
  let ?e = "int L - 54"
  have e0: "of_int n / scale2 ?e = of_int (n * 2 ^ (54 - L))"
  proof -
    have "nat (- ?e) = 54 - L" using L by simp
    then show ?thesis using L scale2_mult_int [of ?e n] by simp
  qed
  have "int (nat n) * 2 ^ (54 - L) \<ge> 2 ^ (L - 1) * 2 ^ (54 - L)"
    using b(1) by (metis mult_right_mono of_nat_le_iff of_nat_numeral of_nat_power zero_le_numeral zero_le_power)
  also have "(2 :: int) ^ (L - 1) * 2 ^ (54 - L) = 2 ^ 53"
    using L \<open>0 < L\<close> by (simp add: power_add [symmetric])
  finally have "2 ^ 53 \<le> n * 2 ^ (54 - L)" using assms(1) by simp
  then have "\<not> of_int (n * 2 ^ (54 - L)) < (2 ^ 53 :: rat)"
    by (metis not_le of_int_less_iff of_int_numeral of_int_power)
  moreover have f1: "floorlog 2 (nat 1) = 1" by (simp add: floorlog_def)
  ultimately have ex: "exponent53 (of_int n) = int L - 53"
    using e0 f1 by (simp add: exponent53_def quotient_of_int_one L_def [symmetric] Let_def del: of_int_mult)
  have "of_int n / scale2 (int L - 53) = (of_int (n * 2 ^ (53 - L)) :: rat)"
  proof -
    have "nat (- (int L - 53)) = 53 - L" using L by simp
    then show ?thesis using L scale2_mult_int [of "int L - 53" n] by simp
  qed
  then have "round_positive (of_int n) = of_int (n * 2 ^ (53 - L)) * scale2 (int L - 53)"
    by (simp only: round_positive_def ex round_even_of_int)
  also have "\<dots> = of_int n"
    using \<open>of_int n / scale2 (int L - 53) = of_int (n * 2 ^ (53 - L))\<close> scale2_pos [of "int L - 53"]
    by (metis less_irrefl nonzero_eq_divide_eq)
  finally show ?thesis .
qed

lemma round_double_int:
  assumes "abs n < 2 ^ 53"
  shows "round_double (of_int n) = of_int n"
proof -
  have "round_positive (of_int (- n)) = of_int (- n)" if "n < 0" using round_positive_int [of "- n"] that assms by simp
  moreover have "round_positive (of_int n) = of_int n" if "0 < n" using round_positive_int [of n] that assms by simp
  ultimately show ?thesis by (cases "n = 0") (auto simp: round_double_def)
qed

lemma int64_of_double_int: "abs n < 2 ^ 53 \<Longrightarrow> int64_of_double (Some (of_int n)) = Some (word_of_int n)"
  by (simp add: int64_of_double_def Let_def) linarith

text \<open>A positive number does not round to zero.\<close>

lemma round_positive_pos:
  assumes "0 < q"
  shows "0 < round_positive q"
proof -
  obtain n d where nd: "quotient_of q = (n, d)" by fastforce
  then have d: "0 < d" and q: "q = of_int n / of_int d" using quotient_of_denom_pos quotient_of_div by blast+
  with assms have n: "0 < n" by (simp add: zero_less_divide_iff)
  let ?a = "int (floorlog 2 (nat n))" and ?b = "int (floorlog 2 (nat d))"
  have "0 < floorlog 2 (nat n)" using n by (simp add: floorlog_def)
  have "2 ^ (floorlog 2 (nat n) - 1) \<le> nat n" using floorlog_bounds [of "nat n" 2] n by simp
  then have "scale2 (?a - 1) \<le> of_int n"
    using \<open>0 < floorlog 2 (nat n)\<close> n by (simp add: scale2_def power_int_def nat_diff_distrib)
  moreover have "nat d < 2 ^ floorlog 2 (nat d)" using floorlog_bounds [of "nat d" 2] d by simp
  then have "of_int d \<le> scale2 ?b"
    using d by (simp add: scale2_def)
  ultimately have "scale2 (?a - 1) * of_int d \<le> of_int n * scale2 ?b"
    using d n by (intro mult_mono) (simp_all add: less_imp_le)
  then have "scale2 (?a - 1) / scale2 ?b \<le> q"
    using d by (simp add: q field_simps)
  moreover obtain k where k: "scale2 (?a - 1) = k * scale2 (exponent53 q) * scale2 ?b" "1 \<le> k"
  proof (cases "exponent53 q = ?a - ?b - 53")
    case True
    have "scale2 (?a - 1) = scale2 52 * scale2 (exponent53 q) * scale2 ?b" by (simp add: True scale2_add [symmetric])
    moreover have "1 \<le> scale2 52" by (simp add: scale2_def power_int_def)
    ultimately show ?thesis by (rule that)
  next
    case False
    then have "exponent53 q = ?a - ?b - 52" by (auto simp: exponent53_def nd Let_def)
    then have "scale2 (?a - 1) = scale2 51 * scale2 (exponent53 q) * scale2 ?b" by (simp add: scale2_add [symmetric])
    moreover have "1 \<le> scale2 51" by (simp add: scale2_def power_int_def)
    ultimately show ?thesis by (rule that)
  qed
  ultimately have "k * scale2 (exponent53 q) \<le> q" using scale2_pos [of ?b] by (simp add: k(1))
  moreover have "scale2 (exponent53 q) \<le> k * scale2 (exponent53 q)" using k(2) scale2_pos [of "exponent53 q"] by simp
  ultimately have "scale2 (exponent53 q) \<le> q" by linarith
  then have "1 \<le> q / scale2 (exponent53 q)" using scale2_pos [of "exponent53 q"] by (simp add: le_divide_eq)
  then have "1 \<le> \<lfloor>q / scale2 (exponent53 q)\<rfloor>" by (simp only: le_floor_iff of_int_1)
  then have "1 \<le> round_even (q / scale2 (exponent53 q))"
    using round_even_ge order_trans by blast
  then show ?thesis by (simp add: round_positive_def)
qed

lemma double_of_u64_int: "uint v < 2 ^ 53 \<Longrightarrow> double_of_u64 v = of_int (uint v)"
  unfolding double_of_u64_def by (rule round_double_int) simp

lemma double_of_u64_pos: "v \<noteq> 0 \<Longrightarrow> 0 < double_of_u64 v"
proof -
  assume "v \<noteq> 0"
  then have "0 < uint v" by (simp add: word_neq_0_conv word_less_def)
  then have p: "0 < (of_int (uint v) :: rat)" by (simp only: of_int_0_less_iff)
  then show ?thesis unfolding double_of_u64_def round_double_def using round_positive_pos [OF p] by (simp only: if_True split: if_split) simp
qed

end
