(* ===== verification/Sdk_Combine.thy ===== *)
theory Sdk_Combine
  imports Sdk_Merge_Spec Trace_Config Double_Arith
begin

section \<open>Lining up clocks and combining trace files (vperfetto-sdk.cpp)\<close>

text \<open>
  \<open>combineTraces\<close> finds the difference between guest and host time in one of three ways and merges the
  files. A file that cannot be opened is \<open>None\<close>; its size is then -1, and resizing a vector to it
  throws. The results of parsing are arguments as in \<open>Sdk_Merge\<close>.
\<close>

record TraceCpuTimeSync =
  cpuTime :: u64
  cpuCyclesPerNano :: double
  clockTime :: u64
  clockId :: u32

record TraceCombineConfig =
  guestFile :: string
  hostFile :: string
  combinedFile :: string
  useGuestAbsoluteTime :: bool
  guestClockBootTimeNs :: u64
  useGuestTimeDiff :: bool
  guestClockTimeDiffNs :: i64
  guestTscOffset :: i64
  mergeGuestIntoHost :: bool

datatype combine_error = Length_error | Undefined_conversion

fun first_timestamp :: "'o Trace \<Rightarrow> u64" where
  "first_timestamp [] = 0"
| "first_timestamp (p # ps) = (case tp_timestamp p of Some ts \<Rightarrow> ts | None \<Rightarrow> first_timestamp ps)"

definition getTraceStartTime :: "(u8 list \<Rightarrow> 'o Trace option) \<Rightarrow> u8 list \<Rightarrow> u64" where
  "getTraceStartTime parse trace = (case parse trace of None \<Rightarrow> 0 | Some pbtrace \<Rightarrow> first_timestamp pbtrace)"

text \<open>The cpu and regular clock of a snapshot of two clocks; \<open>None\<close> if neither is the cpu clock (64).\<close>

definition snapshot_sync :: "(u32 \<times> u64) list \<Rightarrow> TraceCpuTimeSync option" where
  "snapshot_sync clocks =
     (let (cpuClock, regClock) = (if fst (clocks ! 0) = 64 then (0, 1) else (1, 0)) in
      if fst (clocks ! cpuClock) \<noteq> 64 then None
      else Some \<lparr>cpuTime = snd (clocks ! cpuClock), cpuCyclesPerNano = Some 0,
                 clockTime = snd (clocks ! regClock), clockId = fst (clocks ! regClock)\<rparr>)"

definition no_sync :: TraceCpuTimeSync where
  "no_sync = \<lparr>cpuTime = 0, cpuCyclesPerNano = Some 0, clockTime = 0, clockId = 0\<rparr>"

text \<open>The first and last snapshot; \<open>None\<close> when a snapshot of two clocks has no cpu clock.\<close>

fun find_syncs :: "'o Trace \<Rightarrow> TraceCpuTimeSync \<times> TraceCpuTimeSync \<Rightarrow> (TraceCpuTimeSync \<times> TraceCpuTimeSync) option" where
  "find_syncs [] fl = Some fl"
| "find_syncs (p # ps) (first, lst) =
     (case tp_data p of
        Clock_snapshot clocks r \<Rightarrow>
          (if length clocks = 2 then
             (case snapshot_sync clocks of
                None \<Rightarrow> None
              | Some s \<Rightarrow> find_syncs ps (if cpuTime first = 0 then s else first, s))
           else find_syncs ps (first, lst))
      | _ \<Rightarrow> find_syncs ps (first, lst))"

definition getTraceCpuTimeSync :: "(u8 list \<Rightarrow> 'o Trace option) \<Rightarrow> u8 list \<Rightarrow> TraceCpuTimeSync option" where
  "getTraceCpuTimeSync parse trace =
     (case parse trace of
        None \<Rightarrow> None
      | Some pbtrace \<Rightarrow>
          (case find_syncs pbtrace (no_sync, no_sync) of
             None \<Rightarrow> None
           | Some (first, lst) \<Rightarrow>
               (if cpuTime first \<noteq> 0 \<and> cpuTime lst \<noteq> 0 \<and> cpuTime lst > cpuTime first
                then Some (lst\<lparr>cpuCyclesPerNano :=
                       double_div (double_of_u64 (cpuTime lst - cpuTime first)) (double_of_u64 (clockTime lst - clockTime first))\<rparr>)
                else None)))"

definition deriveGuestTimeDiffWithGuestAbsoluteTime :: "(u8 list \<Rightarrow> 'o Trace option) \<Rightarrow> u8 list \<Rightarrow> u64 \<Rightarrow> i64" where
  "deriveGuestTimeDiffWithGuestAbsoluteTime parse hostTrace guestBootTimeNs =
     getSignedDifference guestBootTimeNs (getTraceStartTime parse hostTrace)"

definition deriveGuestTimeDiff :: "(u8 list \<Rightarrow> 'o Trace option) \<Rightarrow> u8 list \<Rightarrow> u8 list \<Rightarrow> i64 \<Rightarrow> i64 option" where
  "deriveGuestTimeDiff parse guestTrace hostTrace tscOffset =
     (let fallback = Some (getSignedDifference (getTraceStartTime parse guestTrace) (getTraceStartTime parse hostTrace)) in
      case (getTraceCpuTimeSync parse hostTrace, getTraceCpuTimeSync parse guestTrace) of
        (Some hostSync, Some guestSync) \<Rightarrow>
          (if clockId hostSync = clockId guestSync then
             (let guestCpu = cpuTime guestSync - tscOffset;
                  cyclesDelta = double_of_i64 (getSignedDifference (cpuTime hostSync) guestCpu)
              in map_option (\<lambda>offsetNs. clockTime guestSync + offsetNs - clockTime hostSync)
                   (int64_of_double (double_div_by cyclesDelta (cpuCyclesPerNano hostSync))))
           else fallback)
      | _ \<Rightarrow> fallback)"

definition combine_time_diff :: "(u8 list \<Rightarrow> 'o Trace option) \<Rightarrow> TraceCombineConfig \<Rightarrow> u8 list \<Rightarrow> u8 list \<Rightarrow> i64 option" where
  "combine_time_diff parse c guestTrace hostTrace =
     (if useGuestAbsoluteTime c then Some (deriveGuestTimeDiffWithGuestAbsoluteTime parse hostTrace (guestClockBootTimeNs c))
      else if useGuestTimeDiff c then Some (guestClockTimeDiffNs c)
      else deriveGuestTimeDiff parse guestTrace hostTrace (guestTscOffset c))"

text \<open>The bytes written to the combined file. \<open>files\<close> reads a file by name.\<close>

definition combineTraces :: "(u8 list \<Rightarrow> 'o Trace option) \<Rightarrow> ('o Trace \<Rightarrow> u8 list) \<Rightarrow> (string \<Rightarrow> u8 list option) \<Rightarrow>
    nat \<Rightarrow> TraceCombineConfig \<Rightarrow> combine_error + u8 list" where
  "combineTraces parse serialize files g c =
     (case files (guestFile c) of
        None \<Rightarrow> Inl Length_error
      | Some guestTrace \<Rightarrow>
          (case files (hostFile c) of
             None \<Rightarrow> Inl Length_error
           | Some hostTrace \<Rightarrow>
               (case combine_time_diff parse c guestTrace hostTrace of
                  None \<Rightarrow> Inl Undefined_conversion
                | Some timeDiff \<Rightarrow>
                    Inr (if mergeGuestIntoHost c
                         then fst (constructCombinedTrace parse serialize hostTrace guestTrace (- timeDiff) g)
                         else fst (constructCombinedTrace parse serialize guestTrace hostTrace timeDiff g)))))"

subsection \<open>Time differences\<close>

lemma getSignedDifference_same [simp]: "getSignedDifference a a = 0"
  by (simp add: getSignedDifference_def INT64_MAX_def Let_def)

text \<open>The rate of a sync is never 0.\<close>

lemma sync_rate:
  assumes "getTraceCpuTimeSync parse t = Some s"
  shows "cpuCyclesPerNano s \<noteq> Some 0"
proof -
  obtain pb first lst where p: "parse t = Some pb" "find_syncs pb (no_sync, no_sync) = Some (first, lst)"
    using assms by (auto simp: getTraceCpuTimeSync_def split: option.splits)
  have s: "cpuTime lst > cpuTime first" "s = lst\<lparr>cpuCyclesPerNano :=
      double_div (double_of_u64 (cpuTime lst - cpuTime first)) (double_of_u64 (clockTime lst - clockTime first))\<rparr>"
    using assms p by (simp_all add: getTraceCpuTimeSync_def split: if_splits)
  then have fl: "cpuTime lst > cpuTime first"
    "cpuCyclesPerNano s = double_div (double_of_u64 (cpuTime lst - cpuTime first)) (double_of_u64 (clockTime lst - clockTime first))"
    by simp_all
  then have "0 < double_of_u64 (cpuTime lst - cpuTime first)" by (intro double_of_u64_pos) auto
  moreover have "double_of_u64 x = 0 \<or> 0 < double_of_u64 x" for x using double_of_u64_pos [of x] by (cases "x = 0") (auto simp: double_of_u64_def)
  moreover have "double_div x y \<noteq> Some 0" if "0 < x" "y = 0 \<or> 0 < y" for x y
    using that round_positive_pos [of "x / y"] by (auto simp: double_div_def round_double_def)
  ultimately show ?thesis unfolding fl(2) by blast
qed

lemma derive_self:
  "deriveGuestTimeDiff parse t t 0 = Some 0"
proof (cases "getTraceCpuTimeSync parse t")
  case (Some s)
  have "int64_of_double (double_div_by 0 (cpuCyclesPerNano s)) = Some 0" if "cpuCyclesPerNano s \<noteq> Some 0"
    using that by (auto simp: double_div_by_def double_div_def split: option.split)
  moreover have "cpuCyclesPerNano s \<noteq> Some 0" by (rule sync_rate [OF Some])
  ultimately show ?thesis using Some by (simp add: deriveGuestTimeDiff_def Let_def)
qed (simp add: deriveGuestTimeDiff_def Let_def)

text \<open>When both traces have clock samples of the same clock, the cpu counter of the host ran at a whole
  number \<open>r\<close> of cycles per nanosecond between its first and last sample and the two counters are a whole number \<open>k\<close> of
  nanoseconds apart, the difference derived is exact: the last guest sample's clock plus \<open>k\<close> minus the host's, with
  the sample counts below \<open>2 ^ 53\<close>, where \<open>double\<close> is exact.\<close>
lemma cpu_sync_exact:
  assumes "getTraceCpuTimeSync parse hostTrace = Some hostSync" and "getTraceCpuTimeSync parse guestTrace = Some guestSync"
    and "clockId hostSync = clockId guestSync"
    and "cpuCyclesPerNano hostSync = double_div (double_of_u64 cycles) (double_of_u64 nanos)"
    and "uint cycles = r * uint nanos" and "0 < uint nanos" and "uint cycles < 2 ^ 53" and "0 < r"
    and "sint (getSignedDifference (cpuTime hostSync) (cpuTime guestSync - tscOffset)) = r * k" and "abs (r * k) < 2 ^ 53"
  shows "deriveGuestTimeDiff parse guestTrace hostTrace tscOffset = Some (clockTime guestSync + word_of_int k - clockTime hostSync)"
proof -
  have n: "uint nanos < 2 ^ 53"
    using assms(5-8) mult_le_cancel_right1 [of "uint nanos" r] by linarith
  have "r \<le> uint cycles" using assms(5,6,8) by (simp add: mult_le_cancel_left1)
  then have r: "abs r < 2 ^ 53" using assms(7,8) by simp
  have rate: "cpuCyclesPerNano hostSync = Some (of_int r)"
  proof -
    have d: "double_of_u64 cycles = of_int (uint cycles)" "double_of_u64 nanos = of_int (uint nanos)"
      using assms(7) n double_of_u64_int by blast+
    have z: "(of_int (uint nanos) :: rat) \<noteq> 0" using assms(6) by (simp only: of_int_eq_0_iff)
    have q: "(of_int (uint cycles) / of_int (uint nanos) :: rat) = of_int r"
      unfolding assms(5) of_int_mult using z by (rule nonzero_mult_div_cancel_right)
    show ?thesis unfolding assms(4) double_div_def d q round_double_int [OF r] using z by (simp only: if_False)
  qed
  have k: "abs k < 2 ^ 53" using assms(8,10) mult_right_mono [of 1 r "abs k"] by (simp add: abs_mult)
  have "double_of_i64 (getSignedDifference (cpuTime hostSync) (cpuTime guestSync - tscOffset)) = of_int (r * k)"
    unfolding double_of_i64_def assms(9) using assms(10) by (rule round_double_int)
  then have "double_div_by (double_of_i64 (getSignedDifference (cpuTime hostSync) (cpuTime guestSync - tscOffset)))
      (cpuCyclesPerNano hostSync) = Some (of_int k)"
    using assms(8) k by (simp add: rate double_div_by_def double_div_def round_double_int)
  then show ?thesis
    using assms(1-3) int64_of_double_int [OF k] by (simp add: deriveGuestTimeDiff_def Let_def)
qed

subsection \<open>Properties\<close>

text \<open>One moment on both clocks: \<open>same_moment parse c guest host h g\<close> says that the host's clock shows \<open>h\<close> when the guest's
  shows \<open>g\<close>, as the configuration has it. With the guest's boot time given, the host trace starts at that
  time; a given difference is between any two times; without samples of a common clock the two traces start
  together; with such samples the cpu counters decide, for a host counter that runs at a whole number \<open>r\<close> of cycles per
  nanosecond and a guest counter a whole number \<open>k\<close> of nanoseconds away (\<open>cpu_sync_exact\<close>). Times compared are less
  than \<open>2 ^ 63\<close> apart.\<close>

definition near :: "u64 \<Rightarrow> u64 \<Rightarrow> bool" where
  "near a b \<longleftrightarrow> abs (uint a - uint b) < 2 ^ 63"

definition common_clock :: "TraceCpuTimeSync option \<Rightarrow> TraceCpuTimeSync option \<Rightarrow> bool" where
  "common_clock hs gs = (case (hs, gs) of (Some h, Some g) \<Rightarrow> clockId h = clockId g | _ \<Rightarrow> False)"

inductive same_moment :: "(u8 list \<Rightarrow> 'o Trace option) \<Rightarrow> TraceCombineConfig \<Rightarrow> u8 list \<Rightarrow> u8 list \<Rightarrow> u64 \<Rightarrow> u64 \<Rightarrow> bool"
  for parse :: "u8 list \<Rightarrow> 'o Trace option" and c guest host where
  boot: "useGuestAbsoluteTime c \<Longrightarrow> near (guestClockBootTimeNs c) (getTraceStartTime parse host) \<Longrightarrow>
     same_moment parse c guest host (getTraceStartTime parse host) (guestClockBootTimeNs c)"
| given: "\<not> useGuestAbsoluteTime c \<Longrightarrow> useGuestTimeDiff c \<Longrightarrow> same_moment parse c guest host h (h + guestClockTimeDiffNs c)"
| starts: "\<not> useGuestAbsoluteTime c \<Longrightarrow> \<not> useGuestTimeDiff c \<Longrightarrow>
     \<not> common_clock (getTraceCpuTimeSync parse host) (getTraceCpuTimeSync parse guest) \<Longrightarrow>
     near (getTraceStartTime parse guest) (getTraceStartTime parse host) \<Longrightarrow>
     same_moment parse c guest host (getTraceStartTime parse host) (getTraceStartTime parse guest)"
| clocks: "\<not> useGuestAbsoluteTime c \<Longrightarrow> \<not> useGuestTimeDiff c \<Longrightarrow>
     getTraceCpuTimeSync parse host = Some hs \<Longrightarrow> getTraceCpuTimeSync parse guest = Some gs \<Longrightarrow> clockId hs = clockId gs \<Longrightarrow>
     cpuCyclesPerNano hs = double_div (double_of_u64 cycles) (double_of_u64 nanos) \<Longrightarrow>
     uint cycles = r * uint nanos \<Longrightarrow> 0 < uint nanos \<Longrightarrow> uint cycles < 2 ^ 53 \<Longrightarrow> 0 < r \<Longrightarrow>
     sint (getSignedDifference (cpuTime hs) (cpuTime gs - guestTscOffset c)) = r * k \<Longrightarrow> abs (r * k) < 2 ^ 53 \<Longrightarrow>
     same_moment parse c guest host (clockTime hs) (clockTime gs + word_of_int k)"

lemma near_difference: "near a b \<Longrightarrow> getSignedDifference a b = a - b"
  using getSignedDifference_adds_back [of a b] by (simp add: near_def eq_diff_eq add.commute)

lemma same_moment_diff:
  assumes "same_moment parse c guest host h g"
  shows "combine_time_diff parse c guest host = Some (g - h)"
  using assms
proof cases
  case boot
  then show ?thesis by (simp add: combine_time_diff_def deriveGuestTimeDiffWithGuestAbsoluteTime_def near_difference)
next
  case given
  then show ?thesis by (simp add: combine_time_diff_def)
next
  case starts
  then show ?thesis
    by (auto simp: combine_time_diff_def deriveGuestTimeDiff_def common_clock_def near_difference Let_def split: option.splits)
next
  case (clocks hs gs cycles nanos r k)
  then show ?thesis
    using cpu_sync_exact [OF clocks(5,6) clocks(7) clocks(8-14)] by (simp add: combine_time_diff_def)
qed

text \<open>C37 combine_lines_up: when both files can be read and the one to be added parses, the combined trace is the main trace (the
  host's if the guest is merged into it, otherwise the guest's) followed by the packets of the other, whose times, packet
  by packet and event by event, are moved to the main trace's clock: a time \<open>x\<close> after (or before) the moment that
  both clocks name becomes the time \<open>x\<close> after (or before) it on the main clock, in either direction of merging and for
  each way the difference is found.\<close>
theorem combine_lines_up:
  assumes "files (guestFile c) = Some guest" and "files (hostFile c) = Some host"
    and "same_moment parse c guest host h g"
    and "parse (if mergeGuestIntoHost c then guest else host) = Some t"
  shows "\<exists>t'. combineTraces parse serialize files seed c = Inr ((if mergeGuestIntoHost c then host else guest) @ serialize t') \<and>
    length t' = length t \<and>
    trace_times t' = map (map_option (\<lambda>ts. if mergeGuestIntoHost c then h + (ts - g) else g + (ts - h))) (trace_times t)"
proof -
  note d = same_moment_diff [OF assms(3)]
  have m: "\<exists>t'. fst (constructCombinedTrace parse serialize main addon d seed) = main @ serialize t' \<and> length t' = length t \<and>
      trace_times t' = map (map_option (\<lambda>ts. ts + d)) (trace_times t)" if "parse addon = Some t" for main addon d
    using that by (intro exI [of _ "fst (transform_addon (fst (sCalcMaxIds parse main seed)) d (snd (sCalcMaxIds parse main seed)) t)"])
      (simp add: constructCombinedTrace_def split_beta Let_def transform_is_map merged_times)
  show ?thesis
  proof (cases "mergeGuestIntoHost c")
    case True
    have e: "(\<lambda>ts. ts + (h - g)) = (\<lambda>ts. h + (ts - g))" by (simp add: fun_eq_iff algebra_simps)
    from True m [of guest host "h - g", unfolded e] assms d show ?thesis by (simp add: combineTraces_def)
  next
    case False
    have e: "(\<lambda>ts. ts + (g - h)) = (\<lambda>ts. g + (ts - h))" by (simp add: fun_eq_iff algebra_simps)
    from False m [of host guest "g - h", unfolded e] assms d show ?thesis by (simp add: combineTraces_def)
  qed
qed

text \<open>A host trace that starts at 5 and a guest trace that starts at 105, the guest merged into the host.\<close>

theorem combine_lines_up_witness:
  "combineTraces (\<lambda>bs. if bs = [1] then Some [(demo_packet 3)\<lparr>tp_timestamp := Some 105\<rparr>] else Some [demo_packet 3])
      (\<lambda>t. map (\<lambda>p. ucast (the (tp_timestamp p))) t) (\<lambda>n. if n = ''g'' then Some [1] else Some [2]) 1
      \<lparr>guestFile = ''g'', hostFile = ''h'', combinedFile = ''c'', useGuestAbsoluteTime = False, guestClockBootTimeNs = 0,
       useGuestTimeDiff = False, guestClockTimeDiffNs = 0, guestTscOffset = 0, mergeGuestIntoHost = True\<rparr> = Inr [2, 5]"
proof -
  let ?p = "(demo_packet 3)\<lparr>tp_timestamp := Some 105\<rparr>"
  let ?parse = "\<lambda>bs. if bs = [1 :: u8] then Some [?p] else Some [demo_packet 3]"
  let ?files = "\<lambda>n. if n = ''g'' then Some [1 :: u8] else Some [2]"
  let ?c = "\<lparr>guestFile = ''g'', hostFile = ''h'', combinedFile = ''c'', useGuestAbsoluteTime = False, guestClockBootTimeNs = 0,
       useGuestTimeDiff = False, guestClockTimeDiffNs = 0, guestTscOffset = 0, mergeGuestIntoHost = True\<rparr>"
  have s: "getTraceStartTime ?parse [2] = 5" "getTraceStartTime ?parse [1] = 105"
    by (simp_all add: getTraceStartTime_def demo_packet_def)
  have "same_moment ?parse ?c [1] [2] (getTraceStartTime ?parse [2]) (getTraceStartTime ?parse [1])"
    by (rule same_moment.starts) (simp, simp, simp add: common_clock_def getTraceCpuTimeSync_def demo_packet_def no_sync_def, simp add: s near_def)
  then have h: "same_moment ?parse ?c [1] [2] 5 105" by (simp only: s)
  have f: "?files (guestFile ?c) = Some [1]" "?files (hostFile ?c) = Some [2]" "?parse (if mergeGuestIntoHost ?c then [1] else [2]) = Some [?p]"
    by simp_all
  have t: "trace_times [?p] = [Some 105]" by (simp add: trace_times_def demo_packet_def)
  let ?ser = "\<lambda>t. map (\<lambda>p. ucast (the (tp_timestamp p))) t :: u8 list"
  have "\<exists>t' :: unit Trace. combineTraces ?parse ?ser ?files 1 ?c = Inr ((if mergeGuestIntoHost ?c then [2] else [1]) @ ?ser t') \<and>
    length t' = length [?p] \<and>
    trace_times t' = map (map_option (\<lambda>ts. if mergeGuestIntoHost ?c then 5 + (ts - 105) else 105 + (ts - 5))) (trace_times [?p])"
    by (rule combine_lines_up [where files = ?files and parse = ?parse and c = ?c and serialize = ?ser and seed = 1, OF f(1,2) h f(3)])
  then obtain t' :: "unit Trace" where t': "combineTraces ?parse ?ser ?files 1 ?c = Inr ([2] @ ?ser t')" "length t' = length [?p]"
    "trace_times t' = map (map_option (\<lambda>ts. 5 + (ts - 105))) (trace_times [?p])" by auto
  from t'(3) have "trace_times t' = [Some 5]" by (simp add: t)
  then have "?ser t' = [5]" using t'(2) by (cases t') (auto simp: trace_times_def)
  with t'(1) show ?thesis by simp
qed

text \<open>Two clock samples a microsecond apart, the cpu clock at 3 cycles per nanosecond.\<close>

definition demo_clocks :: "u64 \<Rightarrow> u64 \<Rightarrow> unit Trace" where
  "demo_clocks cpu clock =
     map (\<lambda>(x, y). (demo_packet 1)\<lparr>tp_data := Clock_snapshot [(64, x), (6, y)] ()\<rparr>)
       [(cpu, clock), (cpu + 3000, clock + 1000)]"

theorem cpu_sync_exact_witness:
  "deriveGuestTimeDiff (\<lambda>bs. Some (if bs = [1] then demo_clocks 9000 50 else demo_clocks 3000 70)) [1] [2] 0
     = Some (1050 + word_of_int (- 2000) - 1070)"
proof -
  let ?parse = "\<lambda>bs. Some (if bs = [1 :: u8] then demo_clocks 9000 50 else demo_clocks 3000 70)"
  let ?rate = "double_div (double_of_u64 3000) (double_of_u64 1000)"
  have h: "getTraceCpuTimeSync ?parse [2] = Some \<lparr>cpuTime = 6000, cpuCyclesPerNano = ?rate, clockTime = 1070, clockId = 6\<rparr>"
    by (simp add: getTraceCpuTimeSync_def demo_clocks_def snapshot_sync_def no_sync_def)
  have g: "getTraceCpuTimeSync ?parse [1] = Some \<lparr>cpuTime = 12000, cpuCyclesPerNano = ?rate, clockTime = 1050, clockId = 6\<rparr>"
    by (simp add: getTraceCpuTimeSync_def demo_clocks_def snapshot_sync_def no_sync_def)
  have "sint (getSignedDifference 6000 (12000 - 0)) = 3 * (- 2000)"
    using getSignedDifference_exact [of 6000 12000] by simp
  then show ?thesis using cpu_sync_exact [OF h g, of 3000 1000 3 0 "- 2000"] by simp
qed

text \<open>Combining fails, as the only error of reading, exactly when one of the two files cannot be opened
  (resizing the vector to -1 throws before anything is written); a trace lined up with itself
  is not shifted.\<close>
theorem combine_missing_file:
  "(combineTraces parse serialize files g c = Inl Length_error \<longleftrightarrow>
      files (guestFile c) = None \<or> files (hostFile c) = None) \<and>
   (files (guestFile c) = Some t \<and> files (hostFile c) = Some t \<and> \<not> useGuestAbsoluteTime c \<and> \<not> useGuestTimeDiff c \<and>
      guestTscOffset c = 0 \<longrightarrow>
    combineTraces parse serialize files g c = Inr (fst (constructCombinedTrace parse serialize t t 0 g)))"
  by (simp add: combineTraces_def combine_time_diff_def derive_self split: option.split)

theorem combine_missing_file_witness:
  "combineTraces (\<lambda>bs. Some [demo_packet 3]) (\<lambda>t. [7]) (\<lambda>n. if n = ''t'' then Some [1] else None) 1
     \<lparr>guestFile = ''t'', hostFile = ''t'', combinedFile = ''c'', useGuestAbsoluteTime = False, guestClockBootTimeNs = 100,
      useGuestTimeDiff = False, guestClockTimeDiffNs = 0, guestTscOffset = 0, mergeGuestIntoHost = False\<rparr> = Inr [1, 7]"
proof -
  let ?c = "\<lparr>guestFile = ''t'', hostFile = ''t'', combinedFile = ''c'', useGuestAbsoluteTime = False, guestClockBootTimeNs = 100,
      useGuestTimeDiff = False, guestClockTimeDiffNs = 0, guestTscOffset = 0, mergeGuestIntoHost = False\<rparr>"
  have "combineTraces (\<lambda>bs. Some [demo_packet 3]) (\<lambda>t. [7]) (\<lambda>n. if n = ''t'' then Some [1] else None) 1 ?c =
      Inr (fst (constructCombinedTrace (\<lambda>bs. Some [demo_packet 3]) (\<lambda>t. [7]) [1] [1] 0 1))"
    using combine_missing_file [of "\<lambda>bs. Some [demo_packet 3]" "\<lambda>t. [7]" "\<lambda>n. if n = ''t'' then Some [1] else None" 1 ?c "[1]"]
    by simp
  then show ?thesis by (simp add: constructCombinedTrace_def split_beta Let_def)
qed

end
