(* ===== verification/Merge_Cli.thy ===== *)
theory Merge_Cli
  imports Sdk_Combine
begin

section \<open>The command line tool (vperfetto_merge.cpp)\<close>

text \<open>
  \<open>main\<close> checks the trace files, reads the options and calls \<open>combineTraces\<close>. What the file system
  says about a name is an argument. Numbers are read by \<open>operator>>\<close> of an input stream.
\<close>

datatype file_status = Missing | Not_regular | Empty_file | Regular_file

definition sValidFilename :: "(string \<Rightarrow> file_status) \<Rightarrow> string option \<Rightarrow> bool" where
  "sValidFilename fs fn =
     (case fn of
        None \<Rightarrow> False
      | Some n \<Rightarrow>
          (if n = '''' then False
           else if fs n = Missing then False
           else if fs n = Not_regular then False
           else if fs n = Empty_file then False
           else True))"

subsection \<open>Reading numbers\<close>

definition is_space :: "char \<Rightarrow> bool" where
  "is_space c \<longleftrightarrow> (let n = of_char c :: nat in n = 32 \<or> 9 \<le> n \<and> n \<le> 13)"

definition digit_of :: "char \<Rightarrow> nat option" where
  "digit_of c = (let n = of_char c :: nat in if 48 \<le> n \<and> n \<le> 57 then Some (n - 48) else None)"

text \<open>Leading digits, and how many there are.\<close>

fun read_digits :: "string \<Rightarrow> nat \<Rightarrow> nat \<Rightarrow> nat \<times> nat" where
  "read_digits [] acc k = (acc, k)"
| "read_digits (c # cs) acc k =
     (case digit_of c of None \<Rightarrow> (acc, k) | Some d \<Rightarrow> read_digits cs (10 * acc + d) (Suc k))"

text \<open>The sign and magnitude after white space; \<open>None\<close> if no digit follows.\<close>

definition read_number :: "string \<Rightarrow> (bool \<times> nat) option" where
  "read_number s =
     (let t = dropWhile is_space s;
          (neg, u) = (case t of [] \<Rightarrow> (False, []) | c # cs \<Rightarrow>
             if c = CHR ''-'' then (True, cs) else if c = CHR ''+'' then (False, cs) else (False, t));
          (n, k) = read_digits u 0 0
      in if k = 0 then None else Some (neg, n))"

definition read_int64 :: "string \<Rightarrow> i64 option" where
  "read_int64 s =
     (case read_number s of
        None \<Rightarrow> None
      | Some (neg, n) \<Rightarrow>
          (if neg then (if n \<le> 2 ^ 63 then Some (word_of_int (- int n)) else None)
           else (if n < 2 ^ 63 then Some (word_of_int (int n)) else None)))"

text \<open>A minus sign is accepted for an unsigned number, which is then negated.\<close>

definition read_uint64 :: "string \<Rightarrow> u64 option" where
  "read_uint64 s =
     (case read_number s of
        None \<Rightarrow> None
      | Some (neg, n) \<Rightarrow> (if n < 2 ^ 64 then Some (if neg then - word_of_nat n else word_of_nat n) else None))"

subsection \<open>Options\<close>

fun parse_options :: "string list \<Rightarrow> TraceCombineConfig \<Rightarrow> TraceCombineConfig option" where
  "parse_options [] config = Some config"
| "parse_options (arg # args) config =
     (if arg = ''--guest-tsc-offset'' then
        (case args of
           [] \<Rightarrow> None
         | v # rest \<Rightarrow>
             (case read_int64 v of
                None \<Rightarrow> None
              | Some off \<Rightarrow> parse_options rest (config\<lparr>guestTscOffset := off\<rparr>)))
      else if arg = ''--merge-guest-into-host'' then parse_options args (config\<lparr>mergeGuestIntoHost := True\<rparr>)
      else
        (case read_uint64 arg of
           None \<Rightarrow> None
         | Some t \<Rightarrow> parse_options args (config\<lparr>guestClockBootTimeNs := t, useGuestAbsoluteTime := True\<rparr>)))"

text \<open>The exit code, and the configuration with which \<open>combineTraces\<close> is called if it is. \<open>config\<close> starts with the
  values the uninitialised variable has.\<close>

definition main :: "(string \<Rightarrow> file_status) \<Rightarrow> string list \<Rightarrow> TraceCombineConfig \<Rightarrow> nat \<times> TraceCombineConfig option" where
  "main fs argv config =
     (if length argv < 4 then (1, None)
      else if \<not> sValidFilename fs (Some (argv ! 1)) then (1, None)
      else if \<not> sValidFilename fs (Some (argv ! 2)) then (1, None)
      else
        (case parse_options (drop 4 argv)
                (config\<lparr>guestFile := argv ! 1, hostFile := argv ! 2, combinedFile := argv ! 3,
                       useGuestAbsoluteTime := False, useGuestTimeDiff := False, guestTscOffset := 0,
                       mergeGuestIntoHost := False\<rparr>) of
           None \<Rightarrow> (1, None)
         | Some c \<Rightarrow> (0, Some c)))"

subsection \<open>Numbers as printed\<close>

fun show_nat :: "nat \<Rightarrow> string" where
  "show_nat n = (if n < 10 then [char_of (48 + n)] else show_nat (n div 10) @ [char_of (48 + n mod 10)])"

declare show_nat.simps [simp del]

lemma digit_of_char [simp]: "d < 10 \<Longrightarrow> digit_of (char_of (48 + d)) = Some d"
  by (simp add: digit_of_def)

lemma read_digits_append:
  "\<forall>c \<in> set ds. digit_of c \<noteq> None \<Longrightarrow>
     read_digits (ds @ rest) acc k = (let (acc', k') = read_digits ds acc k in read_digits rest acc' k')"
  by (induction ds arbitrary: acc k) (auto split: option.splits)

lemma show_nat_digits: "\<forall>c \<in> set (show_nat n). digit_of c \<noteq> None" and show_nat_ne: "show_nat n \<noteq> []"
  by (induction n rule: show_nat.induct) (subst show_nat.simps; auto)+

lemma read_show: "read_digits (show_nat n) 0 k = (n, k + length (show_nat n))"
proof (induction n arbitrary: k rule: show_nat.induct)
  case (1 n)
  show ?case
  proof (cases "n < 10")
    case True
    then show ?thesis by (simp add: show_nat.simps [of n])
  next
    case False
    then have "read_digits (show_nat (n div 10)) 0 k = (n div 10, k + length (show_nat (n div 10)))" by (rule "1.IH")
    with False show_nat_digits [of "n div 10"] show ?thesis
      by (simp add: show_nat.simps [of n] read_digits_append)
  qed
qed

lemma show_nat_start: "\<exists>c cs. show_nat n = c # cs \<and> \<not> is_space c \<and> c \<noteq> CHR ''-'' \<and> c \<noteq> CHR ''+''"
proof -
  obtain c cs where c: "show_nat n = c # cs" using show_nat_ne [of n] by (cases "show_nat n") auto
  then have "digit_of c \<noteq> None" using show_nat_digits [of n] by simp
  then have "48 \<le> (of_char c :: nat) \<and> (of_char c :: nat) \<le> 57" by (auto simp: digit_of_def Let_def split: if_splits)
  then have "\<not> is_space c" "c \<noteq> CHR ''-''" "c \<noteq> CHR ''+''" by (auto simp: is_space_def Let_def)
  with c show ?thesis by blast
qed

lemma read_number_show:
  "read_number (show_nat n) = Some (False, n)" "read_number (CHR ''-'' # show_nat n) = Some (True, n)"
proof -
  obtain c cs where c: "show_nat n = c # cs" "\<not> is_space c" "c \<noteq> CHR ''-''" "c \<noteq> CHR ''+''"
    using show_nat_start by blast
  have r: "read_digits (c # cs) 0 0 = (n, Suc (length cs))" using read_show [of n 0] c(1) by simp
  show "read_number (show_nat n) = Some (False, n)"
    unfolding c(1) read_number_def using c(2-4) r by (simp add: Let_def del: read_digits.simps)
  have "\<not> is_space (CHR ''-'')" by (simp add: is_space_def)
  then show "read_number (CHR ''-'' # show_nat n) = Some (True, n)"
    unfolding c(1) read_number_def using r by (simp add: Let_def del: read_digits.simps)
qed

lemma parse_options_files:
  "parse_options args c = Some c' \<Longrightarrow> guestFile c' = guestFile c \<and> hostFile c' = hostFile c \<and>
     combinedFile c' = combinedFile c \<and> useGuestTimeDiff c' = useGuestTimeDiff c"
  by (induction args c rule: parse_options.induct) (auto split: if_splits option.splits list.splits)

subsection \<open>Properties\<close>

text \<open>A boot time or tsc offset printed in decimal is read back exactly over the whole 64-bit range, a number
  out of range or an argument without digits is refused.\<close>
theorem cli_numbers:
  "read_uint64 (show_nat (unat (t :: u64))) = Some t \<and>
   read_int64 (if sint (off :: i64) < 0 then CHR ''-'' # show_nat (nat (- sint off)) else show_nat (nat (sint off))) = Some off \<and>
   (2 ^ 64 \<le> n \<longrightarrow> read_uint64 (show_nat n) = None) \<and> (2 ^ 63 \<le> n \<longrightarrow> read_int64 (show_nat n) = None) \<and>
   read_uint64 '''' = None \<and> read_uint64 ''--help'' = None"
proof (intro conjI impI)
  show "read_uint64 (show_nat (unat t)) = Some t"
    using unsigned_less [of t, where ?'a = nat] by (simp add: read_uint64_def read_number_show)
  have b: "- (2 ^ 63) \<le> sint off" "sint off < 2 ^ 63"
    using sint_greater_eq [of off] sint_lt [of off] by simp_all
  show "read_int64 (if sint off < 0 then CHR ''-'' # show_nat (nat (- sint off)) else show_nat (nat (sint off))) = Some off"
    using b by (auto simp: read_int64_def read_number_show nat_le_iff nat_less_iff)
  show "read_uint64 (show_nat n) = None" if "2 ^ 64 \<le> n" using that by (simp add: read_uint64_def read_number_show)
  show "read_int64 (show_nat n) = None" if "2 ^ 63 \<le> n" using that by (simp add: read_int64_def read_number_show)
qed (simp_all add: read_uint64_def read_number_def is_space_def digit_of_def)

theorem cli_numbers_witness:
  "read_uint64 (show_nat (2 ^ 64 + 5)) = None \<and> read_int64 (show_nat (2 ^ 64 + 5)) = None"
  using cli_numbers [of 0 0 "2 ^ 64 + 5"] by simp

text \<open>The tool exits with 1 and combines nothing, or exits with 0 and combines the files named by its first three
  arguments, both of which exist as non-empty regular files; a time difference is never taken from the command line, and
  with no option at all the difference is derived from the traces and the host is merged into the guest.\<close>
theorem cli_outcome:
  "case main fs argv config of
      (code, None) \<Rightarrow> code = 1
    | (code, Some c) \<Rightarrow> code = 0 \<and> 4 \<le> length argv \<and> guestFile c = argv ! 1 \<and> hostFile c = argv ! 2 \<and> combinedFile c = argv ! 3 \<and>
        fs (guestFile c) = Regular_file \<and> fs (hostFile c) = Regular_file \<and> \<not> useGuestTimeDiff c \<and>
        (length argv = 4 \<longrightarrow> \<not> useGuestAbsoluteTime c \<and> guestTscOffset c = 0 \<and> \<not> mergeGuestIntoHost c)"
proof (cases "snd (main fs argv config)")
  case None
  then show ?thesis by (auto simp: main_def split: option.splits if_splits)
next
  case (Some c)
  let ?c = "config\<lparr>guestFile := argv ! 1, hostFile := argv ! 2, combinedFile := argv ! 3,
                       useGuestAbsoluteTime := False, useGuestTimeDiff := False, guestTscOffset := 0,
                       mergeGuestIntoHost := False\<rparr>"
  from Some have m: "\<not> length argv < 4" "sValidFilename fs (Some (argv ! 1))" "sValidFilename fs (Some (argv ! 2))"
    "parse_options (drop 4 argv) ?c = Some c" "fst (main fs argv config) = 0"
    by (auto simp: main_def split: option.splits if_splits)
  have v: "fs n = Regular_file" if "sValidFilename fs (Some n)" for n
    using that by (cases "fs n") (auto simp: sValidFilename_def split: if_splits)
  have "main fs argv config = (0, Some c)" using Some m(5) by (metis prod.collapse)
  moreover have "length argv = 4 \<longrightarrow> c = ?c" using m(4) by auto
  ultimately show ?thesis using m(1) v [OF m(2)] v [OF m(3)] parse_options_files [OF m(4)] by auto
qed

theorem cli_outcome_witness:
  "\<exists>c. main (\<lambda>n. Regular_file) [''m'', ''g'', ''h'', ''c''] \<lparr>guestFile = '''', hostFile = '''', combinedFile = '''', useGuestAbsoluteTime = True,
      guestClockBootTimeNs = 100, useGuestTimeDiff = True, guestClockTimeDiffNs = 0, guestTscOffset = 7, mergeGuestIntoHost = True\<rparr> = (0, Some c) \<and>
     guestFile c = ''g'' \<and> guestTscOffset c = 0"
proof -
  let ?u = "\<lparr>guestFile = '''', hostFile = '''', combinedFile = '''', useGuestAbsoluteTime = True,
      guestClockBootTimeNs = 100, useGuestTimeDiff = True, guestClockTimeDiffNs = 0, guestTscOffset = 7, mergeGuestIntoHost = True\<rparr>"
  let ?m = "main (\<lambda>n. Regular_file) [''m'', ''g'', ''h'', ''c''] ?u"
  obtain c where c: "?m = (0, Some c)" by (simp add: main_def sValidFilename_def)
  with cli_outcome [where fs = "\<lambda>n. Regular_file" and argv = "[''m'', ''g'', ''h'', ''c'']" and config = ?u] show ?thesis by simp
qed

end
