(* ===== verification/Min_Api.thy ===== *)
theory Min_Api
  imports Trace_Config
begin

section \<open>The minimal API (vperfetto-min.cpp)\<close>

text \<open>
  \<open>vperfetto_min\<close> traces through the SDK, with the in-process backend (a session of its own, saved to a file) or
  the system backend (the system daemon records). A callback is \<open>None\<close> or a number that stands for
  the function; \<open>registered\<close> is what \<open>TrackEvent::Register\<close> returns, \<open>trace\<close> what \<open>ReadTraceBlocking\<close> returns.
\<close>

definition VPERFETTO_INIT_FLAG_USE_INPROCESS_BACKEND :: u32 where "VPERFETTO_INIT_FLAG_USE_INPROCESS_BACKEND = 1"
definition VPERFETTO_INIT_FLAG_USE_SYSTEM_BACKEND :: u32 where "VPERFETTO_INIT_FLAG_USE_SYSTEM_BACKEND = 2"

record vperfetto_min_config =
  on_tracing_state_change :: "nat option"
  init_flags :: u32
  filename :: "string option"
  shmem_size_hint_kb :: u32

record min_state =
  min_cfg :: VirtualDeviceTraceConfig
  min_initialized :: bool
  min_backends :: "(bool \<times> bool \<times> u32) option"
  sOnTracingStateChange :: "nat option"
  min_session :: bool
  min_hostTrace :: "u8 list"

definition min_sTraceConfig :: VirtualDeviceTraceConfig where
  "min_sTraceConfig = \<lparr>initialized = False, tracingDisabled = True, packetsWritten = 0, sequenceIdWritten = False,
     currentInterningId = 1, currentThreadId = 1, hostFilename = Some ''vmm.trace'', guestFilename = None,
     combinedFilename = None, hostStartTime = 0, guestStartTime = 0, guestTimeDiff = 0,
     perThreadStorageMb = 1, saving = False\<rparr>"

definition min_init :: min_state where
  "min_init = \<lparr>min_cfg = min_sTraceConfig, min_initialized = False, min_backends = None, sOnTracingStateChange = None,
     min_session = False, min_hostTrace = []\<rparr>"

definition uses_system :: "vperfetto_min_config \<Rightarrow> bool" where
  "uses_system config \<longleftrightarrow> init_flags config AND VPERFETTO_INIT_FLAG_USE_SYSTEM_BACKEND \<noteq> 0"

definition uses_inprocess :: "vperfetto_min_config \<Rightarrow> bool" where
  "uses_inprocess config \<longleftrightarrow> init_flags config AND VPERFETTO_INIT_FLAG_USE_INPROCESS_BACKEND \<noteq> 0"

definition validateConfig :: "vperfetto_min_config \<Rightarrow> bool" where
  "validateConfig config =
     (if on_tracing_state_change config = None then False
      else if init_flags config = 0 then False
      else if \<not> uses_system config \<and> (filename config = None \<or> filename config = Some '''') then False
      else True)"

text \<open>\<open>Tracing::Initialize\<close> gets the backends and the size hint even when registering fails afterwards.\<close>

definition min_initPerfetto :: "bool \<Rightarrow> vperfetto_min_config \<Rightarrow> min_state \<Rightarrow> min_state" where
  "min_initPerfetto registered config s =
     (if \<not> min_initialized s then
        (let s1 = s\<lparr>min_backends := Some (uses_inprocess config, uses_system config, shmem_size_hint_kb config)\<rparr>
         in if \<not> registered then s1 else s1\<lparr>min_initialized := True\<rparr>)
      else s)"

definition vperfetto_min_startTracing :: "bool \<Rightarrow> vperfetto_min_config \<Rightarrow> min_state \<Rightarrow> min_state" where
  "vperfetto_min_startTracing registered config s =
     (if \<not> validateConfig config then s
      else
        (let s1 = s\<lparr>min_cfg := (min_cfg s)\<lparr>hostFilename := filename config\<rparr>,
                    sOnTracingStateChange := on_tracing_state_change config\<rparr>;
             s2 = min_initPerfetto registered config s1
         in if tracingDisabled (min_cfg s2) then
              (let s3 = (if \<not> uses_system config then s2\<lparr>min_session := True\<rparr> else s2)
               in s3\<lparr>min_cfg := (min_cfg s3)\<lparr>tracingDisabled := False\<rparr>\<rparr>)
            else s2))"

definition vperfetto_min_endTracing :: "u8 list \<Rightarrow> min_state \<Rightarrow> (string option \<times> u8 list) list \<times> min_state" where
  "vperfetto_min_endTracing trace s =
     (if \<not> tracingDisabled (min_cfg s) then
        (let s1 = s\<lparr>min_cfg := (min_cfg s)\<lparr>tracingDisabled := True\<rparr>\<rparr> in
         if saving (min_cfg s1) then ([], s1)
         else
           (let s2 = s1\<lparr>min_cfg := (min_cfg s1)\<lparr>saving := True\<rparr>\<rparr> in
            if min_session s2 then
              ([(hostFilename (min_cfg s2), trace)],
               s2\<lparr>min_hostTrace := trace, min_session := False, min_cfg := (min_cfg s2)\<lparr>saving := False\<rparr>\<rparr>)
            else ([], s2)))
      else ([], s))"

subsection \<open>Histories\<close>

datatype min_call = Min_start bool vperfetto_min_config | Min_end "u8 list"

fun min_step :: "min_call \<Rightarrow> min_state \<Rightarrow> (string option \<times> u8 list) list \<times> min_state" where
  "min_step (Min_start registered config) s = ([], vperfetto_min_startTracing registered config s)"
| "min_step (Min_end trace) s = vperfetto_min_endTracing trace s"

fun min_steps :: "min_call list \<Rightarrow> min_state \<Rightarrow> (string option \<times> u8 list) list \<times> min_state" where
  "min_steps [] s = ([], s)"
| "min_steps (c # cs) s = (let (ws, s1) = min_step c s; (ws', s2) = min_steps cs s1 in (ws @ ws', s2))"

lemma start_keeps_saving:
  "saving (min_cfg (vperfetto_min_startTracing registered config s)) = saving (min_cfg s)"
  by (simp add: vperfetto_min_startTracing_def min_initPerfetto_def Let_def)

lemma stuck_steps: "saving (min_cfg s) \<Longrightarrow> fst (min_steps cs s) = [] \<and> saving (min_cfg (snd (min_steps cs s)))"
proof (induction cs arbitrary: s)
  case (Cons c cs)
  have "fst (min_step c s) = [] \<and> saving (min_cfg (snd (min_step c s)))"
    using Cons.prems by (cases c) (simp_all add: start_keeps_saving vperfetto_min_endTracing_def)
  with Cons.IH [of "snd (min_step c s)"] show ?case by (simp add: split_beta Let_def)
qed simp

subsection \<open>Properties\<close>

text \<open>Exactly the configurations with a callback, some backend flag and, unless the system
  backend is used, a file name that is not empty are accepted; a refused one changes nothing.\<close>
theorem min_valid_configs:
  "validateConfig config = (on_tracing_state_change config \<noteq> None \<and> init_flags config \<noteq> 0 \<and>
      (uses_system config \<or> (\<exists>n. filename config = Some n \<and> n \<noteq> ''''))) \<and>
   (\<not> validateConfig config \<longrightarrow> vperfetto_min_startTracing registered config s = s)"
  by (auto simp: validateConfig_def vperfetto_min_startTracing_def)

theorem min_valid_configs_witness:
  "vperfetto_min_startTracing True \<lparr>on_tracing_state_change = Some 1, init_flags = 1, filename = None, shmem_size_hint_kb = 0\<rparr> min_init
     = min_init"
proof -
  let ?c = "\<lparr>on_tracing_state_change = Some 1, init_flags = 1, filename = None, shmem_size_hint_kb = 0\<rparr>"
  have "\<not> validateConfig ?c" by code_simp
  then show ?thesis using min_valid_configs [of ?c True min_init] by blast
qed

text \<open>With the in-process backend, starting when tracing is off and no save is pending and then ending
  writes exactly the recorded trace to the configured file, and the library is ready to start again.\<close>
theorem min_saves_session:
  assumes "validateConfig config" and "\<not> uses_system config" and "tracingDisabled (min_cfg s)" and "\<not> saving (min_cfg s)"
  shows "\<exists>s'. min_steps [Min_start registered config, Min_end trace] s = ([(filename config, trace)], s') \<and>
    tracingDisabled (min_cfg s') \<and> \<not> saving (min_cfg s') \<and> \<not> min_session s'"
  using assms by (simp add: vperfetto_min_startTracing_def vperfetto_min_endTracing_def min_initPerfetto_def Let_def)

theorem min_saves_session_witness:
  "\<exists>s'. min_steps [Min_start True \<lparr>on_tracing_state_change = Some 1, init_flags = 1, filename = Some ''f'', shmem_size_hint_kb = 0\<rparr>,
       Min_end [1, 2]] min_init = ([(Some ''f'', [1, 2])], s')"
proof -
  let ?c = "\<lparr>on_tracing_state_change = Some 1, init_flags = 1, filename = Some ''f'', shmem_size_hint_kb = 0\<rparr>"
  have "validateConfig ?c" "\<not> uses_system ?c" "tracingDisabled (min_cfg min_init)" "\<not> saving (min_cfg min_init)"
    by code_simp+
  from min_saves_session [OF this, of True "[1, 2]"] show ?thesis by auto
qed

text \<open>Ending a trace of the system backend leaves the saving flag on for ever: no later sequence of calls
  writes a trace, even with the in-process backend.\<close>
theorem min_system_backend_blocks:
  assumes "validateConfig config" and "uses_system config" and "tracingDisabled (min_cfg s)" and "\<not> min_session s"
  shows "fst (min_steps (Min_start registered config # Min_end trace # calls) s) = [] \<and>
    saving (min_cfg (snd (min_steps (Min_start registered config # Min_end trace # calls) s)))"
proof -
  let ?s = "snd (min_steps [Min_start registered config, Min_end trace] s)"
  have "fst (min_steps [Min_start registered config, Min_end trace] s) = [] \<and> saving (min_cfg ?s)"
    using assms by (simp add: vperfetto_min_startTracing_def vperfetto_min_endTracing_def min_initPerfetto_def Let_def)
  with stuck_steps [of ?s calls] show ?thesis by (simp add: split_beta Let_def)
qed

theorem min_system_backend_blocks_witness:
  "fst (min_steps [Min_start True \<lparr>on_tracing_state_change = Some 1, init_flags = 2, filename = None, shmem_size_hint_kb = 0\<rparr>, Min_end [],
       Min_start True \<lparr>on_tracing_state_change = Some 1, init_flags = 1, filename = Some ''f'', shmem_size_hint_kb = 0\<rparr>, Min_end [1, 2]] min_init) = []"
proof -
  let ?c = "\<lparr>on_tracing_state_change = Some 1, init_flags = 2, filename = None, shmem_size_hint_kb = 0\<rparr>"
  have "validateConfig ?c" "uses_system ?c" "tracingDisabled (min_cfg min_init)" "\<not> min_session min_init"
    by code_simp+
  from min_system_backend_blocks [OF this] show ?thesis by blast
qed

end
