(* ===== verification/Packed_Fields.thy ===== *)
theory Packed_Fields
  imports Typed_Decoder
begin

section \<open>Packed repeated fields (protozero/packed_repeated_fields.h, .cc and proto_decoder.h)\<close>

text \<open>
  \<open>PackedVarInt\<close> and \<open>PackedFixedSizeInt\<close> collect the encoded elements of a packed field in a growing
  buffer, and \<open>PackedRepeatedFieldIterator\<close> decodes the payload of such a field. The storage array of
  the buffer is a list whose unwritten bytes are 0 here (the code never reads them) and the pointers into
  it are offsets from \<open>storage_begin_\<close>. The iterator reads a byte memory through indexes; its parse error
  flag, which the caller owns, is the field \<open>parse_error\<close>. Elements read are words of the client's type \<open>'c\<close>.
\<close>

subsection \<open>The buffers\<close>

record PackedBuffer =
  pk_storage :: memory
  pk_write :: nat
  pk_on_heap :: bool

definition kMaxElementSize :: nat where
  "kMaxElementSize = 10"

definition kOnStackStorageSize :: nat where
  "kOnStackStorageSize = 8192 - 32"

definition packed_Reset :: PackedBuffer where
  "packed_Reset = \<lparr>pk_storage = replicate kOnStackStorageSize 0, pk_write = 0, pk_on_heap = False\<rparr>"

definition packed_data :: "PackedBuffer \<Rightarrow> u8 list" where
  "packed_data b = take (pk_write b) (pk_storage b)"

definition packed_size :: "PackedBuffer \<Rightarrow> nat" where
  "packed_size b = pk_write b"

text \<open>\<open>(size + alignment - 1) & ~(alignment - 1)\<close> for an alignment that is a power of two.\<close>

definition AlignUp :: "nat \<Rightarrow> nat \<Rightarrow> nat" where
  "AlignUp alignment sz = (sz + alignment - 1) div alignment * alignment"

definition GrowSlowpath :: "PackedBuffer \<Rightarrow> PackedBuffer" where
  "GrowSlowpath b =
     (let old_size = length (pk_storage b);
          new_size = AlignUp 4096 (if old_size < 65536 then old_size * 2 else old_size * 3 div 2)
      in b\<lparr>pk_storage := pk_storage b @ replicate (new_size - old_size) 0, pk_on_heap := True\<rparr>)"

definition GrowIfNeeded :: "PackedBuffer \<Rightarrow> PackedBuffer" where
  "GrowIfNeeded b = (if length (pk_storage b) < pk_write b + kMaxElementSize then GrowSlowpath b else b)"

text \<open>Storing bytes at the write pointer; \<open>None\<close> is a store behind the storage.\<close>

definition packed_store :: "u8 list \<Rightarrow> PackedBuffer \<Rightarrow> PackedBuffer option" where
  "packed_store bytes b =
     (if pk_write b + length bytes \<le> length (pk_storage b)
      then Some (b\<lparr>pk_storage := take (pk_write b) (pk_storage b) @ bytes @ drop (pk_write b + length bytes) (pk_storage b),
                   pk_write := pk_write b + length bytes\<rparr>)
      else None)"

definition PackedVarInt_Append :: "u64 \<Rightarrow> PackedBuffer \<Rightarrow> PackedBuffer option" where
  "PackedVarInt_Append v b = packed_store (WriteVarInt v) (GrowIfNeeded b)"

text \<open>The template's \<open>sizeof(T)\<close>, 4 or 8, is the first argument.\<close>

definition PackedFixedSizeInt_Append :: "nat \<Rightarrow> u64 \<Rightarrow> PackedBuffer \<Rightarrow> PackedBuffer option" where
  "PackedFixedSizeInt_Append sizeof_T v b = packed_store (store_le sizeof_T v) (GrowIfNeeded b)"

fun append_all :: "('v \<Rightarrow> PackedBuffer \<Rightarrow> PackedBuffer option) \<Rightarrow> 'v list \<Rightarrow> PackedBuffer \<Rightarrow> PackedBuffer option" where
  "append_all f [] b = Some b"
| "append_all f (v # vs) b = Option.bind (f v b) (append_all f vs)"

subsection \<open>The iterator\<close>

record 'v PackedIter =
  pi_data_end :: nat
  pi_read_ptr :: nat
  curr_value :: 'v
  curr_value_valid :: bool
  parse_error :: bool

definition packed_next :: "ProtoWireType \<Rightarrow> memory \<Rightarrow> 'c::len word PackedIter \<Rightarrow> 'c word PackedIter" where
  "packed_next wire_type mem it =
     (if \<not> curr_value_valid it then it
      else if pi_read_ptr it = pi_data_end it then it\<lparr>curr_value_valid := False\<rparr>
      else if wire_type = kVarInt then
        (let (new_pos, new_value) = ParseVarInt mem (pi_read_ptr it) (pi_data_end it) in
         if new_pos = pi_read_ptr it then it\<lparr>parse_error := True, curr_value_valid := False\<rparr>
         else it\<lparr>pi_read_ptr := new_pos, curr_value := ucast new_value\<rparr>)
      else
        (let kStep = (if wire_type = kFixed32 then 4 else 8) in
         it\<lparr>curr_value := load_le (mem_range mem (pi_read_ptr it) (pi_read_ptr it + LENGTH('c) div 8)),
            pi_read_ptr := pi_read_ptr it + kStep\<rparr>))"

definition PackedRepeatedFieldIterator :: "ProtoWireType \<Rightarrow> memory \<Rightarrow> nat \<Rightarrow> nat \<Rightarrow> bool \<Rightarrow> 'c::len word PackedIter" where
  "PackedRepeatedFieldIterator wire_type mem data_begin sz err =
     (let it = \<lparr>pi_data_end = data_begin + sz, pi_read_ptr = data_begin, curr_value = 0,
                curr_value_valid = True, parse_error = err\<rparr> in
      if sz = 0 then it\<lparr>curr_value_valid := False\<rparr>
      else if wire_type = kFixed32 \<and> sz mod 4 \<noteq> 0 \<or> wire_type = kFixed64 \<and> sz mod 8 \<noteq> 0
      then it\<lparr>parse_error := True, curr_value_valid := False\<rparr>
      else packed_next wire_type mem it)"

definition GetPackedRepeated :: "ProtoWireType \<Rightarrow> memory \<Rightarrow> TypedDecoder \<Rightarrow> u32 \<Rightarrow> bool \<Rightarrow> 'c::len word PackedIter" where
  "GetPackedRepeated wire_type mem t field_id err =
     (let f = Get t (unat field_id) in
      if f_valid f then PackedRepeatedFieldIterator wire_type mem (field_data f) (unat (f_size f)) err
      else PackedRepeatedFieldIterator wire_type mem 0 0 err)"

text \<open>The client's loop \<^verbatim>\<open>for (auto it = ...; it; ++it)\<close>, at most \<open>fuel\<close> times: the values seen and the
  iterator that is left.\<close>

fun packed_loop :: "nat \<Rightarrow> ProtoWireType \<Rightarrow> memory \<Rightarrow> 'c::len word PackedIter \<Rightarrow> 'c word list \<times> 'c word PackedIter" where
  "packed_loop 0 wire_type mem it = ([], it)"
| "packed_loop (Suc fuel) wire_type mem it =
     (if curr_value_valid it
      then (let (vs, it') = packed_loop fuel wire_type mem (packed_next wire_type mem it) in (curr_value it # vs, it'))
      else ([], it))"

subsection \<open>Appending\<close>

text \<open>The storage is at least the stack buffer, so that growing always makes room for one more element.\<close>

definition packed_wf :: "PackedBuffer \<Rightarrow> bool" where
  "packed_wf b \<longleftrightarrow> pk_write b \<le> length (pk_storage b) \<and> kOnStackStorageSize \<le> length (pk_storage b)"

lemma AlignUp_ge: "n \<le> AlignUp 4096 n"
  unfolding AlignUp_def by linarith

lemma packed_wf_Reset [simp]: "packed_wf packed_Reset" "packed_data packed_Reset = []"
  by (simp_all add: packed_wf_def packed_Reset_def packed_data_def)

lemma GrowSlowpath_room:
  assumes "kOnStackStorageSize \<le> length (pk_storage b)"
  shows "length (pk_storage b) + kMaxElementSize \<le> length (pk_storage (GrowSlowpath b))"
proof -
  let ?n = "length (pk_storage b)"
  let ?m = "if ?n < 65536 then ?n * 2 else ?n * 3 div 2"
  have "?n + kMaxElementSize \<le> ?m" using assms by (auto simp: kOnStackStorageSize_def kMaxElementSize_def)
  with AlignUp_ge [of ?m] have "?n + kMaxElementSize \<le> AlignUp 4096 ?m" by linarith
  then show ?thesis by (simp add: GrowSlowpath_def Let_def)
qed

lemma GrowIfNeeded_wf:
  assumes "packed_wf b"
  shows "packed_wf (GrowIfNeeded b) \<and> packed_data (GrowIfNeeded b) = packed_data b \<and> pk_write (GrowIfNeeded b) = pk_write b \<and>
    pk_write b + kMaxElementSize \<le> length (pk_storage (GrowIfNeeded b))"
proof (cases "length (pk_storage b) < pk_write b + kMaxElementSize")
  case True
  have "kOnStackStorageSize \<le> length (pk_storage b)" "pk_write b \<le> length (pk_storage b)"
    using assms by (simp_all add: packed_wf_def)
  moreover have "packed_data (GrowSlowpath b) = packed_data b" "pk_write (GrowSlowpath b) = pk_write b"
    using assms by (simp_all add: GrowSlowpath_def packed_data_def packed_wf_def Let_def)
  ultimately show ?thesis
    using True GrowSlowpath_room [of b] by (simp add: GrowIfNeeded_def packed_wf_def)
qed (use assms in \<open>simp add: GrowIfNeeded_def\<close>)

lemma packed_store_fits:
  assumes "packed_wf b" and "pk_write b + length bytes \<le> length (pk_storage b)"
  shows "\<exists>b'. packed_store bytes b = Some b' \<and> packed_wf b' \<and> packed_data b' = packed_data b @ bytes"
  using assms by (auto simp: packed_store_def packed_wf_def packed_data_def)

lemma packed_store_data:
  assumes "packed_wf b" and "length bytes \<le> kMaxElementSize"
  shows "\<exists>b'. packed_store bytes (GrowIfNeeded b) = Some b' \<and> packed_wf b' \<and> packed_data b' = packed_data b @ bytes"
proof -
  let ?g = "GrowIfNeeded b"
  have g: "packed_wf ?g" "packed_data ?g = packed_data b" "pk_write ?g + length bytes \<le> length (pk_storage ?g)"
    using GrowIfNeeded_wf [OF assms(1)] assms(2) by auto
  from packed_store_fits [OF g(1,3)] show ?thesis by (simp only: g(2))
qed

lemma append_all_data:
  assumes app: "\<And>v b. f v b = packed_store (enc v) (GrowIfNeeded b)"
    and len: "\<And>v. length (enc v) \<le> kMaxElementSize" and "packed_wf b"
  shows "\<exists>b'. append_all f vs b = Some b' \<and> packed_wf b' \<and> packed_data b' = packed_data b @ concat (map enc vs)"
  using \<open>packed_wf b\<close>
proof (induction vs arbitrary: b)
  case (Cons v vs)
  from packed_store_data [OF Cons.prems len, of v] obtain b1
    where b1: "f v b = Some b1" "packed_wf b1" "packed_data b1 = packed_data b @ enc v" by (auto simp: app)
  with Cons.IH [OF b1(2)] show ?case by auto
qed simp

lemma length_WriteVarInt_u64: "length (WriteVarInt (v :: u64)) \<le> kMaxElementSize"
proof -
  have "unat v < 2 ^ (7 * 10)" using unsigned_less [of v, where ?'a = nat] by simp
  from length_WriteVarInt_le [OF this] show ?thesis by (simp add: kMaxElementSize_def)
qed

lemma packed_size_data: "packed_wf b \<Longrightarrow> packed_size b = length (packed_data b)"
  by (simp add: packed_wf_def packed_size_def packed_data_def)

subsection \<open>Iterating\<close>

text \<open>\<open>decodes wt mem enc dec\<close>: an element \<open>enc v\<close> in memory is read as \<open>dec v\<close> by one step.\<close>

definition decodes :: "ProtoWireType \<Rightarrow> memory \<Rightarrow> (u64 \<Rightarrow> u8 list) \<Rightarrow> (u64 \<Rightarrow> 'c::len word) \<Rightarrow> u64 \<Rightarrow> bool" where
  "decodes wt mem enc dec v \<longleftrightarrow>
     (\<forall>(it :: 'c word PackedIter) rest. curr_value_valid it \<and> pi_data_end it \<le> length mem \<and>
        mem_range mem (pi_read_ptr it) (pi_data_end it) = enc v @ rest \<longrightarrow>
        packed_next wt mem it = it\<lparr>pi_read_ptr := pi_read_ptr it + length (enc v), curr_value := dec v\<rparr>)"

lemma packed_loop_values:
  fixes it :: "'c::len word PackedIter"
  assumes "mem_range mem (pi_read_ptr it) (pi_data_end it) = concat (map enc vs)"
    and "pi_read_ptr it \<le> pi_data_end it" and "pi_data_end it \<le> length mem" and "curr_value_valid it"
    and enc: "\<And>v. enc v \<noteq> []" and dec: "\<And>v. v \<in> set vs \<Longrightarrow> decodes wt mem enc dec v"
    and "length vs \<le> fuel"
  shows "\<exists>it'. packed_loop fuel wt mem (packed_next wt mem it) = (map dec vs, it') \<and> \<not> curr_value_valid it' \<and>
     parse_error it' = parse_error it \<and> pi_read_ptr it' = pi_data_end it"
  using assms
proof (induction vs arbitrary: it fuel)
  case Nil
  then have "pi_read_ptr it = pi_data_end it"
    using length_mem_range [of "pi_data_end it" mem "pi_read_ptr it"] by simp
  with Nil.prems show ?case by (cases fuel) (simp_all add: packed_next_def)
next
  case (Cons v vs)
  let ?it1 = "it\<lparr>pi_read_ptr := pi_read_ptr it + length (enc v), curr_value := dec v\<rparr>"
  have dv: "decodes wt mem enc dec v" using Cons.prems(6) by simp
  have r: "mem_range mem (pi_read_ptr it) (pi_data_end it) = enc v @ concat (map enc vs)" using Cons.prems(1) by simp
  have n: "packed_next wt mem it = ?it1"
    using dv r Cons.prems(3,4) unfolding decodes_def by blast
  from mem_range_suffix [OF r Cons.prems(3)] Cons.prems(2)
  have s: "mem_range mem (pi_read_ptr ?it1) (pi_data_end ?it1) = concat (map enc vs)" "pi_read_ptr ?it1 \<le> pi_data_end ?it1"
    by simp_all
  obtain k where k: "fuel = Suc k" "length vs \<le> k" using Cons.prems(7) by (cases fuel) auto
  have "\<exists>it'. packed_loop k wt mem (packed_next wt mem ?it1) = (map dec vs, it') \<and> \<not> curr_value_valid it' \<and>
     parse_error it' = parse_error ?it1 \<and> pi_read_ptr it' = pi_data_end ?it1"
    using s Cons.prems(3,4,5,6) k(2) by (intro Cons.IH) auto
  then show ?case using Cons.prems(4) by (auto simp: n k(1))
qed

lemma decodes_varint: "decodes kVarInt mem WriteVarInt ucast v"
  unfolding decodes_def
proof (intro allI impI, elim conjE)
  fix it :: "'c::len word PackedIter" and rest
  assume v: "curr_value_valid it" and le: "pi_data_end it \<le> length mem"
    and r: "mem_range mem (pi_read_ptr it) (pi_data_end it) = WriteVarInt v @ rest"
  have "pi_read_ptr it \<noteq> pi_data_end it" using r by auto
  with v ParseVarInt_WriteVarInt [OF r le] WriteVarInt_nonempty [of v] show "packed_next kVarInt mem it =
      it\<lparr>pi_read_ptr := pi_read_ptr it + length (WriteVarInt v), curr_value := ucast v\<rparr>"
    by (simp add: packed_next_def)
qed

lemma decodes_fixed:
  assumes "wt = kFixed32 \<and> k = 4 \<or> wt = kFixed64 \<and> k = 8" and "LENGTH('c::len) = 8 * k"
  shows "decodes wt mem (store_le k) (\<lambda>v. load_le (store_le k v) :: 'c word) v"
  unfolding decodes_def
proof (intro allI impI, elim conjE)
  fix it :: "'c::len word PackedIter" and rest
  assume v: "curr_value_valid it" and le: "pi_data_end it \<le> length mem"
    and r: "mem_range mem (pi_read_ptr it) (pi_data_end it) = store_le k v @ rest"
  have "store_le k v \<noteq> []" using assms(1) length_store_le [of k v] by (metis list.size(3) zero_neq_numeral)
  with r mem_range_prefix [OF r le] have "pi_read_ptr it \<noteq> pi_data_end it"
    "mem_range mem (pi_read_ptr it) (pi_read_ptr it + k) = store_le k v" by auto
  with v assms show "packed_next wt mem it =
      it\<lparr>pi_read_ptr := pi_read_ptr it + length (store_le k v), curr_value := load_le (store_le k v)\<rparr>"
    by (auto simp: packed_next_def)
qed

text \<open>A whole payload: the constructor and the client's loop give the values back and no error.\<close>

lemma packed_iteration:
  assumes "mem_range mem p (p + n) = concat (map enc vs)" and "p + n \<le> length mem"
    and enc: "\<And>v. enc v \<noteq> []" and dec: "\<And>v. v \<in> set vs \<Longrightarrow> decodes wt mem enc (dec :: u64 \<Rightarrow> 'c::len word) v"
    and "length vs \<le> fuel" and "\<not> (wt = kFixed32 \<and> n mod 4 \<noteq> 0 \<or> wt = kFixed64 \<and> n mod 8 \<noteq> 0)"
  shows "\<exists>it. packed_loop fuel wt mem (PackedRepeatedFieldIterator wt mem p n err) = (map dec vs, it) \<and>
     \<not> curr_value_valid it \<and> parse_error it = err"
proof (cases "n = 0")
  case True
  with assms(1) enc have "vs = []" by (cases vs) auto
  with True show ?thesis by (cases fuel) (simp_all add: PackedRepeatedFieldIterator_def)
next
  case False
  let ?it = "\<lparr>pi_data_end = p + n, pi_read_ptr = p, curr_value = 0, curr_value_valid = True, parse_error = err\<rparr> :: 'c word PackedIter"
  have "\<exists>it'. packed_loop fuel wt mem (packed_next wt mem ?it) = (map dec vs, it') \<and> \<not> curr_value_valid it' \<and>
     parse_error it' = parse_error ?it \<and> pi_read_ptr it' = pi_data_end ?it"
    using assms by (intro packed_loop_values [where enc = enc]) simp_all
  with False assms(6) show ?thesis by (auto simp: PackedRepeatedFieldIterator_def)
qed

lemma length_concat_store: "length (concat (map (store_le k) vs)) = k * length vs"
  by (induction vs) simp_all

subsection \<open>Any payload\<close>

lemma packed_next_varint_progress:
  assumes "curr_value_valid it" and "pi_read_ptr it \<le> pi_data_end it"
  shows "pi_data_end (packed_next kVarInt mem it) = pi_data_end it \<and>
    pi_read_ptr (packed_next kVarInt mem it) \<le> pi_data_end it \<and>
    (curr_value_valid (packed_next kVarInt mem it) \<longrightarrow> pi_read_ptr it < pi_read_ptr (packed_next kVarInt mem it))"
  using assms
  by (auto simp: packed_next_def ParseVarInt_def Let_def split: option.splits prod.splits dest: ParseVarInt_loop_bounds)

lemma packed_next_fixed_progress:
  assumes "wt = kFixed32 \<and> k = 4 \<or> wt = kFixed64 \<and> k = 8"
    and "curr_value_valid it" and "pi_read_ptr it \<le> pi_data_end it" and "(pi_data_end it - pi_read_ptr it) mod k = 0"
  shows "pi_data_end (packed_next wt mem it) = pi_data_end it \<and>
    pi_read_ptr (packed_next wt mem it) \<le> pi_data_end it \<and>
    (pi_data_end it - pi_read_ptr (packed_next wt mem it)) mod k = 0 \<and> parse_error (packed_next wt mem it) = parse_error it \<and>
    (curr_value_valid (packed_next wt mem it) \<longrightarrow> pi_read_ptr it < pi_read_ptr (packed_next wt mem it))"
proof (cases "pi_read_ptr it = pi_data_end it")
  case False
  with assms(3,4) have "k \<le> pi_data_end it - pi_read_ptr it" by (auto intro: dvd_imp_le simp: mod_eq_0_iff_dvd)
  with le_mod_geq [OF this] assms(4) have "(pi_data_end it - (pi_read_ptr it + k)) mod k = 0" by simp
  with \<open>k \<le> _\<close> assms False show ?thesis by (auto simp: packed_next_def Let_def)
qed (use assms in \<open>auto simp: packed_next_def\<close>)

text \<open>What holds of the iterator in any client loop.\<close>

definition packed_inside :: "ProtoWireType \<Rightarrow> nat \<Rightarrow> 'c::len word PackedIter \<Rightarrow> bool" where
  "packed_inside wt e it \<longleftrightarrow> pi_data_end it = e \<and> (curr_value_valid it \<longrightarrow> pi_read_ptr it \<le> e \<and>
     (wt = kFixed32 \<longrightarrow> (e - pi_read_ptr it) mod 4 = 0) \<and> (wt = kFixed64 \<longrightarrow> (e - pi_read_ptr it) mod 8 = 0))"

lemma packed_next_inside:
  assumes "wt \<noteq> kLengthDelimited" and "packed_inside wt e it"
  shows "packed_inside wt e (packed_next wt mem it) \<and>
    (curr_value_valid (packed_next wt mem it) \<longrightarrow> pi_read_ptr it < pi_read_ptr (packed_next wt mem it)) \<and>
    (wt \<noteq> kVarInt \<longrightarrow> parse_error (packed_next wt mem it) = parse_error it)"
proof (cases "curr_value_valid it")
  case True
  with assms show ?thesis
    using packed_next_varint_progress [OF True, of mem] packed_next_fixed_progress [OF _ True, of kFixed32 4 mem]
      packed_next_fixed_progress [OF _ True, of kFixed64 8 mem]
    by (cases wt) (auto simp: packed_inside_def)
qed (use assms in \<open>simp add: packed_next_def\<close>)

lemma packed_loop_inside:
  assumes "wt \<noteq> kLengthDelimited" and "packed_inside wt e it" and "curr_value_valid it \<longrightarrow> e - pi_read_ptr it < fuel"
    and "packed_loop fuel wt mem it = (vs, it')"
  shows "\<not> curr_value_valid it' \<and> (curr_value_valid it \<longrightarrow> length vs \<le> Suc (e - pi_read_ptr it)) \<and>
    (\<not> curr_value_valid it \<longrightarrow> vs = []) \<and> (wt \<noteq> kVarInt \<longrightarrow> parse_error it' = parse_error it)"
  using assms(2-4)
proof (induction fuel arbitrary: it vs)
  case (Suc fuel)
  show ?case
  proof (cases "curr_value_valid it")
    case True
    let ?n = "packed_next wt mem it"
    obtain ws where w: "packed_loop fuel wt mem ?n = (ws, it')" "vs = curr_value it # ws"
      using Suc.prems(3) True by (auto split: prod.splits)
    note nx = packed_next_inside [OF assms(1) Suc.prems(1), of mem]
    then have i: "packed_inside wt e ?n" by blast
    have le: "curr_value_valid ?n \<longrightarrow> pi_read_ptr it < pi_read_ptr ?n \<and> pi_read_ptr ?n \<le> e"
      using nx by (auto simp: packed_inside_def)
    then have "curr_value_valid ?n \<longrightarrow> e - pi_read_ptr ?n < fuel" using Suc.prems(2) True by auto
    from Suc.IH [OF i this w(1)] nx le w(2) show ?thesis using True by (cases "curr_value_valid ?n") auto
  next
    case False
    with Suc.prems show ?thesis by auto
  qed
qed auto

lemma load_store_bits: "(load_le (store_le n v) :: 'c::len word) = ucast (take_bit (8 * n) (v :: u64))"
proof (induction n arbitrary: v)
  case (Suc n)
  have "(load_le (store_le (Suc n) v) :: 'c word) = ucast (ucast v :: u8) OR push_bit 8 (ucast (take_bit (8 * n) (drop_bit 8 v)))"
    by (simp add: Suc.IH)
  also have "\<dots> = ucast (take_bit (8 * Suc n) v)"
  proof (rule bit_eqI)
    fix i
    show "bit (ucast (ucast v :: u8) OR push_bit 8 (ucast (take_bit (8 * n) (drop_bit 8 v))) :: 'c word) i =
        bit (ucast (take_bit (8 * Suc n) v) :: 'c word) i"
      by (cases "i < 8") (auto simp add: bit_simps)
  qed
  finally show ?case .
qed simp

text \<open>Wherever the bytes of the buffer are in memory, the client's loop over them sees exactly \<open>vs\<close>, ends and leaves the
  error flag as it was.\<close>

definition packed_reads_back :: "nat \<Rightarrow> ProtoWireType \<Rightarrow> bool \<Rightarrow> PackedBuffer \<Rightarrow> 'c::len word list \<Rightarrow> bool" where
  "packed_reads_back fuel wt err b vs \<longleftrightarrow>
     (\<forall>mem p. p + packed_size b \<le> length mem \<and> mem_range mem p (p + packed_size b) = packed_data b \<longrightarrow>
        (\<exists>it. packed_loop fuel wt mem (PackedRepeatedFieldIterator wt mem p (packed_size b) err) = (vs, it) \<and>
           \<not> curr_value_valid it \<and> parse_error it = err))"

lemma packed_varints_read_back:
  assumes "length vs \<le> fuel"
  shows "\<exists>b. append_all PackedVarInt_Append vs packed_Reset = Some b \<and>
    packed_reads_back fuel kVarInt err b (map ucast vs :: 'c::len word list)"
proof -
  obtain b where b: "append_all PackedVarInt_Append vs packed_Reset = Some b" "packed_data b = concat (map WriteVarInt vs)"
    using append_all_data [of PackedVarInt_Append WriteVarInt packed_Reset vs]
    by (auto simp: PackedVarInt_Append_def length_WriteVarInt_u64)
  have "packed_reads_back fuel kVarInt err b (map ucast vs :: 'c word list)"
    using assms packed_iteration [of _ _ _ WriteVarInt vs kVarInt ucast fuel]
    by (auto simp: packed_reads_back_def b(2) decodes_varint)
  with b(1) show ?thesis by blast
qed

lemma packed_fixed_read_back:
  fixes vs :: "u64 list"
  assumes k: "wt = kFixed32 \<and> k = 4 \<or> wt = kFixed64 \<and> k = 8" and c: "LENGTH('c) = 8 * k" and "length vs \<le> fuel"
  shows "\<exists>b. append_all (PackedFixedSizeInt_Append k) vs packed_Reset = Some b \<and>
    packed_reads_back fuel wt err b (map ucast vs :: 'c::len word list)"
proof -
  have "ucast (take_bit (8 * k) v) = (ucast v :: 'c word)" for v :: u64
    by (rule bit_eqI) (auto simp add: bit_simps c)
  then have d: "(load_le (store_le k v) :: 'c word) = ucast v" for v :: u64 by (simp add: load_store_bits)
  have "length (store_le k v) \<le> kMaxElementSize" for v :: u64 using k by (auto simp: kMaxElementSize_def)
  then obtain b where b: "append_all (PackedFixedSizeInt_Append k) vs packed_Reset = Some b" "packed_wf b"
    "packed_data b = concat (map (store_le k) vs)"
    using append_all_data [of "PackedFixedSizeInt_Append k" "store_le k" packed_Reset vs]
    by (auto simp: PackedFixedSizeInt_Append_def)
  have n: "packed_size b = k * length vs" by (simp add: packed_size_data [OF b(2)] b(3) length_concat_store)
  have ne: "store_le k v \<noteq> []" for v :: u64 using k length_store_le [of k v] by (metis list.size(3) zero_neq_numeral)
  have "packed_reads_back fuel wt err b (map ucast vs :: 'c word list)"
    unfolding packed_reads_back_def
  proof (intro allI impI, elim conjE)
    fix mem p
    assume "p + packed_size b \<le> length mem" "mem_range mem p (p + packed_size b) = packed_data b"
    then show "\<exists>it. packed_loop fuel wt mem (PackedRepeatedFieldIterator wt mem p (packed_size b) err) =
        (map ucast vs :: 'c word list, it) \<and> \<not> curr_value_valid it \<and> parse_error it = err"
      using b(3) ne assms k decodes_fixed [OF k c, of mem] unfolding d
      by (intro packed_iteration [where enc = "store_le k"]) (auto simp: n)
  qed
  with b(1) show ?thesis by blast
qed

subsection \<open>Properties\<close>

text \<open>C20 packed_roundtrip: appending any values to a packed buffer never stores outside its storage, and iterating over the
  bytes, wherever they are in memory, returns exactly the values in order, at the width of the client's type, and
  reports no error: variable-length elements, and fixed-size elements of 4 or 8 bytes.\<close>
theorem packed_roundtrip:
  fixes vs :: "u64 list"
  assumes "length vs \<le> fuel"
  shows "(\<exists>b. append_all PackedVarInt_Append vs packed_Reset = Some b \<and>
      packed_reads_back fuel kVarInt err b (map ucast vs :: 'c::len word list)) \<and>
    (\<exists>b. append_all (PackedFixedSizeInt_Append 4) vs packed_Reset = Some b \<and>
      packed_reads_back fuel kFixed32 err b (map ucast vs :: u32 list)) \<and>
    (\<exists>b. append_all (PackedFixedSizeInt_Append 8) vs packed_Reset = Some b \<and> packed_reads_back fuel kFixed64 err b vs)"
proof (intro conjI)
  show "\<exists>b. append_all PackedVarInt_Append vs packed_Reset = Some b \<and>
      packed_reads_back fuel kVarInt err b (map ucast vs :: 'c::len word list)"
    by (rule packed_varints_read_back [OF assms])
  show "\<exists>b. append_all (PackedFixedSizeInt_Append 4) vs packed_Reset = Some b \<and>
      packed_reads_back fuel kFixed32 err b (map ucast vs :: u32 list)"
    by (rule packed_fixed_read_back [OF _ _ assms]) simp_all
  have "map ucast vs = vs" by (intro map_idI) simp
  then show "\<exists>b. append_all (PackedFixedSizeInt_Append 8) vs packed_Reset = Some b \<and> packed_reads_back fuel kFixed64 err b vs"
    using packed_fixed_read_back [of kFixed64 8, OF _ _ assms, of err, where 'c = 64] by simp
qed

theorem packed_roundtrip_witness:
  "\<exists>b. append_all PackedVarInt_Append [1, 300, 2 ^ 32 + 7] packed_Reset = Some b \<and>
     packed_reads_back 3 kVarInt False b ([1, 300, 7] :: u32 list)"
proof -
  have m: "map ucast [1, 300, 2 ^ 32 + 7 :: u64] = [1, 300, 7 :: u32]" by simp
  have l: "length [1, 300, 2 ^ 32 + 7 :: u64] \<le> 3" by simp
  from packed_roundtrip [where 'c = 32, OF l, THEN conjunct1, of False] show ?thesis unfolding m .
qed

text \<open>On any payload, malformed ones included, the client's loop ends after at most as many values as
  the payload has bytes, and for fixed-size elements the error flag is raised exactly when the size is not a whole
  number of elements.\<close>
theorem packed_iteration_ends:
  assumes "wire_type \<noteq> kLengthDelimited"
  shows "\<exists>vs it. packed_loop (Suc sz) wire_type mem (PackedRepeatedFieldIterator wire_type mem p sz err) = (vs :: 'c::len word list, it) \<and>
    \<not> curr_value_valid it \<and> length vs \<le> sz \<and>
    (wire_type = kFixed32 \<longrightarrow> parse_error it = (err \<or> sz mod 4 \<noteq> 0)) \<and>
    (wire_type = kFixed64 \<longrightarrow> parse_error it = (err \<or> sz mod 8 \<noteq> 0))"
proof -
  let ?p = "PackedRepeatedFieldIterator wire_type mem p sz err :: 'c word PackedIter"
  let ?it = "\<lparr>pi_data_end = p + sz, pi_read_ptr = p, curr_value = 0, curr_value_valid = True, parse_error = err\<rparr> :: 'c word PackedIter"
  let ?bad = "wire_type = kFixed32 \<and> sz mod 4 \<noteq> 0 \<or> wire_type = kFixed64 \<and> sz mod 8 \<noteq> 0"
  show ?thesis
  proof (cases "sz = 0 \<or> ?bad")
    case True
    then show ?thesis by (auto simp: PackedRepeatedFieldIterator_def Let_def)
  next
    case False
    then have P: "?p = packed_next wire_type mem ?it" by (auto simp: PackedRepeatedFieldIterator_def)
    have "packed_inside wire_type (p + sz) ?it" using False by (auto simp: packed_inside_def)
    note nx = packed_next_inside [OF assms this, of mem, folded P]
    then have "packed_inside wire_type (p + sz) ?p" by blast
    moreover have lt: "curr_value_valid ?p \<longrightarrow> p < pi_read_ptr ?p \<and> pi_read_ptr ?p \<le> p + sz"
      using nx by (auto simp: packed_inside_def)
    moreover obtain vs it where r: "packed_loop (Suc sz) wire_type mem ?p = (vs, it)" by fastforce
    moreover from lt have "curr_value_valid ?p \<longrightarrow> p + sz - pi_read_ptr ?p < Suc sz" by linarith
    ultimately have e: "\<not> curr_value_valid it" "curr_value_valid ?p \<longrightarrow> length vs \<le> Suc (p + sz - pi_read_ptr ?p)"
      "\<not> curr_value_valid ?p \<longrightarrow> vs = []" "wire_type \<noteq> kVarInt \<longrightarrow> parse_error it = parse_error ?p"
      using packed_loop_inside [OF assms] by blast+
    have "length vs \<le> sz" using e(2,3) lt by (cases "curr_value_valid ?p") auto
    moreover have "wire_type \<noteq> kVarInt \<longrightarrow> parse_error ?p = err" using nx by simp
    moreover have "wire_type = kFixed32 \<longrightarrow> sz mod 4 = 0" "wire_type = kFixed64 \<longrightarrow> sz mod 8 = 0" using False by simp_all
    ultimately have "\<not> curr_value_valid it \<and> length vs \<le> sz \<and>
      (wire_type = kFixed32 \<longrightarrow> parse_error it = (err \<or> sz mod 4 \<noteq> 0)) \<and>
      (wire_type = kFixed64 \<longrightarrow> parse_error it = (err \<or> sz mod 8 \<noteq> 0))"
      using e(1,4) by (cases wire_type) simp_all
    with r show ?thesis by blast
  qed
qed

theorem packed_iteration_ends_witness:
  "\<exists>vs it. packed_loop (Suc 3) kVarInt [1, 2, 255] (PackedRepeatedFieldIterator kVarInt [1, 2, 255] 0 3 False) = (vs :: u64 list, it) \<and>
     \<not> curr_value_valid it \<and> length vs \<le> 3"
proof -
  have "kVarInt \<noteq> kLengthDelimited" by simp
  from packed_iteration_ends [where 'c = 64, OF this, of 3 "[1, 2, 255]" 0 False] show ?thesis by blast
qed

end
