(* ===== verification/Trace_Threads.thy ===== *)
theory Trace_Threads
  imports VP_Prelude "HOL-Library.Multiset"
begin

section \<open>Threads and locks (vperfetto.cpp)\<close>

text \<open>
  The other theories run one API call after the other. Here the calls of several threads interleave, at the grain of
  what they share: \<open>tracingDisabled\<close>, the mutex \<open>mContextsLock\<close> of the storage, the spin lock \<open>mTracingLock\<close> of every
  context, the set of contexts, the buffers and the saved buffers. What a call writes into its buffer is one event \<open>e\<close>
  (the packets of a call are the subject of the sequential theories), and whether the buffer is full when it is
  written is left open. A section under \<open>mContextsLock\<close> that takes no other lock is one step, and so is a section
  under \<open>mTracingLock\<close> of the saving thread, which takes no other lock either.

  A thread is named by a number, which also names its context. \<open>mContextsLock\<close> is its holder. A buffer is \<open>None\<close> for a
  null pointer, otherwise its \<open>mFirst\<close> flag and its events. \<open>files\<close> are the host files written so far, \<open>recorded\<close> is
  history: the events written into buffers.
\<close>

text \<open>Where a thread is. \<open>Inside\<close>, \<open>Flushing\<close> and \<open>Leaving\<close> are under its own \<open>mTracingLock\<close>, \<open>Saving_contexts\<close> and
  \<open>File_written\<close> under \<open>mContextsLock\<close>.\<close>

datatype 'e pc =
    Idle
  | Constructing 'e
  | Called 'e
  | Wants_lock 'e
  | Inside 'e
  | Flushing 'e bool "'e list"
  | Leaving
  | Destructing
  | Exit_saving
  | Exit_adding bool "'e list"
  | Exited
  | Disabling bool
  | Wants_contexts
  | Saving_contexts "nat list"
  | File_written

record 'e threads =
  t_disabled :: bool
  mContextsLock :: "nat option"
  mTracingLock :: "nat \<Rightarrow> bool"
  mContexts :: "nat set"
  t_buffer :: "nat \<Rightarrow> (bool \<times> 'e list) option"
  mSavedTraces :: "(bool \<times> 'e list) list"
  t_files :: "'e list list"
  t_pc :: "nat \<Rightarrow> 'e pc"
  t_recorded :: "'e list"

definition initial_threads :: "'e threads" where
  "initial_threads = \<lparr>t_disabled = True, mContextsLock = None, mTracingLock = (\<lambda>i. False), mContexts = {},
     t_buffer = (\<lambda>i. None), mSavedTraces = [], t_files = [], t_pc = (\<lambda>i. Idle), t_recorded = []\<rparr>"

definition goto :: "nat \<Rightarrow> 'e pc \<Rightarrow> 'e threads \<Rightarrow> 'e threads" where
  "goto i p s = s\<lparr>t_pc := (t_pc s)(i := p)\<rparr>"

subsection \<open>A tracing call\<close>

text \<open>The API function tests the flag, the first use of the thread's context constructs it, the method tests the
  flag again and takes the spin lock. A full buffer is handed to the storage.\<close>

inductive trace_step :: "nat \<Rightarrow> 'e threads \<Rightarrow> 'e threads \<Rightarrow> bool" for i where
  call: "t_pc s i = Idle \<Longrightarrow> \<not> t_disabled s \<Longrightarrow>
     trace_step i s (goto i (if i \<in> mContexts s then Called e else Constructing e) s)"
| construct: "t_pc s i = Constructing e \<Longrightarrow> mContextsLock s = None \<Longrightarrow>
     trace_step i s (goto i (Called e) (s\<lparr>mContexts := insert i (mContexts s)\<rparr>))"
| refused: "t_pc s i = Called e \<Longrightarrow> t_disabled s \<Longrightarrow> trace_step i s (goto i Idle s)"
| accepted: "t_pc s i = Called e \<Longrightarrow> \<not> t_disabled s \<Longrightarrow> trace_step i s (goto i (Wants_lock e) s)"
| spin_lock: "t_pc s i = Wants_lock e \<Longrightarrow> \<not> mTracingLock s i \<Longrightarrow>
     trace_step i s (goto i (Inside e) (s\<lparr>mTracingLock := (mTracingLock s)(i := True)\<rparr>))"
| record_event: "t_pc s i = Inside e \<Longrightarrow>
     trace_step i s (goto i Leaving (s\<lparr>t_recorded := t_recorded s @ [e],
       t_buffer := (t_buffer s)(i := Some (case t_buffer s i of None \<Rightarrow> (f, [e]) | Some (f', es) \<Rightarrow> (f' \<or> f, es @ [e])))\<rparr>))"
| buffer_full: "t_pc s i = Inside e \<Longrightarrow> t_buffer s i = Some (f, es) \<Longrightarrow>
     trace_step i s (goto i (Flushing e f es) (s\<lparr>t_buffer := (t_buffer s)(i := None)\<rparr>))"
| hand_over: "t_pc s i = Flushing e f es \<Longrightarrow> mContextsLock s = None \<Longrightarrow>
     trace_step i s (goto i (Inside e) (s\<lparr>mSavedTraces := mSavedTraces s @ [(f, es)]\<rparr>))"
| spin_unlock: "t_pc s i = Leaving \<Longrightarrow>
     trace_step i s (goto i Idle (s\<lparr>mTracingLock := (mTracingLock s)(i := False)\<rparr>))"

subsection \<open>A thread that ends\<close>

text \<open>The destructor removes the context, then takes what is left in its buffer under the spin lock, then adds it to
  the storage.\<close>

inductive exit_step :: "nat \<Rightarrow> 'e threads \<Rightarrow> 'e threads \<Rightarrow> bool" for i where
  thread_ends: "t_pc s i = Idle \<Longrightarrow> i \<in> mContexts s \<Longrightarrow> exit_step i s (goto i Destructing s)"
| remove: "t_pc s i = Destructing \<Longrightarrow> mContextsLock s = None \<Longrightarrow>
     exit_step i s (goto i (if t_buffer s i = None then Exited else Exit_saving) (s\<lparr>mContexts := mContexts s - {i}\<rparr>))"
| take_buffer: "t_pc s i = Exit_saving \<Longrightarrow> \<not> mTracingLock s i \<Longrightarrow> t_buffer s i = Some (f, es) \<Longrightarrow>
     exit_step i s (goto i (Exit_adding f es) (s\<lparr>t_buffer := (t_buffer s)(i := None)\<rparr>))"
| add_buffer: "t_pc s i = Exit_adding f es \<Longrightarrow> mContextsLock s = None \<Longrightarrow>
     exit_step i s (goto i Exited (s\<lparr>mSavedTraces := mSavedTraces s @ [(f, es)]\<rparr>))"

subsection \<open>Switching tracing\<close>

text \<open>\<open>disableTracing\<close> reads the flag and sets it in two steps, then saves: under \<open>mContextsLock\<close> it takes the buffer of
  every context, in some order, under the spin lock of that context, and writes the file, the buffers
  marked first in front.\<close>

definition host_file_of :: "(bool \<times> 'e list) list \<Rightarrow> 'e list" where
  "host_file_of infos = concat (map snd (filter fst infos)) @ concat (map snd (filter (\<lambda>info. \<not> fst info) infos))"

inductive switch_step :: "nat \<Rightarrow> 'e threads \<Rightarrow> 'e threads \<Rightarrow> bool" for i where
  enable: "t_pc s i = Idle \<Longrightarrow> t_disabled s \<Longrightarrow> switch_step i s (s\<lparr>t_disabled := False\<rparr>)"
| disable_read: "t_pc s i = Idle \<Longrightarrow> switch_step i s (goto i (Disabling (t_disabled s)) s)"
| disable_set: "t_pc s i = Disabling was \<Longrightarrow>
     switch_step i s (goto i (if was then Idle else Wants_contexts) (s\<lparr>t_disabled := True\<rparr>))"
| lock_contexts: "t_pc s i = Wants_contexts \<Longrightarrow> mContextsLock s = None \<Longrightarrow> set cs = mContexts s \<Longrightarrow> distinct cs \<Longrightarrow>
     switch_step i s (goto i (Saving_contexts cs) (s\<lparr>mContextsLock := Some i\<rparr>))"
| save_context: "t_pc s i = Saving_contexts (c # cs) \<Longrightarrow> \<not> mTracingLock s c \<Longrightarrow>
     switch_step i s (goto i (Saving_contexts cs) (s\<lparr>t_buffer := (t_buffer s)(c := None),
       mSavedTraces := mSavedTraces s @ (case t_buffer s c of None \<Rightarrow> [] | Some info \<Rightarrow> [info])\<rparr>))"
| write_file: "t_pc s i = Saving_contexts [] \<Longrightarrow>
     switch_step i s (goto i File_written (s\<lparr>t_files := t_files s @ [host_file_of (mSavedTraces s)], mSavedTraces := []\<rparr>))"
| unlock_contexts: "t_pc s i = File_written \<Longrightarrow> switch_step i s (goto i Idle (s\<lparr>mContextsLock := None\<rparr>))"

text \<open>A program of \<open>n\<close> threads.\<close>

definition thread_step :: "nat \<Rightarrow> 'e threads \<Rightarrow> 'e threads \<Rightarrow> bool" where
  "thread_step n s s' \<longleftrightarrow> (\<exists>i < n. trace_step i s s' \<or> exit_step i s s' \<or> switch_step i s s')"

inductive reachable :: "nat \<Rightarrow> 'e threads \<Rightarrow> bool" for n where
  reachable_init: "reachable n initial_threads"
| reachable_step: "reachable n s \<Longrightarrow> thread_step n s s' \<Longrightarrow> reachable n s'"

inductive_cases trace_stepE: "trace_step i s s'"
inductive_cases exit_stepE: "exit_step i s s'"
inductive_cases switch_stepE: "switch_step i s s'"

lemmas stepE = trace_stepE exit_stepE switch_stepE

lemma thread_stepE:
  assumes "thread_step n s s'"
  obtains (trace) i where "i < n" "trace_step i s s'" | (leave) i where "i < n" "exit_step i s s'"
    | (switch) i where "i < n" "switch_step i s s'"
  using assms by (auto simp: thread_step_def)

subsection \<open>The locks\<close>

fun under_tracing_lock :: "'e pc \<Rightarrow> bool" where
  "under_tracing_lock (Inside e) = True"
| "under_tracing_lock (Flushing e f es) = True"
| "under_tracing_lock Leaving = True"
| "under_tracing_lock p = False"

fun under_contexts_lock :: "'e pc \<Rightarrow> bool" where
  "under_contexts_lock (Saving_contexts cs) = True"
| "under_contexts_lock File_written = True"
| "under_contexts_lock p = False"

definition locks_ok :: "'e threads \<Rightarrow> bool" where
  "locks_ok s \<longleftrightarrow> (\<forall>i. mTracingLock s i = under_tracing_lock (t_pc s i)) \<and>
     (\<forall>i. mContextsLock s = Some i \<longleftrightarrow> under_contexts_lock (t_pc s i))"

lemma locks_ok_unlock: "locks_ok s \<Longrightarrow> t_pc s i = File_written \<Longrightarrow> under_contexts_lock (t_pc s j) \<Longrightarrow> j = i"
  unfolding locks_ok_def by (metis option.inject under_contexts_lock.simps(2))

lemma locks_ok_step:
  assumes "thread_step n s s'" and "locks_ok s"
  shows "locks_ok s'"
  using assms(1)
proof (cases rule: thread_stepE)
  case (switch i)
  from switch(2) show ?thesis
    using assms(2) locks_ok_unlock [OF assms(2), of i] by cases (auto simp: locks_ok_def goto_def)
next
  case (trace i)
  from trace(2) show ?thesis using assms(2) by cases (auto simp: locks_ok_def goto_def)
next
  case (leave i)
  from leave(2) show ?thesis using assms(2) by cases (auto simp: locks_ok_def goto_def)
qed

lemma reachable_locks: "reachable n s \<Longrightarrow> locks_ok s"
proof (induction rule: reachable.induct)
  case reachable_init
  then show ?case by (simp add: locks_ok_def initial_threads_def)
qed (rule locks_ok_step)

subsection \<open>No event is lost\<close>

fun in_flight :: "'e pc \<Rightarrow> 'e list" where
  "in_flight (Flushing e f es) = es"
| "in_flight (Exit_adding f es) = es"
| "in_flight p = []"

definition pending :: "'e threads \<Rightarrow> nat \<Rightarrow> 'e multiset" where
  "pending s i = mset (case t_buffer s i of None \<Rightarrow> [] | Some (f, es) \<Rightarrow> es) + mset (in_flight (t_pc s i))"

definition conserved :: "nat \<Rightarrow> 'e threads \<Rightarrow> bool" where
  "conserved n s \<longleftrightarrow>
     mset (t_recorded s) = mset (concat (t_files s)) + mset (concat (map snd (mSavedTraces s))) + (\<Sum>i<n. pending s i)"

fun to_save :: "'e pc \<Rightarrow> nat list" where
  "to_save (Saving_contexts cs) = cs"
| "to_save p = []"

definition contexts_below :: "nat \<Rightarrow> 'e threads \<Rightarrow> bool" where
  "contexts_below n s \<longleftrightarrow> (\<forall>c \<in> mContexts s. c < n) \<and> (\<forall>i. \<forall>c \<in> set (to_save (t_pc s i)). c < n)"

lemma mset_host_file_of: "mset (host_file_of infos) = mset (concat (map snd infos))"
  by (induction infos) (auto simp: host_file_of_def)

lemma sum_pending_change:
  assumes "c < n" and "\<And>j. j \<noteq> c \<Longrightarrow> pending s' j = pending s j"
  shows "(\<Sum>j<n. pending s' j) + pending s c = (\<Sum>j<n. pending s j) + pending s' c"
proof -
  have "(\<Sum>j<n. pending s' j) = pending s' c + (\<Sum>j\<in>{..<n} - {c}. pending s' j)"
    and "(\<Sum>j<n. pending s j) = pending s c + (\<Sum>j\<in>{..<n} - {c}. pending s j)"
    using assms(1) by (auto intro: sum.remove)
  moreover have "(\<Sum>j\<in>{..<n} - {c}. pending s' j) = (\<Sum>j\<in>{..<n} - {c}. pending s j)"
    using assms(2) by (intro sum.cong) auto
  ultimately show ?thesis by (simp add: ac_simps)
qed

text \<open>A step that moves events only between the places of one context, the storage, the files and the history.\<close>

lemma conserved_change:
  assumes "conserved n s" and "c < n" and "\<And>j. j \<noteq> c \<Longrightarrow> pending s' j = pending s j"
    and "mset (t_recorded s') + mset (concat (t_files s)) + mset (concat (map snd (mSavedTraces s))) + pending s c =
      mset (t_recorded s) + mset (concat (t_files s')) + mset (concat (map snd (mSavedTraces s'))) + pending s' c"
  shows "conserved n s'"
proof -
  let ?a = "mset (concat (t_files s)) + mset (concat (map snd (mSavedTraces s)))"
  let ?b = "mset (concat (t_files s')) + mset (concat (map snd (mSavedTraces s')))"
  have "mset (t_recorded s') + (?a + pending s c) = mset (t_recorded s) + (?b + pending s' c)"
    using assms(4) by (simp add: ac_simps)
  also have "\<dots> = ?a + (\<Sum>i<n. pending s i) + (?b + pending s' c)" using assms(1) by (simp add: conserved_def)
  also have "\<dots> = ?a + ?b + ((\<Sum>j<n. pending s j) + pending s' c)" by (simp add: ac_simps)
  also have "\<dots> = ?a + ?b + ((\<Sum>j<n. pending s' j) + pending s c)"
    using sum_pending_change [OF assms(2,3)] by simp
  finally have "mset (t_recorded s') + (?a + pending s c) = ?b + (\<Sum>j<n. pending s' j) + (?a + pending s c)"
    by (simp add: ac_simps)
  then show ?thesis by (simp add: conserved_def)
qed

lemma contexts_belowD: "contexts_below n s \<Longrightarrow> t_pc s i = Saving_contexts cs \<Longrightarrow> c \<in> set cs \<Longrightarrow> c < n"
  unfolding contexts_below_def by (metis to_save.simps(1))

lemma contexts_below_step:
  assumes "thread_step n s s'" and "contexts_below n s"
  shows "contexts_below n s'"
  using assms(1)
proof (cases rule: thread_stepE)
  case (trace i)
  from trace(2) show ?thesis using trace(1) assms(2) by cases (auto simp: contexts_below_def goto_def)
next
  case (leave i)
  from leave(2) show ?thesis using assms(2) by cases (auto simp: contexts_below_def goto_def)
next
  case (switch i)
  from switch(2) show ?thesis
    using assms(2) contexts_belowD [OF assms(2), of i] by cases (auto simp: contexts_below_def goto_def)
qed

lemma conserved_step:
  assumes "thread_step n s s'" and "contexts_below n s" and "conserved n s"
  shows "conserved n s'"
  using assms(1)
proof (cases rule: thread_stepE)
  case (trace i)
  from trace(2) show ?thesis
    by cases (rule conserved_change [OF assms(3) trace(1)];
      auto simp: pending_def goto_def split: option.splits)+
next
  case (leave i)
  from leave(2) show ?thesis
    by cases (rule conserved_change [OF assms(3) leave(1)];
      auto simp: pending_def goto_def split: option.splits)+
next
  case (switch i)
  from switch(2) show ?thesis
  proof cases
    case (save_context c cs)
    then have "c < n" using contexts_belowD [OF assms(2), of i "c # cs" c] by simp
    then show ?thesis
      using save_context by (intro conserved_change [OF assms(3), of c]) (auto simp: pending_def goto_def split: option.splits)
  qed (rule conserved_change [OF assms(3) switch(1)];
      auto simp: pending_def goto_def mset_host_file_of split: option.splits)+
qed

lemma reachable_conserved: "reachable n s \<Longrightarrow> contexts_below n s \<and> conserved n s"
proof (induction rule: reachable.induct)
  case reachable_init
  then show ?case by (simp add: contexts_below_def conserved_def initial_threads_def pending_def)
next
  case (reachable_step s s')
  then show ?case using contexts_below_step conserved_step by blast
qed

subsection \<open>The two locks in opposite order\<close>

text \<open>Thread \<open>i\<close> is inside a tracing call and has to hand over a full buffer while thread \<open>j\<close> saves the contexts and
  comes to that of \<open>i\<close>.\<close>

definition deadlocked :: "nat \<Rightarrow> nat \<Rightarrow> 'e threads \<Rightarrow> bool" where
  "deadlocked i j s \<longleftrightarrow> (\<exists>e f es. t_pc s i = Flushing e f es) \<and> (\<exists>cs. t_pc s j = Saving_contexts (i # cs))"

lemma deadlocked_step:
  assumes "thread_step n s s'" and ok: "locks_ok s" and d: "deadlocked i j s"
  shows "t_pc s' i = t_pc s i \<and> t_pc s' j = t_pc s j \<and> t_files s' = t_files s"
proof -
  obtain e f es cs where p: "t_pc s i = Flushing e f es" "t_pc s j = Saving_contexts (i # cs)"
    using d by (auto simp: deadlocked_def)
  have l: "mTracingLock s i" "mContextsLock s = Some j" using ok p by (simp_all add: locks_ok_def)
  have u: "k = j" if "under_contexts_lock (t_pc s k)" for k
    using ok l(2) that by (auto simp: locks_ok_def)
  show ?thesis
    using assms(1)
  proof (cases rule: thread_stepE)
    case (trace k)
    from trace(2) show ?thesis using p l by cases (auto simp: goto_def)
  next
    case (leave k)
    from leave(2) show ?thesis using p l by cases (auto simp: goto_def)
  next
    case (switch k)
    from switch(2) show ?thesis using p l u [of k] by cases (auto simp: goto_def)
  qed
qed

lemma deadlocked_for_ever:
  assumes "(thread_step n)\<^sup>*\<^sup>* s s'" and "locks_ok s" and "deadlocked i j s"
  shows "locks_ok s' \<and> t_pc s' i = t_pc s i \<and> t_pc s' j = t_pc s j \<and> t_files s' = t_files s"
  using assms(1)
proof (induction rule: rtranclp_induct)
  case (step s1 s2)
  then have "deadlocked i j s1" using assms(3) by (simp add: deadlocked_def)
  with step deadlocked_step [OF step(2)] locks_ok_step [OF step(2)] show ?case by simp
qed (use assms(2) in simp)

lemma trace_reachable: "reachable n s \<Longrightarrow> trace_step i s s1 \<Longrightarrow> i < n \<Longrightarrow> s1 = s' \<Longrightarrow> reachable n s'"
  using reachable_step [of n s s1] by (auto simp: thread_step_def)

lemma switch_reachable: "reachable n s \<Longrightarrow> switch_step i s s1 \<Longrightarrow> i < n \<Longrightarrow> s1 = s' \<Longrightarrow> reachable n s'"
  using reachable_step [of n s s1] by (auto simp: thread_step_def)

text \<open>Two threads: the flag, the holder of \<open>mContextsLock\<close>, the spin lock of thread 0, whether it has a context, its
  buffer, where the threads are, and the history.\<close>

definition two_threads :: "bool \<Rightarrow> nat option \<Rightarrow> bool \<Rightarrow> nat set \<Rightarrow> (bool \<times> 'e list) option \<Rightarrow> 'e pc \<Rightarrow> 'e pc \<Rightarrow> 'e list \<Rightarrow> 'e threads" where
  "two_threads d cl l ctx b p0 p1 evs = \<lparr>t_disabled = d, mContextsLock = cl, mTracingLock = (\<lambda>i. i = 0 \<and> l), mContexts = ctx,
     t_buffer = (\<lambda>i. if i = 0 then b else None), mSavedTraces = [], t_files = [],
     t_pc = (\<lambda>i. if i = 0 then p0 else if i = 1 then p1 else Idle), t_recorded = evs\<rparr>"

text \<open>Thread 1 turns tracing on, thread 0 traces \<open>a\<close> and starts to trace again, thread 1 turns tracing off.\<close>

lemma deadlock_reachable:
  fixes a :: 'e
  assumes "2 \<le> n"
  shows "\<exists>s. reachable n s \<and> deadlocked 0 1 s \<and> t_recorded s = [a] \<and> t_files s = []"
proof -
  have n: "0 < n" "1 < n" using assms by simp_all
  note eqs = two_threads_def goto_def fun_eq_iff
  have i: "initial_threads = two_threads True None False {} None Idle Idle ([] :: 'e list)"
    by (simp add: initial_threads_def two_threads_def fun_eq_iff)
  have "reachable n (two_threads True None False {} None Idle Idle ([] :: 'e list))"
    unfolding i [symmetric] by (rule reachable_init)
  then have "reachable n (two_threads False None False {} None Idle Idle ([] :: 'e list))"
    by (rule switch_reachable [OF _ switch_step.enable n(2)]) (simp_all add: eqs)
  then have "reachable n (two_threads False None False {} None (Constructing a) Idle [])"
    by (rule trace_reachable [OF _ trace_step.call n(1)]) (simp_all add: eqs)
  then have "reachable n (two_threads False None False {0} None (Called a) Idle [])"
    by (rule trace_reachable [OF _ trace_step.construct n(1)]) (simp_all add: eqs)
  then have "reachable n (two_threads False None False {0} None (Wants_lock a) Idle [])"
    by (rule trace_reachable [OF _ trace_step.accepted n(1)]) (simp_all add: eqs)
  then have "reachable n (two_threads False None True {0} None (Inside a) Idle [])"
    by (rule trace_reachable [OF _ trace_step.spin_lock n(1)]) (simp_all add: eqs)
  then have "reachable n (two_threads False None True {0} (Some (True, [a])) Leaving Idle [a])"
    by (rule trace_reachable [OF _ trace_step.record_event [where f = True] n(1)]) (simp_all add: eqs)
  then have "reachable n (two_threads False None False {0} (Some (True, [a])) Idle Idle [a])"
    by (rule trace_reachable [OF _ trace_step.spin_unlock n(1)]) (simp_all add: eqs)
  then have "reachable n (two_threads False None False {0} (Some (True, [a])) (Called a) Idle [a])"
    by (rule trace_reachable [OF _ trace_step.call n(1)]) (simp_all add: eqs)
  then have "reachable n (two_threads False None False {0} (Some (True, [a])) (Wants_lock a) Idle [a])"
    by (rule trace_reachable [OF _ trace_step.accepted n(1)]) (simp_all add: eqs)
  then have "reachable n (two_threads False None True {0} (Some (True, [a])) (Inside a) Idle [a])"
    by (rule trace_reachable [OF _ trace_step.spin_lock n(1)]) (simp_all add: eqs)
  then have "reachable n (two_threads False None True {0} None (Flushing a True [a]) Idle [a])"
    by (rule trace_reachable [OF _ trace_step.buffer_full n(1)]) (simp_all add: eqs)
  then have "reachable n (two_threads False None True {0} None (Flushing a True [a]) (Disabling False) [a])"
    by (rule switch_reachable [OF _ switch_step.disable_read n(2)]) (simp_all add: eqs)
  then have "reachable n (two_threads True None True {0} None (Flushing a True [a]) Wants_contexts [a])"
    by (rule switch_reachable [OF _ switch_step.disable_set [where was = False] n(2)]) (simp_all add: eqs)
  then have "reachable n (two_threads True (Some 1) True {0} None (Flushing a True [a]) (Saving_contexts [0]) [a])" (is "reachable n ?s")
    by (rule switch_reachable [OF _ switch_step.lock_contexts [where cs = "[0]"] n(2)]) (simp_all add: eqs)
  moreover have "deadlocked 0 1 ?s \<and> t_recorded ?s = [a] \<and> t_files ?s = []"
    by (auto simp: deadlocked_def two_threads_def)
  ultimately show ?thesis by blast
qed

subsection \<open>Properties\<close>

text \<open>C26 buffers_protected: under every interleaving the spin lock of a context is held exactly while its thread is in the middle of a
  tracing call, \<open>mContextsLock\<close> is held by a thread exactly while it is saving the contexts (so that at most one thread is),
  while a thread is in the middle of a call no other thread changes its buffer, and while a thread saves no other
  thread changes the set of contexts or the saved traces.\<close>
theorem buffers_protected:
  assumes "reachable n s"
  shows "(\<forall>i. mTracingLock s i = under_tracing_lock (t_pc s i)) \<and>
    (\<forall>i. mContextsLock s = Some i \<longleftrightarrow> under_contexts_lock (t_pc s i)) \<and>
    (\<forall>i j. under_contexts_lock (t_pc s i) \<and> under_contexts_lock (t_pc s j) \<longrightarrow> i = j) \<and>
    (\<forall>i s'. under_tracing_lock (t_pc s i) \<and> thread_step n s s' \<and> t_pc s' i = t_pc s i \<longrightarrow> t_buffer s' i = t_buffer s i) \<and>
    (\<forall>i s'. under_contexts_lock (t_pc s i) \<and> thread_step n s s' \<and> t_pc s' i = t_pc s i \<longrightarrow>
      mContexts s' = mContexts s \<and> mSavedTraces s' = mSavedTraces s)"
proof (intro conjI)
  have ok: "locks_ok s" by (rule reachable_locks [OF assms])
  then show l: "\<forall>i. mTracingLock s i = under_tracing_lock (t_pc s i)"
    and c: "\<forall>i. mContextsLock s = Some i \<longleftrightarrow> under_contexts_lock (t_pc s i)" unfolding locks_ok_def by blast+
  show u: "\<forall>i j. under_contexts_lock (t_pc s i) \<and> under_contexts_lock (t_pc s j) \<longrightarrow> i = j"
    using c by (metis option.inject)
  show "\<forall>i s'. under_tracing_lock (t_pc s i) \<and> thread_step n s s' \<and> t_pc s' i = t_pc s i \<longrightarrow> t_buffer s' i = t_buffer s i"
  proof (intro allI impI, elim conjE)
    fix i s'
    assume u: "under_tracing_lock (t_pc s i)" and "thread_step n s s'" and same: "t_pc s' i = t_pc s i"
    from \<open>thread_step n s s'\<close> show "t_buffer s' i = t_buffer s i"
    proof (cases rule: thread_stepE)
      case (trace k)
      from trace(2) show ?thesis using u same by cases (auto simp: goto_def split: if_splits)
    next
      case (leave k)
      from leave(2) show ?thesis using u same by cases (auto simp: goto_def split: if_splits)
    next
      case (switch k)
      from switch(2) show ?thesis using u same l by cases (auto simp: goto_def split: if_splits)
    qed
  qed
  show "\<forall>i s'. under_contexts_lock (t_pc s i) \<and> thread_step n s s' \<and> t_pc s' i = t_pc s i \<longrightarrow>
      mContexts s' = mContexts s \<and> mSavedTraces s' = mSavedTraces s"
  proof (intro allI impI, elim conjE)
    fix i s'
    assume i: "under_contexts_lock (t_pc s i)" and "thread_step n s s'" and same: "t_pc s' i = t_pc s i"
    have held: "mContextsLock s = Some i" using c i by blast
    have only: "k = i" if "under_contexts_lock (t_pc s k)" for k using u i that by blast
    from \<open>thread_step n s s'\<close> show "mContexts s' = mContexts s \<and> mSavedTraces s' = mSavedTraces s"
    proof (cases rule: thread_stepE)
      case (trace k)
      from trace(2) show ?thesis using held by cases (auto simp: goto_def)
    next
      case (leave k)
      from leave(2) show ?thesis using held by cases (auto simp: goto_def)
    next
      case (switch k)
      from switch(2) show ?thesis using same only [of k] by cases (auto simp: goto_def)
    qed
  qed
qed

theorem buffers_protected_witness:
  "\<exists>s :: nat threads. reachable 3 s \<and> mTracingLock s 0 \<and> mContextsLock s = Some 1 \<and> \<not> mTracingLock s 1 \<and>
     \<not> under_contexts_lock (t_pc s 0)"
proof -
  obtain s :: "nat threads" where r: "reachable 3 s" and d: "deadlocked 0 1 s"
    using deadlock_reachable [of 3 7] by auto
  have "under_tracing_lock (t_pc s 0)" "under_contexts_lock (t_pc s 1)" "\<not> under_tracing_lock (t_pc s 1)"
    "\<not> under_contexts_lock (t_pc s 0)"
    using d by (auto simp: deadlocked_def)
  with r buffers_protected [OF r] show ?thesis by auto
qed

text \<open>C7 events_conserved: under every interleaving no event is lost or doubled: the events recorded so far are those of the files
  written, of the saved buffers, of the buffers of the contexts and of the buffers being handed over.\<close>
theorem events_conserved:
  assumes "reachable n s"
  shows "mset (t_recorded s) = mset (concat (t_files s)) + mset (concat (map snd (mSavedTraces s))) +
    (\<Sum>i<n. mset (case t_buffer s i of None \<Rightarrow> [] | Some (f, es) \<Rightarrow> es) + mset (in_flight (t_pc s i)))"
  using reachable_conserved [OF assms] by (simp add: conserved_def pending_def)

theorem events_conserved_witness:
  "\<exists>s. reachable 2 s \<and> t_recorded s = [7 :: nat] \<and> {#7#} = mset (concat (t_files s)) + mset (concat (map snd (mSavedTraces s))) +
    (\<Sum>i<2. mset (case t_buffer s i of None \<Rightarrow> [] | Some (f, es) \<Rightarrow> es) + mset (in_flight (t_pc s i)))"
proof -
  obtain s where s: "reachable 2 s" "t_recorded s = [7 :: nat]" using deadlock_reachable [of 2 7] by auto
  from events_conserved [OF s(1)] s show ?thesis by (intro exI [of _ s]) simp
qed

text \<open>C25 lock_order_deadlock: with two threads a deadlock can happen: one thread, inside a tracing call, waits for \<open>mContextsLock\<close> to hand
  over its full buffer, and the other, turning tracing off, holds \<open>mContextsLock\<close> and waits for the spin lock of
  the first. Whatever the threads do afterwards, neither gets on and the event already recorded is never
  written to a file.\<close>
theorem lock_order_deadlock:
  assumes "2 \<le> n"
  shows "\<exists>s. reachable n s \<and> t_recorded s = [a] \<and>
    (\<exists>e f es. t_pc s 0 = Flushing e f es) \<and> (\<exists>cs. t_pc s 1 = Saving_contexts (0 # cs)) \<and>
    (\<forall>s'. (thread_step n)\<^sup>*\<^sup>* s s' \<longrightarrow> t_pc s' 0 = t_pc s 0 \<and> t_pc s' 1 = t_pc s 1 \<and> t_files s' = [])"
proof -
  obtain s where s: "reachable n s" "deadlocked 0 1 s" "t_recorded s = [a]" "t_files s = []"
    using deadlock_reachable [OF assms, of a] by (elim exE conjE) (rule that)
  have "t_pc s' 0 = t_pc s 0 \<and> t_pc s' 1 = t_pc s 1 \<and> t_files s' = []" if "(thread_step n)\<^sup>*\<^sup>* s s'" for s'
    using deadlocked_for_ever [OF that reachable_locks [OF s(1)] s(2)] s(4) by simp
  moreover have "\<exists>e f es. t_pc s 0 = Flushing e f es" "\<exists>cs. t_pc s 1 = Saving_contexts (0 # cs)"
    using s(2) by (simp_all add: deadlocked_def)
  ultimately show ?thesis using s(1,3) by blast
qed

theorem lock_order_deadlock_witness:
  "\<exists>s. reachable 2 s \<and> t_recorded s = [7 :: nat] \<and> (\<forall>s'. (thread_step 2)\<^sup>*\<^sup>* s s' \<longrightarrow> t_files s' = [])"
proof -
  have "(2 :: nat) \<le> 2" by simp
  from lock_order_deadlock [OF this, of "7 :: nat"] show ?thesis by blast
qed

end
