(* ===== verification/Trace_Atomics.thy ===== *)
theory Trace_Atomics
  imports VP_Prelude
begin

section \<open>The shared counters (vperfetto.cpp)\<close>

text \<open>
  The configuration holds four variables that tracing threads share without a lock: \<open>packetsWritten\<close> and \<open>currentThreadId\<close>,
  which are incremented atomically and the new value used; \<open>sequenceIdWritten\<close>, which the thread that is to write the first
  packet sets, before it writes it, and for which the others spin; and \<open>currentInterningId\<close>, which is read and, in another step, incremented.
  This theory interleaves the accesses of several threads to them inside one tracing session. A thread runs
  \<open>ensureThreadInfo\<close> (the category, then its thread id) and then interns the name of its event.
\<close>

text \<open>Where a thread is: in \<open>First_packet\<close> it is about to set the flag and in \<open>Writes_packet\<close> to write the packet that starts
  the sequence, in \<open>Tests_flag\<close> and \<open>Spins\<close> it reads the flag; \<open>Looks_up n e\<close> and the next two intern the name \<open>n\<close>, \<open>e\<close> the name of the event that
  is still to be interned, if any.\<close>

datatype apc =
    Ready
  | First_packet string
  | Writes_packet string
  | Tests_flag string
  | Spins string
  | Looks_up string "string option"
  | Stores u32 string "string option"
  | Increments "string option"
  | Needs_thread_id string

record atomics =
  a_packetsWritten :: u32
  a_sequenceIdWritten :: bool
  a_currentInterningId :: u32
  a_currentThreadId :: u32
  a_pc :: "nat \<Rightarrow> apc"
  a_ids :: "nat \<Rightarrow> bool \<Rightarrow> string \<rightharpoonup> u32"
  a_threadId :: "nat \<Rightarrow> u32 option"
  a_sequencePackets :: "nat list"
  a_calls :: nat

text \<open>The state \<open>enableTracing\<close> leaves. The last two fields are history: who wrote the packet that starts the sequence, and how
  many calls began.\<close>

definition initial_atomics :: atomics where
  "initial_atomics = \<lparr>a_packetsWritten = 0, a_sequenceIdWritten = False, a_currentInterningId = 1, a_currentThreadId = 1,
     a_pc = (\<lambda>i. Ready), a_ids = (\<lambda>i c. Map.empty), a_threadId = (\<lambda>i. None), a_sequencePackets = [], a_calls = 0\<rparr>"

definition at_pc :: "nat \<Rightarrow> apc \<Rightarrow> atomics \<Rightarrow> atomics" where
  "at_pc i p s = s\<lparr>a_pc := (a_pc s)(i := p)\<rparr>"

text \<open>Interning one name: the thread's own map (\<open>a_ids s i True\<close> for categories, \<open>a_ids s i False\<close> for event names), then the
  shared counter. \<open>intern_done\<close> is what follows: after the category the thread id, after the event name the end of the call.\<close>

definition intern_done :: "string option \<Rightarrow> apc" where
  "intern_done e = (case e of Some name \<Rightarrow> Needs_thread_id name | None \<Rightarrow> Ready)"

inductive intern_step :: "nat \<Rightarrow> atomics \<Rightarrow> atomics \<Rightarrow> bool" for i where
  known: "a_pc s i = Looks_up n e \<Longrightarrow> a_ids s i (e \<noteq> None) n \<noteq> None \<Longrightarrow> intern_step i s (at_pc i (intern_done e) s)"
| read_id: "a_pc s i = Looks_up n e \<Longrightarrow> a_ids s i (e \<noteq> None) n = None \<Longrightarrow>
     intern_step i s (at_pc i (Stores (a_currentInterningId s) n e) s)"
| store_id: "a_pc s i = Stores r n e \<Longrightarrow>
     intern_step i s (at_pc i (Increments e) (s\<lparr>a_ids := (a_ids s)(i := (a_ids s i)(e \<noteq> None := (a_ids s i (e \<noteq> None))(n \<mapsto> r)))\<rparr>))"
| increment: "a_pc s i = Increments e \<Longrightarrow>
     intern_step i s (at_pc i (intern_done e) (s\<lparr>a_currentInterningId := a_currentInterningId s + 1\<rparr>))"

definition category_name :: string where
  "category_name = ''gfxstream''"

inductive info_step :: "nat \<Rightarrow> atomics \<Rightarrow> atomics \<Rightarrow> bool" for i where
  count: "a_pc s i = Ready \<Longrightarrow>
     info_step i s (at_pc i (if a_packetsWritten s + 1 = 1 then First_packet name else Tests_flag name)
       (s\<lparr>a_packetsWritten := a_packetsWritten s + 1, a_calls := a_calls s + 1\<rparr>))"
| first_packet: "a_pc s i = First_packet name \<Longrightarrow>
     info_step i s (at_pc i (Writes_packet name) (s\<lparr>a_sequenceIdWritten := True\<rparr>))"
| write_packet: "a_pc s i = Writes_packet name \<Longrightarrow>
     info_step i s (at_pc i (Looks_up category_name (Some name)) (s\<lparr>a_sequencePackets := i # a_sequencePackets s\<rparr>))"
| test_flag: "a_pc s i = Tests_flag name \<Longrightarrow>
     info_step i s (at_pc i (if a_sequenceIdWritten s then Looks_up category_name (Some name) else Spins name) s)"
| spin_ends: "a_pc s i = Spins name \<Longrightarrow> a_sequenceIdWritten s \<Longrightarrow>
     info_step i s (at_pc i (Looks_up category_name (Some name)) s)"
| has_thread_id: "a_pc s i = Needs_thread_id name \<Longrightarrow> a_threadId s i \<noteq> None \<Longrightarrow>
     info_step i s (at_pc i (Looks_up name None) s)"
| new_thread_id: "a_pc s i = Needs_thread_id name \<Longrightarrow> a_threadId s i = None \<Longrightarrow>
     info_step i s (at_pc i (Looks_up name None) (s\<lparr>a_currentThreadId := a_currentThreadId s + 1,
       a_threadId := (a_threadId s)(i := Some (a_currentThreadId s + 1))\<rparr>))"

definition atomic_step :: "nat \<Rightarrow> atomics \<Rightarrow> atomics \<Rightarrow> bool" where
  "atomic_step n s s' \<longleftrightarrow> (\<exists>i < n. info_step i s s' \<or> intern_step i s s')"

inductive atomics_reachable :: "nat \<Rightarrow> atomics \<Rightarrow> bool" for n where
  start: "atomics_reachable n initial_atomics"
| step: "atomics_reachable n s \<Longrightarrow> atomic_step n s s' \<Longrightarrow> atomics_reachable n s'"

inductive_cases info_stepE: "info_step i s s'"
inductive_cases intern_stepE: "intern_step i s s'"

subsection \<open>The sequence packet\<close>

fun sets_flag :: "apc \<Rightarrow> bool" where
  "sets_flag (First_packet name) = True"
| "sets_flag p = False"

fun writes_first :: "apc \<Rightarrow> bool" where
  "writes_first (Writes_packet name) = True"
| "writes_first p = False"

fun past_sequence :: "apc \<Rightarrow> bool" where
  "past_sequence Ready = False"
| "past_sequence (First_packet name) = False"
| "past_sequence (Writes_packet name) = False"
| "past_sequence (Tests_flag name) = False"
| "past_sequence (Spins name) = False"
| "past_sequence p = True"

definition firsts :: "atomics \<Rightarrow> nat set" where
  "firsts s = {i. sets_flag (a_pc s i)}"

definition writers :: "atomics \<Rightarrow> nat set" where
  "writers s = {i. writes_first (a_pc s i)}"

text \<open>Until the counter wraps, the first call is the only one that is told to set the flag and to write the packet, and nobody
  gets past the check before the flag is set.\<close>

definition sequence_phase :: "atomics \<Rightarrow> bool" where
  "sequence_phase s \<longleftrightarrow>
     (if a_calls s = 0 then \<not> a_sequenceIdWritten s \<and> a_sequencePackets s = [] \<and> firsts s = {} \<and> writers s = {}
      else (\<exists>k. \<not> a_sequenceIdWritten s \<and> a_sequencePackets s = [] \<and> firsts s = {k} \<and> writers s = {}
             \<or> a_sequenceIdWritten s \<and> a_sequencePackets s = [] \<and> firsts s = {} \<and> writers s = {k}
             \<or> a_sequenceIdWritten s \<and> a_sequencePackets s = [k] \<and> firsts s = {} \<and> writers s = {}))"

definition sequence_inv :: "atomics \<Rightarrow> bool" where
  "sequence_inv s \<longleftrightarrow> (a_calls s < 2 ^ 32 \<longrightarrow> a_packetsWritten s = word_of_nat (a_calls s) \<and> sequence_phase s) \<and>
     (\<forall>i. past_sequence (a_pc s i) \<longrightarrow> a_sequenceIdWritten s)"

lemma counter_is_one:
  assumes "c + 1 < 2 ^ 32"
  shows "(word_of_nat c + 1 = (1 :: u32)) = (c = 0)"
proof -
  have "unat (word_of_nat (c + 1) :: u32) = c + 1" using assms by (simp only: unat_of_nat) simp
  then have "word_of_nat (c + 1) = (1 :: u32) \<longleftrightarrow> c + 1 = 1" by (metis unat_1 word_unat_eq_iff)
  then show ?thesis by (simp add: add.commute)
qed

lemma firsts_move: "a_pc s' = (a_pc s)(i := p) \<Longrightarrow> firsts s' = (if sets_flag p then insert i (firsts s) else firsts s - {i})"
  by (auto simp: firsts_def)

lemma writers_move: "a_pc s' = (a_pc s)(i := p) \<Longrightarrow> writers s' = (if writes_first p then insert i (writers s) else writers s - {i})"
  by (auto simp: writers_def)

lemma not_first: "a_pc s i = p \<Longrightarrow> \<not> sets_flag p \<Longrightarrow> firsts s - {i} = firsts s"
  by (auto simp: firsts_def)

lemma not_writer: "a_pc s i = p \<Longrightarrow> \<not> writes_first p \<Longrightarrow> writers s - {i} = writers s"
  by (auto simp: writers_def)

lemma sequence_inv_count:
  assumes inv: "sequence_inv s" and pc: "a_pc s i = Ready"
    and s': "s' = at_pc i (if a_packetsWritten s + 1 = 1 then First_packet name else Tests_flag name)
       (s\<lparr>a_packetsWritten := a_packetsWritten s + 1, a_calls := a_calls s + 1\<rparr>)"
  shows "sequence_inv s'"
proof -
  have f: "firsts s' = (if a_packetsWritten s + 1 = 1 then insert i (firsts s) else firsts s)"
    using firsts_move [of s' s i] not_first [of s i, OF pc] by (simp add: s' at_pc_def)
  have w: "writers s' = writers s"
    using writers_move [of s' s i] not_writer [of s i, OF pc] by (simp add: s' at_pc_def)
  have "a_packetsWritten s' = word_of_nat (a_calls s') \<and> sequence_phase s'" if "a_calls s' < 2 ^ 32"
  proof -
    have c: "a_calls s + 1 < 2 ^ 32" using that by (simp add: s' at_pc_def)
    with inv have p: "a_packetsWritten s = word_of_nat (a_calls s)" "sequence_phase s" by (simp_all add: sequence_inv_def)
    have one: "(a_packetsWritten s + 1 = 1) = (a_calls s = 0)" unfolding p(1) by (rule counter_is_one [OF c])
    have "a_packetsWritten s' = word_of_nat (a_calls s')" using p(1) by (simp add: s' at_pc_def)
    moreover have "sequence_phase s'"
      using p(2) one f w by (cases "a_calls s = 0") (simp_all add: sequence_phase_def s' at_pc_def)
    ultimately show ?thesis ..
  qed
  moreover have "\<forall>j. past_sequence (a_pc s' j) \<longrightarrow> a_sequenceIdWritten s'"
    using inv by (auto simp: sequence_inv_def s' at_pc_def)
  ultimately show ?thesis by (simp add: sequence_inv_def)
qed

lemma intern_done_pc [simp]: "\<not> writes_first (intern_done e)" "\<not> sets_flag (intern_done e)"
  by (cases e; simp add: intern_done_def)+

text \<open>A step that leaves the packet counter and the flag alone, of a thread that is not the first.\<close>

lemma sequence_inv_move:
  assumes "sequence_inv s" and "\<not> sets_flag (a_pc s i)" "\<not> writes_first (a_pc s i)" and "\<not> sets_flag p" "\<not> writes_first p"
    and "past_sequence p \<longrightarrow> past_sequence (a_pc s i) \<or> a_sequenceIdWritten s"
    and "a_packetsWritten s' = a_packetsWritten s" "a_sequenceIdWritten s' = a_sequenceIdWritten s"
      "a_sequencePackets s' = a_sequencePackets s" "a_calls s' = a_calls s" "a_pc s' = (a_pc s)(i := p)"
  shows "sequence_inv s'"
proof -
  have "firsts s' = firsts s" using firsts_move [OF assms(11)] not_first [of s i, OF refl] assms(2,4) by simp
  moreover have "writers s' = writers s" using writers_move [OF assms(11)] not_writer [of s i, OF refl] assms(3,5) by simp
  ultimately have "sequence_phase s' = sequence_phase s" using assms by (simp add: sequence_phase_def)
  with assms show ?thesis by (auto simp: sequence_inv_def)
qed

lemma sequence_inv_flag:
  assumes inv: "sequence_inv s" and pc: "a_pc s i = First_packet name"
    and s': "s' = at_pc i (Writes_packet name) (s\<lparr>a_sequenceIdWritten := True\<rparr>)"
  shows "sequence_inv s'"
proof -
  have f: "firsts s' = firsts s - {i}" using firsts_move [of s' s i] by (simp add: s' at_pc_def)
  have w: "writers s' = insert i (writers s)" using writers_move [of s' s i] by (simp add: s' at_pc_def)
  have "i \<in> firsts s" using pc by (simp add: firsts_def)
  then have "sequence_phase s'" if "sequence_phase s"
    using that f w by (auto simp: sequence_phase_def s' at_pc_def split: if_splits)
  with inv show ?thesis by (auto simp: sequence_inv_def s' at_pc_def)
qed

lemma sequence_inv_write:
  assumes inv: "sequence_inv s" and pc: "a_pc s i = Writes_packet name"
    and s': "s' = at_pc i (Looks_up category_name (Some name)) (s\<lparr>a_sequencePackets := i # a_sequencePackets s\<rparr>)"
    and flag: "a_sequenceIdWritten s"
  shows "sequence_inv s'"
proof -
  have f: "firsts s' = firsts s" using firsts_move [of s' s i] not_first [of s i, OF pc] by (simp add: s' at_pc_def)
  have w: "writers s' = writers s - {i}" using writers_move [of s' s i] by (simp add: s' at_pc_def)
  have "i \<in> writers s" using pc by (simp add: writers_def)
  then have "sequence_phase s'" if "sequence_phase s"
    using that f w by (auto simp: sequence_phase_def s' at_pc_def split: if_splits)
  with inv flag show ?thesis by (auto simp: sequence_inv_def s' at_pc_def)
qed

text \<open>A thread that is to write the packet has set the flag.\<close>

definition writers_flag :: "atomics \<Rightarrow> bool" where
  "writers_flag s \<longleftrightarrow> (\<forall>i. writes_first (a_pc s i) \<longrightarrow> a_sequenceIdWritten s)"

lemma writers_flag_step:
  assumes "atomic_step n s s'" and "writers_flag s"
  shows "writers_flag s'"
proof -
  obtain i where "info_step i s s' \<or> intern_step i s s'" using assms(1) by (auto simp: atomic_step_def)
  then show ?thesis
    using assms(2) by (auto simp: writers_flag_def at_pc_def split: if_splits elim!: info_stepE intern_stepE)
qed

lemma sequence_inv_step:
  assumes "atomic_step n s s'" and "sequence_inv s" and "writers_flag s"
  shows "sequence_inv s'"
proof -
  obtain i where "info_step i s s' \<or> intern_step i s s'" using assms(1) by (auto simp: atomic_step_def)
  then show ?thesis
  proof
    assume "intern_step i s s'"
    then show ?thesis
      by cases (rule sequence_inv_move [OF assms(2), of i]; simp add: at_pc_def)+
  next
    assume "info_step i s s'"
    then show ?thesis
    proof cases
      case (count name)
      with sequence_inv_count [OF assms(2)] show ?thesis by blast
    next
      case (first_packet name)
      with sequence_inv_flag [OF assms(2)] show ?thesis by blast
    next
      case (write_packet name)
      have "a_sequenceIdWritten s" using assms(3) write_packet(2) unfolding writers_flag_def by (metis writes_first.simps(1))
      with write_packet sequence_inv_write [OF assms(2)] show ?thesis by blast
    qed (rule sequence_inv_move [OF assms(2), of i]; simp add: at_pc_def)+
  qed
qed

subsection \<open>Thread ids\<close>

text \<open>The ids given out are the numbers from 2 up to the counter, each to one thread.\<close>

definition assigned :: "nat \<Rightarrow> atomics \<Rightarrow> nat set" where
  "assigned n s = {i. i < n \<and> a_threadId s i \<noteq> None}"

definition thread_ids_inv :: "nat \<Rightarrow> atomics \<Rightarrow> bool" where
  "thread_ids_inv n s \<longleftrightarrow>
     (\<forall>i. a_threadId s i \<noteq> None \<longrightarrow> i < n) \<and>
     unat (a_currentThreadId s) = 1 + card (assigned n s) \<and>
     (\<forall>i t. a_threadId s i = Some t \<longrightarrow> 2 \<le> unat t \<and> unat t \<le> unat (a_currentThreadId s)) \<and>
     (\<forall>i j t. a_threadId s i = Some t \<and> a_threadId s j = Some t \<longrightarrow> i = j)"

lemma card_assigned: "card (assigned n s) \<le> n"
  using card_mono [of "{..<n}" "assigned n s"] by (auto simp: assigned_def)

lemma thread_ids_new:
  assumes inv: "thread_ids_inv n s" and i: "i < n" "a_threadId s i = None" and n: "n + 2 < 2 ^ 32"
    and s': "a_currentThreadId s' = a_currentThreadId s + 1" "a_threadId s' = (a_threadId s)(i := Some (a_currentThreadId s + 1))"
  shows "thread_ids_inv n s'"
proof -
  have "card (assigned n s) < n"
  proof -
    have "assigned n s \<subseteq> {..<n} - {i}" using i by (auto simp: assigned_def)
    then have "card (assigned n s) \<le> card ({..<n} - {i})" by (intro card_mono) auto
    with i(1) show ?thesis by simp
  qed
  with inv n have "unat (a_currentThreadId s) + 1 < 2 ^ 32" by (simp add: thread_ids_inv_def)
  then have u: "unat (a_currentThreadId s + 1) = unat (a_currentThreadId s) + 1" by (simp add: unat_word_ariths)
  have a: "assigned n s' = insert i (assigned n s)" using i(1) by (auto simp: assigned_def s'(2))
  have c: "card (assigned n s') = card (assigned n s) + 1"
    unfolding a using i(2) by (subst card_insert_disjoint) (auto simp: assigned_def)
  have fresh: "a_threadId s j \<noteq> Some (a_currentThreadId s + 1)" for j
    using inv u by (fastforce simp: thread_ids_inv_def)
  show ?thesis
    unfolding thread_ids_inv_def
  proof (intro conjI allI impI)
    show "j < n" if "a_threadId s' j \<noteq> None" for j
      using that inv i(1) by (cases "j = i") (auto simp: s'(2) thread_ids_inv_def)
    show "unat (a_currentThreadId s') = 1 + card (assigned n s')"
      using inv by (simp add: s'(1) u c thread_ids_inv_def)
    show "2 \<le> unat t" "unat t \<le> unat (a_currentThreadId s')" if "a_threadId s' j = Some t" for j t
    proof -
      have "2 \<le> unat t \<and> unat t \<le> unat (a_currentThreadId s) + 1"
      proof (cases "j = i")
        case True
        with that have t: "t = a_currentThreadId s + 1" by (simp add: s'(2))
        have "unat (a_currentThreadId s) = 1 + card (assigned n s)" using inv by (simp add: thread_ids_inv_def)
        with u show ?thesis unfolding t by linarith
      next
        case False
        with that have "a_threadId s j = Some t" by (simp add: s'(2))
        with inv have "2 \<le> unat t \<and> unat t \<le> unat (a_currentThreadId s)" unfolding thread_ids_inv_def by blast
        then show ?thesis by simp
      qed
      then show "2 \<le> unat t" "unat t \<le> unat (a_currentThreadId s')" by (simp_all add: s'(1) u)
    qed
    show "j = k" if "a_threadId s' j = Some t \<and> a_threadId s' k = Some t" for j k t
    proof (cases "t = a_currentThreadId s + 1")
      case True
      with that fresh [of j] fresh [of k] show ?thesis by (auto simp: s'(2) split: if_splits)
    next
      case False
      with that have "a_threadId s j = Some t" "a_threadId s k = Some t" by (auto simp: s'(2) split: if_splits)
      with inv show ?thesis unfolding thread_ids_inv_def by blast
    qed
  qed
qed

lemma thread_ids_same:
  assumes inv: "thread_ids_inv n s" and same: "a_currentThreadId s' = a_currentThreadId s" "a_threadId s' = a_threadId s"
  shows "thread_ids_inv n s'"
proof -
  have "assigned n s' = assigned n s" by (simp add: assigned_def same)
  then show ?thesis using inv unfolding thread_ids_inv_def same by (elim ssubst)
qed

lemma thread_ids_step:
  assumes "atomic_step n s s'" and inv: "thread_ids_inv n s" and n: "n + 2 < 2 ^ 32"
  shows "thread_ids_inv n s'"
proof -
  obtain i where i: "i < n" and s: "info_step i s s' \<or> intern_step i s s'" using assms(1) by (auto simp: atomic_step_def)
  from s show ?thesis
  proof
    assume "intern_step i s s'"
    then show ?thesis by cases (rule thread_ids_same [OF inv]; simp add: at_pc_def)+
  next
    assume "info_step i s s'"
    then show ?thesis
    proof cases
      case (new_thread_id name)
      show ?thesis by (rule thread_ids_new [OF inv i new_thread_id(3) n]) (simp_all add: new_thread_id(1) at_pc_def)
    qed (rule thread_ids_same [OF inv]; simp add: at_pc_def)+
  qed
qed

lemma reachable_thread_ids: "atomics_reachable n s \<Longrightarrow> n + 2 < 2 ^ 32 \<Longrightarrow> thread_ids_inv n s"
proof (induction rule: atomics_reachable.induct)
  case start
  show ?case by (simp add: thread_ids_inv_def initial_atomics_def assigned_def)
qed (blast intro: thread_ids_step)

lemma reachable_sequence: "atomics_reachable n s \<Longrightarrow> sequence_inv s \<and> writers_flag s"
proof (induction rule: atomics_reachable.induct)
  case start
  show ?case by (simp add: sequence_inv_def sequence_phase_def initial_atomics_def firsts_def writers_def writers_flag_def)
qed (blast intro: sequence_inv_step writers_flag_step)

text \<open>A thread that waits has begun a call.\<close>

definition spins_begun :: "atomics \<Rightarrow> bool" where
  "spins_begun s \<longleftrightarrow> a_calls s = 0 \<longrightarrow> (\<forall>i. a_pc s i = Ready)"

lemma spins_begun_step:
  assumes "atomic_step n s s'" and "spins_begun s"
  shows "spins_begun s'"
proof -
  obtain i where "info_step i s s' \<or> intern_step i s s'" using assms(1) by (auto simp: atomic_step_def)
  then show ?thesis
    using assms(2) by (auto simp: spins_begun_def at_pc_def elim!: info_stepE intern_stepE)
qed

lemma reachable_spins: "atomics_reachable n s \<Longrightarrow> spins_begun s"
proof (induction rule: atomics_reachable.induct)
  case start
  show ?case by (simp add: spins_begun_def initial_atomics_def)
qed (blast intro: spins_begun_step)

subsection \<open>Two threads inside one tracing session\<close>

lemma info_reachable: "atomics_reachable n s \<Longrightarrow> info_step i s s1 \<Longrightarrow> i < n \<Longrightarrow> s1 = s' \<Longrightarrow> atomics_reachable n s'"
  using atomics_reachable.step [of n s s1] by (auto simp: atomic_step_def)

lemma intern_reachable: "atomics_reachable n s \<Longrightarrow> intern_step i s s1 \<Longrightarrow> i < n \<Longrightarrow> s1 = s' \<Longrightarrow> atomics_reachable n s'"
  using atomics_reachable.step [of n s s1] by (auto simp: atomic_step_def)

text \<open>The counters, then where the two threads are, their maps (categories and names), their ids, the flag, and who
  wrote the sequence packet.\<close>

definition two_atomics :: "u32 \<Rightarrow> u32 \<Rightarrow> u32 \<Rightarrow> apc \<Rightarrow> apc \<Rightarrow> (string \<rightharpoonup> u32) \<Rightarrow> (string \<rightharpoonup> u32) \<Rightarrow> (string \<rightharpoonup> u32) \<Rightarrow>
    (string \<rightharpoonup> u32) \<Rightarrow> u32 option \<Rightarrow> u32 option \<Rightarrow> bool \<Rightarrow> nat list \<Rightarrow> nat \<Rightarrow> atomics" where
  "two_atomics w k t p0 p1 c0 m0 c1 m1 t0 t1 q ps c = \<lparr>a_packetsWritten = w, a_sequenceIdWritten = q, a_currentInterningId = k,
     a_currentThreadId = t, a_pc = (\<lambda>i. if i = 0 then p0 else if i = 1 then p1 else Ready),
     a_ids = (\<lambda>i b. if i = 0 then (if b then c0 else m0) else if i = 1 then (if b then c1 else m1) else Map.empty),
     a_threadId = (\<lambda>i. if i = 0 then t0 else if i = 1 then t1 else None), a_sequencePackets = ps, a_calls = c\<rparr>"

lemmas two_atomics_eqs = two_atomics_def at_pc_def intern_done_def fun_eq_iff

text \<open>Thread 0 starts to trace \<open>a\<close> and thread 1 \<open>b\<close>, up to the lookup of their names.\<close>

lemma both_look_up:
  assumes n: "0 < n" "1 < n"
  shows "atomics_reachable n (two_atomics 2 3 3 (Looks_up a None) (Looks_up b None) [category_name \<mapsto> 1] Map.empty [category_name \<mapsto> 2] Map.empty (Some 2) (Some 3) True [0] 2)"
proof -
  have "initial_atomics = two_atomics 0 1 1 (Ready) (Ready) Map.empty Map.empty Map.empty Map.empty None None False [] 0"
    by (simp add: initial_atomics_def two_atomics_def fun_eq_iff)
  then have "atomics_reachable n (two_atomics 0 1 1 (Ready) (Ready) Map.empty Map.empty Map.empty Map.empty None None False [] 0)"
    using atomics_reachable.start [of n] by simp
  then have "atomics_reachable n (two_atomics 1 1 1 (First_packet a) (Ready) Map.empty Map.empty Map.empty Map.empty None None False [] 1)"
    by (rule info_reachable [OF _ info_step.count [where name = a] n(1)]) (simp_all add: two_atomics_eqs)
  then have "atomics_reachable n (two_atomics 1 1 1 (Writes_packet a) (Ready) Map.empty Map.empty Map.empty Map.empty None None True [] 1)"
    by (rule info_reachable [OF _ info_step.first_packet n(1)]) (simp_all add: two_atomics_eqs)
  then have "atomics_reachable n (two_atomics 1 1 1 (Looks_up category_name (Some a)) (Ready) Map.empty Map.empty Map.empty Map.empty None None True [0] 1)"
    by (rule info_reachable [OF _ info_step.write_packet n(1)]) (simp_all add: two_atomics_eqs)
  then have "atomics_reachable n (two_atomics 1 1 1 (Stores 1 category_name (Some a)) (Ready) Map.empty Map.empty Map.empty Map.empty None None True [0] 1)"
    by (rule intern_reachable [OF _ intern_step.read_id n(1)]) (simp_all add: two_atomics_eqs)
  then have "atomics_reachable n (two_atomics 1 1 1 (Increments (Some a)) (Ready) [category_name \<mapsto> 1] Map.empty Map.empty Map.empty None None True [0] 1)"
    by (rule intern_reachable [OF _ intern_step.store_id [where r = 1 and n = category_name and e = "Some a"] n(1)]) (simp_all add: two_atomics_eqs)
  then have "atomics_reachable n (two_atomics 1 2 1 (Needs_thread_id a) (Ready) [category_name \<mapsto> 1] Map.empty Map.empty Map.empty None None True [0] 1)"
    by (rule intern_reachable [OF _ intern_step.increment [where e = "Some a"] n(1)]) (simp_all add: two_atomics_eqs)
  then have "atomics_reachable n (two_atomics 1 2 2 (Looks_up a None) (Ready) [category_name \<mapsto> 1] Map.empty Map.empty Map.empty (Some 2) None True [0] 1)"
    by (rule info_reachable [OF _ info_step.new_thread_id n(1)]) (simp_all add: two_atomics_eqs)
  then have "atomics_reachable n (two_atomics 2 2 2 (Looks_up a None) (Tests_flag b) [category_name \<mapsto> 1] Map.empty Map.empty Map.empty (Some 2) None True [0] 2)"
    by (rule info_reachable [OF _ info_step.count [where name = b] n(2)]) (simp_all add: two_atomics_eqs)
  then have "atomics_reachable n (two_atomics 2 2 2 (Looks_up a None) (Looks_up category_name (Some b)) [category_name \<mapsto> 1] Map.empty Map.empty Map.empty (Some 2) None True [0] 2)"
    by (rule info_reachable [OF _ info_step.test_flag n(2)]) (simp_all add: two_atomics_eqs)
  then have "atomics_reachable n (two_atomics 2 2 2 (Looks_up a None) (Stores 2 category_name (Some b)) [category_name \<mapsto> 1] Map.empty Map.empty Map.empty (Some 2) None True [0] 2)"
    by (rule intern_reachable [OF _ intern_step.read_id n(2)]) (simp_all add: two_atomics_eqs)
  then have "atomics_reachable n (two_atomics 2 2 2 (Looks_up a None) (Increments (Some b)) [category_name \<mapsto> 1] Map.empty [category_name \<mapsto> 2] Map.empty (Some 2) None True [0] 2)"
    by (rule intern_reachable [OF _ intern_step.store_id [where r = 2 and n = category_name and e = "Some b"] n(2)]) (simp_all add: two_atomics_eqs)
  then have "atomics_reachable n (two_atomics 2 3 2 (Looks_up a None) (Needs_thread_id b) [category_name \<mapsto> 1] Map.empty [category_name \<mapsto> 2] Map.empty (Some 2) None True [0] 2)"
    by (rule intern_reachable [OF _ intern_step.increment [where e = "Some b"] n(2)]) (simp_all add: two_atomics_eqs)
  then have "atomics_reachable n (two_atomics 2 3 3 (Looks_up a None) (Looks_up b None) [category_name \<mapsto> 1] Map.empty [category_name \<mapsto> 2] Map.empty (Some 2) (Some 3) True [0] 2)"
    by (rule info_reachable [OF _ info_step.new_thread_id n(2)]) (simp_all add: two_atomics_eqs)
  then show ?thesis .
qed

text \<open>Both read the shared counter before either increments it.\<close>

lemma both_store:
  assumes n: "0 < n" "1 < n"
  shows "atomics_reachable n (two_atomics 2 5 3 (Ready) (Ready) [category_name \<mapsto> 1] [a \<mapsto> 3] [category_name \<mapsto> 2] [b \<mapsto> 3] (Some 2) (Some 3) True [0] 2)"
proof -
  note both_look_up [OF n, of a b]
  then have "atomics_reachable n (two_atomics 2 3 3 (Stores 3 a None) (Looks_up b None) [category_name \<mapsto> 1] Map.empty [category_name \<mapsto> 2] Map.empty (Some 2) (Some 3) True [0] 2)"
    by (rule intern_reachable [OF _ intern_step.read_id n(1)]) (simp_all add: two_atomics_eqs)
  then have "atomics_reachable n (two_atomics 2 3 3 (Stores 3 a None) (Stores 3 b None) [category_name \<mapsto> 1] Map.empty [category_name \<mapsto> 2] Map.empty (Some 2) (Some 3) True [0] 2)"
    by (rule intern_reachable [OF _ intern_step.read_id n(2)]) (simp_all add: two_atomics_eqs)
  then have "atomics_reachable n (two_atomics 2 3 3 (Increments None) (Stores 3 b None) [category_name \<mapsto> 1] [a \<mapsto> 3] [category_name \<mapsto> 2] Map.empty (Some 2) (Some 3) True [0] 2)"
    by (rule intern_reachable [OF _ intern_step.store_id [where r = 3 and n = a and e = None] n(1)]) (simp_all add: two_atomics_eqs)
  then have "atomics_reachable n (two_atomics 2 3 3 (Increments None) (Increments None) [category_name \<mapsto> 1] [a \<mapsto> 3] [category_name \<mapsto> 2] [b \<mapsto> 3] (Some 2) (Some 3) True [0] 2)"
    by (rule intern_reachable [OF _ intern_step.store_id [where r = 3 and n = b and e = None] n(2)]) (simp_all add: two_atomics_eqs)
  then have "atomics_reachable n (two_atomics 2 4 3 (Ready) (Increments None) [category_name \<mapsto> 1] [a \<mapsto> 3] [category_name \<mapsto> 2] [b \<mapsto> 3] (Some 2) (Some 3) True [0] 2)"
    by (rule intern_reachable [OF _ intern_step.increment [where e = "None"] n(1)]) (simp_all add: two_atomics_eqs)
  then have "atomics_reachable n (two_atomics 2 5 3 (Ready) (Ready) [category_name \<mapsto> 1] [a \<mapsto> 3] [category_name \<mapsto> 2] [b \<mapsto> 3] (Some 2) (Some 3) True [0] 2)"
    by (rule intern_reachable [OF _ intern_step.increment [where e = "None"] n(2)]) (simp_all add: two_atomics_eqs)
  then show ?thesis .
qed

subsection \<open>Properties\<close>

text \<open>C27 thread_ids_unique: under every interleaving of fewer than 2^32 - 2 threads two threads never get the same thread id, none gets
  the ids 0 and 1, and the ids given out are at most the counter.\<close>
theorem thread_ids_unique:
  assumes "atomics_reachable n s" and "n + 2 < 2 ^ 32" and "a_threadId s i = Some t"
  shows "2 \<le> unat t \<and> unat t \<le> n + 1 \<and> (a_threadId s j = Some t \<longrightarrow> i = j)"
proof -
  have inv: "thread_ids_inv n s" by (rule reachable_thread_ids [OF assms(1,2)])
  then have "unat (a_currentThreadId s) \<le> n + 1" using card_assigned [of n s] unfolding thread_ids_inv_def by linarith
  moreover have "2 \<le> unat t \<and> unat t \<le> unat (a_currentThreadId s)" "a_threadId s j = Some t \<longrightarrow> i = j"
    using inv assms(3) unfolding thread_ids_inv_def by blast+
  ultimately show ?thesis by simp
qed

theorem thread_ids_unique_witness:
  "\<exists>s. atomics_reachable 2 s \<and> a_threadId s 0 = Some 2 \<and> (a_threadId s 1 = Some 2 \<longrightarrow> (0 :: nat) = 1)"
proof -
  have n: "(0 :: nat) < 2" "(1 :: nat) < 2" "(2 :: nat) + 2 < 2 ^ 32" by simp_all
  let ?s = "two_atomics 2 5 3 Ready Ready [category_name \<mapsto> 1] [''a'' \<mapsto> 3] [category_name \<mapsto> 2] [''b'' \<mapsto> 3] (Some 2) (Some 3) True [0] 2"
  have "atomics_reachable 2 ?s" by (rule both_store [OF n(1,2)])
  moreover have "a_threadId ?s 0 = Some 2" by (simp add: two_atomics_def)
  ultimately show ?thesis using thread_ids_unique [OF _ n(3), of ?s 0 2 1] by blast
qed

text \<open>C28 one_sequence_packet: as long as fewer than 2^32 calls have begun, at most one thread writes the packet that starts the
  sequence. Once a call has got past the check exactly one thread has written that packet or will write it as its next
  step, and none is about to start another; and for a thread that waits for the flag there is exactly one thread whose next
  step sets it.\<close>
theorem one_sequence_packet:
  assumes "atomics_reachable n s" and "a_calls s < 2 ^ 32"
  shows "length (a_sequencePackets s) \<le> 1 \<and>
    (past_sequence (a_pc s i) \<longrightarrow> firsts s = {} \<and>
      (\<exists>k. a_sequencePackets s = [k] \<and> writers s = {} \<or> a_sequencePackets s = [] \<and> writers s = {k})) \<and>
    (a_pc s i = Spins name \<and> \<not> a_sequenceIdWritten s \<longrightarrow> (\<exists>k. firsts s = {k} \<and> a_sequencePackets s = [] \<and> writers s = {}))"
proof -
  have inv: "sequence_inv s" "spins_begun s" using reachable_sequence [OF assms(1)] reachable_spins [OF assms(1)] by simp_all
  then have ph: "sequence_phase s" using assms(2) by (simp add: sequence_inv_def)
  then have "length (a_sequencePackets s) \<le> 1" by (auto simp: sequence_phase_def split: if_splits)
  moreover have "past_sequence (a_pc s i) \<longrightarrow> a_sequenceIdWritten s" using inv unfolding sequence_inv_def by blast
  moreover have "a_pc s i = Spins name \<longrightarrow> a_calls s \<noteq> 0" using inv(2) unfolding spins_begun_def by force
  ultimately show ?thesis using ph by (auto simp: sequence_phase_def split: if_splits)
qed

theorem one_sequence_packet_witness:
  "\<exists>s. atomics_reachable 2 s \<and> past_sequence (a_pc s 0) \<and>
    (\<exists>k. a_sequencePackets s = [k] \<and> writers s = {} \<or> a_sequencePackets s = [] \<and> writers s = {k})"
proof -
  have n: "(0 :: nat) < 2" "(1 :: nat) < 2" by simp_all
  let ?s = "two_atomics 2 3 3 (Looks_up ''a'' None) (Looks_up ''b'' None) [category_name \<mapsto> 1] Map.empty [category_name \<mapsto> 2] Map.empty (Some 2) (Some 3) True [0] 2"
  have r: "atomics_reachable 2 ?s" by (rule both_look_up [OF n])
  have "a_calls ?s < 2 ^ 32" "past_sequence (a_pc ?s 0)" by (simp_all add: two_atomics_def)
  with one_sequence_packet [OF r, of 0] r show ?thesis by blast
qed

text \<open>What the waiting does not give: the flag is set before the packet is written, so that a second thread can get past the check
  (and write its own packets into its own buffer) while the packet that starts the sequence is still to be written.\<close>

theorem sequence_packet_late:
  assumes "2 \<le> n"
  shows "\<exists>s. atomics_reachable n s \<and> past_sequence (a_pc s 1) \<and> a_sequencePackets s = []"
proof -
  have n: "0 < n" "1 < n" using assms(1) by simp_all
  have "initial_atomics = two_atomics 0 1 1 (Ready) (Ready) Map.empty Map.empty Map.empty Map.empty None None False [] 0"
    by (simp add: initial_atomics_def two_atomics_def fun_eq_iff)
  then have "atomics_reachable n (two_atomics 0 1 1 (Ready) (Ready) Map.empty Map.empty Map.empty Map.empty None None False [] 0)"
    using atomics_reachable.start [of n] by simp
  then have "atomics_reachable n (two_atomics 1 1 1 (First_packet a) (Ready) Map.empty Map.empty Map.empty Map.empty None None False [] 1)"
    by (rule info_reachable [OF _ info_step.count [where name = a] n(1)]) (simp_all add: two_atomics_eqs)
  then have "atomics_reachable n (two_atomics 1 1 1 (Writes_packet a) (Ready) Map.empty Map.empty Map.empty Map.empty None None True [] 1)"
    by (rule info_reachable [OF _ info_step.first_packet n(1)]) (simp_all add: two_atomics_eqs)
  then have "atomics_reachable n (two_atomics 2 1 1 (Writes_packet a) (Tests_flag b) Map.empty Map.empty Map.empty Map.empty None None True [] 2)"
    by (rule info_reachable [OF _ info_step.count [where name = b] n(2)]) (simp_all add: two_atomics_eqs)
  then have "atomics_reachable n (two_atomics 2 1 1 (Writes_packet a) (Looks_up category_name (Some b)) Map.empty Map.empty Map.empty Map.empty None None True [] 2)"
    by (rule info_reachable [OF _ info_step.test_flag n(2)]) (simp_all add: two_atomics_eqs)
  then show ?thesis by (rule_tac exI) (auto simp: two_atomics_def)
qed

text \<open>C29 interning_race: two threads can give any two event names, different ones too, the same id: the shared counter is read in one step and
  incremented in another. Both calls then return, and the trace names two events alike.\<close>
theorem interning_race:
  assumes "2 \<le> n"
  shows "\<exists>s. atomics_reachable n s \<and> a_pc s 0 = Ready \<and> a_pc s 1 = Ready \<and>
    (\<exists>k. a_ids s 0 False a = Some k \<and> a_ids s 1 False b = Some k)"
proof -
  have n: "0 < n" "1 < n" using assms(1) by simp_all
  show ?thesis
    by (rule exI, rule conjI [OF both_store [OF n, of a b]]) (simp add: two_atomics_def)
qed

theorem interning_race_witness:
  "\<exists>s. atomics_reachable 2 s \<and> (\<exists>k. a_ids s 0 False ''a'' = Some k \<and> a_ids s 1 False ''b'' = Some k)"
  using interning_race [of 2 "''a''" "''b''", OF order_refl] by blast

end
