(* ===== verification/Circular_Queue.thy ===== *)
theory Circular_Queue
  imports VP_Prelude
begin

section \<open>The circular queue (ext/base/circular_queue.h)\<close>

text \<open>
  \<open>CircularQueue\<close> is a queue in one array whose capacity is a power of two. Positions are 64-bit numbers
  that only grow; a position addresses the array with a bitwise and. A slot of the array is \<open>None\<close> while
  no element is alive in it. \<open>sizeof_T\<close> is the size of an element. An operation that runs into
  \<^verbatim>\<open>PERFETTO_CHECK\<close> is \<open>None\<close>. The generation counter exists in debug builds only and is left out.
\<close>

record 'a CircularQueue =
  cq_entries :: "'a option list"
  cq_capacity :: u64
  cq_begin :: u64
  cq_end :: u64

definition cq_zero :: "'a CircularQueue" where
  "cq_zero = \<lparr>cq_entries = [], cq_capacity = 0, cq_begin = 0, cq_end = 0\<rparr>"

text \<open>\<open>Get\<close> as the index of the slot.\<close>

definition cq_Get :: "'a CircularQueue \<Rightarrow> u64 \<Rightarrow> nat" where
  "cq_Get q pos = unat (pos AND (cq_capacity q - 1))"

definition cq_size :: "'a CircularQueue \<Rightarrow> u64" where
  "cq_size q = cq_end q - cq_begin q"

definition cq_empty :: "'a CircularQueue \<Rightarrow> bool" where
  "cq_empty q \<longleftrightarrow> cq_size q = 0"

text \<open>The positions of the loops \<^verbatim>\<open>for (uint64_t i = begin_; i < end_; i++)\<close>.\<close>

definition cq_positions :: "'a CircularQueue \<Rightarrow> u64 list" where
  "cq_positions q = map word_of_nat [unat (cq_begin q) ..< unat (cq_end q)]"

definition cq_Grow :: "u64 \<Rightarrow> u64 \<Rightarrow> 'a CircularQueue \<Rightarrow> 'a CircularQueue option" where
  "cq_Grow sizeof_T wanted q =
     (let new_capacity = (if wanted \<noteq> 0 then wanted else cq_capacity q * 2) in
      if new_capacity AND (new_capacity - 1) \<noteq> 0 then None
      else if \<not> new_capacity > cq_capacity q then None
      else if \<not> new_capacity * sizeof_T > new_capacity then None
      else
        (let moved = map (\<lambda>i. cq_entries q ! cq_Get q i) (cq_positions q) in
         Some \<lparr>cq_entries = moved @ replicate (unat new_capacity - length moved) None,
               cq_capacity = new_capacity, cq_begin = 0, cq_end = word_of_nat (length moved)\<rparr>))"

definition CircularQueue :: "u64 \<Rightarrow> u64 \<Rightarrow> 'a CircularQueue option" where
  "CircularQueue sizeof_T initial_capacity = cq_Grow sizeof_T initial_capacity cq_zero"

definition emplace_back :: "u64 \<Rightarrow> 'a \<Rightarrow> 'a CircularQueue \<Rightarrow> 'a CircularQueue option" where
  "emplace_back sizeof_T x q =
     Option.bind (if cq_size q \<ge> cq_capacity q then cq_Grow sizeof_T 0 q else Some q)
       (\<lambda>q'. Some (q'\<lparr>cq_end := cq_end q' + 1, cq_entries := (cq_entries q')[cq_Get q' (cq_end q') := Some x]\<rparr>))"

fun erase_front :: "nat \<Rightarrow> 'a CircularQueue \<Rightarrow> 'a CircularQueue" where
  "erase_front 0 q = q"
| "erase_front (Suc n) q =
     (if cq_begin q < cq_end q
      then erase_front n (q\<lparr>cq_entries := (cq_entries q)[cq_Get q (cq_begin q) := None], cq_begin := cq_begin q + 1\<rparr>)
      else q)"

definition pop_front :: "'a CircularQueue \<Rightarrow> 'a CircularQueue" where
  "pop_front = erase_front 1"

definition cq_clear :: "'a CircularQueue \<Rightarrow> 'a CircularQueue" where
  "cq_clear q = erase_front (unat (cq_size q)) q"

definition cq_at :: "'a CircularQueue \<Rightarrow> u64 \<Rightarrow> 'a option" where
  "cq_at q idx = cq_entries q ! cq_Get q (cq_begin q + idx)"

text \<open>The move constructor: the new queue and the queue moved from, which is made a fresh one.\<close>

definition cq_move :: "u64 \<Rightarrow> 'a CircularQueue \<Rightarrow> ('a CircularQueue \<times> 'a CircularQueue) option" where
  "cq_move sizeof_T other = map_option (\<lambda>fresh. (other, fresh)) (CircularQueue sizeof_T 1024)"

subsection \<open>Iterators\<close>

text \<open>An iterator is its position.\<close>

type_synonym cq_iter = u64

definition cq_begin_iter :: "'a CircularQueue \<Rightarrow> cq_iter" where
  "cq_begin_iter q = cq_begin q"

definition cq_end_iter :: "'a CircularQueue \<Rightarrow> cq_iter" where
  "cq_end_iter q = cq_end q"

definition iter_Add :: "cq_iter \<Rightarrow> i64 \<Rightarrow> cq_iter" where
  "iter_Add pos offset = pos + offset"

definition iter_inc :: "cq_iter \<Rightarrow> cq_iter" where
  "iter_inc pos = iter_Add pos 1"

definition iter_dec :: "cq_iter \<Rightarrow> cq_iter" where
  "iter_dec pos = iter_Add pos (- 1)"

definition iter_less :: "cq_iter \<Rightarrow> cq_iter \<Rightarrow> bool" where
  "iter_less lhs rhs \<longleftrightarrow> lhs < rhs"

definition iter_deref :: "'a CircularQueue \<Rightarrow> cq_iter \<Rightarrow> 'a option" where
  "iter_deref q pos = cq_entries q ! cq_Get q pos"

definition iter_minus :: "cq_iter \<Rightarrow> cq_iter \<Rightarrow> i64" where
  "iter_minus lhs rhs = lhs - rhs"

definition cq_front :: "'a CircularQueue \<Rightarrow> 'a option" where
  "cq_front q = iter_deref q (cq_begin_iter q)"

definition cq_back :: "'a CircularQueue \<Rightarrow> 'a option" where
  "cq_back q = iter_deref q (iter_dec (cq_end_iter q))"

subsection \<open>The invariant and the list a queue stands for\<close>

definition cq_wf :: "'a CircularQueue \<Rightarrow> bool" where
  "cq_wf q \<longleftrightarrow>
     (\<exists>k < 64. cq_capacity q = 2 ^ k) \<and> length (cq_entries q) = unat (cq_capacity q) \<and>
     unat (cq_begin q) \<le> unat (cq_end q) \<and> unat (cq_end q) - unat (cq_begin q) \<le> unat (cq_capacity q) \<and>
     (\<forall>p. unat (cq_begin q) \<le> p \<and> p < unat (cq_end q) \<longrightarrow> cq_entries q ! (p mod unat (cq_capacity q)) \<noteq> None)"

definition cq_list :: "'a CircularQueue \<Rightarrow> 'a list" where
  "cq_list q = map (\<lambda>p. the (cq_entries q ! (p mod unat (cq_capacity q)))) [unat (cq_begin q) ..< unat (cq_end q)]"

lemma length_cq_list [simp]: "length (cq_list q) = unat (cq_end q) - unat (cq_begin q)"
  by (simp add: cq_list_def)

lemma unat_pow2: "k < 64 \<Longrightarrow> unat ((2 :: u64) ^ k) = 2 ^ k"
  using unat_of_nat_u64 [of "2 ^ k"] power_strict_increasing [of k 64 "2 :: nat"] by simp

lemma cq_Get_mod:
  assumes "cq_wf q"
  shows "cq_Get q pos = unat pos mod unat (cq_capacity q)"
proof -
  from assms obtain k where k: "k < 64" "cq_capacity q = 2 ^ k" by (auto simp: cq_wf_def)
  then have "cq_Get q pos = unat (take_bit k pos)"
    by (simp add: cq_Get_def take_bit_eq_mask mask_eq_exp_minus_1)
  also have "\<dots> = unat pos mod 2 ^ k" by (simp add: unsigned_take_bit_eq take_bit_nat_def)
  finally show ?thesis using k by (simp add: unat_pow2)
qed

lemma cq_size_unat:
  assumes "cq_wf q"
  shows "unat (cq_size q) = length (cq_list q)"
  using assms by (simp add: cq_wf_def cq_size_def unat_sub word_le_nat_alt)

lemma cq_slot:
  assumes "cq_wf q" and "i < length (cq_list q)"
  shows "cq_entries q ! ((unat (cq_begin q) + i) mod unat (cq_capacity q)) = Some (cq_list q ! i)"
proof -
  from assms have "cq_entries q ! ((unat (cq_begin q) + i) mod unat (cq_capacity q)) \<noteq> None"
    by (simp add: cq_wf_def)
  with assms(2) show ?thesis by (auto simp: cq_list_def)
qed

lemma unat_plus_1: "unat (x :: u64) + 1 < 2 ^ 64 \<Longrightarrow> unat (x + 1) = unat x + 1"
  by (simp add: unat_word_ariths)

lemma cq_listI:
  assumes "cq_wf q" and "length xs = unat (cq_end q) - unat (cq_begin q)"
    and "\<And>i. i < length xs \<Longrightarrow> cq_entries q ! ((unat (cq_begin q) + i) mod unat (cq_capacity q)) = Some (xs ! i)"
  shows "cq_list q = xs"
  using assms by (intro nth_equalityI) (auto simp: cq_list_def)

text \<open>Two live positions never share a slot.\<close>

lemma mod_distinct:
  assumes "(p :: nat) < p'" and "p' < p + c"
  shows "p mod c \<noteq> p' mod c"
proof
  assume "p mod c = p' mod c"
  then have "c dvd p' - p" using assms mod_eq_dvd_iff_nat [of p p' c] by simp
  with assms show False by (auto dest!: dvd_imp_le)
qed

lemma cq_slots_distinct:
  assumes "cq_wf q" and "i < length (cq_list q)" and "unat (cq_end q) < unat (cq_begin q) + unat (cq_capacity q)"
  shows "(unat (cq_begin q) + i) mod unat (cq_capacity q) \<noteq> unat (cq_end q) mod unat (cq_capacity q)"
  using assms by (intro mod_distinct) auto

subsection \<open>Growing\<close>

lemma cq_moved:
  assumes "cq_wf q"
  shows "map (\<lambda>i. cq_entries q ! cq_Get q i) (cq_positions q) = map Some (cq_list q)"
proof (rule nth_equalityI)
  fix i assume "i < length (map (\<lambda>i. cq_entries q ! cq_Get q i) (cq_positions q))"
  then have i: "i < length (cq_list q)" by (simp add: cq_positions_def)
  then have "unat (word_of_nat (unat (cq_begin q) + i) :: u64) = unat (cq_begin q) + i"
    using unsigned_less [of "cq_end q", where ?'a = nat] by (intro unat_of_nat_u64) simp
  with i cq_slot [OF assms i]
  show "map (\<lambda>i. cq_entries q ! cq_Get q i) (cq_positions q) ! i = map Some (cq_list q) ! i"
    by (simp add: cq_positions_def cq_Get_mod [OF assms])
qed (simp add: cq_positions_def)

lemma cq_Grow_full:
  assumes wf: "cq_wf q" and full: "cq_size q = cq_capacity q" and sz: "2 \<le> unat sizeof_T"
    and mem: "unat (cq_capacity q) * 2 * unat sizeof_T < 2 ^ 64"
  shows "\<exists>q'. cq_Grow sizeof_T 0 q = Some q' \<and> cq_wf q' \<and> cq_list q' = cq_list q \<and>
    unat (cq_capacity q') = 2 * unat (cq_capacity q) \<and> unat (cq_end q') = length (cq_list q) \<and> cq_begin q' = 0"
proof -
  from wf obtain k where k: "k < 64" "cq_capacity q = 2 ^ k" by (auto simp: cq_wf_def)
  have c: "unat (cq_capacity q) = 2 ^ k" using k by (simp add: unat_pow2)
  have "2 ^ k * 2 * 2 \<le> unat (cq_capacity q) * 2 * unat sizeof_T" using sz c by simp
  with mem have "(2 :: nat) ^ (k + 2) < 2 ^ 64" by simp
  then have k': "k + 2 < 64" by (rule power_less_imp_less_exp [rotated]) simp
  then have c2: "cq_capacity q * 2 = 2 ^ Suc k" "unat ((2 :: u64) ^ Suc k) = 2 ^ Suc k"
    using k(2) unat_pow2 [of "Suc k"] by simp_all
  have pow: "(2 :: u64) ^ Suc k AND (2 ^ Suc k - 1) = 0"
    by (simp only: mask_eq_exp_minus_1 [symmetric] take_bit_eq_mask [symmetric]) (simp add: take_bit_eq_mod)
  have m: "unat ((2 :: u64) ^ Suc k * sizeof_T) = 2 ^ Suc k * unat sizeof_T"
    using mem c c2(2) by (simp add: unat_word_ariths)
  have n: "length (cq_list q) = 2 ^ k" using cq_size_unat [OF wf] full c by simp
  have u: "unat (word_of_nat (2 ^ k) :: u64) = 2 ^ k" using k unat_pow2 [of k] by simp
  have gt: "cq_capacity q < 2 ^ Suc k" "(2 :: u64) ^ Suc k < 2 ^ Suc k * sizeof_T" "(2 :: u64) ^ Suc k \<noteq> 0"
    using c c2(2) m sz by (auto simp: word_less_nat_alt unat_eq_0)
  let ?q' = "\<lparr>cq_entries = map Some (cq_list q) @ replicate (2 ^ k) None, cq_capacity = 2 ^ Suc k, cq_begin = 0,
     cq_end = word_of_nat (2 ^ k)\<rparr>"
  have g: "cq_Grow sizeof_T 0 q = Some ?q'"
    using gt pow c2 n by (simp add: cq_Grow_def Let_def cq_moved [OF wf] del: power_Suc) simp
  have pm: "(2 :: nat) ^ k + 2 ^ k = 2 ^ Suc k" "\<And>p. p < (2 :: nat) ^ k \<Longrightarrow> p mod 2 ^ Suc k = p" by simp_all
  have wf': "cq_wf ?q'"
    using k' n u c2(2) pm unfolding cq_wf_def by (auto simp: nth_append simp del: power_Suc intro!: exI [of _ "Suc k"])
  have "cq_list ?q' = cq_list q"
    using n u c2(2) pm by (intro cq_listI [OF wf']) (auto simp: nth_append simp del: power_Suc)
  with g wf' show ?thesis using u c c2(2) n by simp
qed

subsection \<open>Pushing and popping\<close>

lemma emplace_back_room:
  fixes q :: "'a CircularQueue" and x :: 'a
  assumes wf: "cq_wf q" and room: "length (cq_list q) < unat (cq_capacity q)" and e: "unat (cq_end q) + 1 < 2 ^ 64"
  defines "q' \<equiv> q\<lparr>cq_end := cq_end q + 1, cq_entries := (cq_entries q)[cq_Get q (cq_end q) := Some x]\<rparr>"
  shows "cq_wf q' \<and> cq_list q' = cq_list q @ [x]"
proof -
  let ?c = "unat (cq_capacity q)" and ?b = "unat (cq_begin q)" and ?e = "unat (cq_end q)"
  have u: "unat (cq_end q + 1) = ?e + 1" using unat_plus_1 [OF e] .
  have be: "?b \<le> ?e" "?e < ?b + ?c" "length (cq_entries q) = ?c" "0 < ?c" using wf room by (auto simp: cq_wf_def)
  have slot: "cq_entries q' ! ((?b + i) mod ?c) = Some ((cq_list q @ [x]) ! i)" if "i < length (cq_list q @ [x])" for i
  proof (cases "i < length (cq_list q)")
    case True
    with cq_slots_distinct [OF wf True be(2)] cq_slot [OF wf True] show ?thesis
      by (simp add: q'_def cq_Get_mod [OF wf] nth_append)
  next
    case False
    with that be(1) have i: "i = ?e - ?b" "?b + i = ?e" by simp_all
    with be(3,4) show ?thesis by (simp add: q'_def cq_Get_mod [OF wf] nth_append)
  qed
  have wf': "cq_wf q'"
    unfolding cq_wf_def
  proof (intro conjI allI impI)
    fix p assume p: "unat (cq_begin q') \<le> p \<and> p < unat (cq_end q')"
    then have "p - ?b < length (cq_list q @ [x])" using u be(1) by (simp add: q'_def) linarith
    from slot [OF this] p show "cq_entries q' ! (p mod unat (cq_capacity q')) \<noteq> None" by (simp add: q'_def)
  qed (use wf be u in \<open>auto simp: q'_def cq_wf_def\<close>)
  have "cq_list q' = cq_list q @ [x]"
    using slot be(1) u by (intro cq_listI [OF wf']) (simp_all add: q'_def)
  with wf' show ?thesis by simp
qed

text \<open>What keeps the checks of \<open>n\<close> more pushes quiet: the elements have at least two bytes, the array they
  need fits into the address space and the positions do not wrap.\<close>

definition cq_fits :: "u64 \<Rightarrow> nat \<Rightarrow> 'a CircularQueue \<Rightarrow> bool" where
  "cq_fits sizeof_T n q \<longleftrightarrow> 2 \<le> unat sizeof_T \<and> unat (cq_end q) + n < 2 ^ 64 \<and>
     max (unat (cq_capacity q)) (2 * (length (cq_list q) + n)) * unat sizeof_T < 2 ^ 64"

lemma emplace_back_list:
  assumes wf: "cq_wf q" and fits: "cq_fits sizeof_T (Suc n) q"
  shows "\<exists>q'. emplace_back sizeof_T x q = Some q' \<and> cq_wf q' \<and> cq_fits sizeof_T n q' \<and> cq_list q' = cq_list q @ [x]"
proof -
  let ?g = "\<lambda>q. q\<lparr>cq_end := cq_end q + 1, cq_entries := (cq_entries q)[cq_Get q (cq_end q) := Some x]\<rparr>"
  have push: "cq_wf (?g q1) \<and> cq_fits sizeof_T n (?g q1) \<and> cq_list (?g q1) = cq_list q @ [x]"
    if "cq_wf q1" "cq_fits sizeof_T (Suc n) q1" "cq_list q1 = cq_list q" "length (cq_list q1) < unat (cq_capacity q1)" for q1
  proof -
    have e: "unat (cq_end q1) + 1 < 2 ^ 64" using that(2) by (simp add: cq_fits_def)
    from emplace_back_room [OF that(1,4) e, of x] that(3)
    have l: "cq_wf (?g q1)" "cq_list (?g q1) = cq_list q1 @ [x]" by simp_all
    have "length (cq_list (?g q1)) + n = length (cq_list q1) + Suc n" unfolding l(2) by simp
    moreover have "unat (cq_end (?g q1)) + n = unat (cq_end q1) + Suc n" using unat_plus_1 [OF e] by simp
    ultimately have "cq_fits sizeof_T n (?g q1)"
      using that(2) unfolding cq_fits_def by (simp del: length_cq_list)
    with l that(3) show ?thesis by simp
  qed
  have cap: "length (cq_list q) \<le> unat (cq_capacity q)" using wf by (simp add: cq_wf_def)
  show ?thesis
  proof (cases "cq_capacity q \<le> cq_size q")
    case False
    with push [OF wf fits refl] cq_size_unat [OF wf] show ?thesis
      by (simp add: emplace_back_def word_le_nat_alt del: length_cq_list)
  next
    case True
    with cap cq_size_unat [OF wf] have full: "cq_size q = cq_capacity q" "length (cq_list q) = unat (cq_capacity q)"
      by (simp_all add: word_le_nat_alt word_unat_eq_iff)
    have "unat (cq_capacity q) * 2 * unat sizeof_T \<le> 2 * (length (cq_list q) + Suc n) * unat sizeof_T"
      using full(2) by (intro mult_le_mono1) simp
    also have "\<dots> \<le> max (unat (cq_capacity q)) (2 * (length (cq_list q) + Suc n)) * unat sizeof_T"
      by (intro mult_le_mono1) simp
    also have "\<dots> < 2 ^ 64" using fits unfolding cq_fits_def by blast
    finally have mem: "unat (cq_capacity q) * 2 * unat sizeof_T < 2 ^ 64" .
    have sz: "2 \<le> unat sizeof_T" using fits by (simp add: cq_fits_def)
    obtain q1 where q1: "cq_Grow sizeof_T 0 q = Some q1" "cq_wf q1" "cq_list q1 = cq_list q"
      "unat (cq_capacity q1) = 2 * unat (cq_capacity q)" "unat (cq_end q1) = length (cq_list q)"
      using cq_Grow_full [OF wf full(1) sz mem] by blast
    have "max (unat (cq_capacity q1)) (2 * (length (cq_list q1) + Suc n)) =
        max (unat (cq_capacity q)) (2 * (length (cq_list q) + Suc n))"
      unfolding q1(3,4) full(2) by simp
    moreover have "unat (cq_end q1) + Suc n < 2 ^ 64"
      using fits unfolding cq_fits_def q1(5) length_cq_list by linarith
    ultimately have "cq_fits sizeof_T (Suc n) q1" using fits by (simp only: cq_fits_def simp_thms)
    moreover have "0 < unat (cq_capacity q)" using wf by (auto simp: cq_wf_def unat_pow2)
    then have "length (cq_list q1) < unat (cq_capacity q1)" unfolding q1(3,4) full(2) by simp
    ultimately show ?thesis using push [OF q1(2) _ q1(3)] q1(1) True by (simp add: emplace_back_def)
  qed
qed

lemma erase_one:
  fixes q :: "'a CircularQueue"
  assumes wf: "cq_wf q" and ne: "cq_list q \<noteq> []"
  defines "q' \<equiv> q\<lparr>cq_entries := (cq_entries q)[cq_Get q (cq_begin q) := None], cq_begin := cq_begin q + 1\<rparr>"
  shows "cq_wf q' \<and> cq_list q' = tl (cq_list q)"
proof -
  let ?c = "unat (cq_capacity q)" and ?b = "unat (cq_begin q)" and ?e = "unat (cq_end q)"
  have be: "?b < ?e" using ne by (simp add: cq_list_def)
  have "?b + 1 < 2 ^ 64" using be unsigned_less [of "cq_end q", where ?'a = nat] by simp
  then have u: "unat (cq_begin q + 1) = ?b + 1" by (rule unat_plus_1)
  have le: "?e - ?b \<le> ?c" using wf by (simp add: cq_wf_def)
  have slot: "cq_entries q' ! ((?b + 1 + i) mod ?c) = Some (tl (cq_list q) ! i)" if "i < length (tl (cq_list q))" for i
  proof -
    have i: "Suc i < length (cq_list q)" using that by simp
    have "?b mod ?c \<noteq> (?b + Suc i) mod ?c" using i le by (intro mod_distinct) simp_all
    with cq_slot [OF wf i] i show ?thesis by (simp add: q'_def cq_Get_mod [OF wf] nth_tl)
  qed
  have wf': "cq_wf q'"
    unfolding cq_wf_def
  proof (intro conjI allI impI)
    fix p assume p: "unat (cq_begin q') \<le> p \<and> p < unat (cq_end q')"
    then have "p - (?b + 1) < length (tl (cq_list q))" "?b + 1 + (p - (?b + 1)) = p" using u by (simp_all add: q'_def) linarith
    from slot [OF this(1)] this(2) show "cq_entries q' ! (p mod unat (cq_capacity q')) \<noteq> None" by (simp add: q'_def)
  qed (use wf be u in \<open>auto simp: q'_def cq_wf_def\<close>)
  have "cq_list q' = tl (cq_list q)"
    using slot u by (intro cq_listI [OF wf']) (simp_all add: q'_def)
  with wf' show ?thesis by simp
qed

lemma erase_front_list:
  assumes "cq_wf q"
  shows "cq_wf (erase_front n q) \<and> cq_list (erase_front n q) = drop n (cq_list q) \<and>
    cq_end (erase_front n q) = cq_end q \<and> cq_capacity (erase_front n q) = cq_capacity q"
  using assms
proof (induction n q rule: erase_front.induct)
  case (2 n q)
  have lt: "cq_begin q < cq_end q \<longleftrightarrow> cq_list q \<noteq> []" by (auto simp: cq_list_def word_less_nat_alt)
  show ?case
  proof (cases "cq_begin q < cq_end q")
    case True
    with erase_one [OF "2.prems"] lt "2.IH" [OF True] show ?thesis by (simp add: drop_Suc)
  next
    case False
    with lt "2.prems" show ?thesis by simp
  qed
qed simp

lemma erase_front_fits: "cq_wf q \<Longrightarrow> cq_fits sizeof_T n q \<Longrightarrow> cq_fits sizeof_T n (erase_front k q)"
proof -
  assume wf: "cq_wf q" and f: "cq_fits sizeof_T n q"
  have "length (cq_list (erase_front k q)) \<le> length (cq_list q)"
    using erase_front_list [OF wf, of k] by (metis diff_le_self length_drop)
  then have "max (unat (cq_capacity q)) (2 * (length (cq_list (erase_front k q)) + n)) * unat sizeof_T
      \<le> max (unat (cq_capacity q)) (2 * (length (cq_list q) + n)) * unat sizeof_T" by (intro mult_le_mono1) simp
  from le_less_trans [OF this] f erase_front_list [OF wf, of k] show ?thesis by (simp only: cq_fits_def simp_thms)
qed

lemma CircularQueue_pow2:
  assumes k: "k < 64" and sz: "2 \<le> unat sizeof_T" and mem: "2 ^ k * unat sizeof_T < 2 ^ 64"
  shows "\<exists>q :: 'a CircularQueue. CircularQueue sizeof_T (2 ^ k) = Some q \<and> cq_wf q \<and> cq_list q = [] \<and> cq_end q = 0 \<and> unat (cq_capacity q) = 2 ^ k"
proof -
  note u = unat_pow2 [OF k]
  let ?q = "\<lparr>cq_entries = replicate (2 ^ k) None, cq_capacity = 2 ^ k, cq_begin = 0, cq_end = 0\<rparr> :: 'a CircularQueue"
  have pow: "(2 :: u64) ^ k AND (2 ^ k - 1) = 0"
    by (simp only: mask_eq_exp_minus_1 [symmetric] take_bit_eq_mask [symmetric]) (simp add: take_bit_eq_mod)
  have "unat ((2 :: u64) ^ k * sizeof_T) = 2 ^ k * unat sizeof_T" using mem u by (simp add: unat_word_ariths)
  then have gt: "(2 :: u64) ^ k < 2 ^ k * sizeof_T" "(2 :: u64) ^ k \<noteq> 0" "0 < (2 :: u64) ^ k"
    using u sz k by (auto simp: word_less_nat_alt unat_eq_0)
  have "CircularQueue sizeof_T (2 ^ k) = Some ?q"
    using gt pow u by (simp add: CircularQueue_def cq_Grow_def cq_zero_def cq_positions_def Let_def)
  moreover have "cq_wf ?q" "cq_list ?q = []" using k u by (auto simp: cq_wf_def cq_list_def)
  ultimately show ?thesis using u by simp
qed

subsection \<open>Queues as clients see them\<close>

datatype 'a queue_op = Push 'a | Erase nat | Clear

fun list_run :: "'a queue_op list \<Rightarrow> 'a list \<Rightarrow> 'a list" where
  "list_run [] xs = xs"
| "list_run (Push x # ops) xs = list_run ops (xs @ [x])"
| "list_run (Erase n # ops) xs = list_run ops (drop n xs)"
| "list_run (Clear # ops) xs = list_run ops []"

fun pushes :: "'a queue_op list \<Rightarrow> nat" where
  "pushes [] = 0"
| "pushes (Push x # ops) = Suc (pushes ops)"
| "pushes (Erase n # ops) = pushes ops"
| "pushes (Clear # ops) = pushes ops"

fun queue_run :: "('a \<Rightarrow> 'q \<Rightarrow> 'q option) \<Rightarrow> (nat \<Rightarrow> 'q \<Rightarrow> 'q) \<Rightarrow> ('q \<Rightarrow> 'q) \<Rightarrow> 'a queue_op list \<Rightarrow> 'q \<Rightarrow> 'q option" where
  "queue_run push erase clear [] q = Some q"
| "queue_run push erase clear (Push x # ops) q = Option.bind (push x q) (queue_run push erase clear ops)"
| "queue_run push erase clear (Erase n # ops) q = queue_run push erase clear ops (erase n q)"
| "queue_run push erase clear (Clear # ops) q = queue_run push erase clear ops (clear q)"

text \<open>The contract of a queue: \<open>items\<close> is the list it stands for, \<open>ok n\<close> its invariant with room for \<open>n\<close> more
  pushes.\<close>

locale fifo =
  fixes push :: "'a \<Rightarrow> 'q \<Rightarrow> 'q option" and erase :: "nat \<Rightarrow> 'q \<Rightarrow> 'q" and clear :: "'q \<Rightarrow> 'q"
    and items :: "'q \<Rightarrow> 'a list" and ok :: "nat \<Rightarrow> 'q \<Rightarrow> bool"
  assumes push_items: "ok (Suc n) q \<Longrightarrow> \<exists>q'. push x q = Some q' \<and> ok n q' \<and> items q' = items q @ [x]"
    and erase_items: "ok n q \<Longrightarrow> ok n (erase k q) \<and> items (erase k q) = drop k (items q)"
    and clear_items: "ok n q \<Longrightarrow> ok n (clear q) \<and> items (clear q) = []"
begin

lemma run_items:
  "ok (pushes ops) q \<Longrightarrow> \<exists>q'. queue_run push erase clear ops q = Some q' \<and> ok 0 q' \<and> items q' = list_run ops (items q)"
proof (induction ops arbitrary: q)
  case (Cons op ops)
  show ?case
  proof (cases op)
    case (Push x)
    with Cons.prems obtain q' where q': "push x q = Some q'" "ok (pushes ops) q'" "items q' = items q @ [x]"
      using push_items [of "pushes ops" q x] by auto
    from Cons.IH [OF q'(2)] q' show ?thesis by (simp add: Push)
  next
    case (Erase n)
    with Cons.prems have "ok (pushes ops) (erase n q)" "items (erase n q) = drop n (items q)"
      using erase_items [of "pushes ops" q n] by simp_all
    with Cons.IH [OF this(1)] show ?thesis by (simp add: Erase)
  next
    case Clear
    with Cons.prems have "ok (pushes ops) (clear q)" "items (clear q) = []"
      using clear_items [of "pushes ops" q] by simp_all
    with Cons.IH [OF this(1)] show ?thesis by (simp add: Clear)
  qed
qed simp

end

interpretation cq: fifo "emplace_back sizeof_T" erase_front cq_clear cq_list "\<lambda>n q. cq_wf q \<and> cq_fits sizeof_T n q" for sizeof_T
proof unfold_locales
  show "cq_wf q \<and> cq_fits sizeof_T (Suc n) q \<Longrightarrow>
      \<exists>q'. emplace_back sizeof_T x q = Some q' \<and> (cq_wf q' \<and> cq_fits sizeof_T n q') \<and> cq_list q' = cq_list q @ [x]" for n q and x :: 'a
    using emplace_back_list [of q sizeof_T n x] by blast
  show "cq_wf q \<and> cq_fits sizeof_T n q \<Longrightarrow>
      (cq_wf (erase_front k q) \<and> cq_fits sizeof_T n (erase_front k q)) \<and> cq_list (erase_front k q) = drop k (cq_list q)"
    for n k and q :: "'a CircularQueue"
    using erase_front_list [of q k] erase_front_fits [of q sizeof_T n k] by blast
  show "cq_wf q \<and> cq_fits sizeof_T n q \<Longrightarrow> (cq_wf (cq_clear q) \<and> cq_fits sizeof_T n (cq_clear q)) \<and> cq_list (cq_clear q) = []"
    for n and q :: "'a CircularQueue"
    using erase_front_list [of q "unat (cq_size q)"] erase_front_fits [of q sizeof_T n "unat (cq_size q)"] cq_size_unat [of q]
    by (simp add: cq_clear_def)
qed

subsection \<open>Observing a queue\<close>

text \<open>\<open>cq_shows q xs\<close>: everything a client can read from the queue, by index or by iterator, is that of the list \<open>xs\<close>.\<close>

definition cq_shows :: "'a CircularQueue \<Rightarrow> 'a list \<Rightarrow> bool" where
  "cq_shows q xs \<longleftrightarrow>
     unat (cq_size q) = length xs \<and> cq_empty q = (xs = []) \<and>
     (\<forall>i < length xs. cq_at q (word_of_nat i) = Some (xs ! i)) \<and>
     (xs \<noteq> [] \<longrightarrow> cq_front q = Some (hd xs) \<and> cq_back q = Some (last xs)) \<and>
     map (\<lambda>i. iter_deref q ((iter_inc ^^ i) (cq_begin_iter q))) [0 ..< length xs] = map Some xs \<and>
     (iter_inc ^^ length xs) (cq_begin_iter q) = cq_end_iter q \<and>
     iter_less (cq_begin_iter q) (cq_end_iter q) = (xs \<noteq> []) \<and>
     iter_minus (cq_end_iter q) (cq_begin_iter q) = cq_size q"

lemma cq_pos:
  assumes "cq_wf q" and "i \<le> length (cq_list q)"
  shows "unat (cq_begin q + word_of_nat i) = unat (cq_begin q) + i"
proof -
  have "unat (cq_begin q) \<le> unat (cq_end q)" using assms(1) by (simp add: cq_wf_def)
  with assms(2) have lt: "unat (cq_begin q) + i < 2 ^ 64"
    using unsigned_less [of "cq_end q", where ?'a = nat] by simp
  then have "unat (word_of_nat i :: u64) = i" by (intro unat_of_nat_u64) simp
  with lt show ?thesis by (simp add: unat_word_ariths)
qed

lemma iter_inc_power: "(iter_inc ^^ i) p = p + word_of_nat i"
  by (induction i) (simp_all add: iter_inc_def iter_Add_def)

lemma cq_wf_shows:
  assumes wf: "cq_wf q"
  shows "cq_shows q (cq_list q)"
proof -
  have at: "cq_entries q ! cq_Get q (cq_begin q + word_of_nat i) = Some (cq_list q ! i)" if "i < length (cq_list q)" for i
    using that cq_slot [OF wf that] cq_pos [OF wf, of i] by (simp add: cq_Get_mod [OF wf])
  have "cq_front q = Some (hd (cq_list q))" if "cq_list q \<noteq> []"
    using at [of 0] that by (simp add: cq_front_def iter_deref_def cq_begin_iter_def hd_conv_nth del: length_cq_list)
  moreover have fin: "cq_begin q + word_of_nat (length (cq_list q)) = cq_end q"
    using cq_pos [OF wf, of "length (cq_list q)"] wf by (simp add: word_unat_eq_iff cq_wf_def)
  moreover have "cq_back q = Some (last (cq_list q))" if "cq_list q \<noteq> []"
  proof -
    obtain m where n: "length (cq_list q) = Suc m" using \<open>cq_list q \<noteq> []\<close> by (cases "length (cq_list q)") (auto simp del: length_cq_list)
    have "cq_end q - 1 = cq_begin q + word_of_nat m" using fin [symmetric] by (simp add: n del: length_cq_list)
    moreover have "last (cq_list q) = cq_list q ! m" using n by (simp add: last_conv_nth [OF that] del: length_cq_list)
    ultimately show ?thesis
      using at [of m] n by (simp add: cq_back_def iter_deref_def iter_dec_def iter_Add_def cq_end_iter_def del: length_cq_list)
  qed
  moreover have "cq_size q = 0 \<longleftrightarrow> cq_list q = []"
    using cq_size_unat [OF wf] by (metis length_0_conv unat_eq_0)
  moreover have "map (\<lambda>i. iter_deref q ((iter_inc ^^ i) (cq_begin_iter q))) [0 ..< length (cq_list q)] = map Some (cq_list q)"
    using at by (intro nth_equalityI) (simp_all add: iter_deref_def iter_inc_power cq_begin_iter_def del: length_cq_list)
  moreover have "iter_less (cq_begin_iter q) (cq_end_iter q) = (cq_list q \<noteq> [])"
    by (simp add: iter_less_def cq_begin_iter_def cq_end_iter_def word_less_nat_alt cq_list_def) linarith
  ultimately show ?thesis
    using at cq_size_unat [OF wf] unfolding cq_shows_def cq_empty_def cq_at_def
    by (simp add: iter_inc_power cq_begin_iter_def cq_end_iter_def iter_minus_def cq_size_def del: length_cq_list)
qed

subsection \<open>Properties\<close>

text \<open>C19 circular_queue_is_a_queue: a queue made with a capacity that is a power of two behaves as a list under every sequence of pushes,
  erasures from the front and clearing, across growing and wrapping around: no check fails, and everything that can be
  read by index or by iterator is that of the list. Elements have at least two bytes, and the array for the elements
  pushed has to fit into the address space.\<close>
theorem circular_queue_is_a_queue:
  fixes ops :: "'a queue_op list"
  assumes "k < 64" and "2 \<le> unat sizeof_T" and "pushes ops < 2 ^ 64" and "max (2 ^ k) (2 * pushes ops) * unat sizeof_T < 2 ^ 64"
  shows "\<exists>q0 q. CircularQueue sizeof_T (2 ^ k) = Some q0 \<and>
    queue_run (emplace_back sizeof_T) erase_front cq_clear ops q0 = Some q \<and> cq_shows q (list_run ops [])"
proof -
  have "2 ^ k * unat sizeof_T \<le> max (2 ^ k) (2 * pushes ops) * unat sizeof_T" by (intro mult_le_mono1) simp
  with assms(4) have "2 ^ k * unat sizeof_T < 2 ^ 64" by linarith
  from CircularQueue_pow2 [OF assms(1,2) this] obtain q0 :: "'a CircularQueue" where q0: "CircularQueue sizeof_T (2 ^ k) = Some q0" "cq_wf q0"
    "cq_list q0 = []" "cq_end q0 = 0" "unat (cq_capacity q0) = 2 ^ k" by blast
  with assms have "cq_wf q0 \<and> cq_fits sizeof_T (pushes ops) q0" by (simp add: cq_fits_def del: length_cq_list)
  from cq.run_items [OF this] obtain q where "queue_run (emplace_back sizeof_T) erase_front cq_clear ops q0 = Some q"
    "cq_wf q" "cq_list q = list_run ops []" by (auto simp: q0(3))
  with q0(1) cq_wf_shows [of q] show ?thesis by auto
qed

theorem circular_queue_is_a_queue_witness:
  "\<exists>q0 q. CircularQueue 4 2 = Some q0 \<and>
     queue_run (emplace_back 4) erase_front cq_clear [Push 1, Push 2, Erase 1, Push 3, Push (4 :: nat), Erase 1] q0 = Some q \<and>
     cq_shows q [3, 4]"
proof -
  let ?ops = "[Push 1, Push 2, Erase 1, Push 3, Push (4 :: nat), Erase 1]"
  have "(1 :: nat) < 64" "2 \<le> unat (4 :: u64)" "pushes ?ops < 2 ^ 64" "max (2 ^ 1) (2 * pushes ?ops) * unat (4 :: u64) < 2 ^ 64"
    by simp_all
  from circular_queue_is_a_queue [OF this] show ?thesis by simp
qed

end
