(* ===== verification/String_Splitter.thy ===== *)
theory String_Splitter
  imports VP_Prelude
begin

section \<open>Splitting strings in place (ext/base/string_splitter.h, base/string_splitter.cc)\<close>

text \<open>
  \<open>StringSplitter\<close> walks a buffer and overwrites the delimiter after a token with a null character. The buffer lies
  in a memory that is passed through, since a splitter for a token of another splitter works on the same bytes; pointers are
  indexes. \<open>None\<close> is an access outside the memory.
\<close>

record StringSplitter =
  ss_cur :: "nat option"
  ss_cur_size :: nat
  ss_next :: nat
  ss_end :: nat
  ss_delimiter :: u8

definition ss_Initialize :: "memory \<Rightarrow> nat \<Rightarrow> nat \<Rightarrow> u8 \<Rightarrow> memory \<times> StringSplitter" where
  "ss_Initialize mem str sz delimiter =
     (if sz \<noteq> 0 then mem[str + sz - 1 := 0] else mem,
      \<lparr>ss_cur = None, ss_cur_size = 0, ss_next = str, ss_end = str + sz, ss_delimiter = delimiter\<rparr>)"

text \<open>The constructor from a \<^verbatim>\<open>std::string\<close>, whose characters are followed by a null, and that from a token of another splitter.\<close>

definition ss_of_string :: "u8 list \<Rightarrow> u8 \<Rightarrow> memory \<times> StringSplitter" where
  "ss_of_string str delimiter = ss_Initialize (str @ [0]) 0 (length str + 1) delimiter"

definition ss_of_token :: "memory \<Rightarrow> StringSplitter \<Rightarrow> u8 \<Rightarrow> (memory \<times> StringSplitter) option" where
  "ss_of_token mem outer delimiter =
     map_option (\<lambda>cur. ss_Initialize mem cur (ss_cur_size outer + 1) delimiter) (ss_cur outer)"

text \<open>The loops of \<open>Next\<close>: skipping delimiters, and looking for the end of the token.\<close>

function ss_skip :: "memory \<Rightarrow> u8 \<Rightarrow> nat \<Rightarrow> nat \<Rightarrow> nat" where
  "ss_skip mem delimiter p fin =
     (if p < fin then (if mem ! p = delimiter then ss_skip mem delimiter (Suc p) fin else p) else p)"
  by pat_completeness auto
termination by (relation "measure (\<lambda>(mem, delimiter, p, fin). fin - p)") auto

function ss_scan :: "memory \<Rightarrow> u8 \<Rightarrow> nat \<Rightarrow> nat option" where
  "ss_scan mem delimiter p =
     (if p < length mem
      then (if mem ! p = delimiter then Some p else if mem ! p = 0 then Some p else ss_scan mem delimiter (Suc p))
      else None)"
  by pat_completeness auto
termination by (relation "measure (\<lambda>(mem, delimiter, p). length mem - p)") auto

declare ss_skip.simps [simp del] ss_scan.simps [simp del]

definition ss_Next :: "memory \<Rightarrow> StringSplitter \<Rightarrow> (bool \<times> memory \<times> StringSplitter) option" where
  "ss_Next mem ss =
     (let p = ss_skip mem (ss_delimiter ss) (ss_next ss) (ss_end ss) in
      if p < ss_end ss then
        (case ss_scan mem (ss_delimiter ss) p of
           None \<Rightarrow> None
         | Some q \<Rightarrow>
             (let (mem', nxt) = (if mem ! q = ss_delimiter ss then (mem[q := 0], Suc q) else (mem, ss_end ss)) in
              if mem' ! p \<noteq> 0 then Some (True, mem', ss\<lparr>ss_cur := Some p, ss_cur_size := q - p, ss_next := nxt\<rparr>)
              else Some (False, mem', ss\<lparr>ss_cur := None, ss_cur_size := 0, ss_next := nxt\<rparr>)))
      else Some (False, mem, ss\<lparr>ss_cur := None, ss_cur_size := 0, ss_next := p\<rparr>))"

text \<open>The client's loop \<^verbatim>\<open>while (ss.Next())\<close>, at most \<open>fuel\<close> times: the tokens, the memory and the splitter left; in the
  end \<open>Next\<close> has returned false.\<close>

fun ss_loop :: "nat \<Rightarrow> memory \<Rightarrow> StringSplitter \<Rightarrow> (u8 list list \<times> memory \<times> StringSplitter) option" where
  "ss_loop 0 mem ss = None"
| "ss_loop (Suc fuel) mem ss =
     (case ss_Next mem ss of
        None \<Rightarrow> None
      | Some (found, mem', ss') \<Rightarrow>
          if found then
            map_option (\<lambda>(ts, r). (mem_range mem' (the (ss_cur ss')) (the (ss_cur ss') + ss_cur_size ss') # ts, r))
              (ss_loop fuel mem' ss')
          else Some ([], mem', ss'))"

subsection \<open>The tokens of a string\<close>

text \<open>The nonempty parts between delimiters; unless the delimiter is the null character, the string ends at the first null.\<close>

function tokens :: "u8 \<Rightarrow> u8 list \<Rightarrow> u8 list list" where
  "tokens d xs =
     (case dropWhile (\<lambda>c. c = d) xs of [] \<Rightarrow> []
      | y # ys \<Rightarrow> (y # takeWhile (\<lambda>c. c \<noteq> d) ys) # tokens d (dropWhile (\<lambda>c. c \<noteq> d) ys))"
  by pat_completeness auto
termination
proof (relation "measure (\<lambda>(d, xs). length xs)")
  fix d xs y and ys :: "u8 list"
  assume e: "dropWhile (\<lambda>c. c = d) xs = y # ys"
  have "length (dropWhile (\<lambda>c. c \<noteq> d) ys) \<le> length ys" by (rule length_dropWhile_le)
  also have "\<dots> < length (dropWhile (\<lambda>c. c = d) xs)" by (simp add: e)
  also have "\<dots> \<le> length xs" by (rule length_dropWhile_le)
  finally show "((d, dropWhile (\<lambda>c. c \<noteq> d) ys), d, xs) \<in> measure (\<lambda>(d, xs). length xs)" by simp
qed simp

declare tokens.simps [simp del]

definition c_string :: "u8 \<Rightarrow> u8 list \<Rightarrow> u8 list" where
  "c_string d xs = (if d = 0 then xs else takeWhile (\<lambda>c. c \<noteq> 0) xs)"

lemma tokens_Nil [simp]: "tokens d [] = []"
  by (simp add: tokens.simps)

lemma tokens_delimiter: "tokens d (d # xs) = tokens d xs"
  by (subst (1 2) tokens.simps) simp

lemma tokens_token:
  assumes "x \<noteq> d" and "\<forall>c \<in> set xs. c \<noteq> d"
  shows "tokens d (x # xs) = [x # xs]" "tokens d (x # xs @ d # ys) = (x # xs) # tokens d ys"
proof -
  have t: "takeWhile (\<lambda>c. c \<noteq> d) xs = xs" "dropWhile (\<lambda>c. c \<noteq> d) xs = []"
    using assms(2) by (simp_all add: takeWhile_eq_all_conv)
  show "tokens d (x # xs) = [x # xs]" using assms(1) by (subst tokens.simps) (simp add: t)
  show "tokens d (x # xs @ d # ys) = (x # xs) # tokens d ys"
    using assms t by (subst tokens.simps) (simp add: takeWhile_append dropWhile_append tokens_delimiter)
qed

subsection \<open>The loops\<close>

lemma ss_skip_range:
  assumes "p \<le> fin" and "fin \<le> length mem"
  shows "p \<le> ss_skip mem d p fin \<and> ss_skip mem d p fin \<le> fin \<and>
    (ss_skip mem d p fin < fin \<longrightarrow> mem ! ss_skip mem d p fin \<noteq> d) \<and>
    mem_range mem p fin = replicate (ss_skip mem d p fin - p) d @ mem_range mem (ss_skip mem d p fin) fin"
  using assms
proof (induction mem d p fin rule: ss_skip.induct)
  case (1 mem d p fin)
  show ?case
  proof (cases "p < fin \<and> mem ! p = d")
    case True
    then have s: "ss_skip mem d p fin = ss_skip mem d (Suc p) fin" by (subst ss_skip.simps) simp
    from "1.IH" True "1.prems" have ih: "Suc p \<le> ss_skip mem d (Suc p) fin \<and> ss_skip mem d (Suc p) fin \<le> fin \<and>
      (ss_skip mem d (Suc p) fin < fin \<longrightarrow> mem ! ss_skip mem d (Suc p) fin \<noteq> d) \<and>
      mem_range mem (Suc p) fin = replicate (ss_skip mem d (Suc p) fin - Suc p) d @ mem_range mem (ss_skip mem d (Suc p) fin) fin"
      by simp
    moreover have "mem_range mem p fin = d # mem_range mem (Suc p) fin" using True "1.prems" by (simp add: mem_range_Cons)
    moreover have "ss_skip mem d (Suc p) fin - p = Suc (ss_skip mem d (Suc p) fin - Suc p)" using ih by linarith
    ultimately show ?thesis unfolding s by simp
  next
    case False
    then have "ss_skip mem d p fin = p" by (subst ss_skip.simps) auto
    with False "1.prems" show ?thesis by auto
  qed
qed

lemma ss_scan_range:
  assumes "p < fin" and "fin \<le> length mem" and "mem ! (fin - 1) = 0"
  shows "\<exists>q. ss_scan mem d p = Some q \<and> p \<le> q \<and> q < fin \<and> (mem ! q = d \<or> mem ! q = 0) \<and>
    (\<forall>c \<in> set (mem_range mem p q). c \<noteq> d \<and> c \<noteq> 0)"
  using assms
proof (induction mem d p rule: ss_scan.induct)
  case (1 mem d p)
  show ?case
  proof (cases "mem ! p = d \<or> mem ! p = 0")
    case True
    with "1.prems" have "ss_scan mem d p = Some p" by (subst ss_scan.simps) auto
    with True "1.prems" show ?thesis by auto
  next
    case False
    with "1.prems" have s: "ss_scan mem d p = ss_scan mem d (Suc p)" by (subst ss_scan.simps) auto
    have "Suc p < fin" using False "1.prems" by (metis Suc_lessI diff_Suc_1)
    with "1.IH" False "1.prems" obtain q where q: "ss_scan mem d (Suc p) = Some q" "Suc p \<le> q" "q < fin"
      "mem ! q = d \<or> mem ! q = 0" "\<forall>c \<in> set (mem_range mem (Suc p) q). c \<noteq> d \<and> c \<noteq> 0" by auto
    moreover have "mem_range mem p q = mem ! p # mem_range mem (Suc p) q" using q "1.prems" by (simp add: mem_range_Cons)
    ultimately show ?thesis unfolding s using False by auto
  qed
qed

lemma tokens_delimiters: "tokens d (replicate k d @ xs) = tokens d xs"
  by (induction k) (simp_all add: tokens_delimiter)

lemma c_string_append: "\<forall>c \<in> set xs. d \<noteq> 0 \<longrightarrow> c \<noteq> 0 \<Longrightarrow> c_string d (xs @ ys) = xs @ c_string d ys"
  by (simp add: c_string_def takeWhile_append2)

lemma c_string_Nil [simp]: "c_string d [] = []"
  by (simp add: c_string_def)

lemma c_string_null: "d \<noteq> 0 \<Longrightarrow> c_string d (0 # xs) = []"
  by (simp add: c_string_def)

text \<open>One call of \<open>Next\<close>: a token, or no more tokens.\<close>

lemma ss_Next_cases:
  assumes "ss_next ss \<le> ss_end ss" and "ss_end ss \<le> length mem" and "ss_next ss < ss_end ss \<longrightarrow> mem ! (ss_end ss - 1) = 0"
  obtains (none) nxt where "ss_Next mem ss = Some (False, mem, ss\<lparr>ss_cur := None, ss_cur_size := 0, ss_next := nxt\<rparr>)"
      "tokens (ss_delimiter ss) (c_string (ss_delimiter ss) (mem_range mem (ss_next ss) (ss_end ss))) = []"
  | (token) p q mem' nxt where "ss_Next mem ss = Some (True, mem', ss\<lparr>ss_cur := Some p, ss_cur_size := q - p, ss_next := nxt\<rparr>)"
      "ss_next ss \<le> p" "p < q" "q < ss_end ss" "q < nxt" "nxt \<le> ss_end ss" "mem' = mem[q := 0]"
      "tokens (ss_delimiter ss) (c_string (ss_delimiter ss) (mem_range mem (ss_next ss) (ss_end ss))) =
         mem_range mem p q # tokens (ss_delimiter ss) (c_string (ss_delimiter ss) (mem_range mem nxt (ss_end ss)))"
proof -
  let ?d = "ss_delimiter ss" and ?b = "ss_next ss" and ?e = "ss_end ss"
  let ?p = "ss_skip mem ?d ?b ?e"
  note sk = ss_skip_range [OF assms(1,2), of ?d]
  have rng: "tokens ?d (c_string ?d (mem_range mem ?b ?e)) = tokens ?d (c_string ?d (mem_range mem ?p ?e))"
    using sk c_string_append [of "replicate (?p - ?b) ?d" ?d] by (simp add: tokens_delimiters)
  show thesis
  proof (cases "?p < ?e")
    case False
    then have "ss_Next mem ss = Some (False, mem, ss\<lparr>ss_cur := None, ss_cur_size := 0, ss_next := ?p\<rparr>)"
      by (simp add: ss_Next_def Let_def)
    with rng False show ?thesis by (intro none) auto
  next
    case True
    with sk assms have e0: "mem ! (?e - 1) = 0" "mem ! ?p \<noteq> ?d" by auto
    from ss_scan_range [OF True assms(2) e0(1), of ?d] obtain q where q: "ss_scan mem ?d ?p = Some q" "?p \<le> q" "q < ?e"
      "mem ! q = ?d \<or> mem ! q = 0" "\<forall>c \<in> set (mem_range mem ?p q). c \<noteq> ?d \<and> c \<noteq> 0" by blast
    have split: "mem_range mem ?p ?e = mem_range mem ?p q @ mem ! q # mem_range mem (Suc q) ?e"
      using mem_range_append [of ?p q ?e mem] mem_range_Cons [of q ?e mem] q(2,3) assms(2) by simp
    have xs: "c_string ?d (mem_range mem ?p ?e) = mem_range mem ?p q @ c_string ?d (mem ! q # mem_range mem (Suc q) ?e)"
      unfolding split using q(5) by (intro c_string_append) auto
    show ?thesis
    proof (cases "?p = q")
      case here: True
      with e0 q(4) have z: "mem ! q = 0" "?d \<noteq> 0" by auto
      then have "ss_Next mem ss = Some (False, mem, ss\<lparr>ss_cur := None, ss_cur_size := 0, ss_next := ?e\<rparr>)"
        using True q(1) here e0(2) by (simp add: ss_Next_def Let_def)
      moreover have "tokens ?d (c_string ?d (mem_range mem ?b ?e)) = []"
        unfolding rng xs using z here by (simp add: c_string_null)
      ultimately show ?thesis by (rule none)
    next
      case False
      with q(2) have lt: "?p < q" by simp
      have cons: "mem_range mem ?p q = mem ! ?p # mem_range mem (Suc ?p) q" using lt q(3) assms(2) by (simp add: mem_range_Cons)
      have nz: "mem ! ?p \<noteq> 0" "\<forall>c \<in> set (mem_range mem (Suc ?p) q). c \<noteq> ?d" using q(5) by (simp_all add: cons)
      note tk = tokens_token [OF e0(2) nz(2), folded cons append_Cons, folded cons]
      show ?thesis
      proof (cases "mem ! q = ?d")
        case dl: True
        have "ss_Next mem ss = Some (True, mem[q := 0], ss\<lparr>ss_cur := Some ?p, ss_cur_size := q - ?p, ss_next := Suc q\<rparr>)"
          using True q(1) dl lt nz(1) by (simp add: ss_Next_def Let_def)
        moreover have "c_string ?d (?d # ys) = ?d # c_string ?d ys" for ys by (simp add: c_string_def)
        then have "tokens ?d (c_string ?d (mem_range mem ?b ?e)) = mem_range mem ?p q # tokens ?d (c_string ?d (mem_range mem (Suc q) ?e))"
          unfolding rng xs dl using tk(2) by simp
        ultimately show ?thesis using sk lt q(3) by (intro token) auto
      next
        case False
        with q(4) have z: "mem ! q = 0" "?d \<noteq> 0" by auto
        have "mem[q := 0] = mem" using list_update_id [of mem q] z(1) by simp
        then have "ss_Next mem ss = Some (True, mem[q := 0], ss\<lparr>ss_cur := Some ?p, ss_cur_size := q - ?p, ss_next := ?e\<rparr>)"
          using True q(1) False nz(1) by (simp add: ss_Next_def Let_def)
        moreover have "tokens ?d (c_string ?d (mem_range mem ?b ?e)) = mem_range mem ?p q # tokens ?d (c_string ?d (mem_range mem ?e ?e))"
          unfolding rng xs using tk(1) z by (simp add: c_string_null)
        ultimately show ?thesis
          using sk lt q(3) token [where p = ?p and q = q and nxt = ?e and mem' = "mem[q := 0]"] by auto
      qed
    qed
  qed
qed

text \<open>The client's loop: the tokens of the range, and only bytes of the range are overwritten.\<close>

lemma ss_loop_tokens:
  assumes "ss_next ss \<le> ss_end ss" and "ss_end ss \<le> length mem" and "ss_next ss < ss_end ss \<longrightarrow> mem ! (ss_end ss - 1) = 0"
    and "ss_end ss - ss_next ss < fuel"
  shows "\<exists>mem' ss'. ss_loop fuel mem ss =
      Some (tokens (ss_delimiter ss) (c_string (ss_delimiter ss) (mem_range mem (ss_next ss) (ss_end ss))), mem', ss') \<and>
    ss_cur ss' = None \<and> length mem' = length mem \<and> (\<forall>i. i < ss_next ss \<or> ss_end ss \<le> i \<longrightarrow> mem' ! i = mem ! i)"
  using assms
proof (induction fuel arbitrary: mem ss)
  case (Suc fuel)
  show ?case
  proof (rule ss_Next_cases [OF Suc.prems(1-3)])
    fix nxt
    assume "ss_Next mem ss = Some (False, mem, ss\<lparr>ss_cur := None, ss_cur_size := 0, ss_next := nxt\<rparr>)"
      "tokens (ss_delimiter ss) (c_string (ss_delimiter ss) (mem_range mem (ss_next ss) (ss_end ss))) = []"
    then show ?thesis by simp
  next
    fix p q mem1 nxt
    let ?ss = "ss\<lparr>ss_cur := Some p, ss_cur_size := q - p, ss_next := nxt\<rparr>"
    assume n: "ss_Next mem ss = Some (True, mem1, ?ss)" "ss_next ss \<le> p" "p < q" "q < ss_end ss" "q < nxt" "nxt \<le> ss_end ss"
        "mem1 = mem[q := 0]"
      and t: "tokens (ss_delimiter ss) (c_string (ss_delimiter ss) (mem_range mem (ss_next ss) (ss_end ss))) =
         mem_range mem p q # tokens (ss_delimiter ss) (c_string (ss_delimiter ss) (mem_range mem nxt (ss_end ss)))"
    have r: "mem_range mem1 p q = mem_range mem p q" "mem_range mem1 nxt (ss_end ss) = mem_range mem nxt (ss_end ss)"
      using n Suc.prems(2) by (auto intro: mem_range_cong)
    have z: "mem1 ! (ss_end ss - 1) = 0" using Suc.prems n by (cases "q = ss_end ss - 1") auto
    have "\<exists>mem' ss'. ss_loop fuel mem1 ?ss =
        Some (tokens (ss_delimiter ?ss) (c_string (ss_delimiter ?ss) (mem_range mem1 (ss_next ?ss) (ss_end ?ss))), mem', ss') \<and>
      ss_cur ss' = None \<and> length mem' = length mem1 \<and> (\<forall>i. i < ss_next ?ss \<or> ss_end ?ss \<le> i \<longrightarrow> mem' ! i = mem1 ! i)"
      using n Suc.prems z by (intro Suc.IH) auto
    then show ?thesis using n t r by auto
  qed
qed simp

text \<open>A range cut out by \<open>Initialize\<close>, split completely.\<close>

lemma ss_Initialize_tokens:
  assumes "ss_Initialize mem str sz d = (mem1, ss)" and "str + sz \<le> length mem" and "sz < fuel"
  shows "\<exists>mem' ss'. ss_loop fuel mem1 ss = Some (tokens d (c_string d (mem_range mem1 str (str + sz))), mem', ss') \<and>
    ss_cur ss' = None \<and> length mem' = length mem \<and> (\<forall>i. i < str \<or> str + sz \<le> i \<longrightarrow> mem' ! i = mem ! i)"
proof -
  have m: "mem1 = (if sz \<noteq> 0 then mem[str + sz - 1 := 0] else mem)"
    "ss_next ss = str" "ss_end ss = str + sz" "ss_delimiter ss = d" "length mem1 = length mem"
    using assms(1) by (auto simp: ss_Initialize_def)
  then have "\<forall>i. i < str \<or> str + sz \<le> i \<longrightarrow> mem1 ! i = mem ! i" using assms(2) by auto
  moreover have "\<exists>mem' ss'. ss_loop fuel mem1 ss =
      Some (tokens (ss_delimiter ss) (c_string (ss_delimiter ss) (mem_range mem1 (ss_next ss) (ss_end ss))), mem', ss') \<and>
    ss_cur ss' = None \<and> length mem' = length mem1 \<and> (\<forall>i. i < ss_next ss \<or> ss_end ss \<le> i \<longrightarrow> mem' ! i = mem1 ! i)"
    using m assms(2,3) by (intro ss_loop_tokens) auto
  ultimately show ?thesis using m by auto
qed

subsection \<open>Properties\<close>

text \<open>Splitting a string never leaves its buffer, ends, and yields exactly its tokens in order, the
  nonempty parts between delimiters (up to the first null character unless that is the delimiter).\<close>
theorem splitter_tokens:
  assumes "ss_of_string str d = (mem, ss)" and "length str + 1 < fuel"
  shows "\<exists>mem' ss'. ss_loop fuel mem ss = Some (tokens d (c_string d (str @ [0])), mem', ss') \<and> ss_cur ss' = None"
proof -
  have "ss_Initialize (str @ [0]) 0 (length (str @ [0])) d = (mem, ss)" using assms(1) by (simp add: ss_of_string_def)
  moreover from this have "mem = str @ [0]" by (auto simp: ss_Initialize_def list_update_append)
  moreover have "mem_range (str @ [0]) 0 (0 + length (str @ [0])) = str @ [0]" by (simp only: add_0 mem_range_whole)
  ultimately show ?thesis using ss_Initialize_tokens [of "str @ [0]" 0 "length (str @ [0])" d mem ss fuel] assms(2) by fastforce
qed

theorem splitter_tokens_witness:
  "\<exists>mem' ss'. ss_loop 9 (fst (ss_of_string [1, 44, 44, 2, 3, 44] 44)) (snd (ss_of_string [1, 44, 44, 2, 3, 44] 44)) =
     Some ([[1], [2, 3]], mem', ss')"
proof -
  have t: "tokens 44 (c_string 44 ([1, 44, 44, 2, 3, 44] @ [0])) = [[1], [2, 3]]"
    by (simp add: c_string_def tokens.simps)
  have "length [1, 44, 44, 2, 3, 44 :: u8] + 1 < 9" by simp
  from splitter_tokens [OF prod.collapse [symmetric] this, of 44] show ?thesis unfolding t by blast
qed

text \<open>Splitting the current token of a splitter with a second one, completely, leaves what the first splitter
  still has to yield as it was, although both write into the same buffer.\<close>
theorem nested_splitters:
  assumes "ss_next outer \<le> ss_end outer" and "ss_end outer \<le> length mem" and "ss_next outer < ss_end outer \<longrightarrow> mem ! (ss_end outer - 1) = 0"
    and "ss_Next mem outer = Some (True, mem1, outer1)" and "ss_of_token mem1 outer1 d = Some (mem2, inner)"
    and "ss_cur_size outer1 + 1 < fuel" and "ss_end outer - ss_next outer < fuel'"
  shows "\<exists>ts mem3 inner' us mem4 outer2. ss_loop fuel mem2 inner = Some (ts, mem3, inner') \<and>
     ss_loop fuel' mem3 outer1 = Some (us, mem4, outer2) \<and>
     map_option fst (ss_loop fuel' mem1 outer1) = Some us"
proof (rule ss_Next_cases [OF assms(1-3)])
  fix p q mem' nxt
  let ?o = "outer\<lparr>ss_cur := Some p, ss_cur_size := q - p, ss_next := nxt\<rparr>"
  assume n: "ss_Next mem outer = Some (True, mem', ?o)" "ss_next outer \<le> p" "p < q" "q < ss_end outer" "q < nxt" "nxt \<le> ss_end outer"
    "mem' = mem[q := 0]"
  with assms(4) have o: "mem1 = mem[q := 0]" "outer1 = ?o" by auto
  have i: "ss_Initialize mem1 p (q - p + 1) d = (mem2, inner)" using assms(5) o(2) by (auto simp: ss_of_token_def)
  have len: "p + (q - p + 1) \<le> length mem1" using n assms(2) o(1) by simp
  obtain ts mem3 inner' where l: "ss_loop fuel mem2 inner = Some (ts, mem3, inner')" "length mem3 = length mem1"
    "\<forall>j. j < p \<or> p + (q - p + 1) \<le> j \<longrightarrow> mem3 ! j = mem1 ! j"
    using ss_Initialize_tokens [OF i len, of fuel] assms(6) o(2) by auto
  have z: "mem1 ! (ss_end outer - 1) = 0" using assms(1-3) n o(1) by (cases "q = ss_end outer - 1") auto
  have same: "\<forall>j. nxt \<le> j \<longrightarrow> mem3 ! j = mem1 ! j" using l(3) n by auto
  have r: "mem_range mem3 nxt (ss_end outer) = mem_range mem1 nxt (ss_end outer)"
    using same l(2) assms(2) o(1) by (intro mem_range_cong) auto
  have z3: "nxt < ss_end outer \<longrightarrow> mem3 ! (ss_end outer - 1) = 0" using z same by auto
  have a: "ss_next ?o \<le> ss_end ?o" "ss_end ?o \<le> length mem1" "ss_end ?o \<le> length mem3" "ss_next ?o < ss_end ?o \<longrightarrow> mem1 ! (ss_end ?o - 1) = 0"
    "ss_next ?o < ss_end ?o \<longrightarrow> mem3 ! (ss_end ?o - 1) = 0" "ss_end ?o - ss_next ?o < fuel'"
    using n z z3 l(2) assms(2,7) o(1) by auto
  from ss_loop_tokens [OF a(1,3,5,6)] ss_loop_tokens [OF a(1,2,4,6)] r
  have "\<exists>us mem4 outer2. ss_loop fuel' mem3 ?o = Some (us, mem4, outer2) \<and> map_option fst (ss_loop fuel' mem1 ?o) = Some us"
    by auto
  with l(1) o(2) show ?thesis by blast
qed (use assms(4) in simp)

theorem nested_splitters_witness:
  "\<exists>ts mem3 inner' us mem4 outer2. ss_loop 5 [1, 32, 2, 0, 3, 0]
       \<lparr>ss_cur = None, ss_cur_size = 0, ss_next = 0, ss_end = 4, ss_delimiter = 32\<rparr> = Some (ts, mem3, inner') \<and>
     ss_loop 7 mem3 \<lparr>ss_cur = Some 0, ss_cur_size = 3, ss_next = 4, ss_end = 6, ss_delimiter = 44\<rparr> = Some (us, mem4, outer2)"
proof -
  let ?outer = "\<lparr>ss_cur = None, ss_cur_size = 0, ss_next = 0, ss_end = 6, ss_delimiter = 44\<rparr>"
  let ?outer1 = "\<lparr>ss_cur = Some 0, ss_cur_size = 3, ss_next = 4, ss_end = 6, ss_delimiter = 44\<rparr>"
  let ?inner = "\<lparr>ss_cur = None, ss_cur_size = 0, ss_next = 0, ss_end = 4, ss_delimiter = 32\<rparr>"
  have n: "ss_Next [1, 32, 2, 44, 3, 0] ?outer = Some (True, [1, 32, 2, 0, 3, 0], ?outer1)"
    by code_simp
  have t: "ss_of_token [1, 32, 2, 0, 3, 0] ?outer1 32 = Some ([1, 32, 2, 0, 3, 0], ?inner)"
    by (simp add: ss_of_token_def ss_Initialize_def)
  have a: "ss_next ?outer \<le> ss_end ?outer" "ss_end ?outer \<le> length [1, 32, 2, 44, 3, 0 :: u8]"
    "ss_next ?outer < ss_end ?outer \<longrightarrow> [1, 32, 2, 44, 3, 0 :: u8] ! (ss_end ?outer - 1) = 0"
    "ss_cur_size ?outer1 + 1 < 5" "ss_end ?outer - ss_next ?outer < 7" by simp_all
  from nested_splitters [OF a(1-3) n t a(4,5)] show ?thesis by blast
qed

end
