(* ===== verification/Base_Sets.thy ===== *)
theory Base_Sets
  imports VP_Prelude
begin

section \<open>Small sets (base/flat_set.h, ext/base/small_set.h)\<close>

text \<open>
  \<open>FlatSet\<close> keeps its elements in a sorted vector, \<open>SmallSet\<close> in an array of \<open>Size\<close> entries of which the first \<open>filled_\<close> are in use.
  Both are the list of their elements here. An iterator is an index, \<open>end()\<close> the length.
\<close>

subsection \<open>\<open>FlatSet\<close>\<close>

text \<open>\<^verbatim>\<open>std::lower_bound\<close> on a sorted range: the first element that is not less than the value. The constructor
  sorts with \<^verbatim>\<open>std::sort\<close> and drops adjacent duplicates with \<^verbatim>\<open>std::unique\<close>.\<close>

definition lower_bound :: "'a::linorder list \<Rightarrow> 'a \<Rightarrow> nat" where
  "lower_bound xs v = length (takeWhile (\<lambda>x. x < v) xs)"

definition FlatSet :: "'a::linorder list \<Rightarrow> 'a list" where
  "FlatSet initial = remdups_adj (sort initial)"

definition flat_find :: "'a::linorder list \<Rightarrow> 'a \<Rightarrow> nat" where
  "flat_find entries v =
     (let it = lower_bound entries v in if it \<noteq> length entries \<and> entries ! it = v then it else length entries)"

definition flat_count :: "'a::linorder list \<Rightarrow> 'a \<Rightarrow> nat" where
  "flat_count entries v = (if flat_find entries v = length entries then 0 else 1)"

text \<open>The iterator and flag returned, and the new entries.\<close>

definition flat_insert :: "'a::linorder \<Rightarrow> 'a list \<Rightarrow> (nat \<times> bool) \<times> 'a list" where
  "flat_insert v entries =
     (let it = lower_bound entries v in
      if it \<noteq> length entries \<and> entries ! it = v then ((it, False), entries)
      else ((it, True), take it entries @ v # drop it entries))"

definition flat_erase :: "'a::linorder \<Rightarrow> 'a list \<Rightarrow> nat \<times> 'a list" where
  "flat_erase v entries =
     (let it = flat_find entries v in
      if it = length entries then (0, entries) else (1, take it entries @ drop (Suc it) entries))"

definition flat_clear :: "'a::linorder list \<Rightarrow> 'a list" where
  "flat_clear entries = []"

subsection \<open>\<open>SmallSet\<close>\<close>

fun small_Contains :: "'a list \<Rightarrow> 'a \<Rightarrow> bool" where
  "small_Contains [] n = False"
| "small_Contains (x # xs) n = (if x = n then True else small_Contains xs n)"

definition small_Add :: "nat \<Rightarrow> 'a \<Rightarrow> 'a list \<Rightarrow> bool \<times> 'a list" where
  "small_Add Size n arr =
     (if small_Contains arr n then (True, arr)
      else if length arr < Size then (True, arr @ [n])
      else (False, arr))"

subsection \<open>The contract\<close>

text \<open>A container of distinct elements: \<open>room\<close> says when a new element can be added.\<close>

locale set_container =
  fixes add :: "'a \<Rightarrow> 's \<Rightarrow> 's" and member :: "'s \<Rightarrow> 'a \<Rightarrow> bool" and elems :: "'s \<Rightarrow> 'a list"
    and inv :: "'s \<Rightarrow> bool" and room :: "'s \<Rightarrow> bool"
  assumes inv_distinct: "inv s \<Longrightarrow> distinct (elems s)"
    and member_elems: "inv s \<Longrightarrow> member s x \<longleftrightarrow> x \<in> set (elems s)"
    and add_inv: "inv s \<Longrightarrow> inv (add x s)"
    and add_elems: "inv s \<Longrightarrow> set (elems (add x s)) = (if x \<in> set (elems s) \<or> room s then insert x (set (elems s)) else set (elems s))"
begin

lemma add_member: "inv s \<Longrightarrow> member (add x s) y \<longleftrightarrow> member s y \<or> y = x \<and> room s"
  using add_elems [of s x] by (auto simp: member_elems add_inv)

lemma add_length: "inv s \<Longrightarrow> length (elems (add x s)) = (if member s x \<or> \<not> room s then length (elems s) else Suc (length (elems s)))"
proof -
  assume i: "inv s"
  have "length (elems (add x s)) = card (set (elems (add x s)))" using inv_distinct [OF add_inv [OF i]] by (simp add: distinct_card)
  also have "\<dots> = (if member s x \<or> \<not> room s then card (set (elems s)) else Suc (card (set (elems s))))"
    using add_elems [OF i, of x] member_elems [OF i, of x] by (auto simp: insert_absorb)
  finally show ?thesis using inv_distinct [OF i] by (simp add: distinct_card)
qed

lemma added: "inv s \<Longrightarrow> (\<And>s. inv s \<Longrightarrow> room s) \<Longrightarrow> inv (fold add xs s) \<and> set (elems (fold add xs s)) = set (elems s) \<union> set xs"
proof (induction xs arbitrary: s)
  case (Cons x xs)
  from Cons.IH [OF add_inv [OF Cons.prems(1)] Cons.prems(2)] add_elems [OF Cons.prems(1), of x] Cons.prems(2) [OF Cons.prems(1)]
  show ?case by auto
qed simp

end

subsection \<open>The sorted vector\<close>

definition flat_ok :: "'a::linorder list \<Rightarrow> bool" where
  "flat_ok xs \<longleftrightarrow> sorted xs \<and> distinct xs"

lemma flat_split:
  assumes "flat_ok xs"
  obtains ls rs where "xs = ls @ rs" "lower_bound xs v = length ls" "\<forall>x \<in> set ls. x < v" "\<forall>x \<in> set rs. v \<le> x"
proof
  show "xs = takeWhile (\<lambda>x. x < v) xs @ dropWhile (\<lambda>x. x < v) xs" by simp
  show "lower_bound xs v = length (takeWhile (\<lambda>x. x < v) xs)" by (simp add: lower_bound_def)
  show "\<forall>x \<in> set (takeWhile (\<lambda>x. x < v) xs). x < v" by (auto dest: set_takeWhileD)
  have "sorted (dropWhile (\<lambda>x. x < v) xs)" using assms by (simp add: flat_ok_def sorted_dropWhile)
  then show "\<forall>x \<in> set (dropWhile (\<lambda>x. x < v) xs). v \<le> x"
    using hd_dropWhile [of "\<lambda>x. x < v" xs] by (cases "dropWhile (\<lambda>x. x < v) xs") (simp_all del: dropWhile_eq_Nil_conv, auto)
qed

text \<open>Whether the value is there shows at the lower bound.\<close>

lemma flat_found:
  assumes "xs = ls @ rs" and "\<forall>x \<in> set ls. x < v" and "\<forall>x \<in> set rs. v \<le> x" and "flat_ok xs"
  shows "(length ls \<noteq> length xs \<and> xs ! length ls = v) = (v \<in> set xs)" and "v \<in> set xs \<Longrightarrow> rs = v # tl rs"
proof -
  show "v \<in> set xs \<Longrightarrow> rs = v # tl rs"
    using assms by (cases rs) (auto simp: flat_ok_def sorted_append)
  then show "(length ls \<noteq> length xs \<and> xs ! length ls = v) = (v \<in> set xs)"
    using assms by (cases rs) (auto simp: nth_append)
qed

lemma flat_find_spec:
  assumes "flat_ok xs"
  shows "flat_find xs v = (if v \<in> set xs then lower_bound xs v else length xs)"
    and "v \<in> set xs \<Longrightarrow> lower_bound xs v < length xs \<and> xs ! lower_bound xs v = v"
proof -
  obtain ls rs where d: "xs = ls @ rs" "lower_bound xs v = length ls" "\<forall>x \<in> set ls. x < v" "\<forall>x \<in> set rs. v \<le> x"
    using flat_split [OF assms] .
  note f = flat_found [OF d(1,3,4) assms]
  show "flat_find xs v = (if v \<in> set xs then lower_bound xs v else length xs)" by (simp add: flat_find_def d(2) f(1))
  show "v \<in> set xs \<Longrightarrow> lower_bound xs v < length xs \<and> xs ! lower_bound xs v = v"
    using f(1) d(1,2) by (auto simp: less_le)
qed

lemma flat_insert_spec:
  assumes "flat_ok xs"
  shows "flat_ok (snd (flat_insert v xs)) \<and> set (snd (flat_insert v xs)) = insert v (set xs) \<and>
    snd (fst (flat_insert v xs)) = (v \<notin> set xs) \<and> snd (flat_insert v xs) ! fst (fst (flat_insert v xs)) = v"
proof -
  obtain ls rs where d: "xs = ls @ rs" "lower_bound xs v = length ls" "\<forall>x \<in> set ls. x < v" "\<forall>x \<in> set rs. v \<le> x"
    using flat_split [OF assms] .
  note f = flat_found [OF d(1,3,4) assms]
  show ?thesis
  proof (cases "v \<in> set xs")
    case True
    then show ?thesis using f(1) assms by (auto simp: flat_insert_def d(2) Let_def)
  next
    case False
    then have "flat_insert v xs = ((length ls, True), ls @ v # rs)"
      using f(1) by (simp add: flat_insert_def d(2) Let_def) (simp add: d(1))
    moreover have "flat_ok (ls @ v # rs)"
      using assms d False by (auto simp: flat_ok_def sorted_append less_imp_le)
    ultimately show ?thesis using False d(1) by auto
  qed
qed

lemma flat_erase_spec:
  assumes "flat_ok xs"
  shows "flat_ok (snd (flat_erase v xs)) \<and> set (snd (flat_erase v xs)) = set xs - {v} \<and>
    fst (flat_erase v xs) = (if v \<in> set xs then 1 else 0)"
proof -
  obtain ls rs where d: "xs = ls @ rs" "lower_bound xs v = length ls" "\<forall>x \<in> set ls. x < v" "\<forall>x \<in> set rs. v \<le> x"
    using flat_split [OF assms] .
  note f = flat_found [OF d(1,3,4) assms]
  show ?thesis
  proof (cases "v \<in> set xs")
    case True
    with f(2) obtain rs' where rs: "rs = v # rs'" by metis
    have "flat_erase v xs = (1, ls @ rs')"
      using True f(1) by (simp add: flat_erase_def flat_find_spec(1) [OF assms] d(2) Let_def) (simp add: d(1) rs)
    with assms d(1,3) rs show ?thesis by (auto simp: flat_ok_def sorted_append)
  next
    case False
    with assms show ?thesis by (simp add: flat_erase_def flat_find_spec(1) [OF assms])
  qed
qed

lemma distinct_remdups_adj_sorted: "sorted xs \<Longrightarrow> distinct (remdups_adj xs)"
proof (induction xs rule: remdups_adj.induct)
  case (3 x y xs)
  then show ?case by (cases "x = y") (auto dest: order.antisym)
qed simp_all

lemma FlatSet_ok: "flat_ok (FlatSet xs)" "set (FlatSet xs) = set xs"
  by (simp_all add: FlatSet_def flat_ok_def distinct_remdups_adj_sorted)

interpretation flat: set_container "\<lambda>x s. snd (flat_insert x s)" "\<lambda>s x. flat_count s x = 1" "\<lambda>s. s" flat_ok "\<lambda>s. True"
proof unfold_locales
  fix s :: "'a list" and x assume s: "flat_ok s"
  show "distinct s" using s by (simp add: flat_ok_def)
  show "(flat_count s x = 1) = (x \<in> set s)"
    using flat_find_spec [OF s, of x] by (auto simp: flat_count_def)
  show "flat_ok (snd (flat_insert x s))"
    and "set (snd (flat_insert x s)) = (if x \<in> set s \<or> True then insert x (set s) else set s)"
    using flat_insert_spec [OF s, of x] by simp_all
qed

subsection \<open>The bounded array\<close>

lemma small_Contains_set: "small_Contains xs n \<longleftrightarrow> n \<in> set xs"
  by (induction xs) auto

interpretation small: set_container "\<lambda>x s. snd (small_Add Size x s)" small_Contains "\<lambda>s. s" "\<lambda>s. distinct s \<and> length s \<le> Size"
    "\<lambda>s. length s < Size" for Size
  by unfold_locales (auto simp: small_Add_def small_Contains_set)

subsection \<open>Properties\<close>

text \<open>The calls that change a flat set, with what they return: the flag of \<open>insert\<close>, the number of \<open>erase\<close>.\<close>

datatype 'a flat_op = Flat_insert 'a | Flat_erase 'a | Flat_clear

fun flat_run :: "'a::linorder flat_op list \<Rightarrow> 'a list \<Rightarrow> nat list \<times> 'a list" where
  "flat_run [] xs = ([], xs)"
| "flat_run (Flat_insert v # ops) xs =
     (let ((it, new), xs') = flat_insert v xs; (rs, ys) = flat_run ops xs' in ((if new then 1 else 0) # rs, ys))"
| "flat_run (Flat_erase v # ops) xs = (let (n, xs') = flat_erase v xs; (rs, ys) = flat_run ops xs' in (n # rs, ys))"
| "flat_run (Flat_clear # ops) xs = flat_run ops (flat_clear xs)"

text \<open>The same on a mathematical set.\<close>

fun set_run :: "'a flat_op list \<Rightarrow> 'a set \<Rightarrow> nat list \<times> 'a set" where
  "set_run [] A = ([], A)"
| "set_run (Flat_insert v # ops) A = (let (rs, B) = set_run ops (insert v A) in ((if v \<in> A then 0 else 1) # rs, B))"
| "set_run (Flat_erase v # ops) A = (let (rs, B) = set_run ops (A - {v}) in ((if v \<in> A then 1 else 0) # rs, B))"
| "set_run (Flat_clear # ops) A = set_run ops {}"

lemma flat_run_set:
  "flat_ok xs \<Longrightarrow> flat_ok (snd (flat_run ops xs)) \<and> set_run ops (set xs) = (fst (flat_run ops xs), set (snd (flat_run ops xs)))"
proof (induction ops arbitrary: xs)
  case (Cons op ops)
  show ?case
  proof (cases op)
    case (Flat_insert v)
    have i: "flat_ok (snd (flat_insert v xs))" "set (snd (flat_insert v xs)) = insert v (set xs)"
      "snd (fst (flat_insert v xs)) = (v \<notin> set xs)"
      using flat_insert_spec [OF Cons.prems, of v] by simp_all
    from Cons.IH [OF i(1)] show ?thesis by (simp add: Flat_insert split_beta Let_def i(2,3))
  next
    case (Flat_erase v)
    have e: "flat_ok (snd (flat_erase v xs))" "set (snd (flat_erase v xs)) = set xs - {v}"
      "fst (flat_erase v xs) = (if v \<in> set xs then 1 else 0)"
      using flat_erase_spec [OF Cons.prems, of v] by simp_all
    from Cons.IH [OF e(1)] show ?thesis by (simp add: Flat_erase split_beta Let_def e(2,3))
  next
    case Flat_clear
    have "flat_ok ([] :: 'a list)" by (simp add: flat_ok_def)
    from Cons.IH [OF this] show ?thesis by (simp add: Flat_clear flat_clear_def)
  qed
qed simp

text \<open>After any insertions, erasures and clearing a flat set holds exactly the elements of the corresponding set, each
  call returned what it returns for the set, the elements are stored in increasing order without duplicates, and
  \<open>find\<close> locates exactly the elements.\<close>
theorem flat_set_is_a_set:
  "let xs = snd (flat_run ops (FlatSet initial)) in
     set_run ops (set initial) = (fst (flat_run ops (FlatSet initial)), set xs) \<and>
     xs = sorted_list_of_set (set xs) \<and>
     (\<forall>v. if v \<in> set xs then flat_find xs v < length xs \<and> xs ! flat_find xs v = v else flat_find xs v = length xs)"
proof -
  let ?xs = "snd (flat_run ops (FlatSet initial))"
  have r: "flat_ok ?xs" "set_run ops (set initial) = (fst (flat_run ops (FlatSet initial)), set ?xs)"
    using flat_run_set [OF FlatSet_ok(1), of ops initial] by (simp_all add: FlatSet_ok(2))
  have "?xs = sorted_list_of_set (set ?xs)"
    using r(1) by (simp add: flat_ok_def sorted_list_of_set.idem_if_sorted_distinct)
  moreover have "if v \<in> set ?xs then flat_find ?xs v < length ?xs \<and> ?xs ! flat_find ?xs v = v else flat_find ?xs v = length ?xs" for v
    using flat_find_spec [OF r(1), of v] by simp
  ultimately show ?thesis using r(2) unfolding Let_def by blast
qed

end
