(* ===== verification/Packet_Validator.thy ===== *)
theory Packet_Validator
  imports Proto_Decoder
begin

section \<open>The packet stream validator of the SDK (src/tracing/core/packet_stream_validator.cc in perfetto.cc)\<close>

text \<open>
  The in-process service checks every packet that a producer hands it, scattered over slices, without parsing it:
  a state machine reads one variable-length integer after another and says how many bytes to skip. The reference it is
  compared with is a recursive descent over one memory that uses the number parser and the payload parser of the
  decoder. \<open>None\<close> is undefined behaviour: shifting a 64-bit value by 64 or more.
\<close>

definition kReservedFieldIds :: "u32 list" where
  "kReservedFieldIds = [3, 10, 33, 35, 50, 36]"

datatype fsm_state =
    kFieldPreamble
  | kVarIntValue
  | kLenDelimitedLen
  | kWroteReservedField
  | kUnknownFieldType
  | kMessageTooBig
  | kInvalidVarInt

record ProtoFieldParserFSM =
  fsm_state :: fsm_state
  fsm_varint :: u64
  fsm_shift :: nat

definition new_parser :: ProtoFieldParserFSM where
  "new_parser = \<lparr>fsm_state = kFieldPreamble, fsm_varint = 0, fsm_shift = 0\<rparr>"

text \<open>The \<open>switch\<close> on a complete number: the new state and the number of bytes to skip.\<close>

definition Push_preamble :: "u64 \<Rightarrow> fsm_state \<times> nat" where
  "Push_preamble varint =
     (let field_type = varint AND 7; field_id = (ucast (drop_bit 3 varint) :: u32)
      in if field_id \<in> set kReservedFieldIds then (kWroteReservedField, 0)
         else if field_type = ucast (wire_code kVarInt) then (kVarIntValue, 0)
         else if field_type = ucast (wire_code kFixed32) then (kFieldPreamble, 4)
         else if field_type = ucast (wire_code kFixed64) then (kFieldPreamble, 8)
         else if field_type = ucast (wire_code kLengthDelimited) then (kLenDelimitedLen, 0)
         else (kUnknownFieldType, 0))"

fun Push_switch :: "u64 \<Rightarrow> fsm_state \<Rightarrow> fsm_state \<times> nat" where
  "Push_switch varint kFieldPreamble = Push_preamble varint"
| "Push_switch varint kVarIntValue = (kFieldPreamble, 0)"
| "Push_switch varint kLenDelimitedLen =
     (if unat varint > kMaxMessageLength then (kMessageTooBig, 0) else (kFieldPreamble, unat varint))"
| "Push_switch varint st = (st, 0)"

definition Push :: "u8 \<Rightarrow> ProtoFieldParserFSM \<Rightarrow> (ProtoFieldParserFSM \<times> nat) option" where
  "Push octet p =
     (if 64 \<le> fsm_shift p then None
      else (let varint = fsm_varint p OR push_bit (fsm_shift p) (ucast (octet AND 0x7F))
            in if octet AND 0x80 \<noteq> 0
               then (let shift = fsm_shift p + 7
                     in Some (p\<lparr>fsm_varint := varint, fsm_shift := shift,
                                fsm_state := (if shift \<ge> 64 then kInvalidVarInt else fsm_state p)\<rparr>, 0))
               else (let (st, skip_bytes) = Push_switch varint (fsm_state p)
                     in Some (\<lparr>fsm_state = st, fsm_varint = 0, fsm_shift = 0\<rparr>, skip_bytes))))"

definition fsm_valid :: "ProtoFieldParserFSM \<Rightarrow> bool" where
  "fsm_valid p \<longleftrightarrow> fsm_state p = kFieldPreamble \<and> fsm_shift p = 0"

text \<open>The loop over the bytes of one slice, then the one over the slices.\<close>

function validate_slice :: "u8 list \<Rightarrow> nat \<Rightarrow> nat \<Rightarrow> ProtoFieldParserFSM \<Rightarrow> (nat \<times> ProtoFieldParserFSM) option" where
  "validate_slice bytes i skip_bytes p =
     (if i < length bytes
      then (let cur = min skip_bytes (length bytes - i)
            in if cur > 0 then validate_slice bytes (i + cur) (skip_bytes - cur) p
               else (case Push (bytes ! i) p of
                       None \<Rightarrow> None
                     | Some (p', skip') \<Rightarrow> validate_slice bytes (i + 1) skip' p'))
      else Some (skip_bytes, p))"
  by pat_completeness auto
termination
  by (relation "measure (\<lambda>(bytes, i, skip_bytes, p). length bytes - i)") auto

declare validate_slice.simps [simp del]

fun validate_slices :: "u8 list list \<Rightarrow> nat \<Rightarrow> ProtoFieldParserFSM \<Rightarrow> (nat \<times> ProtoFieldParserFSM) option" where
  "validate_slices [] skip_bytes p = Some (skip_bytes, p)"
| "validate_slices (bytes # slices) skip_bytes p =
     (case validate_slice bytes 0 skip_bytes p of
        None \<Rightarrow> None
      | Some (skip', p') \<Rightarrow> validate_slices slices skip' p')"

definition Validate :: "u8 list list \<Rightarrow> bool option" where
  "Validate slices =
     map_option (\<lambda>(skip_bytes, p). skip_bytes = 0 \<and> fsm_valid p) (validate_slices slices 0 new_parser)"

subsection \<open>The machine, byte by byte\<close>

fun feed :: "u8 list \<Rightarrow> nat \<times> ProtoFieldParserFSM \<Rightarrow> (nat \<times> ProtoFieldParserFSM) option" where
  "feed [] s = Some s"
| "feed (b # bs) (Suc k, p) = feed bs (k, p)"
| "feed (b # bs) (0, p) = (case Push b p of None \<Rightarrow> None | Some (p', k) \<Rightarrow> feed bs (k, p'))"

lemma feed_append: "feed (xs @ ys) s = (case feed xs s of None \<Rightarrow> None | Some s' \<Rightarrow> feed ys s')"
  by (induction xs s rule: feed.induct) (auto split: option.splits)

lemma feed_skip: "feed bs (k, p) = (if k \<le> length bs then feed (drop k bs) (0, p) else Some (k - length bs, p))"
proof (induction bs arbitrary: k)
  case (Cons b bs)
  then show ?case by (cases k) simp_all
qed simp

lemma validate_slice_feed: "validate_slice bytes i k p = feed (drop i bytes) (k, p)"
proof (induction bytes i k p rule: validate_slice.induct)
  case (1 bytes i k p)
  show ?case
  proof (cases "i < length bytes")
    case False
    then show ?thesis by (subst validate_slice.simps) simp
  next
    case i: True
    show ?thesis
    proof (cases k)
      case 0
      with i have "validate_slice bytes i k p =
          (case Push (bytes ! i) p of None \<Rightarrow> None | Some (p', k') \<Rightarrow> validate_slice bytes (i + 1) k' p')"
        by (subst validate_slice.simps) simp
      also have "\<dots> = feed (bytes ! i # drop (Suc i) bytes) (0, p)"
        using "1.IH"(2) [OF i refl] 0 by (auto split: option.splits)
      finally show ?thesis using i 0 by (simp add: Cons_nth_drop_Suc)
    next
      case (Suc k')
      let ?cur = "min k (length bytes - i)"
      from i Suc have c: "0 < ?cur" by simp
      with i have "validate_slice bytes i k p = validate_slice bytes (i + ?cur) (k - ?cur) p"
        by (subst validate_slice.simps) (simp add: Let_def)
      also have "\<dots> = feed (drop (i + ?cur) bytes) (k - ?cur, p)" by (rule "1.IH"(1) [OF i refl c])
      also have "\<dots> = feed (drop i bytes) (k, p)"
        using i by (subst (1 2) feed_skip) (auto simp: min_def add.commute)
      finally show ?thesis .
    qed
  qed
qed

lemma validate_slices_feed: "validate_slices slices k p = feed (concat slices) (k, p)"
  by (induction slices arbitrary: k p)
    (auto simp: validate_slice_feed feed_append split: option.splits)

definition accepted :: "u8 list \<Rightarrow> nat \<times> ProtoFieldParserFSM \<Rightarrow> bool" where
  "accepted bs s = (case feed bs s of None \<Rightarrow> False | Some (k, p) \<Rightarrow> k = 0 \<and> fsm_valid p)"

lemma accepted_skip: "accepted bs (k, p) = (k \<le> length bs \<and> accepted (drop k bs) (0, p))"
  by (auto simp: accepted_def feed_skip [of bs k])

lemma Validate_accepted: "Validate slices = Some True \<longleftrightarrow> accepted (concat slices) (0, new_parser)"
  by (auto simp: Validate_def accepted_def validate_slices_feed split: option.splits)

text \<open>The three states that parse; the others are left for no state but \<open>kInvalidVarInt\<close>.\<close>

definition error_state :: "fsm_state \<Rightarrow> bool" where
  "error_state st \<longleftrightarrow> st \<notin> {kFieldPreamble, kVarIntValue, kLenDelimitedLen}"

lemma Push_switch_error: "error_state st \<Longrightarrow> Push_switch v st = (st, 0)"
  by (cases st) (simp_all add: error_state_def)

lemma rejected: "error_state (fsm_state p) \<Longrightarrow> \<not> accepted bs (k, p)"
proof (induction bs arbitrary: k p)
  case (Cons b bs)
  show ?case
  proof (cases k)
    case 0
    have "\<not> accepted bs (k', p')" if "Push b p = Some (p', k')" for p' k'
      using that Cons.prems Push_switch_error [OF Cons.prems]
      by (intro Cons.IH) (auto simp: Push_def Let_def error_state_def split: if_splits)
    with 0 show ?thesis by (auto simp: accepted_def split: option.splits)
  next
    case (Suc k')
    with Cons.IH [OF Cons.prems, of k'] show ?thesis by (simp add: accepted_def)
  qed
qed (auto simp: accepted_def fsm_valid_def error_state_def)

subsection \<open>One number\<close>

lemma feed_number:
  assumes "ParseVarInt_loop mem (length mem) pos shift acc = Some (q, v)" and "Push_switch v st = (st', k)"
  shows "feed (drop pos mem) (0, \<lparr>fsm_state = st, fsm_varint = acc, fsm_shift = shift\<rparr>) =
    feed (drop q mem) (k, \<lparr>fsm_state = st', fsm_varint = 0, fsm_shift = 0\<rparr>)"
  using assms
proof (induction mem "length mem" pos shift acc rule: ParseVarInt_loop.induct)
  case (1 mem pos shift acc)
  let ?acc = "acc OR push_bit shift (ucast (mem ! pos AND 0x7f))"
  from "1.prems"(1) have g: "pos < length mem" "shift < 64"
    by (subst (asm) ParseVarInt_loop.simps, simp split: if_splits)+
  then have d: "drop pos mem = mem ! pos # drop (Suc pos) mem" by (simp add: Cons_nth_drop_Suc)
  show ?case
  proof (cases "mem ! pos AND 0x80 = 0")
    case True
    with "1.prems"(1) g have "q = Suc pos" "v = ?acc" by (subst (asm) ParseVarInt_loop.simps, simp add: Let_def)+
    with True g "1.prems"(2) show ?thesis by (simp add: d Push_def Let_def)
  next
    case False
    with "1.prems"(1) g have r: "ParseVarInt_loop mem (length mem) (Suc pos) (shift + 7) ?acc = Some (q, v)"
      by (subst (asm) ParseVarInt_loop.simps) (simp add: Let_def)
    then have "shift + 7 < 64" by (subst (asm) ParseVarInt_loop.simps) (simp split: if_splits)
    with False g "1.hyps" [OF _ refl refl False r "1.prems"(2)] show ?thesis by (simp add: d Push_def Let_def)
  qed
qed

lemma feed_no_number:
  assumes "ParseVarInt_loop mem (length mem) pos shift acc = None" and "shift < 64"
    and "shift = 0 \<Longrightarrow> pos < length mem \<or> st \<noteq> kFieldPreamble"
  shows "\<not> accepted (drop pos mem) (0, \<lparr>fsm_state = st, fsm_varint = acc, fsm_shift = shift\<rparr>)"
  using assms
proof (induction mem "length mem" pos shift acc arbitrary: st rule: ParseVarInt_loop.induct)
  case (1 mem pos shift acc)
  let ?acc = "acc OR push_bit shift (ucast (mem ! pos AND 0x7f))"
  show ?case
  proof (cases "pos < length mem")
    case False
    with "1.prems" show ?thesis by (auto simp: accepted_def fsm_valid_def)
  next
    case True
    then have d: "drop pos mem = mem ! pos # drop (Suc pos) mem" by (simp add: Cons_nth_drop_Suc)
    from True "1.prems"(1,2) have cont: "mem ! pos AND 0x80 \<noteq> 0"
      and r: "ParseVarInt_loop mem (length mem) (Suc pos) (shift + 7) ?acc = None"
      by (subst (asm) ParseVarInt_loop.simps, simp add: Let_def split: if_splits)+
    have step: "accepted (drop pos mem) (0, \<lparr>fsm_state = st, fsm_varint = acc, fsm_shift = shift\<rparr>) =
        accepted (drop (Suc pos) mem) (0, \<lparr>fsm_state = (if shift + 7 \<ge> 64 then kInvalidVarInt else st),
          fsm_varint = ?acc, fsm_shift = shift + 7\<rparr>)"
      using cont "1.prems"(2) by (simp add: d accepted_def Push_def Let_def)
    show ?thesis
    proof (cases "shift + 7 < 64")
      case True
      have g: "pos < length mem \<and> shift < 64" using \<open>pos < length mem\<close> "1.prems"(2) by simp
      from "1.hyps" [OF g refl refl cont r True, of st] True show ?thesis unfolding step by simp
    next
      case False
      then show ?thesis unfolding step by (intro rejected) (simp add: error_state_def)
    qed
  qed
qed

subsection \<open>The grammar of a packet\<close>

text \<open>A packet is a sequence of fields to the last byte: a preamble, an id that is not reserved, and a payload that the
  decoder accepts, no longer than a message may be.\<close>

function well_formed :: "memory \<Rightarrow> nat \<Rightarrow> nat \<Rightarrow> bool" where
  "well_formed mem p fin =
     (if fin \<le> p then True
      else (let (pos, preamble) = ParseVarInt mem p fin
            in if p < pos \<and> pos < fin \<and> (ucast (drop_bit 3 preamble) :: u32) \<notin> set kReservedFieldIds
               then (case ParseFieldPayload mem pos fin (ucast (preamble AND 7)) of
                       None \<Rightarrow> False
                     | Some (np, iv, sz) \<Rightarrow> unat sz \<le> kMaxMessageLength \<and> well_formed mem np fin)
               else False))"
  by pat_completeness auto
termination
proof (relation "measure (\<lambda>(mem, p, fin). fin - p)")
  fix mem p fin x pos preamble a np b iv sz
  assume "\<not> fin \<le> p" "p < pos \<and> pos < fin \<and> (ucast (drop_bit 3 (preamble :: u64)) :: u32) \<notin> set kReservedFieldIds"
    "ParseFieldPayload mem pos fin (ucast (preamble AND 7)) = Some a" "(np, b) = a" "(iv, sz) = b"
  then show "((mem, np, fin), mem, p, fin) \<in> measure (\<lambda>(mem, p, fin). fin - p)"
    by (auto dest!: ParseFieldPayload_bounds)
qed simp

declare well_formed.simps [simp del]

lemma field_type_u8: "(ucast ((v :: u64) AND 7) :: u8) = ucast (wire_code w) \<longleftrightarrow> v AND 7 = ucast (wire_code w)"
proof
  have seven: "(7 :: u64) = mask 3" by (simp add: mask_eq_exp_minus_1)
  have c: "ucast (ucast (v AND 7) :: u8) = v AND 7"
    unfolding seven by (rule bit_eqI) (auto simp: bit_simps)
  show "v AND 7 = ucast (wire_code w)" if "(ucast (v AND 7) :: u8) = ucast (wire_code w)"
    using arg_cong [OF that, of "ucast :: u8 \<Rightarrow> u64"] unfolding c by (cases w) simp_all
qed (cases w; simp)

lemma new_parser_eq: "\<lparr>fsm_state = kFieldPreamble, fsm_varint = 0, fsm_shift = 0\<rparr> = new_parser"
  by (simp add: new_parser_def)

text \<open>A number after the preamble: the value of a field or the length of its payload.\<close>

lemma accepted_number:
  assumes "st \<noteq> kFieldPreamble" and "pos \<le> length mem"
  shows "accepted (drop pos mem) (0, \<lparr>fsm_state = st, fsm_varint = 0, fsm_shift = 0\<rparr>) =
    (case ParseVarInt_loop mem (length mem) pos 0 0 of None \<Rightarrow> False
     | Some (q, v) \<Rightarrow> (case Push_switch v st of (st', k) \<Rightarrow>
         accepted (drop q mem) (k, \<lparr>fsm_state = st', fsm_varint = 0, fsm_shift = 0\<rparr>)))"
proof (cases "ParseVarInt_loop mem (length mem) pos 0 0")
  case None
  with feed_no_number [OF None, of st] assms(1) show ?thesis by simp
next
  case (Some r)
  obtain q v where r: "r = (q, v)" by fastforce
  obtain st' k where "Push_switch v st = (st', k)" by fastforce
  with feed_number [OF Some [unfolded r] this] Some r show ?thesis by (simp add: accepted_def)
qed

lemma ParseFieldPayload_by_loop:
  "ParseFieldPayload mem pos fin (ucast ((v :: u64) AND 7)) =
    (if v AND 7 = ucast (wire_code kVarInt)
     then map_option (\<lambda>(q, x). (q, x, 0)) (ParseVarInt_loop mem fin pos 0 0)
     else if v AND 7 = ucast (wire_code kLengthDelimited)
     then (case ParseVarInt_loop mem fin pos 0 0 of None \<Rightarrow> None
           | Some (q, n) \<Rightarrow> if unat n > fin - q then None else Some (q + unat n, word_of_nat q, n))
     else if v AND 7 = ucast (wire_code kFixed64)
     then (if pos + 8 > fin then None else Some (pos + 8, load_le (mem_range mem pos (pos + 8)), 0))
     else if v AND 7 = ucast (wire_code kFixed32)
     then (if pos + 4 > fin then None else Some (pos + 4, load_le (mem_range mem pos (pos + 4)), 0))
     else None)"
proof (cases "ParseVarInt_loop mem fin pos 0 0")
  case None
  then have "ParseVarInt mem pos fin = (pos, 0)" by (simp add: ParseVarInt_def)
  with None show ?thesis unfolding ParseFieldPayload_def field_type_u8 by (simp add: Let_def)
next
  case (Some r)
  obtain q n where r: "r = (q, n)" by fastforce
  with Some have "ParseVarInt mem pos fin = (q, n)" "q \<noteq> pos"
    by (auto simp: ParseVarInt_def dest: ParseVarInt_loop_bounds)
  with Some r show ?thesis unfolding ParseFieldPayload_def field_type_u8 by (simp add: Let_def)
qed

lemma wire_codes_differ:
  "(ucast (wire_code a) :: u64) = ucast (wire_code b) \<longleftrightarrow> a = b"
  by (cases a; cases b) simp_all

lemma accepted_payload:
  assumes ids: "(ucast (drop_bit 3 v) :: u32) \<notin> set kReservedFieldIds" and push: "Push_preamble v = (st, k)"
    and pos: "pos \<le> length mem"
  shows "accepted (drop pos mem) (k, \<lparr>fsm_state = st, fsm_varint = 0, fsm_shift = 0\<rparr>) =
    (case ParseFieldPayload mem pos (length mem) (ucast (v AND 7)) of None \<Rightarrow> False
     | Some (np, iv, sz) \<Rightarrow> unat sz \<le> kMaxMessageLength \<and> accepted (drop np mem) (0, new_parser))"
proof -
  note P = ParseFieldPayload_by_loop [of mem pos "length mem" v]
  consider (VarInt) "v AND 7 = ucast (wire_code kVarInt)" | (Fixed32) "v AND 7 = ucast (wire_code kFixed32)"
    | (Fixed64) "v AND 7 = ucast (wire_code kFixed64)" | (Bytes) "v AND 7 = ucast (wire_code kLengthDelimited)"
    | (unknown) "\<forall>w. v AND 7 \<noteq> ucast (wire_code w)"
    by (metis ProtoWireType.exhaust)
  then show ?thesis
  proof cases
    case VarInt
    with push ids have "st = kVarIntValue" "k = 0" by (simp_all add: Push_preamble_def Let_def)
    then show ?thesis
      unfolding P using VarInt accepted_number [of kVarIntValue pos mem] pos
      by (auto simp: new_parser_eq split: option.splits)
  next
    case Bytes
    with push ids have "st = kLenDelimitedLen" "k = 0"
      by (auto simp: Push_preamble_def Let_def wire_codes_differ split: if_splits)
    then show ?thesis
      unfolding P using Bytes accepted_number [of kLenDelimitedLen pos mem] pos
      by (auto simp: new_parser_eq wire_codes_differ accepted_skip [of _ "unat _"] rejected error_state_def
          add.commute split: option.splits dest: ParseVarInt_loop_bounds)
  next
    case Fixed32
    with push ids have "st = kFieldPreamble" "k = 4"
      by (auto simp: Push_preamble_def Let_def wire_codes_differ split: if_splits)
    moreover have "4 \<le> length (drop pos mem) \<longleftrightarrow> \<not> pos + 4 > length mem" using pos by auto
    moreover have "drop 4 (drop pos mem) = drop (pos + 4) mem" by (simp add: add.commute)
    ultimately show ?thesis
      unfolding P unfolding Fixed32 wire_codes_differ accepted_skip [of "drop pos mem" k] by (simp add: new_parser_eq)
  next
    case Fixed64
    with push ids have "st = kFieldPreamble" "k = 8"
      by (auto simp: Push_preamble_def Let_def wire_codes_differ split: if_splits)
    moreover have "8 \<le> length (drop pos mem) \<longleftrightarrow> \<not> pos + 8 > length mem" using pos by auto
    moreover have "drop 8 (drop pos mem) = drop (pos + 8) mem" by (simp add: add.commute)
    ultimately show ?thesis
      unfolding P unfolding Fixed64 wire_codes_differ accepted_skip [of "drop pos mem" k] by (simp add: new_parser_eq)
  next
    case unknown
    with unknown [THEN spec, of kVarInt] unknown [THEN spec, of kFixed32] unknown [THEN spec, of kFixed64]
      unknown [THEN spec, of kLengthDelimited] push ids have "st = kUnknownFieldType"
      by (simp add: Push_preamble_def Let_def)
    then have "\<not> accepted (drop pos mem) (k, \<lparr>fsm_state = st, fsm_varint = 0, fsm_shift = 0\<rparr>)"
      by (intro rejected) (simp add: error_state_def)
    moreover have "ParseFieldPayload mem pos (length mem) (ucast (v AND 7)) = None"
      using unknown by (simp only: P if_False simp_thms)
    ultimately show ?thesis by simp
  qed
qed

lemma accepted_well_formed:
  "accepted (drop p mem) (0, new_parser) = well_formed mem p (length mem)"
proof (induction mem p "length mem" rule: well_formed.induct)
  case (1 mem p)
  show ?case
  proof (cases "length mem \<le> p")
    case True
    then show ?thesis by (subst well_formed.simps) (simp add: accepted_def fsm_valid_def new_parser_def)
  next
    case False
    show ?thesis
    proof (cases "ParseVarInt_loop mem (length mem) p 0 0")
      case None
      with False feed_no_number [OF None] show ?thesis
        by (subst well_formed.simps) (simp add: ParseVarInt_def new_parser_def)
    next
      case (Some r)
      obtain q v where r: "r = (q, v)" by fastforce
      with Some have pv: "ParseVarInt mem p (length mem) = (q, v)" and q: "p < q" "q \<le> length mem"
        by (auto simp: ParseVarInt_def dest: ParseVarInt_loop_bounds)
      obtain st k where push: "Push_preamble v = (st, k)" by fastforce
      from feed_number [OF Some [unfolded r], of kFieldPreamble st k] push
      have step: "accepted (drop p mem) (0, new_parser) =
          accepted (drop q mem) (k, \<lparr>fsm_state = st, fsm_varint = 0, fsm_shift = 0\<rparr>)"
        by (simp add: accepted_def new_parser_def)
      show ?thesis
      proof (cases "(ucast (drop_bit 3 v) :: u32) \<in> set kReservedFieldIds")
        case True
        with push have "st = kWroteReservedField" by (simp add: Push_preamble_def)
        with False pv True show ?thesis
          unfolding step by (subst well_formed.simps) (simp add: rejected error_state_def)
      next
        case ids: False
        note pay = accepted_payload [OF ids push q(2)]
        show ?thesis
        proof (cases "q < length mem")
          case True
          have "accepted (drop np mem) (0, new_parser) = well_formed mem np (length mem)"
            if "ParseFieldPayload mem q (length mem) (ucast (v AND 7)) = Some (np, iv, sz)" for np iv sz
            using "1.hyps" [OF False pv [symmetric] refl _ that refl refl] q(1) True ids by simp
          with False True pv q(1) ids show ?thesis
            unfolding step pay by (subst well_formed.simps) (auto split: option.splits)
        next
          case at_end: False
          then have "ParseVarInt_loop mem (length mem) q 0 0 = None" by (subst ParseVarInt_loop.simps) simp
          with at_end have "ParseFieldPayload mem q (length mem) (ucast (v AND 7)) = None"
            by (simp add: ParseFieldPayload_by_loop)
          with False at_end pv show ?thesis unfolding step pay by (subst well_formed.simps) simp
        qed
      qed
    qed
  qed
qed

subsection \<open>What the decoder finds in a well-formed packet\<close>

lemma ParseOneField_well_formed:
  assumes wf: "well_formed mem p fin" and p: "p < fin"
  obtains v np iv and sz :: u64 where "p < np" "well_formed mem np fin" "(ucast (drop_bit 3 (v :: u64)) :: u32) \<notin> set kReservedFieldIds"
    "ParseOneField mem p fin =
      (if (ucast (drop_bit 3 v) :: u32) = 0 then \<lparr>parse_res = kAbort, r_next = p, r_field = zero_field\<rparr>
       else if unat (ucast (drop_bit 3 v) :: u32) > 0xFFFF then \<lparr>parse_res = kSkip, r_next = np, r_field = zero_field\<rparr>
       else \<lparr>parse_res = kOk, r_next = np, r_field = field_initialize (ucast (ucast (drop_bit 3 v) :: u32)) (ucast (v AND 7)) iv (ucast sz)\<rparr>)"
proof -
  obtain pos v where pv: "ParseVarInt mem p fin = (pos, v)" by fastforce
  with wf p have w: "p < pos" "pos < fin" "(ucast (drop_bit 3 v) :: u32) \<notin> set kReservedFieldIds"
    "case ParseFieldPayload mem pos fin (ucast (v AND 7)) of None \<Rightarrow> False
     | Some (np, iv, sz) \<Rightarrow> unat sz \<le> kMaxMessageLength \<and> well_formed mem np fin"
    by (subst (asm) well_formed.simps, simp split: if_splits)+
  from w(4) obtain np iv sz where pay: "ParseFieldPayload mem pos fin (ucast (v AND 7)) = Some (np, iv, sz)"
    "unat sz \<le> kMaxMessageLength" "well_formed mem np fin" by (auto split: option.splits)
  have pre: "(if unat (mem ! p) < 0x80 then (Suc p, ucast (mem ! p)) else ParseVarInt mem p fin) = (pos, v)"
    using ParseVarInt_single [OF p, of mem] pv by simp
  have np: "p < np" using ParseFieldPayload_bounds [OF pay(1) w(2)] w(1) by simp
  show thesis
    by (rule that [OF np pay(3) w(3), of iv sz])
      (use p w(1,2) pay(2) in \<open>simp add: ParseOneField_def pre pay(1) Let_def del: unat_ucast_u32\<close>)
qed

lemma AllFields_well_formed:
  "well_formed mem p fin \<Longrightarrow> f \<in> set (AllFields mem p fin) \<Longrightarrow> ucast (f_id f) \<notin> set kReservedFieldIds"
proof (induction "fin - p" arbitrary: p rule: less_induct)
  case less
  show ?case
  proof (cases "p < fin")
    case False
    with less.prems(2) show ?thesis by (subst (asm) AllFields_step) (simp add: ParseOneField_def Let_def)
  next
    case True
    from less.prems(1) True obtain v np iv and sz :: u64 where n: "p < np" "well_formed mem np fin"
      "(ucast (drop_bit 3 (v :: u64)) :: u32) \<notin> set kReservedFieldIds" and
      r: "ParseOneField mem p fin =
      (if (ucast (drop_bit 3 v) :: u32) = 0 then \<lparr>parse_res = kAbort, r_next = p, r_field = zero_field\<rparr>
       else if unat (ucast (drop_bit 3 v) :: u32) > 0xFFFF then \<lparr>parse_res = kSkip, r_next = np, r_field = zero_field\<rparr>
       else \<lparr>parse_res = kOk, r_next = np, r_field = field_initialize (ucast (ucast (drop_bit 3 v) :: u32)) (ucast (v AND 7)) iv (ucast sz)\<rparr>)"
      by (rule ParseOneField_well_formed)
    have IH: "f \<in> set (AllFields mem np fin) \<Longrightarrow> ucast (f_id f) \<notin> set kReservedFieldIds" using less.hyps [OF _ n(2)] n(1) True by simp
    have small: "ucast (ucast w :: u16) = w" if "unat w \<le> 0xFFFF" for w :: u32
      using that by (simp add: word_unat_eq_iff unsigned_ucast_eq unsigned_take_bit_eq take_bit_nat_eq_self)
    show ?thesis
      using less.prems(2) IH n(3)
      by (subst (asm) AllFields_step) (auto simp: r Let_def field_initialize_def small split: if_splits)
  qed
qed

subsection \<open>Properties\<close>

text \<open>C31 validator_is_the_grammar: however the bytes of a packet are cut into slices, the state machine accepts them
  exactly when they form a sequence of whole fields, each with a preamble, an id that is not reserved and a payload as
  the decoder parses it.\<close>
theorem validator_is_the_grammar:
  "Validate slices = Some True \<longleftrightarrow> well_formed (concat slices) 0 (length (concat slices))"
  using accepted_well_formed [of 0 "concat slices"] by (simp add: Validate_accepted)

text \<open>In a packet that was validated the decoder finds no field with a reserved id: no producer
  can set the fields the service vouches for (its uid and sequence id, the trace configuration and statistics, the
  compressed packets and the synchronisation marker).\<close>
theorem validated_packets_trusted:
  assumes "Validate slices = Some True" and "i \<in> set kReservedFieldIds"
  shows "fst (FindField (concat slices) i (make_ProtoDecoder 0 (length (concat slices)))) = zero_field"
proof -
  let ?mem = "concat slices"
  have "well_formed ?mem 0 (length ?mem)" using assms(1) by (simp add: Validate_accepted accepted_well_formed [of 0 ?mem, simplified])
  then have "filter (\<lambda>f. ucast (f_id f) = i) (AllFields ?mem 0 (length ?mem)) = []"
    using AllFields_well_formed [of ?mem 0 "length ?mem"] assms(2) by (auto simp: filter_empty_conv)
  then show ?thesis by (simp add: FindField_def FindField_loop_AllFields make_ProtoDecoder_def)
qed

theorem validated_packets_trusted_witness:
  "Validate [[66, 3, 8], [1], [], [16, 64, 3]] = Some True \<and>
   fst (FindField [66, 3, 8, 1, 16, 64, 3] 10 (make_ProtoDecoder 0 (length [66, 3, 8, 1, 16, 64, 3 :: u8]))) = zero_field"
proof -
  have v: "Validate [[66, 3, 8], [1], [], [16, 64, 3]] = Some True" by code_simp
  have "(10 :: u32) \<in> set kReservedFieldIds" by (simp add: kReservedFieldIds_def)
  from validated_packets_trusted [OF v this] v show ?thesis by simp
qed

text \<open>The machine goes on reading after a number that is too long, and then shifts by more than 63 bits.\<close>

lemma Push_continue: "fsm_shift p < 64 \<Longrightarrow> Push 0x80 p = Some (p\<lparr>fsm_shift := fsm_shift p + 7,
    fsm_state := (if fsm_shift p + 7 \<ge> 64 then kInvalidVarInt else fsm_state p)\<rparr>, 0)"
  by (simp add: Push_def Let_def)

lemma Push_too_far: "64 \<le> fsm_shift p \<Longrightarrow> Push b p = None"
  by (simp add: Push_def)

lemma validator_shifts_too_far:
  "Validate [replicate 10 0x80] = Some False" "Validate [replicate 11 0x80] = None"
  by (simp_all add: Validate_def validate_slices_feed Push_continue numeral_eq_Suc new_parser_def fsm_valid_def Push_too_far)

end
