(* ===== verification/Id_Allocator.thy ===== *)
theory Id_Allocator
  imports VP_Prelude
begin

section \<open>Ids from a fixed pool (src/tracing/core/id_allocator.cc in perfetto.cc)\<close>

text \<open>
  The service and the arbiter take producer, session, buffer and writer ids from a pool: the search starts behind the id given
  out last and goes round, a bit vector that grows on demand says which ids are in use. \<open>None\<close> stands for a search that
  does not end or leaves the vector; the loop counter and \<open>id + 1\<close> are 32 bits wide, as in the code.
\<close>

record IdAllocator =
  max_id :: u32
  last_id :: u32
  ids_used :: "bool list"

definition make_IdAllocator :: "u32 \<Rightarrow> IdAllocator" where
  "make_IdAllocator m = \<lparr>max_id = m, last_id = 0, ids_used = []\<rparr>"

definition resize_ids :: "nat \<Rightarrow> bool list \<Rightarrow> bool list" where
  "resize_ids n xs = take n xs @ replicate (n - length xs) False"

partial_function (option) allocate_loop :: "u32 \<Rightarrow> IdAllocator \<Rightarrow> (u32 \<times> IdAllocator) option" where
  "allocate_loop ignored a =
     (if ignored \<le> max_id a
      then (let i = (if last_id a < max_id a then last_id a + 1 else 1);
                a' = a\<lparr>last_id := i\<rparr>
            in if unat i \<ge> length (ids_used a)
               then (let ids = resize_ids (unat (i + 1)) (ids_used a)
                     in if unat i < length ids then Some (i, a'\<lparr>ids_used := ids[unat i := True]\<rparr>) else None)
               else if \<not> ids_used a ! unat i then Some (i, a'\<lparr>ids_used := (ids_used a)[unat i := True]\<rparr>)
               else allocate_loop (ignored + 1) a')
      else Some (0, a))"

definition AllocateGeneric :: "IdAllocator \<Rightarrow> (u32 \<times> IdAllocator) option" where
  "AllocateGeneric a = allocate_loop 1 a"

text \<open>An id that is not in use is reported and ignored.\<close>

definition FreeGeneric :: "u32 \<Rightarrow> IdAllocator \<Rightarrow> IdAllocator" where
  "FreeGeneric i a =
     (if i = 0 \<or> unat i \<ge> length (ids_used a) \<or> \<not> ids_used a ! unat i then a
      else a\<lparr>ids_used := (ids_used a)[unat i := False]\<rparr>)"

subsection \<open>The ids in use\<close>

definition in_use :: "IdAllocator \<Rightarrow> nat set" where
  "in_use a = {i. 0 < i \<and> i < length (ids_used a) \<and> ids_used a ! i}"

definition id_inv :: "IdAllocator \<Rightarrow> bool" where
  "id_inv a \<longleftrightarrow> 0 < unat (max_id a) \<and> unat (max_id a) < 2 ^ 32 - 1 \<and> last_id a \<le> max_id a \<and>
     length (ids_used a) \<le> unat (max_id a) + 1"

lemma id_inv_make: "0 < unat m \<Longrightarrow> unat m < 2 ^ 32 - 1 \<Longrightarrow> id_inv (make_IdAllocator m) \<and> in_use (make_IdAllocator m) = {}"
  by (simp add: id_inv_def make_IdAllocator_def in_use_def)

lemma in_use_bound: "id_inv a \<Longrightarrow> in_use a \<subseteq> {1..unat (max_id a)}"
  by (auto simp: in_use_def id_inv_def)

text \<open>The id tried in step \<open>j + 1\<close> when the last one was \<open>b\<close>.\<close>

definition tried :: "nat \<Rightarrow> nat \<Rightarrow> nat \<Rightarrow> nat" where
  "tried m b j = (b + j) mod m + 1"

lemma tried_all:
  assumes "b \<le> m" and "0 < m" and "\<forall>j < m. tried m b j \<in> S"
  shows "{1..m} \<subseteq> S"
proof
  fix t assume "t \<in> {1..m}"
  then obtain u where t: "t = Suc u" "u < m" by (cases t) auto
  let ?j = "if b \<le> u then u - b else u + m - b"
  have "?j < m" using t(2) assms(1) by auto
  moreover have "b + ?j = u \<or> b + ?j = u + m" using t(2) assms(1) by auto
  then have "tried m b ?j = t" using t by (auto simp: tried_def)
  ultimately show "t \<in> S" using assms(3) by auto
qed

definition next_id :: "IdAllocator \<Rightarrow> u32" where
  "next_id a = (if last_id a < max_id a then last_id a + 1 else 1)"

lemma unat_following_id: "id_inv a \<Longrightarrow> unat (next_id a) = tried (unat (max_id a)) (unat (last_id a)) 0"
proof -
  assume inv: "id_inv a"
  show ?thesis
  proof (cases "last_id a < max_id a")
    case True
    then have "unat (last_id a) < unat (max_id a)" by (simp add: word_less_nat_alt)
    with inv True show ?thesis by (simp add: next_id_def tried_def id_inv_def unat_word_ariths)
  next
    case False
    with inv have "last_id a = max_id a" by (simp add: id_inv_def)
    with False show ?thesis by (simp add: next_id_def tried_def)
  qed
qed

lemma tried_Suc: "tried m (tried m b k) 0 = tried m b (Suc k)"
  by (simp add: tried_def mod_Suc_eq)

lemma allocate_step:
  "allocate_loop ignored a =
     (if ignored \<le> max_id a
      then (let i = next_id a; a' = a\<lparr>last_id := i\<rparr>
            in if unat i \<in> in_use a then allocate_loop (ignored + 1) a'
               else (let ids = (if unat i < length (ids_used a) then ids_used a else resize_ids (unat (i + 1)) (ids_used a))
                     in if unat i < length ids then Some (i, a'\<lparr>ids_used := ids[unat i := True]\<rparr>) else None))
      else Some (0, a))" if "id_inv a"
proof -
  have "0 < unat (next_id a)" using unat_following_id [OF that] by (simp add: tried_def)
  then show ?thesis
    by (subst allocate_loop.simps) (auto simp: next_id_def [symmetric] in_use_def Let_def)
qed

lemma in_use_set:
  assumes "0 < i" "i < length ids"
  shows "in_use (a\<lparr>ids_used := ids[i := True]\<rparr>) = insert i (in_use (a\<lparr>ids_used := ids\<rparr>))"
  using assms by (auto simp: in_use_def nth_list_update)

lemma in_use_resize: "in_use (a\<lparr>ids_used := resize_ids n (ids_used a)\<rparr>) = in_use a" if "length (ids_used a) \<le> n"
proof -
  have "resize_ids n (ids_used a) ! i \<longleftrightarrow> i < length (ids_used a) \<and> ids_used a ! i" if "i < n" for i
    using that \<open>length (ids_used a) \<le> n\<close> by (auto simp: resize_ids_def nth_append)
  moreover have "length (resize_ids n (ids_used a)) = n" using that by (simp add: resize_ids_def)
  ultimately show ?thesis using that by (auto simp: in_use_def)
qed

text \<open>Taking the next id when it is free.\<close>

lemma allocate_free:
  assumes inv: "id_inv a" and k: "ignored \<le> max_id a" and free: "unat (next_id a) \<notin> in_use a"
  shows "\<exists>a'. allocate_loop ignored a = Some (next_id a, a') \<and> id_inv a' \<and> max_id a' = max_id a \<and>
    in_use a' = insert (unat (next_id a)) (in_use a)"
proof -
  let ?i = "unat (next_id a)" and ?m = "unat (max_id a)"
  have i: "0 < ?i" "?i \<le> ?m" using inv by (auto simp: unat_following_id [OF inv] tried_def id_inv_def Suc_le_eq)
  then have s: "unat (next_id a + 1) = ?i + 1" using inv by (simp add: id_inv_def unat_word_ariths)
  define ids where "ids = (if ?i < length (ids_used a) then ids_used a else resize_ids (unat (next_id a + 1)) (ids_used a))"
  have len: "?i < length ids" "length ids \<le> ?m + 1"
    using inv i by (auto simp: ids_def s resize_ids_def id_inv_def)
  have use: "in_use (a\<lparr>last_id := next_id a, ids_used := ids\<rparr>) = in_use a"
    using in_use_resize [of a "?i + 1"] by (auto simp: ids_def s in_use_def)
  let ?a = "a\<lparr>last_id := next_id a, ids_used := ids[?i := True]\<rparr>"
  have "allocate_loop ignored a = Some (next_id a, ?a)"
    using k free len(1) by (subst allocate_step [OF inv]) (simp add: Let_def ids_def)
  moreover have "id_inv ?a" using inv i len(2) by (simp add: id_inv_def word_le_nat_alt)
  moreover have "in_use ?a = insert ?i (in_use a)"
    using in_use_set [OF i(1) len(1), of "a\<lparr>last_id := next_id a\<rparr>"] use by simp
  ultimately show ?thesis by auto
qed

lemma unat_step_counter: "k + 1 < 2 ^ 32 \<Longrightarrow> unat (word_of_nat (k + 1) :: u32) = k + 1"
  by (simp only: unat_of_nat) simp

text \<open>The search from step \<open>k + 1\<close> on: the first free id in the order of the search, or 0.\<close>

lemma allocate_search:
  assumes "id_inv a" and "ignored = word_of_nat (k + 1)" and "k \<le> unat (max_id a)" and "b \<le> unat (max_id a)"
    and "unat (next_id a) = tried (unat (max_id a)) b k" and "\<forall>j < k. tried (unat (max_id a)) b j \<in> in_use a"
  shows "\<exists>i a'. allocate_loop ignored a = Some (i, a') \<and> id_inv a' \<and> max_id a' = max_id a \<and>
    (if i = 0 then {1..unat (max_id a)} \<subseteq> in_use a \<and> in_use a' = in_use a
     else unat i \<notin> in_use a \<and> unat i \<in> {1..unat (max_id a)} \<and> in_use a' = insert (unat i) (in_use a))"
  using assms
proof (induction "unat (max_id a) - k" arbitrary: ignored k a)
  case 0
  then have k: "k = unat (max_id a)" by simp
  have "\<not> ignored \<le> max_id a"
  proof -
    have "unat ignored = k + 1" unfolding 0(3) using 0(2) k by (intro unat_step_counter) (simp add: id_inv_def)
    with k show ?thesis by (simp add: word_le_nat_alt)
  qed
  then have "allocate_loop ignored a = Some (0, a)" using 0 by (subst allocate_step) (simp_all add: Let_def)
  moreover have "{1..unat (max_id a)} \<subseteq> in_use a" using tried_all [OF 0(5)] 0 k by (simp add: id_inv_def)
  ultimately show ?case using 0 by auto
next
  case (Suc d)
  let ?m = "unat (max_id a)"
  have m: "k < ?m" "?m < 2 ^ 32 - 1" using Suc.hyps(2) Suc.prems(1) by (simp_all add: id_inv_def)
  then have "unat ignored = k + 1" unfolding Suc.prems(2) by (intro unat_step_counter) simp
  with m have ign: "ignored \<le> max_id a" by (simp add: word_le_nat_alt)
  have i: "0 < unat (next_id a)" "unat (next_id a) \<le> ?m" using m by (auto simp: Suc.prems(5) tried_def Suc_le_eq)
  show ?case
  proof (cases "unat (next_id a) \<in> in_use a")
    case False
    then obtain a' where "allocate_loop ignored a = Some (next_id a, a')" "id_inv a'" "max_id a' = max_id a"
      "in_use a' = insert (unat (next_id a)) (in_use a)"
      using allocate_free [OF Suc.prems(1) ign] by blast
    moreover have "next_id a \<noteq> 0" using i(1) by auto
    ultimately show ?thesis using False i by (intro exI [of _ "next_id a"] exI [of _ a']) simp
  next
    case True
    let ?a = "a\<lparr>last_id := next_id a\<rparr>"
    have inv: "id_inv ?a" using Suc.prems(1) i by (simp add: id_inv_def word_le_nat_alt)
    have use: "in_use ?a = in_use a" by (simp add: in_use_def)
    have step: "allocate_loop ignored a = allocate_loop (ignored + 1) ?a"
      using True ign by (subst allocate_step [OF Suc.prems(1)]) (simp add: Let_def)
    have "unat (next_id ?a) = tried (unat (max_id ?a)) b (Suc k)"
      using unat_following_id [OF inv] by (simp add: Suc.prems(5) tried_Suc)
    moreover have "\<forall>j < Suc k. tried (unat (max_id ?a)) b j \<in> in_use ?a"
      using Suc.prems(5,6) True by (auto simp: use less_Suc_eq)
    moreover have "ignored + 1 = word_of_nat (Suc k + 1)" "d = unat (max_id ?a) - Suc k" "Suc k \<le> unat (max_id ?a)"
        "b \<le> unat (max_id ?a)"
      using Suc.prems(2,4) Suc.hyps(2) m by simp_all
    moreover have max: "max_id ?a = max_id a" by simp
    ultimately show ?thesis using Suc.hyps(1) [of ?a "Suc k" "ignored + 1", OF _ inv] unfolding step use max by blast
  qed
qed

text \<open>Any sequence of requests, each taking an id or giving one back.\<close>

datatype id_request = Take_id | Give_back u32

fun id_run :: "id_request list \<Rightarrow> IdAllocator \<Rightarrow> IdAllocator option" where
  "id_run [] a = Some a"
| "id_run (Take_id # rs) a = (case AllocateGeneric a of None \<Rightarrow> None | Some (i, a') \<Rightarrow> id_run rs a')"
| "id_run (Give_back i # rs) a = id_run rs (FreeGeneric i a)"

lemma free_inv: "id_inv a \<Longrightarrow> id_inv (FreeGeneric i a) \<and> max_id (FreeGeneric i a) = max_id a"
  by (simp add: FreeGeneric_def id_inv_def)

lemma free_in_use: "in_use (FreeGeneric i a) = in_use a - {unat i}"
  by (auto simp: FreeGeneric_def in_use_def nth_list_update unat_eq_0 split: if_splits)

lemma allocate_spec:
  assumes "id_inv a"
  shows "\<exists>i a'. AllocateGeneric a = Some (i, a') \<and> id_inv a' \<and> max_id a' = max_id a \<and>
    (if i = 0 then {1..unat (max_id a)} \<subseteq> in_use a \<and> in_use a' = in_use a
     else unat i \<notin> in_use a \<and> unat i \<in> {1..unat (max_id a)} \<and> in_use a' = insert (unat i) (in_use a))"
  using allocate_search [of a 1 0 "unat (last_id a)"] assms unat_following_id [OF assms]
  by (simp add: AllocateGeneric_def id_inv_def word_le_nat_alt)

lemma id_run_inv: "id_inv a \<Longrightarrow> \<exists>a'. id_run rs a = Some a' \<and> id_inv a' \<and> max_id a' = max_id a"
proof (induction rs a rule: id_run.induct)
  case (2 rs a)
  from allocate_spec [OF "2.prems"] obtain i a' where "AllocateGeneric a = Some (i, a')" "id_inv a'" "max_id a' = max_id a"
    by blast
  with "2.IH" [OF \<open>AllocateGeneric a = _\<close> refl] show ?case by simp
next
  case (3 i rs a)
  with free_inv show ?case by fastforce
qed simp

subsection \<open>Properties\<close>

text \<open>C34 ids_unique: after any sequence of requests to a pool of fewer than 2^32 - 1 ids, taking an id ends: it gives an
  id between 1 and the maximum that is not in use and marks it as in use, or 0 exactly when all ids are in use; and giving
  an id back frees that id and no other.\<close>
theorem ids_unique:
  assumes "0 < unat m" and "unat m < 2 ^ 32 - 1"
  shows "\<exists>a i a'. id_run rs (make_IdAllocator m) = Some a \<and> AllocateGeneric a = Some (i, a') \<and>
    (i = 0 \<longleftrightarrow> in_use a = {1..unat m}) \<and> (i = 0 \<longrightarrow> in_use a' = in_use a) \<and>
    (i \<noteq> 0 \<longrightarrow> unat i \<in> {1..unat m} - in_use a \<and> in_use a' = insert (unat i) (in_use a)) \<and>
    in_use (FreeGeneric j a) = in_use a - {unat j}"
proof -
  have "id_inv (make_IdAllocator m)" using id_inv_make [OF assms] by simp
  then obtain a where a: "id_run rs (make_IdAllocator m) = Some a" "id_inv a" "max_id a = m"
    using id_run_inv [of "make_IdAllocator m" rs] by (auto simp: make_IdAllocator_def)
  from allocate_spec [OF a(2)] in_use_bound [OF a(2)] a show ?thesis
    by (auto simp: free_in_use split: if_splits)
qed

theorem ids_unique_witness:
  "\<exists>a i a'. id_run [Take_id, Give_back 1] (make_IdAllocator 2) = Some a \<and> AllocateGeneric a = Some (i, a') \<and>
    (i = 0 \<longleftrightarrow> in_use a = {1..2})"
  using ids_unique [of 2 "[Take_id, Give_back 1]" 1] by auto

text \<open>With the largest pool \<open>id + 1\<close> wraps around and the vector is shrunk to nothing before it is written.\<close>

lemma allocate_wraps:
  assumes "max_id a = - 1" and "last_id a = - 2" and "length (ids_used a) < 2 ^ 32 - 1"
  shows "AllocateGeneric a = None"
proof -
  have "(- 2 :: u32) < - 1" "unat (- 1 :: u32) = 2 ^ 32 - 1" "(- 2 :: u32) + 1 = - 1" by (simp_all add: unsigned_minus_1_eq_mask mask_eq_exp_minus_1)
  with assms show ?thesis
    unfolding AllocateGeneric_def by (subst allocate_loop.simps) (simp add: Let_def resize_ids_def)
qed

end
