(* ===== verification/Shared_Memory_Abi.thy ===== *)
theory Shared_Memory_Abi
  imports VP_Prelude
begin

section \<open>The layout of the shared memory buffer (ext/tracing/core/shared_memory_abi.h and .cc)\<close>

text \<open>
  Producers and the service of the SDK share a buffer that is divided into pages and, by the producer, into chunks. One word
  per page holds how the page is divided and two bits of state per chunk. This theory has the word operations, the geometry
  of chunks and the operations on chunk headers; addresses are natural numbers, 0 is the null pointer, and \<open>None\<close> is a failed
  \<open>PERFETTO_CHECK\<close>. The operations that race for the word are in \<open>Shared_Memory_Race\<close>.
\<close>

datatype ChunkState = kChunkFree | kChunkBeingWritten | kChunkBeingRead | kChunkComplete

fun state_code :: "ChunkState \<Rightarrow> u32" where
  "state_code kChunkFree = 0"
| "state_code kChunkBeingWritten = 1"
| "state_code kChunkBeingRead = 2"
| "state_code kChunkComplete = 3"

definition state_of_code :: "u32 \<Rightarrow> ChunkState" where
  "state_of_code w = (if w = 0 then kChunkFree else if w = 1 then kChunkBeingWritten
     else if w = 2 then kChunkBeingRead else kChunkComplete)"

definition kMinPageSize :: nat where "kMinPageSize = 4 * 1024"
definition kMaxPageSize :: nat where "kMaxPageSize = 64 * 1024"
definition kChunkShift :: nat where "kChunkShift = 2"
definition kChunkMask :: u32 where "kChunkMask = 0x3"
definition kLayoutMask :: u32 where "kLayoutMask = 0x70000000"
definition kLayoutShift :: nat where "kLayoutShift = 28"
definition kAllChunksMask :: u32 where "kAllChunksMask = 0x0FFFFFFF"
definition kAllChunksComplete :: u32 where "kAllChunksComplete = 0x0FFFFFFF"
definition kAllChunksFree :: u32 where "kAllChunksFree = 0"

definition kNumChunksForLayout :: "nat list" where
  "kNumChunksForLayout = [0, 1, 2, 4, 7, 14, 0, 0]"

lemmas abi_consts = kChunkShift_def kLayoutMask_def kLayoutShift_def kAllChunksMask_def
  kAllChunksComplete_def kAllChunksFree_def

subsection \<open>Reading the word\<close>

definition layout_index :: "u32 \<Rightarrow> nat" where
  "layout_index page_layout = unat (drop_bit kLayoutShift (page_layout AND kLayoutMask))"

definition GetNumChunksForLayout :: "u32 \<Rightarrow> nat" where
  "GetNumChunksForLayout page_layout = kNumChunksForLayout ! layout_index page_layout"

definition chunk_bits :: "u32 \<Rightarrow> nat \<Rightarrow> u32" where
  "chunk_bits page_layout chunk_idx = drop_bit (chunk_idx * kChunkShift) page_layout AND kChunkMask"

definition GetChunkStateFromLayout :: "u32 \<Rightarrow> nat \<Rightarrow> ChunkState" where
  "GetChunkStateFromLayout page_layout chunk_idx = state_of_code (chunk_bits page_layout chunk_idx)"

definition is_page_free :: "u32 \<Rightarrow> bool" where
  "is_page_free layout \<longleftrightarrow> layout = 0"

definition is_page_complete :: "u32 \<Rightarrow> bool" where
  "is_page_complete layout =
     (let num_chunks = GetNumChunksForLayout layout
      in if num_chunks = 0 then False
         else layout AND kAllChunksMask = kAllChunksComplete AND (push_bit (num_chunks * kChunkShift) 1 - 1))"

text \<open>The loops of \<open>GetUsedChunks\<close> and \<open>GetFreeChunks\<close>: bit \<open>i\<close> of the result is the test of the two lowest bits after
  \<open>i\<close> shifts.\<close>

fun chunk_bitmap :: "(u32 \<Rightarrow> bool) \<Rightarrow> nat \<Rightarrow> nat \<Rightarrow> u32 \<Rightarrow> u32 \<Rightarrow> u32" where
  "chunk_bitmap test 0 i page_layout res = res"
| "chunk_bitmap test (Suc n) i page_layout res =
     chunk_bitmap test n (i + 1) (drop_bit kChunkShift page_layout)
       (res OR (if test (page_layout AND kChunkMask) then push_bit i 1 else 0))"

definition GetUsedChunks :: "u32 \<Rightarrow> u32" where
  "GetUsedChunks page_layout =
     chunk_bitmap (\<lambda>s. s \<noteq> state_code kChunkFree) (GetNumChunksForLayout page_layout) 0 page_layout 0"

definition GetFreeChunks :: "u32 \<Rightarrow> u32" where
  "GetFreeChunks layout =
     chunk_bitmap (\<lambda>s. s = state_code kChunkFree) (GetNumChunksForLayout layout) 0 layout 0"

text \<open>The word with one chunk in another state, and the word of a page that has just been divided (\<open>layout\<close> is 1 to 5).\<close>

definition with_chunk_state :: "u32 \<Rightarrow> nat \<Rightarrow> ChunkState \<Rightarrow> u32" where
  "with_chunk_state layout chunk_idx desired =
     (layout AND NOT (push_bit (chunk_idx * kChunkShift) kChunkMask)) OR push_bit (chunk_idx * kChunkShift) (state_code desired)"

definition partitioned_layout :: "u32 \<Rightarrow> u32" where
  "partitioned_layout layout = push_bit kLayoutShift layout AND kLayoutMask"

subsection \<open>The word is an array of states\<close>

lemma layout_index_less: "layout_index l < 8"
proof -
  have "drop_bit 28 (l AND 0x70000000) = drop_bit 28 l AND (7 :: u32)"
    by (simp add: drop_bit_and)
  moreover have "unat (drop_bit 28 l AND (7 :: u32)) < 8"
  proof -
    have seven: "(7 :: u32) = mask 3" by (simp add: mask_eq_exp_minus_1)
    have "unat (take_bit 3 (drop_bit 28 l)) < 2 ^ 3"
      by (simp only: unsigned_take_bit_eq take_bit_nat_less_exp)
    then show ?thesis unfolding seven by (simp add: take_bit_eq_mask)
  qed
  ultimately show ?thesis by (simp add: layout_index_def abi_consts)
qed

lemma num_chunks_values: "GetNumChunksForLayout l \<in> {0, 1, 2, 4, 7, 14}"
proof -
  have "kNumChunksForLayout ! i \<in> set kNumChunksForLayout" if "i < 8" for i
    using that by (intro nth_mem) (simp add: kNumChunksForLayout_def)
  from this [OF layout_index_less [of l]] show ?thesis
    by (auto simp: GetNumChunksForLayout_def kNumChunksForLayout_def)
qed

lemma num_chunks_max: "GetNumChunksForLayout l \<le> 14"
  using num_chunks_values [of l] by auto

lemma kChunkMask_mask: "kChunkMask = mask 2"
  by (simp add: kChunkMask_def mask_eq_exp_minus_1)

lemma bit_state_code: "bit (state_code s) n \<Longrightarrow> n < 2"
proof -
  have "state_code s = take_bit 2 (state_code s)" by (cases s) simp_all
  then show "bit (state_code s) n \<Longrightarrow> n < 2" by (metis bit_take_bit_iff)
qed

lemma bit_chunk_bits: "bit (chunk_bits l i) n \<longleftrightarrow> n < 2 \<and> bit l (2 * i + n)"
  by (auto simp: chunk_bits_def abi_consts kChunkMask_mask bit_simps mult.commute)

lemma bit_with_chunk_state:
  "n < 32 \<Longrightarrow> bit (with_chunk_state l i s) n \<longleftrightarrow>
     (if 2 * i \<le> n \<and> n < 2 * i + 2 then bit (state_code s) (n - 2 * i) else bit l n)"
  by (auto simp: with_chunk_state_def abi_consts kChunkMask_mask bit_simps mult.commute dest: bit_state_code)

lemma chunk_bits_with:
  assumes "i < 14" "j < 14"
  shows "chunk_bits (with_chunk_state l i s) j = (if i = j then state_code s else chunk_bits l j)"
proof (rule bit_eqI)
  fix n assume "possible_bit TYPE(u32) n"
  show "bit (chunk_bits (with_chunk_state l i s) j) n \<longleftrightarrow> bit (if i = j then state_code s else chunk_bits l j) n"
    using assms by (cases "n < 2") (auto simp: bit_chunk_bits bit_with_chunk_state dest: bit_state_code)
qed

lemma state_of_code [simp]: "state_of_code (state_code s) = s"
  by (cases s) (simp_all add: state_of_code_def)

lemma state_code_inj [simp]: "state_code s = state_code t \<longleftrightarrow> s = t"
  by (metis state_of_code)

lemma chunk_bits_state: "chunk_bits l i = state_code (GetChunkStateFromLayout l i)"
proof -
  have "chunk_bits l i = take_bit 2 (chunk_bits l i)"
    by (rule bit_eqI) (auto simp: bit_take_bit_iff bit_chunk_bits)
  then have "unat (chunk_bits l i) < 2 ^ 2" by (metis unsigned_take_bit_eq take_bit_nat_less_exp)
  then have "unat (chunk_bits l i) \<in> {0, 1, 2, 3}" by auto
  then have "chunk_bits l i \<in> {0, 1, 2, 3}"
    by (auto simp: word_unat_eq_iff)
  then show ?thesis by (auto simp: GetChunkStateFromLayout_def state_of_code_def)
qed

lemma state_with_chunk_state:
  "i < 14 \<Longrightarrow> j < 14 \<Longrightarrow> GetChunkStateFromLayout (with_chunk_state l i s) j = (if i = j then s else GetChunkStateFromLayout l j)"
  by (simp add: GetChunkStateFromLayout_def chunk_bits_with)

lemma kLayoutMask_bits: "bit kLayoutMask n \<longleftrightarrow> 28 \<le> n \<and> n < 31"
proof -
  have k: "kLayoutMask = push_bit 28 (mask 3)" by (simp add: kLayoutMask_def mask_eq_exp_minus_1)
  show ?thesis unfolding k by (auto simp: bit_simps)
qed

lemma layout_index_with [simp]: "i < 14 \<Longrightarrow> layout_index (with_chunk_state l i s) = layout_index l"
proof -
  assume "i < 14"
  then have "with_chunk_state l i s AND kLayoutMask = l AND kLayoutMask"
    by (intro bit_eqI) (auto simp: bit_and_iff kLayoutMask_bits bit_with_chunk_state)
  then show ?thesis by (simp add: layout_index_def)
qed

lemma num_chunks_with [simp]: "i < 14 \<Longrightarrow> GetNumChunksForLayout (with_chunk_state l i s) = GetNumChunksForLayout l"
  by (simp add: GetNumChunksForLayout_def)

text \<open>The states of a page, and the words the protocol produces: nothing beyond the last chunk, and a page whose chunks are all
  free is not divided unless it has just been.\<close>

definition page_states :: "u32 \<Rightarrow> ChunkState list" where
  "page_states l = map (GetChunkStateFromLayout l) [0..<GetNumChunksForLayout l]"

definition layout_ok :: "u32 \<Rightarrow> bool" where
  "layout_ok l \<longleftrightarrow> (\<forall>j < 14. GetNumChunksForLayout l \<le> j \<longrightarrow> GetChunkStateFromLayout l j = kChunkFree)"

lemma undivided: "GetNumChunksForLayout 0 = 0" "GetChunkStateFromLayout 0 i = kChunkFree" "layout_ok 0"
proof -
  show n: "GetNumChunksForLayout 0 = 0" by (simp add: GetNumChunksForLayout_def layout_index_def kNumChunksForLayout_def)
  show s: "GetChunkStateFromLayout 0 i = kChunkFree" for i
    by (simp add: GetChunkStateFromLayout_def chunk_bits_def state_of_code_def)
  then show "layout_ok 0" by (simp add: layout_ok_def)
qed

lemma length_page_states [simp]: "length (page_states l) = GetNumChunksForLayout l"
  by (simp add: page_states_def)

lemma nth_page_states [simp]: "i < GetNumChunksForLayout l \<Longrightarrow> page_states l ! i = GetChunkStateFromLayout l i"
  by (simp add: page_states_def)

lemma page_states_with:
  assumes "i < GetNumChunksForLayout l"
  shows "page_states (with_chunk_state l i s) = (page_states l)[i := s]"
proof (rule nth_equalityI)
  have i: "i < 14" using assms num_chunks_max [of l] by simp
  then show "length (page_states (with_chunk_state l i s)) = length ((page_states l)[i := s])" by simp
  fix j assume "j < length (page_states (with_chunk_state l i s))"
  then have j: "j < GetNumChunksForLayout l" "j < 14" using i num_chunks_max [of l] by simp_all
  with i show "page_states (with_chunk_state l i s) ! j = (page_states l)[i := s] ! j"
    by (simp add: state_with_chunk_state nth_list_update)
qed

lemma layout_ok_with: "layout_ok l \<Longrightarrow> i < GetNumChunksForLayout l \<Longrightarrow> layout_ok (with_chunk_state l i s)"
  using num_chunks_max [of l] by (auto simp: layout_ok_def state_with_chunk_state)

text \<open>Words agree below bit 28 when their chunks agree.\<close>

lemma low_bits:
  "l AND kAllChunksMask = m AND kAllChunksMask \<longleftrightarrow> (\<forall>j < 14. chunk_bits l j = chunk_bits m j)"
proof
  assume a: "l AND kAllChunksMask = m AND kAllChunksMask"
  have k: "kAllChunksMask = mask 28" by (simp add: kAllChunksMask_def mask_eq_exp_minus_1)
  have "bit l n = bit m n" if "n < 28" for n
    using arg_cong [OF a [unfolded k], of "\<lambda>w. bit w n"] that by (simp add: bit_and_iff bit_mask_iff)
  then show "\<forall>j < 14. chunk_bits l j = chunk_bits m j"
    by (auto intro!: bit_eqI simp: bit_chunk_bits)
next
  assume a: "\<forall>j < 14. chunk_bits l j = chunk_bits m j"
  have k: "kAllChunksMask = mask 28" by (simp add: kAllChunksMask_def mask_eq_exp_minus_1)
  have "bit l n = bit m n" if "n < 28" for n
  proof -
    have "n div 2 < 14" using that by simp
    with a have "bit (chunk_bits l (n div 2)) (n mod 2) = bit (chunk_bits m (n div 2)) (n mod 2)" by simp
    then show ?thesis by (simp add: bit_chunk_bits)
  qed
  then show "l AND kAllChunksMask = m AND kAllChunksMask"
    unfolding k by (auto intro!: bit_eqI simp: bit_and_iff bit_mask_iff)
qed

lemma all_chunks_free: "l AND kAllChunksMask = kAllChunksFree \<longleftrightarrow> (\<forall>j < 14. GetChunkStateFromLayout l j = kChunkFree)"
proof -
  have z: "chunk_bits 0 j = 0" for j by (simp add: chunk_bits_def)
  have "chunk_bits l j = 0 \<longleftrightarrow> GetChunkStateFromLayout l j = kChunkFree" for j
    using state_code_inj [of "GetChunkStateFromLayout l j" kChunkFree] by (simp add: chunk_bits_state)
  with low_bits [of l 0] z show ?thesis by (simp add: kAllChunksFree_def)
qed

lemma complete_mask_bits:
  "n \<le> 14 \<Longrightarrow> j < 14 \<Longrightarrow> chunk_bits (kAllChunksComplete AND (push_bit (n * kChunkShift) 1 - 1)) j = (if j < n then 3 else 0)"
proof -
  assume n: "n \<le> 14" "j < 14"
  have three: "(3 :: u32) = mask 2" by (simp add: mask_eq_exp_minus_1)
  have k: "kAllChunksComplete = mask 28" by (simp add: kAllChunksComplete_def mask_eq_exp_minus_1)
  have m: "push_bit (n * kChunkShift) 1 - 1 = (mask (2 * n) :: u32)"
    by (simp add: kChunkShift_def mask_eq_exp_minus_1 push_bit_eq_mult mult.commute)
  show ?thesis unfolding k m three using n
    by (auto intro!: bit_eqI simp: bit_chunk_bits bit_and_iff bit_mask_iff)
qed

lemma is_page_complete_states:
  assumes "layout_ok l"
  shows "is_page_complete l \<longleftrightarrow> page_states l \<noteq> [] \<and> set (page_states l) \<subseteq> {kChunkComplete}"
proof -
  let ?n = "GetNumChunksForLayout l"
  let ?m = "kAllChunksComplete AND (push_bit (?n * kChunkShift) 1 - 1)"
  have m: "?m AND kAllChunksMask = ?m"
    by (rule bit_eqI) (auto simp: bit_and_iff kAllChunksComplete_def kAllChunksMask_def)
  have c: "chunk_bits l j = (if j < ?n then 3 else 0) \<longleftrightarrow> (j < ?n \<longrightarrow> GetChunkStateFromLayout l j = kChunkComplete)"
    if "j < 14" for j
    using that assms state_code_inj [of "GetChunkStateFromLayout l j" kChunkComplete]
    by (auto simp: chunk_bits_state layout_ok_def)
  have "l AND kAllChunksMask = ?m \<longleftrightarrow> (\<forall>j < 14. chunk_bits l j = (if j < ?n then 3 else 0))"
    using low_bits [of l ?m] complete_mask_bits [OF num_chunks_max] unfolding m by simp
  also have "\<dots> \<longleftrightarrow> (\<forall>j < ?n. GetChunkStateFromLayout l j = kChunkComplete)"
    using c num_chunks_max [of l] by (auto dest: less_le_trans)
  finally have "l AND kAllChunksMask = ?m \<longleftrightarrow> (\<forall>j < ?n. GetChunkStateFromLayout l j = kChunkComplete)" .
  moreover have "set (page_states l) \<subseteq> {kChunkComplete} \<longleftrightarrow> (\<forall>j < ?n. GetChunkStateFromLayout l j = kChunkComplete)"
    by (auto simp: page_states_def image_subset_iff)
  moreover have "page_states l \<noteq> [] \<longleftrightarrow> ?n \<noteq> 0" by (simp add: page_states_def)
  ultimately show ?thesis by (simp only: is_page_complete_def Let_def) simp
qed

lemma chunk_bits_shifted: "chunk_bits (drop_bit kChunkShift l) j = chunk_bits l (Suc j)"
  by (simp add: chunk_bits_def kChunkShift_def)

lemma bit_chunk_bitmap:
  "i + n \<le> 32 \<Longrightarrow> bit (chunk_bitmap test n i l res) k \<longleftrightarrow> bit res k \<or> (i \<le> k \<and> k < i + n \<and> test (chunk_bits l (k - i)))"
proof (induction test n i l res rule: chunk_bitmap.induct)
  case (2 test n i l res)
  have z: "chunk_bits l 0 = l AND kChunkMask" by (simp add: chunk_bits_def)
  have s: "chunk_bits l (k - i) = chunk_bits (drop_bit kChunkShift l) (k - (i + 1))" if "i < k"
    using that by (simp add: chunk_bits_shifted Suc_diff_Suc)
  show ?case
    using 2 s by (cases "i < k"; cases "k = i") (auto simp: bit_simps z)
qed auto

lemma free_chunks_bits: "bit (GetFreeChunks l) k \<longleftrightarrow> k < GetNumChunksForLayout l \<and> GetChunkStateFromLayout l k = kChunkFree"
  using bit_chunk_bitmap [of 0 "GetNumChunksForLayout l"] num_chunks_max [of l]
  by (simp add: GetFreeChunks_def chunk_bits_state del: state_code.simps)

lemma used_chunks_bits: "bit (GetUsedChunks l) k \<longleftrightarrow> k < GetNumChunksForLayout l \<and> GetChunkStateFromLayout l k \<noteq> kChunkFree"
  using bit_chunk_bitmap [of 0 "GetNumChunksForLayout l"] num_chunks_max [of l]
  by (simp add: GetUsedChunks_def chunk_bits_state del: state_code.simps)

text \<open>A page that has just been divided.\<close>

lemma partitioned_states:
  assumes "d \<in> {1, 2, 3, 4, 5}"
  shows "page_states (partitioned_layout d) = replicate (kNumChunksForLayout ! unat d) kChunkFree"
    and "layout_ok (partitioned_layout d)" and "page_states (partitioned_layout d) \<noteq> []"
proof -
  have n: "GetNumChunksForLayout (partitioned_layout d) = kNumChunksForLayout ! unat d"
    using assms by (auto simp: GetNumChunksForLayout_def layout_index_def partitioned_layout_def abi_consts)
  have "partitioned_layout d AND kAllChunksMask = kAllChunksFree"
    using assms by (auto simp: partitioned_layout_def abi_consts)
  then have f: "\<forall>j < 14. GetChunkStateFromLayout (partitioned_layout d) j = kChunkFree" by (simp only: all_chunks_free)
  then show "layout_ok (partitioned_layout d)" by (simp add: layout_ok_def)
  have "GetNumChunksForLayout (partitioned_layout d) \<le> 14" by (rule num_chunks_max)
  with f n show "page_states (partitioned_layout d) = replicate (kNumChunksForLayout ! unat d) kChunkFree"
    by (intro nth_equalityI) auto
  then show "page_states (partitioned_layout d) \<noteq> []" using assms by (auto simp: kNumChunksForLayout_def)
qed

subsection \<open>Where the chunks are\<close>

record SharedMemoryABI =
  abi_start :: nat
  abi_size :: nat
  abi_page_size :: nat
  abi_num_pages :: nat
  abi_chunk_sizes :: "nat list"

record Chunk =
  chunk_begin :: nat
  chunk_size :: nat
  chunk_idx :: nat

text \<open>The size of a page header is 8; the subtraction wraps around for a page that is too small.\<close>

definition GetChunkSize :: "nat \<Rightarrow> nat \<Rightarrow> nat" where
  "GetChunkSize page_size divider = ((page_size + 2 ^ 64 - 8) mod 2 ^ 64) div divider div 4 * 4"

definition InitChunkSizes :: "nat \<Rightarrow> nat list option" where
  "InitChunkSizes page_size =
     (let sizes = map (\<lambda>num_chunks. if num_chunks = 0 then 0 else GetChunkSize page_size num_chunks) kNumChunksForLayout
      in if \<forall>s \<in> set sizes. s \<le> 0xFFFF then Some sizes else None)"

definition abi_Initialize :: "nat \<Rightarrow> nat \<Rightarrow> nat \<Rightarrow> SharedMemoryABI option" where
  "abi_Initialize start sz page_size =
     (if page_size = 0 then None
      else (case InitChunkSizes page_size of
              None \<Rightarrow> None
            | Some sizes \<Rightarrow>
                if page_size \<ge> kMinPageSize \<and> page_size \<le> kMaxPageSize \<and> page_size mod kMinPageSize = 0 \<and>
                   start mod kMinPageSize = 0 \<and> sz mod page_size = 0
                then Some \<lparr>abi_start = start, abi_size = sz, abi_page_size = page_size,
                           abi_num_pages = sz div page_size, abi_chunk_sizes = sizes\<rparr>
                else None))"

definition page_start :: "SharedMemoryABI \<Rightarrow> nat \<Rightarrow> nat" where
  "page_start abi page_idx = abi_start abi + abi_page_size abi * page_idx"

definition GetChunkSizeForLayout :: "SharedMemoryABI \<Rightarrow> u32 \<Rightarrow> nat" where
  "GetChunkSizeForLayout abi page_layout = abi_chunk_sizes abi ! layout_index page_layout"

definition make_Chunk :: "nat \<Rightarrow> nat \<Rightarrow> nat \<Rightarrow> Chunk option" where
  "make_Chunk begin sz idx =
     (if begin mod 4 = 0 \<and> sz > 0 then Some \<lparr>chunk_begin = begin, chunk_size = sz, chunk_idx = idx\<rparr> else None)"

definition invalid_Chunk :: Chunk where
  "invalid_Chunk = \<lparr>chunk_begin = 0, chunk_size = 0, chunk_idx = 0\<rparr>"

definition chunk_valid :: "Chunk \<Rightarrow> bool" where
  "chunk_valid c \<longleftrightarrow> chunk_begin c \<noteq> 0 \<and> chunk_size c \<noteq> 0"

definition GetChunkUnchecked :: "SharedMemoryABI \<Rightarrow> nat \<Rightarrow> u32 \<Rightarrow> nat \<Rightarrow> Chunk option" where
  "GetChunkUnchecked abi page_idx page_layout idx =
     (let sz = GetChunkSizeForLayout abi page_layout; offset = 8 + idx * sz
      in make_Chunk (page_start abi page_idx + offset) sz idx)"

definition GetPageAndChunkIndex :: "SharedMemoryABI \<Rightarrow> Chunk \<Rightarrow> nat \<times> nat" where
  "GetPageAndChunkIndex abi chunk =
     (let rel_addr = chunk_begin chunk - abi_start abi; offset = rel_addr mod abi_page_size abi
      in (rel_addr div abi_page_size abi, (offset - 8) div chunk_size chunk))"

text \<open>The payload between the 8-byte header and the end.\<close>

definition payload_begin :: "Chunk \<Rightarrow> nat" where
  "payload_begin c = chunk_begin c + 8"

definition payload_size :: "Chunk \<Rightarrow> nat" where
  "payload_size c = chunk_size c - 8"

lemma abi_Initialize_cases:
  assumes "abi_Initialize start sz page_size = Some abi"
  shows "abi_start abi = start" "abi_size abi = sz" "abi_page_size abi = page_size" "abi_num_pages abi = sz div page_size"
    "kMinPageSize \<le> page_size" "page_size \<le> kMaxPageSize" "start mod kMinPageSize = 0" "page_size mod kMinPageSize = 0"
    "abi_chunk_sizes abi = map (\<lambda>n. if n = 0 then 0 else GetChunkSize page_size n) kNumChunksForLayout"
  using assms by (auto simp: abi_Initialize_def InitChunkSizes_def Let_def split: if_splits option.splits)

lemma chunk_size_bounds:
  assumes abi: "abi_Initialize start sz page_size = Some abi" and n: "GetNumChunksForLayout l \<noteq> 0"
  shows "284 < GetChunkSizeForLayout abi l" and "GetChunkSizeForLayout abi l mod 4 = 0"
    and "GetNumChunksForLayout l * GetChunkSizeForLayout abi l \<le> page_size - 8"
proof -
  note a = abi_Initialize_cases [OF abi]
  let ?n = "GetNumChunksForLayout l"
  have "length kNumChunksForLayout = 8" by (simp add: kNumChunksForLayout_def)
  then have s: "GetChunkSizeForLayout abi l = GetChunkSize page_size ?n"
    using layout_index_less [of l] n by (simp add: GetChunkSizeForLayout_def a(9) GetNumChunksForLayout_def)
  have p: "4096 \<le> page_size" "page_size \<le> 65536" using a(5,6) by (simp_all add: kMinPageSize_def kMaxPageSize_def)
  then have "(page_size + 2 ^ 64 - 8) mod 2 ^ 64 = page_size - 8"
  proof -
    have "page_size + 2 ^ 64 - 8 = (page_size - 8) + 2 ^ 64" using p(1) by simp
    then have "(page_size + 2 ^ 64 - 8) mod 2 ^ 64 = (page_size - 8) mod 2 ^ 64" by (simp only: mod_add_self2)
    also have "\<dots> = page_size - 8" using p by (intro mod_less) simp
    finally show ?thesis .
  qed
  then have s: "GetChunkSizeForLayout abi l = (page_size - 8) div ?n div 4 * 4" by (simp add: s GetChunkSize_def)
  have "?n \<le> 14" by (rule num_chunks_max)
  then have "4088 div 14 \<le> 4088 div ?n" using n by (intro div_le_mono2) simp_all
  also have "\<dots> \<le> (page_size - 8) div ?n" using p(1) by (intro div_le_mono) simp
  finally have "292 \<le> (page_size - 8) div ?n" by simp
  moreover have "292 \<le> x \<Longrightarrow> 284 < x div 4 * 4" for x :: nat by presburger
  ultimately show "284 < GetChunkSizeForLayout abi l" unfolding s by blast
  show "GetChunkSizeForLayout abi l mod 4 = 0" unfolding s by simp
  have "GetChunkSizeForLayout abi l \<le> (page_size - 8) div ?n" unfolding s by simp
  then have "?n * GetChunkSizeForLayout abi l \<le> ?n * ((page_size - 8) div ?n)" by simp
  also have "\<dots> \<le> page_size - 8" by simp
  finally show "?n * GetChunkSizeForLayout abi l \<le> page_size - 8" .
qed

text \<open>A chunk lies inside its page, behind the header, and its address gives back its page and its place.\<close>

lemma chunk_place:
  assumes abi: "abi_Initialize start sz page_size = Some abi" and page: "page_idx < abi_num_pages abi"
    and i: "i < GetNumChunksForLayout l"
  defines "cs \<equiv> GetChunkSizeForLayout abi l"
  shows "GetChunkUnchecked abi page_idx l i =
      Some \<lparr>chunk_begin = page_start abi page_idx + 8 + i * cs, chunk_size = cs, chunk_idx = i\<rparr>"
    and "8 + i * cs + cs \<le> page_size" and "page_start abi page_idx + page_size \<le> start + sz"
    and "GetPageAndChunkIndex abi \<lparr>chunk_begin = page_start abi page_idx + 8 + i * cs, chunk_size = cs, chunk_idx = i\<rparr> = (page_idx, i)"
proof -
  note a = abi_Initialize_cases [OF abi]
  have n: "GetNumChunksForLayout l \<noteq> 0" using i by simp
  note c = chunk_size_bounds [OF abi n, folded cs_def]
  have p: "4096 \<le> page_size" using a(5) by (simp add: kMinPageSize_def)
  have "(i + 1) * cs \<le> GetNumChunksForLayout l * cs" using i by (intro mult_le_mono1) simp
  with c(3) have "i * cs + cs \<le> page_size - 8" by (simp add: algebra_simps)
  with p show inside: "8 + i * cs + cs \<le> page_size" by simp
  have "page_size mod 4 = 0" "start mod 4 = 0"
    using a(7,8) by (simp_all add: kMinPageSize_def mod_eq_0_iff_dvd dvd_trans [of 4 4096])
  then have "(start + page_size * page_idx + (8 + i * cs)) mod 4 = 0"
    using c(2) by (simp add: mod_eq_0_iff_dvd)
  then show "GetChunkUnchecked abi page_idx l i =
      Some \<lparr>chunk_begin = page_start abi page_idx + 8 + i * cs, chunk_size = cs, chunk_idx = i\<rparr>"
    using c(1) by (simp add: GetChunkUnchecked_def make_Chunk_def page_start_def a Let_def cs_def add.assoc)
  have "page_idx + 1 \<le> sz div page_size" using page a(4) by simp
  then have "page_size * (page_idx + 1) \<le> page_size * (sz div page_size)" by (rule mult_le_mono2)
  also have "\<dots> \<le> sz" by simp
  finally show "page_start abi page_idx + page_size \<le> start + sz" by (simp add: page_start_def a algebra_simps)
  have r: "page_start abi page_idx + 8 + i * cs - start = (8 + i * cs) + page_size * page_idx"
    by (simp add: page_start_def a)
  have "8 + i * cs < page_size" using inside c(1) by simp
  then have "(8 + i * cs + page_size * page_idx) div page_size = page_idx"
    "(8 + i * cs + page_size * page_idx) mod page_size = 8 + i * cs" using p by simp_all
  then show "GetPageAndChunkIndex abi \<lparr>chunk_begin = page_start abi page_idx + 8 + i * cs, chunk_size = cs, chunk_idx = i\<rparr> = (page_idx, i)"
    using c(1) unfolding GetPageAndChunkIndex_def Chunk.select_convs a(1,3) r by (simp add: Let_def)
qed

subsection \<open>Chunk headers\<close>

text \<open>The packet count has 10 bits and the flags have 6, in one word.\<close>

record ChunkHeader =
  h_chunk_id :: u32
  h_writer_id :: u16
  h_count :: "10 word"
  h_flags :: "6 word"

definition kMaxCount :: nat where "kMaxCount = 2 ^ 10 - 1"

definition kFirstPacketContinuesFromPrevChunk :: "6 word" where "kFirstPacketContinuesFromPrevChunk = 1"
definition kLastPacketContinuesOnNextChunk :: "6 word" where "kLastPacketContinuesOnNextChunk = 2"
definition kChunkNeedsPatching :: "6 word" where "kChunkNeedsPatching = 4"

definition ClearChunkHeader :: ChunkHeader where
  "ClearChunkHeader = \<lparr>h_chunk_id = 0, h_writer_id = 0, h_count = 0, h_flags = 0\<rparr>"

definition GetPacketCountAndFlags :: "ChunkHeader \<Rightarrow> u16 \<times> u8" where
  "GetPacketCountAndFlags h = (ucast (h_count h), ucast (h_flags h))"

definition IncrementPacketCount :: "ChunkHeader \<Rightarrow> u16 \<times> ChunkHeader" where
  "IncrementPacketCount h = (let c = h_count h + 1 in (ucast c, h\<lparr>h_count := c\<rparr>))"

definition IncreasePacketCountTo :: "u16 \<Rightarrow> ChunkHeader \<Rightarrow> u16 \<times> ChunkHeader" where
  "IncreasePacketCountTo packet_count h =
     (let c = (if unat (h_count h) < unat packet_count then ucast packet_count else h_count h)
      in (ucast c, h\<lparr>h_count := c\<rparr>))"

definition SetFlag :: "6 word \<Rightarrow> ChunkHeader \<Rightarrow> ChunkHeader" where
  "SetFlag flag h = h\<lparr>h_flags := h_flags h OR flag\<rparr>"

text \<open>Up to the largest count the two counters do what they say.\<close>

lemma unat_ucast_10_16: "unat (ucast (c :: 10 word) :: u16) = unat c"
proof -
  have "unat c < 2 ^ 10" using unsigned_less [of c, where ?'a = nat] by simp
  then show ?thesis by (simp add: unsigned_ucast_eq take_bit_nat_eq_self)
qed

lemma packet_count_counts:
  "unat (h_count h) < kMaxCount \<Longrightarrow> unat (fst (IncrementPacketCount h)) = unat (h_count h) + 1"
  "unat c \<le> kMaxCount \<Longrightarrow> unat (fst (IncreasePacketCountTo c h)) = max (unat (h_count h)) (unat c)"
proof -
  show "unat (fst (IncrementPacketCount h)) = unat (h_count h) + 1" if "unat (h_count h) < kMaxCount"
    using that by (simp add: IncrementPacketCount_def Let_def unat_ucast_10_16 kMaxCount_def unat_word_ariths)
  show "unat (fst (IncreasePacketCountTo c h)) = max (unat (h_count h)) (unat c)" if "unat c \<le> kMaxCount"
  proof -
    have "unat (ucast c :: 10 word) = unat c"
      using that by (simp add: unsigned_ucast_eq take_bit_nat_eq_self kMaxCount_def)
    then show ?thesis by (auto simp: IncreasePacketCountTo_def Let_def unat_ucast_10_16 max_def)
  qed
qed

text \<open>A larger count is cut to 10 bits: increasing the count to 1024 makes it 0.\<close>

lemma packet_count_cut: "fst (IncreasePacketCountTo 1024 h) = 0"
proof -
  have "unat (h_count h) < 2 ^ 10" using unsigned_less [of "h_count h", where ?'a = nat] by simp
  then show ?thesis by (simp add: IncreasePacketCountTo_def Let_def)
qed

subsection \<open>Properties\<close>

text \<open>C32 page_word_is_an_array: the word of a page behaves as an array of chunk states: writing the state of one chunk changes that
  element and no other, a page is complete when all its chunks are, and the bitmaps of free and used chunks have exactly
  the bits of those chunks.\<close>
theorem page_word_is_an_array:
  assumes "layout_ok l" and "i < length (page_states l)"
  shows "page_states (with_chunk_state l i s) = (page_states l)[i := s] \<and> layout_ok (with_chunk_state l i s) \<and>
    (is_page_complete l \<longleftrightarrow> (\<forall>st \<in> set (page_states l). st = kChunkComplete)) \<and>
    (bit (GetFreeChunks l) k \<longleftrightarrow> k < length (page_states l) \<and> page_states l ! k = kChunkFree) \<and>
    (bit (GetUsedChunks l) k \<longleftrightarrow> k < length (page_states l) \<and> page_states l ! k \<noteq> kChunkFree)"
proof -
  have i: "i < GetNumChunksForLayout l" and ne: "page_states l \<noteq> []"
    using assms(2) by (simp, metis less_zeroE list.size(3))
  from ne is_page_complete_states [OF assms(1)]
  have "is_page_complete l \<longleftrightarrow> (\<forall>st \<in> set (page_states l). st = kChunkComplete)" by auto
  with page_states_with [OF i] layout_ok_with [OF assms(1) i] show ?thesis
    by (auto simp: free_chunks_bits used_chunks_bits)
qed

theorem page_word_is_an_array_witness:
  "page_states (with_chunk_state (partitioned_layout 3) 2 kChunkComplete) = [kChunkFree, kChunkFree, kChunkComplete, kChunkFree]"
proof -
  have "page_states (partitioned_layout 3) = replicate 4 kChunkFree" "layout_ok (partitioned_layout 3)"
    using partitioned_states(1,2) [of 3] by (simp_all add: kNumChunksForLayout_def)
  with page_word_is_an_array [of "partitioned_layout 3" 2 kChunkComplete 0] show ?thesis by (simp add: eval_nat_numeral)
qed

text \<open>C33 chunk_places: in a buffer that was initialized every chunk lies inside its page, behind the header and aligned to four bytes,
  two chunks of a page do not overlap, and the page and the place of a chunk are computed back from its address.\<close>
theorem chunk_places:
  assumes "abi_Initialize start sz page_size = Some abi" and "p < abi_num_pages abi" and "i < GetNumChunksForLayout l"
  shows "\<exists>c. GetChunkUnchecked abi p l i = Some c \<and> chunk_valid c \<and> GetPageAndChunkIndex abi c = (p, i) \<and>
    page_start abi p + 8 \<le> chunk_begin c \<and> chunk_begin c + chunk_size c \<le> page_start abi p + page_size \<and>
    page_start abi p + page_size \<le> start + sz \<and> 8 < chunk_size c \<and>
    (\<forall>j c'. j \<noteq> i \<and> GetChunkUnchecked abi p l j = Some c' \<longrightarrow>
       chunk_begin c' + chunk_size c' \<le> chunk_begin c \<or> chunk_begin c + chunk_size c \<le> chunk_begin c')"
proof -
  note pl = chunk_place [OF assms]
  let ?cs = "GetChunkSizeForLayout abi l"
  let ?c = "\<lparr>chunk_begin = page_start abi p + 8 + i * ?cs, chunk_size = ?cs, chunk_idx = i\<rparr>"
  have n: "GetNumChunksForLayout l \<noteq> 0" using assms(3) by simp
  have big: "284 < ?cs" by (rule chunk_size_bounds(1) [OF assms(1) n])
  have "chunk_begin c' + chunk_size c' \<le> chunk_begin ?c \<or> chunk_begin ?c + chunk_size ?c \<le> chunk_begin c'"
    if "j \<noteq> i" "GetChunkUnchecked abi p l j = Some c'" for j c'
  proof -
    have c': "chunk_begin c' = page_start abi p + (8 + j * ?cs)" "chunk_size c' = ?cs"
      using that(2) by (auto simp: GetChunkUnchecked_def make_Chunk_def Let_def split: if_splits)
    show ?thesis
    proof (cases "j < i")
      case True
      then have "(j + 1) * ?cs \<le> i * ?cs" by (intro mult_le_mono1) simp
      then show ?thesis by (simp add: c')
    next
      case False
      then have "(i + 1) * ?cs \<le> j * ?cs" using that(1) by (intro mult_le_mono1) simp
      then show ?thesis by (simp add: c')
    qed
  qed
  then show ?thesis
    using pl(1,2,3) pl(4) big by (intro exI [of _ ?c]) (auto simp: chunk_valid_def)
qed

theorem chunk_places_witness:
  "\<exists>abi c. abi_Initialize 4096 8192 4096 = Some abi \<and> GetChunkUnchecked abi 1 (partitioned_layout 5) 13 = Some c \<and>
    GetPageAndChunkIndex abi c = (1, 13)"
proof -
  have "abi_Initialize 4096 8192 4096 \<noteq> None" by code_simp
  then obtain abi where abi: "abi_Initialize 4096 8192 4096 = Some abi" by blast
  have "1 < abi_num_pages abi" using abi_Initialize_cases(4) [OF abi] by simp
  moreover have "13 < GetNumChunksForLayout (partitioned_layout 5)"
    using arg_cong [OF partitioned_states(1) [of 5], of length] by (simp add: kNumChunksForLayout_def)
  ultimately show ?thesis using chunk_places [OF abi] abi by blast
qed

end
