(* ===== verification/Shared_Memory_Race.thy ===== *)
theory Shared_Memory_Race
  imports Shared_Memory_Abi
begin

section \<open>Racing for the chunks of a page (shared\_memory\_abi.cc)\<close>

text \<open>
  Producer threads and the service change the word of a page with compare-and-swap loops of at most 64 attempts. This theory
  interleaves the loads, the swaps and the header stores of any number of threads on any number of pages, and shows that a
  chunk that is being written or read has one owner and that the checks in \<open>ReleaseChunk\<close> do not fail as long as every thread
  changes the words by these operations only. A producer that stores into the shared memory otherwise can make a check
  fail, in the service too (\<open>overwritten_word_fails_check\<close>), as the comments at the checks say. A client releases a chunk it
  writes as complete and one it reads as free.
\<close>

definition kRetryAttempts :: nat where "kRetryAttempts = 64"

text \<open>The allowed transitions: what \<open>TryAcquireChunk\<close> and \<open>ReleaseChunk\<close> expect to find before they write a state.\<close>

fun expected_state :: "ChunkState \<Rightarrow> ChunkState" where
  "expected_state kChunkBeingWritten = kChunkFree"
| "expected_state kChunkBeingRead = kChunkComplete"
| "expected_state kChunkComplete = kChunkBeingWritten"
| "expected_state kChunkFree = kChunkBeingRead"

text \<open>The word \<open>ReleaseChunk\<close> writes: a page whose chunks are all free again is not divided any more.\<close>

definition released_layout :: "u32 \<Rightarrow> nat \<Rightarrow> ChunkState \<Rightarrow> u32" where
  "released_layout layout i desired =
     (let next_layout = with_chunk_state layout i desired
      in if next_layout AND kAllChunksMask = kAllChunksFree then 0 else next_layout)"

text \<open>Where a thread is. The two numbers are the page and the chunk, the last one of a loop is the attempt.\<close>

datatype smb_pc =
    Outside
  | Acquires nat nat ChunkState ChunkHeader nat
  | Acquire_swaps nat nat ChunkState ChunkHeader nat u32
  | Stores_header nat nat Chunk ChunkHeader
  | Holds nat nat ChunkState Chunk
  | Releases nat nat ChunkState Chunk nat
  | Release_swaps nat nat ChunkState Chunk nat u32
  | Gave_up nat nat ChunkState
  | Check_failed

record smb =
  smb_layout :: "nat \<Rightarrow> u32"
  smb_headers :: "nat \<Rightarrow> ChunkHeader"
  smb_pc :: "nat \<Rightarrow> smb_pc"

definition initial_smb :: smb where
  "initial_smb = \<lparr>smb_layout = (\<lambda>p. 0), smb_headers = (\<lambda>a. ClearChunkHeader), smb_pc = (\<lambda>t. Outside)\<rparr>"

definition go :: "nat \<Rightarrow> smb_pc \<Rightarrow> smb \<Rightarrow> smb" where
  "go t q s = s\<lparr>smb_pc := (smb_pc s)(t := q)\<rparr>"

definition set_layout :: "nat \<Rightarrow> u32 \<Rightarrow> smb \<Rightarrow> smb" where
  "set_layout p l s = s\<lparr>smb_layout := (smb_layout s)(p := l)\<rparr>"

definition set_header :: "Chunk \<Rightarrow> ChunkHeader \<Rightarrow> smb \<Rightarrow> smb" where
  "set_header c h s = s\<lparr>smb_headers := (smb_headers s)(chunk_begin c := h)\<rparr>"

text \<open>\<open>TryPartitionPage\<close>, one compare-and-swap; when it fails nothing changes.\<close>

inductive partition_step :: "SharedMemoryABI \<Rightarrow> nat \<Rightarrow> smb \<Rightarrow> smb \<Rightarrow> bool" for abi t where
  partition: "smb_pc s t = Outside \<Longrightarrow> p < abi_num_pages abi \<Longrightarrow> d \<in> {1, 2, 3, 4, 5} \<Longrightarrow> smb_layout s p = 0 \<Longrightarrow>
     partition_step abi t s (set_layout p (partitioned_layout d) s)"

text \<open>\<open>TryAcquireChunk\<close>: the call, the load with its checks, the end of the attempts, the swap and the header.\<close>

inductive acquire_step :: "SharedMemoryABI \<Rightarrow> nat \<Rightarrow> smb \<Rightarrow> smb \<Rightarrow> bool" for abi t where
  acquire_call: "smb_pc s t = Outside \<Longrightarrow> p < abi_num_pages abi \<Longrightarrow> d \<in> {kChunkBeingWritten, kChunkBeingRead} \<Longrightarrow>
     acquire_step abi t s (go t (Acquires p i d h 0) s)"
| acquire_load: "smb_pc s t = Acquires p i d h k \<Longrightarrow> k < kRetryAttempts \<Longrightarrow> l = smb_layout s p \<Longrightarrow>
     acquire_step abi t s
       (go t (if i \<ge> GetNumChunksForLayout l \<or> chunk_bits l i \<noteq> state_code (expected_state d) then Outside
              else Acquire_swaps p i d h k l) s)"
| acquire_ends: "smb_pc s t = Acquires p i d h k \<Longrightarrow> \<not> k < kRetryAttempts \<Longrightarrow> acquire_step abi t s (go t Outside s)"
| acquire_swap: "smb_pc s t = Acquire_swaps p i d h k l \<Longrightarrow> smb_layout s p = l \<Longrightarrow>
     acquire_step abi t s
       (go t (case GetChunkUnchecked abi p l i of
                None \<Rightarrow> Check_failed
              | Some c \<Rightarrow> if d = kChunkBeingWritten then Stores_header p i c h else Holds p i d c)
          (set_layout p (with_chunk_state l i d) s))"
| acquire_lost: "smb_pc s t = Acquire_swaps p i d h k l \<Longrightarrow> smb_layout s p \<noteq> l \<Longrightarrow>
     acquire_step abi t s (go t (Acquires p i d h (k + 1)) s)"
| acquire_header: "smb_pc s t = Stores_header p i c h \<Longrightarrow>
     acquire_step abi t s (go t (Holds p i kChunkBeingWritten c) (set_header c h s))"

text \<open>\<open>ReleaseChunk\<close>: page and chunk are computed from the address, the header of a chunk that becomes free is cleared first.\<close>

inductive release_step :: "SharedMemoryABI \<Rightarrow> nat \<Rightarrow> smb \<Rightarrow> smb \<Rightarrow> bool" for abi t where
  release_complete: "smb_pc s t = Holds p i kChunkBeingWritten c \<Longrightarrow> GetPageAndChunkIndex abi c = (p', i') \<Longrightarrow>
     release_step abi t s (go t (Releases p' i' kChunkComplete c 0) s)"
| release_free: "smb_pc s t = Holds p i kChunkBeingRead c \<Longrightarrow> GetPageAndChunkIndex abi c = (p', i') \<Longrightarrow>
     release_step abi t s (go t (Releases p' i' kChunkFree c 0) (set_header c ClearChunkHeader s))"
| release_load: "smb_pc s t = Releases p i d c k \<Longrightarrow> k < kRetryAttempts \<Longrightarrow> l = smb_layout s p \<Longrightarrow>
     release_step abi t s
       (go t (if chunk_size c = GetChunkSizeForLayout abi l \<and> chunk_bits l i = state_code (expected_state d)
              then Release_swaps p i d c k l else Check_failed) s)"
| release_ends: "smb_pc s t = Releases p i d c k \<Longrightarrow> \<not> k < kRetryAttempts \<Longrightarrow>
     release_step abi t s (go t (Gave_up p i (expected_state d)) s)"
| release_swap: "smb_pc s t = Release_swaps p i d c k l \<Longrightarrow> smb_layout s p = l \<Longrightarrow>
     release_step abi t s (go t Outside (set_layout p (released_layout l i d) s))"
| release_lost: "smb_pc s t = Release_swaps p i d c k l \<Longrightarrow> smb_layout s p \<noteq> l \<Longrightarrow>
     release_step abi t s (go t (Releases p i d c (k + 1)) s)"

definition smb_step :: "SharedMemoryABI \<Rightarrow> smb \<Rightarrow> smb \<Rightarrow> bool" where
  "smb_step abi s s' \<longleftrightarrow> (\<exists>t. partition_step abi t s s' \<or> acquire_step abi t s s' \<or> release_step abi t s s')"

inductive smb_reachable :: "SharedMemoryABI \<Rightarrow> smb \<Rightarrow> bool" for abi where
  smb_start: "smb_reachable abi initial_smb"
| smb_more: "smb_reachable abi s \<Longrightarrow> smb_step abi s s' \<Longrightarrow> smb_reachable abi s'"

subsection \<open>Owners\<close>

text \<open>The chunk a thread owns and the state that goes with it. A thread that gave up leaves its chunk as it is for ever.\<close>

fun owned :: "smb_pc \<Rightarrow> (nat \<times> nat \<times> ChunkState) option" where
  "owned (Stores_header p i c h) = Some (p, i, kChunkBeingWritten)"
| "owned (Holds p i d c) = Some (p, i, d)"
| "owned (Releases p i d c k) = Some (p, i, expected_state d)"
| "owned (Release_swaps p i d c k l) = Some (p, i, expected_state d)"
| "owned (Gave_up p i d) = Some (p, i, d)"
| "owned q = None"

definition busy :: "ChunkState \<Rightarrow> bool" where
  "busy st \<longleftrightarrow> st = kChunkBeingWritten \<or> st = kChunkBeingRead"

text \<open>The chunk a thread has in hand.\<close>

fun in_hand :: "smb_pc \<Rightarrow> Chunk option" where
  "in_hand (Stores_header p i c h) = Some c"
| "in_hand (Holds p i d c) = Some c"
| "in_hand (Releases p i d c k) = Some c"
| "in_hand (Release_swaps p i d c k l) = Some c"
| "in_hand q = None"

text \<open>What a thread knows where it is.\<close>

fun knows :: "SharedMemoryABI \<Rightarrow> smb_pc \<Rightarrow> bool" where
  "knows abi (Acquires p i d h k) \<longleftrightarrow> p < abi_num_pages abi \<and> busy d"
| "knows abi (Acquire_swaps p i d h k l) \<longleftrightarrow> p < abi_num_pages abi \<and> busy d \<and> i < GetNumChunksForLayout l \<and>
     GetChunkStateFromLayout l i = expected_state d"
| "knows abi (Releases p i d c k) \<longleftrightarrow> busy (expected_state d)"
| "knows abi (Release_swaps p i d c k l) \<longleftrightarrow> busy (expected_state d)"
| "knows abi Check_failed \<longleftrightarrow> False"
| "knows abi q \<longleftrightarrow> True"

definition owner_inv :: "SharedMemoryABI \<Rightarrow> smb \<Rightarrow> bool" where
  "owner_inv abi s \<longleftrightarrow>
     (\<forall>t p i st. owned (smb_pc s t) = Some (p, i, st) \<longrightarrow> p < abi_num_pages abi \<and> busy st \<and>
        i < GetNumChunksForLayout (smb_layout s p) \<and> GetChunkStateFromLayout (smb_layout s p) i = st \<and>
        (\<forall>c. in_hand (smb_pc s t) = Some c \<longrightarrow> GetChunkUnchecked abi p (smb_layout s p) i = Some c))"

definition unique_inv :: "smb \<Rightarrow> bool" where
  "unique_inv s \<longleftrightarrow> (\<forall>t u p i a b. owned (smb_pc s t) = Some (p, i, a) \<and> owned (smb_pc s u) = Some (p, i, b) \<longrightarrow> t = u)"

definition busy_inv :: "smb \<Rightarrow> bool" where
  "busy_inv s \<longleftrightarrow> (\<forall>p i. i < GetNumChunksForLayout (smb_layout s p) \<and> busy (GetChunkStateFromLayout (smb_layout s p) i) \<longrightarrow>
     (\<exists>t. owned (smb_pc s t) = Some (p, i, GetChunkStateFromLayout (smb_layout s p) i)))"

definition words_inv :: "smb \<Rightarrow> bool" where
  "words_inv s \<longleftrightarrow> (\<forall>p. layout_ok (smb_layout s p))"

definition knows_inv :: "SharedMemoryABI \<Rightarrow> smb \<Rightarrow> bool" where
  "knows_inv abi s \<longleftrightarrow> (\<forall>t. knows abi (smb_pc s t))"

definition smb_inv :: "SharedMemoryABI \<Rightarrow> smb \<Rightarrow> bool" where
  "smb_inv abi s \<longleftrightarrow> owner_inv abi s \<and> unique_inv s \<and> busy_inv s \<and> words_inv s \<and> knows_inv abi s"

lemma ownerD:
  assumes "smb_inv abi s" and "owned (smb_pc s t) = Some (p, i, st)"
  shows "p < abi_num_pages abi" "busy st" "i < GetNumChunksForLayout (smb_layout s p)"
    "GetChunkStateFromLayout (smb_layout s p) i = st"
    "in_hand (smb_pc s t) = Some c \<Longrightarrow> GetChunkUnchecked abi p (smb_layout s p) i = Some c"
  using assms unfolding smb_inv_def owner_inv_def by blast+

lemma uniqueD:
  "smb_inv abi s \<Longrightarrow> owned (smb_pc s t) = Some (p, i, a) \<Longrightarrow> owned (smb_pc s u) = Some (p, i, b) \<Longrightarrow> t = u"
  unfolding smb_inv_def unique_inv_def by blast

text \<open>A step that changes no word and keeps what its thread owns.\<close>

lemma smb_inv_quiet:
  assumes inv: "smb_inv abi s" and l: "smb_layout s' = smb_layout s" and pc: "smb_pc s' = (smb_pc s)(t := q)"
    and own: "owned q = owned (smb_pc s t)" and hand: "in_hand q = in_hand (smb_pc s t) \<or> in_hand q = None"
    and k: "knows abi q"
  shows "smb_inv abi s'"
proof -
  have o: "owned (smb_pc s' u) = owned (smb_pc s u)" for u using own by (simp add: pc)
  have h: "in_hand (smb_pc s' u) = Some c \<Longrightarrow> in_hand (smb_pc s u) = Some c" for u c using hand by (auto simp: pc split: if_splits)
  have "owner_inv abi s'" using inv h unfolding smb_inv_def owner_inv_def o l by blast
  moreover have "unique_inv s'" "busy_inv s'" "words_inv s'"
    using inv unfolding smb_inv_def unique_inv_def busy_inv_def words_inv_def o l by blast+
  moreover have "knows_inv abi s'" using inv k by (simp add: smb_inv_def knows_inv_def pc)
  ultimately show ?thesis by (simp add: smb_inv_def)
qed

text \<open>A step that changes the word of page \<open>p\<close>. The new word keeps the place and the state of every chunk of another thread.\<close>

lemma smb_inv_word:
  assumes inv: "smb_inv abi s" and l: "smb_layout s' = (smb_layout s)(p := w)" and pc: "smb_pc s' = (smb_pc s)(t := q)"
    and others: "\<And>u j st. u \<noteq> t \<Longrightarrow> owned (smb_pc s u) = Some (p, j, st) \<Longrightarrow> j < GetNumChunksForLayout w \<and>
      GetChunkStateFromLayout w j = st \<and> GetChunkUnchecked abi p w j = GetChunkUnchecked abi p (smb_layout s p) j"
    and own: "owned q = None \<or> (\<exists>i st. owned q = Some (p, i, st) \<and> p < abi_num_pages abi \<and> busy st \<and>
      i < GetNumChunksForLayout w \<and> GetChunkStateFromLayout w i = st \<and> (\<forall>u. u \<noteq> t \<longrightarrow> (\<forall>b. owned (smb_pc s u) \<noteq> Some (p, i, b))) \<and>
      (\<forall>c. in_hand q = Some c \<longrightarrow> GetChunkUnchecked abi p w i = Some c))"
    and elsewhere: "owned (smb_pc s t) = None \<or> (\<exists>i st. owned (smb_pc s t) = Some (p, i, st))"
    and busy_w: "\<And>j. j < GetNumChunksForLayout w \<Longrightarrow> busy (GetChunkStateFromLayout w j) \<Longrightarrow>
      owned q = Some (p, j, GetChunkStateFromLayout w j) \<or>
      (\<exists>u. u \<noteq> t \<and> owned (smb_pc s u) = Some (p, j, GetChunkStateFromLayout w j))"
    and ok: "layout_ok w" and k: "knows abi q"
  shows "smb_inv abi s'"
proof -
  have "owner_inv abi s'"
    unfolding owner_inv_def
  proof (intro allI impI)
    fix u p' i st
    assume o: "owned (smb_pc s' u) = Some (p', i, st)"
    show "p' < abi_num_pages abi \<and> busy st \<and> i < GetNumChunksForLayout (smb_layout s' p') \<and>
        GetChunkStateFromLayout (smb_layout s' p') i = st \<and>
        (\<forall>c. in_hand (smb_pc s' u) = Some c \<longrightarrow> GetChunkUnchecked abi p' (smb_layout s' p') i = Some c)"
    proof (cases "u = t")
      case True
      with o own show ?thesis by (auto simp: pc l)
    next
      case False
      with o have o: "owned (smb_pc s u) = Some (p', i, st)" by (simp add: pc)
      show ?thesis
        using ownerD [OF inv o] others [OF False, of i st] o False by (cases "p' = p") (auto simp: pc l)
    qed
  qed
  moreover have "unique_inv s'"
    unfolding unique_inv_def
  proof (intro allI impI, elim conjE)
    fix u v p' i a b
    assume a: "owned (smb_pc s' u) = Some (p', i, a)" "owned (smb_pc s' v) = Some (p', i, b)"
    show "u = v"
      using a own uniqueD [OF inv, of u p' i a v b] by (cases "u = t"; cases "v = t") (auto simp: pc)
  qed
  moreover have "busy_inv s'"
    unfolding busy_inv_def
  proof (intro allI impI, elim conjE)
    fix p' i
    assume b: "i < GetNumChunksForLayout (smb_layout s' p')" "busy (GetChunkStateFromLayout (smb_layout s' p') i)"
    show "\<exists>u. owned (smb_pc s' u) = Some (p', i, GetChunkStateFromLayout (smb_layout s' p') i)"
    proof (cases "p' = p")
      case True
      with b busy_w [of i] show ?thesis by (auto simp: pc l)
    next
      case False
      with b inv obtain u where "owned (smb_pc s u) = Some (p', i, GetChunkStateFromLayout (smb_layout s p') i)"
        by (auto simp: smb_inv_def busy_inv_def l)
      with False elsewhere show ?thesis by (intro exI [of _ u]) (auto simp: pc l)
    qed
  qed
  moreover have "words_inv s'" using inv ok by (simp add: smb_inv_def words_inv_def l)
  moreover have "knows_inv abi s'" using inv k by (simp add: smb_inv_def knows_inv_def pc)
  ultimately show ?thesis by (simp add: smb_inv_def)
qed

lemmas smb_updates = go_def set_layout_def set_header_def

lemma GetChunkUnchecked_with:
  "i < GetNumChunksForLayout l \<Longrightarrow> GetChunkUnchecked abi p (with_chunk_state l i d) j = GetChunkUnchecked abi p l j"
  using num_chunks_max [of l] by (simp add: GetChunkUnchecked_def GetChunkSizeForLayout_def)

lemma busy_expected: "busy d \<Longrightarrow> \<not> busy (expected_state d)" "busy (expected_state d) \<Longrightarrow> \<not> busy d"
  by (cases d; simp add: busy_def)+

lemma partition_inv:
  assumes inv: "smb_inv abi s" and "partition_step abi t s s'"
  shows "smb_inv abi s'"
  using assms(2)
proof cases
  case (partition p d)
  have none: "owned (smb_pc s u) \<noteq> Some (p, j, st)" for u j st
    using ownerD(3) [OF inv, of u p j st] partition(5) by (auto simp: undivided)
  have free: "GetChunkStateFromLayout (partitioned_layout d) j = kChunkFree" if "j < GetNumChunksForLayout (partitioned_layout d)" for j
    using nth_page_states [OF that] that partitioned_states(1) [OF partition(4)] by (metis length_page_states length_replicate nth_replicate)
  show ?thesis
  proof (rule smb_inv_word [OF inv, of s' p "partitioned_layout d" t Outside])
    show "smb_layout s' = (smb_layout s)(p := partitioned_layout d)" "smb_pc s' = (smb_pc s)(t := Outside)"
      using partition(1,2) by (simp_all add: smb_updates fun_upd_idem)
    show "layout_ok (partitioned_layout d)" by (rule partitioned_states(2) [OF partition(4)])
  qed (use none free partition(2) in \<open>auto simp: busy_def\<close>)
qed

lemma acquire_swap_inv:
  assumes abi: "abi_Initialize start sz page_size = Some abi" and inv: "smb_inv abi s"
    and pc: "smb_pc s t = Acquire_swaps p i d h k l" and l: "smb_layout s p = l"
    and s': "s' = go t (case GetChunkUnchecked abi p l i of
                None \<Rightarrow> Check_failed
              | Some c \<Rightarrow> if d = kChunkBeingWritten then Stores_header p i c h else Holds p i d c)
          (set_layout p (with_chunk_state l i d) s)"
  shows "smb_inv abi s'"
proof -
  have kn: "p < abi_num_pages abi" "busy d" "i < GetNumChunksForLayout l" "GetChunkStateFromLayout l i = expected_state d"
    using inv pc unfolding smb_inv_def knows_inv_def by (metis knows.simps(2))+
  have i: "i < 14" using kn(3) num_chunks_max [of l] by simp
  obtain c where c: "GetChunkUnchecked abi p l i = Some c" using chunk_place(1) [OF abi kn(1,3)] by blast
  let ?q = "if d = kChunkBeingWritten then Stores_header p i c h else Holds p i d c"
  let ?w = "with_chunk_state l i d"
  have q: "owned ?q = Some (p, i, d)" "in_hand ?q = Some c" "knows abi ?q" using kn(2) by (auto simp: busy_def)
  have free: "owned (smb_pc s u) \<noteq> Some (p, i, b)" for u b
  proof
    assume o: "owned (smb_pc s u) = Some (p, i, b)"
    have "busy b" "GetChunkStateFromLayout l i = b" using ownerD(2,4) [OF inv o] by (simp_all add: l)
    with kn(4) busy_expected(1) [OF kn(2)] show False by simp
  qed
  have st: "GetChunkStateFromLayout ?w j = (if i = j then d else GetChunkStateFromLayout l j)" if "j < GetNumChunksForLayout l" for j
    using state_with_chunk_state [OF i, of j] that num_chunks_max [of l] by simp
  show ?thesis
  proof (rule smb_inv_word [OF inv, of s' p ?w t ?q])
    show "smb_layout s' = (smb_layout s)(p := ?w)" "smb_pc s' = (smb_pc s)(t := ?q)" by (simp_all add: s' c smb_updates)
    show "owned ?q = None \<or> (\<exists>j st. owned ?q = Some (p, j, st) \<and> p < abi_num_pages abi \<and> busy st \<and>
      j < GetNumChunksForLayout ?w \<and> GetChunkStateFromLayout ?w j = st \<and> (\<forall>u. u \<noteq> t \<longrightarrow> (\<forall>b. owned (smb_pc s u) \<noteq> Some (p, j, b))) \<and>
      (\<forall>c. in_hand ?q = Some c \<longrightarrow> GetChunkUnchecked abi p ?w j = Some c))"
      using q kn i free c st [OF kn(3)] by (simp add: GetChunkUnchecked_with)
    show "layout_ok ?w" using inv layout_ok_with kn(3) l by (metis smb_inv_def words_inv_def)
    show "owned (smb_pc s t) = None \<or> (\<exists>i st. owned (smb_pc s t) = Some (p, i, st))" by (simp add: pc)
    show "j < GetNumChunksForLayout ?w \<and> GetChunkStateFromLayout ?w j = st \<and> GetChunkUnchecked abi p ?w j = GetChunkUnchecked abi p (smb_layout s p) j"
      if "u \<noteq> t" "owned (smb_pc s u) = Some (p, j, st)" for u j st
      using ownerD(3,4) [OF inv that(2)] that free st [of j] i kn(3) l by (auto simp: GetChunkUnchecked_with)
    show "owned ?q = Some (p, j, GetChunkStateFromLayout ?w j) \<or> (\<exists>u. u \<noteq> t \<and> owned (smb_pc s u) = Some (p, j, GetChunkStateFromLayout ?w j))"
      if "j < GetNumChunksForLayout ?w" "busy (GetChunkStateFromLayout ?w j)" for j
    proof (cases "j = i")
      case True
      with q(1) st [OF kn(3)] show ?thesis by simp
    next
      case False
      with that i st [of j] have j: "j < GetNumChunksForLayout l" "busy (GetChunkStateFromLayout l j)" by simp_all
      then obtain u where "owned (smb_pc s u) = Some (p, j, GetChunkStateFromLayout l j)"
        using inv l unfolding smb_inv_def busy_inv_def by blast
      with st [OF j(1)] False pc show ?thesis by (intro disjI2 exI [of _ u]) auto
    qed
  qed (rule q(3))
qed

lemma release_swap_inv:
  assumes inv: "smb_inv abi s" and pc: "smb_pc s t = Release_swaps p i d c k l" and l: "smb_layout s p = l"
    and s': "s' = go t Outside (set_layout p (released_layout l i d) s)"
  shows "smb_inv abi s'"
proof -
  have o: "owned (smb_pc s t) = Some (p, i, expected_state d)" by (simp add: pc)
  have own: "busy (expected_state d)" "i < GetNumChunksForLayout l" using ownerD(2,3) [OF inv o] by (simp_all add: l)
  have i: "i < 14" using own(2) num_chunks_max [of l] by simp
  let ?w = "with_chunk_state l i d"
  let ?r = "released_layout l i d"
  have st: "GetChunkStateFromLayout ?w j = (if i = j then d else GetChunkStateFromLayout l j)" if "j < GetNumChunksForLayout l" for j
    using state_with_chunk_state [OF i, of j] that num_chunks_max [of l] by simp
  have ok: "layout_ok ?w" using inv layout_ok_with own(2) l by (metis smb_inv_def words_inv_def)
  have other: "j \<noteq> i" "j < GetNumChunksForLayout l" "GetChunkStateFromLayout l j = st" "busy st"
    if "u \<noteq> t" "owned (smb_pc s u) = Some (p, j, st)" for u j st
  proof -
    show "j \<noteq> i"
    proof
      assume "j = i"
      with uniqueD [OF inv that(2), of t "expected_state d"] o that(1) show False by simp
    qed
    show "j < GetNumChunksForLayout l" "GetChunkStateFromLayout l j = st" "busy st"
      using ownerD(2-4) [OF inv that(2)] by (simp_all add: l)
  qed
  show ?thesis
  proof (rule smb_inv_word [OF inv, of s' p ?r t Outside])
    show "smb_layout s' = (smb_layout s)(p := ?r)" "smb_pc s' = (smb_pc s)(t := Outside)" by (simp_all add: s' smb_updates)
    show "layout_ok ?r" using ok undivided(3) by (simp add: released_layout_def Let_def)
    show "owned (smb_pc s t) = None \<or> (\<exists>i st. owned (smb_pc s t) = Some (p, i, st))" using o by blast
    show "j < GetNumChunksForLayout ?r \<and> GetChunkStateFromLayout ?r j = st \<and> GetChunkUnchecked abi p ?r j = GetChunkUnchecked abi p (smb_layout s p) j"
      if "u \<noteq> t" "owned (smb_pc s u) = Some (p, j, st)" for u j st
    proof -
      note oth = other [OF that]
      have w: "GetChunkStateFromLayout ?w j = st" using st [OF oth(2)] oth(1,3) by simp
      have "\<not> (?w AND kAllChunksMask = kAllChunksFree)"
      proof -
        have "j < 14" "st \<noteq> kChunkFree" using oth(2,4) num_chunks_max [of l] by (auto simp: busy_def)
        with w show ?thesis unfolding all_chunks_free by blast
      qed
      then have "?r = ?w" by (simp add: released_layout_def)
      with w oth(2) i own(2) show ?thesis by (simp add: GetChunkUnchecked_with l)
    qed
    show "owned Outside = Some (p, j, GetChunkStateFromLayout ?r j) \<or> (\<exists>u. u \<noteq> t \<and> owned (smb_pc s u) = Some (p, j, GetChunkStateFromLayout ?r j))"
      if "j < GetNumChunksForLayout ?r" "busy (GetChunkStateFromLayout ?r j)" for j
    proof -
      have r: "?r = ?w" using that(1) by (auto simp: released_layout_def Let_def undivided split: if_splits)
      with that(1) i have j: "j < GetNumChunksForLayout l" by simp
      have ne: "j \<noteq> i" using that(2) st [OF j] busy_expected(2) [OF own(1)] r by auto
      with that(2) r st [OF j] have b: "busy (GetChunkStateFromLayout l j)" by simp
      with j obtain u where "owned (smb_pc s u) = Some (p, j, GetChunkStateFromLayout l j)"
        using inv l unfolding smb_inv_def busy_inv_def by blast
      with st [OF j] ne o r show ?thesis by (intro disjI2 exI [of _ u]) auto
    qed
  qed simp_all
qed

lemma knowsD: "smb_inv abi s \<Longrightarrow> smb_pc s t = q \<Longrightarrow> knows abi q"
  by (auto simp: smb_inv_def knows_inv_def)

lemma acquire_inv:
  assumes abi: "abi_Initialize start sz page_size = Some abi" and inv: "smb_inv abi s" and "acquire_step abi t s s'"
  shows "smb_inv abi s'"
  using assms(3)
proof cases
  case (acquire_call p d i h)
  then show ?thesis by (intro smb_inv_quiet [OF inv, of s' t "Acquires p i d h 0"]) (auto simp: smb_updates busy_def)
next
  case (acquire_load p i d h k l)
  let ?q = "if i \<ge> GetNumChunksForLayout l \<or> chunk_bits l i \<noteq> state_code (expected_state d) then Outside else Acquire_swaps p i d h k l"
  show ?thesis
    by (rule smb_inv_quiet [OF inv, of s' t ?q])
      (use acquire_load knowsD [OF inv acquire_load(2)] in \<open>auto simp: smb_updates chunk_bits_state\<close>)
next
  case (acquire_ends p i d h k)
  then show ?thesis by (intro smb_inv_quiet [OF inv, of s' t Outside]) (auto simp: smb_updates)
next
  case (acquire_swap p i d h k l)
  show ?thesis by (rule acquire_swap_inv [OF abi inv acquire_swap(2,3,1)])
next
  case (acquire_lost p i d h k l)
  with knowsD [OF inv acquire_lost(2)] show ?thesis
    by (intro smb_inv_quiet [OF inv, of s' t "Acquires p i d h (k + 1)"]) (auto simp: smb_updates)
next
  case (acquire_header p i c h)
  then show ?thesis by (intro smb_inv_quiet [OF inv, of s' t "Holds p i kChunkBeingWritten c"]) (auto simp: smb_updates)
qed

text \<open>A thread that holds a chunk finds its page and place from the address, and the checks of \<open>ReleaseChunk\<close> succeed.\<close>

lemma held_place:
  assumes abi: "abi_Initialize start sz page_size = Some abi" and inv: "smb_inv abi s"
    and o: "owned (smb_pc s t) = Some (p, i, st)" and c: "in_hand (smb_pc s t) = Some c"
  shows "GetPageAndChunkIndex abi c = (p, i)" "chunk_size c = GetChunkSizeForLayout abi (smb_layout s p)"
    "chunk_bits (smb_layout s p) i = state_code st"
proof -
  note own = ownerD [OF inv o]
  note place = chunk_place [OF abi own(1,3)]
  have eq: "c = \<lparr>chunk_begin = page_start abi p + 8 + i * GetChunkSizeForLayout abi (smb_layout s p),
      chunk_size = GetChunkSizeForLayout abi (smb_layout s p), chunk_idx = i\<rparr>"
    using own(5) [OF c] place(1) by simp
  show "GetPageAndChunkIndex abi c = (p, i)" unfolding eq by (rule place(4))
  show "chunk_size c = GetChunkSizeForLayout abi (smb_layout s p)" unfolding eq by simp
  show "chunk_bits (smb_layout s p) i = state_code st" by (simp only: chunk_bits_state own(4))
qed

lemma release_inv:
  assumes abi: "abi_Initialize start sz page_size = Some abi" and inv: "smb_inv abi s" and "release_step abi t s s'"
  shows "smb_inv abi s'"
  using assms(3)
proof cases
  case (release_complete p i c p' i')
  then have "p' = p" "i' = i" using held_place(1) [OF abi inv, of t p i kChunkBeingWritten c] by simp_all
  with release_complete show ?thesis
    by (intro smb_inv_quiet [OF inv, of s' t "Releases p i kChunkComplete c 0"]) (auto simp: smb_updates busy_def)
next
  case (release_free p i c p' i')
  then have "p' = p" "i' = i" using held_place(1) [OF abi inv, of t p i kChunkBeingRead c] by simp_all
  with release_free show ?thesis
    by (intro smb_inv_quiet [OF inv, of s' t "Releases p i kChunkFree c 0"]) (auto simp: smb_updates busy_def)
next
  case (release_load p i d c k l)
  have "chunk_size c = GetChunkSizeForLayout abi l \<and> chunk_bits l i = state_code (expected_state d)"
    using held_place(2,3) [OF abi inv, of t p i "expected_state d" c] release_load(2,4) by simp
  with release_load knowsD [OF inv release_load(2)] show ?thesis
    by (intro smb_inv_quiet [OF inv, of s' t "Release_swaps p i d c k l"]) (auto simp: smb_updates)
next
  case (release_ends p i d c k)
  then show ?thesis by (intro smb_inv_quiet [OF inv, of s' t "Gave_up p i (expected_state d)"]) (auto simp: smb_updates)
next
  case (release_swap p i d c k l)
  show ?thesis by (rule release_swap_inv [OF inv release_swap(2,3,1)])
next
  case (release_lost p i d c k l)
  with knowsD [OF inv release_lost(2)] show ?thesis
    by (intro smb_inv_quiet [OF inv, of s' t "Releases p i d c (k + 1)"]) (auto simp: smb_updates)
qed

lemma smb_reachable_inv:
  assumes "abi_Initialize start sz page_size = Some abi" and "smb_reachable abi s"
  shows "smb_inv abi s"
  using assms(2)
proof (induction rule: smb_reachable.induct)
  case smb_start
  show ?case
    by (simp add: smb_inv_def owner_inv_def unique_inv_def busy_inv_def words_inv_def knows_inv_def initial_smb_def undivided)
next
  case (smb_more s s')
  from \<open>smb_step abi s s'\<close> obtain t where "partition_step abi t s s' \<or> acquire_step abi t s s' \<or> release_step abi t s s'"
    unfolding smb_step_def by blast
  then show ?case
    using partition_inv [OF \<open>smb_inv abi s\<close>] acquire_inv [OF assms(1) \<open>smb_inv abi s\<close>] release_inv [OF assms(1) \<open>smb_inv abi s\<close>]
    by blast
qed

subsection \<open>Properties\<close>

text \<open>C30 chunks_owned_once: in every interleaving of producers and service threads that change the page words only by
  \<open>TryPartitionPage\<close>, \<open>TryAcquireChunk\<close> and \<open>ReleaseChunk\<close>, no check in them ever fails, no two threads own the same
  chunk, and a chunk is marked as being written or read exactly while a thread owns it for that (or has given up releasing
  it). Threads that overwrite a word otherwise are not covered: for them the checks can fail.\<close>
theorem chunks_owned_once:
  assumes "abi_Initialize start sz page_size = Some abi" and "smb_reachable abi s"
  shows "smb_pc s t \<noteq> Check_failed \<and>
    (owned (smb_pc s t) = Some (p, i, a) \<and> owned (smb_pc s u) = Some (p, i, b) \<longrightarrow> t = u) \<and>
    (i < GetNumChunksForLayout (smb_layout s p) \<and> GetChunkStateFromLayout (smb_layout s p) i \<in> {kChunkBeingWritten, kChunkBeingRead} \<longleftrightarrow>
      (\<exists>v st. owned (smb_pc s v) = Some (p, i, st) \<and> GetChunkStateFromLayout (smb_layout s p) i = st))"
proof (intro conjI)
  have inv: "smb_inv abi s" by (rule smb_reachable_inv [OF assms])
  show "smb_pc s t \<noteq> Check_failed" using knowsD [OF inv refl, of t] by auto
  show "owned (smb_pc s t) = Some (p, i, a) \<and> owned (smb_pc s u) = Some (p, i, b) \<longrightarrow> t = u"
    using uniqueD [OF inv] by blast
  show "i < GetNumChunksForLayout (smb_layout s p) \<and> GetChunkStateFromLayout (smb_layout s p) i \<in> {kChunkBeingWritten, kChunkBeingRead} \<longleftrightarrow>
      (\<exists>v st. owned (smb_pc s v) = Some (p, i, st) \<and> GetChunkStateFromLayout (smb_layout s p) i = st)"
    using inv ownerD(2,3) [OF inv] unfolding smb_inv_def busy_inv_def by (fastforce simp: busy_def)
qed

text \<open>A misbehaving producer: when the word of a page is overwritten with 0 while a thread, the service for instance, holds
  a chunk of the page, the check in \<open>ReleaseChunk\<close> fails as soon as that thread releases the chunk.\<close>

lemma no_chunk_bits: "chunk_bits 0 i = 0"
  by (simp add: chunk_bits_def)

theorem overwritten_word_fails_check:
  assumes "abi_Initialize start sz page_size = Some abi" and "smb_reachable abi s" and h: "smb_pc s t = Holds p i st c"
  shows "\<exists>s'. (smb_step abi)\<^sup>*\<^sup>* (set_layout p 0 s) s' \<and> smb_pc s' t = Check_failed"
proof -
  have inv: "smb_inv abi s" by (rule smb_reachable_inv [OF assms(1,2)])
  have o: "owned (smb_pc s t) = Some (p, i, st)" "in_hand (smb_pc s t) = Some c" by (simp_all add: h)
  note pl = held_place(1) [OF assms(1) inv o]
  have st: "st = kChunkBeingWritten \<or> st = kChunkBeingRead" using ownerD(2) [OF inv o(1)] by (simp add: busy_def)
  let ?s = "set_layout p 0 s"
  have pc: "smb_pc ?s t = Holds p i st c" by (simp add: h smb_updates)
  from st obtain d s1 where d: "st = expected_state d" "busy (expected_state d)" and s1: "release_step abi t ?s s1" "smb_pc s1 t = Releases p i d c 0" "smb_layout s1 p = 0"
  proof
    assume w: "st = kChunkBeingWritten"
    show ?thesis
      by (rule that [of kChunkComplete, OF _ _ release_step.release_complete [OF pc [unfolded w] pl]])
        (simp_all add: w busy_def smb_updates)
  next
    assume w: "st = kChunkBeingRead"
    show ?thesis
      by (rule that [of kChunkFree, OF _ _ release_step.release_free [OF pc [unfolded w] pl]])
        (simp_all add: w busy_def smb_updates)
  qed
  have "chunk_bits 0 i \<noteq> state_code (expected_state d)" using d(2) by (auto simp: no_chunk_bits busy_def)
  then have "release_step abi t s1 (go t Check_failed s1)"
    using release_step.release_load [OF s1(2) _ s1(3) [symmetric], of abi] by (simp add: kRetryAttempts_def)
  with s1(1) have "(smb_step abi)\<^sup>*\<^sup>* ?s (go t Check_failed s1)"
    unfolding smb_step_def by (intro converse_rtranclp_into_rtranclp [of _ ?s s1] r_into_rtranclp) blast+
  then show ?thesis by (intro exI conjI) (assumption, simp add: smb_updates)
qed

text \<open>Thread 0 divides page 0 into one chunk and acquires it.\<close>

lemma one_writer:
  assumes abi: "abi_Initialize 4096 8192 4096 = Some abi"
  shows "\<exists>s c. smb_reachable abi s \<and> smb_pc s 0 = Stores_header 0 0 c ClearChunkHeader"
proof -
  have n: "0 < abi_num_pages abi" using abi_Initialize_cases(4) [OF abi] by simp
  let ?l = "partitioned_layout 1"
  let ?s1 = "set_layout 0 ?l initial_smb"
  let ?s2 = "go 0 (Acquires 0 0 kChunkBeingWritten ClearChunkHeader 0) ?s1"
  let ?s3 = "go 0 (Acquire_swaps 0 0 kChunkBeingWritten ClearChunkHeader 0 ?l) ?s2"
  have p: "page_states ?l = [kChunkFree]" using partitioned_states(1) [of 1] by (simp add: kNumChunksForLayout_def)
  then have l: "GetNumChunksForLayout ?l = 1" "GetChunkStateFromLayout ?l 0 = kChunkFree"
    using length_page_states [of ?l] nth_page_states [of 0 ?l] by simp_all
  obtain c where c: "GetChunkUnchecked abi 0 ?l 0 = Some c" using chunk_place(1) [OF abi n, of 0 ?l] l(1) by auto
  let ?s4 = "go 0 (Stores_header 0 0 c ClearChunkHeader) (set_layout 0 (with_chunk_state ?l 0 kChunkBeingWritten) ?s3)"
  have "partition_step abi 0 initial_smb ?s1"
    by (rule partition_step.partition [where d = 1]) (simp_all add: n initial_smb_def)
  then have "smb_reachable abi ?s1" using smb_reachable.intros unfolding smb_step_def by blast
  moreover have "acquire_step abi 0 ?s1 ?s2"
    by (rule acquire_step.acquire_call) (simp_all add: n initial_smb_def smb_updates)
  ultimately have "smb_reachable abi ?s2" using smb_reachable.intros unfolding smb_step_def by blast
  moreover have "acquire_step abi 0 ?s2 ?s3"
    using acquire_step.acquire_load [of ?s2 0 0 0 kChunkBeingWritten ClearChunkHeader 0 ?l abi]
    by (simp add: l chunk_bits_state kRetryAttempts_def smb_updates)
  ultimately have "smb_reachable abi ?s3" using smb_reachable.intros unfolding smb_step_def by blast
  moreover have "acquire_step abi 0 ?s3 ?s4"
    using acquire_step.acquire_swap [of ?s3 0 0 0 kChunkBeingWritten ClearChunkHeader 0 ?l abi]
    by (simp add: c smb_updates)
  ultimately have "smb_reachable abi ?s4" using smb_reachable.intros unfolding smb_step_def by blast
  then show ?thesis by (intro exI [of _ ?s4] exI [of _ c]) (simp add: smb_updates)
qed

theorem chunks_owned_once_witness:
  "\<exists>abi s c. smb_reachable abi s \<and> smb_pc s 0 = Stores_header 0 0 c ClearChunkHeader \<and>
    GetChunkStateFromLayout (smb_layout s 0) 0 = kChunkBeingWritten"
proof -
  have "abi_Initialize 4096 8192 4096 \<noteq> None" by code_simp
  then obtain abi where abi: "abi_Initialize 4096 8192 4096 = Some abi" by blast
  from one_writer [OF abi] obtain s c where s: "smb_reachable abi s" "smb_pc s 0 = Stores_header 0 0 c ClearChunkHeader" by blast
  then have o: "owned (smb_pc s 0) = Some (0, 0, kChunkBeingWritten)" by simp
  have "GetChunkStateFromLayout (smb_layout s 0) 0 = kChunkBeingWritten"
    using chunks_owned_once [OF abi s(1), of 0 0 0 kChunkBeingWritten 0 kChunkBeingWritten] o ownerD(4) [OF smb_reachable_inv [OF abi s(1)] o] by blast
  with s show ?thesis by blast
qed

end
