(* ===== verification/Base_Strings.thy ===== *)
theory Base_Strings
  imports VP_Prelude
begin

section \<open>Strings (ext/base/string_view.h, ext/base/hash.h, base/string_utils.cc)\<close>

text \<open>
  A \<open>std::string\<close> and a \<open>StringView\<close> are their bytes; positions are numbers and \<open>npos\<close> is the largest 64-bit number. The
  functions of the C and C++ libraries that the code calls are written out: \<open>string_find\<close> is \<open>std::string::find\<close>,
  \<open>strncmp_equal\<close> is \<open>strncmp(...) == 0\<close>, which stops at a zero byte, and \<open>memcmp\<close> compares bytes as unsigned. \<open>None\<close> is a
  failed \<open>PERFETTO_CHECK\<close>.
\<close>

type_synonym bytes = "u8 list"

definition npos :: nat where
  "npos = 2 ^ 64 - 1"

subsection \<open>Library functions\<close>

function string_find :: "bytes \<Rightarrow> bytes \<Rightarrow> nat \<Rightarrow> nat" where
  "string_find str needle pos =
     (if pos + length needle \<le> length str
      then (if take (length needle) (drop pos str) = needle then pos else string_find str needle (pos + 1))
      else npos)"
  by pat_completeness auto
termination
  by (relation "measure (\<lambda>(str, needle, pos). Suc (length str) - pos)") auto

declare string_find.simps [simp del]

fun memcmp :: "bytes \<Rightarrow> bytes \<Rightarrow> nat \<Rightarrow> int" where
  "memcmp (x # xs) (y # ys) (Suc n) = (if x = y then memcmp xs ys n else if x < y then - 1 else 1)"
| "memcmp xs ys n = 0"

fun strncmp_equal :: "bytes \<Rightarrow> bytes \<Rightarrow> nat \<Rightarrow> bool" where
  "strncmp_equal (x # xs) (y # ys) (Suc n) = (x = y \<and> (x = 0 \<or> strncmp_equal xs ys n))"
| "strncmp_equal xs ys n = True"

subsection \<open>\<open>StringView\<close>\<close>

definition sv_at :: "bytes \<Rightarrow> nat \<Rightarrow> u8 option" where
  "sv_at sv pos = (if pos < length sv then Some (sv ! pos) else None)"

function sv_find_char :: "bytes \<Rightarrow> u8 \<Rightarrow> nat \<Rightarrow> nat" where
  "sv_find_char sv c i =
     (if i < length sv then (if sv ! i = c then i else sv_find_char sv c (i + 1)) else npos)"
  by pat_completeness auto
termination
  by (relation "measure (\<lambda>(sv, c, i). length sv - i)") auto

declare sv_find_char.simps [simp del]

text \<open>\<open>std::search\<close> gives the end of the view when the string does not occur.\<close>

definition std_search :: "bytes \<Rightarrow> bytes \<Rightarrow> nat \<Rightarrow> nat" where
  "std_search sv str start_pos = (let p = string_find sv str start_pos in if p = npos then length sv else p)"

definition sv_find :: "bytes \<Rightarrow> bytes \<Rightarrow> nat \<Rightarrow> nat" where
  "sv_find sv str start_pos =
     (if start_pos > length sv then npos
      else (let pos = std_search sv str start_pos in if pos + length str \<le> length sv then pos else npos))"

fun sv_rfind_from :: "bytes \<Rightarrow> u8 \<Rightarrow> nat \<Rightarrow> nat" where
  "sv_rfind_from sv c 0 = npos"
| "sv_rfind_from sv c (Suc i) = (if sv ! i = c then i else sv_rfind_from sv c i)"

definition sv_rfind :: "bytes \<Rightarrow> u8 \<Rightarrow> nat" where
  "sv_rfind sv c = sv_rfind_from sv c (length sv)"

definition sv_substr :: "bytes \<Rightarrow> nat \<Rightarrow> nat \<Rightarrow> bytes" where
  "sv_substr sv pos count = (if pos \<ge> length sv then [] else take (min count (length sv - pos)) (drop pos sv))"

definition sv_eq :: "bytes \<Rightarrow> bytes \<Rightarrow> bool" where
  "sv_eq x y = (if length x \<noteq> length y then False else if length x = 0 then True else memcmp x y (length x) = 0)"

definition sv_less :: "bytes \<Rightarrow> bytes \<Rightarrow> bool" where
  "sv_less x y =
     (let size = min (length x) (length y)
      in if size = 0 then length x < length y
         else (let result = memcmp x y size in result < 0 \<or> (result = 0 \<and> length x < length y)))"

text \<open>FNV-1a.\<close>

definition kFnv1a64OffsetBasis :: u64 where "kFnv1a64OffsetBasis = 0xcbf29ce484222325"
definition kFnv1a64Prime :: u64 where "kFnv1a64Prime = 0x100000001b3"

fun hash_Update :: "bytes \<Rightarrow> u64 \<Rightarrow> u64" where
  "hash_Update [] result = result"
| "hash_Update (b # bs) result = hash_Update bs ((result XOR ucast b) * kFnv1a64Prime)"

definition sv_Hash :: "bytes \<Rightarrow> u64" where
  "sv_Hash sv = hash_Update sv kFnv1a64OffsetBasis"

subsection \<open>\<open>string_utils\<close>\<close>

definition StartsWith :: "bytes \<Rightarrow> bytes \<Rightarrow> bool" where
  "StartsWith str prefix \<longleftrightarrow> take (length prefix) str = prefix"

definition EndsWith :: "bytes \<Rightarrow> bytes \<Rightarrow> bool" where
  "EndsWith str suffix =
     (if length suffix > length str then False
      else take (length suffix) (drop (length str - length suffix) str) = suffix)"

definition Contains :: "bytes \<Rightarrow> bytes \<Rightarrow> bool" where
  "Contains haystack needle \<longleftrightarrow> string_find haystack needle 0 \<noteq> npos"

function Find_loop :: "bytes \<Rightarrow> bytes \<Rightarrow> nat \<Rightarrow> nat" where
  "Find_loop needle haystack i =
     (if i < length haystack - (length needle - 1)
      then (if strncmp_equal (drop i haystack) needle (length needle) then i else Find_loop needle haystack (i + 1))
      else npos)"
  by pat_completeness auto
termination
  by (relation "measure (\<lambda>(needle, haystack, i). length haystack - (length needle - 1) - i)") auto

declare Find_loop.simps [simp del]

definition Find :: "bytes \<Rightarrow> bytes \<Rightarrow> nat" where
  "Find needle haystack =
     (if needle = [] then 0 else if length needle > length haystack then npos else Find_loop needle haystack 0)"

definition Lowercase :: "u8 \<Rightarrow> u8" where
  "Lowercase c = (if 0x41 \<le> c \<and> c \<le> 0x5A then c + 0x20 else c)"

definition Uppercase :: "u8 \<Rightarrow> u8" where
  "Uppercase c = (if 0x61 \<le> c \<and> c \<le> 0x7A then c - 0x20 else c)"

definition CaseInsensitiveEqual :: "bytes \<Rightarrow> bytes \<Rightarrow> bool" where
  "CaseInsensitiveEqual first second \<longleftrightarrow>
     length first = length second \<and> list_all2 (\<lambda>a b. Lowercase a = Lowercase b) first second"

definition ToUpper :: "bytes \<Rightarrow> bytes" where "ToUpper = map Uppercase"
definition ToLower :: "bytes \<Rightarrow> bytes" where "ToLower = map Lowercase"

fun Join_from :: "bytes list \<Rightarrow> bytes \<Rightarrow> bytes \<Rightarrow> bytes" where
  "Join_from [] delim acc = acc"
| "Join_from [part] delim acc = acc @ part"
| "Join_from (part # parts) delim acc = Join_from parts delim (acc @ part @ delim)"

definition Join :: "bytes list \<Rightarrow> bytes \<Rightarrow> bytes" where
  "Join parts delim = Join_from parts delim []"

text \<open>The loops of \<open>SplitString\<close> and \<open>ReplaceAll\<close>; that they end is proved below.\<close>

partial_function (option) SplitString_loop :: "bytes \<Rightarrow> bytes \<Rightarrow> nat \<Rightarrow> bytes list \<Rightarrow> bytes list option" where
  "SplitString_loop text delimiter start output =
     (let nxt = min (string_find text delimiter start) (length text);
          output' = (if nxt > start then output @ [take (nxt - start) (drop start text)] else output);
          start' = nxt + length delimiter
      in if start' \<ge> length text then Some output' else SplitString_loop text delimiter start' output')"

definition SplitString :: "bytes \<Rightarrow> bytes \<Rightarrow> bytes list option" where
  "SplitString text delimiter = (if delimiter = [] then None else SplitString_loop text delimiter 0 [])"

definition StripPrefix :: "bytes \<Rightarrow> bytes \<Rightarrow> bytes" where
  "StripPrefix str prefix = (if StartsWith str prefix then drop (length prefix) str else str)"

definition StripSuffix :: "bytes \<Rightarrow> bytes \<Rightarrow> bytes" where
  "StripSuffix str suffix = (if EndsWith str suffix then take (length str - length suffix) str else str)"

definition hex_digit :: "u8 \<Rightarrow> u8" where
  "hex_digit d = (if d < 10 then 0x30 + d else 0x61 + (d - 10))"

definition ToHex :: "bytes \<Rightarrow> bytes" where
  "ToHex data = concat (map (\<lambda>b. [hex_digit (drop_bit 4 b), hex_digit (b AND 0xF)]) data)"

text \<open>\<open>strpbrk\<close> works on C strings: neither the characters nor the text go past the first zero byte.\<close>

definition c_str :: "bytes \<Rightarrow> bytes" where
  "c_str s = takeWhile (\<lambda>c. c \<noteq> 0) s"

definition StripChars :: "bytes \<Rightarrow> bytes \<Rightarrow> u8 \<Rightarrow> bytes" where
  "StripChars str chars replacement =
     map (\<lambda>c. if c \<in> set (c_str chars) then replacement else c) (c_str str) @ drop (length (c_str str)) str"

partial_function (option) ReplaceAll_loop :: "bytes \<Rightarrow> bytes \<Rightarrow> bytes \<Rightarrow> nat \<Rightarrow> bytes option" where
  "ReplaceAll_loop str to_replace replacement pos =
     (let p = string_find str to_replace pos
      in if p = npos then Some str
         else ReplaceAll_loop (take p str @ replacement @ drop (p + length to_replace) str) to_replace replacement
                (p + length replacement))"

definition ReplaceAll :: "bytes \<Rightarrow> bytes \<Rightarrow> bytes \<Rightarrow> bytes option" where
  "ReplaceAll str to_replace replacement =
     (if to_replace = [] then None else ReplaceAll_loop str to_replace replacement 0)"

definition TrimLeading :: "bytes \<Rightarrow> bytes" where
  "TrimLeading str =
     (case find (\<lambda>i. str ! i \<noteq> 0x20) [0..<length str] of None \<Rightarrow> str | Some idx \<Rightarrow> drop idx str)"

subsection \<open>Finding\<close>

definition occurs_at :: "bytes \<Rightarrow> bytes \<Rightarrow> nat \<Rightarrow> bool" where
  "occurs_at str needle i \<longleftrightarrow> i + length needle \<le> length str \<and> take (length needle) (drop i str) = needle"

lemma string_find_cases:
  assumes "length str < npos"
  shows "(string_find str needle pos = npos \<and> (\<forall>i \<ge> pos. \<not> occurs_at str needle i)) \<or>
    (pos \<le> string_find str needle pos \<and> occurs_at str needle (string_find str needle pos) \<and>
     (\<forall>i. pos \<le> i \<and> i < string_find str needle pos \<longrightarrow> \<not> occurs_at str needle i))"
  using assms
proof (induction str needle pos rule: string_find.induct)
  case (1 str needle pos)
  show ?case
  proof (cases "pos + length needle \<le> length str")
    case False
    then show ?thesis by (subst string_find.simps) (auto simp: occurs_at_def)
  next
    case le: True
    show ?thesis
    proof (cases "take (length needle) (drop pos str) = needle")
      case True
      with le have eq: "string_find str needle pos = pos" by (subst string_find.simps) simp
      from le True show ?thesis unfolding eq by (auto simp: occurs_at_def)
    next
      case False
      with le have eq: "string_find str needle pos = string_find str needle (pos + 1)" by (subst string_find.simps) simp
      from False have no: "\<not> occurs_at str needle pos" by (simp add: occurs_at_def)
      have split: "i = pos \<or> pos + 1 \<le> i" if "pos \<le> i" for i using that by auto
      from "1.IH" [OF le False "1.prems"] no split show ?thesis unfolding eq by (metis Suc_eq_plus1 Suc_leD)
    qed
  qed
qed

lemma string_find_found:
  assumes "length str < npos" and "string_find str needle pos \<noteq> npos"
  shows "pos \<le> string_find str needle pos" "occurs_at str needle (string_find str needle pos)"
    "string_find str needle pos + length needle \<le> length str"
    "pos \<le> i \<Longrightarrow> i < string_find str needle pos \<Longrightarrow> \<not> occurs_at str needle i"
  using string_find_cases [OF assms(1), of needle pos] assms(2) by (auto simp: occurs_at_def)

lemma string_find_none:
  "length str < npos \<Longrightarrow> string_find str needle pos = npos \<Longrightarrow> pos \<le> i \<Longrightarrow> \<not> occurs_at str needle i"
  using string_find_cases [of str needle pos] by (auto simp: occurs_at_def)

lemma strncmp_equal_iff:
  "0 \<notin> set ys \<Longrightarrow> n = length ys \<Longrightarrow> n \<le> length xs \<Longrightarrow> strncmp_equal xs ys n \<longleftrightarrow> take n xs = ys"
  by (induction xs ys n rule: strncmp_equal.induct) auto

lemma Find_loop_string_find:
  assumes "0 \<notin> set needle" and "needle \<noteq> []" and "length needle \<le> length haystack"
  shows "Find_loop needle haystack i = string_find haystack needle i"
  using assms
proof (induction needle haystack i rule: Find_loop.induct)
  case (1 needle haystack i)
  have c: "i < length haystack - (length needle - 1) \<longleftrightarrow> i + length needle \<le> length haystack"
    using "1.prems"(2,3) by (cases needle) auto
  show ?case
  proof (cases "i + length needle \<le> length haystack")
    case True
    then have "strncmp_equal (drop i haystack) needle (length needle) \<longleftrightarrow> take (length needle) (drop i haystack) = needle"
      using "1.prems"(1) by (intro strncmp_equal_iff) auto
    with True c "1.IH" "1.prems" show ?thesis by (subst Find_loop.simps, subst string_find.simps) auto
  next
    case False
    with c show ?thesis by (subst Find_loop.simps, subst string_find.simps) auto
  qed
qed

lemma string_find_empty [simp]: "string_find str [] 0 = 0"
  by (subst string_find.simps) simp

lemma sv_find_string_find:
  assumes "length sv < npos"
  shows "sv_find sv str start_pos = string_find sv str start_pos"
proof (cases "string_find sv str start_pos = npos")
  case True
  then have "\<not> length sv + length str \<le> length sv \<or> str = []" by simp
  moreover have "start_pos > length sv" if "str = []"
    using string_find_none [OF assms True, of start_pos] that by (auto simp: occurs_at_def)
  ultimately show ?thesis using True by (auto simp: sv_find_def std_search_def Let_def)
next
  case False
  with string_find_found [OF assms False] show ?thesis by (auto simp: sv_find_def std_search_def Let_def)
qed

subsection \<open>Pieces between delimiters\<close>

text \<open>The pieces of a text: each but the last ends where the delimiter first occurs, the last has no occurrence.\<close>

inductive pieces :: "bytes \<Rightarrow> bytes \<Rightarrow> bytes list \<Rightarrow> bool" for d where
  last_piece: "(\<forall>i. \<not> occurs_at t d i) \<Longrightarrow> pieces d t [t]"
| more_pieces: "occurs_at t d n \<Longrightarrow> (\<forall>i < n. \<not> occurs_at t d i) \<Longrightarrow> pieces d (drop (n + length d) t) ps \<Longrightarrow> pieces d t (take n t # ps)"

lemma pieces_nonempty: "pieces d t ps \<Longrightarrow> ps \<noteq> []"
  by (erule pieces.cases) simp_all

lemma occurs_split: "occurs_at t d n \<Longrightarrow> t = take n t @ d @ drop (n + length d) t"
  unfolding occurs_at_def by (metis append_take_drop_id drop_drop add.commute)

lemma occurs_drop: "p \<le> length t \<Longrightarrow> occurs_at (drop p t) d i \<longleftrightarrow> occurs_at t d (p + i)"
  by (auto simp: occurs_at_def add.commute)

lemma Join_from_acc: "Join_from parts d acc = acc @ Join parts d"
proof -
  have "Join_from parts d (acc @ acc') = acc @ Join_from parts d acc'" for acc'
    by (induction parts d acc' rule: Join_from.induct) simp_all
  from this [of "[]"] show ?thesis by (simp add: Join_def)
qed

lemma Join_simps [simp]:
  "Join [] d = []" "Join [p] d = p" "ps \<noteq> [] \<Longrightarrow> Join (p # ps) d = p @ d @ Join ps d"
proof -
  show "Join (p # ps) d = p @ d @ Join ps d" if "ps \<noteq> []"
  proof -
    from that obtain q qs where ps: "ps = q # qs" by (cases ps) auto
    then have "Join (p # ps) d = Join_from ps d (p @ d)" by (simp add: Join_def)
    then show ?thesis by (simp add: Join_from_acc)
  qed
qed (simp_all add: Join_def)

text \<open>Joining the pieces gives the text back.\<close>

lemma Join_pieces: "pieces d t ps \<Longrightarrow> Join ps d = t"
proof (induction t ps rule: pieces.induct)
  case (more_pieces t n ps)
  with pieces_nonempty occurs_split [OF more_pieces(1)] show ?case by simp
qed simp

lemma pieces_unique: "pieces d t ps \<Longrightarrow> pieces d t qs \<Longrightarrow> ps = qs"
proof (induction t ps arbitrary: qs rule: pieces.induct)
  case (last_piece t)
  from last_piece(2,1) show ?case by cases auto
next
  case (more_pieces t n ps)
  from more_pieces.prems show ?case
  proof cases
    case last_piece
    with more_pieces(1) show ?thesis by blast
  next
    case (more_pieces m qs')
    then have "m = n" using \<open>occurs_at t d n\<close> \<open>\<forall>i<n. \<not> occurs_at t d i\<close> by (metis linorder_neqE_nat)
    with more_pieces more_pieces.IH show ?thesis by simp
  qed
qed

text \<open>The loops walk along the pieces of what is left of the text.\<close>

lemma SplitString_loop_pieces:
  assumes "length text < npos" and "d \<noteq> []" and "pieces d (drop start text) ps" and "start \<le> length text"
  shows "SplitString_loop text d start acc = Some (acc @ filter (\<lambda>p. p \<noteq> []) ps)"
  using assms(3,4)
proof (induction "length text - start" arbitrary: start ps acc rule: less_induct)
  case less
  show ?case
  proof (cases "string_find text d start = npos")
    case True
    have none: "\<not> occurs_at (drop start text) d i" for i
      using string_find_none [OF assms(1) True, of "start + i"] less.prems(2) by (simp add: occurs_drop)
    then have ps: "ps = [drop start text]" using pieces_unique [OF less.prems(1) last_piece] by blast
    show ?thesis
      using assms(1) less.prems(2) by (subst SplitString_loop.simps) (simp add: True Let_def ps min_def)
  next
    case False
    note f = string_find_found [OF assms(1) False]
    define n where "n = string_find text d start"
    have n: "start \<le> n" "occurs_at text d n" "n + length d \<le> length text"
      using f(1-3) by (simp_all add: n_def)
    have occ: "occurs_at (drop start text) d (n - start)" using n less.prems(2) by (simp add: occurs_drop)
    have first: "\<forall>i < n - start. \<not> occurs_at (drop start text) d i"
    proof (intro allI impI)
      fix i assume "i < n - start"
      then have "\<not> occurs_at text d (start + i)" using f(4) [of "start + i"] by (simp add: n_def)
      then show "\<not> occurs_at (drop start text) d i" using less.prems(2) by (simp add: occurs_drop)
    qed
    from less.prems(1) obtain qs where qs: "ps = take (n - start) (drop start text) # qs" "pieces d (drop (n + length d) text) qs"
    proof cases
      case last_piece
      with occ show ?thesis by blast
    next
      case (more_pieces m qs)
      then have m: "m = n - start" using occ first by (metis linorder_neqE_nat)
      show ?thesis by (rule that [of qs]) (use more_pieces m n(1) in \<open>simp_all add: add.commute\<close>)
    qed
    let ?out = "if n > start then acc @ [take (n - start) (drop start text)] else acc"
    have out: "?out @ filter (\<lambda>p. p \<noteq> []) qs = acc @ filter (\<lambda>p. p \<noteq> []) ps"
      using n less.prems(2) assms(2) by (auto simp: qs(1))
    have step: "SplitString_loop text d start acc =
        (if n + length d \<ge> length text then Some ?out else SplitString_loop text d (n + length d) ?out)"
      using n(3) by (subst SplitString_loop.simps) (simp add: n_def [symmetric] Let_def min_def)
    show ?thesis
    proof (cases "n + length d \<ge> length text")
      case True
      then have "drop (n + length d) text = []" by simp
      with qs(2) have "pieces d [] qs" by simp
      then have "qs = [[]]" using assms(2) by cases (auto simp: occurs_at_def)
      with step True out show ?thesis by simp
    next
      case False
      then have "length text - (n + length d) < length text - start" using n(1) assms(2) by (cases d) auto
      from less.hyps [OF this qs(2) n(3)] step False out show ?thesis by simp
    qed
  qed
qed

lemma pieces_exist: "length t < npos \<Longrightarrow> d \<noteq> [] \<Longrightarrow> \<exists>ps. pieces d t ps"
proof (induction "length t" arbitrary: t rule: less_induct)
  case less
  show ?case
  proof (cases "string_find t d 0 = npos")
    case True
    then show ?thesis using string_find_none [OF less.prems(1) True] last_piece by blast
  next
    case False
    let ?n = "string_find t d 0"
    note f = string_find_found [OF less.prems(1) False]
    have "length (drop (?n + length d) t) < length t" using f(3) less.prems(2) by (cases d) auto
    moreover from this less.prems(1) have "length (drop (?n + length d) t) < npos" by (rule less_trans)
    ultimately obtain ps where "pieces d (drop (?n + length d) t) ps" using less.hyps less.prems(2) by blast
    with f(2,4) show ?thesis using more_pieces by blast
  qed
qed

lemma string_find_eqI:
  assumes "length str < npos" and "pos \<le> p" and "occurs_at str needle p" and "\<forall>i. pos \<le> i \<and> i < p \<longrightarrow> \<not> occurs_at str needle i"
  shows "string_find str needle pos = p"
proof -
  have "string_find str needle pos \<noteq> npos" using string_find_none [OF assms(1)] assms(2,3) by blast
  note f = string_find_found [OF assms(1) this]
  show ?thesis using f(1,2) f(4) [OF assms(2)] assms(3,4) by (metis linorder_neqE_nat)
qed

lemma occurs_append: "length u \<le> i \<Longrightarrow> occurs_at (u @ t) d i \<longleftrightarrow> occurs_at t d (i - length u)"
  by (auto simp: occurs_at_def)

lemma ReplaceAll_loop_pieces:
  "pieces d t ps \<Longrightarrow> d \<noteq> [] \<Longrightarrow> length u + length t * (1 + length r) < npos \<Longrightarrow>
    ReplaceAll_loop (u @ t) d r (length u) = Some (u @ Join ps r)"
proof (induction t ps arbitrary: u rule: pieces.induct)
  case (last_piece t)
  have "length (u @ t) < npos" using last_piece(3) by simp
  then have "string_find (u @ t) d (length u) = npos"
    using string_find_cases [of "u @ t" d "length u"] last_piece(1) by (auto simp: occurs_append)
  then show ?case by (subst ReplaceAll_loop.simps) simp
next
  case (more_pieces t n ps)
  let ?t = "drop (n + length d) t" and ?u = "u @ take n t @ r"
  have n: "n + length d \<le> length t" using more_pieces(1) by (simp add: occurs_at_def)
  have small: "length (u @ t) < npos" using more_pieces.prems(2) by simp
  have p: "string_find (u @ t) d (length u) = length u + n"
    by (rule string_find_eqI [OF small]) (use more_pieces(1,2) in \<open>auto simp: occurs_append\<close>)
  have np: "length u + n \<noteq> npos" using small n by simp
  have "length ?u + length ?t * (1 + length r) \<le> length u + length t * (1 + length r)"
  proof -
    have "n + length d + length ?t = length t" using n by simp
    then have "(n + length d) * (1 + length r) + length ?t * (1 + length r) = length t * (1 + length r)"
      by (metis distrib_right)
    moreover have "n + length r \<le> (n + length d) * (1 + length r)" using more_pieces.prems(1) by (cases d) (auto simp: algebra_simps)
    moreover have "length ?u = length u + n + length r" using n by simp
    ultimately show ?thesis by linarith
  qed
  with more_pieces.prems(2) have "length ?u + length ?t * (1 + length r) < npos" by simp
  from more_pieces.IH [OF more_pieces.prems(1) this]
  have IH: "ReplaceAll_loop (?u @ ?t) d r (length ?u) = Some (?u @ Join ps r)" .
  have "ReplaceAll_loop (u @ t) d r (length u) = ReplaceAll_loop (?u @ ?t) d r (length ?u)"
    using np n by (subst ReplaceAll_loop.simps) (simp add: p add.assoc)
  with IH pieces_nonempty [OF more_pieces(3)] show ?case by simp
qed

text \<open>Parts without the delimiter, a single byte, are the pieces of their join.\<close>

lemma occurs_byte: "occurs_at t [c] i \<longleftrightarrow> i < length t \<and> t ! i = c"
  by (auto simp: occurs_at_def take_Suc_conv_app_nth hd_drop_conv_nth take_Suc)

lemma pieces_join: "parts \<noteq> [] \<Longrightarrow> \<forall>p \<in> set parts. c \<notin> set p \<Longrightarrow> pieces [c] (Join parts [c]) parts"
proof (induction parts)
  case (Cons p ps)
  show ?case
  proof (cases "ps = []")
    case True
    with Cons.prems show ?thesis by (auto intro!: last_piece simp: occurs_byte)
  next
    case False
    let ?t = "Join (p # ps) [c]"
    have t: "?t = p @ [c] @ Join ps [c]" using False by simp
    have "pieces [c] (drop (length p + length [c]) ?t) ps" using Cons False by (simp add: t)
    moreover have "occurs_at ?t [c] (length p)" by (simp add: t occurs_byte)
    moreover have "\<forall>i < length p. \<not> occurs_at ?t [c] i"
      using Cons.prems(2) by (auto simp: t occurs_byte nth_append)
    ultimately show ?thesis using more_pieces [of ?t "[c]" "length p" ps] t by simp
  qed
qed simp

subsection \<open>The order of views\<close>

lemma memcmp_lexordp:
  "n = min (length xs) (length ys) \<Longrightarrow>
    (memcmp xs ys n < 0 \<or> (memcmp xs ys n = 0 \<and> length xs < length ys)) \<longleftrightarrow> ord_class.lexordp xs ys"
proof (induction xs arbitrary: ys n)
  case (Cons x xs)
  then show ?case by (cases ys) auto
qed (cases ys; simp)

lemma memcmp_eq: "length xs = length ys \<Longrightarrow> memcmp xs ys (length xs) = 0 \<longleftrightarrow> xs = ys"
  by (induction xs ys "length xs" rule: memcmp.induct) auto

lemma sv_less_lexordp: "sv_less x y \<longleftrightarrow> ord_class.lexordp x y"
proof (cases "min (length x) (length y) = 0")
  case True
  then show ?thesis by (cases x; cases y) (auto simp: sv_less_def)
next
  case False
  then show ?thesis using memcmp_lexordp [of "min (length x) (length y)" x y] by (simp only: sv_less_def Let_def if_False)
qed

lemma sv_eq_iff: "sv_eq x y \<longleftrightarrow> x = y"
  using memcmp_eq [of x y] by (auto simp: sv_eq_def)

text \<open>The views with their operators are a linear order of the type class library.\<close>

datatype StringView = StringView (sv_bytes: bytes)

instantiation StringView :: linorder
begin

definition less_StringView :: "StringView \<Rightarrow> StringView \<Rightarrow> bool" where
  "less_StringView x y \<longleftrightarrow> sv_less (sv_bytes x) (sv_bytes y)"

definition less_eq_StringView :: "StringView \<Rightarrow> StringView \<Rightarrow> bool" where
  "less_eq_StringView x y \<longleftrightarrow> \<not> sv_less (sv_bytes y) (sv_bytes x)"

instance
proof
  fix x y z :: StringView
  note defs = less_StringView_def less_eq_StringView_def sv_less_lexordp
  show "x < y \<longleftrightarrow> x \<le> y \<and> \<not> y \<le> x" using lexordp_antisym unfolding defs by blast
  show "x \<le> x" using lexordp_irreflexive' unfolding defs by blast
  show "x \<le> y \<Longrightarrow> y \<le> z \<Longrightarrow> x \<le> z"
    using lexordp_linear lexordp_trans unfolding defs by metis
  show "x \<le> y \<Longrightarrow> y \<le> x \<Longrightarrow> x = y"
    using lexordp_linear unfolding defs by (metis StringView.expand)
  show "x \<le> y \<or> y \<le> x" using lexordp_antisym unfolding defs by blast
qed

end

subsection \<open>Properties\<close>

text \<open>A text is cut, from the left, at the occurrences of a delimiter that do not overlap: the pieces joined
  with the delimiter are the text, \<open>SplitString\<close> ends and returns the pieces that are not empty, and \<open>ReplaceAll\<close> ends and
  returns the pieces joined with the replacement, also when that contains the delimiter.\<close>
theorem split_and_replace:
  assumes "d \<noteq> []" and "length text * (1 + length r) < npos"
  shows "\<exists>ps. pieces d text ps \<and> Join ps d = text \<and>
    SplitString text d = Some (filter (\<lambda>p. p \<noteq> []) ps) \<and> ReplaceAll text d r = Some (Join ps r)"
proof -
  have small: "length text < npos" using assms(2) by simp
  then obtain ps where ps: "pieces d text ps" using pieces_exist assms(1) by blast
  have "SplitString text d = Some (filter (\<lambda>p. p \<noteq> []) ps)"
    using SplitString_loop_pieces [OF small assms(1), of 0 ps "[]"] ps assms(1) by (simp add: SplitString_def)
  moreover have "ReplaceAll text d r = Some (Join ps r)"
    using ReplaceAll_loop_pieces [OF ps assms(1), of "[]" r] assms by (simp add: ReplaceAll_def)
  ultimately show ?thesis using ps Join_pieces [OF ps] by blast
qed

theorem split_and_replace_witness:
  "\<exists>ps. Join ps [1, 1] = [1, 1, 1, 2 :: u8] \<and> ReplaceAll [1, 1, 1, 2] [1, 1] [1, 1, 1] = Some (Join ps [1, 1, 1])"
proof -
  have "[1, 1 :: u8] \<noteq> []" "length [1, 1, 1, 2 :: u8] * (1 + length [1, 1, 1 :: u8]) < npos" by (simp_all add: npos_def)
  from split_and_replace [OF this] show ?thesis by blast
qed

text \<open>Parts that are not empty and do not contain the one-byte delimiter are what \<open>SplitString\<close> returns for their
  \<open>Join\<close>.\<close>
theorem split_join:
  assumes "parts \<noteq> []" and "\<forall>p \<in> set parts. p \<noteq> [] \<and> c \<notin> set p" and "length (Join parts [c]) < npos"
  shows "SplitString (Join parts [c]) [c] = Some parts"
proof -
  have ps: "pieces [c] (Join parts [c]) parts" using pieces_join [OF assms(1)] assms(2) by blast
  have "filter (\<lambda>p. p \<noteq> []) parts = parts" using assms(2) by (simp add: filter_id_conv)
  then show ?thesis
    using SplitString_loop_pieces [OF assms(3), of "[c]" 0 parts "[]"] ps by (simp add: SplitString_def)
qed

theorem split_join_witness:
  "SplitString [5, 6, 44, 7] [44] = Some [[5, 6], [7 :: u8]]"
  using split_join [of "[[5, 6], [7]]" 44] by (simp add: npos_def)

text \<open>\<open>Find\<close> agrees with \<open>std::string::find\<close> when the needle has no zero byte; with one, it stops comparing there.\<close>

lemma Find_agrees: "0 \<notin> set needle \<Longrightarrow> Find needle haystack = string_find haystack needle 0"
proof (cases "needle = [] \<or> length needle > length haystack")
  case True
  then show ?thesis by (subst string_find.simps) (auto simp: Find_def)
qed (simp add: Find_def Find_loop_string_find)

lemma Find_stops_at_zero: "Find [1, 0, 2] [1, 0, 3, 4] = 0" "string_find [1, 0, 3, 4] [1, 0, 2 :: u8] 0 = npos"
  by (simp add: Find_def Find_loop.simps [of _ _ 0]) (simp add: string_find.simps)

text \<open>The result of \<open>TrimLeading\<close> starts with a space only when the string has nothing but spaces: such a string is not trimmed.\<close>

lemma TrimLeading_cases:
  "TrimLeading str = (if set str \<subseteq> {0x20} then str else dropWhile (\<lambda>c. c = 0x20) str)"
proof (cases "find (\<lambda>i. str ! i \<noteq> 0x20) [0..<length str]")
  case None
  then have "\<forall>i < length str. str ! i = 0x20" by (auto simp: find_None_iff)
  then have "set str \<subseteq> {0x20}" by (auto simp: in_set_conv_nth)
  with None show ?thesis by (simp add: TrimLeading_def)
next
  case (Some i)
  then have i: "i < length str" "str ! i \<noteq> 0x20" "\<forall>j < i. str ! j = 0x20" by (auto simp: find_Some_iff)
  then have "\<not> set str \<subseteq> {0x20}" using nth_mem by fastforce
  moreover have "takeWhile (\<lambda>c. c = 0x20) str = take i str" using i by (intro takeWhile_eq_take_P_nth) auto
  then have "dropWhile (\<lambda>c. c = 0x20) str = drop i str" using i(1) by (simp add: dropWhile_eq_drop)
  ultimately show ?thesis using Some by (simp add: TrimLeading_def)
qed

end
