(* ===== verification/String_Writer.thy ===== *)
theory String_Writer
  imports Base_Strings
begin

section \<open>Formatting into a fixed buffer (ext/base/string\_writer.h)\<close>

text \<open>
  The writer appends characters, strings and decimal numbers to a buffer that its client sized. \<open>None\<close> is a write outside the
  buffer (the size checks are only in debug builds) or the absolute value of the smallest integer, which is undefined.
  Hexadecimal numbers and doubles go through \<open>snprintf\<close> and are left out.
\<close>

record StringWriter =
  sw_buffer :: bytes
  sw_pos :: nat

definition make_StringWriter :: "bytes \<Rightarrow> StringWriter" where
  "make_StringWriter buffer = \<lparr>sw_buffer = buffer, sw_pos = 0\<rparr>"

text \<open>\<open>memcpy\<close> to the position, for both \<open>AppendChar\<close> and \<open>sw_AppendString\<close>.\<close>

definition sw_AppendString :: "bytes \<Rightarrow> StringWriter \<Rightarrow> StringWriter option" where
  "sw_AppendString s w =
     (if sw_pos w + length s \<le> length (sw_buffer w)
      then Some \<lparr>sw_buffer = take (sw_pos w) (sw_buffer w) @ s @ drop (sw_pos w + length s) (sw_buffer w),
                 sw_pos = sw_pos w + length s\<rparr>
      else None)"

definition AppendChar :: "u8 \<Rightarrow> nat \<Rightarrow> StringWriter \<Rightarrow> StringWriter option" where
  "AppendChar c n w = sw_AppendString (replicate n c) w"

text \<open>The local array \<open>data\<close> is filled from its end; \<open>left\<close> is \<open>idx + 1\<close>, the number of cells that are still free.\<close>

fun digits_loop :: "nat \<Rightarrow> nat \<Rightarrow> bytes \<Rightarrow> nat \<times> nat \<times> bytes" where
  "digits_loop absolute_value left data =
     (if absolute_value \<ge> 10
      then digits_loop (absolute_value div 10) (left - 1) (data[left - 1 := word_of_nat (absolute_value mod 10 + 0x30)])
      else (absolute_value, left, data))"

declare digits_loop.simps [simp del]

fun pad_loop :: "u8 \<Rightarrow> nat \<Rightarrow> nat \<Rightarrow> bytes \<Rightarrow> nat \<times> bytes" where
  "pad_loop padchar 0 left data = (left, data)"
| "pad_loop padchar (Suc n) left data = pad_loop padchar n (left - 1) (data[left - 1 := padchar])"

definition kMaxDigits :: nat where "kMaxDigits = 19 + 2"

definition AppendPaddedInt_digits :: "u8 \<Rightarrow> nat \<Rightarrow> u64 \<Rightarrow> bytes" where
  "AppendPaddedInt_digits padchar padding absolute_value =
     (let kSizeNeeded = (if kMaxDigits > padding then kMaxDigits else padding);
          (v, left, data) = digits_loop (unat absolute_value) kSizeNeeded (replicate kSizeNeeded 0);
          data = data[left - 1 := word_of_nat (v + 0x30)]; left = left - 1;
          (left, data) = (if padding > 0 then pad_loop padchar (padding - (kSizeNeeded - left)) left data else (left, data))
      in drop left data)"

definition AppendPaddedInt :: "u8 \<Rightarrow> nat \<Rightarrow> u64 \<Rightarrow> bool \<Rightarrow> StringWriter \<Rightarrow> StringWriter option" where
  "AppendPaddedInt padchar padding absolute_value negate w =
     (case (if negate then sw_AppendString [0x2D] w else Some w) of
        None \<Rightarrow> None
      | Some w' \<Rightarrow> sw_AppendString (AppendPaddedInt_digits padchar padding absolute_value) w')"

definition AppendPaddedSignedInt :: "u8 \<Rightarrow> nat \<Rightarrow> i64 \<Rightarrow> StringWriter \<Rightarrow> StringWriter option" where
  "AppendPaddedSignedInt padchar padding sign_value w =
     (if sint sign_value = - (2 ^ 63) then None
      else AppendPaddedInt padchar padding (word_of_int \<bar>sint sign_value\<bar>) (sint sign_value < 0) w)"

definition AppendInt :: "i64 \<Rightarrow> StringWriter \<Rightarrow> StringWriter option" where
  "AppendInt value w = AppendPaddedSignedInt 0x30 0 value w"

definition AppendPaddedUnsignedInt :: "u8 \<Rightarrow> nat \<Rightarrow> u64 \<Rightarrow> StringWriter \<Rightarrow> StringWriter option" where
  "AppendPaddedUnsignedInt padchar padding value w = AppendPaddedInt padchar padding value False w"

definition AppendUnsignedInt :: "u64 \<Rightarrow> StringWriter \<Rightarrow> StringWriter option" where
  "AppendUnsignedInt value w = AppendPaddedUnsignedInt 0x30 0 value w"

definition AppendBool :: "bool \<Rightarrow> StringWriter \<Rightarrow> StringWriter option" where
  "AppendBool value w = sw_AppendString (if value then [0x74, 0x72, 0x75, 0x65] else [0x66, 0x61, 0x6C, 0x73, 0x65]) w"

definition GetStringView :: "StringWriter \<Rightarrow> bytes" where
  "GetStringView w = take (sw_pos w) (sw_buffer w)"

definition sw_reset :: "StringWriter \<Rightarrow> StringWriter" where
  "sw_reset w = w\<lparr>sw_pos := 0\<rparr>"

subsection \<open>Decimal digits\<close>

fun decimal_text :: "nat \<Rightarrow> bytes" where
  "decimal_text n = (if n < 10 then [word_of_nat (n + 0x30)] else decimal_text (n div 10) @ [word_of_nat (n mod 10 + 0x30)])"

declare decimal_text.simps [simp del]

definition decimal_text_value :: "bytes \<Rightarrow> nat" where
  "decimal_text_value ds = foldl (\<lambda>v d. 10 * v + (unat d - 0x30)) 0 ds"

lemma digit_value: "d < 10 \<Longrightarrow> unat (word_of_nat d + 0x30 :: u8) - 0x30 = d"
proof -
  assume "d < 10"
  then have "unat (word_of_nat (d + 0x30) :: u8) = d + 0x30" by (simp only: unat_of_nat) simp
  then show ?thesis by simp
qed

lemma value_of_decimal_text: "decimal_text_value (decimal_text n) = n"
proof (induction n rule: decimal_text.induct)
  case (1 n)
  show ?case
  proof (cases "n < 10")
    case True
    then show ?thesis by (subst decimal_text.simps) (simp add: decimal_text_value_def digit_value)
  next
    case False
    with 1 have "decimal_text_value (decimal_text n) = 10 * (n div 10) + (unat (word_of_nat (n mod 10) + 0x30 :: u8) - 0x30)"
      by (subst decimal_text.simps) (simp add: decimal_text_value_def)
    also have "\<dots> = n" by (subst digit_value) simp_all
    finally show ?thesis .
  qed
qed

lemma length_decimal_text: "n < 10 ^ k \<Longrightarrow> 0 < k \<Longrightarrow> length (decimal_text n) \<le> k"
proof (induction k arbitrary: n)
  case (Suc k)
  show ?case
  proof (cases "n < 10")
    case True
    then show ?thesis by (subst decimal_text.simps) simp
  next
    case False
    then have "n div 10 < 10 ^ k" "0 < k" using Suc.prems by (auto simp: less_mult_imp_div_less mult.commute intro: Suc_leI gr0I)
    with Suc.IH [of "n div 10"] False show ?thesis by (subst decimal_text.simps) simp
  qed
qed simp

lemma decimal_text_nonempty: "decimal_text n \<noteq> []"
  by (subst decimal_text.simps) simp

lemma drop_written: "0 < left \<Longrightarrow> left \<le> length data \<Longrightarrow> drop (left - 1) (data[left - 1 := c]) = c # drop left data"
  by (subst Cons_nth_drop_Suc [symmetric]) auto

text \<open>The loop leaves the leading digit: what is right of the free cells, with it, is the number.\<close>

lemma digits_loop_decimal:
  assumes "length (decimal_text n) \<le> left" and "left \<le> length data"
  shows "case digits_loop n left data of (v, left', data') \<Rightarrow>
    v < 10 \<and> 0 < left' \<and> left' - 1 + length (decimal_text n) = left \<and> length data' = length data \<and>
    word_of_nat (v + 0x30) # drop left' data' = decimal_text n @ drop left data"
  using assms
proof (induction n left data rule: digits_loop.induct)
  case (1 n left data)
  show ?case
  proof (cases "10 \<le> n")
    case False
    then have d: "decimal_text n = [word_of_nat (n + 0x30)]" by (subst decimal_text.simps) simp
    with False "1.prems" show ?thesis by (subst digits_loop.simps) simp
  next
    case True
    then have d: "decimal_text n = decimal_text (n div 10) @ [word_of_nat (n mod 10 + 0x30)]" by (subst decimal_text.simps) simp
    let ?data = "data[left - 1 := word_of_nat (n mod 10 + 0x30)]"
    have l: "length (decimal_text (n div 10)) \<le> left - 1" "left - 1 \<le> length ?data" "0 < left" using "1.prems" d by simp_all
    have "drop (left - 1) ?data = word_of_nat (n mod 10 + 0x30) # drop left data"
      by (rule drop_written [OF l(3) "1.prems"(2)])
    with "1.IH" [OF True l(1,2)] True l(3) show ?thesis
      by (subst digits_loop.simps) (auto simp: d split: prod.splits)
  qed
qed

lemma pad_loop_replicate:
  "n \<le> left \<Longrightarrow> left \<le> length data \<Longrightarrow>
    (case pad_loop c n left data of (left', data') \<Rightarrow> left' = left - n \<and> drop left' data' = replicate n c @ drop left data)"
proof (induction c n left data rule: pad_loop.induct)
  case (2 c n left data)
  have "drop (left - 1) (data[left - 1 := c]) = c # drop left data"
    using 2(2,3) by (intro drop_written) simp_all
  with 2 show ?case by (auto simp: replicate_app_Cons_same split: prod.splits)
qed simp

text \<open>What is appended: the number in decimal, padded on the left.\<close>

lemma AppendPaddedInt_digits_decimal:
  "AppendPaddedInt_digits c padding a = replicate (padding - length (decimal_text (unat a))) c @ decimal_text (unat a)"
proof -
  let ?n = "if kMaxDigits > padding then kMaxDigits else padding"
  let ?d = "decimal_text (unat a)"
  have "unat a < 2 ^ 64" using unsigned_less [of a, where ?'a = nat] by simp
  then have "length ?d \<le> 20" by (intro length_decimal_text) simp_all
  then have len: "length ?d \<le> ?n" "padding \<le> ?n" by (simp_all add: kMaxDigits_def)
  obtain v left data where loop: "digits_loop (unat a) ?n (replicate ?n 0) = (v, left, data)" by (metis prod_cases3)
  with digits_loop_decimal [of "unat a" ?n "replicate ?n 0"] len(1)
  have l: "0 < left" "left - 1 + length ?d = ?n" "length data = ?n" "word_of_nat (v + 0x30) # drop left data = ?d" by simp_all
  let ?data = "data[left - 1 := word_of_nat (v + 0x30)]"
  have drop: "drop (left - 1) ?data = ?d"
  proof -
    have "left \<le> length data" using l(1,2,3) decimal_text_nonempty [of "unat a"] by (cases ?d) auto
    from drop_written [OF l(1) this] l(4) show ?thesis by simp
  qed
  show ?thesis
  proof (cases "padding > 0")
    case False
    with drop show ?thesis unfolding AppendPaddedInt_digits_def Let_def loop prod.case by simp
  next
    case True
    have k: "padding - (?n - (left - 1)) = padding - length ?d" using l(2) by simp
    obtain left' data' where pad: "pad_loop c (padding - length ?d) (left - 1) ?data = (left', data')" by fastforce
    have "padding - length ?d \<le> left - 1" "left - 1 \<le> length ?data" 
      using l(2,3) len(2) unfolding length_list_update by linarith+
    from pad_loop_replicate [OF this, of c, unfolded pad prod.case drop]
    have "drop left' data' = replicate (padding - length ?d) c @ ?d" by (rule conjunct2)
    with True show ?thesis unfolding AppendPaddedInt_digits_def Let_def loop prod.case k if_P [OF True] pad by simp
  qed
qed

lemma AppendString_text:
  assumes "sw_AppendString s w = Some w'" and "sw_pos w \<le> length (sw_buffer w)"
  shows "GetStringView w' = GetStringView w @ s" "length (sw_buffer w') = length (sw_buffer w)" "sw_pos w' \<le> length (sw_buffer w')"
    "drop (sw_pos w') (sw_buffer w') = drop (sw_pos w') (sw_buffer w)"
  using assms by (auto simp: sw_AppendString_def GetStringView_def split: if_splits)

lemma AppendString_append:
  assumes "sw_pos w \<le> length (sw_buffer w)"
  shows "(case sw_AppendString s w of None \<Rightarrow> None | Some w' \<Rightarrow> sw_AppendString t w') = sw_AppendString (s @ t) w"
  using assms by (auto simp: sw_AppendString_def ac_simps min_def split: if_splits)

lemma AppendString_empty: "sw_pos w \<le> length (sw_buffer w) \<Longrightarrow> sw_AppendString [] w = Some w"
  by (simp add: sw_AppendString_def)

lemma AppendPaddedInt_text:
  assumes "sw_pos w \<le> length (sw_buffer w)"
  shows "AppendPaddedInt c padding a negate w =
    sw_AppendString ((if negate then [0x2D] else []) @ replicate (padding - length (decimal_text (unat a))) c @ decimal_text (unat a)) w"
  using AppendString_append [OF assms, where s = "[0x2D]"]
  by (simp add: AppendPaddedInt_def AppendPaddedInt_digits_decimal)

subsection \<open>Properties\<close>

text \<open>When a signed number other than the smallest fits into the rest of the buffer, appending it
  adds a minus sign if it is negative, the padding, and digits whose value is its absolute value; the text before is
  unchanged, and so are the bytes behind. It fails exactly when it does not fit.\<close>
theorem appended_numbers_read_back:
  assumes "sw_pos w \<le> length (sw_buffer w)" and "sint x \<noteq> - (2 ^ 63)"
  shows "\<exists>ds. decimal_text_value ds = nat \<bar>sint x\<bar> \<and> ds \<noteq> [] \<and>
    (let s = (if sint x < 0 then [0x2D] else []) @ replicate (padding - length ds) c @ ds
     in if sw_pos w + length s \<le> length (sw_buffer w)
        then \<exists>w'. AppendPaddedSignedInt c padding x w = Some w' \<and> GetStringView w' = GetStringView w @ s \<and>
          drop (sw_pos w') (sw_buffer w') = drop (sw_pos w') (sw_buffer w) \<and> length (sw_buffer w') = length (sw_buffer w)
        else AppendPaddedSignedInt c padding x w = None)"
proof -
  let ?ds = "decimal_text (nat \<bar>sint x\<bar>)"
  have "- (2 ^ 63) \<le> sint x" "sint x < 2 ^ 63" using sint_range_size [of x] by (simp_all add: word_size)
  with assms(2) have "\<bar>sint x\<bar> < 2 ^ 63" by linarith
  then have u: "unat (word_of_int \<bar>sint x\<bar> :: u64) = nat \<bar>sint x\<bar>"
    by (simp add: unsigned_of_int take_bit_int_eq_self)
  let ?s = "(if sint x < 0 then [0x2D] else []) @ replicate (padding - length ?ds) c @ ?ds"
  have app: "AppendPaddedSignedInt c padding x w = sw_AppendString ?s w"
    using AppendPaddedInt_text [OF assms(1), of c padding "word_of_int \<bar>sint x\<bar>" "sint x < 0"] assms(2) u
    by (simp add: AppendPaddedSignedInt_def)
  have "if sw_pos w + length ?s \<le> length (sw_buffer w)
        then \<exists>w'. sw_AppendString ?s w = Some w' \<and> GetStringView w' = GetStringView w @ ?s \<and>
          drop (sw_pos w') (sw_buffer w') = drop (sw_pos w') (sw_buffer w) \<and> length (sw_buffer w') = length (sw_buffer w)
        else sw_AppendString ?s w = None"
  proof (cases "sw_pos w + length ?s \<le> length (sw_buffer w)")
    case True
    then obtain w' where "sw_AppendString ?s w = Some w'" by (simp only: sw_AppendString_def if_True)
    with AppendString_text [OF this assms(1)] True show ?thesis by (simp only: if_True) blast
  next
    case False
    then show ?thesis by (simp only: sw_AppendString_def if_False)
  qed
  then show ?thesis unfolding app Let_def
    by (intro exI [of _ ?ds]) (simp add: value_of_decimal_text decimal_text_nonempty)
qed

theorem appended_numbers_read_back_witness:
  "\<exists>ds w'. decimal_text_value ds = 5 \<and> AppendPaddedSignedInt 0x30 2 (- 5) (make_StringWriter (replicate 40 0)) = Some w' \<and>
    GetStringView w' = [0x2D] @ replicate (2 - length ds) 0x30 @ ds"
proof -
  let ?w = "make_StringWriter (replicate 40 0)"
  have s: "sint (- 5 :: i64) = - 5" by simp
  have p: "sw_pos ?w \<le> length (sw_buffer ?w)" "sint (- 5 :: i64) \<noteq> - (2 ^ 63)" by (simp_all add: make_StringWriter_def)
  from appended_numbers_read_back [OF p, where padding = 2 and c = "0x30"] obtain ds where ds: "decimal_text_value ds = 5" and
    r: "if sw_pos ?w + length ([0x2D] @ replicate (2 - length ds) 0x30 @ ds) \<le> 40
        then \<exists>w'. AppendPaddedSignedInt 0x30 2 (- 5) ?w = Some w' \<and> GetStringView w' = GetStringView ?w @ [0x2D] @ replicate (2 - length ds) 0x30 @ ds
        else AppendPaddedSignedInt 0x30 2 (- 5) ?w = None"
    by (auto simp: Let_def make_StringWriter_def split: if_splits)
  have "AppendPaddedSignedInt 0x30 2 (- 5) ?w \<noteq> None" by code_simp
  with r ds show ?thesis by (auto simp: make_StringWriter_def GetStringView_def split: if_splits)
qed

end
