(* ===== verification/Message_Arena.thy ===== *)
theory Message_Arena
  imports VP_Prelude
begin

section \<open>Storage and handles of nested messages (protozero/message\_arena.h, message\_handle.h and their sources)\<close>

text \<open>
  The arena hands out the storage of nested messages in blocks of 16. A block never moves, so a pointer is the name of its block,
  a number that is not used again, and an index; the last component of the state is the contents of the storage. A handle
  finalizes its message when it is destroyed or given another one; this theory has the builds without debug
  checks, where finalizing does not clear the handle.
\<close>

subsection \<open>The arena\<close>

record Block =
  b_name :: nat
  b_entries :: nat

type_synonym message_ptr = "nat \<times> nat"

record 'm MessageArena =
  blocks :: "Block list"
  next_block :: nat
  storage :: "message_ptr \<Rightarrow> 'm"

definition kBlockCapacity :: nat where "kBlockCapacity = 16"

definition make_MessageArena :: "(message_ptr \<Rightarrow> 'm) \<Rightarrow> 'm MessageArena" where
  "make_MessageArena st = \<lparr>blocks = [\<lparr>b_name = 0, b_entries = 0\<rparr>], next_block = 1, storage = st\<rparr>"

text \<open>\<open>new\_message\<close> is the value of a message that has just been constructed.\<close>

definition arena_emplace_back :: "'m MessageArena \<Rightarrow> 'm MessageArena" where
  "arena_emplace_back a = a\<lparr>blocks := blocks a @ [\<lparr>b_name = next_block a, b_entries = 0\<rparr>], next_block := next_block a + 1\<rparr>"

definition NewMessage :: "'m \<Rightarrow> 'm MessageArena \<Rightarrow> message_ptr \<times> 'm MessageArena" where
  "NewMessage new_message a =
     (let a1 = (if b_entries (List.last (blocks a)) \<ge> kBlockCapacity then arena_emplace_back a else a);
          block = List.last (blocks a1);
          p = (b_name block, b_entries block)
      in (p, a1\<lparr>blocks := butlast (blocks a1) @ [block\<lparr>b_entries := b_entries block + 1\<rparr>],
                storage := (storage a1)(p := new_message)\<rparr>))"

definition DeleteLastMessageInternal :: "'m MessageArena \<Rightarrow> 'm MessageArena" where
  "DeleteLastMessageInternal a =
     (let block = List.last (blocks a); block = block\<lparr>b_entries := (b_entries block + 2 ^ 32 - 1) mod 2 ^ 32\<rparr>
      in if b_entries block = 0 \<and> length (blocks a) > 1 then a\<lparr>blocks := butlast (blocks a)\<rparr>
         else a\<lparr>blocks := butlast (blocks a) @ [block]\<rparr>)"

definition arena_Reset :: "'m MessageArena \<Rightarrow> 'm MessageArena" where
  "arena_Reset a = a\<lparr>blocks := [(hd (blocks a))\<lparr>b_entries := 0\<rparr>]\<rparr>"

text \<open>The messages that are alive, oldest first.\<close>

definition block_messages :: "Block \<Rightarrow> message_ptr list" where
  "block_messages b = map (\<lambda>i. (b_name b, i)) [0..<b_entries b]"

definition live :: "'m MessageArena \<Rightarrow> message_ptr list" where
  "live a = concat (map block_messages (blocks a))"

definition arena_inv :: "'m MessageArena \<Rightarrow> bool" where
  "arena_inv a \<longleftrightarrow> blocks a \<noteq> [] \<and> (\<forall>b \<in> set (butlast (blocks a)). b_entries b = kBlockCapacity) \<and>
     b_entries (List.last (blocks a)) \<le> kBlockCapacity \<and> (b_entries (List.last (blocks a)) = 0 \<longrightarrow> length (blocks a) = 1) \<and>
     distinct (map b_name (blocks a)) \<and> (\<forall>b \<in> set (blocks a). b_name b < next_block a)"

lemma arena_inv_make: "arena_inv (make_MessageArena st)" "live (make_MessageArena st) = []"
  by (simp_all add: arena_inv_def make_MessageArena_def live_def block_messages_def)

lemma arena_blocks:
  assumes "arena_inv a"
  obtains bs b where "blocks a = bs @ [b]" "\<forall>c \<in> set bs. b_entries c = kBlockCapacity" "b_entries b \<le> kBlockCapacity"
    "b_entries b = 0 \<longrightarrow> bs = []" "distinct (map b_name bs)" "b_name b \<notin> b_name ` set bs"
    "b_name b < next_block a" "\<forall>c \<in> set bs. b_name c < next_block a"
proof -
  from assms obtain bs b where b: "blocks a = bs @ [b]" unfolding arena_inv_def by (metis append_butlast_last_id)
  with assms that [of bs b] show thesis by (auto simp: arena_inv_def)
qed

lemma live_distinct: "arena_inv a \<Longrightarrow> distinct (live a)"
proof -
  assume "arena_inv a"
  then have "distinct (map b_name (blocks a))" by (simp add: arena_inv_def)
  then have "distinct (concat (map block_messages bs))" if "bs = blocks a" for bs
    unfolding that [symmetric]
  proof (induction bs)
    case (Cons b bs)
    then have "set (block_messages b) \<inter> set (concat (map block_messages bs)) = {}"
      by (fastforce simp: block_messages_def)
    moreover have "distinct (block_messages b)" by (simp add: block_messages_def distinct_map inj_on_def)
    ultimately show ?case using Cons by simp
  qed simp
  then show ?thesis by (simp add: live_def)
qed

lemma arena_invI:
  assumes "blocks a = bs @ [b]" and "\<forall>c \<in> set bs. b_entries c = kBlockCapacity" and "b_entries b \<le> kBlockCapacity"
    and "b_entries b = 0 \<longrightarrow> bs = []" and "distinct (map b_name bs)" and "b_name b \<notin> b_name ` set bs"
    and "b_name b < next_block a" and "\<forall>c \<in> set bs. b_name c < next_block a"
  shows "arena_inv a"
  using assms by (auto simp: arena_inv_def)

lemma arena_inv_entries:
  assumes b: "\<forall>c \<in> set bs. b_entries c = kBlockCapacity" "distinct (map b_name bs)" "b_name b \<notin> b_name ` set bs"
    "b_name b < next_block a" "\<forall>c \<in> set bs. b_name c < next_block a" and n: "n \<le> kBlockCapacity" "n = 0 \<longrightarrow> bs = []"
  shows "arena_inv (a\<lparr>blocks := bs @ [b\<lparr>b_entries := n\<rparr>]\<rparr>)"
  by (rule arena_invI [of _ bs "b\<lparr>b_entries := n\<rparr>"]) (simp_all add: b n)

lemma live_blocks: "blocks a = bs @ [b] \<Longrightarrow> live a = concat (map block_messages bs) @ block_messages b"
  by (simp add: live_def)

lemma block_messages_Suc:
  "block_messages (b\<lparr>b_entries := Suc (b_entries b)\<rparr>) = block_messages b @ [(b_name b, b_entries b)]"
  by (simp add: block_messages_def)

lemma NewMessage_live:
  assumes "arena_inv a" and "NewMessage m a = (p, a')"
  shows "arena_inv a'" "live a' = live a @ [p]" "storage a' = (storage a)(p := m)"
proof -
  obtain bs b where b: "blocks a = bs @ [b]" "\<forall>c \<in> set bs. b_entries c = kBlockCapacity" "b_entries b \<le> kBlockCapacity"
    "b_entries b = 0 \<longrightarrow> bs = []" "distinct (map b_name bs)" "b_name b \<notin> b_name ` set bs"
    "b_name b < next_block a" "\<forall>c \<in> set bs. b_name c < next_block a"
    using arena_blocks [OF assms(1)] by blast
  have "arena_inv a' \<and> live a' = live a @ [p] \<and> storage a' = (storage a)(p := m)"
  proof (cases "b_entries b \<ge> kBlockCapacity")
    case False
    let ?b = "b\<lparr>b_entries := b_entries b + 1\<rparr>"
    from False assms(2) b(1) have a': "p = (b_name b, b_entries b)" "a' = a\<lparr>blocks := bs @ [?b], storage := (storage a)(p := m)\<rparr>"
      by (auto simp: NewMessage_def Let_def)
    have "arena_inv a'" by (rule arena_invI [of _ bs ?b]) (use b False in \<open>simp_all add: a'\<close>)
    moreover have "live a' = live a @ [p]" using b(1) by (simp add: live_blocks [of _ bs] a' block_messages_Suc)
    ultimately show ?thesis by (simp add: a')
  next
    case True
    let ?c = "\<lparr>b_name = next_block a, b_entries = 0\<rparr>"
    let ?b = "\<lparr>b_name = next_block a, b_entries = 1\<rparr>"
    from True assms(2) b(1) have a': "p = (next_block a, 0)"
      "a' = a\<lparr>blocks := (bs @ [b]) @ [?b], next_block := next_block a + 1, storage := (storage a)(p := m)\<rparr>"
      by (auto simp: NewMessage_def Let_def arena_emplace_back_def butlast_append)
    have "arena_inv a'"
      by (rule arena_invI [of _ "bs @ [b]" ?b]) (use b True in \<open>auto simp: a' kBlockCapacity_def\<close>)
    moreover have "live a' = live a @ [p]"
      using b(1) by (simp add: live_blocks [of _ bs] live_blocks [of _ "bs @ [b]"] a' block_messages_def)
    ultimately show ?thesis by (simp add: a')
  qed
  then show "arena_inv a'" "live a' = live a @ [p]" "storage a' = (storage a)(p := m)" by blast+
qed

lemma minus_one_u32: "0 < n \<Longrightarrow> n \<le> kBlockCapacity \<Longrightarrow> (n + 2 ^ 32 - 1) mod 2 ^ 32 = n - 1"
proof -
  assume n: "0 < n" "n \<le> kBlockCapacity"
  then have "n + 2 ^ 32 - 1 = (n - 1) + 2 ^ 32" by simp
  then have "(n + 2 ^ 32 - 1) mod 2 ^ 32 = (n - 1) mod 2 ^ 32" by (simp only: mod_add_self2)
  also have "\<dots> = n - 1" using n by (intro mod_less) (simp add: kBlockCapacity_def)
  finally show ?thesis .
qed

lemma block_messages_empty: "b_entries b = 0 \<Longrightarrow> block_messages b = []"
  by (simp add: block_messages_def)

lemma DeleteLastMessage_live:
  assumes "arena_inv a" and "live a \<noteq> []"
  shows "arena_inv (DeleteLastMessageInternal a)" "live (DeleteLastMessageInternal a) = butlast (live a)"
    "storage (DeleteLastMessageInternal a) = storage a"
proof -
  obtain bs b where b: "blocks a = bs @ [b]" "\<forall>c \<in> set bs. b_entries c = kBlockCapacity" "b_entries b \<le> kBlockCapacity"
    "b_entries b = 0 \<longrightarrow> bs = []" "distinct (map b_name bs)" "b_name b \<notin> b_name ` set bs"
    "b_name b < next_block a" "\<forall>c \<in> set bs. b_name c < next_block a"
    using arena_blocks [OF assms(1)] by blast
  have pos: "0 < b_entries b" using assms(2) b(1,4) by (cases "b_entries b") (auto simp: live_blocks [of _ bs] block_messages_empty)
  let ?b = "b\<lparr>b_entries := b_entries b - 1\<rparr>"
  have m: "block_messages b = block_messages ?b @ [(b_name b, b_entries b - 1)]"
    using block_messages_Suc [of ?b] pos by simp
  then have live: "butlast (live a) = concat (map block_messages bs) @ block_messages ?b"
    by (simp add: live_blocks [OF b(1)] butlast_append)
  have d: "DeleteLastMessageInternal a =
      (if b_entries ?b = 0 \<and> bs \<noteq> [] then a\<lparr>blocks := bs\<rparr> else a\<lparr>blocks := bs @ [?b]\<rparr>)"
    unfolding DeleteLastMessageInternal_def Let_def b(1) last_snoc butlast_snoc minus_one_u32 [OF pos b(3)] by simp
  have "arena_inv (DeleteLastMessageInternal a) \<and> live (DeleteLastMessageInternal a) = butlast (live a)"
  proof (cases "b_entries ?b = 0 \<and> bs \<noteq> []")
    case True
    then obtain cs c where cs: "bs = cs @ [c]" by (metis append_butlast_last_id)
    have "arena_inv (a\<lparr>blocks := bs\<rparr>)"
      by (rule arena_invI [of _ cs c]) (use b cs in \<open>simp_all add: kBlockCapacity_def\<close>)
    moreover have "live (a\<lparr>blocks := bs\<rparr>) = butlast (live a)"
      using True unfolding live by (simp add: live_def block_messages_empty)
    ultimately show ?thesis using True by (simp add: d)
  next
    case False
    have "arena_inv (a\<lparr>blocks := bs @ [?b]\<rparr>)"
      by (rule arena_inv_entries [OF b(2,5-8)]) (use b(3) False in auto)
    moreover have "live (a\<lparr>blocks := bs @ [?b]\<rparr>) = butlast (live a)" unfolding live by (simp add: live_blocks [of _ bs])
    ultimately show ?thesis using False by (simp only: d if_False)
  qed
  then show "arena_inv (DeleteLastMessageInternal a)" "live (DeleteLastMessageInternal a) = butlast (live a)" by blast+
  show "storage (DeleteLastMessageInternal a) = storage a" by (simp add: d)
qed

lemma arena_Reset_live:
  assumes "arena_inv a"
  shows "arena_inv (arena_Reset a)" "live (arena_Reset a) = []"
proof -
  obtain c cs where c: "blocks a = c # cs" using assms by (cases "blocks a") (auto simp: arena_inv_def)
  have "b_name c < next_block a" using assms c by (simp add: arena_inv_def)
  then show "arena_inv (arena_Reset a)"
    by (intro arena_invI [of _ "[]" "c\<lparr>b_entries := 0\<rparr>"]) (simp_all add: arena_Reset_def c)
  show "live (arena_Reset a) = []" by (simp add: live_def arena_Reset_def c block_messages_empty)
qed

subsection \<open>The contract with the messages\<close>

text \<open>What the message code relies on: objects are taken and given back in stack order, and while an object is alive its contents
  change only through its pointer.\<close>

locale object_stack =
  fixes inv :: "'s \<Rightarrow> bool" and alive :: "'s \<Rightarrow> 'p list" and contents :: "'s \<Rightarrow> 'p \<Rightarrow> 'm"
    and take_new :: "'m \<Rightarrow> 's \<Rightarrow> 'p \<times> 's" and give_back :: "'s \<Rightarrow> 's"
  assumes distinct_alive: "inv s \<Longrightarrow> distinct (alive s)"
    and take_new: "inv s \<Longrightarrow> take_new m s = (p, s') \<Longrightarrow> inv s' \<and> alive s' = alive s @ [p] \<and> contents s' = (contents s)(p := m)"
    and give_back: "inv s \<Longrightarrow> alive s \<noteq> [] \<Longrightarrow> inv (give_back s) \<and> alive (give_back s) = butlast (alive s) \<and> contents (give_back s) = contents s"
begin

fun take_all :: "'m list \<Rightarrow> 's \<Rightarrow> 's" where
  "take_all [] s = s"
| "take_all (m # ms) s = take_all ms (snd (take_new m s))"

fun give_back_n :: "nat \<Rightarrow> 's \<Rightarrow> 's" where
  "give_back_n 0 s = s"
| "give_back_n (Suc n) s = give_back_n n (give_back s)"

lemma take_all_alive:
  "inv s \<Longrightarrow> inv (take_all ms s) \<and> (\<exists>ps. alive (take_all ms s) = alive s @ ps \<and> map (contents (take_all ms s)) ps = ms \<and>
    (\<forall>p \<in> set (alive s). contents (take_all ms s) p = contents s p))"
proof (induction ms arbitrary: s)
  case (Cons m ms)
  obtain p s' where t: "take_new m s = (p, s')" by fastforce
  note n = take_new [OF Cons.prems t]
  then obtain ps where ps: "inv (take_all ms s')" "alive (take_all ms s') = alive s @ p # ps" "map (contents (take_all ms s')) ps = ms"
    "\<forall>q \<in> set (alive s @ [p]). contents (take_all ms s') q = contents s' q"
    using Cons.IH [of s'] by auto
  have "distinct (alive s @ [p])" using distinct_alive [of s'] n by simp
  with ps n t show ?case by (intro conjI exI [of _ "p # ps"]) auto
qed simp

lemma give_back_alive:
  "inv s \<Longrightarrow> n \<le> length (alive s) \<Longrightarrow> inv (give_back_n n s) \<and>
    alive (give_back_n n s) = take (length (alive s) - n) (alive s) \<and> contents (give_back_n n s) = contents s"
proof (induction n arbitrary: s)
  case (Suc n)
  then have "alive s \<noteq> []" by auto
  note g = give_back [OF Suc.prems(1) this]
  with Suc.IH [of "give_back s"] Suc.prems(2) show ?case by (simp add: butlast_conv_take)
qed simp

text \<open>Nested use of the stack leaves the objects below as they were.\<close>

lemma nested_use:
  assumes "inv s"
  shows "alive (give_back_n (length ms) (take_all ms s)) = alive s \<and>
    (\<forall>p \<in> set (alive s). contents (give_back_n (length ms) (take_all ms s)) p = contents s p)"
proof -
  obtain ps where ps: "inv (take_all ms s)" "alive (take_all ms s) = alive s @ ps" "map (contents (take_all ms s)) ps = ms"
    "\<forall>p \<in> set (alive s). contents (take_all ms s) p = contents s p"
    using take_all_alive [OF assms] by blast
  have "length ps = length ms" using ps(3) by (metis length_map)
  with give_back_alive [OF ps(1), of "length ms"] ps(2,4) show ?thesis by simp
qed

end

interpretation arena: object_stack arena_inv live storage NewMessage DeleteLastMessageInternal
  by unfold_locales (auto simp: live_distinct NewMessage_live DeleteLastMessage_live)

text \<open>C35 arena_is_a_stack: messages are handed out and taken back in stack order. In every state the arena reaches, the pointers of the
  live messages are distinct; a new message is the youngest one and is stored under a pointer no live message has, whether or
  not a block had to be added; deleting the last message removes the youngest one and touches no contents, whether or not its
  block goes; and any messages that are opened and then closed again leave the live ones and their contents as they were.\<close>

theorem arena_is_a_stack:
  assumes "arena_inv a"
  shows "distinct (live a) \<and>
    (let (p, a') = NewMessage m a
     in arena_inv a' \<and> live a' = live a @ [p] \<and> p \<notin> set (live a) \<and> storage a' = (storage a)(p := m)) \<and>
    (live a = [] \<or>
     arena_inv (DeleteLastMessageInternal a) \<and> live (DeleteLastMessageInternal a) = butlast (live a) \<and>
       storage (DeleteLastMessageInternal a) = storage a) \<and>
    live (arena.give_back_n (length ms) (arena.take_all ms a)) = live a \<and>
    (\<forall>q \<in> set (live a). storage (arena.give_back_n (length ms) (arena.take_all ms a)) q = storage a q)"
proof -
  obtain p a' where new: "NewMessage m a = (p, a')" by fastforce
  have "distinct (live a')" using live_distinct NewMessage_live [OF assms new] by blast
  then have "p \<notin> set (live a)" using NewMessage_live [OF assms new] by simp
  with NewMessage_live [OF assms new] DeleteLastMessage_live [OF assms] live_distinct [OF assms] arena.nested_use [OF assms, of ms]
  show ?thesis unfolding new Let_def prod.case by blast
qed

theorem arena_is_a_stack_witness:
  "let (p, a') = NewMessage (3 :: nat) (make_MessageArena (\<lambda>_. 0)) in p = (0, 0) \<and> storage a' = (\<lambda>_. 0)((0, 0) := 3)"
  using arena_is_a_stack [OF arena_inv_make(1), of "\<lambda>_. 0" "3 :: nat" "[]"]
  by (simp add: make_MessageArena_def NewMessage_def kBlockCapacity_def Let_def split: prod.splits)

subsection \<open>Handles\<close>

text \<open>The handle objects that exist, each with its \<open>message\_\<close>, and the messages \<open>Finalize\<close> was called on, in this order.\<close>

record 'p Handles =
  handles :: "nat \<Rightarrow> 'p option option"
  finalized :: "'p list"

datatype 'p handle_op =
    Construct nat "'p option"
  | Destroy nat
  | MoveConstruct nat nat
  | MoveAssign nat nat

definition FinalizeMessage :: "'p \<Rightarrow> 'p Handles \<Rightarrow> 'p Handles" where
  "FinalizeMessage m s = s\<lparr>finalized := finalized s @ [m]\<rparr>"

text \<open>\<open>Move\<close> reads the other handle, then clears it; for a handle moved to itself the second write clears what the first one kept.\<close>

definition Move :: "nat \<Rightarrow> nat \<Rightarrow> 'p Handles \<Rightarrow> 'p Handles" where
  "Move this other s = s\<lparr>handles := (handles s)(this := handles s other, other := Some None)\<rparr>"

text \<open>\<open>None\<close> stands for the use of an object that does not exist, or the construction of one that does.\<close>

fun handle_step :: "'p handle_op \<Rightarrow> 'p Handles \<Rightarrow> 'p Handles option" where
  "handle_step (Construct h message) s =
     (case handles s h of Some _ \<Rightarrow> None | None \<Rightarrow> Some (s\<lparr>handles := (handles s)(h := Some message)\<rparr>))"
| "handle_step (Destroy h) s =
     (case handles s h of None \<Rightarrow> None
      | Some message \<Rightarrow>
          let s = (case message of None \<Rightarrow> s | Some m \<Rightarrow> FinalizeMessage m s)
          in Some (s\<lparr>handles := (handles s)(h := None)\<rparr>))"
| "handle_step (MoveConstruct h other) s =
     (case (handles s h, handles s other) of (None, Some _) \<Rightarrow> Some (Move h other s) | _ \<Rightarrow> None)"
| "handle_step (MoveAssign h other) s =
     (case (handles s h, handles s other) of
        (Some message, Some other_message) \<Rightarrow>
          let s = (case message of None \<Rightarrow> s | Some m \<Rightarrow> if message \<noteq> other_message then FinalizeMessage m s else s)
          in Some (Move h other s)
      | _ \<Rightarrow> None)"

fun run_handles :: "'p handle_op list \<Rightarrow> 'p Handles \<Rightarrow> 'p Handles option" where
  "run_handles [] s = Some s"
| "run_handles (x # xs) s = (case handle_step x s of None \<Rightarrow> None | Some s \<Rightarrow> run_handles xs s)"

definition no_handles :: "'p Handles" where
  "no_handles = \<lparr>handles = \<lambda>_. None, finalized = []\<rparr>"

fun given_by :: "'p handle_op \<Rightarrow> 'p list" where
  "given_by (Construct h (Some m)) = [m]"
| "given_by _ = []"

fun self_move :: "'p handle_op \<Rightarrow> bool" where
  "self_move (MoveAssign h other) \<longleftrightarrow> h = other"
| "self_move _ \<longleftrightarrow> False"

definition held :: "'p Handles \<Rightarrow> 'p set" where
  "held s = {m. \<exists>h. handles s h = Some (Some m)}"

definition held_besides :: "nat \<Rightarrow> 'p Handles \<Rightarrow> 'p set" where
  "held_besides h s = {m. \<exists>h'. h' \<noteq> h \<and> handles s h' = Some (Some m)}"

definition message_of :: "'p option option \<Rightarrow> 'p set" where
  "message_of x = (case x of Some (Some m) \<Rightarrow> {m} | _ \<Rightarrow> {})"

lemma held_update: "held (s\<lparr>handles := (handles s)(h := x)\<rparr>) = held_besides h s \<union> message_of x"
  by (auto simp: held_def held_besides_def message_of_def split: option.splits if_splits)

lemma held_split: "held s = held_besides h s \<union> message_of (handles s h)"
  using held_update [of s h "handles s h"] by simp

definition one_holder :: "'p Handles \<Rightarrow> bool" where
  "one_holder s \<longleftrightarrow> (\<forall>h h' m. handles s h = Some (Some m) \<longrightarrow> handles s h' = Some (Some m) \<longrightarrow> h = h')"

lemma one_holder_cong: "one_holder s \<Longrightarrow> handles s' = handles s \<Longrightarrow> one_holder s'"
  unfolding one_holder_def by (erule ssubst)

lemma one_holder_besides: "one_holder s \<Longrightarrow> message_of (handles s h) \<inter> held_besides h s = {}"
  by (auto simp: one_holder_def held_besides_def message_of_def split: option.splits)

lemma one_holder_update:
  "one_holder s \<Longrightarrow> message_of x \<inter> held_besides h s = {} \<Longrightarrow> one_holder (s\<lparr>handles := (handles s)(h := x)\<rparr>)"
  unfolding one_holder_def held_besides_def message_of_def by (cases x) (auto split: option.splits)

definition handles_inv :: "'p list \<Rightarrow> 'p Handles \<Rightarrow> bool" where
  "handles_inv given s \<longleftrightarrow> one_holder s \<and>
     distinct (finalized s) \<and> held s \<inter> set (finalized s) = {} \<and> held s \<union> set (finalized s) = set given"

text \<open>One lemma for all the steps: the handle \<open>h\<close> changes from holding \<open>handles s h\<close> to holding \<open>x\<close>, and the messages \<open>f\<close> are finalized.\<close>

lemma handles_inv_change:
  assumes i: "handles_inv given s" and x: "message_of x \<inter> held_besides h s = {}" and f: "distinct f" "set f \<subseteq> message_of (handles s h)"
    and new: "message_of x \<inter> set (finalized s @ f) = {}" and all: "set given' = set given \<union> message_of x"
    and lost: "message_of (handles s h) \<subseteq> message_of x \<union> set f"
  shows "handles_inv given' (s\<lparr>handles := (handles s)(h := x), finalized := finalized s @ f\<rparr>)"
proof -
  let ?s = "s\<lparr>handles := (handles s)(h := x)\<rparr>"
  have one: "one_holder ?s" using i x by (intro one_holder_update) (simp_all add: handles_inv_def)
  have held: "held (s\<lparr>handles := (handles s)(h := x), finalized := finalized s @ f\<rparr>) = held_besides h s \<union> message_of x"
    using held_update [of s h x] by (simp add: held_def)
  from i have inv: "one_holder s" "distinct (finalized s)" "held s \<inter> set (finalized s) = {}" "held s \<union> set (finalized s) = set given"
    by (simp_all add: handles_inv_def)
  have b: "message_of (handles s h) \<inter> held_besides h s = {}" "held s = held_besides h s \<union> message_of (handles s h)"
    by (rule one_holder_besides [OF inv(1)], rule held_split)
  have "one_holder (s\<lparr>handles := (handles s)(h := x), finalized := finalized s @ f\<rparr>)" by (rule one_holder_cong [OF one]) simp
  moreover have "distinct (finalized s @ f)" using inv(2,3) b(2) f unfolding distinct_append by blast
  moreover have "(held_besides h s \<union> message_of x) \<inter> set (finalized s @ f) = {}"
    using inv(3) b f(2) new unfolding set_append by blast
  moreover have "held_besides h s \<union> message_of x \<union> set (finalized s @ f) = set given'"
    using inv(4) b f(2) all lost unfolding set_append by blast
  ultimately show ?thesis by (simp add: handles_inv_def held)
qed

lemma handles_inv_permute:
  assumes i: "handles_inv given s" and p: "bij p" and s': "\<And>h. message_of (handles s' h) = message_of (handles s (p h))"
    and f: "finalized s' = finalized s"
  shows "handles_inv given s'"
proof -
  have eq: "handles s' h = Some (Some m) \<longleftrightarrow> handles s (p h) = Some (Some m)" for h m
    using s' [of h] by (auto simp: message_of_def split: option.splits)
  have "held s' = held s" unfolding held_def eq using p by (auto simp: bij_def) (metis surjD)
  moreover have "one_holder s'" using i p unfolding handles_inv_def one_holder_def eq by (meson bij_def injD)
  ultimately show ?thesis using i f by (simp add: handles_inv_def)
qed

lemma Move_inv:
  assumes i: "handles_inv given s" and h: "message_of (handles s h) = {}" and ne: "h \<noteq> other"
  shows "handles_inv given (Move h other s)"
proof (rule handles_inv_permute [OF i])
  show "bij (id(h := other, other := h))" by (rule o_bij [of "id(h := other, other := h)"]) (use ne in \<open>auto simp: fun_eq_iff\<close>)
  show "message_of (handles (Move h other s) k) = message_of (handles s ((id(h := other, other := h)) k))" for k
    using h ne by (auto simp: Move_def message_of_def)
qed (simp add: Move_def)

lemma handle_step_inv:
  assumes i: "handles_inv given s" and step: "handle_step x s = Some s'" and fresh: "distinct (given @ given_by x)" and "\<not> self_move x"
  shows "handles_inv (given @ given_by x) s'"
proof (cases x)
  case (Construct h message)
  then have h: "handles s h = None" "s' = s\<lparr>handles := (handles s)(h := Some message)\<rparr>" using step by (auto split: option.splits)
  have m: "message_of (Some message) = set (given_by x)" using Construct by (cases message) (simp_all add: message_of_def)
  have sub: "held_besides h s \<subseteq> set given" "set (finalized s) \<subseteq> set given"
    using i held_split [of s h] unfolding handles_inv_def by blast+
  have new: "set (given_by x) \<inter> set given = {}" using fresh by auto
  have "handles_inv (given @ given_by x) (s\<lparr>handles := (handles s)(h := Some message), finalized := finalized s @ []\<rparr>)"
    by (rule handles_inv_change [OF i], unfold m h(1)) (use sub new in \<open>auto simp: message_of_def\<close>)
  then show ?thesis using h(2) by simp
next
  case (Destroy h)
  then obtain message where h: "handles s h = Some message" using step by (auto split: option.splits)
  define f where "f = (case message of None \<Rightarrow> [] | Some m \<Rightarrow> [m])"
  have "handles_inv given (s\<lparr>handles := (handles s)(h := None), finalized := finalized s @ f\<rparr>)"
    by (rule handles_inv_change [OF i]) (auto simp: message_of_def h f_def split: option.splits)
  moreover have "s' = s\<lparr>handles := (handles s)(h := None), finalized := finalized s @ f\<rparr>"
    using step Destroy h by (auto simp: FinalizeMessage_def f_def split: option.splits)
  ultimately show ?thesis using Destroy by simp
next
  case (MoveConstruct h other)
  then have h: "handles s h = None" "handles s other \<noteq> None" "s' = Move h other s" using step by (auto split: option.splits)
  then have "h \<noteq> other" by auto
  with h have "handles_inv given s'" by (simp add: Move_inv [OF i] message_of_def)
  then show ?thesis using MoveConstruct by simp
next
  case (MoveAssign h other)
  then obtain message message' where h: "handles s h = Some message" "handles s other = Some message'" using step by (auto split: option.splits)
  have ne: "h \<noteq> other" using MoveAssign assms(4) by simp
  show ?thesis
  proof (cases message)
    case None
    then show ?thesis using step MoveAssign h ne by (auto simp: message_of_def intro!: Move_inv [OF i])
  next
    case (Some m)
    let ?s = "s\<lparr>handles := (handles s)(h := Some None), finalized := finalized s @ [m]\<rparr>"
    have "message' \<noteq> Some m" using i h ne Some unfolding handles_inv_def one_holder_def by blast
    then have "s' = Move h other ?s" using step MoveAssign h ne Some by (auto simp: FinalizeMessage_def Move_def)
    moreover have "handles_inv given ?s" by (rule handles_inv_change [OF i]) (auto simp: message_of_def h Some)
    ultimately show ?thesis using MoveAssign ne by (auto simp: message_of_def intro!: Move_inv)
  qed
qed

lemma count_list_distinct: "distinct xs \<Longrightarrow> x \<in> set xs \<Longrightarrow> count_list xs x = 1"
  by (induction xs) (auto simp: count_list_0_iff)

lemma run_handles_inv:
  "handles_inv given s \<Longrightarrow> run_handles xs s = Some s' \<Longrightarrow> distinct (given @ concat (map given_by xs)) \<Longrightarrow>
    \<not> list_ex self_move xs \<Longrightarrow> handles_inv (given @ concat (map given_by xs)) s'"
proof (induction xs arbitrary: given s)
  case (Cons x xs)
  then obtain s1 where s1: "handle_step x s = Some s1" "run_handles xs s1 = Some s'" by (auto split: option.splits)
  have "handles_inv (given @ given_by x) s1" using handle_step_inv [OF Cons.prems(1) s1(1)] Cons.prems(3,4) by auto
  from Cons.IH [OF this s1(2)] Cons.prems(3,4) show ?case by simp
qed simp

text \<open>C36 handles_finalize_once: whatever a program does with handles, constructing, moving, assigning and destroying them in any order, a
  message that was given to one is either still held, by exactly one handle, and not finalized, or it has been finalized exactly once; once
  no handle holds a message, all of them have been finalized. The one use left out is the assignment of a handle to itself.\<close>

theorem handles_finalize_once:
  assumes "run_handles xs no_handles = Some s" and "distinct (concat (map given_by xs))" and "\<not> list_ex self_move xs"
    and "m \<in> set (concat (map given_by xs))"
  shows "(m \<notin> set (finalized s) \<and> (\<exists>!h. handles s h = Some (Some m))) \<or>
    (count_list (finalized s) m = 1 \<and> (\<forall>h. handles s h \<noteq> Some (Some m)))"
proof -
  have "handles_inv [] no_handles" by (simp add: handles_inv_def one_holder_def held_def no_handles_def)
  from run_handles_inv [OF this assms(1)] assms(2,3) have i: "handles_inv (concat (map given_by xs)) s" by simp
  show ?thesis
  proof (cases "m \<in> set (finalized s)")
    case True
    with i have "m \<notin> held s" "distinct (finalized s)" by (auto simp: handles_inv_def)
    with True show ?thesis by (simp add: held_def count_list_distinct)
  next
    case False
    with i assms(4) have "m \<in> held s" by (auto simp: handles_inv_def)
    with i False show ?thesis by (auto simp: held_def handles_inv_def one_holder_def)
  qed
qed

theorem handles_finalize_once_witness:
  "\<exists>s. run_handles [Construct 0 (Some 5), MoveConstruct 1 0, Construct 2 (Some (6 :: nat)), MoveAssign 2 1, Destroy 0] no_handles = Some s \<and>
    ((5 \<notin> set (finalized s) \<and> (\<exists>!h. handles s h = Some (Some 5))) \<or>
      (count_list (finalized s) 5 = 1 \<and> (\<forall>h. handles s h \<noteq> Some (Some 5))))"
proof -
  let ?xs = "[Construct 0 (Some 5), MoveConstruct 1 0, Construct 2 (Some (6 :: nat)), MoveAssign 2 1, Destroy 0]"
  have "run_handles ?xs no_handles \<noteq> None" by (simp add: no_handles_def Move_def FinalizeMessage_def)
  then obtain s where "run_handles ?xs no_handles = Some s" by blast
  with handles_finalize_once [OF this, of 5] show ?thesis by simp
qed

text \<open>Assigning a handle to itself leaves it empty without finalizing the message, which no handle holds from then on.\<close>

lemma self_move_drops_message:
  "handles s h = Some (Some m) \<Longrightarrow> handle_step (MoveAssign h h) s = Some (s\<lparr>handles := (handles s)(h := Some None)\<rparr>)"
  by (simp add: Move_def)

end
