(* ===== verification/Trace_Buffer.thy ===== *)
theory Trace_Buffer
  imports Shared_Memory_Abi "HOL-Library.Product_Lexorder"
begin

section \<open>The central trace buffer (perfetto.cc, tracing/core/trace\_buffer.cc): writing\<close>

text \<open>
  The ring buffer into which the service copies the chunks of the producers. Pointers into \<open>data\_\<close> are offsets. A chunk header that
  was stored is kept as a record at its offset, the other bytes are in \<open>tb_data\<close>; storing anything over a header forgets it, and
  sixteen zero bytes are a header of size 0. The index, a \<open>std::map\<close>, is a list sorted by the keys, and its iterators are positions.
  \<open>None\<close> is a failed \<open>PERFETTO_CHECK\<close>, or the use of bytes that are no header. Sizes are numbers, cut to their width
  where the code narrows them.
\<close>

subsection \<open>Data\<close>

record ChunkRecord =
  cr_chunk_id :: u32
  cr_producer_id :: u16
  cr_writer_id :: u16
  cr_num_fragments :: nat
  cr_size :: nat
  cr_flags :: u8
  cr_is_padding :: bool

definition kRecordSize :: nat where "kRecordSize = 16"
definition kMaxRecordSize :: nat where "kMaxRecordSize = 2 ^ 16 - 1"

definition make_ChunkRecord :: "nat \<Rightarrow> ChunkRecord" where
  "make_ChunkRecord sz = \<lparr>cr_chunk_id = 0, cr_producer_id = 0, cr_writer_id = 0, cr_num_fragments = 0,
     cr_size = sz mod 2 ^ 16, cr_flags = 0, cr_is_padding = False\<rparr>"

type_synonym chunk_key = "u16 \<times> u16 \<times> u32"

definition Key :: "ChunkRecord \<Rightarrow> chunk_key" where
  "Key r = (cr_producer_id r, cr_writer_id r, cr_chunk_id r)"

record ChunkMeta =
  cm_chunk_record :: nat
  cm_trusted_uid :: u32
  cm_complete :: bool
  cm_last_read_packet_skipped :: bool
  cm_flags :: u8
  cm_num_fragments :: nat
  cm_num_fragments_read :: nat
  cm_cur_fragment_offset :: nat

definition make_ChunkMeta :: "nat \<Rightarrow> nat \<Rightarrow> bool \<Rightarrow> u8 \<Rightarrow> u32 \<Rightarrow> ChunkMeta" where
  "make_ChunkMeta r p complete f u = \<lparr>cm_chunk_record = r, cm_trusted_uid = u, cm_complete = complete,
     cm_last_read_packet_skipped = False, cm_flags = f, cm_num_fragments = p, cm_num_fragments_read = 0, cm_cur_fragment_offset = 0\<rparr>"

type_synonym chunk_map = "(chunk_key \<times> ChunkMeta) list"

record SequenceIterator =
  it_seq_begin :: nat
  it_seq_end :: nat
  it_cur :: nat
  it_wrapping_id :: u32

datatype OverwritePolicy = kOverwrite | kDiscard

record BufferStats =
  bs_buffer_size :: u64
  bs_bytes_written :: u64
  bs_bytes_overwritten :: u64
  bs_bytes_read :: u64
  bs_padding_bytes_written :: u64
  bs_padding_bytes_cleared :: u64
  bs_chunks_written :: u64
  bs_chunks_rewritten :: u64
  bs_chunks_overwritten :: u64
  bs_chunks_discarded :: u64
  bs_chunks_read :: u64
  bs_chunks_committed_out_of_order :: u64
  bs_write_wrap_count :: u64
  bs_patches_succeeded :: u64
  bs_patches_failed :: u64
  bs_readaheads_succeeded :: u64
  bs_readaheads_failed :: u64
  bs_abi_violations :: u64
  bs_trace_writer_packet_loss :: u64

definition no_stats :: BufferStats where
  "no_stats = \<lparr>bs_buffer_size = 0, bs_bytes_written = 0, bs_bytes_overwritten = 0, bs_bytes_read = 0, bs_padding_bytes_written = 0,
     bs_padding_bytes_cleared = 0, bs_chunks_written = 0, bs_chunks_rewritten = 0, bs_chunks_overwritten = 0, bs_chunks_discarded = 0,
     bs_chunks_read = 0, bs_chunks_committed_out_of_order = 0, bs_write_wrap_count = 0, bs_patches_succeeded = 0, bs_patches_failed = 0,
     bs_readaheads_succeeded = 0, bs_readaheads_failed = 0, bs_abi_violations = 0, bs_trace_writer_packet_loss = 0\<rparr>"

record TraceBuffer =
  tb_data :: memory
  tb_headers :: "nat \<Rightarrow> ChunkRecord option"
  tb_size :: nat
  tb_max_chunk_size :: nat
  tb_wptr :: nat
  tb_index :: chunk_map
  tb_read_iter :: SequenceIterator
  tb_policy :: OverwritePolicy
  tb_discard_writes :: bool
  tb_last_chunk_id :: "u16 \<times> u16 \<Rightarrow> u32 option"
  tb_stats :: BufferStats

abbreviation upd_stats :: "(BufferStats \<Rightarrow> BufferStats) \<Rightarrow> TraceBuffer \<Rightarrow> TraceBuffer" where
  "upd_stats f tb \<equiv> tb\<lparr>tb_stats := f (tb_stats tb)\<rparr>"

definition abi_violation :: "TraceBuffer \<Rightarrow> TraceBuffer" where
  "abi_violation = upd_stats (\<lambda>s. s\<lparr>bs_abi_violations := bs_abi_violations s + 1\<rparr>)"

text \<open>The operations of \<open>std::map\<close>.\<close>

definition ix_find :: "chunk_key \<Rightarrow> chunk_map \<Rightarrow> ChunkMeta option" where
  "ix_find k xs = map_of xs k"

definition ix_emplace :: "chunk_key \<Rightarrow> ChunkMeta \<Rightarrow> chunk_map \<Rightarrow> chunk_map" where
  "ix_emplace k m xs = (case ix_find k xs of Some _ \<Rightarrow> xs | None \<Rightarrow> insort_key fst (k, m) xs)"

definition ix_set :: "chunk_key \<Rightarrow> ChunkMeta \<Rightarrow> chunk_map \<Rightarrow> chunk_map" where
  "ix_set k m xs = map (\<lambda>(k', m'). (k', if k' = k then m else m')) xs"

definition ix_erase :: "chunk_key \<Rightarrow> chunk_map \<Rightarrow> chunk_map" where
  "ix_erase k xs = filter (\<lambda>(k', m'). k' \<noteq> k) xs"

text \<open>Loads and stores of \<open>data\_\<close>.\<close>

definition store_header :: "nat \<Rightarrow> ChunkRecord \<Rightarrow> TraceBuffer \<Rightarrow> TraceBuffer" where
  "store_header off r tb = tb\<lparr>tb_headers := (\<lambda>p. if p = off then Some r
     else if p < off + kRecordSize \<and> off < p + kRecordSize then None else tb_headers tb p)\<rparr>"

definition store_bytes :: "nat \<Rightarrow> u8 list \<Rightarrow> TraceBuffer \<Rightarrow> TraceBuffer" where
  "store_bytes off bs tb = tb\<lparr>tb_data := take off (tb_data tb) @ bs @ drop (off + length bs) (tb_data tb),
     tb_headers := (\<lambda>p. if p < off + length bs \<and> off < p + kRecordSize then None else tb_headers tb p)\<rparr>"

definition GetChunkRecordAt :: "nat \<Rightarrow> TraceBuffer \<Rightarrow> ChunkRecord option" where
  "GetChunkRecordAt p tb =
     (if p + kRecordSize > tb_size tb then None
      else case tb_headers tb p of Some r \<Rightarrow> Some r
      | None \<Rightarrow> if list_all (\<lambda>b. b = 0) (mem_range (tb_data tb) p (p + kRecordSize)) then Some (make_ChunkRecord 0) else None)"

definition size_to_end :: "TraceBuffer \<Rightarrow> nat" where
  "size_to_end tb = tb_size tb - tb_wptr tb"

subsection \<open>Setting up\<close>

definition upper_bound :: "chunk_key \<Rightarrow> chunk_map \<Rightarrow> nat" where
  "upper_bound k xs = length (takeWhile (\<lambda>(k', m). k' \<le> k) xs)"

definition kMaxChunkID :: u32 where "kMaxChunkID = - 1"

text \<open>An iterator of an empty range keeps an uninitialised \<open>wrapping_id\<close>, which is not read; it is 0 here.\<close>

definition GetReadIterForSequence :: "nat \<Rightarrow> TraceBuffer \<Rightarrow> SequenceIterator" where
  "GetReadIterForSequence seq_begin tb =
     (if seq_begin \<ge> length (tb_index tb)
      then \<lparr>it_seq_begin = seq_begin, it_seq_end = length (tb_index tb), it_cur = length (tb_index tb), it_wrapping_id = 0\<rparr>
      else (let (producer, writer, _) = fst (tb_index tb ! seq_begin);
                seq_end = upper_bound (producer, writer, kMaxChunkID) (tb_index tb);
                wrapping_id = (case tb_last_chunk_id tb (producer, writer) of None \<Rightarrow> 0 | Some c \<Rightarrow> c);
                cur = upper_bound (producer, writer, wrapping_id) (tb_index tb)
            in \<lparr>it_seq_begin = seq_begin, it_seq_end = seq_end, it_cur = (if cur = seq_end then seq_begin else cur),
                it_wrapping_id = wrapping_id\<rparr>))"

text \<open>The memory that \<open>PagedMemory::Allocate\<close> returns is zero; \<open>None\<close> is a failed allocation.\<close>

definition tb_Initialize :: "OverwritePolicy \<Rightarrow> bool \<Rightarrow> nat \<Rightarrow> TraceBuffer option" where
  "tb_Initialize policy allocated sz =
     (if \<not> allocated then None
      else Some \<lparr>tb_data = replicate sz 0, tb_headers = Map.empty, tb_size = sz, tb_max_chunk_size = min sz kMaxRecordSize,
                 tb_wptr = 0, tb_index = [], tb_read_iter = \<lparr>it_seq_begin = 0, it_seq_end = 0, it_cur = 0, it_wrapping_id = 0\<rparr>,
                 tb_policy = policy, tb_discard_writes = False, tb_last_chunk_id = Map.empty,
                 tb_stats = no_stats\<lparr>bs_buffer_size := word_of_nat sz\<rparr>\<rparr>)"

subsection \<open>Writing\<close>

text \<open>\<open>None\<close> as \<open>src\<close> is the null pointer of padding.\<close>

definition WriteChunkRecord :: "nat \<Rightarrow> ChunkRecord \<Rightarrow> memory option \<Rightarrow> nat \<Rightarrow> TraceBuffer \<Rightarrow> TraceBuffer option" where
  "WriteChunkRecord wptr r src sz tb =
     (if \<not> cr_size r \<le> size_to_end tb \<or> \<not> wptr + kRecordSize + sz \<le> tb_size tb then None
      else (let rounding_size = cr_size r - kRecordSize - sz; zeros = replicate rounding_size 0;
                tb = store_header wptr r tb
            in Some (case src of Some bs \<Rightarrow> store_bytes (wptr + kRecordSize) (bs @ zeros) tb
                     | None \<Rightarrow> store_bytes (wptr + kRecordSize + sz) zeros tb)))"

definition DiscardWrite :: "TraceBuffer \<Rightarrow> TraceBuffer" where
  "DiscardWrite tb = upd_stats (\<lambda>s. s\<lparr>bs_chunks_discarded := bs_chunks_discarded s + 1\<rparr>) (tb\<lparr>tb_discard_writes := True\<rparr>)"

record scan =
  sc_ptr :: nat
  sc_index_delete :: "chunk_key list"
  sc_chunks_overwritten :: u64
  sc_bytes_overwritten :: u64
  sc_padding_bytes_cleared :: u64

datatype scan_result = Scan_done scan | Scan_untouched | Scan_refused | Scan_failed

text \<open>One turn of the loop over the chunks that are in the way.\<close>

definition delete_turn :: "TraceBuffer \<Rightarrow> scan \<Rightarrow> scan_result" where
  "delete_turn tb sc =
     (case GetChunkRecordAt (sc_ptr sc) tb of
        None \<Rightarrow> Scan_failed
      | Some next_chunk \<Rightarrow>
          if cr_size next_chunk = 0 then Scan_untouched
          else (let ptr = sc_ptr sc + cr_size next_chunk;
                    go = (\<lambda>sc. if ptr \<le> tb_size tb then Scan_done (sc\<lparr>sc_ptr := ptr\<rparr>) else Scan_failed)
                in if cr_is_padding next_chunk
                   then go (sc\<lparr>sc_padding_bytes_cleared := sc_padding_bytes_cleared sc + word_of_nat (cr_size next_chunk)\<rparr>)
                   else case ix_find (Key next_chunk) (tb_index tb) of
                     None \<Rightarrow> go sc
                   | Some meta \<Rightarrow>
                       let sc' = sc\<lparr>sc_index_delete := sc_index_delete sc @ [Key next_chunk]\<rparr>
                       in if cm_num_fragments_read meta < cm_num_fragments meta
                          then (if tb_policy tb = kDiscard then Scan_refused
                                else go (sc'\<lparr>sc_chunks_overwritten := sc_chunks_overwritten sc + 1,
                                             sc_bytes_overwritten := sc_bytes_overwritten sc + word_of_nat (cr_size next_chunk)\<rparr>))
                          else go sc'))"

lemma delete_turn_moves: "delete_turn tb sc = Scan_done sc' \<Longrightarrow> sc_ptr sc < sc_ptr sc'"
  by (auto simp: delete_turn_def Let_def split: option.splits if_splits)

function delete_scan :: "TraceBuffer \<Rightarrow> nat \<Rightarrow> scan \<Rightarrow> scan_result" where
  "delete_scan tb search_end sc =
     (if sc_ptr sc < search_end
      then (case delete_turn tb sc of Scan_done sc' \<Rightarrow> delete_scan tb search_end sc' | r \<Rightarrow> r)
      else Scan_done sc)"
  by pat_completeness auto
termination
  by (relation "measure (\<lambda>(tb, search_end, sc). search_end - sc_ptr sc)") (auto dest: delete_turn_moves)

declare delete_scan.simps [simp del]

text \<open>The inner \<open>None\<close> is the result -1.\<close>

definition DeleteNextChunksFor :: "nat \<Rightarrow> TraceBuffer \<Rightarrow> (nat option \<times> TraceBuffer) option" where
  "DeleteNextChunksFor bytes_to_clear tb =
     (if tb_discard_writes tb then None
      else (let s = tb_stats tb; search_end = tb_wptr tb + bytes_to_clear
            in case delete_scan tb search_end \<lparr>sc_ptr = tb_wptr tb, sc_index_delete = [], sc_chunks_overwritten = bs_chunks_overwritten s,
                      sc_bytes_overwritten = bs_bytes_overwritten s, sc_padding_bytes_cleared = bs_padding_bytes_cleared s\<rparr> of
                 Scan_failed \<Rightarrow> None
               | Scan_untouched \<Rightarrow> Some (Some 0, tb)
               | Scan_refused \<Rightarrow> Some (None, tb)
               | Scan_done sc \<Rightarrow>
                   Some (Some (sc_ptr sc - search_end),
                     tb\<lparr>tb_index := fold ix_erase (sc_index_delete sc) (tb_index tb),
                        tb_stats := s\<lparr>bs_chunks_overwritten := sc_chunks_overwritten sc, bs_bytes_overwritten := sc_bytes_overwritten sc,
                                      bs_padding_bytes_cleared := sc_padding_bytes_cleared sc\<rparr>\<rparr>)))"

definition AddPaddingRecord :: "nat \<Rightarrow> TraceBuffer \<Rightarrow> TraceBuffer option" where
  "AddPaddingRecord sz tb =
     map_option (upd_stats (\<lambda>s. s\<lparr>bs_padding_bytes_written := bs_padding_bytes_written s + word_of_nat sz\<rparr>))
       (WriteChunkRecord (tb_wptr tb) (make_ChunkRecord sz\<lparr>cr_is_padding := True\<rparr>) None (sz - kRecordSize) tb)"

text \<open>A chunk that is in the buffer already: the branch of \<open>CopyChunkUntrusted\<close> for \<open>it != index_.end()\<close>.\<close>

definition rewrite_chunk :: "ChunkRecord \<Rightarrow> u8 \<Rightarrow> bool \<Rightarrow> memory \<Rightarrow> ChunkMeta \<Rightarrow> TraceBuffer \<Rightarrow> TraceBuffer option" where
  "rewrite_chunk r chunk_flags chunk_complete src meta tb =
     (case GetChunkRecordAt (cm_chunk_record meta) tb of
        None \<Rightarrow> None
      | Some prev \<Rightarrow>
          let (producer, writer, chunk) = Key r
          in if Key prev \<noteq> Key r \<or> cr_size prev \<noteq> cr_size r \<or> cr_num_fragments prev > cr_num_fragments r \<or>
                cr_flags prev AND chunk_flags \<noteq> cr_flags prev
             then Some (abi_violation tb)
             else if (case ix_find (producer, writer, chunk + 1) (tb_index tb) of
                        None \<Rightarrow> False | Some next_meta \<Rightarrow> cm_num_fragments_read next_meta > 0)
             then Some (abi_violation tb)
             else if cr_num_fragments prev = cr_num_fragments r then Some tb
             else if cm_num_fragments_read meta > cr_num_fragments prev then Some tb
             else (let meta' = meta\<lparr>cm_num_fragments := cr_num_fragments r, cm_flags := chunk_flags, cm_complete := chunk_complete\<rparr>;
                       tb' = tb\<lparr>tb_index := ix_set (Key r) meta' (tb_index tb)\<rparr>
                   in map_option (upd_stats (\<lambda>s. s\<lparr>bs_chunks_rewritten := bs_chunks_rewritten s + 1\<rparr>))
                        (WriteChunkRecord (cm_chunk_record meta) r (Some src) (length src) tb')))"

text \<open>A chunk that does not fit behind the write pointer: the rest is cleared and padded, and writing goes on at the start.\<close>

definition wrap_around :: "nat \<Rightarrow> TraceBuffer \<Rightarrow> (bool \<times> TraceBuffer) option" where
  "wrap_around record_size tb =
     (let cached_size_to_end = size_to_end tb
      in if record_size > cached_size_to_end
         then (case DeleteNextChunksFor cached_size_to_end tb of
                 None \<Rightarrow> None
               | Some (None, tb) \<Rightarrow> Some (False, tb)
               | Some (Some _, tb) \<Rightarrow>
                   map_option (\<lambda>tb. (True, upd_stats (\<lambda>s. s\<lparr>bs_write_wrap_count := bs_write_wrap_count s + 1\<rparr>) (tb\<lparr>tb_wptr := 0\<rparr>)))
                     (AddPaddingRecord cached_size_to_end tb))
         else Some (True, tb))"

definition advance_wptr :: "nat \<Rightarrow> TraceBuffer \<Rightarrow> TraceBuffer" where
  "advance_wptr record_size tb =
     (if tb_wptr tb + record_size \<ge> tb_size tb
      then upd_stats (\<lambda>s. s\<lparr>bs_write_wrap_count := bs_write_wrap_count s + 1\<rparr>) (tb\<lparr>tb_wptr := 0\<rparr>)
      else tb\<lparr>tb_wptr := tb_wptr tb + record_size\<rparr>)"

definition update_last_chunk_id :: "u16 \<Rightarrow> u16 \<Rightarrow> u32 \<Rightarrow> TraceBuffer \<Rightarrow> TraceBuffer" where
  "update_last_chunk_id producer writer chunk tb =
     (let last_chunk_id = (case tb_last_chunk_id tb (producer, writer) of None \<Rightarrow> 0 | Some c \<Rightarrow> c)
      in if chunk - last_chunk_id < kMaxChunkID div 2
         then tb\<lparr>tb_last_chunk_id := (tb_last_chunk_id tb)((producer, writer) \<mapsto> chunk)\<rparr>
         else upd_stats (\<lambda>s. s\<lparr>bs_chunks_committed_out_of_order := bs_chunks_committed_out_of_order s + 1\<rparr>)
                (tb\<lparr>tb_last_chunk_id := (tb_last_chunk_id tb)((producer, writer) \<mapsto> last_chunk_id)\<rparr>))"

definition insert_chunk :: "ChunkRecord \<Rightarrow> u8 \<Rightarrow> u32 \<Rightarrow> bool \<Rightarrow> memory \<Rightarrow> TraceBuffer \<Rightarrow> TraceBuffer option" where
  "insert_chunk r chunk_flags uid chunk_complete src tb =
     (case DeleteNextChunksFor (cr_size r) tb of
        None \<Rightarrow> None
      | Some (None, tb) \<Rightarrow> Some (DiscardWrite tb)
      | Some (Some padding_size, tb) \<Rightarrow>
          let tb1 = upd_stats (\<lambda>s. s\<lparr>bs_chunks_written := bs_chunks_written s + 1,
                                     bs_bytes_written := bs_bytes_written s + word_of_nat (cr_size r)\<rparr>)
                 (tb\<lparr>tb_index := ix_emplace (Key r) (make_ChunkMeta (tb_wptr tb) (cr_num_fragments r) chunk_complete chunk_flags uid)
                       (tb_index tb)\<rparr>)
          in case WriteChunkRecord (tb_wptr tb1) r (Some src) (length src) tb1 of
               None \<Rightarrow> None
             | Some tb2 \<Rightarrow>
                 let tb3 = update_last_chunk_id (cr_producer_id r) (cr_writer_id r) (cr_chunk_id r) (advance_wptr (cr_size r) tb2)
                 in if padding_size \<noteq> 0 then AddPaddingRecord padding_size tb3 else Some tb3)"

definition AlignUp16 :: "nat \<Rightarrow> nat" where
  "AlignUp16 sz = (sz + kRecordSize - 1) div kRecordSize * kRecordSize"

text \<open>Of an incomplete chunk the last packet is left out, and the flags that are about it.\<close>

definition complete_part :: "nat \<Rightarrow> u8 \<Rightarrow> bool \<Rightarrow> nat \<times> u8" where
  "complete_part num_fragments chunk_flags chunk_complete =
     (if \<not> chunk_complete \<and> num_fragments > 0
      then (num_fragments - 1, chunk_flags AND NOT (ucast kLastPacketContinuesOnNextChunk) AND NOT (ucast kChunkNeedsPatching))
      else (num_fragments, chunk_flags))"

definition chunk_record :: "u16 \<Rightarrow> u16 \<Rightarrow> u32 \<Rightarrow> nat \<Rightarrow> u8 \<Rightarrow> nat \<Rightarrow> ChunkRecord" where
  "chunk_record producer writer chunk num_fragments chunk_flags record_size =
     make_ChunkRecord record_size\<lparr>cr_producer_id := producer, cr_chunk_id := chunk, cr_writer_id := writer,
       cr_num_fragments := num_fragments, cr_flags := take_bit 6 chunk_flags\<rparr>"

definition CopyChunkUntrusted ::
    "u16 \<Rightarrow> u32 \<Rightarrow> u16 \<Rightarrow> u32 \<Rightarrow> nat \<Rightarrow> u8 \<Rightarrow> bool \<Rightarrow> memory \<Rightarrow> TraceBuffer \<Rightarrow> TraceBuffer option" where
  "CopyChunkUntrusted producer uid writer chunk num_fragments chunk_flags chunk_complete src tb =
     (let record_size = AlignUp16 (length src + kRecordSize)
      in if record_size > tb_max_chunk_size tb then Some (abi_violation tb)
         else (let (num_fragments, chunk_flags) = complete_part num_fragments chunk_flags chunk_complete;
                   r = chunk_record producer writer chunk num_fragments chunk_flags record_size
               in case ix_find (Key r) (tb_index tb) of
                    Some meta \<Rightarrow> rewrite_chunk r chunk_flags chunk_complete src meta tb
                  | None \<Rightarrow>
                      if tb_discard_writes tb then Some (DiscardWrite tb)
                      else (case wrap_around record_size tb of
                              None \<Rightarrow> None
                            | Some (False, tb) \<Rightarrow> Some (DiscardWrite tb)
                            | Some (True, tb) \<Rightarrow> insert_chunk r chunk_flags uid chunk_complete src tb)))"

end
