(* ===== verification/Trace_Buffer_Inv.thy ===== *)
theory Trace_Buffer_Inv
  imports Trace_Buffer
begin

section \<open>The central trace buffer: what writing keeps and what it loses\<close>

text \<open>
  The invariant of the buffer: it is tiled by records, the write pointer is at the border of two of them, and the index names exactly
  the chunks. Every write keeps it, none of the checks on the chain of records fails, and a write removes only the chunks that it
  overwrites.
\<close>

subsection \<open>Records in a row\<close>

definition extent :: "ChunkRecord list \<Rightarrow> nat" where
  "extent rs = sum_list (map cr_size rs)"

fun places :: "nat \<Rightarrow> ChunkRecord list \<Rightarrow> (nat \<times> ChunkRecord) list" where
  "places p [] = []"
| "places p (r # rs) = (p, r) # places (p + cr_size r) rs"

definition rec_ok :: "ChunkRecord \<Rightarrow> bool" where
  "rec_ok r \<longleftrightarrow> kRecordSize \<le> cr_size r \<and> kRecordSize dvd cr_size r \<and> cr_size r \<le> kMaxRecordSize"

definition chained :: "TraceBuffer \<Rightarrow> (nat \<times> ChunkRecord) set \<Rightarrow> bool" where
  "chained tb prs \<longleftrightarrow> (\<forall>(o', r) \<in> prs. tb_headers tb o' = Some r \<and> rec_ok r)"

lemma extent_simps [simp]: "extent [] = 0" "extent (r # rs) = cr_size r + extent rs" "extent (xs @ ys) = extent xs + extent ys"
  by (simp_all add: extent_def)

lemma places_append: "places p (xs @ ys) = places p xs @ places (p + extent xs) ys"
  by (induction xs arbitrary: p) (simp_all add: add.assoc)

lemma places_bounds: "(q, r) \<in> set (places p rs) \<Longrightarrow> p \<le> q \<and> q + cr_size r \<le> p + extent rs"
  by (induction rs arbitrary: p) fastforce+

lemma rec_ok_pos: "rec_ok r \<Longrightarrow> 0 < cr_size r"
  by (simp add: rec_ok_def kRecordSize_def)

lemma places_apart:
  "(q, r) \<in> set (places p rs) \<Longrightarrow> (q', r') \<in> set (places p rs) \<Longrightarrow> (q, r) = (q', r') \<or> q + cr_size r \<le> q' \<or> q' + cr_size r' \<le> q"
proof (induction rs arbitrary: p)
  case (Cons x xs)
  then show ?case using places_bounds [of q r "p + cr_size x" xs] places_bounds [of q' r' "p + cr_size x" xs] by auto
qed simp

lemma snd_places: "map snd (places p rs) = rs"
  by (induction rs arbitrary: p) simp_all

lemma placed: "r \<in> set rs \<Longrightarrow> \<exists>q. (q, r) \<in> set (places p rs)"
  by (induction rs arbitrary: p) auto

lemma extent_dvd: "\<forall>r \<in> set rs. rec_ok r \<Longrightarrow> kRecordSize dvd extent rs"
  by (induction rs) (simp_all add: rec_ok_def)

lemma chained_recs: "chained tb (set (places p rs)) \<Longrightarrow> \<forall>r \<in> set rs. rec_ok r"
  by (induction rs arbitrary: p) (auto simp: chained_def)

lemma chained_header:
  "chained tb prs \<Longrightarrow> (q, r) \<in> prs \<Longrightarrow> q + cr_size r \<le> tb_size tb \<Longrightarrow> GetChunkRecordAt q tb = Some r"
  by (auto simp: chained_def GetChunkRecordAt_def rec_ok_def)

subsection \<open>The invariant\<close>

definition blank_from :: "nat \<Rightarrow> TraceBuffer \<Rightarrow> bool" where
  "blank_from e tb \<longleftrightarrow> (\<forall>p. e \<le> p \<and> p < tb_size tb \<longrightarrow> tb_headers tb p = None \<and> tb_data tb ! p = 0)"

text \<open>The records before and behind the write pointer; the part behind it may still be untouched.\<close>

definition layout :: "TraceBuffer \<Rightarrow> ChunkRecord list \<Rightarrow> ChunkRecord list \<Rightarrow> bool" where
  "layout tb ls rs \<longleftrightarrow> chained tb (set (places 0 (ls @ rs))) \<and> extent ls = tb_wptr tb \<and>
     (tb_wptr tb + extent rs = tb_size tb \<or> (rs = [] \<and> blank_from (tb_wptr tb) tb))"

definition meta_of :: "nat \<Rightarrow> ChunkRecord \<Rightarrow> ChunkMeta \<Rightarrow> bool" where
  "meta_of q r m \<longleftrightarrow> \<not> cr_is_padding r \<and> cm_chunk_record m = q \<and> cm_num_fragments m = cr_num_fragments r \<and>
     cr_flags r = take_bit 6 (cm_flags m)"

definition indexed :: "TraceBuffer \<Rightarrow> (nat \<times> ChunkRecord) set \<Rightarrow> bool" where
  "indexed tb prs \<longleftrightarrow> distinct (map fst (tb_index tb)) \<and>
     (\<forall>(q, r) \<in> prs. \<not> cr_is_padding r \<longrightarrow> (\<exists>m. ix_find (Key r) (tb_index tb) = Some m \<and> cm_chunk_record m = q)) \<and>
     (\<forall>k m. ix_find k (tb_index tb) = Some m \<longrightarrow> (\<exists>q r. (q, r) \<in> prs \<and> Key r = k \<and> meta_of q r m))"

definition sizes_ok :: "TraceBuffer \<Rightarrow> bool" where
  "sizes_ok tb \<longleftrightarrow> kRecordSize dvd tb_size tb \<and> tb_wptr tb < tb_size tb \<and> length (tb_data tb) = tb_size tb \<and>
     tb_max_chunk_size tb = min (tb_size tb) kMaxRecordSize"

definition tb_inv :: "TraceBuffer \<Rightarrow> bool" where
  "tb_inv tb \<longleftrightarrow> sizes_ok tb \<and> (\<exists>ls rs. layout tb ls rs \<and> indexed tb (set (places 0 (ls @ rs))))"

text \<open>What the buffer holds of a chunk: its entry and its bytes.\<close>

definition stored :: "TraceBuffer \<Rightarrow> chunk_key \<Rightarrow> (ChunkMeta \<times> u8 list) option" where
  "stored tb k =
     (case ix_find k (tb_index tb) of
        None \<Rightarrow> None
      | Some m \<Rightarrow>
          (case GetChunkRecordAt (cm_chunk_record m) tb of
             None \<Rightarrow> None
           | Some r \<Rightarrow> Some (m, mem_range (tb_data tb) (cm_chunk_record m + kRecordSize) (cm_chunk_record m + cr_size r))))"

lemma tb_Initialize_inv:
  assumes "tb_Initialize policy True sz = Some tb" and "kRecordSize dvd sz" and "0 < sz"
  shows "tb_inv tb"
proof -
  have "layout tb [] []" using assms(1) by (auto simp: tb_Initialize_def layout_def chained_def blank_from_def)
  moreover have "indexed tb {}" using assms(1) by (auto simp: tb_Initialize_def indexed_def ix_find_def)
  moreover have "sizes_ok tb" using assms by (auto simp: tb_Initialize_def sizes_ok_def)
  ultimately show ?thesis unfolding tb_inv_def by force
qed

subsection \<open>The index\<close>

lemma ix_find_emplace:
  "distinct (map fst xs) \<Longrightarrow> ix_find k xs = None \<Longrightarrow> ix_find k' (ix_emplace k m xs) = (if k' = k then Some m else ix_find k' xs)"
proof -
  assume "ix_find k xs = None"
  then have "map_of (insort_key fst (k, m) xs) = (map_of xs)(k \<mapsto> m)"
    unfolding ix_find_def by (induction xs) (auto simp: fun_eq_iff split: if_splits)
  with \<open>ix_find k xs = None\<close> show ?thesis by (simp add: ix_emplace_def ix_find_def)
qed

lemma distinct_emplace: "distinct (map fst xs) \<Longrightarrow> distinct (map fst (ix_emplace k m xs))"
proof -
  have "set (map fst (insort_key fst (k, m) xs)) = insert k (set (map fst xs))" by (induction xs) auto
  moreover have "distinct (map fst xs) \<Longrightarrow> k \<notin> set (map fst xs) \<Longrightarrow> distinct (map fst (insort_key fst (k, m) xs))"
    by (induction xs) (auto simp: set_insort_key)
  moreover assume "distinct (map fst xs)"
  ultimately show ?thesis by (auto simp: ix_emplace_def ix_find_def map_of_eq_None_iff split: option.splits)
qed

lemma ix_find_erase: "ix_find k' (ix_erase k xs) = (if k' = k then None else ix_find k' xs)"
  by (induction xs) (auto simp: ix_find_def ix_erase_def)

lemma distinct_erase: "distinct (map fst xs) \<Longrightarrow> distinct (map fst (ix_erase k xs))"
  by (induction xs) (auto simp: ix_erase_def)

lemma ix_find_erases: "ix_find k (fold ix_erase ks xs) = (if k \<in> set ks then None else ix_find k xs)"
  by (induction ks arbitrary: xs) (auto simp: ix_find_erase)

lemma distinct_erases: "distinct (map fst xs) \<Longrightarrow> distinct (map fst (fold ix_erase ks xs))"
  by (induction ks arbitrary: xs) (auto simp: distinct_erase)

lemma ix_find_set: "ix_find k' (ix_set k m xs) = (if k' = k then map_option (\<lambda>_. m) (ix_find k xs) else ix_find k' xs)"
  by (induction xs) (auto simp: ix_find_def ix_set_def)

lemma keys_set: "map fst (ix_set k m xs) = map fst xs"
  by (induction xs) (auto simp: ix_set_def)

subsection \<open>The scan\<close>

definition unread_chunk :: "TraceBuffer \<Rightarrow> ChunkRecord \<Rightarrow> bool" where
  "unread_chunk tb r \<longleftrightarrow> \<not> cr_is_padding r \<and>
     (case ix_find (Key r) (tb_index tb) of None \<Rightarrow> False | Some m \<Rightarrow> cm_num_fragments_read m < cm_num_fragments m)"

lemma delete_turn_cases:
  assumes "GetChunkRecordAt (sc_ptr sc) tb = Some r" and "rec_ok r" and "sc_ptr sc + cr_size r \<le> tb_size tb"
    and "\<not> cr_is_padding r \<Longrightarrow> ix_find (Key r) (tb_index tb) \<noteq> None"
  shows "(tb_policy tb = kDiscard \<and> unread_chunk tb r \<and> delete_turn tb sc = Scan_refused) \<or>
    (\<not> (tb_policy tb = kDiscard \<and> unread_chunk tb r) \<and>
     (\<exists>sc'. delete_turn tb sc = Scan_done sc' \<and> sc_ptr sc' = sc_ptr sc + cr_size r \<and>
       sc_index_delete sc' = sc_index_delete sc @ (if cr_is_padding r then [] else [Key r])))"
proof (cases "cr_is_padding r")
  case True
  then show ?thesis using assms rec_ok_pos [OF assms(2)] by (auto simp: delete_turn_def unread_chunk_def)
next
  case False
  then obtain m where "ix_find (Key r) (tb_index tb) = Some m" using assms(4) by blast
  then show ?thesis using assms(1-3) rec_ok_pos [OF assms(2)] False by (auto simp: delete_turn_def unread_chunk_def Let_def)
qed

lemma delete_scan_chain:
  assumes "chained tb (set (places (sc_ptr sc) rs))" and "sc_ptr sc + extent rs = tb_size tb" and "search_end \<le> tb_size tb"
    and "\<forall>r \<in> set rs. \<not> cr_is_padding r \<longrightarrow> ix_find (Key r) (tb_index tb) \<noteq> None"
  shows "(tb_policy tb = kDiscard \<and> delete_scan tb search_end sc = Scan_refused) \<or>
    (\<exists>ds rs' sc'. rs = ds @ rs' \<and> delete_scan tb search_end sc = Scan_done sc' \<and> sc_ptr sc' = sc_ptr sc + extent ds \<and>
       search_end \<le> sc_ptr sc' \<and> (\<forall>(q, r) \<in> set (places (sc_ptr sc) ds). q < search_end) \<and>
       sc_index_delete sc' = sc_index_delete sc @ map Key (filter (\<lambda>r. \<not> cr_is_padding r) ds) \<and>
       (tb_policy tb = kDiscard \<longrightarrow> (\<forall>r \<in> set ds. \<not> unread_chunk tb r)))"
  using assms
proof (induction rs arbitrary: sc)
  case Nil
  then have "delete_scan tb search_end sc = Scan_done sc" by (subst delete_scan.simps) simp
  with Nil show ?case by auto
next
  case (Cons r rs)
  show ?case
  proof (cases "sc_ptr sc < search_end")
    case False
    then have "delete_scan tb search_end sc = Scan_done sc" by (subst delete_scan.simps) simp
    with False show ?thesis by (intro disjI2 exI [of _ "[]"] exI [of _ "r # rs"] exI [of _ sc]) simp
  next
    case True
    have r: "GetChunkRecordAt (sc_ptr sc) tb = Some r" "rec_ok r" "sc_ptr sc + cr_size r \<le> tb_size tb"
      using Cons.prems(1,2) chained_header [OF Cons.prems(1), of "sc_ptr sc" r] by (auto simp: chained_def)
    from delete_turn_cases [OF r] Cons.prems(4) consider
        "tb_policy tb = kDiscard" "delete_turn tb sc = Scan_refused"
      | sc' where "\<not> (tb_policy tb = kDiscard \<and> unread_chunk tb r)" "delete_turn tb sc = Scan_done sc'"
          "sc_ptr sc' = sc_ptr sc + cr_size r" "sc_index_delete sc' = sc_index_delete sc @ (if cr_is_padding r then [] else [Key r])"
      by fastforce
    then show ?thesis
    proof cases
      case 1
      with True show ?thesis by (subst delete_scan.simps) simp
    next
      case 2
      have step: "delete_scan tb search_end sc = delete_scan tb search_end sc'"
        using True 2(2) by (subst delete_scan.simps) simp
      have "chained tb (set (places (sc_ptr sc') rs))" "sc_ptr sc' + extent rs = tb_size tb"
        using Cons.prems(1,2) 2(3) by (auto simp: chained_def)
      from Cons.IH [OF this Cons.prems(3)] Cons.prems(4) consider
          "tb_policy tb = kDiscard" "delete_scan tb search_end sc' = Scan_refused"
        | ds rs' sc'' where "rs = ds @ rs'" "delete_scan tb search_end sc' = Scan_done sc''" "sc_ptr sc'' = sc_ptr sc' + extent ds"
            "search_end \<le> sc_ptr sc''" "\<forall>(q, r) \<in> set (places (sc_ptr sc') ds). q < search_end"
            "sc_index_delete sc'' = sc_index_delete sc' @ map Key (filter (\<lambda>r. \<not> cr_is_padding r) ds)"
            "tb_policy tb = kDiscard \<longrightarrow> (\<forall>r \<in> set ds. \<not> unread_chunk tb r)"
        by fastforce
      then show ?thesis
      proof cases
        case 1
        then show ?thesis by (simp add: step)
      next
        case inner: 2
        with True 2 show ?thesis
          by (intro disjI2 exI [of _ "r # ds"] exI [of _ rs'] exI [of _ sc'']) (auto simp: step)
      qed
    qed
  qed
qed

subsection \<open>Stores\<close>

text \<open>The effect of writing the record \<open>r\<close> with the payload \<open>pl\<close> at \<open>p\<close>; nothing else of the buffer changes.\<close>

definition wrote :: "nat \<Rightarrow> ChunkRecord \<Rightarrow> u8 list option \<Rightarrow> TraceBuffer \<Rightarrow> TraceBuffer \<Rightarrow> bool" where
  "wrote p r pl tb tb' \<longleftrightarrow> tb' = tb\<lparr>tb_data := tb_data tb', tb_headers := tb_headers tb'\<rparr> \<and>
     length (tb_data tb') = length (tb_data tb) \<and> tb_headers tb' p = Some r \<and>
     (\<forall>q. q + kRecordSize \<le> p \<or> p + cr_size r \<le> q \<longrightarrow> tb_headers tb' q = tb_headers tb q) \<and>
     (\<forall>q < length (tb_data tb). q < p \<or> p + cr_size r \<le> q \<longrightarrow> tb_data tb' ! q = tb_data tb ! q) \<and>
     (\<forall>bs. pl = Some bs \<longrightarrow> mem_range (tb_data tb') (p + kRecordSize) (p + cr_size r) = bs)"

lemma store_fields:
  "tb_data (store_header off r tb) = tb_data tb"
  "tb_data (store_bytes off bs tb) = take off (tb_data tb) @ bs @ drop (off + length bs) (tb_data tb)"
  by (simp_all add: store_header_def store_bytes_def)

lemma nth_splice:
  "off + length bs \<le> length xs \<Longrightarrow> q < length xs \<Longrightarrow>
    (take off xs @ bs @ drop (off + length bs) xs) ! q = (if q < off \<or> off + length bs \<le> q then xs ! q else bs ! (q - off))"
  by (auto simp: nth_append)

lemma mem_range_splice:
  "off + length bs \<le> length xs \<Longrightarrow> mem_range (take off xs @ bs @ drop (off + length bs) xs) off (off + length bs) = bs"
  by (simp add: mem_range_def)

lemma WriteChunkRecord_wrote:
  assumes "cr_size r \<le> size_to_end tb" and "p + cr_size r \<le> tb_size tb" and "length (tb_data tb) = tb_size tb"
    and "kRecordSize + n \<le> cr_size r" and "case src of None \<Rightarrow> n = cr_size r - kRecordSize | Some bs \<Rightarrow> length bs = n"
  shows "\<exists>tb'. WriteChunkRecord p r src n tb = Some tb' \<and>
    wrote p r (map_option (\<lambda>bs. bs @ replicate (cr_size r - kRecordSize - n) 0) src) tb tb'"
proof (cases src)
  case None
  let ?tb = "store_bytes (p + kRecordSize + n) [] (store_header p r tb)"
  from None assms have "WriteChunkRecord p r src n tb = Some ?tb" by (simp add: WriteChunkRecord_def Let_def)
  moreover have "wrote p r None tb ?tb"
    using assms(4,5) None by (auto simp: wrote_def store_bytes_def store_header_def kRecordSize_def)
  ultimately show ?thesis using None by simp
next
  case (Some bs)
  let ?bs = "bs @ replicate (cr_size r - kRecordSize - n) 0"
  let ?tb = "store_bytes (p + kRecordSize) ?bs (store_header p r tb)"
  have len: "length ?bs = cr_size r - kRecordSize" using assms(4,5) Some by simp
  from assms Some have "WriteChunkRecord p r src n tb = Some ?tb" by (simp add: WriteChunkRecord_def Let_def)
  moreover have "wrote p r (Some ?bs) tb ?tb"
  proof -
    have fits: "p + kRecordSize + length ?bs \<le> length (tb_data tb)" "p + kRecordSize + length ?bs = p + cr_size r"
      using assms(2-4) len by simp_all
    have d: "tb_data ?tb = take (p + kRecordSize) (tb_data tb) @ ?bs @ drop (p + kRecordSize + length ?bs) (tb_data tb)"
      by (simp only: store_fields)
    have "mem_range (tb_data ?tb) (p + kRecordSize) (p + cr_size r) = ?bs"
      unfolding d fits(2) [symmetric] by (rule mem_range_splice [OF fits(1)])
    moreover have "tb_data ?tb ! q = tb_data tb ! q" if "q < length (tb_data tb)" "q < p \<or> p + cr_size r \<le> q" for q
    proof -
      have "q < p + kRecordSize \<or> p + kRecordSize + length ?bs \<le> q" using that(2) unfolding fits(2) by auto
      then show ?thesis unfolding d nth_splice [OF fits(1) that(1)] by (rule if_P)
    qed
    moreover have "length (tb_data ?tb) = length (tb_data tb)" using fits unfolding d by simp
    moreover have "tb_headers ?tb p = Some r" using len by (simp add: store_bytes_def store_header_def)
    moreover have "tb_headers ?tb q = tb_headers tb q" if "q + kRecordSize \<le> p \<or> p + cr_size r \<le> q" for q
      using that len assms(4) by (auto simp: store_bytes_def store_header_def kRecordSize_def)
    moreover have "?tb = tb\<lparr>tb_data := tb_data ?tb, tb_headers := tb_headers ?tb\<rparr>" by (simp add: store_bytes_def store_header_def)
    ultimately show ?thesis unfolding wrote_def by blast
  qed
  ultimately show ?thesis using Some by simp
qed

lemma wrote_fields:
  assumes "wrote p r pl tb tb'"
  shows "tb_size tb' = tb_size tb" "tb_max_chunk_size tb' = tb_max_chunk_size tb" "tb_wptr tb' = tb_wptr tb"
    "tb_index tb' = tb_index tb" "tb_read_iter tb' = tb_read_iter tb" "tb_policy tb' = tb_policy tb"
    "tb_discard_writes tb' = tb_discard_writes tb" "tb_last_chunk_id tb' = tb_last_chunk_id tb" "tb_stats tb' = tb_stats tb"
proof -
  have "tb' = tb\<lparr>tb_data := tb_data tb', tb_headers := tb_headers tb'\<rparr>" using assms by (simp add: wrote_def)
  then obtain d h where "tb' = tb\<lparr>tb_data := d, tb_headers := h\<rparr>" by blast
  then show "tb_size tb' = tb_size tb" "tb_max_chunk_size tb' = tb_max_chunk_size tb" "tb_wptr tb' = tb_wptr tb"
    "tb_index tb' = tb_index tb" "tb_read_iter tb' = tb_read_iter tb" "tb_policy tb' = tb_policy tb"
    "tb_discard_writes tb' = tb_discard_writes tb" "tb_last_chunk_id tb' = tb_last_chunk_id tb" "tb_stats tb' = tb_stats tb"
    by simp_all
qed

lemma wroteD:
  assumes "wrote p r pl tb tb'"
  shows "length (tb_data tb') = length (tb_data tb)" "tb_headers tb' p = Some r"
    "q + kRecordSize \<le> p \<or> p + cr_size r \<le> q \<Longrightarrow> tb_headers tb' q = tb_headers tb q"
    "q < length (tb_data tb) \<Longrightarrow> q < p \<or> p + cr_size r \<le> q \<Longrightarrow> tb_data tb' ! q = tb_data tb ! q"
    "pl = Some bs \<Longrightarrow> mem_range (tb_data tb') (p + kRecordSize) (p + cr_size r) = bs"
  using assms unfolding wrote_def by blast+

text \<open>Nothing outside the bytes from \<open>a\<close> to \<open>b\<close> changes.\<close>

definition untouched :: "nat \<Rightarrow> nat \<Rightarrow> TraceBuffer \<Rightarrow> TraceBuffer \<Rightarrow> bool" where
  "untouched a b tb tb' \<longleftrightarrow> tb_size tb' = tb_size tb \<and> length (tb_data tb') = length (tb_data tb) \<and>
     (\<forall>q. q + kRecordSize \<le> a \<or> b \<le> q \<longrightarrow> tb_headers tb' q = tb_headers tb q) \<and>
     (\<forall>q < length (tb_data tb). q < a \<or> b \<le> q \<longrightarrow> tb_data tb' ! q = tb_data tb ! q)"

lemma untouchedD:
  assumes "untouched a b tb tb'"
  shows "tb_size tb' = tb_size tb" "length (tb_data tb') = length (tb_data tb)"
    "q + kRecordSize \<le> a \<or> b \<le> q \<Longrightarrow> tb_headers tb' q = tb_headers tb q"
    "q < length (tb_data tb) \<Longrightarrow> q < a \<or> b \<le> q \<Longrightarrow> tb_data tb' ! q = tb_data tb ! q"
  using assms unfolding untouched_def by blast+

lemma wrote_untouched: "wrote p r pl tb tb' \<Longrightarrow> untouched p (p + cr_size r) tb tb'"
  using wroteD [of p r pl tb tb'] wrote_fields(1) [of p r pl tb tb'] unfolding untouched_def by blast

lemma untouched_trans: "untouched a b tb tb' \<Longrightarrow> untouched a' b' tb' tb'' \<Longrightarrow> untouched (min a a') (max b b') tb tb''"
  unfolding untouched_def by simp

lemma untouched_refl: "tb_size tb' = tb_size tb \<Longrightarrow> tb_data tb' = tb_data tb \<Longrightarrow> tb_headers tb' = tb_headers tb \<Longrightarrow> untouched a b tb tb'"
  unfolding untouched_def by simp

lemma untouched_range:
  assumes "untouched a b tb tb'" and "d \<le> a \<or> b \<le> c" and "d \<le> length (tb_data tb)"
  shows "mem_range (tb_data tb') c d = mem_range (tb_data tb) c d"
proof (rule nth_equalityI)
  note len = untouchedD(2) [OF assms(1)]
  then show "length (mem_range (tb_data tb') c d) = length (mem_range (tb_data tb) c d)" using assms(3) by (simp add: length_mem_range)
  fix i assume "i < length (mem_range (tb_data tb') c d)"
  then have "i < d - c" using assms(3) len by (simp add: length_mem_range)
  moreover from this have "c + i < length (tb_data tb)" "c + i < a \<or> b \<le> c + i" using assms(2,3) by auto
  then have "tb_data tb' ! (c + i) = tb_data tb ! (c + i)" by (rule untouchedD(4) [OF assms(1)])
  ultimately show "mem_range (tb_data tb') c d ! i = mem_range (tb_data tb) c d ! i" using assms(3) len by (simp add: nth_mem_range)
qed

lemma untouched_chained:
  assumes "untouched a b tb tb'" and "chained tb prs" and "\<forall>(q, x) \<in> prs. q + cr_size x \<le> a \<or> b \<le> q"
  shows "chained tb' prs"
  unfolding chained_def
proof (intro ballI, clarify)
  fix q x assume "(q, x) \<in> prs"
  then have x: "tb_headers tb q = Some x" "rec_ok x" "q + cr_size x \<le> a \<or> b \<le> q" using assms(2,3) by (auto simp: chained_def)
  then have "q + kRecordSize \<le> a \<or> b \<le> q" by (auto simp: rec_ok_def)
  with untouchedD(3) [OF assms(1)] x show "tb_headers tb' q = Some x \<and> rec_ok x" by simp
qed

lemma wrote_chained:
  assumes "wrote p r pl tb tb'" and "chained tb prs" and "rec_ok r" and "\<forall>(q, x) \<in> prs. q + cr_size x \<le> p \<or> p + cr_size r \<le> q"
  shows "chained tb' (insert (p, r) prs)"
  using untouched_chained [OF wrote_untouched [OF assms(1)] assms(2,4)] wroteD(2) [OF assms(1)] assms(3) by (simp add: chained_def)

lemma header_size: "tb_headers tb q = Some r \<Longrightarrow> q + kRecordSize \<le> tb_size tb \<Longrightarrow> GetChunkRecordAt q tb = Some r"
  by (simp add: GetChunkRecordAt_def)

text \<open>A chunk in the index keeps its entry and bytes when its record is not touched.\<close>

lemma stored_indexed:
  assumes "chained tb prs" and "indexed tb prs" and "\<forall>(q, r) \<in> prs. q + cr_size r \<le> tb_size tb"
    and "ix_find k (tb_index tb) = Some m"
  shows "\<exists>r. (cm_chunk_record m, r) \<in> prs \<and> Key r = k \<and> meta_of (cm_chunk_record m) r m \<and>
    stored tb k = Some (m, mem_range (tb_data tb) (cm_chunk_record m + kRecordSize) (cm_chunk_record m + cr_size r))"
proof -
  obtain q r where r: "(q, r) \<in> prs" "Key r = k" "meta_of q r m" using assms(2,4) unfolding indexed_def by blast
  then have q: "q = cm_chunk_record m" by (simp add: meta_of_def)
  have "GetChunkRecordAt q tb = Some r" using chained_header [OF assms(1) r(1)] assms(3) r(1) by blast
  with r q assms(4) show ?thesis by (auto simp: stored_def)
qed

lemma stored_frame:
  assumes "chained tb prs" and "indexed tb prs" and "\<forall>(q, r) \<in> prs. q + cr_size r \<le> tb_size tb" and "length (tb_data tb) = tb_size tb"
    and "ix_find k (tb_index tb) = Some m" and "ix_find k (tb_index tb') = Some m" and u: "untouched a b tb tb'"
    and apart: "\<forall>r. (cm_chunk_record m, r) \<in> prs \<longrightarrow> cm_chunk_record m + cr_size r \<le> a \<or> b \<le> cm_chunk_record m"
  shows "stored tb' k = stored tb k"
proof -
  let ?q = "cm_chunk_record m"
  obtain r where r: "(?q, r) \<in> prs" "stored tb k = Some (m, mem_range (tb_data tb) (?q + kRecordSize) (?q + cr_size r))"
    using stored_indexed [OF assms(1-3,5)] by blast
  have ok: "rec_ok r" "tb_headers tb ?q = Some r" "?q + cr_size r \<le> tb_size tb" using assms(1,3) r(1) by (auto simp: chained_def)
  have side: "?q + cr_size r \<le> a \<or> b \<le> ?q" using apart r(1) by blast
  then have "?q + kRecordSize \<le> a \<or> b \<le> ?q" using ok(1) by (auto simp: rec_ok_def)
  then have "tb_headers tb' ?q = Some r" using untouchedD(3) [OF u] ok(2) by simp
  moreover have "?q + kRecordSize \<le> tb_size tb'" using ok untouchedD(1) [OF u] by (simp add: rec_ok_def)
  ultimately have h: "GetChunkRecordAt ?q tb' = Some r" by (rule header_size)
  have "mem_range (tb_data tb') (?q + kRecordSize) (?q + cr_size r) = mem_range (tb_data tb) (?q + kRecordSize) (?q + cr_size r)"
    by (rule untouched_range [OF u]) (use side ok(3) assms(4) in auto)
  with assms(6) h r(2) show ?thesis by (simp add: stored_def)
qed

subsection \<open>Making room\<close>

lemma layout_dvd: "layout tb ls rs \<Longrightarrow> kRecordSize dvd tb_wptr tb"
proof -
  assume l: "layout tb ls rs"
  then have "\<forall>r \<in> set (ls @ rs). rec_ok r" using chained_recs unfolding layout_def by blast
  then have "kRecordSize dvd extent ls" by (intro extent_dvd) simp
  with l show ?thesis by (simp add: layout_def)
qed

lemma room_for_record:
  assumes "kRecordSize dvd tb_size tb" and "kRecordSize dvd p" and "p < tb_size tb"
  shows "p + kRecordSize \<le> tb_size tb"
proof -
  have "kRecordSize dvd tb_size tb - p" using assms by (simp add: dvd_diff_nat)
  moreover have "0 < tb_size tb - p" using assms(3) by simp
  ultimately have "kRecordSize \<le> tb_size tb - p" by (rule dvd_imp_le)
  with assms(3) show ?thesis by simp
qed

lemma blank_header:
  assumes "blank_from p tb" and "p + kRecordSize \<le> tb_size tb" and "length (tb_data tb) = tb_size tb"
  shows "GetChunkRecordAt p tb = Some (make_ChunkRecord 0)"
proof -
  have "tb_headers tb p = None" using assms(1,2) by (simp add: blank_from_def kRecordSize_def)
  moreover have "list_all (\<lambda>b. b = 0) (mem_range (tb_data tb) p (p + kRecordSize))"
    using assms by (auto simp: list_all_length length_mem_range nth_mem_range blank_from_def)
  ultimately show ?thesis using assms(2) by (simp add: GetChunkRecordAt_def)
qed

lemma delete_scan_blank:
  assumes "layout tb ls rs" and "blank_from (tb_wptr tb) tb" and "sizes_ok tb" and "sc_ptr sc = tb_wptr tb" and "sc_ptr sc < search_end"
  shows "delete_scan tb search_end sc = Scan_untouched"
proof -
  have "tb_wptr tb + kRecordSize \<le> tb_size tb"
    by (rule room_for_record) (use layout_dvd [OF assms(1)] assms(3) in \<open>simp_all add: sizes_ok_def\<close>)
  then have "GetChunkRecordAt (sc_ptr sc) tb = Some (make_ChunkRecord 0)"
    using blank_header [OF assms(2)] assms(3,4) by (simp add: sizes_ok_def)
  then have "delete_turn tb sc = Scan_untouched" by (simp add: delete_turn_def make_ChunkRecord_def)
  then show ?thesis using assms(5) by (subst delete_scan.simps) simp
qed

lemma last_place:
  "ds \<noteq> [] \<Longrightarrow> \<forall>(q, r) \<in> set (places p ds). q < e \<Longrightarrow> \<forall>r \<in> set ds. cr_size r \<le> n \<Longrightarrow> p + extent ds < e + n"
proof (induction ds arbitrary: p)
  case (Cons r ds)
  then show ?case by (cases ds) force+
qed simp

lemma DeleteNextChunksFor_layout:
  assumes l: "layout tb ls rs" and i: "indexed tb (set (places 0 (ls @ rs)))" and ok: "sizes_ok tb" "\<not> tb_discard_writes tb"
    and b: "0 < b" "tb_wptr tb + b \<le> tb_size tb"
  obtains (refused) "tb_policy tb = kDiscard" "DeleteNextChunksFor b tb = Some (None, tb)"
  | (blank) "rs = []" "blank_from (tb_wptr tb) tb" "DeleteNextChunksFor b tb = Some (Some 0, tb)"
  | (cleared) ds rs' ix st where "rs = ds @ rs'" "tb_wptr tb + extent rs = tb_size tb" "b \<le> extent ds" "extent ds - b < kMaxRecordSize"
      "DeleteNextChunksFor b tb = Some (Some (extent ds - b), tb\<lparr>tb_index := ix, tb_stats := st\<rparr>)"
      "\<And>k. ix_find k ix = (if k \<in> Key ` {r \<in> set ds. \<not> cr_is_padding r} then None else ix_find k (tb_index tb))"
      "distinct (map fst ix)" "\<forall>(q, r) \<in> set (places (tb_wptr tb) ds). q < tb_wptr tb + b"
      "tb_policy tb = kDiscard \<longrightarrow> (\<forall>r \<in> set ds. \<not> unread_chunk tb r)"
proof -
  let ?e = "tb_wptr tb + b"
  define sc where "sc = \<lparr>sc_ptr = tb_wptr tb, sc_index_delete = [], sc_chunks_overwritten = bs_chunks_overwritten (tb_stats tb),
    sc_bytes_overwritten = bs_bytes_overwritten (tb_stats tb), sc_padding_bytes_cleared = bs_padding_bytes_cleared (tb_stats tb)\<rparr>"
  have sc: "sc_ptr sc = tb_wptr tb" "sc_index_delete sc = []" by (simp_all add: sc_def)
  show thesis
  proof (cases "tb_wptr tb + extent rs = tb_size tb")
    case False
    then have bl: "rs = []" "blank_from (tb_wptr tb) tb" using l by (auto simp: layout_def)
    have "delete_scan tb ?e sc = Scan_untouched" using delete_scan_blank [OF l bl(2) ok(1) sc(1)] b sc(1) by simp
    then have "DeleteNextChunksFor b tb = Some (Some 0, tb)" using ok(2) by (simp add: DeleteNextChunksFor_def sc_def)
    with bl show thesis by (rule blank)
  next
    case True
    have ch: "chained tb (set (places (sc_ptr sc) rs))" using l sc(1) by (auto simp: layout_def chained_def places_append)
    have "\<forall>r \<in> set rs. \<not> cr_is_padding r \<longrightarrow> ix_find (Key r) (tb_index tb) \<noteq> None"
    proof (intro ballI impI)
      fix r assume "r \<in> set rs" "\<not> cr_is_padding r"
      then obtain q where "(q, r) \<in> set (places 0 (ls @ rs))" using placed [of r "ls @ rs" 0] by auto
      with i \<open>\<not> cr_is_padding r\<close> show "ix_find (Key r) (tb_index tb) \<noteq> None" unfolding indexed_def by blast
    qed
    from delete_scan_chain [OF ch _ b(2) this] True sc consider
        "tb_policy tb = kDiscard" "delete_scan tb ?e sc = Scan_refused"
      | ds rs' sc' where "rs = ds @ rs'" "delete_scan tb ?e sc = Scan_done sc'" "sc_ptr sc' = tb_wptr tb + extent ds" "?e \<le> sc_ptr sc'"
          "\<forall>(q, r) \<in> set (places (tb_wptr tb) ds). q < ?e" "sc_index_delete sc' = map Key (filter (\<lambda>r. \<not> cr_is_padding r) ds)"
          "tb_policy tb = kDiscard \<longrightarrow> (\<forall>r \<in> set ds. \<not> unread_chunk tb r)"
      by auto
    then show thesis
    proof cases
      case 1
      then have "DeleteNextChunksFor b tb = Some (None, tb)" using ok(2) by (simp add: DeleteNextChunksFor_def sc_def)
      with 1(1) show thesis by (rule refused)
    next
      case 2
      have "ds \<noteq> []" using 2(3,4) b(1) by auto
      moreover have "\<forall>r \<in> set ds. cr_size r \<le> kMaxRecordSize"
        using chained_recs [OF ch] 2(1) by (auto simp: rec_ok_def)
      ultimately have "extent ds - b < kMaxRecordSize" using last_place [OF _ 2(5)] 2(3,4) by fastforce
      moreover have "DeleteNextChunksFor b tb = Some (Some (extent ds - b), tb\<lparr>tb_index := fold ix_erase (sc_index_delete sc') (tb_index tb),
          tb_stats := (tb_stats tb)\<lparr>bs_chunks_overwritten := sc_chunks_overwritten sc', bs_bytes_overwritten := sc_bytes_overwritten sc',
            bs_padding_bytes_cleared := sc_padding_bytes_cleared sc'\<rparr>\<rparr>)"
        using ok(2) 2(2,3) by (simp add: DeleteNextChunksFor_def sc_def)
      moreover have "distinct (map fst (fold ix_erase (sc_index_delete sc') (tb_index tb)))"
        using i by (intro distinct_erases) (simp add: indexed_def)
      moreover have "ix_find k (fold ix_erase (sc_index_delete sc') (tb_index tb)) =
          (if k \<in> Key ` {r \<in> set ds. \<not> cr_is_padding r} then None else ix_find k (tb_index tb))" for k
        using 2(6) by (simp add: ix_find_erases)
      ultimately show thesis using 2(1,3,4,5,7) True by (intro cleared [of ds rs']) auto
    qed
  qed
qed

subsection \<open>A new chunk\<close>

lemma indexed_erase:
  assumes i: "indexed tb (A \<union> D)" and apart: "\<forall>(q, x) \<in> A. \<forall>(q', y) \<in> D. q \<noteq> q'" and ix: "distinct (map fst (tb_index tb'))"
      "\<And>k. ix_find k (tb_index tb') = (if k \<in> Key ` {y \<in> snd ` D. \<not> cr_is_padding y} then None else ix_find k (tb_index tb))"
  shows "indexed tb' A"
proof -
  have "\<exists>n. ix_find (Key x) (tb_index tb') = Some n \<and> cm_chunk_record n = q"
    if x: "(q, x) \<in> A" "\<not> cr_is_padding x" for q x
  proof -
    obtain n where n: "ix_find (Key x) (tb_index tb) = Some n" "cm_chunk_record n = q" using i x unfolding indexed_def by blast
    have "Key x \<notin> Key ` {y \<in> snd ` D. \<not> cr_is_padding y}"
    proof
      assume "Key x \<in> Key ` {y \<in> snd ` D. \<not> cr_is_padding y}"
      then obtain q' y where y: "(q', y) \<in> D" "\<not> cr_is_padding y" "Key y = Key x" by force
      then obtain n' where "ix_find (Key y) (tb_index tb) = Some n'" "cm_chunk_record n' = q'"
        using i unfolding indexed_def by blast
      then have "q' = q" using n y(3) by simp
      with apart x(1) y(1) show False by blast
    qed
    with n show ?thesis by (simp add: ix(2))
  qed
  moreover have "\<exists>q x. (q, x) \<in> A \<and> Key x = k \<and> meta_of q x n" if n: "ix_find k (tb_index tb') = Some n" for k n
  proof -
    have n': "k \<notin> Key ` {y \<in> snd ` D. \<not> cr_is_padding y}" "ix_find k (tb_index tb) = Some n"
      using n by (simp_all add: ix(2) split: if_splits)
    then obtain q x where x: "(q, x) \<in> A \<union> D" "Key x = k" "meta_of q x n" using i unfolding indexed_def by blast
    then have "(q, x) \<notin> D" using n'(1) by (force simp: meta_of_def)
    with x show ?thesis by blast
  qed
  ultimately show ?thesis using ix(1) unfolding indexed_def by blast
qed

lemma indexed_add:
  assumes i: "indexed tb A" and new: "ix_find (Key r) (tb_index tb) = None" "tb_index tb' = ix_emplace (Key r) m (tb_index tb)" "meta_of p r m"
    and pads: "\<forall>(q, x) \<in> P. cr_is_padding x"
  shows "indexed tb' (insert (p, r) (A \<union> P))"
proof -
  have d: "distinct (map fst (tb_index tb))" using i by (simp add: indexed_def)
  note find = ix_find_emplace [OF d new(1), where m = m, folded new(2)]
  have "\<exists>n. ix_find (Key x) (tb_index tb') = Some n \<and> cm_chunk_record n = q" if x: "(q, x) \<in> insert (p, r) (A \<union> P)" "\<not> cr_is_padding x" for q x
  proof (cases "(q, x) = (p, r)")
    case True
    with new(3) show ?thesis by (simp add: find meta_of_def)
  next
    case False
    with x pads have "(q, x) \<in> A" by blast
    then obtain n where "ix_find (Key x) (tb_index tb) = Some n" "cm_chunk_record n = q" using i x unfolding indexed_def by blast
    with new(1) show ?thesis by (auto simp: find)
  qed
  moreover have "\<exists>q x. (q, x) \<in> insert (p, r) (A \<union> P) \<and> Key x = k \<and> meta_of q x n" if n: "ix_find k (tb_index tb') = Some n" for k n
  proof (cases "k = Key r")
    case True
    with n new(3) show ?thesis by (auto simp: find)
  next
    case False
    with n have "ix_find k (tb_index tb) = Some n" by (simp add: find)
    with i show ?thesis unfolding indexed_def by blast
  qed
  moreover have "distinct (map fst (tb_index tb'))" using distinct_emplace [OF d] new(2) by simp
  ultimately show ?thesis unfolding indexed_def by blast
qed

lemma indexed_replace:
  assumes i: "indexed tb (A \<union> D)" and apart: "\<forall>(q, x) \<in> A. \<forall>(q', y) \<in> D. q \<noteq> q'" and ix: "distinct (map fst ix)"
      "\<And>k. ix_find k ix = (if k \<in> Key ` {y \<in> snd ` D. \<not> cr_is_padding y} then None else ix_find k (tb_index tb))"
    and new: "ix_find (Key r) (tb_index tb) = None" "tb_index tb' = ix_emplace (Key r) m ix" "meta_of p r m"
    and pads: "\<forall>(q, x) \<in> P. cr_is_padding x"
  shows "indexed tb' (insert (p, r) (A \<union> P))"
proof (rule indexed_add)
  show "indexed (tb\<lparr>tb_index := ix\<rparr>) A" by (rule indexed_erase [OF i apart]) (simp_all add: ix)
  show "ix_find (Key r) (tb_index (tb\<lparr>tb_index := ix\<rparr>)) = None" using ix(2) new(1) by simp
qed (use new pads in simp_all)

lemma indexed_pads:
  assumes i: "indexed tb A" and eq: "tb_index tb' = tb_index tb" and "\<forall>(q, x) \<in> P. cr_is_padding x"
  shows "indexed tb' (A \<union> P)"
  using assms(1,3) unfolding indexed_def eq by blast

lemma layout_wrap:
  assumes "chained tb (set (places 0 (ls @ mid)))" and "tb_wptr tb = (if tb_size tb \<le> extent ls then 0 else extent ls)"
    and "extent ls + extent mid = tb_size tb \<or> (mid = [] \<and> blank_from (extent ls) tb \<and> extent ls \<le> tb_size tb)"
  shows "\<exists>ls' rs'. layout tb ls' rs' \<and> ls' @ rs' = ls @ mid"
proof (cases "tb_size tb \<le> extent ls")
  case True
  have "mid = []"
  proof (cases mid)
    case (Cons r rs)
    then have "rec_ok r" using chained_recs [OF assms(1)] by simp
    with True Cons assms(3) show ?thesis by (auto dest: rec_ok_pos)
  qed
  with True assms have "layout tb [] ls" by (auto simp: layout_def)
  with \<open>mid = []\<close> show ?thesis by (intro exI [of _ "[]"] exI [of _ ls]) simp
next
  case False
  with assms have "layout tb ls mid" by (auto simp: layout_def)
  then show ?thesis by blast
qed

text \<open>The chunks whose records start between two places.\<close>

definition starts_in :: "nat \<Rightarrow> nat \<Rightarrow> TraceBuffer \<Rightarrow> chunk_key \<Rightarrow> bool" where
  "starts_in a b tb k \<longleftrightarrow> (case ix_find k (tb_index tb) of None \<Rightarrow> False | Some m \<Rightarrow> a \<le> cm_chunk_record m \<and> cm_chunk_record m < b)"

definition unread :: "TraceBuffer \<Rightarrow> chunk_key \<Rightarrow> bool" where
  "unread tb k \<longleftrightarrow> (case ix_find k (tb_index tb) of None \<Rightarrow> False | Some m \<Rightarrow> cm_num_fragments_read m < cm_num_fragments m)"

lemma erased_keys:
  assumes l: "layout tb ls (ds @ rs')" and i: "indexed tb (set (places 0 (ls @ ds @ rs')))"
    and ds: "\<forall>(q, r) \<in> set (places (tb_wptr tb) ds). q < e" and e: "e \<le> tb_wptr tb + extent ds \<or> rs' = []"
  shows "k \<in> Key ` {r \<in> set ds. \<not> cr_is_padding r} \<longleftrightarrow> starts_in (tb_wptr tb) e tb k"
proof
  have w: "extent ls = tb_wptr tb" using l by (simp add: layout_def)
  have p: "places 0 (ls @ ds @ rs') = places 0 ls @ places (tb_wptr tb) ds @ places (tb_wptr tb + extent ds) rs'"
    by (simp add: places_append w)
  {
    assume "k \<in> Key ` {r \<in> set ds. \<not> cr_is_padding r}"
    then obtain r where r: "r \<in> set ds" "\<not> cr_is_padding r" "k = Key r" by blast
    then obtain q where q: "(q, r) \<in> set (places (tb_wptr tb) ds)" using placed by blast
    then have "(q, r) \<in> set (places 0 (ls @ ds @ rs'))" by (simp add: p)
    then obtain m where "ix_find k (tb_index tb) = Some m" "cm_chunk_record m = q" using i r(2,3) unfolding indexed_def by blast
    then show "starts_in (tb_wptr tb) e tb k" using q ds places_bounds [OF q] by (auto simp: starts_in_def)
  next
    assume "starts_in (tb_wptr tb) e tb k"
    then obtain m where m: "ix_find k (tb_index tb) = Some m" "tb_wptr tb \<le> cm_chunk_record m" "cm_chunk_record m < e"
      by (auto simp: starts_in_def split: option.splits)
    then obtain q r where "(q, r) \<in> set (places 0 (ls @ ds @ rs'))" "Key r = k" "meta_of q r m" using i unfolding indexed_def by blast
    then have r: "(cm_chunk_record m, r) \<in> set (places 0 (ls @ ds @ rs'))" "Key r = k" "\<not> cr_is_padding r" by (auto simp: meta_of_def)
    then have "rec_ok r" using l by (auto simp: layout_def chained_def)
    then have "(cm_chunk_record m, r) \<notin> set (places 0 ls)" using places_bounds [of "cm_chunk_record m" r 0 ls] m(2) w by (auto dest: rec_ok_pos)
    moreover have "(cm_chunk_record m, r) \<notin> set (places (tb_wptr tb + extent ds) rs')"
      using places_bounds [of "cm_chunk_record m" r "tb_wptr tb + extent ds" rs'] m(3) e by auto
    ultimately have "(cm_chunk_record m, r) \<in> set (places (tb_wptr tb) ds)" using r(1) by (simp add: p)
    then have "r \<in> set ds" using snd_places [of "tb_wptr tb" ds] by (metis image_eqI list.set_map snd_conv)
    with r show "k \<in> Key ` {r \<in> set ds. \<not> cr_is_padding r}" by blast
  }
qed

text \<open>The common end of all insertions: the buffer after the record, and perhaps padding, was written.\<close>

definition inserted :: "nat \<Rightarrow> ChunkRecord \<Rightarrow> ChunkMeta \<Rightarrow> u8 list \<Rightarrow> TraceBuffer \<Rightarrow> TraceBuffer \<Rightarrow> bool" where
  "inserted p r m bs tb tb' \<longleftrightarrow> tb_inv tb' \<and> tb_policy tb' = tb_policy tb \<and> tb_discard_writes tb' = tb_discard_writes tb \<and>
     stored tb' (Key r) = Some (m, bs) \<and>
     (\<forall>k. k \<noteq> Key r \<longrightarrow> stored tb' k = (if starts_in p (p + cr_size r) tb k then None else stored tb k))"

lemma insertedD:
  assumes "inserted p r m bs tb tb'"
  shows "tb_inv tb'" "tb_policy tb' = tb_policy tb" "tb_discard_writes tb' = tb_discard_writes tb" "stored tb' (Key r) = Some (m, bs)"
    "k \<noteq> Key r \<Longrightarrow> stored tb' k = (if starts_in p (p + cr_size r) tb k then None else stored tb k)"
  using assms unfolding inserted_def by blast+

text \<open>Behind the new record come the padding and the old records, or nothing was ever written there.\<close>

lemma inserted_wrap:
  assumes ch: "chained tb' (set (places 0 (ls @ r # pads @ rs')))" and u: "untouched (tb_wptr tb) b tb tb'" and ok: "sizes_ok tb"
    and w: "extent ls = tb_wptr tb" and b: "b = tb_wptr tb + cr_size r + extent pads" "b = tb_wptr tb + extent ds \<or> (ds = [] \<and> rs' = [])" "b \<le> tb_size tb"
    and w': "tb_wptr tb' = (if tb_size tb \<le> tb_wptr tb + cr_size r then 0 else tb_wptr tb + cr_size r)"
    and full: "tb_wptr tb + extent (ds @ rs') = tb_size tb \<or> (pads = [] \<and> rs' = [] \<and> ds = [] \<and> blank_from (tb_wptr tb) tb)"
  shows "\<exists>ls' rs''. layout tb' ls' rs'' \<and> ls' @ rs'' = (ls @ [r]) @ (pads @ rs')"
proof (rule layout_wrap)
  let ?w = "tb_wptr tb"
  note size = untouchedD(1,2) [OF u]
  show "chained tb' (set (places 0 ((ls @ [r]) @ pads @ rs')))" using ch by simp
  show "tb_wptr tb' = (if tb_size tb' \<le> extent (ls @ [r]) then 0 else extent (ls @ [r]))" using w' size(1) w by simp
  show "extent (ls @ [r]) + extent (pads @ rs') = tb_size tb' \<or>
    (pads @ rs' = [] \<and> blank_from (extent (ls @ [r])) tb' \<and> extent (ls @ [r]) \<le> tb_size tb')"
  proof (cases "?w + extent (ds @ rs') = tb_size tb")
    case True
    have "extent (ls @ [r]) + extent (pads @ rs') = b + extent rs'" by (simp add: w b(1))
    also have "\<dots> = tb_size tb" if "b = ?w + extent ds" using True that by simp
    finally show ?thesis using b(2,3) True ok size w by (auto simp: sizes_ok_def)
  next
    case False
    with full have e: "pads = []" "rs' = []" "blank_from ?w tb" by auto
    have "blank_from (?w + cr_size r) tb'"
      unfolding blank_from_def
    proof (intro allI impI)
      fix p assume "?w + cr_size r \<le> p \<and> p < tb_size tb'"
      then have "b \<le> p" "?w \<le> p" "p < tb_size tb" using b(1) e(1) size(1) by auto
      then show "tb_headers tb' p = None \<and> tb_data tb' ! p = 0"
        using untouchedD(3,4) [OF u, of p] e(3) ok by (simp add: blank_from_def sizes_ok_def)
    qed
    then show ?thesis using e b size(1) w by simp
  qed
qed

text \<open>A chunk whose record does not start in the place of the new one keeps its bytes.\<close>

lemma inserted_kept:
  assumes l: "layout tb ls (ds @ rs')" and i: "indexed tb (set (places 0 (ls @ ds @ rs')))" and ok: "sizes_ok tb"
    and ds: "\<forall>(q, x) \<in> set (places (tb_wptr tb) ds). q < tb_wptr tb + n"
    and b: "b = tb_wptr tb + extent ds \<or> (ds = [] \<and> rs' = [])" and u: "untouched (tb_wptr tb) b tb tb'"
    and live: "\<not> starts_in (tb_wptr tb) (tb_wptr tb + n) tb k" and same: "ix_find k (tb_index tb') = ix_find k (tb_index tb)"
  shows "stored tb' k = stored tb k"
proof (cases "ix_find k (tb_index tb)")
  case None
  then show ?thesis using same by (simp add: stored_def)
next
  case (Some m)
  let ?P = "set (places 0 (ls @ ds @ rs'))"
  have w: "extent ls = tb_wptr tb" and ch: "chained tb ?P" using l by (simp_all add: layout_def)
  have "extent (ls @ ds @ rs') \<le> tb_size tb" using l ok by (auto simp: layout_def sizes_ok_def)
  then have in_buf: "\<forall>(q, x) \<in> ?P. q + cr_size x \<le> tb_size tb" using places_bounds [of _ _ 0 "ls @ ds @ rs'"] by fastforce
  show ?thesis
  proof (rule stored_frame [OF ch i in_buf _ Some _ u])
    show "length (tb_data tb) = tb_size tb" using ok by (simp add: sizes_ok_def)
    show "ix_find k (tb_index tb') = Some m" using same Some by simp
    show "\<forall>x. (cm_chunk_record m, x) \<in> ?P \<longrightarrow> cm_chunk_record m + cr_size x \<le> tb_wptr tb \<or> b \<le> cm_chunk_record m"
    proof (intro allI impI)
      fix x assume x: "(cm_chunk_record m, x) \<in> ?P"
      have "(cm_chunk_record m, x) \<notin> set (places (tb_wptr tb) ds)"
        using live Some ds places_bounds [of "cm_chunk_record m" x "tb_wptr tb" ds] by (auto simp: starts_in_def)
      then consider "(cm_chunk_record m, x) \<in> set (places 0 ls)" | "(cm_chunk_record m, x) \<in> set (places (tb_wptr tb + extent ds) rs')"
        using x by (auto simp: places_append w)
      then show "cm_chunk_record m + cr_size x \<le> tb_wptr tb \<or> b \<le> cm_chunk_record m"
        by cases (use places_bounds w b in \<open>fastforce+\<close>)
    qed
  qed
qed

lemma inserted_layout:
  assumes l: "layout tb ls (ds @ rs')" and i: "indexed tb (set (places 0 (ls @ ds @ rs')))" and ok: "sizes_ok tb"
    and ds: "\<forall>(q, x) \<in> set (places (tb_wptr tb) ds). q < tb_wptr tb + cr_size r"
    and b: "b = tb_wptr tb + cr_size r + extent pads" "b = tb_wptr tb + extent ds \<or> (ds = [] \<and> rs' = [])" "b \<le> tb_size tb"
    and pads: "\<forall>x \<in> set pads. cr_is_padding x" and ix: "distinct (map fst ix)"
      "\<And>k. ix_find k ix = (if k \<in> Key ` {y \<in> set ds. \<not> cr_is_padding y} then None else ix_find k (tb_index tb))"
    and new: "ix_find (Key r) (tb_index tb) = None" "tb_index tb' = ix_emplace (Key r) m ix" "meta_of (tb_wptr tb) r m"
    and ch: "chained tb' (set (places 0 (ls @ r # pads @ rs')))" and u: "untouched (tb_wptr tb) b tb tb'"
    and bs: "mem_range (tb_data tb') (tb_wptr tb + kRecordSize) (tb_wptr tb + cr_size r) = bs"
    and w': "tb_wptr tb' = (if tb_size tb \<le> tb_wptr tb + cr_size r then 0 else tb_wptr tb + cr_size r)"
    and fields: "tb_max_chunk_size tb' = tb_max_chunk_size tb" "tb_policy tb' = tb_policy tb" "tb_discard_writes tb' = tb_discard_writes tb"
    and full: "tb_wptr tb + extent (ds @ rs') = tb_size tb \<or> (pads = [] \<and> rs' = [] \<and> ds = [] \<and> blank_from (tb_wptr tb) tb)"
  shows "inserted (tb_wptr tb) r m bs tb tb'"
proof -
  let ?w = "tb_wptr tb"
  have w: "extent ls = ?w" using l by (simp add: layout_def)
  note size = untouchedD(1,2) [OF u]
  define A where "A = set (places 0 ls) \<union> set (places b rs')"
  define D where "D = set (places ?w ds)"
  have old: "set (places 0 (ls @ ds @ rs')) = A \<union> D" using b(2) by (auto simp: A_def D_def places_append w)
  have now: "set (places 0 (ls @ r # pads @ rs')) = insert (?w, r) (A \<union> set (places (?w + cr_size r) pads))"
    by (auto simp: A_def places_append w b(1))
  have ok_r: "rec_ok r" "tb_headers tb' ?w = Some r" using ch unfolding now by (auto simp: chained_def)
  have chA: "chained tb A" "chained tb D" using l unfolding layout_def old by (auto simp: chained_def)
  have side: "q + cr_size x \<le> ?w \<or> b \<le> q" if "(q, x) \<in> A" for q x
    using that places_bounds [of q x 0 ls] places_bounds [of q x b rs'] w by (auto simp: A_def)
  have snd_D: "snd ` D = set ds" using snd_places [of ?w ds] by (simp add: D_def flip: set_map)
  have idx: "indexed tb' (insert (?w, r) (A \<union> set (places (?w + cr_size r) pads)))"
  proof (rule indexed_replace [OF i [unfolded old] _ ix(1) _ new])
    show "\<forall>(q, x) \<in> A. \<forall>(q', y) \<in> D. q \<noteq> q'"
    proof (intro ballI, clarify)
      fix q x q' y assume "(q, x) \<in> A" "(q, y) \<in> D"
      moreover from this have "0 < cr_size x" "0 < cr_size y" using chA by (auto simp: chained_def dest: rec_ok_pos)
      ultimately show False using side [of q x] places_bounds [of q y ?w ds] b(2) by (auto simp: D_def)
    qed
    show "\<forall>(q, x) \<in> set (places (?w + cr_size r) pads). cr_is_padding x"
      using pads snd_places [of "?w + cr_size r" pads] by (metis (no_types, lifting) case_prodI2 image_eqI list.set_map snd_conv)
    show "ix_find k ix = (if k \<in> Key ` {y \<in> snd ` D. \<not> cr_is_padding y} then None else ix_find k (tb_index tb))" for k
      unfolding snd_D by (rule ix(2))
  qed
  have "\<exists>ls' rs''. layout tb' ls' rs'' \<and> ls' @ rs'' = (ls @ [r]) @ (pads @ rs')" by (rule inserted_wrap [OF ch u ok w b w' full])
  then obtain ls' rs'' where lay: "layout tb' ls' rs''" "ls' @ rs'' = ls @ r # pads @ rs'" by auto
  have "sizes_ok tb'" using ok size fields(1) w' by (auto simp: sizes_ok_def)
  then have inv: "tb_inv tb'" unfolding tb_inv_def using lay idx now by metis
  have "ix_find (Key r) ix = None" using ix(2) new(1) by simp
  note find = ix_find_emplace [OF ix(1) this, where m = m, folded new(2)]
  have "?w + kRecordSize \<le> tb_size tb'" using b(1,3) ok_r(1) size(1) by (simp add: rec_ok_def)
  then have "GetChunkRecordAt ?w tb' = Some r" by (rule header_size [OF ok_r(2)])
  then have "stored tb' (Key r) = Some (m, bs)" using new(3) bs by (simp add: stored_def find meta_of_def)
  moreover have "stored tb' k = (if starts_in ?w (?w + cr_size r) tb k then None else stored tb k)" if k: "k \<noteq> Key r" for k
  proof -
    have erased: "k \<in> Key ` {y \<in> set ds. \<not> cr_is_padding y} \<longleftrightarrow> starts_in ?w (?w + cr_size r) tb k"
      by (rule erased_keys [OF l i ds]) (use b in auto)
    show ?thesis
    proof (cases "starts_in ?w (?w + cr_size r) tb k")
      case True
      then show ?thesis using k ix(2) erased by (simp add: stored_def find)
    next
      case False
      then have same: "ix_find k (tb_index tb') = ix_find k (tb_index tb)" using k ix(2) erased by (simp add: find)
      then have "stored tb' k = stored tb k" by (intro inserted_kept [OF l i ok ds b(2) u False])
      with False show ?thesis by simp
    qed
  qed
  ultimately show ?thesis using inv fields(2,3) unfolding inserted_def by blast
qed

lemma advance_fields [simp]:
  "tb_data (advance_wptr n tb) = tb_data tb" "tb_headers (advance_wptr n tb) = tb_headers tb" "tb_size (advance_wptr n tb) = tb_size tb"
  "tb_index (advance_wptr n tb) = tb_index tb" "tb_policy (advance_wptr n tb) = tb_policy tb"
  "tb_max_chunk_size (advance_wptr n tb) = tb_max_chunk_size tb" "tb_discard_writes (advance_wptr n tb) = tb_discard_writes tb"
  "tb_wptr (advance_wptr n tb) = (if tb_size tb \<le> tb_wptr tb + n then 0 else tb_wptr tb + n)"
  by (simp_all add: advance_wptr_def)

lemma last_id_fields [simp]:
  "tb_data (update_last_chunk_id p w c tb) = tb_data tb" "tb_headers (update_last_chunk_id p w c tb) = tb_headers tb"
  "tb_size (update_last_chunk_id p w c tb) = tb_size tb" "tb_index (update_last_chunk_id p w c tb) = tb_index tb"
  "tb_policy (update_last_chunk_id p w c tb) = tb_policy tb" "tb_wptr (update_last_chunk_id p w c tb) = tb_wptr tb"
  "tb_max_chunk_size (update_last_chunk_id p w c tb) = tb_max_chunk_size tb"
  "tb_discard_writes (update_last_chunk_id p w c tb) = tb_discard_writes tb"
  by (simp_all add: update_last_chunk_id_def Let_def)

lemma AddPaddingRecord_wrote:
  assumes "n \<le> size_to_end tb" and "length (tb_data tb) = tb_size tb" and "kRecordSize \<le> n" and "n \<le> kMaxRecordSize" and "tb_wptr tb \<le> tb_size tb"
  shows "\<exists>tb'. AddPaddingRecord n tb = Some (upd_stats (\<lambda>s. s\<lparr>bs_padding_bytes_written := bs_padding_bytes_written s + word_of_nat n\<rparr>) tb') \<and>
    wrote (tb_wptr tb) (make_ChunkRecord n\<lparr>cr_is_padding := True\<rparr>) None tb tb'"
proof -
  let ?r = "make_ChunkRecord n\<lparr>cr_is_padding := True\<rparr>"
  have size: "cr_size ?r = n" using assms(4) by (simp add: make_ChunkRecord_def kMaxRecordSize_def)
  have "\<exists>tb'. WriteChunkRecord (tb_wptr tb) ?r None (n - kRecordSize) tb = Some tb' \<and> wrote (tb_wptr tb) ?r None tb tb'"
    using WriteChunkRecord_wrote [of ?r tb "tb_wptr tb" "n - kRecordSize" None] size assms by (simp add: size_to_end_def)
  then show ?thesis by (auto simp: AddPaddingRecord_def)
qed

lemma padding_ok: "kRecordSize \<le> n \<Longrightarrow> kRecordSize dvd n \<Longrightarrow> n \<le> kMaxRecordSize \<Longrightarrow>
    rec_ok (make_ChunkRecord n\<lparr>cr_is_padding := True\<rparr>) \<and> cr_size (make_ChunkRecord n\<lparr>cr_is_padding := True\<rparr>) = n"
  by (simp add: rec_ok_def make_ChunkRecord_def kMaxRecordSize_def)

text \<open>The record itself, written at the write pointer of a buffer whose way is free.\<close>

definition after_record :: "ChunkRecord \<Rightarrow> u8 \<Rightarrow> u32 \<Rightarrow> bool \<Rightarrow> memory \<Rightarrow> TraceBuffer \<Rightarrow> TraceBuffer option" where
  "after_record r chunk_flags uid chunk_complete src tb =
     (let tb1 = upd_stats (\<lambda>s. s\<lparr>bs_chunks_written := bs_chunks_written s + 1,
                                bs_bytes_written := bs_bytes_written s + word_of_nat (cr_size r)\<rparr>)
            (tb\<lparr>tb_index := ix_emplace (Key r) (make_ChunkMeta (tb_wptr tb) (cr_num_fragments r) chunk_complete chunk_flags uid)
                  (tb_index tb)\<rparr>)
      in map_option (\<lambda>tb2. update_last_chunk_id (cr_producer_id r) (cr_writer_id r) (cr_chunk_id r) (advance_wptr (cr_size r) tb2))
           (WriteChunkRecord (tb_wptr tb1) r (Some src) (length src) tb1))"

lemma insert_chunk_record:
  "insert_chunk r f uid c src tb =
     (case DeleteNextChunksFor (cr_size r) tb of
        None \<Rightarrow> None
      | Some (None, tb) \<Rightarrow> Some (DiscardWrite tb)
      | Some (Some padding_size, tb) \<Rightarrow>
          (case after_record r f uid c src tb of
             None \<Rightarrow> None | Some tb3 \<Rightarrow> if padding_size \<noteq> 0 then AddPaddingRecord padding_size tb3 else Some tb3))"
  by (simp add: insert_chunk_def after_record_def Let_def split: option.splits prod.splits)

lemma after_record_wrote:
  assumes "sizes_ok tb" and "rec_ok r" and "cr_size r \<le> size_to_end tb" and "length src + kRecordSize \<le> cr_size r"
  shows "\<exists>tb3. after_record r f uid c src tb = Some tb3 \<and>
    untouched (tb_wptr tb) (tb_wptr tb + cr_size r) tb tb3 \<and> tb_headers tb3 (tb_wptr tb) = Some r \<and>
    mem_range (tb_data tb3) (tb_wptr tb + kRecordSize) (tb_wptr tb + cr_size r) =
      src @ replicate (cr_size r - kRecordSize - length src) 0 \<and>
    tb_index tb3 = ix_emplace (Key r) (make_ChunkMeta (tb_wptr tb) (cr_num_fragments r) c f uid) (tb_index tb) \<and>
    tb_wptr tb3 = (if tb_size tb \<le> tb_wptr tb + cr_size r then 0 else tb_wptr tb + cr_size r) \<and>
    tb_max_chunk_size tb3 = tb_max_chunk_size tb \<and> tb_policy tb3 = tb_policy tb \<and> tb_discard_writes tb3 = tb_discard_writes tb"
proof -
  let ?tb1 = "upd_stats (\<lambda>s. s\<lparr>bs_chunks_written := bs_chunks_written s + 1,
                                bs_bytes_written := bs_bytes_written s + word_of_nat (cr_size r)\<rparr>)
            (tb\<lparr>tb_index := ix_emplace (Key r) (make_ChunkMeta (tb_wptr tb) (cr_num_fragments r) c f uid) (tb_index tb)\<rparr>)"
  have "\<exists>tb2. WriteChunkRecord (tb_wptr tb) r (Some src) (length src) ?tb1 = Some tb2 \<and>
      wrote (tb_wptr tb) r (Some (src @ replicate (cr_size r - kRecordSize - length src) 0)) ?tb1 tb2"
    by (rule WriteChunkRecord_wrote [of r ?tb1 "tb_wptr tb" "length src" "Some src", unfolded option.map option.case])
      (use assms in \<open>auto simp: size_to_end_def sizes_ok_def\<close>)
  then obtain tb2 where w: "WriteChunkRecord (tb_wptr tb) r (Some src) (length src) ?tb1 = Some tb2"
    "wrote (tb_wptr tb) r (Some (src @ replicate (cr_size r - kRecordSize - length src) 0)) ?tb1 tb2" by blast
  let ?tb3 = "update_last_chunk_id (cr_producer_id r) (cr_writer_id r) (cr_chunk_id r) (advance_wptr (cr_size r) tb2)"
  have "after_record r f uid c src tb = Some ?tb3" using w(1) by (simp add: after_record_def Let_def)
  moreover have "untouched (tb_wptr tb) (tb_wptr tb + cr_size r) tb ?tb3"
    using wrote_untouched [OF w(2)] by (simp add: untouched_def)
  ultimately show ?thesis using wroteD(2,5) [OF w(2)] wrote_fields [OF w(2)] by simp
qed

lemma pad_kRecordSize: "kRecordSize dvd n \<Longrightarrow> n \<noteq> 0 \<Longrightarrow> kRecordSize \<le> n"
  by (rule dvd_imp_le) auto

definition new_meta :: "nat \<Rightarrow> ChunkRecord \<Rightarrow> bool \<Rightarrow> u8 \<Rightarrow> u32 \<Rightarrow> ChunkMeta" where
  "new_meta p r c f uid = make_ChunkMeta p (cr_num_fragments r) c f uid"

definition payload :: "ChunkRecord \<Rightarrow> memory \<Rightarrow> u8 list" where
  "payload r src = src @ replicate (cr_size r - kRecordSize - length src) 0"

lemma after_record_facts:
  assumes "sizes_ok tb" and "rec_ok r" and "cr_size r \<le> size_to_end tb" and "length src + kRecordSize \<le> cr_size r"
    and "after_record r f uid c src tb = Some tb3"
  shows "untouched (tb_wptr tb) (tb_wptr tb + cr_size r) tb tb3" "tb_headers tb3 (tb_wptr tb) = Some r"
    "mem_range (tb_data tb3) (tb_wptr tb + kRecordSize) (tb_wptr tb + cr_size r) = payload r src"
    "tb_index tb3 = ix_emplace (Key r) (new_meta (tb_wptr tb) r c f uid) (tb_index tb)"
    "tb_wptr tb3 = (if tb_size tb \<le> tb_wptr tb + cr_size r then 0 else tb_wptr tb + cr_size r)"
    "tb_max_chunk_size tb3 = tb_max_chunk_size tb" "tb_policy tb3 = tb_policy tb" "tb_discard_writes tb3 = tb_discard_writes tb"
  using after_record_wrote [OF assms(1-4), of f uid c] assms(5) by (simp_all add: payload_def new_meta_def)

lemma after_record_chained:
  assumes u: "untouched (tb_wptr tb) (tb_wptr tb + cr_size r) tb tb'" and h: "tb_headers tb' (tb_wptr tb) = Some r" and "rec_ok r"
    and l: "layout tb ls rs" and rs: "chained tb (set (places e rs'))" "tb_wptr tb + cr_size r \<le> e"
  shows "chained tb' (set (places 0 ls) \<union> {(tb_wptr tb, r)} \<union> set (places e rs'))"
proof -
  have ls: "chained tb (set (places 0 ls))" "extent ls = tb_wptr tb" using l by (auto simp: layout_def chained_def places_append)
  have "chained tb' (set (places 0 ls))"
    by (rule untouched_chained [OF u ls(1)]) (use places_bounds [of _ _ 0 ls] ls(2) in fastforce)
  moreover have "chained tb' (set (places e rs'))"
    by (rule untouched_chained [OF u rs(1)]) (use places_bounds [of _ _ e rs'] rs(2) in fastforce)
  ultimately show ?thesis using h assms(3) by (auto simp: chained_def)
qed

lemma insert_blank:
  assumes l: "layout tb ls []" and i: "indexed tb (set (places 0 ls))" and ok: "sizes_ok tb" "blank_from (tb_wptr tb) tb"
    and r: "rec_ok r" "\<not> cr_is_padding r" "cr_size r \<le> size_to_end tb" "length src + kRecordSize \<le> cr_size r"
      "cr_flags r = take_bit 6 f" and new: "ix_find (Key r) (tb_index tb) = None"
    and a: "after_record r f uid c src tb = Some tb'"
  shows "inserted (tb_wptr tb) r (new_meta (tb_wptr tb) r c f uid) (payload r src) tb tb'"
proof -
  note w = after_record_facts [OF ok(1) r(1,3,4) a]
  have b: "tb_wptr tb + cr_size r \<le> tb_size tb" using r(3) ok(1) by (auto simp: size_to_end_def sizes_ok_def)
  have "extent ls = tb_wptr tb" using l by (simp add: layout_def)
  then have ch: "chained tb' (set (places 0 (ls @ r # [] @ [])))"
    using after_record_chained [OF w(1,2) r(1) l, of "tb_wptr tb + cr_size r" "[]"] by (simp add: places_append chained_def)
  have m: "meta_of (tb_wptr tb) r (new_meta (tb_wptr tb) r c f uid)" using r(2,5) by (simp add: meta_of_def new_meta_def make_ChunkMeta_def)
  show ?thesis
    by (rule inserted_layout [where ds = "[]" and rs' = "[]" and pads = "[]" and ix = "tb_index tb", OF _ _ ok(1) _ _ _ b _ _ _ new w(4) m
          ch w(1,3,5-8)])
      (use l i ok(2) in \<open>simp_all add: indexed_def\<close>)
qed

lemma insert_cleared:
  assumes l: "layout tb ls (ds @ rs')" and i: "indexed tb (set (places 0 (ls @ ds @ rs')))" and ok: "sizes_ok tb"
    and full: "tb_wptr tb + extent (ds @ rs') = tb_size tb" and room: "cr_size r \<le> extent ds" "extent ds - cr_size r < kMaxRecordSize"
    and ds: "\<forall>(q, x) \<in> set (places (tb_wptr tb) ds). q < tb_wptr tb + cr_size r"
    and r: "rec_ok r" "\<not> cr_is_padding r" "length src + kRecordSize \<le> cr_size r" "cr_flags r = take_bit 6 f"
    and new: "ix_find (Key r) (tb_index tb) = None" and ix: "distinct (map fst ix)"
      "\<And>k. ix_find k ix = (if k \<in> Key ` {y \<in> set ds. \<not> cr_is_padding y} then None else ix_find k (tb_index tb))"
    and a: "after_record r f uid c src (tb\<lparr>tb_index := ix, tb_stats := st\<rparr>) = Some tb3"
  shows "\<exists>tb'. (if extent ds - cr_size r \<noteq> 0 then AddPaddingRecord (extent ds - cr_size r) tb3 else Some tb3) = Some tb' \<and>
    inserted (tb_wptr tb) r (new_meta (tb_wptr tb) r c f uid) (payload r src) tb tb'"
proof -
  let ?tb1 = "tb\<lparr>tb_index := ix, tb_stats := st\<rparr>" and ?w = "tb_wptr tb" and ?n = "extent ds - cr_size r"
  have ok1: "sizes_ok ?tb1" and fits: "cr_size r \<le> size_to_end ?tb1"
    using ok full room(1) by (auto simp: sizes_ok_def size_to_end_def)
  note w = after_record_facts [OF ok1 r(1) fits r(3) a, simplified]
  have wl: "extent ls = ?w" using l by (simp add: layout_def)
  have u3: "untouched ?w (?w + cr_size r) tb tb3" using w(1) by (simp add: untouched_def)
  have m: "meta_of ?w r (new_meta ?w r c f uid)" using r(2,4) by (simp add: meta_of_def new_meta_def make_ChunkMeta_def)
  have rs': "chained tb (set (places (?w + extent ds) rs'))" using l by (auto simp: layout_def chained_def places_append wl)
  have ch3: "chained tb3 (set (places 0 ls) \<union> {(?w, r)} \<union> set (places (?w + extent ds) rs'))"
    by (rule after_record_chained [OF u3 w(2) r(1) l rs']) (use room in simp)
  have b: "?w + extent ds \<le> tb_size tb" using full by simp
  note rule = inserted_layout [OF l i ok ds _ _ b _ ix new, where m = "new_meta ?w r c f uid" and bs = "payload r src"]
  show ?thesis
  proof (cases "?n = 0")
    case True
    with room(1) have n: "extent ds = cr_size r" by simp
    have "inserted ?w r (new_meta ?w r c f uid) (payload r src) tb tb3"
    proof (rule rule [where pads = "[]"])
      show "chained tb3 (set (places 0 (ls @ r # [] @ rs')))" using ch3 n wl by (simp add: places_append Un_commute)
      show "untouched ?w (?w + extent ds) tb tb3" using u3 n by simp
    qed (use w m n full in simp_all)
    with True show ?thesis by simp
  next
    case False
    let ?pad = "make_ChunkRecord ?n\<lparr>cr_is_padding := True\<rparr>"
    have "kRecordSize dvd extent ds" using l by (intro extent_dvd) (auto simp: layout_def dest!: chained_recs)
    then have dvd: "kRecordSize dvd ?n" using r(1) room(1) by (simp add: rec_ok_def dvd_diff_nat)
    then have n: "kRecordSize \<le> ?n" "?n \<le> kMaxRecordSize" using pad_kRecordSize [OF dvd False] room(2) by simp_all
    then have pad: "rec_ok ?pad" "cr_size ?pad = ?n" using padding_ok dvd by simp_all
    have w3: "tb_wptr tb3 = ?w + cr_size r" using w(5) n(1) full room(1) False by auto
    have size3: "tb_size tb3 = tb_size tb" "length (tb_data tb3) = tb_size tb" using untouchedD(1,2) [OF u3] ok by (simp_all add: sizes_ok_def)
    obtain tb4 where p: "wrote (?w + cr_size r) ?pad None tb3 tb4" and
      add: "AddPaddingRecord ?n tb3 = Some (upd_stats (\<lambda>s. s\<lparr>bs_padding_bytes_written := bs_padding_bytes_written s + word_of_nat ?n\<rparr>) tb4)"
    proof -
      have "?n \<le> size_to_end tb3" using size3 n full room(1) w3 by (auto simp: size_to_end_def)
      from AddPaddingRecord_wrote [OF this _ n] show thesis using size3 w3 full room(1) that by auto
    qed
    let ?tb' = "upd_stats (\<lambda>s. s\<lparr>bs_padding_bytes_written := bs_padding_bytes_written s + word_of_nat ?n\<rparr>) tb4"
    have u4: "untouched (?w + cr_size r) (?w + extent ds) tb3 ?tb'"
      using wrote_untouched [OF p] pad(2) room(1) by (simp add: untouched_def)
    have "chained tb4 (insert (?w + cr_size r, ?pad) (set (places 0 ls) \<union> {(?w, r)} \<union> set (places (?w + extent ds) rs')))"
      by (rule wrote_chained [OF p ch3 pad(1)])
        (use places_bounds [of _ _ 0 ls] places_bounds [of _ _ "?w + extent ds" rs'] wl pad(2) room(1) in fastforce)
    then have ch4: "chained ?tb' (set (places 0 (ls @ r # [?pad] @ rs')))"
      using pad(2) room(1) wl by (simp add: chained_def places_append Un_commute)
    have "inserted ?w r (new_meta ?w r c f uid) (payload r src) tb ?tb'"
    proof (rule rule [where pads = "[?pad]"])
      show "chained ?tb' (set (places 0 (ls @ r # [?pad] @ rs')))" by (rule ch4)
      show "untouched ?w (?w + extent ds) tb ?tb'" using untouched_trans [OF u3 u4] room(1) by (simp add: max_def)
      show "mem_range (tb_data ?tb') (?w + kRecordSize) (?w + cr_size r) = payload r src"
        using untouched_range [OF u4, of "?w + cr_size r" "?w + kRecordSize"] w(3) size3 full room(1) by simp
    qed (use w m pad room full w3 wrote_fields [OF p] in auto)
    with False add show ?thesis by simp
  qed
qed

lemma insert_chunk_ok:
  assumes l: "layout tb ls rs" and i: "indexed tb (set (places 0 (ls @ rs)))" and ok: "sizes_ok tb" "\<not> tb_discard_writes tb"
    and r: "rec_ok r" "\<not> cr_is_padding r" "cr_size r \<le> size_to_end tb" "length src + kRecordSize \<le> cr_size r"
      "cr_flags r = take_bit 6 f" and new: "ix_find (Key r) (tb_index tb) = None"
  obtains (refused) "tb_policy tb = kDiscard" "insert_chunk r f uid c src tb = Some (DiscardWrite tb)"
  | (written) tb' where "insert_chunk r f uid c src tb = Some tb'"
      "inserted (tb_wptr tb) r (new_meta (tb_wptr tb) r c f uid) (payload r src) tb tb'"
      "\<And>k. tb_policy tb = kDiscard \<Longrightarrow> starts_in (tb_wptr tb) (tb_wptr tb + cr_size r) tb k \<Longrightarrow> \<not> unread tb k"
proof -
  have w: "extent ls = tb_wptr tb" using l by (simp add: layout_def)
  have b: "0 < cr_size r" "tb_wptr tb + cr_size r \<le> tb_size tb" using r(1,3) ok(1) by (auto simp: size_to_end_def sizes_ok_def dest: rec_ok_pos)
  show thesis
  proof (cases rule: DeleteNextChunksFor_layout [OF l i ok b, case_names refused blank cleared])
    case refused
    then have "insert_chunk r f uid c src tb = Some (DiscardWrite tb)" by (simp add: insert_chunk_record)
    with refused(1) show thesis by (rule that(1))
  next
    case blank
    obtain tb' where a: "after_record r f uid c src tb = Some tb'" using after_record_wrote [OF ok(1) r(1,3,4)] by blast
    have "insert_chunk r f uid c src tb = Some tb'" using blank(3) a by (simp add: insert_chunk_record)
    moreover have "inserted (tb_wptr tb) r (new_meta (tb_wptr tb) r c f uid) (payload r src) tb tb'"
      by (rule insert_blank [OF _ _ ok(1) blank(2) r new a]) (use l i blank(1) in simp_all)
    moreover have "\<not> starts_in (tb_wptr tb) (tb_wptr tb + cr_size r) tb k" for k
      using erased_keys [of tb ls "[]" "[]" "tb_wptr tb + cr_size r" k] l i blank(1) by simp
    ultimately show thesis using that(2) by blast
  next
    case (cleared ds rs' ix st)
    have ok1: "sizes_ok (tb\<lparr>tb_index := ix, tb_stats := st\<rparr>)" using ok(1) by (simp add: sizes_ok_def)
    have "cr_size r \<le> size_to_end (tb\<lparr>tb_index := ix, tb_stats := st\<rparr>)" using r(3) by (simp add: size_to_end_def)
    then obtain tb3 where a: "after_record r f uid c src (tb\<lparr>tb_index := ix, tb_stats := st\<rparr>) = Some tb3"
      using after_record_wrote [OF ok1 r(1) _ r(4)] by blast
    obtain tb' where tb': "(if extent ds - cr_size r \<noteq> 0 then AddPaddingRecord (extent ds - cr_size r) tb3 else Some tb3) = Some tb'"
      "inserted (tb_wptr tb) r (new_meta (tb_wptr tb) r c f uid) (payload r src) tb tb'"
      using insert_cleared [OF l [unfolded cleared(1)] i [unfolded cleared(1)] ok(1) cleared(2) [unfolded cleared(1)] cleared(3,4,8)
          r(1,2,4,5) new cleared(7,6) a] by blast
    have "insert_chunk r f uid c src tb = Some tb'" using cleared(5) a tb'(1) by (simp add: insert_chunk_record)
    moreover have "\<not> unread tb k" if k: "tb_policy tb = kDiscard" "starts_in (tb_wptr tb) (tb_wptr tb + cr_size r) tb k" for k
    proof -
      have "k \<in> Key ` {y \<in> set ds. \<not> cr_is_padding y}"
        using erased_keys [OF l [unfolded cleared(1)] i [unfolded cleared(1)] cleared(8)] cleared(3) k(2) by simp
      then show ?thesis using cleared(9) k(1) by (auto simp: unread_chunk_def unread_def)
    qed
    ultimately show thesis using tb'(2) that(2) by blast
  qed
qed

text \<open>The rest of the buffer behind the write pointer becomes padding.\<close>

lemma pad_rest:
  assumes l: "layout tb ls rs" and i: "indexed tb (set (places 0 (ls @ rs)))" and ok: "sizes_ok tb"
    and same: "tb_size tb1 = tb_size tb" "tb_data tb1 = tb_data tb" "tb_headers tb1 = tb_headers tb" "tb_wptr tb1 = tb_wptr tb"
      "tb_max_chunk_size tb1 = tb_max_chunk_size tb"
    and n: "size_to_end tb \<le> kMaxRecordSize"
    and ix: "distinct (map fst (tb_index tb1))"
      "\<And>k. ix_find k (tb_index tb1) = (if k \<in> Key ` {y \<in> set rs. \<not> cr_is_padding y} then None else ix_find k (tb_index tb))"
  obtains tb2 pad where "AddPaddingRecord (size_to_end tb) tb1 = Some tb2" "layout (tb2\<lparr>tb_wptr := 0\<rparr>) [] (ls @ [pad])"
    "indexed (tb2\<lparr>tb_wptr := 0\<rparr>) (set (places 0 (ls @ [pad])))" "sizes_ok (tb2\<lparr>tb_wptr := 0\<rparr>)" "tb_index tb2 = tb_index tb1"
    "untouched (tb_wptr tb) (tb_size tb) tb tb2" "tb_policy tb2 = tb_policy tb1" "tb_discard_writes tb2 = tb_discard_writes tb1"
proof -
  let ?n = "size_to_end tb" let ?pad = "make_ChunkRecord ?n\<lparr>cr_is_padding := True\<rparr>"
  have w: "extent ls = tb_wptr tb" using l by (simp add: layout_def)
  have "kRecordSize dvd ?n" "?n \<noteq> 0" using layout_dvd [OF l] ok by (auto simp: sizes_ok_def size_to_end_def intro: dvd_diff_nat)
  then have n': "kRecordSize \<le> ?n" "kRecordSize dvd ?n" by (simp_all add: pad_kRecordSize)
  then have pad: "rec_ok ?pad" "cr_size ?pad = ?n" using padding_ok n by simp_all
  have n1: "?n \<le> size_to_end tb1" by (simp add: size_to_end_def same)
  obtain tb2 where p: "wrote (tb_wptr tb) ?pad None tb1 tb2" and add: "AddPaddingRecord ?n tb1 =
      Some (upd_stats (\<lambda>s. s\<lparr>bs_padding_bytes_written := bs_padding_bytes_written s + word_of_nat ?n\<rparr>) tb2)"
    using AddPaddingRecord_wrote [OF n1 _ n'(1) n] same ok unfolding same(4) by (auto simp: sizes_ok_def)
  let ?tb2 = "upd_stats (\<lambda>s. s\<lparr>bs_padding_bytes_written := bs_padding_bytes_written s + word_of_nat ?n\<rparr>) tb2"
  have end_n: "tb_wptr tb + ?n = tb_size tb" using ok by (simp add: size_to_end_def sizes_ok_def)
  have ls: "chained tb1 (set (places 0 ls))" using l by (auto simp: layout_def chained_def places_append same(3))
  have "chained tb2 (insert (tb_wptr tb, ?pad) (set (places 0 ls)))"
    by (rule wrote_chained [OF p ls pad(1)]) (use places_bounds [of _ _ 0 ls] w in fastforce)
  then have "layout (?tb2\<lparr>tb_wptr := 0\<rparr>) [] (ls @ [?pad])"
    using pad(2) w end_n wrote_fields(1) [OF p] same(1) by (simp add: layout_def places_append chained_def)
  moreover have "indexed (?tb2\<lparr>tb_wptr := 0\<rparr>) (set (places 0 (ls @ [?pad])))"
  proof -
    have "indexed tb1 (set (places 0 ls))"
    proof (rule indexed_erase [where D = "set (places (tb_wptr tb) rs)" and tb = tb])
      show "indexed tb (set (places 0 ls) \<union> set (places (tb_wptr tb) rs))" using i by (simp add: places_append w)
      show "\<forall>(q, x) \<in> set (places 0 ls). \<forall>(q', y) \<in> set (places (tb_wptr tb) rs). q \<noteq> q'"
      proof (intro ballI, clarify)
        fix q x y assume x: "(q, x) \<in> set (places 0 ls)" "(q, y) \<in> set (places (tb_wptr tb) rs)"
        then have "0 < cr_size x" using ls by (auto simp: chained_def dest: rec_ok_pos)
        with places_bounds [OF x(1)] places_bounds [OF x(2)] w show False by simp
      qed
      show "ix_find k (tb_index tb1) =
          (if k \<in> Key ` {y \<in> snd ` set (places (tb_wptr tb) rs). \<not> cr_is_padding y} then None else ix_find k (tb_index tb))" for k
        unfolding ix(2) using snd_places [of "tb_wptr tb" rs] by (simp flip: set_map)
    qed (rule ix(1))
    then have "indexed (?tb2\<lparr>tb_wptr := 0\<rparr>) (set (places 0 ls) \<union> {(tb_wptr tb, ?pad)})"
      by (rule indexed_pads) (use wrote_fields [OF p] in simp_all)
    then show ?thesis by (simp add: places_append w)
  qed
  moreover have "sizes_ok (?tb2\<lparr>tb_wptr := 0\<rparr>)" using ok same wrote_fields [OF p] wroteD(1) [OF p] by (auto simp: sizes_ok_def)
  moreover have "untouched (tb_wptr tb) (tb_size tb) tb ?tb2"
    using wrote_untouched [OF p] same pad(2) end_n by (simp add: untouched_def)
  ultimately show thesis using that [OF add] wrote_fields [OF p] by simp
qed

lemma wrap_around_ok:
  assumes l: "layout tb ls rs" and i: "indexed tb (set (places 0 (ls @ rs)))" and ok: "sizes_ok tb" "\<not> tb_discard_writes tb"
    and n: "n \<le> kMaxRecordSize"
  obtains (refused) "tb_policy tb = kDiscard" "wrap_around n tb = Some (False, tb)"
  | (fits) "n \<le> size_to_end tb" "wrap_around n tb = Some (True, tb)"
  | (wrapped) tb' ls' where "size_to_end tb < n" "wrap_around n tb = Some (True, tb')" "layout tb' [] ls'" "indexed tb' (set (places 0 ls'))"
      "sizes_ok tb'" "tb_wptr tb' = 0" "tb_policy tb' = tb_policy tb" "\<not> tb_discard_writes tb'" "tb_size tb' = tb_size tb"
      "\<And>k. ix_find k (tb_index tb') = (if starts_in (tb_wptr tb) (tb_size tb) tb k then None else ix_find k (tb_index tb))"
      "untouched (tb_wptr tb) (tb_size tb) tb tb'"
      "\<And>k. tb_policy tb = kDiscard \<Longrightarrow> starts_in (tb_wptr tb) (tb_size tb) tb k \<Longrightarrow> \<not> unread tb k"
proof (cases "n \<le> size_to_end tb")
  case True
  then show thesis using fits by (simp add: wrap_around_def)
next
  case False
  let ?e = "size_to_end tb" and ?wrap = "\<lambda>tb. upd_stats (\<lambda>s. s\<lparr>bs_write_wrap_count := bs_write_wrap_count s + 1\<rparr>) (tb\<lparr>tb_wptr := 0\<rparr>)"
  have w: "extent ls = tb_wptr tb" using l by (simp add: layout_def)
  have e: "0 < ?e" "tb_wptr tb + ?e \<le> tb_size tb" "tb_wptr tb + ?e = tb_size tb" "?e \<le> kMaxRecordSize"
    using ok(1) False n by (auto simp: size_to_end_def sizes_ok_def)
  have finish: thesis
    if d: "DeleteNextChunksFor ?e tb = Some (Some x, tb1)" and p: "AddPaddingRecord ?e tb1 = Some tb2" "layout (tb2\<lparr>tb_wptr := 0\<rparr>) [] ls'"
      "indexed (tb2\<lparr>tb_wptr := 0\<rparr>) (set (places 0 ls'))" "sizes_ok (tb2\<lparr>tb_wptr := 0\<rparr>)" "tb_index tb2 = tb_index tb1"
      "untouched (tb_wptr tb) (tb_size tb) tb tb2" "tb_policy tb2 = tb_policy tb" "\<not> tb_discard_writes tb2"
      and k: "\<And>k. ix_find k (tb_index tb1) = (if starts_in (tb_wptr tb) (tb_size tb) tb k then None else ix_find k (tb_index tb))"
        "\<And>k. tb_policy tb = kDiscard \<Longrightarrow> starts_in (tb_wptr tb) (tb_size tb) tb k \<Longrightarrow> \<not> unread tb k"
    for x tb1 tb2 ls'
  proof (rule wrapped [of "?wrap tb2" ls'])
    show "wrap_around n tb = Some (True, ?wrap tb2)" using False d p(1) by (simp add: wrap_around_def Let_def)
    show "layout (?wrap tb2) [] ls'" using p(2) by (simp add: layout_def chained_def blank_from_def)
    show "indexed (?wrap tb2) (set (places 0 ls'))" using p(3) by (simp add: indexed_def)
    show "sizes_ok (?wrap tb2)" using p(4) by (simp add: sizes_ok_def)
    show "untouched (tb_wptr tb) (tb_size tb) tb (?wrap tb2)" using p(6) by (simp add: untouched_def)
    show "tb_size (?wrap tb2) = tb_size tb" using untouchedD(1) [OF p(6)] by simp
  qed (use False p k in simp_all)
  show thesis
  proof (cases rule: DeleteNextChunksFor_layout [OF l i ok e(1,2), case_names refused blank cleared])
    case refused
    then have "wrap_around n tb = Some (False, tb)" using False by (simp add: wrap_around_def Let_def)
    with refused(1) show thesis by (rule that(1))
  next
    case blank
    have none: "\<not> starts_in (tb_wptr tb) (tb_size tb) tb k" for k
      using erased_keys [of tb ls "[]" "[]" "tb_size tb" k] l i blank(1) by simp
    obtain tb2 pad where "AddPaddingRecord ?e tb = Some tb2" "layout (tb2\<lparr>tb_wptr := 0\<rparr>) [] (ls @ [pad])"
        "indexed (tb2\<lparr>tb_wptr := 0\<rparr>) (set (places 0 (ls @ [pad])))" "sizes_ok (tb2\<lparr>tb_wptr := 0\<rparr>)" "tb_index tb2 = tb_index tb"
        "untouched (tb_wptr tb) (tb_size tb) tb tb2" "tb_policy tb2 = tb_policy tb" "tb_discard_writes tb2 = tb_discard_writes tb"
      by (rule pad_rest [OF l i ok(1), of tb]) (use e(4) blank(1) i in \<open>simp_all add: indexed_def\<close>)
    then show thesis using finish [OF blank(3)] none ok(2) by simp
  next
    case (cleared ds rs' ix st)
    have "extent rs' = 0" using cleared(1,2,3) e(3) by simp
    moreover have "\<forall>r \<in> set rs'. rec_ok r" using l chained_recs [of tb 0 "ls @ rs"] cleared(1) by (auto simp: layout_def)
    ultimately have "rs' = []" by (cases rs') (auto dest: rec_ok_pos)
    then have ds: "rs = ds" using cleared(1) by simp
    let ?tb1 = "tb\<lparr>tb_index := ix, tb_stats := st\<rparr>"
    have keys: "k \<in> Key ` {r \<in> set rs. \<not> cr_is_padding r} \<longleftrightarrow> starts_in (tb_wptr tb) (tb_size tb) tb k" for k
      using erased_keys [of tb ls rs "[]" "tb_size tb" k] l i cleared(8) ds e(3) by simp
    obtain tb2 pad where "AddPaddingRecord ?e ?tb1 = Some tb2" "layout (tb2\<lparr>tb_wptr := 0\<rparr>) [] (ls @ [pad])"
        "indexed (tb2\<lparr>tb_wptr := 0\<rparr>) (set (places 0 (ls @ [pad])))" "sizes_ok (tb2\<lparr>tb_wptr := 0\<rparr>)" "tb_index tb2 = tb_index ?tb1"
        "untouched (tb_wptr tb) (tb_size tb) tb tb2" "tb_policy tb2 = tb_policy ?tb1" "tb_discard_writes tb2 = tb_discard_writes ?tb1"
      by (rule pad_rest [OF l i ok(1), of ?tb1]) (use e(4) cleared(6,7) ds in simp_all)
    moreover have "\<not> unread tb k" if "tb_policy tb = kDiscard" "starts_in (tb_wptr tb) (tb_size tb) tb k" for k
      using that cleared(9) keys [of k] ds by (auto simp: unread_chunk_def unread_def)
    ultimately show thesis using finish [OF cleared(5)] cleared(6) keys ds ok(2) by simp
  qed
qed

lemma untouched_stored:
  assumes l: "layout tb ls rs" and i: "indexed tb (set (places 0 (ls @ rs)))" and ok: "sizes_ok tb"
    and ix: "ix_find k (tb_index tb') = (if starts_in (tb_wptr tb) (tb_size tb) tb k then None else ix_find k (tb_index tb))"
    and u: "untouched (tb_wptr tb) (tb_size tb) tb tb'"
  shows "stored tb' k = (if starts_in (tb_wptr tb) (tb_size tb) tb k then None else stored tb k)"
proof (cases "starts_in (tb_wptr tb) (tb_size tb) tb k \<or> ix_find k (tb_index tb) = None")
  case True
  then show ?thesis using ix by (auto simp: stored_def)
next
  case False
  then obtain m where m: "ix_find k (tb_index tb) = Some m" by blast
  let ?P = "set (places 0 (ls @ rs))"
  have w: "extent ls = tb_wptr tb" "chained tb ?P" using l by (simp_all add: layout_def)
  have in_buf: "\<forall>(q, x) \<in> ?P. q + cr_size x \<le> tb_size tb"
    using places_bounds [of _ _ 0 "ls @ rs"] l ok by (fastforce simp: layout_def sizes_ok_def)
  have "stored tb' k = stored tb k"
  proof (rule stored_frame [OF w(2) i in_buf _ m _ u])
    show "length (tb_data tb) = tb_size tb" using ok by (simp add: sizes_ok_def)
    show "ix_find k (tb_index tb') = Some m" using ix m False by simp
    show "\<forall>r. (cm_chunk_record m, r) \<in> ?P \<longrightarrow> cm_chunk_record m + cr_size r \<le> tb_wptr tb \<or> tb_size tb \<le> cm_chunk_record m"
    proof (intro allI impI)
      fix r assume r: "(cm_chunk_record m, r) \<in> ?P"
      then have "0 < cr_size r" "cm_chunk_record m + cr_size r \<le> tb_size tb" using w(2) in_buf by (auto simp: chained_def dest: rec_ok_pos)
      then have "cm_chunk_record m < tb_wptr tb" using False m by (auto simp: starts_in_def)
      then have "(cm_chunk_record m, r) \<in> set (places 0 ls)"
        using r places_bounds [of "cm_chunk_record m" r "extent ls" rs] w(1) by (auto simp: places_append)
      then show "cm_chunk_record m + cr_size r \<le> tb_wptr tb \<or> tb_size tb \<le> cm_chunk_record m"
        using places_bounds [of "cm_chunk_record m" r 0 ls] w(1) by simp
    qed
  qed
  with False show ?thesis by simp
qed

lemma same_buffer:
  assumes "tb_data tb' = tb_data tb" and "tb_headers tb' = tb_headers tb" and "tb_size tb' = tb_size tb" and "tb_index tb' = tb_index tb"
  shows "stored tb' k = stored tb k" "unread tb' k = unread tb k" "starts_in a b tb' k = starts_in a b tb k"
    "tb_wptr tb' = tb_wptr tb \<Longrightarrow> tb_max_chunk_size tb' = tb_max_chunk_size tb \<Longrightarrow> tb_inv tb' = tb_inv tb"
proof -
  have h: "GetChunkRecordAt p tb' = GetChunkRecordAt p tb" for p by (simp add: GetChunkRecordAt_def assms)
  show "stored tb' k = stored tb k" "unread tb' k = unread tb k" "starts_in a b tb' k = starts_in a b tb k"
    unfolding stored_def unread_def starts_in_def h assms by (rule refl)+
  show "tb_inv tb' = tb_inv tb" if "tb_wptr tb' = tb_wptr tb" "tb_max_chunk_size tb' = tb_max_chunk_size tb"
    by (simp add: tb_inv_def sizes_ok_def layout_def chained_def blank_from_def indexed_def assms that)
qed

lemma DiscardWrite_same: "stored (DiscardWrite tb) k = stored tb k" "tb_inv (DiscardWrite tb) = tb_inv tb" "tb_discard_writes (DiscardWrite tb)"
  "tb_policy (DiscardWrite tb) = tb_policy tb" "unread (DiscardWrite tb) k = unread tb k"
proof -
  note eqs = same_buffer [of "DiscardWrite tb" tb]
  show "stored (DiscardWrite tb) k = stored tb k" "tb_inv (DiscardWrite tb) = tb_inv tb" "unread (DiscardWrite tb) k = unread tb k"
    by (rule eqs; simp add: DiscardWrite_def)+
qed (simp_all add: DiscardWrite_def)

lemma starts_in_same: "ix_find k (tb_index tb') = ix_find k (tb_index tb) \<Longrightarrow> starts_in a b tb' k = starts_in a b tb k"
  by (simp add: starts_in_def)

lemma chunk_record_ok:
  assumes "length src + kRecordSize \<le> n" and "kRecordSize dvd n" and "n \<le> kMaxRecordSize"
  shows "rec_ok (chunk_record p w c nf fl n)" "cr_size (chunk_record p w c nf fl n) = n" "\<not> cr_is_padding (chunk_record p w c nf fl n)"
    "cr_flags (chunk_record p w c nf fl n) = take_bit 6 fl" "Key (chunk_record p w c nf fl n) = (p, w, c)"
    "cr_num_fragments (chunk_record p w c nf fl n) = nf"
  using assms by (simp_all add: chunk_record_def make_ChunkRecord_def rec_ok_def Key_def kMaxRecordSize_def)

lemma AlignUp16_ok: "n \<le> AlignUp16 n" "kRecordSize dvd AlignUp16 n"
  by (simp_all add: AlignUp16_def kRecordSize_def)

text \<open>Where a new record of \<open>n\<close> bytes goes, and which chunks are in its way.\<close>

definition record_place :: "nat \<Rightarrow> TraceBuffer \<Rightarrow> nat" where
  "record_place n tb = (if n \<le> size_to_end tb then tb_wptr tb else 0)"

definition overwritten :: "nat \<Rightarrow> TraceBuffer \<Rightarrow> chunk_key \<Rightarrow> bool" where
  "overwritten n tb k \<longleftrightarrow>
     (if n \<le> size_to_end tb then starts_in (tb_wptr tb) (tb_wptr tb + n) tb k
      else starts_in (tb_wptr tb) (tb_size tb) tb k \<or> starts_in 0 n tb k)"

lemma copy_new_chunk:
  assumes inv: "tb_inv tb" and dw: "\<not> tb_discard_writes tb" and new: "ix_find (producer, writer, chunk) (tb_index tb) = None"
    and n: "n = AlignUp16 (length src + kRecordSize)" "n \<le> tb_max_chunk_size tb" and part: "complete_part nf fl c = (nf', fl')"
  obtains (discarded) tb' where "CopyChunkUntrusted producer uid writer chunk nf fl c src tb = Some tb'" "tb_inv tb'"
      "tb_policy tb = kDiscard" "tb_policy tb' = kDiscard" "tb_discard_writes tb'" "\<And>k. unread tb k \<Longrightarrow> stored tb' k = stored tb k"
  | (copied) tb' where "CopyChunkUntrusted producer uid writer chunk nf fl c src tb = Some tb'" "tb_inv tb'"
      "tb_policy tb' = tb_policy tb" "\<not> tb_discard_writes tb'"
      "stored tb' (producer, writer, chunk) = Some (make_ChunkMeta (record_place n tb) nf' c fl' uid, src @ replicate (n - kRecordSize - length src) 0)"
      "\<And>k. k \<noteq> (producer, writer, chunk) \<Longrightarrow> stored tb' k = (if overwritten n tb k then None else stored tb k)"
      "\<And>k. tb_policy tb = kDiscard \<Longrightarrow> overwritten n tb k \<Longrightarrow> \<not> unread tb k"
proof -
  obtain ls rs where l: "layout tb ls rs" and i: "indexed tb (set (places 0 (ls @ rs)))" and ok: "sizes_ok tb"
    using inv unfolding tb_inv_def by blast
  let ?r = "chunk_record producer writer chunk nf' fl' n"
  have fit: "length src + kRecordSize \<le> n" "kRecordSize dvd n" "n \<le> kMaxRecordSize" "n \<le> tb_size tb"
    using n ok AlignUp16_ok by (simp_all add: sizes_ok_def)
  note r = chunk_record_ok [OF fit(1-3), where p = producer and w = writer and c = chunk and nf = nf' and fl = fl']
  have copy: "CopyChunkUntrusted producer uid writer chunk nf fl c src tb =
      (case wrap_around n tb of None \<Rightarrow> None | Some (False, tb) \<Rightarrow> Some (DiscardWrite tb)
       | Some (True, tb) \<Rightarrow> insert_chunk ?r fl' uid c src tb)"
    using n(2) part new dw r(5) by (simp add: CopyChunkUntrusted_def Let_def flip: n(1))
  show thesis
  proof (cases rule: wrap_around_ok [OF l i ok dw fit(3), case_names refused fits wrapped])
    case refused
    show thesis
      by (rule discarded [of "DiscardWrite tb"]) (use refused copy DiscardWrite_same [of tb] inv in simp_all)
  next
    case fits
    then have c: "CopyChunkUntrusted producer uid writer chunk nf fl c src tb = insert_chunk ?r fl' uid c src tb" using copy by simp
    show thesis
    proof (cases rule: insert_chunk_ok [OF l i ok dw r(1,3), where src = src and f = fl' and uid = uid and c = c, case_names size len flags new refused written])
      case refused
      show thesis by (rule discarded [of "DiscardWrite tb"]) (use refused c DiscardWrite_same [of tb] inv in simp_all)
    next
      case (written tb')
      note d = insertedD [OF written(2), unfolded r]
      show thesis
      proof (rule copied [of tb'])
        fix k
        show "stored tb' k = (if overwritten n tb k then None else stored tb k)" if "k \<noteq> (producer, writer, chunk)"
          using d(5) [OF that] fits(1) by (simp add: overwritten_def)
        show "\<not> unread tb k" if "tb_policy tb = kDiscard" "overwritten n tb k"
          using that fits(1) written(3) [of k] r(2) by (simp add: overwritten_def)
      qed (use written d c fits dw in \<open>simp_all add: r record_place_def new_meta_def payload_def\<close>)
    qed (use fits r new fit in simp_all)
  next
    case (wrapped tb1 ls1)
    have new1: "ix_find (Key ?r) (tb_index tb1) = None" using wrapped(10) new r(5) by simp
    have room: "cr_size ?r \<le> size_to_end tb1" using wrapped(6,9) fit(4) r(2) by (simp add: size_to_end_def)
    have c: "CopyChunkUntrusted producer uid writer chunk nf fl c src tb = insert_chunk ?r fl' uid c src tb1" using copy wrapped(2) by simp
    have st1: "stored tb1 k = (if starts_in (tb_wptr tb) (tb_size tb) tb k then None else stored tb k)" for k
      by (rule untouched_stored [OF l i ok wrapped(10,11)])
    have live: "starts_in 0 n tb1 k = (\<not> starts_in (tb_wptr tb) (tb_size tb) tb k \<and> starts_in 0 n tb k)"
      "unread tb1 k = (\<not> starts_in (tb_wptr tb) (tb_size tb) tb k \<and> unread tb k)" for k
      by (simp_all add: starts_in_def [of 0] unread_def wrapped(10))
    show thesis
    proof (cases rule: insert_chunk_ok [OF wrapped(3) _ wrapped(5,8) r(1,3) room, where src = src and f = fl' and uid = uid and c = c, case_names idx len flags new refused written])
      case refused
      have inv1: "tb_inv tb1" using wrapped(3-5) unfolding tb_inv_def by fastforce
      have kept: "stored tb1 k = stored tb k" if "unread tb k" for k
        using that st1 [of k] wrapped(12) [of k] refused(1) wrapped(7) by auto
      show thesis by (rule discarded [of "DiscardWrite tb1"])
        (use refused c DiscardWrite_same [of tb1] inv1 wrapped(7) kept in simp_all)
    next
      case (written tb')
      note d = insertedD [OF written(2), unfolded r wrapped(6)]
      show thesis
      proof (rule copied [of tb'])
        fix k
        show "stored tb' k = (if overwritten n tb k then None else stored tb k)" if "k \<noteq> (producer, writer, chunk)"
          using d(5) [OF that] wrapped(1) st1 [of k] live [of k] by (simp add: overwritten_def)
        show "\<not> unread tb k" if "tb_policy tb = kDiscard" "overwritten n tb k"
          using that wrapped(1,6,7) wrapped(12) [of k] written(3) [of k] live [of k] r(2) by (auto simp: overwritten_def)
      qed (use written d c wrapped in \<open>simp_all add: r record_place_def new_meta_def payload_def\<close>)
    qed (use wrapped(4) r new1 fit in simp_all)
  qed
qed

subsection \<open>A chunk that is copied again\<close>

lemma header_in_layout:
  assumes "tb_inv tb" and "ix_find k (tb_index tb) = Some m"
  obtains ls rs xs r ys where "layout tb ls rs" "indexed tb (set (places 0 (ls @ rs)))" "sizes_ok tb" "ls @ rs = xs @ r # ys"
    "cm_chunk_record m = extent xs" "Key r = k" "meta_of (extent xs) r m" "GetChunkRecordAt (extent xs) tb = Some r"
    "extent (ls @ rs) \<le> tb_size tb" "rec_ok r"
proof -
  obtain ls rs where l: "layout tb ls rs" and i: "indexed tb (set (places 0 (ls @ rs)))" and ok: "sizes_ok tb"
    using assms(1) unfolding tb_inv_def by blast
  have e: "extent (ls @ rs) \<le> tb_size tb" using l ok by (auto simp: layout_def sizes_ok_def)
  obtain q r where r: "(q, r) \<in> set (places 0 (ls @ rs))" "Key r = k" "meta_of q r m" using i assms(2) unfolding indexed_def by blast
  have split: "\<exists>xs ys. rs = xs @ r # ys \<and> q = p + extent xs" if "(q, r) \<in> set (places p rs)" for p rs
    using that
  proof (induction rs arbitrary: p)
    case (Cons x rs)
    show ?case
    proof (cases "(q, r) = (p, x)")
      case True
      then show ?thesis by (intro exI [of _ "[]"] exI [of _ rs]) simp
    next
      case False
      with Cons.prems have "(q, r) \<in> set (places (p + cr_size x) rs)" by auto
      then obtain xs ys where "rs = xs @ r # ys" "q = p + cr_size x + extent xs" using Cons.IH by blast
      then show ?thesis by (intro exI [of _ "x # xs"] exI [of _ ys]) simp
    qed
  qed simp
  obtain xs ys where xs: "ls @ rs = xs @ r # ys" "q = extent xs" using split [OF r(1)] by auto
  have ch: "chained tb (set (places 0 (ls @ rs)))" using l by (simp add: layout_def)
  have "GetChunkRecordAt q tb = Some r" using chained_header [OF ch r(1)] places_bounds [OF r(1)] e by simp
  moreover have "rec_ok r" using ch r(1) by (auto simp: chained_def)
  ultimately show thesis using that [OF l i ok xs(1)] r xs(2) e by (simp add: meta_of_def)
qed

lemma layout_replace:
  assumes "layout tb ls rs" and "ls @ rs = xs @ r # ys" and "chained tb' (set (places 0 (xs @ r' # ys)))" and "cr_size r' = cr_size r"
    and "tb_wptr tb' = tb_wptr tb" and "tb_size tb' = tb_size tb" and "rs = [] \<Longrightarrow> blank_from (tb_wptr tb) tb \<Longrightarrow> blank_from (tb_wptr tb) tb'"
  shows "\<exists>ls' rs'. layout tb' ls' rs' \<and> ls' @ rs' = xs @ r' # ys"
proof -
  from assms(2) consider us where "ls = xs @ r # us" "ys = us @ rs" | us where "xs = ls @ us" "rs = us @ r # ys"
    by (auto simp: append_eq_append_conv2 Cons_eq_append_conv append_eq_Cons_conv)
  then show ?thesis
  proof cases
    case 1
    with assms have "layout tb' (xs @ r' # us) rs" by (auto simp: layout_def)
    with 1 show ?thesis by (intro exI [of _ "xs @ r' # us"] exI [of _ rs]) simp
  next
    case 2
    with assms have "layout tb' ls (us @ r' # ys)" by (auto simp: layout_def)
    with 2 show ?thesis by (intro exI [of _ ls] exI [of _ "us @ r' # ys"]) simp
  qed
qed

lemma indexed_update:
  assumes i: "indexed tb (A \<union> {(p, r)})" and m: "ix_find (Key r) (tb_index tb) = Some m" "cm_chunk_record m = p"
    and new: "tb_index tb' = ix_set (Key r) m' (tb_index tb)" "Key r' = Key r" "meta_of p r' m'" and apart: "\<forall>(q, x) \<in> A. q \<noteq> p"
  shows "indexed tb' (A \<union> {(p, r')})"
proof -
  have find: "ix_find k (tb_index tb') = (if k = Key r then Some m' else ix_find k (tb_index tb))" for k
    using m(1) new(1) by (simp add: ix_find_set)
  have "\<exists>n. ix_find (Key x) (tb_index tb') = Some n \<and> cm_chunk_record n = q" if x: "(q, x) \<in> A \<union> {(p, r')}" "\<not> cr_is_padding x" for q x
  proof (cases "(q, x) = (p, r')")
    case True
    with new(2,3) show ?thesis by (simp add: find meta_of_def)
  next
    case False
    with x have A: "(q, x) \<in> A" by blast
    then obtain n where n: "ix_find (Key x) (tb_index tb) = Some n" "cm_chunk_record n = q" using i x unfolding indexed_def by blast
    have "Key x \<noteq> Key r" using n m A apart by auto
    with n show ?thesis by (simp add: find)
  qed
  moreover have "\<exists>q x. (q, x) \<in> A \<union> {(p, r')} \<and> Key x = k \<and> meta_of q x n" if n: "ix_find k (tb_index tb') = Some n" for k n
  proof (cases "k = Key r")
    case True
    with n new(2,3) show ?thesis by (auto simp: find)
  next
    case False
    with n have "ix_find k (tb_index tb) = Some n" by (simp add: find)
    then obtain q x where x: "(q, x) \<in> A \<union> {(p, r)}" "Key x = k" "meta_of q x n" using i unfolding indexed_def by blast
    with False show ?thesis by (intro exI [of _ q] exI [of _ x]) auto
  qed
  moreover have "distinct (map fst (tb_index tb'))" using i new(1) by (simp add: indexed_def keys_set)
  ultimately show ?thesis unfolding indexed_def by blast
qed

text \<open>The fourfold check before a chunk is copied again.\<close>

definition accepts_rewrite :: "ChunkRecord \<Rightarrow> u8 \<Rightarrow> ChunkRecord \<Rightarrow> TraceBuffer \<Rightarrow> bool" where
  "accepts_rewrite r f prev tb \<longleftrightarrow> cr_size prev = cr_size r \<and> cr_num_fragments prev < cr_num_fragments r \<and>
     cr_flags prev AND f = cr_flags prev \<and>
     (case Key r of (producer, writer, chunk) \<Rightarrow>
        (case ix_find (producer, writer, chunk + 1) (tb_index tb) of None \<Rightarrow> True | Some n \<Rightarrow> cm_num_fragments_read n = 0)) \<and>
     (case ix_find (Key r) (tb_index tb) of None \<Rightarrow> False | Some m \<Rightarrow> cm_num_fragments_read m \<le> cr_num_fragments prev)"

lemma rewrite_chunk_cases:
  assumes "ix_find (Key r) (tb_index tb) = Some m" and "GetChunkRecordAt (cm_chunk_record m) tb = Some prev" and "Key prev = Key r"
  shows "accepts_rewrite r f prev tb \<Longrightarrow> rewrite_chunk r f c src m tb =
      map_option (upd_stats (\<lambda>s. s\<lparr>bs_chunks_rewritten := bs_chunks_rewritten s + 1\<rparr>))
       (WriteChunkRecord (cm_chunk_record m) r (Some src) (length src)
         (tb\<lparr>tb_index := ix_set (Key r) (m\<lparr>cm_num_fragments := cr_num_fragments r, cm_flags := f, cm_complete := c\<rparr>) (tb_index tb)\<rparr>))"
    and "\<not> accepts_rewrite r f prev tb \<Longrightarrow> rewrite_chunk r f c src m tb \<in> {Some (abi_violation tb), Some tb}"
proof -
  obtain producer writer chunk where k: "Key r = (producer, writer, chunk)" by (metis prod_cases3)
  note d = rewrite_chunk_def accepts_rewrite_def assms [unfolded k] k Let_def prod.case option.case
  show "rewrite_chunk r f c src m tb =
      map_option (upd_stats (\<lambda>s. s\<lparr>bs_chunks_rewritten := bs_chunks_rewritten s + 1\<rparr>))
       (WriteChunkRecord (cm_chunk_record m) r (Some src) (length src)
         (tb\<lparr>tb_index := ix_set (Key r) (m\<lparr>cm_num_fragments := cr_num_fragments r, cm_flags := f, cm_complete := c\<rparr>) (tb_index tb)\<rparr>))"
    if "accepts_rewrite r f prev tb"
    using that unfolding d by (cases "ix_find (producer, writer, chunk + 1) (tb_index tb)") auto
  show "rewrite_chunk r f c src m tb \<in> {Some (abi_violation tb), Some tb}" if "\<not> accepts_rewrite r f prev tb"
    using that unfolding d by (cases "ix_find (producer, writer, chunk + 1) (tb_index tb)") auto
qed

lemma abi_violation_same: "stored (abi_violation tb) k = stored tb k" "tb_inv (abi_violation tb) = tb_inv tb" "unread (abi_violation tb) k = unread tb k"
  "tb_policy (abi_violation tb) = tb_policy tb" "tb_discard_writes (abi_violation tb) = tb_discard_writes tb"
proof -
  note eqs = same_buffer [of "abi_violation tb" tb]
  show "stored (abi_violation tb) k = stored tb k" "tb_inv (abi_violation tb) = tb_inv tb" "unread (abi_violation tb) k = unread tb k"
    by (rule eqs; simp add: abi_violation_def)+
qed (simp_all add: abi_violation_def)

text \<open>The place of an entry of the index is that of one record.\<close>

lemma entry_record:
  assumes "layout tb ls rs" "indexed tb (set (places 0 (ls @ rs)))" "ix_find k (tb_index tb) = Some m"
    and "(cm_chunk_record m, x) \<in> set (places 0 (ls @ rs))"
  shows "Key x = k"
proof -
  obtain q y where y: "(q, y) \<in> set (places 0 (ls @ rs))" "Key y = k" "meta_of q y m" using assms(2,3) unfolding indexed_def by blast
  then have "(cm_chunk_record m, y) \<in> set (places 0 (ls @ rs))" by (simp add: meta_of_def)
  then have "tb_headers tb (cm_chunk_record m) = Some y" "tb_headers tb (cm_chunk_record m) = Some x"
    using assms(1,4) unfolding layout_def chained_def by blast+
  with y(2) show ?thesis by simp
qed

lemma other_chunk_kept:
  assumes inv: "tb_inv tb" and m: "ix_find k0 (tb_index tb) = Some m" and r: "GetChunkRecordAt (cm_chunk_record m) tb = Some r" and k: "k \<noteq> k0"
    and same: "ix_find k (tb_index tb') = ix_find k (tb_index tb)"
    and u: "untouched (cm_chunk_record m) (cm_chunk_record m + cr_size r) tb tb'"
  shows "stored tb' k = stored tb k"
proof (cases "ix_find k (tb_index tb)")
  case None
  then show ?thesis using same by (simp add: stored_def)
next
  case (Some n)
  obtain ls rs where l: "layout tb ls rs" and i: "indexed tb (set (places 0 (ls @ rs)))" and ok: "sizes_ok tb"
    using inv unfolding tb_inv_def by blast
  let ?P = "set (places 0 (ls @ rs))"
  have ch: "chained tb ?P" and e: "extent (ls @ rs) \<le> tb_size tb" using l ok by (auto simp: layout_def sizes_ok_def)
  have in_buf: "\<forall>(q, x) \<in> ?P. q + cr_size x \<le> tb_size tb" using places_bounds [of _ _ 0 "ls @ rs"] e by fastforce
  obtain q y where "(q, y) \<in> ?P" "meta_of q y m" using i m unfolding indexed_def by blast
  then have y: "(cm_chunk_record m, y) \<in> ?P" by (simp add: meta_of_def)
  then have "GetChunkRecordAt (cm_chunk_record m) tb = Some y" using chained_header [OF ch y] in_buf by blast
  with r y have mr: "(cm_chunk_record m, r) \<in> ?P" by simp
  show ?thesis
  proof (rule stored_frame [OF ch i in_buf _ Some _ u])
    show "length (tb_data tb) = tb_size tb" using ok by (simp add: sizes_ok_def)
    show "ix_find k (tb_index tb') = Some n" using same Some by simp
    show "\<forall>x. (cm_chunk_record n, x) \<in> ?P \<longrightarrow> cm_chunk_record n + cr_size x \<le> cm_chunk_record m \<or> cm_chunk_record m + cr_size r \<le> cm_chunk_record n"
    proof (intro allI impI)
      fix x assume x: "(cm_chunk_record n, x) \<in> ?P"
      have "Key x \<noteq> Key r" using entry_record [OF l i Some x] entry_record [OF l i m mr] k by simp
      then show "cm_chunk_record n + cr_size x \<le> cm_chunk_record m \<or> cm_chunk_record m + cr_size r \<le> cm_chunk_record n"
        using places_apart [OF x mr] by auto
    qed
  qed
qed

lemma rewrite_inv:
  assumes inv: "tb_inv tb" and m: "ix_find (Key r) (tb_index tb) = Some m" and prev: "GetChunkRecordAt (cm_chunk_record m) tb = Some prev"
    and r: "rec_ok r" "cr_size r = cr_size prev" and m': "cm_chunk_record m' = cm_chunk_record m" "meta_of (cm_chunk_record m) r m'"
    and w: "wrote (cm_chunk_record m) r (Some bs) (tb\<lparr>tb_index := ix_set (Key r) m' (tb_index tb)\<rparr>) tb2"
  shows "tb_inv tb2" "stored tb2 (Key r) = Some (m', bs)" "k \<noteq> Key r \<Longrightarrow> stored tb2 k = stored tb k"
proof -
  obtain ls rs xs r0 ys where h: "layout tb ls rs" "indexed tb (set (places 0 (ls @ rs)))" "sizes_ok tb" "ls @ rs = xs @ r0 # ys"
    "cm_chunk_record m = extent xs" "Key r0 = Key r" "meta_of (extent xs) r0 m" "GetChunkRecordAt (extent xs) tb = Some r0"
    "extent (ls @ rs) \<le> tb_size tb" "rec_ok r0"
    using header_in_layout [OF inv m] by blast
  have r0: "r0 = prev" using h(5,8) prev by simp
  let ?p = "extent xs"
  define A where "A = set (places 0 xs) \<union> set (places (?p + cr_size r) ys)"
  have old: "set (places 0 (ls @ rs)) = A \<union> {(?p, prev)}" by (auto simp: h(4) r0 A_def places_append r(2))
  have now: "set (places 0 (xs @ r # ys)) = A \<union> {(?p, r)}" by (auto simp: A_def places_append)
  note fields = wrote_fields [OF w, simplified]
  have side: "q + cr_size x \<le> ?p \<or> ?p + cr_size r \<le> q" if "(q, x) \<in> A" for q x
    using that places_bounds [of q x 0 xs] places_bounds [of q x "?p + cr_size r" ys] by (auto simp: A_def)
  have u: "untouched ?p (?p + cr_size r) tb tb2" using wrote_untouched [OF w] h(5) by (simp add: untouched_def)
  have ch: "chained tb (A \<union> {(?p, prev)})" using h(1) by (simp add: layout_def old)
  have chA: "chained tb2 A" by (rule untouched_chained [OF u]) (use ch side in \<open>auto simp: chained_def\<close>)
  then have ch2: "chained tb2 (set (places 0 (xs @ r # ys)))" using wroteD(2) [OF w] r(1) h(5) unfolding now by (simp add: chained_def)
  have blank: "blank_from (tb_wptr tb) tb2" if "rs = []" "blank_from (tb_wptr tb) tb"
    unfolding blank_from_def
  proof (intro allI impI)
    fix p assume p: "tb_wptr tb \<le> p \<and> p < tb_size tb2"
    have "extent ls = tb_wptr tb" using h(1) by (simp add: layout_def)
    moreover have "extent ls = ?p + cr_size r + extent ys" using h(4) that(1) r0 r(2) by simp
    ultimately have "?p + cr_size r \<le> p" using p by simp
    then show "tb_headers tb2 p = None \<and> tb_data tb2 ! p = 0"
      using untouchedD(3,4) [OF u, of p] that(2) p h(3) fields(1) by (simp add: blank_from_def sizes_ok_def)
  qed
  obtain ls' rs' where l': "layout tb2 ls' rs'" "ls' @ rs' = xs @ r # ys"
    using layout_replace [OF h(1,4) ch2] r(2) r0 fields blank by auto
  have apart: "\<forall>(q, x) \<in> A. q \<noteq> ?p"
  proof (intro ballI, clarify)
    fix x assume x: "(?p, x) \<in> A"
    then have "0 < cr_size x" using chA by (auto simp: chained_def dest: rec_ok_pos)
    with side [OF x] rec_ok_pos [OF r(1)] show False by simp
  qed
  have key: "Key r = Key prev" using h(6) r0 by simp
  have i2: "indexed tb2 (A \<union> {(?p, r)})"
    by (rule indexed_update [where tb = tb and r = prev and m = m and m' = m'])
      (use h(2,5) m m' fields(4) key apart in \<open>simp_all add: old\<close>)
  have ok2: "sizes_ok tb2" using h(3) fields wroteD(1) [OF w] by (simp add: sizes_ok_def)
  then show "tb_inv tb2" unfolding tb_inv_def using l' i2 now by metis
  have find: "ix_find k (tb_index tb2) = (if k = Key r then Some m' else ix_find k (tb_index tb))" for k
    using m fields(4) by (simp add: ix_find_set)
  have in2: "?p + cr_size r \<le> tb_size tb" using h(4,9) r0 r(2) by simp
  then have "?p + kRecordSize \<le> tb_size tb2" using r(1) fields(1) by (simp add: rec_ok_def)
  then have "GetChunkRecordAt ?p tb2 = Some r" using header_size [of tb2 ?p r] wroteD(2) [OF w] h(5) by simp
  then show "stored tb2 (Key r) = Some (m', bs)" using m'(1) h(5) wroteD(5) [OF w, of bs] by (simp add: stored_def find)
  show "stored tb2 k = stored tb k" if "k \<noteq> Key r"
    by (rule other_chunk_kept [OF inv m prev that]) (use find that u h(5) r(2) in simp_all)
qed

end
