(* ===== verification/Trace_Buffer_Read.thy ===== *)
theory Trace_Buffer_Read
  imports Trace_Buffer Proto_Utils "HOL-Library.Monad_Syntax"
begin

section \<open>The central trace buffer: patching and reading\<close>

text \<open>
  A packet that is read is the list of its slices, each a place in \<open>data\_\<close> and a length. A \<open>ChunkMeta\<close> is named by its key. The loops of
  the reader are partial functions; that they return is shown in \<open>Trace_Buffer_Packets\<close>. \<open>None\<close> is the use of an
  iterator that is at its end, or of bytes that are no header.
\<close>

subsection \<open>Patching\<close>

record Patch =
  offset_untrusted :: nat
  patch_data :: "u8 list"

definition kPatchSize :: nat where "kPatchSize = 4"

definition flag :: "u8 \<Rightarrow> 6 word \<Rightarrow> bool" where
  "flag flags f \<longleftrightarrow> flags AND ucast f \<noteq> 0"

fun apply_patches :: "nat \<Rightarrow> nat \<Rightarrow> Patch list \<Rightarrow> TraceBuffer \<Rightarrow> bool \<times> TraceBuffer" where
  "apply_patches begin_ptr end_ptr [] tb = (True, tb)"
| "apply_patches begin_ptr end_ptr (p # ps) tb =
     (let ptr = begin_ptr + kRecordSize + offset_untrusted p
      in if ptr < begin_ptr + kRecordSize \<or> ptr > end_ptr - kPatchSize
         then (False, upd_stats (\<lambda>s. s\<lparr>bs_patches_failed := bs_patches_failed s + 1\<rparr>) tb)
         else apply_patches begin_ptr end_ptr ps (store_bytes ptr (patch_data p) tb))"

definition set_header_flags :: "nat \<Rightarrow> u8 \<Rightarrow> TraceBuffer \<Rightarrow> TraceBuffer" where
  "set_header_flags p flags tb =
     tb\<lparr>tb_headers := (tb_headers tb)(p := map_option (\<lambda>r. r\<lparr>cr_flags := take_bit 6 flags\<rparr>) (tb_headers tb p))\<rparr>"

definition TryPatchChunkContents :: "u16 \<Rightarrow> u16 \<Rightarrow> u32 \<Rightarrow> Patch list \<Rightarrow> bool \<Rightarrow> TraceBuffer \<Rightarrow> (bool \<times> TraceBuffer) option" where
  "TryPatchChunkContents producer writer chunk patches other_patches_pending tb =
     (let key = (producer, writer, chunk)
      in case ix_find key (tb_index tb) of
           None \<Rightarrow> Some (False, upd_stats (\<lambda>s. s\<lparr>bs_patches_failed := bs_patches_failed s + 1\<rparr>) tb)
         | Some meta \<Rightarrow>
             do {
               r \<leftarrow> GetChunkRecordAt (cm_chunk_record meta) tb;
               let (patched, tb) = apply_patches (cm_chunk_record meta) (cm_chunk_record meta + cr_size r) patches tb;
               Some (if \<not> patched then (False, tb)
                     else (let tb = upd_stats (\<lambda>s. s\<lparr>bs_patches_succeeded := bs_patches_succeeded s + word_of_nat (length patches)\<rparr>) tb;
                               flags = cm_flags meta AND NOT (ucast kChunkNeedsPatching)
                           in (True, if other_patches_pending then tb
                                     else set_header_flags (cm_chunk_record meta) flags
                                            (tb\<lparr>tb_index := ix_set key (meta\<lparr>cm_flags := flags\<rparr>) (tb_index tb)\<rparr>))))
             })"

subsection \<open>Iterating over the chunks of a sequence\<close>

definition BeginRead :: "TraceBuffer \<Rightarrow> TraceBuffer" where
  "BeginRead tb = tb\<lparr>tb_read_iter := GetReadIterForSequence 0 tb\<rparr>"

definition it_valid :: "SequenceIterator \<Rightarrow> bool" where
  "it_valid it \<longleftrightarrow> it_cur it \<noteq> it_seq_end it"

definition MoveToEnd :: "SequenceIterator \<Rightarrow> SequenceIterator" where
  "MoveToEnd it = it\<lparr>it_cur := it_seq_end it\<rparr>"

definition key_at :: "nat \<Rightarrow> TraceBuffer \<Rightarrow> chunk_key" where
  "key_at p tb = fst (tb_index tb ! p)"

definition chunk_id_at :: "nat \<Rightarrow> TraceBuffer \<Rightarrow> u32" where
  "chunk_id_at p tb = snd (snd (key_at p tb))"

definition meta_at :: "nat \<Rightarrow> TraceBuffer \<Rightarrow> ChunkMeta" where
  "meta_at p tb = snd (tb_index tb ! p)"

definition MoveNext :: "TraceBuffer \<Rightarrow> SequenceIterator \<Rightarrow> SequenceIterator" where
  "MoveNext tb it =
     (if it_cur it = it_seq_end it \<or> chunk_id_at (it_cur it) tb = it_wrapping_id it then MoveToEnd it
      else if \<not> cm_complete (meta_at (it_cur it) tb) then MoveToEnd it
      else (let last_chunk_id = chunk_id_at (it_cur it) tb;
                cur = (if it_cur it + 1 = it_seq_end it then it_seq_begin it else it_cur it + 1)
            in if last_chunk_id + 1 \<noteq> chunk_id_at cur tb then MoveToEnd it else it\<lparr>it_cur := cur\<rparr>))"

subsection \<open>Packets of one chunk\<close>

type_synonym packet_slices = "(nat \<times> nat) list"

datatype ReadPacketResult = kSucceeded | kFailedInvalidPacket | kFailedEmptyPacket

definition kPacketSizeDropPacket :: u64 where "kPacketSizeDropPacket = word_of_nat kMaxMessageLength"

text \<open>All fragments of a complete chunk have been read.\<close>

definition count_chunk_read :: "ChunkMeta \<Rightarrow> ChunkRecord \<Rightarrow> TraceBuffer \<Rightarrow> TraceBuffer" where
  "count_chunk_read meta r tb =
     (if cm_complete meta
      then upd_stats (\<lambda>s. s\<lparr>bs_chunks_read := bs_chunks_read s + 1, bs_bytes_read := bs_bytes_read s + word_of_nat (cr_size r)\<rparr>) tb
      else tb)"

definition set_meta :: "chunk_key \<Rightarrow> ChunkMeta \<Rightarrow> TraceBuffer \<Rightarrow> TraceBuffer" where
  "set_meta key meta tb = tb\<lparr>tb_index := ix_set key meta (tb_index tb)\<rparr>"

definition skip_chunk :: "chunk_key \<Rightarrow> ChunkMeta \<Rightarrow> ChunkRecord \<Rightarrow> TraceBuffer \<Rightarrow> TraceBuffer" where
  "skip_chunk key meta r tb =
     count_chunk_read meta r (set_meta key (meta\<lparr>cm_cur_fragment_offset := 0, cm_num_fragments_read := cm_num_fragments meta\<rparr>) tb)"

definition ReadNextPacketInChunk :: "chunk_key \<Rightarrow> TraceBuffer \<Rightarrow> (ReadPacketResult \<times> packet_slices \<times> TraceBuffer) option" where
  "ReadNextPacketInChunk key tb =
     do {
       meta \<leftarrow> ix_find key (tb_index tb);
       r \<leftarrow> GetChunkRecordAt (cm_chunk_record meta) tb;
       let record_end = cm_chunk_record meta + cr_size r;
       let packets_begin = cm_chunk_record meta + kRecordSize;
       let packet_begin = packets_begin + cm_cur_fragment_offset meta;
       Some (if packet_begin < packets_begin \<or> packet_begin \<ge> record_end
             then (kFailedInvalidPacket, [], skip_chunk key meta r (abi_violation tb))
             else (let header_end = min (packet_begin + kMessageLengthFieldSize) record_end;
                       (packet_data, packet_size) = ParseVarInt (tb_data tb) packet_begin header_end;
                       next_packet = packet_data + unat packet_size
                   in if next_packet \<le> packet_begin \<or> next_packet > record_end
                      then (kFailedInvalidPacket, [],
                            skip_chunk key meta r
                              (if packet_size \<noteq> kPacketSizeDropPacket then abi_violation tb
                               else upd_stats (\<lambda>s. s\<lparr>bs_trace_writer_packet_loss := bs_trace_writer_packet_loss s + 1\<rparr>) tb))
                      else (let meta' = meta\<lparr>cm_cur_fragment_offset := (next_packet - packets_begin) mod 2 ^ 16,
                                             cm_num_fragments_read := (cm_num_fragments_read meta + 1) mod 2 ^ 16,
                                             cm_last_read_packet_skipped := False\<rparr>;
                                tb' = set_meta key meta' tb;
                                tb' = (if cm_num_fragments_read meta' = cm_num_fragments meta' then count_chunk_read meta' r tb' else tb')
                            in if packet_size = 0 then (kFailedEmptyPacket, [], tb')
                               else (kSucceeded, [(packet_data, unat packet_size)], tb'))))
     }"

subsection \<open>Packets that go over several chunks\<close>

datatype ReadAheadResult = kSucceededReturnSlices | kFailedMoveToNextSequence | kFailedStayOnSameSequence

text \<open>The first loop looks for the chunk in which the packet ends; the inner \<open>None\<close> is that there is none.\<close>

partial_function (option) ra_scan :: "TraceBuffer \<Rightarrow> SequenceIterator \<Rightarrow> u32 \<Rightarrow> SequenceIterator option option" where
  "ra_scan tb it next_chunk_id =
     (if \<not> it_valid it then Some None
      else (let meta = meta_at (it_cur it) tb
            in if cm_num_fragments meta = 0 then ra_scan tb (MoveNext tb it) (next_chunk_id + 1)
               else if chunk_id_at (it_cur it) tb \<noteq> next_chunk_id \<or> \<not> flag (cm_flags meta) kFirstPacketContinuesFromPrevChunk then Some None
               else if flag (cm_flags meta) kChunkNeedsPatching then Some None
               else if cm_num_fragments meta = 1 \<and> flag (cm_flags meta) kLastPacketContinuesOnNextChunk
               then ra_scan tb (MoveNext tb it) (next_chunk_id + 1)
               else Some (Some it)))"

text \<open>The second one reads the fragments up to that chunk.\<close>

partial_function (option) ra_commit :: "nat \<Rightarrow> bool \<Rightarrow> packet_slices \<Rightarrow> TraceBuffer \<Rightarrow> (bool \<times> packet_slices \<times> TraceBuffer) option" where
  "ra_commit target packet_corruption packet tb =
     (if \<not> it_valid (tb_read_iter tb) then None
      else do {
        (corrupt, slices, tb) \<leftarrow>
          (if cm_num_fragments (meta_at (it_cur (tb_read_iter tb)) tb) > 0
           then map_option (\<lambda>(res, slices, tb). (res = kFailedInvalidPacket, slices, tb))
                  (ReadNextPacketInChunk (key_at (it_cur (tb_read_iter tb)) tb) tb)
           else Some (False, [], tb));
        if it_cur (tb_read_iter tb) = target then Some (packet_corruption \<or> corrupt, packet @ slices, tb)
        else ra_commit target (packet_corruption \<or> corrupt) (packet @ slices) (tb\<lparr>tb_read_iter := MoveNext tb (tb_read_iter tb)\<rparr>)
      })"

definition ReadAhead :: "packet_slices \<Rightarrow> TraceBuffer \<Rightarrow> (ReadAheadResult \<times> packet_slices \<times> TraceBuffer) option" where
  "ReadAhead packet tb =
     do {
       found \<leftarrow> ra_scan tb (MoveNext tb (tb_read_iter tb)) (chunk_id_at (it_cur (tb_read_iter tb)) tb + 1);
       case found of
         None \<Rightarrow> Some (kFailedMoveToNextSequence, packet, tb)
       | Some it \<Rightarrow>
           map_option (\<lambda>(corrupt, slices, tb). if corrupt then (kFailedStayOnSameSequence, [], tb) else (kSucceededReturnSlices, slices, tb))
             (ra_commit (it_cur it) False packet tb)
     }"

subsection \<open>The next packet of the buffer\<close>

record PacketSequenceProperties =
  producer_id_trusted :: u16
  producer_uid_trusted :: u32
  sp_writer_id :: u16

datatype read_action = kSkip | kReadOnePacket | kTryReadAhead

definition action_for :: "ChunkMeta \<Rightarrow> read_action" where
  "action_for meta =
     (if cm_num_fragments_read meta = 0
      then (if flag (cm_flags meta) kFirstPacketContinuesFromPrevChunk then kSkip
            else if cm_num_fragments meta = 1 \<and> flag (cm_flags meta) kLastPacketContinuesOnNextChunk then kTryReadAhead
            else kReadOnePacket)
      else if cm_num_fragments_read meta < cm_num_fragments meta - 1 \<or> \<not> flag (cm_flags meta) kLastPacketContinuesOnNextChunk
      then kReadOnePacket
      else kTryReadAhead)"

definition set_skipped :: "chunk_key \<Rightarrow> TraceBuffer \<Rightarrow> TraceBuffer" where
  "set_skipped key tb =
     (case ix_find key (tb_index tb) of None \<Rightarrow> tb | Some meta \<Rightarrow> set_meta key (meta\<lparr>cm_last_read_packet_skipped := True\<rparr>) tb)"

definition cur_key :: "TraceBuffer \<Rightarrow> chunk_key" where
  "cur_key tb = key_at (it_cur (tb_read_iter tb)) tb"

text \<open>The loop over the fragments of the current chunk. It ends with a packet, or goes on to the next chunk.\<close>

partial_function (option) read_fragments :: "bool \<Rightarrow> packet_slices \<Rightarrow> TraceBuffer \<Rightarrow> (bool \<times> bool \<times> packet_slices \<times> TraceBuffer) option" where
  "read_fragments dropped packet tb =
     (if \<not> it_valid (tb_read_iter tb) then None
      else (let key = cur_key tb; meta = meta_at (it_cur (tb_read_iter tb)) tb
            in if \<not> cm_num_fragments_read meta < cm_num_fragments meta then Some (False, dropped, packet, tb)
               else (case action_for meta of
                       kSkip \<Rightarrow> do {
                         (_, _, tb) \<leftarrow> ReadNextPacketInChunk key tb;
                         read_fragments True packet (set_skipped key tb)
                       }
                     | kReadOnePacket \<Rightarrow> do {
                         (result, slices, tb) \<leftarrow> ReadNextPacketInChunk key tb;
                         (if result = kSucceeded then Some (True, dropped, packet @ slices, tb)
                          else if result = kFailedEmptyPacket then read_fragments dropped packet tb
                          else Some (False, True, packet, set_skipped key tb))
                       }
                     | kTryReadAhead \<Rightarrow> do {
                         (result, packet, tb) \<leftarrow> ReadAhead packet tb;
                         (if result = kSucceededReturnSlices
                          then Some (True, dropped, packet,
                                     upd_stats (\<lambda>s. s\<lparr>bs_readaheads_succeeded := bs_readaheads_succeeded s + 1\<rparr>) tb)
                          else if result = kFailedMoveToNextSequence
                          then Some (False, dropped, packet,
                                     upd_stats (\<lambda>s. s\<lparr>bs_readaheads_failed := bs_readaheads_failed s + 1\<rparr>)
                                       (tb\<lparr>tb_read_iter := MoveToEnd (tb_read_iter tb)\<rparr>))
                          else read_fragments True packet (set_skipped (cur_key tb) tb))
                       })))"

text \<open>The loop over the chunks and sequences; the result is what is returned, the packet, its sequence, whether the packet before it was
  dropped, and the buffer.\<close>

partial_function (option) read_packets ::
    "bool \<Rightarrow> packet_slices \<Rightarrow> TraceBuffer \<Rightarrow> (bool \<times> packet_slices \<times> PacketSequenceProperties \<times> bool \<times> TraceBuffer) option" where
  "read_packets dropped packet tb =
     (if \<not> it_valid (tb_read_iter tb) \<and> it_seq_end (tb_read_iter tb) = length (tb_index tb)
      then Some (False, packet, \<lparr>producer_id_trusted = 0, producer_uid_trusted = - 1, sp_writer_id = 0\<rparr>, False, tb)
      else (let (dropped, tb) =
                  (if \<not> it_valid (tb_read_iter tb)
                   then (True, tb\<lparr>tb_read_iter := GetReadIterForSequence (it_seq_end (tb_read_iter tb)) tb\<rparr>)
                   else (dropped, tb));
                meta = meta_at (it_cur (tb_read_iter tb)) tb
            in if flag (cm_flags meta) kChunkNeedsPatching
               then (let it = MoveToEnd (tb_read_iter tb) in read_packets dropped packet (tb\<lparr>tb_read_iter := MoveNext tb it\<rparr>))
               else (let props = \<lparr>producer_id_trusted = fst (cur_key tb), producer_uid_trusted = cm_trusted_uid meta,
                                  sp_writer_id = fst (snd (cur_key tb))\<rparr>;
                         dropped = (if cm_num_fragments_read meta > 0 then cm_last_read_packet_skipped meta else dropped)
                     in do {
                          (returned, dropped, packet, tb) \<leftarrow> read_fragments dropped packet tb;
                          (if returned then Some (True, packet, props, dropped, tb)
                           else read_packets dropped packet (tb\<lparr>tb_read_iter := MoveNext tb (tb_read_iter tb)\<rparr>))
                        })))"

definition ReadNextTracePacket ::
    "packet_slices \<Rightarrow> TraceBuffer \<Rightarrow> (bool \<times> packet_slices \<times> PacketSequenceProperties \<times> bool \<times> TraceBuffer) option" where
  "ReadNextTracePacket packet tb = read_packets True packet tb"

end
