(* ===== verification/Trace_Buffer_Packets.thy ===== *)
theory Trace_Buffer_Packets
  imports Trace_Buffer_Inv Trace_Buffer_Read
begin

section \<open>The central trace buffer: every read returns\<close>

text \<open>
  What the reader relies on and keeps. Reading changes only how far each chunk has been read, and the statistics. Every call
  of \<open>ReadNextTracePacket\<close> returns, a packet it returns lies inside the chunks of one sequence, and a client that reads
  until there is nothing left comes to an end.
\<close>

subsection \<open>What reading leaves alone\<close>

definition core :: "ChunkMeta \<Rightarrow> nat \<times> u32 \<times> bool \<times> u8 \<times> nat" where
  "core m = (cm_chunk_record m, cm_trusted_uid m, cm_complete m, cm_flags m, cm_num_fragments m)"

definition reads_only :: "TraceBuffer \<Rightarrow> TraceBuffer \<Rightarrow> bool" where
  "reads_only tb tb' \<longleftrightarrow> tb' = tb\<lparr>tb_index := tb_index tb', tb_stats := tb_stats tb', tb_read_iter := tb_read_iter tb'\<rparr> \<and>
     map (map_prod id core) (tb_index tb') = map (map_prod id core) (tb_index tb)"

lemma reads_refl: "reads_only tb tb"
  by (simp add: reads_only_def)

lemma reads_fields:
  assumes "reads_only tb tb'"
  shows "tb_data tb' = tb_data tb" "tb_headers tb' = tb_headers tb" "tb_size tb' = tb_size tb" "tb_wptr tb' = tb_wptr tb"
    "tb_max_chunk_size tb' = tb_max_chunk_size tb" "tb_policy tb' = tb_policy tb" "tb_discard_writes tb' = tb_discard_writes tb"
    "tb_last_chunk_id tb' = tb_last_chunk_id tb" "map (map_prod id core) (tb_index tb') = map (map_prod id core) (tb_index tb)"
proof -
  have "tb' = tb\<lparr>tb_index := tb_index tb', tb_stats := tb_stats tb', tb_read_iter := tb_read_iter tb'\<rparr>" using assms by (simp add: reads_only_def)
  then obtain x s i where "tb' = tb\<lparr>tb_index := x, tb_stats := s, tb_read_iter := i\<rparr>" by blast
  then show "tb_data tb' = tb_data tb" "tb_headers tb' = tb_headers tb" "tb_size tb' = tb_size tb" "tb_wptr tb' = tb_wptr tb"
    "tb_max_chunk_size tb' = tb_max_chunk_size tb" "tb_policy tb' = tb_policy tb" "tb_discard_writes tb' = tb_discard_writes tb"
    "tb_last_chunk_id tb' = tb_last_chunk_id tb" by simp_all
  show "map (map_prod id core) (tb_index tb') = map (map_prod id core) (tb_index tb)" using assms unfolding reads_only_def by blast
qed

lemma readsI:
  assumes "tb' = tb\<lparr>tb_index := x, tb_stats := s, tb_read_iter := i\<rparr>" and "map (map_prod id core) x = map (map_prod id core) (tb_index tb)"
  shows "reads_only tb tb'"
  using assms by (simp add: reads_only_def)

lemma reads_trans: "reads_only tb tb' \<Longrightarrow> reads_only tb' tb'' \<Longrightarrow> reads_only tb tb''"
proof -
  assume a: "reads_only tb tb'" "reads_only tb' tb''"
  obtain x s i where "tb' = tb\<lparr>tb_index := x, tb_stats := s, tb_read_iter := i\<rparr>" using a(1) unfolding reads_only_def by blast
  moreover obtain x' s' i' where "tb'' = tb'\<lparr>tb_index := x', tb_stats := s', tb_read_iter := i'\<rparr>" using a(2) unfolding reads_only_def by blast
  ultimately have "tb'' = tb\<lparr>tb_index := x', tb_stats := s', tb_read_iter := i'\<rparr>" by simp
  then show ?thesis using reads_fields(9) [OF a(1)] reads_fields(9) [OF a(2)] by (intro readsI [where x = x' and s = s' and i = i']) simp_all
qed

lemma reads_iter: "reads_only tb tb' \<Longrightarrow> reads_only tb (tb'\<lparr>tb_read_iter := i\<rparr>)" "reads_only tb tb' \<Longrightarrow> reads_only tb (tb'\<lparr>tb_stats := s\<rparr>)"
proof -
  assume a: "reads_only tb tb'"
  have "reads_only tb' (tb'\<lparr>tb_read_iter := i\<rparr>)" "reads_only tb' (tb'\<lparr>tb_stats := s\<rparr>)"
    by (simp_all add: reads_only_def)
  with reads_trans [OF a] show "reads_only tb (tb'\<lparr>tb_read_iter := i\<rparr>)" "reads_only tb (tb'\<lparr>tb_stats := s\<rparr>)" by blast+
qed

lemma reads_index:
  assumes "reads_only tb tb'"
  shows "length (tb_index tb') = length (tb_index tb)" "map fst (tb_index tb') = map fst (tb_index tb)"
    "p < length (tb_index tb) \<Longrightarrow> key_at p tb' = key_at p tb \<and> core (meta_at p tb') = core (meta_at p tb)"
proof -
  note eq = reads_fields(9) [OF assms]
  show len: "length (tb_index tb') = length (tb_index tb)" using eq by (metis length_map)
  have "map fst (map (map_prod id core) (tb_index tb')) = map fst (map (map_prod id core) (tb_index tb))" by (simp only: eq)
  then show "map fst (tb_index tb') = map fst (tb_index tb)" by (simp add: comp_def)
  show "key_at p tb' = key_at p tb \<and> core (meta_at p tb') = core (meta_at p tb)" if "p < length (tb_index tb)"
  proof -
    have "map (map_prod id core) (tb_index tb') ! p = map (map_prod id core) (tb_index tb) ! p" by (simp only: eq)
    with that len show ?thesis by (cases "tb_index tb' ! p"; cases "tb_index tb ! p") (simp add: key_at_def meta_at_def)
  qed
qed

lemma reads_find:
  assumes "reads_only tb tb'"
  shows "map_option core (ix_find k (tb_index tb')) = map_option core (ix_find k (tb_index tb))"
proof -
  have "map_of (map (map_prod id core) xs) k = map_option core (map_of xs k)" for xs :: chunk_map by (induction xs) auto
  from this [of "tb_index tb'"] this [of "tb_index tb"] show ?thesis by (simp add: reads_fields(9) [OF assms] ix_find_def)
qed

lemma reads_set_meta:
  assumes "distinct (map fst (tb_index tb))" and "ix_find k (tb_index tb) = Some m" and "core m' = core m"
  shows "reads_only tb (set_meta k m' tb)"
proof (rule readsI)
  show "set_meta k m' tb = tb\<lparr>tb_index := ix_set k m' (tb_index tb), tb_stats := tb_stats tb, tb_read_iter := tb_read_iter tb\<rparr>"
    by (simp add: set_meta_def)
  have "map (map_prod id core) (ix_set k m' xs) = map (map_prod id core) xs" if "distinct (map fst xs)" "map_of xs k = Some m" for xs
    using that
  proof (induction xs)
    case (Cons x xs)
    show ?case
    proof (cases "fst x = k")
      case True
      with Cons.prems have "k \<notin> fst ` set xs" "snd x = m" by auto
      then have "ix_set k m' xs = xs" unfolding ix_set_def by (intro map_idI) force
      with True \<open>snd x = m\<close> assms(3) show ?thesis by (cases x) (simp add: ix_set_def)
    next
      case False
      with Cons show ?thesis by (cases x) (auto simp: ix_set_def)
    qed
  qed simp
  then show "map (map_prod id core) (ix_set k m' (tb_index tb)) = map (map_prod id core) (tb_index tb)"
    using assms(1,2) by (simp add: ix_find_def)
qed

lemma reads_inv: "reads_only tb tb' \<Longrightarrow> tb_inv tb \<Longrightarrow> tb_inv tb'"
proof -
  assume r: "reads_only tb tb'" and "tb_inv tb"
  then obtain ls rs where l: "layout tb ls rs" "indexed tb (set (places 0 (ls @ rs)))" and ok: "sizes_ok tb" unfolding tb_inv_def by blast
  note f = reads_fields [OF r]
  have "layout tb' ls rs" "sizes_ok tb'" using l(1) ok f by (simp_all add: layout_def chained_def blank_from_def sizes_ok_def)
  moreover have "indexed tb' (set (places 0 (ls @ rs)))"
    unfolding indexed_def
  proof (intro conjI)
    show "distinct (map fst (tb_index tb'))" using l(2) reads_index(2) [OF r] by (simp add: indexed_def)
    show "\<forall>(q, x) \<in> set (places 0 (ls @ rs)). \<not> cr_is_padding x \<longrightarrow> (\<exists>m. ix_find (Key x) (tb_index tb') = Some m \<and> cm_chunk_record m = q)"
    proof (intro ballI, clarify)
      fix q x assume "(q, x) \<in> set (places 0 (ls @ rs))" "\<not> cr_is_padding x"
      then obtain m where "ix_find (Key x) (tb_index tb) = Some m" "cm_chunk_record m = q" using l(2) unfolding indexed_def by blast
      with reads_find [OF r, of "Key x"] show "\<exists>m. ix_find (Key x) (tb_index tb') = Some m \<and> cm_chunk_record m = q"
        by (auto simp: core_def)
    qed
    show "\<forall>k m. ix_find k (tb_index tb') = Some m \<longrightarrow> (\<exists>q x. (q, x) \<in> set (places 0 (ls @ rs)) \<and> Key x = k \<and> meta_of q x m)"
    proof (intro allI impI)
      fix k m assume "ix_find k (tb_index tb') = Some m"
      with reads_find [OF r, of k] obtain m0 where m0: "ix_find k (tb_index tb) = Some m0" "core m = core m0"
        by (cases "ix_find k (tb_index tb)") auto
      then obtain q x where "(q, x) \<in> set (places 0 (ls @ rs))" "Key x = k" "meta_of q x m0" using l(2) unfolding indexed_def by blast
      with m0(2) show "\<exists>q x. (q, x) \<in> set (places 0 (ls @ rs)) \<and> Key x = k \<and> meta_of q x m" by (auto simp: meta_of_def core_def)
    qed
  qed
  ultimately show "tb_inv tb'" unfolding tb_inv_def by blast
qed

subsection \<open>The state of a reader\<close>

definition writer_at :: "nat \<Rightarrow> TraceBuffer \<Rightarrow> u16 \<times> u16" where
  "writer_at p tb = (fst (key_at p tb), fst (snd (key_at p tb)))"

definition one_writer_in :: "nat \<Rightarrow> nat \<Rightarrow> TraceBuffer \<Rightarrow> bool" where
  "one_writer_in a b tb \<longleftrightarrow> (\<forall>i \<in> {a..<b}. \<forall>j \<in> {a..<b}. writer_at i tb = writer_at j tb)"

definition writer_border :: "nat \<Rightarrow> TraceBuffer \<Rightarrow> bool" where
  "writer_border p tb \<longleftrightarrow> (\<forall>i < p. \<forall>j \<in> {p..<length (tb_index tb)}. writer_at i tb < writer_at j tb)"

definition it_ok :: "TraceBuffer \<Rightarrow> SequenceIterator \<Rightarrow> bool" where
  "it_ok tb it \<longleftrightarrow> it_cur it \<le> it_seq_end it \<and> it_seq_end it \<le> length (tb_index tb) \<and>
     (it_valid it \<longrightarrow> it_seq_begin it \<le> it_cur it) \<and> one_writer_in (it_seq_begin it) (it_seq_end it) tb \<and>
     writer_border (it_seq_end it) tb"

definition reader_inv :: "TraceBuffer \<Rightarrow> bool" where
  "reader_inv tb \<longleftrightarrow> tb_inv tb \<and> sorted (map fst (tb_index tb)) \<and> (\<forall>(k, m) \<in> set (tb_index tb). cm_num_fragments m < 2 ^ 16)"

definition reader_ok :: "TraceBuffer \<Rightarrow> bool" where
  "reader_ok tb \<longleftrightarrow> reader_inv tb \<and> it_ok tb (tb_read_iter tb)"

lemma reads_reader_inv: "reads_only tb tb' \<Longrightarrow> reader_inv tb \<Longrightarrow> reader_inv tb'"
proof -
  assume r: "reads_only tb tb'" and i: "reader_inv tb"
  have "cm_num_fragments m < 2 ^ 16" if m: "(k, m) \<in> set (tb_index tb')" for k m
  proof -
    obtain p where p: "p < length (tb_index tb')" "tb_index tb' ! p = (k, m)" using m by (auto simp: in_set_conv_nth)
    then have "p < length (tb_index tb)" using reads_index(1) [OF r] by simp
    then have "tb_index tb ! p \<in> set (tb_index tb)" "core m = core (meta_at p tb)"
      using reads_index(3) [OF r, of p] p(2) by (simp_all add: meta_at_def)
    moreover from this(1) have "cm_num_fragments (meta_at p tb) < 2 ^ 16"
      using i unfolding reader_inv_def meta_at_def by (metis case_prodD prod.collapse)
    ultimately show ?thesis by (simp only: core_def prod.inject)
  qed
  then have "\<forall>(k, m) \<in> set (tb_index tb'). cm_num_fragments m < 2 ^ 16" by blast
  then show "reader_inv tb'" using i reads_inv [OF r] reads_index(2) [OF r] by (simp add: reader_inv_def)
qed

lemma reads_it_ok:
  assumes r: "reads_only tb tb'" and i: "it_ok tb it"
  shows "it_ok tb' it"
proof -
  have w: "writer_at j tb' = writer_at j tb" if "j < length (tb_index tb)" for j
    using reads_index(3) [OF r that] by (simp add: writer_at_def)
  then have "one_writer_in (it_seq_begin it) (it_seq_end it) tb'" using i unfolding it_ok_def one_writer_in_def
    by (metis atLeastLessThan_iff order_less_le_trans)
  moreover have "writer_border (it_seq_end it) tb'" using i w reads_index(1) [OF r] unfolding it_ok_def writer_border_def
    by (metis atLeastLessThan_iff order_less_le_trans)
  ultimately show ?thesis using i reads_index(1) [OF r] by (simp add: it_ok_def)
qed

lemma reads_reader_ok: "reads_only tb tb' \<Longrightarrow> reader_inv tb \<Longrightarrow> it_ok tb (tb_read_iter tb') \<Longrightarrow> reader_ok tb'"
  using reads_reader_inv reads_it_ok by (simp add: reader_ok_def)

lemma reads_MoveNext:
  assumes r: "reads_only tb tb'" and i: "it_ok tb it"
  shows "MoveNext tb' it = MoveNext tb it"
proof (cases "it_valid it")
  case False
  then show ?thesis by (simp add: MoveNext_def it_valid_def)
next
  case True
  let ?c = "if it_cur it + 1 = it_seq_end it then it_seq_begin it else it_cur it + 1"
  have c: "it_cur it < length (tb_index tb)" "?c < length (tb_index tb)" using i True by (auto simp: it_ok_def it_valid_def)
  have "chunk_id_at (it_cur it) tb' = chunk_id_at (it_cur it) tb" "chunk_id_at ?c tb' = chunk_id_at ?c tb"
    "cm_complete (meta_at (it_cur it) tb') = cm_complete (meta_at (it_cur it) tb)"
    using reads_index(3) [OF r c(1)] reads_index(3) [OF r c(2)] by (simp_all add: chunk_id_at_def core_def)
  then show ?thesis by (simp only: MoveNext_def Let_def)
qed

lemma MoveNext_cases:
  obtains (ends) "MoveNext tb it = MoveToEnd it"
  | (moves) c where "it_valid it" "MoveNext tb it = it\<lparr>it_cur := c\<rparr>" "c = (if it_cur it + 1 = it_seq_end it then it_seq_begin it else it_cur it + 1)"
      "chunk_id_at (it_cur it) tb \<noteq> it_wrapping_id it" "chunk_id_at c tb = chunk_id_at (it_cur it) tb + 1" "cm_complete (meta_at (it_cur it) tb)"
proof -
  define c where "c = (if it_cur it + 1 = it_seq_end it then it_seq_begin it else it_cur it + 1)"
  have eq: "MoveNext tb it = (if it_cur it = it_seq_end it \<or> chunk_id_at (it_cur it) tb = it_wrapping_id it then MoveToEnd it
      else if \<not> cm_complete (meta_at (it_cur it) tb) then MoveToEnd it
      else if chunk_id_at (it_cur it) tb + 1 \<noteq> chunk_id_at c tb then MoveToEnd it else it\<lparr>it_cur := c\<rparr>)"
    by (simp only: MoveNext_def Let_def c_def)
  show thesis
  proof (cases "it_cur it = it_seq_end it \<or> chunk_id_at (it_cur it) tb = it_wrapping_id it \<or> \<not> cm_complete (meta_at (it_cur it) tb) \<or>
      chunk_id_at (it_cur it) tb + 1 \<noteq> chunk_id_at c tb")
    case True
    then have "MoveNext tb it = MoveToEnd it" unfolding eq by argo
    then show thesis by (rule ends)
  next
    case False
    then have "MoveNext tb it = it\<lparr>it_cur := c\<rparr>" unfolding eq by simp
    then show thesis by (rule moves [of c, rotated]) (use False in \<open>simp_all add: it_valid_def c_def\<close>)
  qed
qed

lemma MoveNext_ok:
  assumes "it_ok tb it"
  shows "it_ok tb (MoveNext tb it)"
proof (cases rule: MoveNext_cases [of tb it, case_names ends moves])
  case ends
  then show ?thesis using assms by (simp add: it_ok_def MoveToEnd_def it_valid_def)
next
  case (moves c)
  with assms show ?thesis by (auto simp: it_ok_def it_valid_def)
qed

lemma MoveNext_fields: "it_seq_begin (MoveNext tb it) = it_seq_begin it" "it_seq_end (MoveNext tb it) = it_seq_end it"
  "it_wrapping_id (MoveNext tb it) = it_wrapping_id it"
  by (simp_all add: MoveNext_def MoveToEnd_def Let_def)

text \<open>The number of chunk ids up to the last one of the sequence: one less with every step.\<close>

definition to_go :: "TraceBuffer \<Rightarrow> SequenceIterator \<Rightarrow> nat" where
  "to_go tb it = (if it_valid it then Suc (unat (it_wrapping_id it - chunk_id_at (it_cur it) tb)) else 0)"

lemma MoveNext_to_go:
  assumes "it_valid it"
  shows "to_go tb (MoveNext tb it) < to_go tb it"
proof (cases rule: MoveNext_cases [of tb it, case_names ends moves])
  case ends
  then show ?thesis using assms by (simp add: to_go_def MoveToEnd_def it_valid_def)
next
  case (moves c)
  have ne: "it_wrapping_id it - chunk_id_at (it_cur it) tb \<noteq> 0" using moves(4) by simp
  have "it_wrapping_id it - chunk_id_at c tb = it_wrapping_id it - chunk_id_at (it_cur it) tb - 1"
    unfolding moves(5) by (rule diff_diff_eq [symmetric])
  then have "unat (it_wrapping_id it - chunk_id_at c tb) < unat (it_wrapping_id it - chunk_id_at (it_cur it) tb)"
    using measure_unat [OF ne] by (simp only:)
  with assms show ?thesis by (simp add: to_go_def moves(2))
qed

subsection \<open>Reading from one chunk\<close>

text \<open>The slice lies in the payload of the chunk.\<close>

definition in_payload :: "TraceBuffer \<Rightarrow> chunk_key \<Rightarrow> nat \<times> nat \<Rightarrow> bool" where
  "in_payload tb k sl \<longleftrightarrow>
     (case ix_find k (tb_index tb) of
        None \<Rightarrow> False
      | Some m \<Rightarrow>
          (case GetChunkRecordAt (cm_chunk_record m) tb of
             None \<Rightarrow> False
           | Some r \<Rightarrow> cm_chunk_record m + kRecordSize \<le> fst sl \<and> fst sl + snd sl \<le> cm_chunk_record m + cr_size r))"

definition left_in :: "ChunkMeta \<Rightarrow> nat" where
  "left_in m = cm_num_fragments m - cm_num_fragments_read m"

lemma reads_payload: "reads_only tb tb' \<Longrightarrow> in_payload tb' k sl = in_payload tb k sl"
proof -
  assume r: "reads_only tb tb'"
  have h: "GetChunkRecordAt p tb' = GetChunkRecordAt p tb" for p by (simp add: GetChunkRecordAt_def reads_fields [OF r])
  show ?thesis
  proof (cases "ix_find k (tb_index tb)")
    case None
    then show ?thesis using reads_find [OF r, of k] by (simp add: in_payload_def)
  next
    case (Some m)
    then obtain m' where m': "ix_find k (tb_index tb') = Some m'" "core m' = core m" using reads_find [OF r, of k] by auto
    then have c: "cm_chunk_record m' = cm_chunk_record m" by (simp add: core_def)
    show ?thesis unfolding in_payload_def Some m'(1) option.case h c by (rule refl)
  qed
qed

lemma count_chunk_read_same: "tb_index (count_chunk_read m r tb) = tb_index tb" "tb_read_iter (count_chunk_read m r tb) = tb_read_iter tb"
  "reads_only tb0 tb \<Longrightarrow> reads_only tb0 (count_chunk_read m r tb)"
  by (simp_all add: count_chunk_read_def reads_iter)

lemma find_set_meta: "ix_find k (tb_index (set_meta k' m tb)) =
    (if k = k' then map_option (\<lambda>_. m) (ix_find k (tb_index tb)) else ix_find k (tb_index tb))"
  by (simp add: set_meta_def ix_find_set)

lemma reader_header:
  assumes "tb_inv tb" and "ix_find k (tb_index tb) = Some m"
  obtains r where "GetChunkRecordAt (cm_chunk_record m) tb = Some r" "cm_chunk_record m + cr_size r \<le> length (tb_data tb)" "rec_ok r"
proof -
  obtain ls rs xs r ys where h: "sizes_ok tb" "ls @ rs = xs @ r # ys" "cm_chunk_record m = extent xs"
    "GetChunkRecordAt (extent xs) tb = Some r" "extent (ls @ rs) \<le> tb_size tb" "rec_ok r"
    using header_in_layout [OF assms] by metis
  then have "extent xs + cr_size r \<le> tb_size tb" by simp
  with h that [of r] show thesis by (simp add: sizes_ok_def)
qed

text \<open>What one call may do to the buffer: \<open>k\<close> is the chunk it reads from.\<close>

definition read_step :: "chunk_key \<Rightarrow> TraceBuffer \<Rightarrow> packet_slices \<Rightarrow> TraceBuffer \<Rightarrow> bool" where
  "read_step k tb sl tb' \<longleftrightarrow> reads_only tb tb' \<and> tb_read_iter tb' = tb_read_iter tb \<and> (\<forall>s \<in> set sl. in_payload tb k s) \<and>
     (\<forall>k'. k' \<noteq> k \<longrightarrow> ix_find k' (tb_index tb') = ix_find k' (tb_index tb)) \<and>
     (\<forall>m m'. ix_find k (tb_index tb) = Some m \<longrightarrow> ix_find k (tb_index tb') = Some m' \<longrightarrow> left_in m \<noteq> 0 \<longrightarrow> left_in m' < left_in m)"

lemma read_step_upd:
  assumes i: "reader_inv tb" and k: "ix_find k (tb_index tb) = Some m" and m': "core m' = core m" "left_in m \<noteq> 0 \<Longrightarrow> left_in m' < left_in m"
    and sl: "\<forall>s \<in> set sl. in_payload tb k s" and idx: "tb_index tb' = ix_set k m' (tb_index tb)"
    and rest: "reads_only (set_meta k m' tb) tb'" "tb_read_iter tb' = tb_read_iter tb"
  shows "read_step k tb sl tb'"
proof -
  have "distinct (map fst (tb_index tb))" using i by (auto simp: reader_inv_def tb_inv_def indexed_def)
  then have "reads_only tb tb'" using reads_trans [OF reads_set_meta [OF _ k m'(1)] rest(1)] by simp
  with m'(2) k sl rest(2) show ?thesis by (simp add: read_step_def idx ix_find_set)
qed

lemma set_meta_stats: "set_meta k m (tb\<lparr>tb_stats := s\<rparr>) = (set_meta k m tb)\<lparr>tb_stats := s\<rparr>"
  by (simp add: set_meta_def)

lemma skip_chunk_step:
  assumes "reader_inv tb" and "ix_find k (tb_index tb) = Some m"
  shows "read_step k tb [] (skip_chunk k m r (tb\<lparr>tb_stats := s\<rparr>))"
proof (rule read_step_upd [OF assms])
  let ?m = "m\<lparr>cm_cur_fragment_offset := 0, cm_num_fragments_read := cm_num_fragments m\<rparr>"
  show "core ?m = core m" by (simp add: core_def)
  show "left_in ?m < left_in m" if "left_in m \<noteq> 0" using that by (simp add: left_in_def)
  show "tb_index (skip_chunk k m r (tb\<lparr>tb_stats := s\<rparr>)) = ix_set k ?m (tb_index tb)"
    by (simp add: skip_chunk_def count_chunk_read_same set_meta_def)
  show "reads_only (set_meta k ?m tb) (skip_chunk k m r (tb\<lparr>tb_stats := s\<rparr>))"
    unfolding skip_chunk_def set_meta_stats by (intro count_chunk_read_same(3) reads_iter(2) reads_refl)
qed (simp_all add: skip_chunk_def count_chunk_read_same set_meta_def)

lemma ReadNextPacketInChunk_step:
  assumes i: "reader_inv tb" and k: "ix_find k (tb_index tb) = Some m"
  shows "\<exists>res sl tb'. ReadNextPacketInChunk k tb = Some (res, sl, tb') \<and> read_step k tb sl tb'"
proof -
  obtain r where r: "GetChunkRecordAt (cm_chunk_record m) tb = Some r" "cm_chunk_record m + cr_size r \<le> length (tb_data tb)" "rec_ok r"
    using reader_header [OF _ k] i by (auto simp: reader_inv_def)
  define b where "b = cm_chunk_record m + kRecordSize + cm_cur_fragment_offset m"
  define e where "e = cm_chunk_record m + cr_size r"
  have skip: "read_step k tb [] (skip_chunk k m r (abi_violation tb))" "read_step k tb [] (skip_chunk k m r (tb\<lparr>tb_stats := s\<rparr>))" for s
    unfolding abi_violation_def by (rule skip_chunk_step [OF i k])+
  show ?thesis
  proof (cases "b \<ge> e")
    case True
    then show ?thesis using k r(1) skip(1) by (simp add: ReadNextPacketInChunk_def Let_def b_def e_def)
  next
    case False
    obtain p n where v: "ParseVarInt (tb_data tb) b (min (b + kMessageLengthFieldSize) e) = (p, n)" by fastforce
    show ?thesis
    proof (cases "p + unat n \<le> b \<or> p + unat n > e")
      case True
      then show ?thesis using k r(1) skip False v
        by (cases "n = kPacketSizeDropPacket") (simp_all add: ReadNextPacketInChunk_def Let_def flip: b_def e_def)
    next
      case ok: False
      define m' where "m' = m\<lparr>cm_cur_fragment_offset := (p + unat n - (cm_chunk_record m + kRecordSize)) mod 2 ^ 16,
        cm_num_fragments_read := (cm_num_fragments_read m + 1) mod 2 ^ 16, cm_last_read_packet_skipped := False\<rparr>"
      define tb1 where "tb1 = (if cm_num_fragments_read m' = cm_num_fragments m' then count_chunk_read m' r (set_meta k m' tb) else set_meta k m' tb)"
      have read: "ReadNextPacketInChunk k tb =
          Some (if n = 0 then (kFailedEmptyPacket, [], tb1) else (kSucceeded, [(p, unat n)], tb1))"
        unfolding ReadNextPacketInChunk_def k r(1) bind.bind_lunit Let_def b_def [symmetric] e_def [symmetric] v prod.case
        using False ok by (simp add: m'_def tb1_def b_def e_def)
      have b_le: "b \<le> p" using v False by (auto simp: ParseVarInt_def split: option.splits dest: ParseVarInt_loop_bounds)
      have step: "read_step k tb sl tb1" if "\<forall>s \<in> set sl. in_payload tb k s" for sl
      proof (rule read_step_upd [OF i k _ _ that])
        show "core m' = core m" by (simp add: core_def m'_def)
        have "cm_num_fragments m < 2 ^ 16" using i k map_of_SomeD by (fastforce simp: reader_inv_def ix_find_def)
        then show "left_in m' < left_in m" if "left_in m \<noteq> 0" using that by (simp add: left_in_def m'_def)
      qed (simp_all add: tb1_def count_chunk_read_same set_meta_def reads_refl)
      have "in_payload tb k (p, unat n)" using k r(1) ok b_le by (simp add: in_payload_def e_def b_def)
      then show ?thesis using read step [of "[]"] step [of "[(p, unat n)]"] by simp
    qed
  qed
qed

subsection \<open>Reading ahead\<close>

abbreviation moves :: "TraceBuffer \<Rightarrow> nat \<Rightarrow> SequenceIterator \<Rightarrow> SequenceIterator" where
  "moves tb n \<equiv> MoveNext tb ^^ n"

lemma moves_ok: "it_ok tb it \<Longrightarrow> it_ok tb (moves tb n it)"
  by (induction n) (simp_all add: MoveNext_ok)

lemma reads_moves: "reads_only tb tb' \<Longrightarrow> it_ok tb it \<Longrightarrow> moves tb' n it = moves tb n it"
  by (induction n) (simp_all add: reads_MoveNext moves_ok)

lemma moves_fields: "it_seq_begin (moves tb n it) = it_seq_begin it" "it_seq_end (moves tb n it) = it_seq_end it"
  "it_wrapping_id (moves tb n it) = it_wrapping_id it"
  by (induction n) (simp_all add: MoveNext_fields)

lemma moves_to_go: "\<forall>j \<le> n. it_valid (moves tb j it) \<Longrightarrow> 0 < n \<Longrightarrow> to_go tb (moves tb n it) < to_go tb it"
proof (induction n)
  case (Suc n)
  have "to_go tb (moves tb (Suc n) it) < to_go tb (moves tb n it)" using Suc.prems(1) MoveNext_to_go by simp
  then show ?case using Suc by (cases n) (auto intro: less_trans)
qed simp

lemma ra_scan_returns:
  "\<exists>res. ra_scan tb it c = Some res \<and> (\<forall>it'. res = Some it' \<longrightarrow> (\<exists>n. it' = moves tb n it \<and> (\<forall>j \<le> n. it_valid (moves tb j it))))"
proof (induction "to_go tb it" arbitrary: it c rule: less_induct)
  case less
  show ?case
  proof (cases "it_valid it")
    case False
    then show ?thesis by (subst ra_scan.simps) simp
  next
    case True
    have rec: "\<exists>res. ra_scan tb (MoveNext tb it) (c + 1) = Some res \<and>
        (\<forall>it'. res = Some it' \<longrightarrow> (\<exists>n. it' = moves tb n it \<and> (\<forall>j \<le> n. it_valid (moves tb j it))))"
    proof -
      obtain res where res: "ra_scan tb (MoveNext tb it) (c + 1) = Some res"
        "\<forall>it'. res = Some it' \<longrightarrow> (\<exists>n. it' = moves tb n (MoveNext tb it) \<and> (\<forall>j \<le> n. it_valid (moves tb j (MoveNext tb it))))"
        using less [OF MoveNext_to_go [OF True]] by blast
      have "\<exists>n. it' = moves tb n it \<and> (\<forall>j \<le> n. it_valid (moves tb j it))" if it': "res = Some it'" for it'
      proof -
        obtain n where n: "it' = moves tb n (MoveNext tb it)" "\<forall>j \<le> n. it_valid (moves tb j (MoveNext tb it))" using res(2) it' by blast
        have "it_valid (moves tb j it)" if "j \<le> Suc n" for j
          using n(2) True that by (cases j) (simp_all add: funpow_swap1)
        with n(1) show ?thesis by (intro exI [of _ "Suc n"]) (simp add: funpow_swap1)
      qed
      with res(1) show ?thesis by blast
    qed
    have here: "\<exists>n. it = moves tb n it \<and> (\<forall>j \<le> n. it_valid (moves tb j it))" using True by (intro exI [of _ 0]) simp
    from rec here True show ?thesis by (subst ra_scan.simps) (auto simp: Let_def)
  qed
qed

definition seq_slices :: "TraceBuffer \<Rightarrow> u16 \<times> u16 \<Rightarrow> packet_slices \<Rightarrow> bool" where
  "seq_slices tb w sl \<longleftrightarrow> (\<forall>s \<in> set sl. \<exists>c. in_payload tb (fst w, snd w, c) s)"

lemma key_find:
  assumes "reader_inv tb" and "p < length (tb_index tb)"
  shows "ix_find (key_at p tb) (tb_index tb) = Some (meta_at p tb)"
proof -
  have "distinct (map fst (tb_index tb))" using assms(1) by (auto simp: reader_inv_def tb_inv_def indexed_def)
  moreover have "(key_at p tb, meta_at p tb) \<in> set (tb_index tb)" using assms(2) by (simp add: key_at_def meta_at_def)
  ultimately show ?thesis by (simp add: ix_find_def)
qed

lemma it_ok_cur: "it_ok tb it \<Longrightarrow> it_valid it \<Longrightarrow> it_cur it < length (tb_index tb)"
  by (auto simp: it_ok_def it_valid_def)

lemma it_ok_writer: "it_ok tb it \<Longrightarrow> it_valid it \<Longrightarrow> it_valid (moves tb n it) \<Longrightarrow> writer_at (it_cur (moves tb n it)) tb = writer_at (it_cur it) tb"
proof -
  assume i: "it_ok tb it" "it_valid it" "it_valid (moves tb n it)"
  have m: "it_ok tb (moves tb n it)" by (rule moves_ok [OF i(1)])
  have "it_cur it \<in> {it_seq_begin it..<it_seq_end it}" "it_cur (moves tb n it) \<in> {it_seq_begin it..<it_seq_end it}"
    using i m moves_fields [of n tb it] by (auto simp: it_ok_def it_valid_def)
  then show ?thesis using i(1) unfolding it_ok_def one_writer_in_def by blast
qed

lemma writer_key: "writer_at p tb = w \<Longrightarrow> key_at p tb = (fst w, snd w, chunk_id_at p tb)"
  by (auto simp: writer_at_def chunk_id_at_def)

lemma reads_seq_slices: "reads_only tb tb' \<Longrightarrow> seq_slices tb' w sl = seq_slices tb w sl"
  by (simp add: seq_slices_def reads_payload)

definition commit_read :: "TraceBuffer \<Rightarrow> (bool \<times> packet_slices \<times> TraceBuffer) option" where
  "commit_read tb =
     (if cm_num_fragments (meta_at (it_cur (tb_read_iter tb)) tb) > 0
      then map_option (\<lambda>(res, slices, tb). (res = kFailedInvalidPacket, slices, tb)) (ReadNextPacketInChunk (cur_key tb) tb)
      else Some (False, [], tb))"

lemma ra_commit_step:
  "ra_commit target pc pkt tb =
     (if \<not> it_valid (tb_read_iter tb) then None
      else commit_read tb \<bind> (\<lambda>(c, sl, tb1).
        if it_cur (tb_read_iter tb1) = target then Some (pc \<or> c, pkt @ sl, tb1)
        else ra_commit target (pc \<or> c) (pkt @ sl) (tb1\<lparr>tb_read_iter := MoveNext tb1 (tb_read_iter tb1)\<rparr>)))"
  by (subst ra_commit.simps) (simp add: commit_read_def cur_key_def)

lemma commit_read_returns:
  assumes "reader_ok tb" and "it_valid (tb_read_iter tb)"
  shows "\<exists>c sl tb1. commit_read tb = Some (c, sl, tb1) \<and> reads_only tb tb1 \<and> tb_read_iter tb1 = tb_read_iter tb \<and>
    seq_slices tb (writer_at (it_cur (tb_read_iter tb)) tb) sl"
proof (cases "cm_num_fragments (meta_at (it_cur (tb_read_iter tb)) tb) > 0")
  case False
  then show ?thesis by (auto simp: commit_read_def reads_refl seq_slices_def)
next
  case True
  let ?p = "it_cur (tb_read_iter tb)"
  have i: "reader_inv tb" "?p < length (tb_index tb)" using assms it_ok_cur by (auto simp: reader_ok_def)
  obtain res sl tb1 where r: "ReadNextPacketInChunk (key_at ?p tb) tb = Some (res, sl, tb1)" "read_step (key_at ?p tb) tb sl tb1"
    using ReadNextPacketInChunk_step [OF i(1) key_find [OF i]] by blast
  have "seq_slices tb (writer_at ?p tb) sl"
    using r(2) writer_key [OF refl, of ?p tb] unfolding read_step_def seq_slices_def by metis
  with r True show ?thesis by (simp add: commit_read_def cur_key_def read_step_def)
qed

lemma ra_commit_returns:
  assumes "reader_ok tb" and "\<forall>j \<le> n. it_valid (moves tb j (tb_read_iter tb))" and "it_cur (moves tb n (tb_read_iter tb)) = target"
  shows "\<exists>c sl tb'. ra_commit target pc pkt tb = Some (c, pkt @ sl, tb') \<and> reads_only tb tb' \<and> it_cur (tb_read_iter tb') = target \<and>
    (\<exists>j \<le> n. tb_read_iter tb' = moves tb j (tb_read_iter tb)) \<and> seq_slices tb (writer_at (it_cur (tb_read_iter tb)) tb) sl"
  using assms
proof (induction n arbitrary: tb pc pkt)
  case 0
  then obtain c sl tb1 where "commit_read tb = Some (c, sl, tb1)" "reads_only tb tb1" "tb_read_iter tb1 = tb_read_iter tb"
    "seq_slices tb (writer_at (it_cur (tb_read_iter tb)) tb) sl" using commit_read_returns [of tb] by auto
  with 0 show ?case by (subst ra_commit_step) auto
next
  case (Suc n)
  let ?it = "tb_read_iter tb"
  have v: "it_valid ?it" using Suc.prems(2) by force
  have ok: "reader_inv tb" "it_ok tb ?it" using Suc.prems(1) by (simp_all add: reader_ok_def)
  obtain c sl tb1 where r: "commit_read tb = Some (c, sl, tb1)" "reads_only tb tb1" "tb_read_iter tb1 = ?it"
    "seq_slices tb (writer_at (it_cur ?it) tb) sl" using commit_read_returns [OF Suc.prems(1) v] by blast
  show ?case
  proof (cases "it_cur ?it = target")
    case True
    with r v show ?thesis by (subst ra_commit_step) (auto intro!: exI [of _ 0])
  next
    case False
    let ?tb2 = "tb1\<lparr>tb_read_iter := MoveNext tb1 ?it\<rparr>"
    have r2: "reads_only tb ?tb2" by (rule reads_iter(1) [OF r(2)])
    have it2: "tb_read_iter ?tb2 = MoveNext tb ?it" using reads_MoveNext [OF r(2) ok(2)] by simp
    have ok2: "reader_ok ?tb2" by (rule reads_reader_ok [OF r2 ok(1)]) (simp add: it2 MoveNext_ok [OF ok(2)] del: TraceBuffer.simps)
    have path: "moves ?tb2 j (tb_read_iter ?tb2) = moves tb (Suc j) ?it" for j
      using reads_moves [OF r2 MoveNext_ok [OF ok(2)], of j] unfolding it2 by (simp add: funpow_swap1)
    have "\<forall>j \<le> n. it_valid (moves ?tb2 j (tb_read_iter ?tb2))" unfolding path using Suc.prems(2) by (meson Suc_le_mono)
    moreover have "it_cur (moves ?tb2 n (tb_read_iter ?tb2)) = target" unfolding path by (rule Suc.prems(3))
    ultimately obtain c' sl' tb' where t: "ra_commit target (pc \<or> c) (pkt @ sl) ?tb2 = Some (c', (pkt @ sl) @ sl', tb')" "reads_only ?tb2 tb'"
      "it_cur (tb_read_iter tb') = target" "\<exists>j \<le> n. tb_read_iter tb' = moves ?tb2 j (tb_read_iter ?tb2)"
      "seq_slices ?tb2 (writer_at (it_cur (tb_read_iter ?tb2)) ?tb2) sl'"
      using Suc.IH [OF ok2] by blast
    have "ra_commit target pc pkt tb = Some (c', pkt @ sl @ sl', tb')"
      using r(1,3) v False t(1) by (subst ra_commit_step) simp
    moreover have "\<exists>j \<le> Suc n. tb_read_iter tb' = moves tb j ?it" using t(4) unfolding path by (meson Suc_le_mono)
    moreover have "seq_slices tb (writer_at (it_cur ?it) tb) (sl @ sl')"
    proof -
      have v2: "it_valid (moves tb 1 ?it)" using Suc.prems(2) by (metis One_nat_def Suc_le_mono le0)
      then have "it_cur (MoveNext tb ?it) < length (tb_index tb)" using it_ok_cur [OF moves_ok [OF ok(2)] v2] by simp
      then have "writer_at (it_cur (tb_read_iter ?tb2)) ?tb2 = writer_at (it_cur (MoveNext tb ?it)) tb"
        using reads_index(3) [OF r2] unfolding it2 writer_at_def by simp
      also have "\<dots> = writer_at (it_cur ?it) tb" using it_ok_writer [OF ok(2) v v2] by simp
      finally have "seq_slices tb (writer_at (it_cur ?it) tb) sl'" using t(5) reads_seq_slices [OF r2] by metis
      with r(4) show ?thesis by (auto simp: seq_slices_def)
    qed
    ultimately show ?thesis using reads_trans [OF r2 t(2)] t(3) by (metis append.assoc)
  qed
qed

lemma reads_to_go: "reads_only tb tb' \<Longrightarrow> it_ok tb it \<Longrightarrow> to_go tb' it = to_go tb it"
  using reads_index(3) [of tb tb' "it_cur it"] it_ok_cur [of tb it] by (cases "it_valid it") (simp_all add: to_go_def chunk_id_at_def)

lemma ReadAhead_returns:
  assumes "reader_ok tb" and v: "it_valid (tb_read_iter tb)" and pkt: "seq_slices tb (writer_at (it_cur (tb_read_iter tb)) tb) packet"
  obtains (nothing) "ReadAhead packet tb = Some (kFailedMoveToNextSequence, packet, tb)"
  | (ahead) res sl tb' n where "ReadAhead packet tb = Some (res, sl, tb')" "res \<noteq> kFailedMoveToNextSequence" "reads_only tb tb'" "reader_ok tb'"
      "tb_read_iter tb' = moves tb n (tb_read_iter tb)" "it_valid (tb_read_iter tb')"
      "to_go tb' (tb_read_iter tb') < to_go tb (tb_read_iter tb)" "seq_slices tb (writer_at (it_cur (tb_read_iter tb)) tb) sl"
      "res = kFailedStayOnSameSequence \<Longrightarrow> sl = []"
proof -
  let ?it = "tb_read_iter tb"
  have ok: "reader_inv tb" "it_ok tb ?it" using assms(1) by (simp_all add: reader_ok_def)
  obtain found where f: "ra_scan tb (MoveNext tb ?it) (chunk_id_at (it_cur ?it) tb + 1) = Some found"
    "\<forall>it'. found = Some it' \<longrightarrow> (\<exists>n. it' = moves tb n (MoveNext tb ?it) \<and> (\<forall>j \<le> n. it_valid (moves tb j (MoveNext tb ?it))))"
    using ra_scan_returns by blast
  show thesis
  proof (cases found)
    case None
    show thesis by (rule nothing) (use f(1) None in \<open>simp add: ReadAhead_def\<close>)
  next
    case (Some it')
    then obtain n where n: "it' = moves tb n (MoveNext tb ?it)" "\<forall>j \<le> n. it_valid (moves tb j (MoveNext tb ?it))" using f(2) by blast
    have path: "it' = moves tb (Suc n) ?it" using n(1) by (simp add: funpow_swap1)
    have valid: "it_valid (moves tb j ?it)" if "j \<le> Suc n" for j
      using n(2) v that by (cases j) (simp_all add: funpow_swap1)
    obtain c sl tb' j where t: "ra_commit (it_cur it') False packet tb = Some (c, packet @ sl, tb')" "reads_only tb tb'"
      "it_cur (tb_read_iter tb') = it_cur it'" "j \<le> Suc n" "tb_read_iter tb' = moves tb j ?it"
      "seq_slices tb (writer_at (it_cur ?it) tb) sl"
      using ra_commit_returns [OF assms(1), of "Suc n" "it_cur it'" False packet] valid path by blast
    have less: "to_go tb it' < to_go tb ?it" unfolding path by (rule moves_to_go) (use valid in auto)
    have "to_go tb (tb_read_iter tb') = to_go tb it'"
      using t(3,5) valid [OF t(4)] valid [of "Suc n"] path by (simp add: to_go_def moves_fields MoveNext_fields)
    moreover have it_ok': "it_ok tb (tb_read_iter tb')" using moves_ok [OF ok(2)] t(5) by simp
    ultimately have dec: "to_go tb' (tb_read_iter tb') < to_go tb ?it" using less reads_to_go [OF t(2)] by simp
    show thesis
      by (rule ahead [of "if c then kFailedStayOnSameSequence else kSucceededReturnSlices" "if c then [] else packet @ sl" tb' j])
        (use f(1) Some t pkt dec reads_reader_ok [OF t(2) ok(1) it_ok'] valid [OF t(4)] in \<open>simp_all add: ReadAhead_def seq_slices_def ball_Un split: if_splits\<close>)
  qed
qed

end
