(* ===== verification/Trace_Buffer_Reader.thy ===== *)
theory Trace_Buffer_Reader
  imports Trace_Buffer_Packets
begin

section \<open>The central trace buffer: every read returns\<close>

subsection \<open>The fragments of one chunk\<close>

text \<open>What is still to be read at the iterator: chunks to go, then fragments of the current one.\<close>

definition effort :: "TraceBuffer \<Rightarrow> nat \<times> nat" where
  "effort tb = (to_go tb (tb_read_iter tb), left_in (meta_at (it_cur (tb_read_iter tb)) tb))"

lemma effort_go: "to_go tb' (tb_read_iter tb') < to_go tb (tb_read_iter tb) \<Longrightarrow> effort tb' < effort tb"
  by (simp add: effort_def less_prod_def)

lemma effort_stats: "effort (tb\<lparr>tb_stats := s\<rparr>) = effort tb"
  by (simp add: effort_def to_go_def meta_at_def chunk_id_at_def key_at_def)

lemma set_skipped_reads:
  assumes "reader_inv tb"
  shows "reads_only tb (set_skipped k tb)" "tb_read_iter (set_skipped k tb) = tb_read_iter tb"
    "map_option left_in (ix_find k' (tb_index (set_skipped k tb))) = map_option left_in (ix_find k' (tb_index tb))"
proof -
  have d: "distinct (map fst (tb_index tb))" using assms by (auto simp: reader_inv_def tb_inv_def indexed_def)
  show "reads_only tb (set_skipped k tb)" "tb_read_iter (set_skipped k tb) = tb_read_iter tb"
    "map_option left_in (ix_find k' (tb_index (set_skipped k tb))) = map_option left_in (ix_find k' (tb_index tb))"
    using reads_set_meta [OF d, of k]
    by (auto simp: set_skipped_def reads_refl core_def left_in_def set_meta_def ix_find_set split: option.splits)
qed

lemma left_in_at:
  assumes "reader_inv tb" "reads_only tb tb'" "p < length (tb_index tb)"
  shows "ix_find (key_at p tb) (tb_index tb) = Some (meta_at p tb)" "ix_find (key_at p tb) (tb_index tb') = Some (meta_at p tb')"
  using key_find [OF assms(1,3)] key_find [OF reads_reader_inv [OF assms(2,1)], of p] reads_index [OF assms(2)] assms(3) by simp_all

text \<open>Steps of the reader that stay with one sequence.\<close>

definition on_sequence :: "TraceBuffer \<Rightarrow> TraceBuffer \<Rightarrow> bool" where
  "on_sequence tb tb' \<longleftrightarrow> reads_only tb tb' \<and> reader_ok tb' \<and> (\<exists>n. tb_read_iter tb' = moves tb n (tb_read_iter tb))"

lemma on_sequence_writer:
  assumes "reader_ok tb" "it_valid (tb_read_iter tb)" "on_sequence tb tb'" "it_valid (tb_read_iter tb')"
  shows "writer_at (it_cur (tb_read_iter tb')) tb' = writer_at (it_cur (tb_read_iter tb)) tb"
proof -
  obtain n where n: "tb_read_iter tb' = moves tb n (tb_read_iter tb)" and r: "reads_only tb tb'" "reader_ok tb'"
    using assms(3) by (auto simp: on_sequence_def)
  have "it_cur (tb_read_iter tb') < length (tb_index tb)"
    using it_ok_cur [of tb'] r(2) assms(4) reads_index(1) [OF r(1)] by (auto simp: reader_ok_def)
  then have "writer_at (it_cur (tb_read_iter tb')) tb' = writer_at (it_cur (tb_read_iter tb')) tb"
    using reads_index(3) [OF r(1)] by (simp add: writer_at_def)
  with it_ok_writer [OF _ assms(2), of tb n] assms(1,4) n show ?thesis by (simp add: reader_ok_def)
qed

lemma on_sequence_trans:
  assumes "reader_ok tb" "on_sequence tb tb'" "on_sequence tb' tb''"
  shows "on_sequence tb tb''"
proof -
  obtain n m where n: "tb_read_iter tb' = moves tb n (tb_read_iter tb)" "tb_read_iter tb'' = moves tb' m (tb_read_iter tb')"
    and r: "reads_only tb tb'" "reads_only tb' tb''" "reader_ok tb''" using assms(2,3) by (auto simp: on_sequence_def)
  have "it_ok tb (tb_read_iter tb')" using assms(1) n(1) by (simp add: reader_ok_def moves_ok)
  then have "tb_read_iter tb'' = moves tb (m + n) (tb_read_iter tb)" using n reads_moves [OF r(1)] by (simp add: funpow_add)
  with r reads_trans show ?thesis unfolding on_sequence_def by blast
qed

lemma on_sequence_same: "reads_only tb tb' \<Longrightarrow> reader_ok tb \<Longrightarrow> tb_read_iter tb' = tb_read_iter tb \<Longrightarrow> on_sequence tb tb'"
  by (auto simp: on_sequence_def reader_ok_def reads_reader_inv reads_it_ok intro: exI [of _ 0])

lemma one_packet:
  assumes ok: "reader_ok tb" and v: "it_valid (tb_read_iter tb)" and left: "left_in (meta_at (it_cur (tb_read_iter tb)) tb) \<noteq> 0"
  obtains res sl tb' where "ReadNextPacketInChunk (cur_key tb) tb = Some (res, sl, tb')" "on_sequence tb tb'"
    "tb_read_iter tb' = tb_read_iter tb" "seq_slices tb (writer_at (it_cur (tb_read_iter tb)) tb) sl" "effort tb' < effort tb"
proof -
  let ?p = "it_cur (tb_read_iter tb)"
  have i: "reader_inv tb" "it_ok tb (tb_read_iter tb)" "?p < length (tb_index tb)" using ok v it_ok_cur by (auto simp: reader_ok_def)
  obtain res sl tb' where r: "ReadNextPacketInChunk (cur_key tb) tb = Some (res, sl, tb')" "read_step (cur_key tb) tb sl tb'"
    using ReadNextPacketInChunk_step [OF i(1) key_find [OF i(1,3)]] unfolding cur_key_def by blast
  have s: "reads_only tb tb'" "tb_read_iter tb' = tb_read_iter tb" "\<forall>s \<in> set sl. in_payload tb (cur_key tb) s" using r(2) by (auto simp: read_step_def)
  have "left_in (meta_at ?p tb') < left_in (meta_at ?p tb)"
    using r(2) left left_in_at [OF i(1) s(1) i(3)] unfolding read_step_def cur_key_def by blast
  then have "effort tb' < effort tb" using s(2) reads_to_go [OF s(1) i(2)] by (simp add: effort_def less_prod_def)
  moreover have "seq_slices tb (writer_at ?p tb) sl"
    using s(3) writer_key [OF refl, of ?p tb] unfolding seq_slices_def cur_key_def by metis
  ultimately show thesis using that r(1) s on_sequence_same [OF s(1) ok] by blast
qed

lemma skipped_step:
  assumes ok: "reader_ok tb" and v: "it_valid (tb_read_iter tb)"
  shows "on_sequence tb (set_skipped k tb)" "effort (set_skipped k tb) = effort tb"
proof -
  let ?p = "it_cur (tb_read_iter tb)"
  have i: "reader_inv tb" "it_ok tb (tb_read_iter tb)" "?p < length (tb_index tb)" using ok v it_ok_cur by (auto simp: reader_ok_def)
  note s = set_skipped_reads [OF i(1)]
  show "on_sequence tb (set_skipped k tb)" by (rule on_sequence_same [OF s(1) ok s(2)])
  have "left_in (meta_at ?p (set_skipped k tb)) = left_in (meta_at ?p tb)"
    using s(3) [where k = k and k' = "key_at ?p tb"] left_in_at [OF i(1) s(1) i(3)] by simp
  then show "effort (set_skipped k tb) = effort tb" using s(2) reads_to_go [OF s(1) i(2)] by (simp add: effort_def)
qed

text \<open>What the loop over the fragments gives back.\<close>

definition fragments_read :: "TraceBuffer \<Rightarrow> (bool \<times> bool \<times> packet_slices \<times> TraceBuffer) option \<Rightarrow> bool" where
  "fragments_read tb x \<longleftrightarrow>
     (case x of
        None \<Rightarrow> False
      | Some (returned, dropped, packet, tb') \<Rightarrow>
          reads_only tb tb' \<and> reader_ok tb' \<and> it_seq_end (tb_read_iter tb') = it_seq_end (tb_read_iter tb) \<and>
          to_go tb' (tb_read_iter tb') \<le> to_go tb (tb_read_iter tb) \<and>
          (if returned then effort tb' < effort tb \<and> seq_slices tb (writer_at (it_cur (tb_read_iter tb)) tb) packet else packet = []))"

lemma effort_le: "effort tb' \<le> effort tb \<Longrightarrow> to_go tb' (tb_read_iter tb') \<le> to_go tb (tb_read_iter tb)"
  by (auto simp: effort_def less_eq_prod_def)

lemma fragments_read_step:
  assumes ok: "reader_ok tb" "it_valid (tb_read_iter tb)" and s: "on_sequence tb tb1" "it_valid (tb_read_iter tb1)" "effort tb1 \<le> effort tb"
    and x: "fragments_read tb1 x"
  shows "fragments_read tb x"
proof -
  obtain ret d pk tb' where r: "x = Some (ret, d, pk, tb')" using x by (auto simp: fragments_read_def split: option.splits)
  have w: "writer_at (it_cur (tb_read_iter tb1)) tb1 = writer_at (it_cur (tb_read_iter tb)) tb" by (rule on_sequence_writer [OF ok s(1,2)])
  obtain n where n: "tb_read_iter tb1 = moves tb n (tb_read_iter tb)" and r1: "reads_only tb tb1" using s(1) by (auto simp: on_sequence_def)
  have "it_seq_end (tb_read_iter tb1) = it_seq_end (tb_read_iter tb)" by (simp add: n moves_fields)
  moreover have "seq_slices tb1 (writer_at (it_cur (tb_read_iter tb1)) tb1) pk = seq_slices tb (writer_at (it_cur (tb_read_iter tb)) tb) pk"
    using reads_seq_slices [OF r1] w by simp
  moreover have "to_go tb1 (tb_read_iter tb1) \<le> to_go tb (tb_read_iter tb)" by (rule effort_le [OF s(3)])
  moreover have "effort tb' < effort tb1 \<Longrightarrow> effort tb' < effort tb" by (rule less_le_trans [OF _ s(3)])
  ultimately show ?thesis using x r reads_trans [OF r1] by (cases ret) (auto simp: fragments_read_def)
qed

lemma read_fragments_returns:
  "reader_ok tb \<Longrightarrow> it_valid (tb_read_iter tb) \<Longrightarrow> fragments_read tb (read_fragments dropped [] tb)"
proof (induction "effort tb" arbitrary: tb dropped rule: less_induct)
  case less
  note ok = less.prems
  have again: "fragments_read tb (read_fragments d [] tb1)" if "on_sequence tb tb1" "it_valid (tb_read_iter tb1)" "effort tb1 < effort tb" for tb1 d
    using fragments_read_step [OF ok that(1,2)] less.hyps [OF that(3)] that by (simp add: on_sequence_def)
  have skip: "on_sequence tb (set_skipped k tb1)" "it_valid (tb_read_iter (set_skipped k tb1))" "effort (set_skipped k tb1) < effort tb"
    if "on_sequence tb tb1" "it_valid (tb_read_iter tb1)" "effort tb1 < effort tb" for k tb1
  proof -
    have o1: "reader_ok tb1" using that(1) by (simp add: on_sequence_def)
    note s = skipped_step [OF o1 that(2), of k]
    show "on_sequence tb (set_skipped k tb1)" by (rule on_sequence_trans [OF ok(1) that(1) s(1)])
    have "tb_read_iter (set_skipped k tb1) = tb_read_iter tb1" using o1 set_skipped_reads(2) by (simp add: reader_ok_def)
    with that(2) show "it_valid (tb_read_iter (set_skipped k tb1))" by simp
    show "effort (set_skipped k tb1) < effort tb" using s(2) that(3) by simp
  qed
  have stays: "reads_only tb tb1 \<and> reader_ok tb1 \<and> it_seq_end (tb_read_iter tb1) = it_seq_end (tb_read_iter tb) \<and>
      to_go tb1 (tb_read_iter tb1) \<le> to_go tb (tb_read_iter tb)" if "on_sequence tb tb1" "effort tb1 \<le> effort tb" for tb1
    using that effort_le by (auto simp: on_sequence_def moves_fields)
  let ?p = "it_cur (tb_read_iter tb)"
  let ?m = "meta_at ?p tb"
  note unfold = read_fragments.simps [of dropped "[]" tb]
  show ?case
  proof (cases "cm_num_fragments_read ?m < cm_num_fragments ?m")
    case False
    then show ?thesis using ok by (subst unfold) (simp add: fragments_read_def reads_refl)
  next
    case True
    then have "left_in ?m \<noteq> 0" by (simp add: left_in_def)
    then obtain res sl tb1 where one: "ReadNextPacketInChunk (cur_key tb) tb = Some (res, sl, tb1)" "on_sequence tb tb1"
      "tb_read_iter tb1 = tb_read_iter tb" "seq_slices tb (writer_at ?p tb) sl" "effort tb1 < effort tb"
      by (rule one_packet [OF ok])
    have v1: "it_valid (tb_read_iter tb1)" using one(3) ok(2) by simp
    note sk = skip [OF one(2) v1 one(5), of "cur_key tb"]
    show ?thesis
    proof (cases "action_for ?m")
      case kSkip
      with again [OF sk, of True] True one(1) ok(2) show ?thesis by (subst unfold) (simp add: Let_def)
    next
      case kReadOnePacket
      have "fragments_read tb (Some (True, dropped, sl, tb1))" "fragments_read tb (Some (False, True, [], set_skipped (cur_key tb) tb1))"
        using stays [OF one(2)] stays [OF sk(1)] one(4,5) sk(3) by (simp_all add: fragments_read_def)
      with again [OF one(2) v1 one(5), of dropped] kReadOnePacket True one(1) ok(2) show ?thesis by (subst unfold) (simp add: Let_def)
    next
      case kTryReadAhead
      have nil: "seq_slices tb (writer_at ?p tb) []" by (simp add: seq_slices_def)
      show ?thesis
      proof (cases rule: ReadAhead_returns [OF ok nil, case_names nothing ahead])
        assume eq: "ReadAhead [] tb = Some (kFailedMoveToNextSequence, [], tb)"
        let ?tb2 = "tb\<lparr>tb_read_iter := MoveToEnd (tb_read_iter tb), tb_stats := (tb_stats tb)\<lparr>bs_readaheads_failed := bs_readaheads_failed (tb_stats tb) + 1\<rparr>\<rparr>"
        have "reads_only tb ?tb2" by (simp add: reads_only_def)
        moreover from this have "reader_ok ?tb2"
          by (rule reads_reader_ok) (use ok in \<open>simp_all add: reader_ok_def it_ok_def MoveToEnd_def it_valid_def\<close>)
        ultimately have "fragments_read tb (Some (False, dropped, [], ?tb2))"
          by (simp add: fragments_read_def MoveToEnd_def to_go_def it_valid_def)
        then show ?thesis using kTryReadAhead True ok(2) by (subst unfold) (simp add: Let_def eq)
      next
        case (ahead res sl tb2 n)
        have s2: "on_sequence tb tb2" using ahead(3,4,5) by (auto simp: on_sequence_def)
        have e2: "effort tb2 < effort tb" by (rule effort_go [OF ahead(7)])
        let ?ret = "tb2\<lparr>tb_stats := (tb_stats tb2)\<lparr>bs_readaheads_succeeded := bs_readaheads_succeeded (tb_stats tb2) + 1\<rparr>\<rparr>"
        have "on_sequence tb2 ?ret" by (rule on_sequence_same) (use ahead(4) in \<open>simp_all add: reads_only_def\<close>)
        with s2 ok have s3: "on_sequence tb ?ret" by (blast intro: on_sequence_trans)
        have e3: "effort ?ret < effort tb" using e2 by (simp only: effort_stats)
        have "fragments_read tb (Some (True, dropped, sl, ?ret))"
          using stays [OF s3] e3 ahead(8) by (simp add: fragments_read_def)
        moreover have "fragments_read tb (read_fragments True [] (set_skipped (cur_key tb2) tb2))"
          by (rule again [OF skip [OF s2 ahead(6) e2]])
        ultimately show ?thesis using ahead(1,2,9) kTryReadAhead True ok(2) by (subst unfold) (cases res; simp add: Let_def)
      qed
    qed
  qed
qed

subsection \<open>From sequence to sequence\<close>

lemma before_upper_bound:
  assumes "sorted (map fst xs)" and "i < length xs"
  shows "i < upper_bound k xs \<longleftrightarrow> fst (xs ! i) \<le> k"
proof
  let ?w = "takeWhile (\<lambda>(k', m). k' \<le> k) xs"
  show "fst (xs ! i) \<le> k" if "i < upper_bound k xs"
  proof -
    have "?w ! i \<in> set ?w" using that by (simp add: upper_bound_def)
    then have "(\<lambda>(k', m). k' \<le> k) (?w ! i)" by (rule set_takeWhileD [THEN conjunct2])
    then show ?thesis using that by (simp add: upper_bound_def takeWhile_nth case_prod_beta)
  qed
  show "i < upper_bound k xs" if "fst (xs ! i) \<le> k"
  proof (rule ccontr)
    assume "\<not> i < upper_bound k xs"
    then have le: "length ?w \<le> i" by (simp add: upper_bound_def)
    then have n: "length ?w < length xs" using assms(2) by simp
    then have "\<not> (\<lambda>(k', m). k' \<le> k) (xs ! length ?w)" by (rule nth_length_takeWhile)
    moreover have "fst (xs ! length ?w) \<le> fst (xs ! i)" using sorted_nth_mono [OF assms(1) le] assms(2) n by simp
    ultimately show False using that by (auto simp: case_prod_beta)
  qed
qed

lemma upper_bound_le: "upper_bound k xs \<le> length xs"
  by (simp add: upper_bound_def length_takeWhile_le)

lemma le_last_key: "(x :: u16, y :: u16, z :: u32) \<le> (a, b, kMaxChunkID) \<longleftrightarrow> (x, y) \<le> (a, b)"
  by (auto simp: less_eq_prod_def kMaxChunkID_def)

lemma key_writer: "(x :: u16, y :: u16) < (a, b) \<Longrightarrow> (x, y, z :: u32) \<le> (a, b, c)" "(x, y, z) \<le> (a, b, c) \<Longrightarrow> (x, y) \<le> (a, b)"
  by (auto simp: less_eq_prod_def less_prod_def)

lemma GetReadIterForSequence_ok:
  assumes inv: "reader_inv tb" and p: "p < length (tb_index tb)" and border: "writer_border p tb"
  shows "it_ok tb (GetReadIterForSequence p tb)" "it_valid (GetReadIterForSequence p tb)" "p < it_seq_end (GetReadIterForSequence p tb)"
proof -
  let ?xs = "tb_index tb"
  obtain a b c where k: "fst (?xs ! p) = (a, b, c)" by (metis prod_cases3)
  define wid where "wid = (case tb_last_chunk_id tb (a, b) of None \<Rightarrow> 0 | Some c \<Rightarrow> c)"
  define e where "e = upper_bound (a, b, kMaxChunkID) ?xs"
  define u where "u = upper_bound (a, b, wid) ?xs"
  have it: "GetReadIterForSequence p tb = \<lparr>it_seq_begin = p, it_seq_end = e, it_cur = (if u = e then p else u), it_wrapping_id = wid\<rparr>"
    using p k by (simp add: GetReadIterForSequence_def e_def u_def wid_def Let_def)
  have s: "sorted (map fst ?xs)" using inv by (simp add: reader_inv_def)
  have w: "writer_at i tb = (fst (key_at i tb), fst (snd (key_at i tb)))" "writer_at p tb = (a, b)" for i
    using k by (simp_all add: writer_at_def key_at_def)
  have e: "i < e \<longleftrightarrow> writer_at i tb \<le> (a, b)" if "i < length ?xs" for i
    unfolding e_def before_upper_bound [OF s that] w key_at_def
    by (cases "fst (?xs ! i)") (simp add: le_last_key del: less_eq_prod_simp)
  have u: "i < u \<longleftrightarrow> fst (?xs ! i) \<le> (a, b, wid)" if "i < length ?xs" for i unfolding u_def by (rule before_upper_bound [OF s that])
  have len: "e \<le> length ?xs" "u \<le> length ?xs" by (simp_all add: e_def u_def upper_bound_le)
  have pe: "p < e" using e [OF p] w(2) by simp
  have ue: "u \<le> e"
  proof (rule ccontr)
    assume "\<not> u \<le> e"
    then have le: "e < u" "e < length ?xs" using len by simp_all
    obtain x y z where "fst (?xs ! e) = (x, y, z)" by (metis prod_cases3)
    with u [OF le(2)] le(1) e [OF le(2)] key_writer(2) [of x y z a b wid] show False by (simp add: w(1) key_at_def)
  qed
  have pu: "p \<le> u"
  proof (rule ccontr)
    assume "\<not> p \<le> u"
    then have lt: "u < p" "u < length ?xs" using p by simp_all
    obtain x y z where kx: "fst (?xs ! u) = (x, y, z)" by (metis prod_cases3)
    have "writer_at u tb < writer_at p tb" using border lt(1) p by (simp add: writer_border_def)
    with kx w have "(x, y) < (a, b)" by (simp add: key_at_def)
    with u [OF lt(2)] kx key_writer(1) [of x y a b z wid] show False by simp
  qed
  have one: "writer_at i tb = (a, b)" if "p \<le> i" "i < e" for i
  proof -
    have "i < length ?xs" using that len by simp
    moreover have "key_at p tb \<le> key_at i tb" using sorted_nth_mono [OF s that(1)] that len p by (simp add: key_at_def)
    then have "(a, b) \<le> writer_at i tb" using k key_writer(2) by (cases "key_at i tb") (auto simp: writer_at_def key_at_def)
    ultimately show ?thesis using e that(2) by (auto intro: antisym)
  qed
  have "writer_border e tb"
    unfolding writer_border_def
  proof (intro allI impI ballI)
    fix i j assume ij: "i < e" "j \<in> {e..<length ?xs}"
    then have "writer_at i tb \<le> (a, b)" "\<not> writer_at j tb \<le> (a, b)" using e [of i] e [of j] len by auto
    then show "writer_at i tb < writer_at j tb" by (meson le_less_trans not_le)
  qed
  then show "it_ok tb (GetReadIterForSequence p tb)"
    using one pe pu ue len by (auto simp: it it_ok_def one_writer_in_def)
  show "it_valid (GetReadIterForSequence p tb)" "p < it_seq_end (GetReadIterForSequence p tb)"
    using pe by (auto simp: it it_valid_def)
qed

text \<open>What is left of the whole buffer: the entries of the later sequences first.\<close>

definition whole_effort :: "TraceBuffer \<Rightarrow> nat \<times> nat \<times> nat" where
  "whole_effort tb = (length (tb_index tb) - it_seq_end (tb_read_iter tb), effort tb)"

definition packet_read :: "TraceBuffer \<Rightarrow> (bool \<times> packet_slices \<times> PacketSequenceProperties \<times> bool \<times> TraceBuffer) option \<Rightarrow> bool" where
  "packet_read tb x \<longleftrightarrow>
     (case x of
        None \<Rightarrow> False
      | Some (returned, packet, props, dropped, tb') \<Rightarrow>
          reads_only tb tb' \<and> reader_ok tb' \<and>
          (if returned then whole_effort tb' < whole_effort tb \<and> seq_slices tb (producer_id_trusted props, sp_writer_id props) packet
           else packet = [] \<and> \<not> it_valid (tb_read_iter tb') \<and> it_seq_end (tb_read_iter tb') = length (tb_index tb')))"

lemma packet_read_step:
  assumes "reads_only tb tb1" "whole_effort tb1 \<le> whole_effort tb" "packet_read tb1 x"
  shows "packet_read tb x"
proof -
  obtain ret pk props d tb' where "x = Some (ret, pk, props, d, tb')" using assms(3) by (auto simp: packet_read_def split: option.splits)
  with assms(3) reads_trans [OF assms(1)] reads_seq_slices [OF assms(1)] less_le_trans [OF _ assms(2)] show ?thesis
    by (cases ret) (auto simp: packet_read_def)
qed

text \<open>One turn: the iterator stands on a chunk of \<open>tb\<close>.\<close>

definition packet_turn :: "bool \<Rightarrow> TraceBuffer \<Rightarrow> (bool \<times> packet_slices \<times> PacketSequenceProperties \<times> bool \<times> TraceBuffer) option" where
  "packet_turn dropped tb =
     (let meta = meta_at (it_cur (tb_read_iter tb)) tb
      in if flag (cm_flags meta) kChunkNeedsPatching
         then (let it = MoveToEnd (tb_read_iter tb) in read_packets dropped [] (tb\<lparr>tb_read_iter := MoveNext tb it\<rparr>))
         else (let props = \<lparr>producer_id_trusted = fst (cur_key tb), producer_uid_trusted = cm_trusted_uid meta,
                            sp_writer_id = fst (snd (cur_key tb))\<rparr>;
                   dropped = (if cm_num_fragments_read meta > 0 then cm_last_read_packet_skipped meta else dropped)
               in read_fragments dropped [] tb \<bind> (\<lambda>(returned, dropped, packet, tb).
                    if returned then Some (True, packet, props, dropped, tb)
                    else read_packets dropped packet (tb\<lparr>tb_read_iter := MoveNext tb (tb_read_iter tb)\<rparr>))))"

lemma read_packets_turn:
  "read_packets dropped [] tb =
     (if \<not> it_valid (tb_read_iter tb) \<and> it_seq_end (tb_read_iter tb) = length (tb_index tb)
      then Some (False, [], \<lparr>producer_id_trusted = 0, producer_uid_trusted = - 1, sp_writer_id = 0\<rparr>, False, tb)
      else if it_valid (tb_read_iter tb) then packet_turn dropped tb
      else packet_turn True (tb\<lparr>tb_read_iter := GetReadIterForSequence (it_seq_end (tb_read_iter tb)) tb\<rparr>))"
  by (subst read_packets.simps) (simp add: packet_turn_def Let_def)

lemma whole_effort_go:
  "it_seq_end (tb_read_iter tb') = it_seq_end (tb_read_iter tb) \<Longrightarrow> reads_only tb tb' \<Longrightarrow>
   to_go tb' (tb_read_iter tb') < to_go tb (tb_read_iter tb) \<Longrightarrow> whole_effort tb' < whole_effort tb"
  by (simp add: whole_effort_def reads_index(1) effort_go)

lemma iter_reads: "reads_only tb (tb\<lparr>tb_read_iter := i\<rparr>)"
  by (simp add: reads_only_def)

lemma MoveNext_at_end: "\<not> it_valid it \<Longrightarrow> MoveNext tb it = MoveToEnd it"
  by (simp add: MoveNext_def it_valid_def)

lemma to_go_iter: "to_go (tb\<lparr>tb_read_iter := i\<rparr>) = to_go tb"
  by (simp add: to_go_def fun_eq_iff chunk_id_at_def key_at_def)

text \<open>After a turn without a packet the loop goes on with less to read.\<close>

lemma next_turn:
  assumes ok: "reader_ok tb" "it_valid (tb_read_iter tb)" and tb': "reads_only tb tb'" "reader_ok tb'" "it_seq_end (tb_read_iter tb') = it_seq_end (tb_read_iter tb)"
    "to_go tb' (tb_read_iter tb') \<le> to_go tb (tb_read_iter tb)"
  shows "reads_only tb (tb'\<lparr>tb_read_iter := MoveNext tb' (tb_read_iter tb')\<rparr>)" "reader_ok (tb'\<lparr>tb_read_iter := MoveNext tb' (tb_read_iter tb')\<rparr>)"
    "whole_effort (tb'\<lparr>tb_read_iter := MoveNext tb' (tb_read_iter tb')\<rparr>) < whole_effort tb"
proof -
  let ?tb2 = "tb'\<lparr>tb_read_iter := MoveNext tb' (tb_read_iter tb')\<rparr>"
  show r: "reads_only tb ?tb2" by (rule reads_iter(1) [OF tb'(1)])
  show "reader_ok ?tb2"
    by (rule reads_reader_ok [OF iter_reads]) (use tb'(2) MoveNext_ok in \<open>simp_all add: reader_ok_def\<close>)
  have "to_go ?tb2 (tb_read_iter ?tb2) < to_go tb (tb_read_iter tb)"
  proof (cases "it_valid (tb_read_iter tb')")
    case True
    with MoveNext_to_go [OF True, of tb'] tb'(4) show ?thesis by (simp add: to_go_iter)
  next
    case False
    with ok(2) show ?thesis by (simp add: MoveNext_at_end MoveToEnd_def to_go_def it_valid_def)
  qed
  then show "whole_effort ?tb2 < whole_effort tb" using tb'(3) r by (intro whole_effort_go) (simp_all add: MoveNext_fields)
qed

lemma packet_turn_returns:
  assumes ok: "reader_ok tb" "it_valid (tb_read_iter tb)"
    and rec: "\<And>d tb'. reads_only tb tb' \<Longrightarrow> reader_ok tb' \<Longrightarrow> whole_effort tb' < whole_effort tb \<Longrightarrow> packet_read tb' (read_packets d [] tb')"
  shows "packet_read tb (packet_turn dropped tb)"
proof -
  let ?p = "it_cur (tb_read_iter tb)"
  have again: "packet_read tb (read_packets d [] tb')" if "reads_only tb tb'" "reader_ok tb'" "whole_effort tb' < whole_effort tb" for d tb'
    using packet_read_step [OF that(1) _ rec [OF that]] that(3) by simp
  show ?thesis
  proof (cases "flag (cm_flags (meta_at ?p tb)) kChunkNeedsPatching")
    case True
    let ?tb0 = "tb\<lparr>tb_read_iter := MoveToEnd (tb_read_iter tb)\<rparr>"
    have r: "reads_only tb ?tb0" "reader_ok ?tb0"
      by (rule iter_reads) (rule reads_reader_ok [OF iter_reads], use ok in \<open>simp_all add: reader_ok_def it_ok_def MoveToEnd_def it_valid_def\<close>)
    have m: "MoveNext ?tb0 (tb_read_iter ?tb0) = MoveNext tb (MoveToEnd (tb_read_iter tb))"
      by (simp add: MoveNext_def MoveToEnd_def)
    note n = next_turn [OF ok r, unfolded m, simplified]
    have "packet_read tb (read_packets dropped [] (tb\<lparr>tb_read_iter := MoveNext tb (MoveToEnd (tb_read_iter tb))\<rparr>))"
      by (rule again) (use n in \<open>simp_all add: MoveToEnd_def to_go_def it_valid_def\<close>)
    with True show ?thesis by (simp add: packet_turn_def Let_def)
  next
    case False
    define d where "d = (if cm_num_fragments_read (meta_at ?p tb) > 0 then cm_last_read_packet_skipped (meta_at ?p tb) else dropped)"
    obtain ret d' pk tb' where f: "read_fragments d [] tb = Some (ret, d', pk, tb')" "fragments_read tb (Some (ret, d', pk, tb'))"
      using read_fragments_returns [OF ok, of d] by (cases "read_fragments d [] tb") (auto simp: fragments_read_def)
    have s: "reads_only tb tb'" "reader_ok tb'" "it_seq_end (tb_read_iter tb') = it_seq_end (tb_read_iter tb)"
      "to_go tb' (tb_read_iter tb') \<le> to_go tb (tb_read_iter tb)" using f(2) by (simp_all add: fragments_read_def)
    have turn: "packet_turn dropped tb =
        (if ret then Some (True, pk, \<lparr>producer_id_trusted = fst (cur_key tb), producer_uid_trusted = cm_trusted_uid (meta_at ?p tb),
            sp_writer_id = fst (snd (cur_key tb))\<rparr>, d', tb')
         else read_packets d' pk (tb'\<lparr>tb_read_iter := MoveNext tb' (tb_read_iter tb')\<rparr>))"
      unfolding packet_turn_def Let_def d_def [symmetric] f(1) using False by simp
    show ?thesis
    proof (cases ret)
      case True
      with f(2) s show ?thesis
        by (simp add: turn packet_read_def fragments_read_def writer_at_def cur_key_def whole_effort_def reads_index(1))
    next
      case False
      with f(2) have "pk = []" by (simp add: fragments_read_def)
      with False again [OF next_turn [OF ok s]] show ?thesis by (simp add: turn)
    qed
  qed
qed

lemma read_packets_returns: "reader_ok tb \<Longrightarrow> packet_read tb (read_packets dropped [] tb)"
proof (induction "whole_effort tb" arbitrary: tb dropped rule: less_induct)
  case less
  show ?case
  proof (cases "it_valid (tb_read_iter tb)")
    case True
    have "packet_read tb (packet_turn dropped tb)" by (rule packet_turn_returns [OF less.prems True less.hyps])
    with True show ?thesis by (simp add: read_packets_turn)
  next
    case v: False
    show ?thesis
    proof (cases "it_seq_end (tb_read_iter tb) = length (tb_index tb)")
      case True
      with v less.prems show ?thesis by (simp add: read_packets_turn packet_read_def reads_refl)
    next
      case False
      let ?e = "it_seq_end (tb_read_iter tb)"
      let ?tb1 = "tb\<lparr>tb_read_iter := GetReadIterForSequence ?e tb\<rparr>"
      have ok: "reader_inv tb" "it_ok tb (tb_read_iter tb)" using less.prems by (simp_all add: reader_ok_def)
      then have e: "?e < length (tb_index tb)" "writer_border ?e tb" using False by (simp_all add: it_ok_def)
      note g = GetReadIterForSequence_ok [OF ok(1) e]
      have ok1: "reader_ok ?tb1" by (rule reads_reader_ok [OF iter_reads ok(1)]) (use g in simp)
      have less1: "whole_effort ?tb1 < whole_effort tb" using g(3) e(1) by (simp add: whole_effort_def less_prod_def diff_less_mono2)
      have "packet_read ?tb1 (packet_turn True ?tb1)"
        by (rule packet_turn_returns [OF ok1]) (use g(2) less.hyps [OF less_trans [OF _ less1]] in simp_all)
      then have "packet_read tb (packet_turn True ?tb1)" using packet_read_step [OF iter_reads _ ] less1 by (meson less_imp_le)
      with v False show ?thesis by (simp add: read_packets_turn)
    qed
  qed
qed

end
