(* ===== verification/Trace_Buffer_Patch.thy ===== *)
theory Trace_Buffer_Patch
  imports Trace_Buffer_Inv Trace_Buffer_Read
begin

section \<open>The central trace buffer: patches\<close>

text \<open>
  Patches fill in the size fields of messages that were not complete when their chunk was copied. A patch changes four bytes of the
  payload of its chunk and nothing else, however wrong the offset is that the producer sent.
\<close>

definition patch_bytes :: "u8 list \<Rightarrow> Patch \<Rightarrow> u8 list" where
  "patch_bytes bs p = take (offset_untrusted p) bs @ patch_data p @ drop (offset_untrusted p + length (patch_data p)) bs"

definition patch_fits :: "u8 list \<Rightarrow> Patch \<Rightarrow> bool" where
  "patch_fits bs p \<longleftrightarrow> offset_untrusted p + kPatchSize \<le> length bs"

lemma length_patch_bytes: "patch_fits bs p \<Longrightarrow> length (patch_data p) = kPatchSize \<Longrightarrow> length (patch_bytes bs p) = length bs"
  by (simp add: patch_bytes_def patch_fits_def)

lemma mem_range_patch:
  assumes "off + length d \<le> b - a" and "b \<le> length xs" and "a \<le> b"
  shows "mem_range (take (a + off) xs @ d @ drop (a + off + length d) xs) a b =
    take off (mem_range xs a b) @ d @ drop (off + length d) (mem_range xs a b)"
proof -
  have len: "length (take (a + off) xs @ d @ drop (a + off + length d) xs) = length xs" using assms by simp
  show ?thesis
  proof (rule nth_equalityI)
    show "length (mem_range (take (a + off) xs @ d @ drop (a + off + length d) xs) a b) =
        length (take off (mem_range xs a b) @ d @ drop (off + length d) (mem_range xs a b))"
      using assms len by (simp add: length_mem_range del: length_append)
        (simp add: length_mem_range)
    fix i assume "i < length (mem_range (take (a + off) xs @ d @ drop (a + off + length d) xs) a b)"
    then have i: "i < b - a" using assms len by (simp add: length_mem_range del: length_append)
    have l: "off + length d \<le> length (mem_range xs a b)" "i < length (mem_range xs a b)" using assms i by (simp_all add: length_mem_range)
    have a: "a + off + length d \<le> length xs" "a + i < length xs" using assms i by simp_all
    show "mem_range (take (a + off) xs @ d @ drop (a + off + length d) xs) a b ! i =
        (take off (mem_range xs a b) @ d @ drop (off + length d) (mem_range xs a b)) ! i"
      unfolding nth_splice [OF l] using nth_splice [OF a] i assms len
      by (simp add: nth_mem_range del: length_append)
  qed
qed

lemma ix_set_same: "distinct (map fst xs) \<Longrightarrow> ix_find k xs = Some m \<Longrightarrow> ix_set k m xs = xs"
  unfolding ix_set_def ix_find_def by (rule map_idI) (use map_of_is_SomeI in \<open>fastforce split: prod.split\<close>)

text \<open>One patch.\<close>

lemma patch_wrote:
  assumes h: "tb_headers tb p = Some r" "kRecordSize \<le> cr_size r" "p + cr_size r \<le> length (tb_data tb)"
    and bs: "mem_range (tb_data tb) (p + kRecordSize) (p + cr_size r) = bs"
    and x: "patch_fits bs x" "length (patch_data x) = kPatchSize"
  shows "wrote p r (Some (patch_bytes bs x)) tb (store_bytes (p + kRecordSize + offset_untrusted x) (patch_data x) tb)"
proof -
  let ?o = "p + kRecordSize + offset_untrusted x"
  let ?tb = "store_bytes ?o (patch_data x) tb"
  have len: "length bs = cr_size r - kRecordSize" using bs h by (auto simp: length_mem_range)
  have fits: "?o + length (patch_data x) \<le> p + cr_size r" using x len h(2) by (simp add: patch_fits_def)
  have d: "tb_data ?tb = take ?o (tb_data tb) @ patch_data x @ drop (?o + length (patch_data x)) (tb_data tb)" by (simp only: store_fields)
  have l: "?o + length (patch_data x) \<le> length (tb_data tb)" using fits h(3) by simp
  have "mem_range (tb_data ?tb) (p + kRecordSize) (p + cr_size r) = patch_bytes bs x"
    unfolding d using mem_range_patch [of "offset_untrusted x" "patch_data x" "p + cr_size r" "p + kRecordSize" "tb_data tb"] fits h bs
    by (simp add: patch_bytes_def)
  moreover have "tb_data ?tb ! q = tb_data tb ! q" if "q < length (tb_data tb)" "q < p \<or> p + cr_size r \<le> q" for q
    unfolding d nth_splice [OF l that(1)] using that fits by auto
  moreover have "length (tb_data ?tb) = length (tb_data tb)" using l unfolding d by simp
  moreover have "tb_headers ?tb p = Some r" using h(1) by (simp add: store_bytes_def)
  moreover have "tb_headers ?tb q = tb_headers tb q" if "q + kRecordSize \<le> p \<or> p + cr_size r \<le> q" for q
    using that fits by (auto simp: store_bytes_def)
  moreover have "?tb = tb\<lparr>tb_data := tb_data ?tb, tb_headers := tb_headers ?tb\<rparr>" by (simp add: store_bytes_def)
  ultimately show ?thesis unfolding wrote_def by blast
qed

lemma wrote_trans:
  assumes "wrote p r pl tb tb'" and "wrote p r' pl' tb' tb''" and "cr_size r' = cr_size r"
  shows "wrote p r' pl' tb tb''"
proof -
  obtain d h where "tb' = tb\<lparr>tb_data := d, tb_headers := h\<rparr>" using assms(1) unfolding wrote_def by blast
  moreover obtain d' h' where "tb'' = tb'\<lparr>tb_data := d', tb_headers := h'\<rparr>" using assms(2) unfolding wrote_def by blast
  ultimately have "tb'' = tb\<lparr>tb_data := d', tb_headers := h'\<rparr>" by simp
  then have eq: "tb'' = tb\<lparr>tb_data := tb_data tb'', tb_headers := tb_headers tb''\<rparr>" by simp
  note a = wroteD [OF assms(1)] and b = wroteD [OF assms(2), unfolded assms(3)]
  have "\<forall>q. q + kRecordSize \<le> p \<or> p + cr_size r \<le> q \<longrightarrow> tb_headers tb'' q = tb_headers tb q" using a(3) b(3) by simp
  moreover have "\<forall>q < length (tb_data tb). q < p \<or> p + cr_size r \<le> q \<longrightarrow> tb_data tb'' ! q = tb_data tb ! q" using a(1,4) b(4) by simp
  moreover have "length (tb_data tb'') = length (tb_data tb)" using a(1) b(1) by simp
  ultimately show ?thesis using eq b(2,5) unfolding wrote_def assms(3) by blast
qed

lemma wrote_refl: "tb_headers tb p = Some r \<Longrightarrow> mem_range (tb_data tb) (p + kRecordSize) (p + cr_size r) = bs \<Longrightarrow> wrote p r (Some bs) tb tb"
  by (simp add: wrote_def)

text \<open>All of them, up to the first that does not fit.\<close>

definition patched :: "u8 list \<Rightarrow> Patch list \<Rightarrow> u8 list" where
  "patched bs ps = foldl patch_bytes bs (takeWhile (patch_fits bs) ps)"

lemma apply_patches_wrote:
  assumes "tb_headers tb p = Some r" "kRecordSize \<le> cr_size r" "p + cr_size r \<le> length (tb_data tb)"
    and "mem_range (tb_data tb) (p + kRecordSize) (p + cr_size r) = bs" and "\<forall>x \<in> set ps. length (patch_data x) = kPatchSize"
  shows "\<exists>tb'. wrote p r (Some (patched bs ps)) tb tb' \<and> apply_patches p (p + cr_size r) ps tb =
    (if \<forall>x \<in> set ps. patch_fits bs x then (True, tb') else (False, upd_stats (\<lambda>s. s\<lparr>bs_patches_failed := bs_patches_failed s + 1\<rparr>) tb'))"
  using assms
proof (induction ps arbitrary: tb bs)
  case Nil
  then show ?case by (simp add: patched_def wrote_def)
next
  case (Cons x ps)
  have len: "length bs = cr_size r - kRecordSize" using Cons.prems by (auto simp: length_mem_range)
  have guard: "p + kRecordSize + offset_untrusted x < p + kRecordSize \<or> p + kRecordSize + offset_untrusted x > p + cr_size r - kPatchSize \<longleftrightarrow>
      \<not> patch_fits bs x"
    using Cons.prems(2) len by (auto simp: patch_fits_def kRecordSize_def kPatchSize_def)
  show ?case
  proof (cases "patch_fits bs x")
    case False
    have "wrote p r (Some (patched bs (x # ps))) tb tb" using wrote_refl [OF Cons.prems(1,4)] False by (simp add: patched_def)
    moreover have "apply_patches p (p + cr_size r) (x # ps) tb = (False, upd_stats (\<lambda>s. s\<lparr>bs_patches_failed := bs_patches_failed s + 1\<rparr>) tb)"
      using guard False by (simp add: Let_def del: not_less)
    ultimately show ?thesis using False by (intro exI [of _ tb]) simp
  next
    case True
    let ?tb = "store_bytes (p + kRecordSize + offset_untrusted x) (patch_data x) tb"
    have w: "wrote p r (Some (patch_bytes bs x)) tb ?tb" using patch_wrote Cons.prems True by simp
    have same: "patch_fits (patch_bytes bs x) = patch_fits bs"
      using length_patch_bytes [OF True] Cons.prems(5) by (simp add: patch_fits_def fun_eq_iff)
    obtain tb' where tb': "wrote p r (Some (patched (patch_bytes bs x) ps)) ?tb tb'" "apply_patches p (p + cr_size r) ps ?tb =
        (if \<forall>x \<in> set ps. patch_fits bs x then (True, tb') else (False, upd_stats (\<lambda>s. s\<lparr>bs_patches_failed := bs_patches_failed s + 1\<rparr>) tb'))"
      using Cons.IH [OF wroteD(2) [OF w] Cons.prems(2) _ wroteD(5) [OF w refl]] wroteD(1) [OF w] Cons.prems(3,5) unfolding same by auto
    have "patched bs (x # ps) = patched (patch_bytes bs x) ps" using True by (simp add: patched_def same)
    moreover have "apply_patches p (p + cr_size r) (x # ps) tb = apply_patches p (p + cr_size r) ps ?tb"
      using guard True by (simp add: Let_def del: not_less)
    ultimately show ?thesis using wrote_trans [OF w tb'(1) refl] tb'(2) True by auto
  qed
qed

text \<open>The chunk after patching, with the flag for pending patches cleared or not.\<close>

lemma wrote_index: "wrote p r pl tb tb' \<Longrightarrow> wrote p r pl (tb\<lparr>tb_index := x\<rparr>) (tb'\<lparr>tb_index := x\<rparr>)"
proof -
  assume w: "wrote p r pl tb tb'"
  then obtain d h where "tb' = tb\<lparr>tb_data := d, tb_headers := h\<rparr>" unfolding wrote_def by blast
  with w show ?thesis by (simp add: wrote_def)
qed

lemma wrote_flags:
  assumes w: "wrote p r pl tb tb'" and pos: "kRecordSize \<le> cr_size r"
  shows "wrote p (r\<lparr>cr_flags := take_bit 6 f\<rparr>) pl tb (set_header_flags p f tb')"
proof -
  have "wrote p (r\<lparr>cr_flags := take_bit 6 f\<rparr>) pl tb' (set_header_flags p f tb')" if "\<And>bs. pl = Some bs \<Longrightarrow> mem_range (tb_data tb') (p + kRecordSize) (p + cr_size r) = bs"
    using wroteD(2) [OF w] that pos by (auto simp: wrote_def set_header_flags_def kRecordSize_def)
  from wrote_trans [OF w this] wroteD(5) [OF w] show ?thesis by simp
qed

lemma patch_result:
  assumes inv: "tb_inv tb" and m: "ix_find k (tb_index tb) = Some m" and r: "GetChunkRecordAt (cm_chunk_record m) tb = Some r" "Key r = k"
    "rec_ok r" "meta_of (cm_chunk_record m) r m"
    and w: "wrote (cm_chunk_record m) r (Some bs) tb tb'"
  shows "tb_inv (tb'\<lparr>tb_stats := s\<rparr>)" "stored (tb'\<lparr>tb_stats := s\<rparr>) k = Some (m, bs)" "k' \<noteq> k \<Longrightarrow> stored (tb'\<lparr>tb_stats := s\<rparr>) k' = stored tb k'"
proof -
  have "distinct (map fst (tb_index tb))" using inv by (auto simp: tb_inv_def indexed_def)
  then have "tb\<lparr>tb_index := ix_set (Key r) m (tb_index tb)\<rparr> = tb" using ix_set_same m r(2) by simp
  then have w': "wrote (cm_chunk_record m) r (Some bs) (tb\<lparr>tb_index := ix_set (Key r) m (tb_index tb)\<rparr>) tb'" using w by simp
  note res = rewrite_inv [OF inv m [folded r(2)] r(1,3) refl refl r(4) w', unfolded r(2)]
  note same = same_buffer [of "tb'\<lparr>tb_stats := s\<rparr>" tb', simplified]
  show "tb_inv (tb'\<lparr>tb_stats := s\<rparr>)" "stored (tb'\<lparr>tb_stats := s\<rparr>) k = Some (m, bs)" "k' \<noteq> k \<Longrightarrow> stored (tb'\<lparr>tb_stats := s\<rparr>) k' = stored tb k'"
    using res same by simp_all
qed

lemma patch_result_flags:
  assumes inv: "tb_inv tb" and m: "ix_find k (tb_index tb) = Some m" and r: "GetChunkRecordAt (cm_chunk_record m) tb = Some r" "Key r = k"
    "rec_ok r" "meta_of (cm_chunk_record m) r m"
    and w: "wrote (cm_chunk_record m) r (Some bs) tb tb'"
    and m'_def: "m' = m\<lparr>cm_flags := f\<rparr>"
    and tb2_def: "tb2 = set_header_flags (cm_chunk_record m) f (tb'\<lparr>tb_stats := s, tb_index := ix_set k m' (tb_index tb)\<rparr>)"
  shows "tb_inv tb2" "stored tb2 k = Some (m', bs)" "k' \<noteq> k \<Longrightarrow> stored tb2 k' = stored tb k'"
proof -
  let ?r = "r\<lparr>cr_flags := take_bit 6 f\<rparr>"
  let ?tb1 = "set_header_flags (cm_chunk_record m) f (tb'\<lparr>tb_index := ix_set k m' (tb_index tb)\<rparr>)"
  have key: "Key ?r = k" using r(2) by (simp add: Key_def)
  have w': "wrote (cm_chunk_record m) ?r (Some bs) (tb\<lparr>tb_index := ix_set (Key ?r) m' (tb_index tb)\<rparr>) ?tb1"
    unfolding key by (rule wrote_flags [OF wrote_index [OF w]]) (use r(3) in \<open>simp add: rec_ok_def\<close>)
  have rm: "rec_ok ?r" "cr_size ?r = cr_size r" "cm_chunk_record m' = cm_chunk_record m" "meta_of (cm_chunk_record m) ?r m'"
    using r(3,4) by (simp_all add: rec_ok_def meta_of_def m'_def)
  note res = rewrite_inv [OF inv m [folded key] r(1) rm w', unfolded key]
  have "stored tb2 k' = stored ?tb1 k'" "tb_inv tb2 = tb_inv ?tb1" for k'
    by (rule same_buffer; simp add: tb2_def set_header_flags_def)+
  with res show "tb_inv tb2" "stored tb2 k = Some (m', bs)" "k' \<noteq> k \<Longrightarrow> stored tb2 k' = stored tb k'" by simp_all
qed

lemma TryPatchChunkContents_stored:
  assumes inv: "tb_inv tb" and st: "stored tb (producer, writer, chunk) = Some (m, bs)" and len: "\<forall>x \<in> set ps. length (patch_data x) = kPatchSize"
  obtains tb' where
    "TryPatchChunkContents producer writer chunk ps pending tb = Some (\<forall>x \<in> set ps. patch_fits bs x, tb')" "tb_inv tb'"
    "stored tb' (producer, writer, chunk) =
       Some (if pending \<or> \<not> (\<forall>x \<in> set ps. patch_fits bs x) then m else m\<lparr>cm_flags := cm_flags m AND NOT (ucast kChunkNeedsPatching)\<rparr>, patched bs ps)"
    "\<And>k. k \<noteq> (producer, writer, chunk) \<Longrightarrow> stored tb' k = stored tb k"
    "tb_wptr tb' = tb_wptr tb" "map fst (tb_index tb') = map fst (tb_index tb)"
proof -
  let ?k = "(producer, writer, chunk)"
  have m: "ix_find ?k (tb_index tb) = Some m" using st by (auto simp: stored_def split: option.splits)
  obtain ls rs xs r ys where h: "layout tb ls rs" "sizes_ok tb" "ls @ rs = xs @ r # ys"
    "cm_chunk_record m = extent xs" "Key r = ?k" "meta_of (extent xs) r m" "GetChunkRecordAt (extent xs) tb = Some r"
    "extent (ls @ rs) \<le> tb_size tb" "rec_ok r" by (rule header_in_layout [OF inv m])
  let ?p = "extent xs"
  have range: "?p + cr_size r \<le> length (tb_data tb)" using h(2,3,8) by (simp add: sizes_ok_def)
  have bs: "mem_range (tb_data tb) (?p + kRecordSize) (?p + cr_size r) = bs" using st m h(4,7) by (simp add: stored_def)
  have "(?p, r) \<in> set (places 0 (ls @ rs))" unfolding h(3) by (simp add: places_append)
  then have hd: "tb_headers tb ?p = Some r" using h(1) unfolding layout_def chained_def by blast
  have size: "kRecordSize \<le> cr_size r" using h(9) by (simp add: rec_ok_def)
  obtain tb1 where w: "wrote ?p r (Some (patched bs ps)) tb tb1" and ap: "apply_patches ?p (?p + cr_size r) ps tb =
      (if \<forall>x \<in> set ps. patch_fits bs x then (True, tb1) else (False, upd_stats (\<lambda>s. s\<lparr>bs_patches_failed := bs_patches_failed s + 1\<rparr>) tb1))"
    using apply_patches_wrote [OF hd size range bs len] by blast
  have i1: "tb_index tb1 = tb_index tb" "tb_wptr tb1 = tb_wptr tb" using wrote_fields [OF w] by simp_all
  note result = patch_result [OF inv m _ h(5,9), unfolded h(4), OF h(7,6) w]
  note result_flags = patch_result_flags [OF inv m _ h(5,9), unfolded h(4), OF h(7,6) w refl refl]
  let ?s = "(tb_stats tb1)\<lparr>bs_patches_succeeded := bs_patches_succeeded (tb_stats tb1) + word_of_nat (length ps)\<rparr>"
  show thesis
  proof (cases "\<forall>x \<in> set ps. patch_fits bs x")
    case False
    let ?s' = "(tb_stats tb1)\<lparr>bs_patches_failed := bs_patches_failed (tb_stats tb1) + 1\<rparr>"
    have "TryPatchChunkContents producer writer chunk ps pending tb = Some (False, tb1\<lparr>tb_stats := ?s'\<rparr>)"
      using False m h(4,7) ap by (simp add: TryPatchChunkContents_def Let_def)
    then show thesis by (intro that [of "tb1\<lparr>tb_stats := ?s'\<rparr>"]) (use False result [where s = ?s'] i1 in auto)
  next
    case fits: True
    show thesis
    proof (cases pending)
      case True
      have "TryPatchChunkContents producer writer chunk ps pending tb = Some (True, tb1\<lparr>tb_stats := ?s\<rparr>)"
        using fits True m h(4,7) ap by (simp add: TryPatchChunkContents_def Let_def)
      then show thesis by (intro that [of "tb1\<lparr>tb_stats := ?s\<rparr>"]) (use fits True result [where s = ?s] i1 in auto)
    next
      case False
      let ?f = "cm_flags m AND NOT (ucast kChunkNeedsPatching)"
      let ?tb2 = "set_header_flags ?p ?f (tb1\<lparr>tb_stats := ?s, tb_index := ix_set ?k (m\<lparr>cm_flags := ?f\<rparr>) (tb_index tb)\<rparr>)"
      have "TryPatchChunkContents producer writer chunk ps pending tb = Some (True, ?tb2)"
        using fits False m h(4,7) ap i1(1) by (simp add: TryPatchChunkContents_def Let_def)
      then show thesis by (intro that [of ?tb2])
        (use fits False result_flags [where s = ?s and f = ?f] i1 in \<open>auto simp: set_header_flags_def keys_set\<close>)
    qed
  qed
qed

lemma stored_find: "tb_inv tb \<Longrightarrow> ix_find k (tb_index tb) = Some m \<Longrightarrow> \<exists>bs. stored tb k = Some (m, bs)"
  by (rule header_in_layout) (auto simp: stored_def)

lemma TryPatchChunkContents_missing:
  "stored tb (producer, writer, chunk) = None \<Longrightarrow> tb_inv tb \<Longrightarrow>
    TryPatchChunkContents producer writer chunk ps pending tb =
      Some (False, upd_stats (\<lambda>s. s\<lparr>bs_patches_failed := bs_patches_failed s + 1\<rparr>) tb)"
  using stored_find [of tb "(producer, writer, chunk)"] by (cases "ix_find (producer, writer, chunk) (tb_index tb)") (auto simp: TryPatchChunkContents_def Let_def)

end
