(* ===== verification/Trace_Buffer_Runs.thy ===== *)
theory Trace_Buffer_Runs
  imports Trace_Buffer_Reader Trace_Buffer_Patch
begin

section \<open>The central trace buffer: whole runs\<close>

text \<open>
  What holds after every sequence of commits, patches and reads from a fresh buffer, and the properties of the single operations.
\<close>

subsection \<open>A chunk that is copied again\<close>

lemma copy_is_rewrite:
  assumes "ix_find (producer, writer, chunk) (tb_index tb) = Some m" and "n = AlignUp16 (length src + kRecordSize)" "n \<le> tb_max_chunk_size tb"
    and "complete_part nf fl c = (nf', fl')"
  shows "CopyChunkUntrusted producer uid writer chunk nf fl c src tb = rewrite_chunk (chunk_record producer writer chunk nf' fl' n) fl' c src m tb"
  using assms by (simp add: CopyChunkUntrusted_def Let_def Key_def chunk_record_def make_ChunkRecord_def flip: assms(2))

lemma copy_again:
  assumes inv: "tb_inv tb" and m: "ix_find (producer, writer, chunk) (tb_index tb) = Some m"
    and prev: "GetChunkRecordAt (cm_chunk_record m) tb = Some prev"
    and n: "n = AlignUp16 (length src + kRecordSize)" "n \<le> tb_max_chunk_size tb" and part: "complete_part nf fl c = (nf', fl')"
    and r: "r = chunk_record producer writer chunk nf' fl' n"
  obtains (kept) tb' where "CopyChunkUntrusted producer uid writer chunk nf fl c src tb = Some tb'" "\<not> accepts_rewrite r fl' prev tb"
      "tb' \<in> {abi_violation tb, tb}"
  | (aborts) "CopyChunkUntrusted producer uid writer chunk nf fl c src tb = None" "accepts_rewrite r fl' prev tb" "size_to_end tb < n"
  | (rewritten) tb' where "CopyChunkUntrusted producer uid writer chunk nf fl c src tb = Some tb'" "accepts_rewrite r fl' prev tb" "n \<le> size_to_end tb"
      "tb_inv tb'" "stored tb' (producer, writer, chunk) = Some (m\<lparr>cm_num_fragments := nf', cm_flags := fl', cm_complete := c\<rparr>,
        src @ replicate (n - kRecordSize - length src) 0)"
      "\<And>k. k \<noteq> (producer, writer, chunk) \<Longrightarrow> stored tb' k = stored tb k"
      "tb_index tb' = ix_set (producer, writer, chunk) (m\<lparr>cm_num_fragments := nf', cm_flags := fl', cm_complete := c\<rparr>) (tb_index tb)"
proof -
  let ?k = "(producer, writer, chunk)"
  let ?m = "m\<lparr>cm_num_fragments := nf', cm_flags := fl', cm_complete := c\<rparr>"
  let ?tb = "tb\<lparr>tb_index := ix_set ?k ?m (tb_index tb)\<rparr>"
  have ok: "sizes_ok tb" using inv by (simp add: tb_inv_def)
  have fit: "length src + kRecordSize \<le> n" "kRecordSize dvd n" "n \<le> kMaxRecordSize" "n \<le> tb_size tb"
    using n ok AlignUp16_ok by (simp_all add: sizes_ok_def)
  note rf = chunk_record_ok [OF fit(1-3), where p = producer and w = writer and c = chunk and nf = nf' and fl = fl', folded r]
  have copy: "CopyChunkUntrusted producer uid writer chunk nf fl c src tb = rewrite_chunk r fl' c src m tb"
    unfolding r by (rule copy_is_rewrite [OF m n part])
  have frag: "cr_num_fragments r = nf'" by (simp add: r chunk_record_def make_ChunkRecord_def)
  obtain r0 where r0: "Key r0 = ?k" "GetChunkRecordAt (cm_chunk_record m) tb = Some r0" "cm_chunk_record m + cr_size r0 \<le> tb_size tb"
    "meta_of (cm_chunk_record m) r0 m"
  proof (rule header_in_layout [OF inv m])
    fix ls rs xs r ys assume "ls @ rs = xs @ r # ys" "cm_chunk_record m = extent xs" "Key r = ?k" "GetChunkRecordAt (extent xs) tb = Some r"
      "extent (ls @ rs) \<le> tb_size tb" "meta_of (extent xs) r m"
    then show thesis using that [of r] by simp
  qed
  have key: "Key prev = Key r" using r0(1,2) prev rf(5) by simp
  note cases = rewrite_chunk_cases [OF m [folded rf(5)] prev key, of fl' c src, unfolded rf(5) frag]
  show thesis
  proof (cases "accepts_rewrite r fl' prev tb")
    case False
    then obtain tb' where "rewrite_chunk r fl' c src m tb = Some tb'" "tb' \<in> {abi_violation tb, tb}" using cases(2) by blast
    with False show thesis using kept copy by simp
  next
    case acc: True
    show thesis
    proof (cases "n \<le> size_to_end tb")
      case False
      then have "WriteChunkRecord (cm_chunk_record m) r (Some src) (length src) ?tb = None"
        using rf(2) by (simp add: WriteChunkRecord_def size_to_end_def)
      with acc False show thesis using aborts copy cases(1) by simp
    next
      case True
      have size: "cr_size prev = n" using acc rf(2) by (simp add: accepts_rewrite_def)
      have "\<exists>tb'. WriteChunkRecord (cm_chunk_record m) r (Some src) (length src) ?tb = Some tb' \<and>
          wrote (cm_chunk_record m) r (map_option (\<lambda>bs. bs @ replicate (cr_size r - kRecordSize - length src) 0) (Some src)) ?tb tb'"
        by (rule WriteChunkRecord_wrote)
          (use True rf fit r0(2,3) prev size ok in \<open>simp_all add: size_to_end_def sizes_ok_def\<close>)
      then obtain tb1 where w: "WriteChunkRecord (cm_chunk_record m) r (Some src) (length src) ?tb = Some tb1"
        "wrote (cm_chunk_record m) r (Some (src @ replicate (n - kRecordSize - length src) 0)) ?tb tb1" using rf(2) by auto
      let ?tb' = "upd_stats (\<lambda>s. s\<lparr>bs_chunks_rewritten := bs_chunks_rewritten s + 1\<rparr>) tb1"
      have mo: "meta_of (cm_chunk_record m) r ?m"
        using r0(4) by (simp add: meta_of_def r chunk_record_def make_ChunkRecord_def)
      have st: "tb_inv tb1" "stored tb1 ?k = Some (?m, src @ replicate (n - kRecordSize - length src) 0)"
        "k \<noteq> ?k \<Longrightarrow> stored tb1 k = stored tb k" for k
        using rewrite_inv [OF inv m [folded rf(5)] prev rf(1) _ _ mo, unfolded rf(5), OF _ _ w(2)] size rf(2) by simp_all
      have "stored ?tb' k = stored tb1 k" "tb_inv ?tb' = tb_inv tb1" for k by (rule same_buffer; simp)+
      moreover have "tb_index tb1 = ix_set ?k ?m (tb_index tb)" using wrote_fields(4) [OF w(2)] by simp
      ultimately show thesis using rewritten [of ?tb'] copy cases(1) [OF acc] acc w(1) True st by simp
    qed
  qed
qed

subsection \<open>The index stays sorted\<close>

definition index_ok :: "chunk_map \<Rightarrow> bool" where
  "index_ok xs \<longleftrightarrow> sorted (map fst xs) \<and> (\<forall>(k, m) \<in> set xs. cm_num_fragments m < 2 ^ 16)"

lemma reader_inv_index: "reader_inv tb \<longleftrightarrow> tb_inv tb \<and> index_ok (tb_index tb)"
  by (auto simp: reader_inv_def index_ok_def)

lemma index_ok_set: "index_ok xs \<Longrightarrow> cm_num_fragments m < 2 ^ 16 \<Longrightarrow> index_ok (ix_set k m xs)"
  unfolding index_ok_def keys_set by (auto simp: ix_set_def)

lemma index_ok_emplace: "index_ok xs \<Longrightarrow> cm_num_fragments m < 2 ^ 16 \<Longrightarrow> index_ok (ix_emplace k m xs)"
  by (auto simp: index_ok_def ix_emplace_def set_insort_key sorted_insort_key split: option.splits)

lemma index_ok_erase: "index_ok xs \<Longrightarrow> index_ok (ix_erase k xs)"
  by (auto simp: index_ok_def ix_erase_def sorted_filter)

lemma index_ok_erases: "index_ok xs \<Longrightarrow> index_ok (fold ix_erase ks xs)"
  by (induction ks arbitrary: xs) (simp_all add: index_ok_erase)

lemma WriteChunkRecord_index: "WriteChunkRecord p r src n tb = Some tb' \<Longrightarrow> tb_index tb' = tb_index tb"
  by (auto simp: WriteChunkRecord_def Let_def store_header_def store_bytes_def split: if_splits option.splits)

lemma AddPaddingRecord_index: "AddPaddingRecord n tb = Some tb' \<Longrightarrow> tb_index tb' = tb_index tb"
  by (auto simp: AddPaddingRecord_def dest: WriteChunkRecord_index)

lemma DeleteNextChunksFor_index: "DeleteNextChunksFor n tb = Some (x, tb') \<Longrightarrow> index_ok (tb_index tb) \<Longrightarrow> index_ok (tb_index tb')"
  by (auto simp: DeleteNextChunksFor_def Let_def index_ok_erases split: if_splits scan_result.splits)

lemma wrap_around_index: "wrap_around n tb = Some (x, tb') \<Longrightarrow> index_ok (tb_index tb) \<Longrightarrow> index_ok (tb_index tb')"
  by (auto simp: wrap_around_def Let_def dest!: AddPaddingRecord_index split: if_splits option.splits) (metis DeleteNextChunksFor_index)+

lemma insert_chunk_index:
  assumes "insert_chunk r fl uid c src tb = Some tb'" and "index_ok (tb_index tb)" and "cr_num_fragments r < 2 ^ 16"
  shows "index_ok (tb_index tb')"
proof -
  obtain x tb0 where d: "DeleteNextChunksFor (cr_size r) tb = Some (x, tb0)" using assms(1) by (auto simp: insert_chunk_def split: option.splits)
  have i0: "index_ok (tb_index tb0)" by (rule DeleteNextChunksFor_index [OF d assms(2)])
  have e: "index_ok (ix_emplace (Key r) (make_ChunkMeta (tb_wptr tb0) (cr_num_fragments r) c fl uid) (tb_index tb0))"
    by (rule index_ok_emplace [OF i0]) (use assms(3) in \<open>simp add: make_ChunkMeta_def\<close>)
  show ?thesis
  proof (cases x)
    case None
    with assms(1) d i0 show ?thesis by (auto simp: insert_chunk_def DiscardWrite_def)
  next
    case (Some n)
    with assms(1) d e show ?thesis
      by (auto simp: insert_chunk_def Let_def dest!: WriteChunkRecord_index AddPaddingRecord_index split: option.splits if_splits)
  qed
qed

lemma rewrite_chunk_index:
  assumes "rewrite_chunk r fl c src m tb = Some tb'" and "index_ok (tb_index tb)" and "cr_num_fragments r < 2 ^ 16"
  shows "index_ok (tb_index tb')"
  using assms index_ok_set [OF assms(2), of "m\<lparr>cm_num_fragments := cr_num_fragments r, cm_flags := fl, cm_complete := c\<rparr>" "Key r"]
  by (auto simp: rewrite_chunk_def Let_def abi_violation_def dest!: WriteChunkRecord_index split: option.splits if_splits prod.splits)

lemma CopyChunkUntrusted_index:
  assumes copy: "CopyChunkUntrusted producer uid writer chunk nf fl c src tb = Some tb'" and i: "index_ok (tb_index tb)" and nf: "nf < 2 ^ 16"
  shows "index_ok (tb_index tb')"
proof -
  obtain nf' fl' where part: "complete_part nf fl c = (nf', fl')" by fastforce
  then have "nf' < 2 ^ 16" using nf by (auto simp: complete_part_def split: if_splits)
  then have frag: "cr_num_fragments (chunk_record producer writer chunk nf' fl' n) < 2 ^ 16" for n
    by (simp add: chunk_record_def make_ChunkRecord_def)
  show ?thesis using copy i
    by (auto simp: CopyChunkUntrusted_def Let_def part abi_violation_def DiscardWrite_def split: if_splits option.splits bool.splits
        intro: rewrite_chunk_index [OF _ _ frag])
      (metis wrap_around_index insert_chunk_index [OF _ _ frag])+
qed

subsection \<open>Runs\<close>

text \<open>A fresh buffer, and what the service does with it. The flag is that reading has begun and nothing was written since.\<close>

inductive tb_run :: "bool \<Rightarrow> TraceBuffer \<Rightarrow> bool" where
  created: "tb_Initialize policy True sz = Some tb \<Longrightarrow> kRecordSize dvd sz \<Longrightarrow> 0 < sz \<Longrightarrow> tb_run False tb"
| commit: "tb_run b tb \<Longrightarrow> nf < 2 ^ 16 \<Longrightarrow> CopyChunkUntrusted producer uid writer chunk nf fl c src tb = Some tb' \<Longrightarrow> tb_run False tb'"
| patch: "tb_run b tb \<Longrightarrow> \<forall>x \<in> set ps. length (patch_data x) = kPatchSize \<Longrightarrow>
    TryPatchChunkContents producer writer chunk ps pending tb = Some (ok, tb') \<Longrightarrow> tb_run False tb'"
| begin_read: "tb_run b tb \<Longrightarrow> tb_run True (BeginRead tb)"
| read: "tb_run True tb \<Longrightarrow> ReadNextTracePacket [] tb = Some (returned, packet, props, dropped, tb') \<Longrightarrow> tb_run True tb'"

lemma find_header:
  assumes "tb_inv tb" "ix_find k (tb_index tb) = Some m"
  obtains r where "GetChunkRecordAt (cm_chunk_record m) tb = Some r"
  by (rule header_in_layout [OF assms]) simp

lemma copy_inv:
  assumes inv: "tb_inv tb" and copy: "CopyChunkUntrusted producer uid writer chunk nf fl c src tb = Some tb'"
  shows "tb_inv tb'"
proof -
  let ?n = "AlignUp16 (length src + kRecordSize)"
  obtain nf' fl' where part: "complete_part nf fl c = (nf', fl')" by fastforce
  show ?thesis
  proof (cases "?n \<le> tb_max_chunk_size tb")
    case False
    with copy inv show ?thesis by (auto simp: CopyChunkUntrusted_def Let_def abi_violation_same)
  next
    case n: True
    show ?thesis
    proof (cases "ix_find (producer, writer, chunk) (tb_index tb)")
      case (Some m)
      obtain prev where prev: "GetChunkRecordAt (cm_chunk_record m) tb = Some prev" by (rule find_header [OF inv Some])
      show ?thesis
        by (cases rule: copy_again [OF inv Some prev refl n part refl, of uid, case_names kept aborts rewritten])
          (use copy inv abi_violation_same(2) in auto)
    next
      case None
      show ?thesis
      proof (cases "tb_discard_writes tb")
        case True
        with None n copy inv part show ?thesis by (auto simp: CopyChunkUntrusted_def Let_def chunk_record_def make_ChunkRecord_def Key_def DiscardWrite_same)
      next
        case False
        show ?thesis
          by (cases rule: copy_new_chunk [OF inv False None refl n part, of uid, case_names discarded copied]) (use copy in auto)
      qed
    qed
  qed
qed

lemma patch_reader_inv:
  assumes inv: "reader_inv tb" and len: "\<forall>x \<in> set ps. length (patch_data x) = kPatchSize"
    and patch: "TryPatchChunkContents producer writer chunk ps pending tb = Some (ok, tb')"
  shows "reader_inv tb'"
proof (cases "stored tb (producer, writer, chunk)")
  case None
  let ?tb = "upd_stats (\<lambda>s. s\<lparr>bs_patches_failed := bs_patches_failed s + 1\<rparr>) tb"
  have "tb_inv ?tb = tb_inv tb" by (rule same_buffer; simp)
  with TryPatchChunkContents_missing [OF None] inv patch show ?thesis by (auto simp: reader_inv_index)
next
  case (Some x)
  obtain m bs where st: "stored tb (producer, writer, chunk) = Some (m, bs)" using Some by (cases x) simp
  have i: "tb_inv tb" "index_ok (tb_index tb)" using inv by (simp_all add: reader_inv_index)
  have "tb_inv tb'" by (rule TryPatchChunkContents_stored [OF i(1) st len, of pending]) (use patch in simp)
  moreover have "index_ok (tb_index tb')"
  proof -
    have m: "ix_find (producer, writer, chunk) (tb_index tb) = Some m" using st by (auto simp: stored_def split: option.splits)
    then have "cm_num_fragments m < 2 ^ 16" using i(2) map_of_SomeD by (fastforce simp: index_ok_def ix_find_def)
    then have set: "index_ok (ix_set (producer, writer, chunk) (m\<lparr>cm_flags := f\<rparr>) (tb_index tb))" for f
      using index_ok_set [OF i(2)] by simp
    have same: "tb_index (snd (apply_patches a e ps tb)) = tb_index tb" for a e
      by (induction ps arbitrary: tb) (simp_all add: Let_def store_bytes_def)
    obtain r where r: "GetChunkRecordAt (cm_chunk_record m) tb = Some r" by (rule find_header [OF i(1) m])
    define e where "e = cm_chunk_record m + cr_size r"
    obtain ok' tb1 where ap: "apply_patches (cm_chunk_record m) e ps tb = (ok', tb1)" by fastforce
    then have "tb_index tb1 = tb_index tb" using same [of "cm_chunk_record m" e] by simp
    with patch m r ap set i(2) show ?thesis
      by (auto simp: TryPatchChunkContents_def Let_def set_header_flags_def e_def [symmetric] split: if_splits)
  qed
  ultimately show ?thesis by (simp add: reader_inv_index)
qed

lemma BeginRead_ok:
  assumes "reader_inv tb"
  shows "reader_ok (BeginRead tb)"
proof -
  have "it_ok tb (GetReadIterForSequence 0 tb)"
  proof (cases "tb_index tb = []")
    case True
    then show ?thesis by (simp add: GetReadIterForSequence_def it_ok_def it_valid_def one_writer_in_def writer_border_def)
  next
    case False
    then show ?thesis by (intro GetReadIterForSequence_ok(1) assms) (simp_all add: writer_border_def)
  qed
  with reads_reader_ok [OF iter_reads assms] show ?thesis by (simp add: BeginRead_def)
qed

lemma tb_run_reader: "tb_run b tb \<Longrightarrow> reader_inv tb \<and> (b \<longrightarrow> reader_ok tb)"
proof (induction rule: tb_run.induct)
  case (created policy sz tb)
  then show ?case using tb_Initialize_inv by (auto simp: reader_inv_index index_ok_def tb_Initialize_def)
next
  case (commit b tb nf producer uid writer chunk fl c src tb')
  then show ?case using copy_inv CopyChunkUntrusted_index by (auto simp: reader_inv_index)
next
  case (patch b tb ps producer writer chunk pending ok tb')
  then show ?case using patch_reader_inv by blast
next
  case (begin_read b tb)
  then show ?case using BeginRead_ok by (auto simp: reader_ok_def)
next
  case (read tb returned packet props dropped tb')
  then have "packet_read tb (ReadNextTracePacket [] tb)" unfolding ReadNextTracePacket_def by (intro read_packets_returns) simp
  with read show ?case by (auto simp: packet_read_def reader_ok_def)
qed

lemmas tb_run_inv = tb_run_reader [THEN conjunct1]
lemmas tb_run_ok = tb_run_reader [THEN conjunct2, THEN mp]

end
