(* ===== verification/Trace_Buffer_Spec.thy ===== *)
theory Trace_Buffer_Spec
  imports Trace_Buffer_Runs
begin

section \<open>The central trace buffer: its properties\<close>

subsection \<open>Commits\<close>

lemma chunk_bytes:
  assumes "tb_inv tb" "stored tb k = Some (m, bs)"
  obtains r where "GetChunkRecordAt (cm_chunk_record m) tb = Some r" "rec_ok r" "length bs = cr_size r - kRecordSize"
    "cm_chunk_record m + cr_size r \<le> tb_size tb" "ix_find k (tb_index tb) = Some m" "Key r = k"
proof -
  have m: "ix_find k (tb_index tb) = Some m" using assms(2) by (auto simp: stored_def split: option.splits)
  obtain ls rs xs r ys where h: "sizes_ok tb" "ls @ rs = xs @ r # ys" "cm_chunk_record m = extent xs" "Key r = k"
    "GetChunkRecordAt (extent xs) tb = Some r" "extent (ls @ rs) \<le> tb_size tb" "rec_ok r"
    by (rule header_in_layout [OF assms(1) m])
  have e: "extent xs + cr_size r \<le> tb_size tb" using h(2,6) by simp
  have "bs = mem_range (tb_data tb) (extent xs + kRecordSize) (extent xs + cr_size r)" using assms(2) m h(3,5) by (simp add: stored_def)
  then have "length bs = cr_size r - kRecordSize" using e h(1) by (simp add: length_mem_range sizes_ok_def)
  with that h e m show thesis by simp
qed

lemma stored_none: "tb_inv tb \<Longrightarrow> stored tb k = None \<longleftrightarrow> ix_find k (tb_index tb) = None"
  using stored_find [of tb k] by (cases "ix_find k (tb_index tb)") (auto simp: stored_def)

text \<open>C3 commit_new_chunk: Committing a chunk that is not in the buffer stores it under its key with its bytes, padded with zeros to whole
  records. Every other chunk is either unchanged or, exactly when its record starts in the place of the new one, gone. A buffer with
  the policy \<open>kDiscard\<close> never gives up a chunk that is not fully read: it discards the new chunk instead, and all later ones.\<close>

theorem commit_new_chunk:
  assumes "tb_run b tb" and "\<not> tb_discard_writes tb" and "stored tb (producer, writer, chunk) = None"
    and "AlignUp16 (length src + kRecordSize) = n" and "n \<le> tb_max_chunk_size tb" and "complete_part nf fl c = (nf', fl')"
  shows "\<exists>tb'. CopyChunkUntrusted producer uid writer chunk nf fl c src tb = Some tb' \<and> tb_policy tb' = tb_policy tb \<and>
    (if tb_discard_writes tb' then tb_policy tb = kDiscard \<and> (\<forall>k. unread tb k \<longrightarrow> stored tb' k = stored tb k)
     else stored tb' (producer, writer, chunk) =
            Some (make_ChunkMeta (record_place n tb) nf' c fl' uid, src @ replicate (n - kRecordSize - length src) 0) \<and>
          (\<forall>k. k \<noteq> (producer, writer, chunk) \<longrightarrow> stored tb' k = (if overwritten n tb k then None else stored tb k)) \<and>
          (tb_policy tb = kDiscard \<longrightarrow> (\<forall>k. overwritten n tb k \<longrightarrow> \<not> unread tb k)))"
proof -
  have inv: "tb_inv tb" using tb_run_inv [OF assms(1)] by (simp add: reader_inv_index)
  have new: "ix_find (producer, writer, chunk) (tb_index tb) = None" using assms(3) stored_none [OF inv] by blast
  show ?thesis
    by (cases rule: copy_new_chunk [OF inv assms(2) new assms(4) [symmetric] assms(5,6), of uid, case_names discarded copied]) auto
qed

definition fresh_buffer :: "OverwritePolicy \<Rightarrow> nat \<Rightarrow> TraceBuffer" where
  "fresh_buffer policy n = the (tb_Initialize policy True (16 * Suc n))"

lemma fresh_run: "tb_run False (fresh_buffer policy n)"
  by (rule tb_run.created [of policy "16 * Suc n"]) (simp_all add: fresh_buffer_def tb_Initialize_def kRecordSize_def)

lemma fresh_fields: "tb_index (fresh_buffer policy n) = []" "tb_discard_writes (fresh_buffer policy n) = False"
  "tb_max_chunk_size (fresh_buffer policy n) = min (16 * Suc n) kMaxRecordSize" "tb_wptr (fresh_buffer policy n) = 0"
  "tb_size (fresh_buffer policy n) = 16 * Suc n" "tb_policy (fresh_buffer policy n) = policy"
  by (simp_all add: fresh_buffer_def tb_Initialize_def)

theorem commit_new_chunk_witness:
  "\<exists>tb'. CopyChunkUntrusted 1 7 2 3 1 0 True [8, 1] (fresh_buffer kOverwrite 3) = Some tb' \<and>
    stored tb' (1, 2, 3) = Some (make_ChunkMeta 0 1 True 0 7, [8, 1] @ replicate 14 0)"
proof -
  let ?tb = "fresh_buffer kOverwrite 3"
  have a: "\<not> tb_discard_writes ?tb" "stored ?tb (1, 2, 3) = None" "AlignUp16 (length [8 :: u8, 1] + kRecordSize) = 32"
    "32 \<le> tb_max_chunk_size ?tb" "complete_part 1 0 True = (1, 0)" "record_place 32 ?tb = 0" "tb_policy ?tb \<noteq> kDiscard"
    by (simp_all add: fresh_fields stored_def ix_find_def AlignUp16_def kRecordSize_def kMaxRecordSize_def complete_part_def
        record_place_def size_to_end_def)
  obtain tb' where "CopyChunkUntrusted 1 7 2 3 1 0 True [8, 1] ?tb = Some tb'"
    "if tb_discard_writes tb' then tb_policy ?tb = kDiscard
     else stored tb' (1, 2, 3) = Some (make_ChunkMeta (record_place 32 ?tb) 1 True 0 7, [8, 1] @ replicate (32 - kRecordSize - length [8 :: u8, 1]) 0)"
    using commit_new_chunk [OF fresh_run a(1-5), of 7] by (auto split: if_splits)
  with a(6,7) show ?thesis by (auto simp: kRecordSize_def split: if_splits)
qed

text \<open>C17 commit_aborts_iff: A commit ends the process exactly when it completes a chunk that is already in the buffer, is accepted by
  all the checks, and its record is longer than the room behind the write pointer, although the record is not written there.\<close>

theorem commit_aborts_iff:
  assumes "tb_run b tb" and "complete_part nf fl c = (nf', fl')"
  shows "CopyChunkUntrusted producer uid writer chunk nf fl c src tb = None \<longleftrightarrow>
    (let n = AlignUp16 (length src + kRecordSize)
     in n \<le> tb_max_chunk_size tb \<and> size_to_end tb < n \<and>
        (\<exists>m prev. ix_find (producer, writer, chunk) (tb_index tb) = Some m \<and> GetChunkRecordAt (cm_chunk_record m) tb = Some prev \<and>
           accepts_rewrite (chunk_record producer writer chunk nf' fl' n) fl' prev tb))"
proof -
  let ?n = "AlignUp16 (length src + kRecordSize)"
  have inv: "tb_inv tb" using tb_run_inv [OF assms(1)] by (simp add: reader_inv_index)
  show ?thesis
  proof (cases "?n \<le> tb_max_chunk_size tb")
    case False
    then show ?thesis by (simp add: CopyChunkUntrusted_def Let_def)
  next
    case n: True
    show ?thesis
    proof (cases "ix_find (producer, writer, chunk) (tb_index tb)")
      case (Some m)
      obtain prev where prev: "GetChunkRecordAt (cm_chunk_record m) tb = Some prev" by (rule find_header [OF inv Some])
      show ?thesis
        by (cases rule: copy_again [OF inv Some prev refl n assms(2) refl, of uid, case_names kept aborts rewritten])
          (use n Some prev in \<open>auto simp: Let_def\<close>)
    next
      case None
      show ?thesis
      proof (cases "tb_discard_writes tb")
        case True
        with None n assms(2) show ?thesis by (simp add: CopyChunkUntrusted_def Let_def chunk_record_def make_ChunkRecord_def Key_def)
      next
        case False
        show ?thesis
          by (cases rule: copy_new_chunk [OF inv False None refl n assms(2), of uid, case_names discarded copied]) (use None in auto)
      qed
    qed
  qed
qed

definition three_commits :: "bool option" where
  "three_commits =
     Option.bind (CopyChunkUntrusted 1 7 2 0 2 0 False (replicate 10 1) (fresh_buffer kOverwrite 3)) (\<lambda>tb.
     Option.bind (CopyChunkUntrusted 1 7 3 0 0 0 True [] tb) (\<lambda>tb.
     Some (Option.is_none (CopyChunkUntrusted 1 7 2 0 2 0 True (replicate 10 1) tb))))"

lemma three_commits: "three_commits = Some True"
  by code_simp

text \<open>One chunk with one packet, for the witnesses.\<close>

definition one_commit :: "TraceBuffer option" where
  "one_commit = CopyChunkUntrusted 1 7 2 3 1 0 True [1, 9, 0, 0, 0] (fresh_buffer kOverwrite 3)"

lemma one_commit_stored:
  "Option.bind one_commit (\<lambda>tb. stored tb (1, 2, 3)) = Some (make_ChunkMeta 0 1 True 0 7, [1, 9, 0, 0, 0] @ replicate 11 0)"
  by code_simp

lemma one_commit:
  obtains tb where "tb_run False tb" "stored tb (1, 2, 3) = Some (make_ChunkMeta 0 1 True 0 7, [1, 9, 0, 0, 0] @ replicate 11 0)"
proof -
  obtain tb where t: "one_commit = Some tb" "stored tb (1, 2, 3) = Some (make_ChunkMeta 0 1 True 0 7, [1, 9, 0, 0, 0] @ replicate 11 0)"
    using one_commit_stored by (auto simp: bind_eq_Some_conv)
  have "tb_run False tb" by (rule tb_run.commit [OF fresh_run _ t(1) [unfolded one_commit_def]]) simp
  with that t show thesis by blast
qed

theorem commit_aborts_iff_witness:
  "\<exists>b tb. tb_run b tb \<and> CopyChunkUntrusted 1 7 2 0 2 0 True (replicate 10 1) tb = None \<and> size_to_end tb < 32"
proof -
  obtain tb1 tb2 where t: "CopyChunkUntrusted 1 7 2 0 2 0 False (replicate 10 1) (fresh_buffer kOverwrite 3) = Some tb1"
    "CopyChunkUntrusted 1 7 3 0 0 0 True [] tb1 = Some tb2" "CopyChunkUntrusted 1 7 2 0 2 0 True (replicate 10 1) tb2 = None"
    using three_commits by (auto simp: three_commits_def bind_eq_Some_conv Option.is_none_def)
  have "tb_run False tb1" by (rule tb_run.commit [OF fresh_run _ t(1)]) simp
  then have run: "tb_run False tb2" by (rule tb_run.commit [OF _ _ t(2)]) simp
  have "complete_part 2 0 True = (2, 0)" by (simp add: complete_part_def)
  from commit_aborts_iff [OF run this, of 1 7 2 0 "replicate 10 1", THEN iffD1, OF t(3)]
  have "size_to_end tb2 < 32" by (simp add: Let_def AlignUp16_def kRecordSize_def)
  with run t(3) show ?thesis by blast
qed

subsection \<open>The chunks in the buffer\<close>

lemma chunk_in_layout:
  assumes "layout tb ls rs" "indexed tb (set (places 0 (ls @ rs)))" "sizes_ok tb" "stored tb k = Some (m, bs)"
  obtains r where "(cm_chunk_record m, r) \<in> set (places 0 (ls @ rs))" "length bs = cr_size r - kRecordSize" "rec_ok r" "Key r = k"
    "cm_chunk_record m + cr_size r \<le> tb_size tb"
proof -
  have m: "ix_find k (tb_index tb) = Some m" using assms(4) by (auto simp: stored_def split: option.splits)
  then obtain q r where r: "(q, r) \<in> set (places 0 (ls @ rs))" "Key r = k" "meta_of q r m" using assms(2) unfolding indexed_def by blast
  have q: "q = cm_chunk_record m" using r(3) by (simp add: meta_of_def)
  have ch: "chained tb (set (places 0 (ls @ rs)))" and e: "extent (ls @ rs) \<le> tb_size tb"
    using assms(1,3) by (auto simp: layout_def sizes_ok_def)
  have in_buf: "q + cr_size r \<le> tb_size tb" using places_bounds [OF r(1)] e by simp
  have "GetChunkRecordAt q tb = Some r" by (rule chained_header [OF ch r(1) in_buf])
  then have "bs = mem_range (tb_data tb) (q + kRecordSize) (q + cr_size r)" using assms(4) m q by (simp add: stored_def)
  then have "length bs = cr_size r - kRecordSize" using in_buf assms(3) by (simp add: length_mem_range sizes_ok_def)
  moreover have "rec_ok r" using ch r(1) by (auto simp: chained_def)
  ultimately show thesis using that r in_buf q by simp
qed

text \<open>C16 chunks_apart: In every run each chunk of the index is a whole record inside the buffer, aligned to sixteen bytes, and no two
  chunks share a byte.\<close>

theorem chunks_apart:
  assumes "tb_run b tb" and "ix_find k (tb_index tb) = Some m"
  shows "\<exists>bs. stored tb k = Some (m, bs) \<and> kRecordSize dvd cm_chunk_record m \<and> kRecordSize dvd length bs \<and>
    cm_chunk_record m + kRecordSize + length bs \<le> tb_size tb \<and>
    (\<forall>k' m' bs'. stored tb k' = Some (m', bs') \<longrightarrow> k' \<noteq> k \<longrightarrow>
       cm_chunk_record m' + kRecordSize + length bs' \<le> cm_chunk_record m \<or> cm_chunk_record m + kRecordSize + length bs \<le> cm_chunk_record m')"
proof -
  have inv: "tb_inv tb" using tb_run_inv [OF assms(1)] by (simp add: reader_inv_index)
  then obtain ls rs where l: "layout tb ls rs" "indexed tb (set (places 0 (ls @ rs)))" "sizes_ok tb" unfolding tb_inv_def by blast
  obtain bs where st: "stored tb k = Some (m, bs)" using stored_find [OF inv assms(2)] by blast
  obtain r where r: "(cm_chunk_record m, r) \<in> set (places 0 (ls @ rs))" "length bs = cr_size r - kRecordSize" "rec_ok r" "Key r = k"
    "cm_chunk_record m + cr_size r \<le> tb_size tb" by (rule chunk_in_layout [OF l st])
  have whole: "cm_chunk_record m + kRecordSize + length bs = cm_chunk_record m + cr_size r" using r(2,3) by (simp add: rec_ok_def)
  have recs: "\<forall>x \<in> set (ls @ rs). rec_ok x" using l(1) by (auto simp: layout_def dest: chained_recs)
  have "cm_chunk_record m' + kRecordSize + length bs' \<le> cm_chunk_record m \<or> cm_chunk_record m + kRecordSize + length bs \<le> cm_chunk_record m'"
    if "stored tb k' = Some (m', bs')" "k' \<noteq> k" for k' m' bs'
  proof -
    note other = that
    obtain r' where r': "(cm_chunk_record m', r') \<in> set (places 0 (ls @ rs))" "length bs' = cr_size r' - kRecordSize" "rec_ok r'" "Key r' = k'"
      "cm_chunk_record m' + cr_size r' \<le> tb_size tb" by (rule chunk_in_layout [OF l other(1)])
    have "(cm_chunk_record m', r') \<noteq> (cm_chunk_record m, r)" using r(4) r'(4) other(2) by auto
    with places_apart [OF r'(1) r(1)] whole r'(2,3) show ?thesis by (auto simp: rec_ok_def)
  qed
  moreover have "kRecordSize dvd length bs" using r(2,3) by (simp add: rec_ok_def dvd_diff_nat)
  moreover have "kRecordSize dvd cm_chunk_record m"
  proof -
    obtain ls' rs' xs x ys where h: "ls' @ rs' = xs @ x # ys" "cm_chunk_record m = extent xs" "layout tb ls' rs'"
      by (rule header_in_layout [OF inv assms(2)])
    have "\<forall>x \<in> set (ls' @ rs'). rec_ok x" using h(3) by (auto simp: layout_def dest: chained_recs)
    then have "\<forall>x \<in> set xs. rec_ok x" unfolding h(1) by simp
    then show ?thesis unfolding h(2) by (rule extent_dvd)
  qed
  moreover have "cm_chunk_record m + kRecordSize + length bs \<le> tb_size tb" using whole r(5) by simp
  ultimately show ?thesis using st by blast
qed

theorem chunks_apart_witness:
  "\<exists>tb bs. tb_run False tb \<and> stored tb (1, 2, 3) = Some (make_ChunkMeta 0 1 True 0 7, bs) \<and> kRecordSize dvd length bs"
proof -
  obtain tb where t: "tb_run False tb" "stored tb (1, 2, 3) = Some (make_ChunkMeta 0 1 True 0 7, [1, 9, 0, 0, 0] @ replicate 11 0)"
    by (rule one_commit)
  then have "ix_find (1, 2, 3) (tb_index tb) = Some (make_ChunkMeta 0 1 True 0 7)" by (auto simp: stored_def split: option.splits)
  from chunks_apart [OF t(1) this] t(1) show ?thesis by blast
qed

subsection \<open>Patches\<close>

text \<open>C18 patch_chunk: Patches to a chunk overwrite four bytes of its payload each, up to the first whose offset is not inside it; the
  call returns true exactly when all fit, and only then and with no patches pending is the chunk readable. No other chunk changes.\<close>

theorem patch_chunk:
  assumes "tb_run b tb" and "stored tb (producer, writer, chunk) = Some (m, bs)" and "\<forall>x \<in> set ps. length (patch_data x) = kPatchSize"
  shows "\<exists>tb'. TryPatchChunkContents producer writer chunk ps pending tb = Some (\<forall>x \<in> set ps. offset_untrusted x + kPatchSize \<le> length bs, tb') \<and>
    tb_run False tb' \<and>
    stored tb' (producer, writer, chunk) =
      Some (if pending \<or> \<not> (\<forall>x \<in> set ps. offset_untrusted x + kPatchSize \<le> length bs) then m
            else m\<lparr>cm_flags := cm_flags m AND NOT (ucast kChunkNeedsPatching)\<rparr>,
            foldl patch_bytes bs (takeWhile (\<lambda>x. offset_untrusted x + kPatchSize \<le> length bs) ps)) \<and>
    (\<forall>k. k \<noteq> (producer, writer, chunk) \<longrightarrow> stored tb' k = stored tb k)"
proof -
  have inv: "tb_inv tb" using tb_run_inv [OF assms(1)] by (simp add: reader_inv_index)
  have fits: "patch_fits bs = (\<lambda>x. offset_untrusted x + kPatchSize \<le> length bs)" by (simp add: patch_fits_def fun_eq_iff)
  show ?thesis
  proof (rule TryPatchChunkContents_stored [OF inv assms(2,3), of pending])
    fix tb'
    assume t: "TryPatchChunkContents producer writer chunk ps pending tb = Some (\<forall>x \<in> set ps. patch_fits bs x, tb')"
      "stored tb' (producer, writer, chunk) =
         Some (if pending \<or> \<not> (\<forall>x \<in> set ps. patch_fits bs x) then m else m\<lparr>cm_flags := cm_flags m AND NOT (ucast kChunkNeedsPatching)\<rparr>, patched bs ps)"
      "\<And>k. k \<noteq> (producer, writer, chunk) \<Longrightarrow> stored tb' k = stored tb k"
    have "tb_run False tb'" by (rule tb_run.patch [OF assms(1,3) t(1)])
    with t show ?thesis unfolding fits patched_def by blast
  qed
qed

theorem patch_chunk_witness:
  "\<exists>tb tb'. tb_run False tb \<and> TryPatchChunkContents 1 2 3 [\<lparr>offset_untrusted = 1, patch_data = [6, 7, 8, 9]\<rparr>] False tb = Some (True, tb') \<and>
    map_option snd (stored tb' (1, 2, 3)) = Some ([1, 6, 7, 8, 9] @ replicate 11 0)"
proof -
  obtain tb where t: "tb_run False tb" "stored tb (1, 2, 3) = Some (make_ChunkMeta 0 1 True 0 7, [1, 9, 0, 0, 0] @ replicate 11 0)"
    by (rule one_commit)
  have "\<forall>x \<in> set [\<lparr>offset_untrusted = 1, patch_data = [6, 7, 8, 9]\<rparr>]. length (patch_data x) = kPatchSize" by (simp add: kPatchSize_def)
  from patch_chunk [OF t this, of False] t(1) show ?thesis by (auto simp: kPatchSize_def patch_bytes_def)
qed

end
