(* ===== verification/Trace_Buffer_Reads.thy ===== *)
theory Trace_Buffer_Reads
  imports Trace_Buffer_Spec
begin

section \<open>The central trace buffer: what a client reads\<close>

text \<open>
  Every call of \<open>ReadNextTracePacket\<close> in a run returns, and the loop of a client comes to an end. What a producer has framed into a
  complete chunk is given back packet by packet.
\<close>

subsection \<open>Reading ends\<close>

text \<open>The slice lies in the bytes of a chunk of the given writer.\<close>

definition slice_of :: "TraceBuffer \<Rightarrow> PacketSequenceProperties \<Rightarrow> nat \<times> nat \<Rightarrow> bool" where
  "slice_of tb props s \<longleftrightarrow>
     (\<exists>chunk m bs. stored tb (producer_id_trusted props, sp_writer_id props, chunk) = Some (m, bs) \<and>
        cm_chunk_record m + kRecordSize \<le> fst s \<and> fst s + snd s \<le> cm_chunk_record m + kRecordSize + length bs)"

lemma payload_slice:
  assumes "tb_inv tb" "seq_slices tb (producer_id_trusted props, sp_writer_id props) sl" "s \<in> set sl"
  shows "slice_of tb props s"
proof -
  obtain chunk where c: "in_payload tb (producer_id_trusted props, sp_writer_id props, chunk) s"
    using assms(2,3) by (auto simp: seq_slices_def)
  let ?k = "(producer_id_trusted props, sp_writer_id props, chunk)"
  obtain m where m: "ix_find ?k (tb_index tb) = Some m" using c by (auto simp: in_payload_def split: option.splits)
  obtain bs where bs: "stored tb ?k = Some (m, bs)" using stored_find [OF assms(1) m] by blast
  obtain r where "GetChunkRecordAt (cm_chunk_record m) tb = Some r" "rec_ok r" "length bs = cr_size r - kRecordSize"
    "cm_chunk_record m + cr_size r \<le> tb_size tb" "ix_find ?k (tb_index tb) = Some m" "Key r = ?k" by (rule chunk_bytes [OF assms(1) bs])
  with c m bs show ?thesis unfolding slice_of_def by (intro exI [of _ chunk] exI [of _ m] exI [of _ bs]) (simp add: in_payload_def rec_ok_def)
qed

lemma reads_stored: "reads_only tb tb' \<Longrightarrow> map_option (map_prod core id) (stored tb' k) = map_option (map_prod core id) (stored tb k)"
proof -
  assume r: "reads_only tb tb'"
  have h: "GetChunkRecordAt p tb' = GetChunkRecordAt p tb" for p by (simp add: GetChunkRecordAt_def reads_fields [OF r])
  show ?thesis
  proof (cases "ix_find k (tb_index tb)")
    case None
    then show ?thesis using reads_find [OF r, of k] by (simp add: stored_def)
  next
    case (Some m)
    then obtain m' where m': "ix_find k (tb_index tb') = Some m'" "core m' = core m" using reads_find [OF r, of k] by auto
    then have "cm_chunk_record m' = cm_chunk_record m" by (simp add: core_def)
    then show ?thesis using Some m' by (simp add: stored_def h reads_fields [OF r] split: option.splits)
  qed
qed

lemma slice_of_reads: "reads_only tb tb' \<Longrightarrow> slice_of tb' props s = slice_of tb props s"
proof -
  assume r: "reads_only tb tb'"
  have "(\<exists>m bs. stored tb' k = Some (m, bs) \<and> P (cm_chunk_record m) bs) = (\<exists>m bs. stored tb k = Some (m, bs) \<and> P (cm_chunk_record m) bs)" for k P
    using reads_stored [OF r, of k] by (cases "stored tb' k"; cases "stored tb k") (auto simp: core_def)
  from this [where P = "\<lambda>p bs. p + kRecordSize \<le> fst s \<and> fst s + snd s \<le> p + kRecordSize + length bs"]
  show ?thesis unfolding slice_of_def by presburger
qed

text \<open>C14 reads_return: In every run a call for the next packet returns. A packet it gives back lies inside the stored bytes of chunks of
  the producer and writer that are reported for it, and no call changes what is stored beyond how far each chunk has been read.\<close>

theorem reads_return:
  assumes "tb_run True tb"
  shows "\<exists>returned packet props dropped tb'. ReadNextTracePacket [] tb = Some (returned, packet, props, dropped, tb') \<and> tb_run True tb' \<and>
    (\<forall>s \<in> set packet. slice_of tb props s) \<and>
    (\<forall>k. map_option (map_prod core id) (stored tb' k) = map_option (map_prod core id) (stored tb k)) \<and>
    (\<not> returned \<longrightarrow> packet = [] \<and> (\<exists>props' dropped'. ReadNextTracePacket [] tb' = Some (False, [], props', dropped', tb')))"
proof -
  have "packet_read tb (ReadNextTracePacket [] tb)" unfolding ReadNextTracePacket_def by (rule read_packets_returns [OF tb_run_ok [OF assms TrueI]])
  then obtain returned packet props dropped tb' where r: "ReadNextTracePacket [] tb = Some (returned, packet, props, dropped, tb')"
    "reads_only tb tb'" "if returned then whole_effort tb' < whole_effort tb \<and> seq_slices tb (producer_id_trusted props, sp_writer_id props) packet
      else packet = [] \<and> \<not> it_valid (tb_read_iter tb') \<and> it_seq_end (tb_read_iter tb') = length (tb_index tb')"
    by (auto simp: packet_read_def split: option.splits)
  have inv: "tb_inv tb" using tb_run_inv [OF assms] by (simp add: reader_inv_index)
  have "tb_run True tb'" by (rule tb_run.read [OF assms r(1)])
  moreover have "\<forall>s \<in> set packet. slice_of tb props s" using r(3) payload_slice [OF inv, of props packet] by (cases returned) simp_all
  moreover have "packet = [] \<and> (\<exists>props' dropped'. ReadNextTracePacket [] tb' = Some (False, [], props', dropped', tb'))" if "\<not> returned"
    using r(3) that by (auto simp: ReadNextTracePacket_def read_packets_turn)
  ultimately show ?thesis using r(1) reads_stored [OF r(2)] by blast
qed

theorem reads_return_witness:
  "\<exists>returned packet props dropped tb'. ReadNextTracePacket [] (BeginRead (fresh_buffer kDiscard 3)) = Some (returned, packet, props, dropped, tb') \<and> tb_run True tb'"
  using reads_return [OF tb_run.begin_read [OF fresh_run [of kDiscard 3]]] by blast

text \<open>The loop of a client, as the comment above \<open>BeginRead\<close> describes it.\<close>

partial_function (option) read_all :: "TraceBuffer \<Rightarrow> ((PacketSequenceProperties \<times> packet_slices) list \<times> TraceBuffer) option" where
  "read_all tb =
     do {
       (returned, packet, props, dropped, tb) \<leftarrow> ReadNextTracePacket [] tb;
       if \<not> returned then Some ([], tb)
       else do {
         (packets, tb) \<leftarrow> read_all tb;
         Some ((props, packet) # packets, tb)
       }
     }"

definition all_read :: "TraceBuffer \<Rightarrow> ((PacketSequenceProperties \<times> packet_slices) list \<times> TraceBuffer) option \<Rightarrow> bool" where
  "all_read tb x \<longleftrightarrow> (\<exists>packets tb'. x = Some (packets, tb') \<and> reads_only tb tb' \<and> (\<forall>(props, packet) \<in> set packets. \<forall>s \<in> set packet. slice_of tb props s))"

lemma read_all_returns: "reader_ok tb \<Longrightarrow> all_read tb (read_all tb)"
proof (induction "whole_effort tb" arbitrary: tb rule: less_induct)
  case less
  obtain returned packet props dropped tb1 where r: "ReadNextTracePacket [] tb = Some (returned, packet, props, dropped, tb1)"
    "packet_read tb (Some (returned, packet, props, dropped, tb1))"
    using read_packets_returns [OF less.prems, of True] unfolding ReadNextTracePacket_def
    by (cases "read_packets True [] tb") (auto simp: packet_read_def)
  have r1: "reads_only tb tb1" "reader_ok tb1" using r(2) by (simp_all add: packet_read_def)
  show ?case
  proof (cases returned)
    case False
    with r(1) r1 show ?thesis by (subst read_all.simps) (simp add: all_read_def)
  next
    case True
    have eff: "whole_effort tb1 < whole_effort tb" and sl: "\<forall>s \<in> set packet. slice_of tb props s"
      using r(2) True payload_slice [of tb props packet] less.prems by (simp_all add: packet_read_def reader_ok_def reader_inv_def)
    obtain packets tb2 where t: "read_all tb1 = Some (packets, tb2)" "reads_only tb1 tb2"
      "\<forall>(props, packet) \<in> set packets. \<forall>s \<in> set packet. slice_of tb props s"
      using less.hyps [OF eff r1(2)] unfolding all_read_def slice_of_reads [OF r1(1)] by blast
    have "read_all tb = Some ((props, packet) # packets, tb2)" using r(1) True t(1) by (subst read_all.simps) simp
    then show ?thesis using reads_trans [OF r1(1) t(2)] sl t(3) by (simp add: all_read_def)
  qed
qed

text \<open>C15 reading_ends: A client that reads until there are no more packets comes to an end, whatever the producers have written; every
  slice of every packet lies in the bytes of a chunk of the reported writer, and what is stored is left as it was.\<close>

theorem reading_ends:
  assumes "tb_run b tb"
  shows "\<exists>packets tb'. read_all (BeginRead tb) = Some (packets, tb') \<and>
    (\<forall>(props, packet) \<in> set packets. \<forall>s \<in> set packet. slice_of tb props s) \<and>
    (\<forall>k. map_option (map_prod core id) (stored tb' k) = map_option (map_prod core id) (stored tb k))"
proof -
  have b: "reads_only tb (BeginRead tb)" unfolding BeginRead_def by (rule iter_reads)
  obtain packets tb' where t: "read_all (BeginRead tb) = Some (packets, tb')" "reads_only (BeginRead tb) tb'"
    "\<forall>(props, packet) \<in> set packets. \<forall>s \<in> set packet. slice_of tb props s"
    using read_all_returns [OF BeginRead_ok [OF tb_run_inv [OF assms]]] unfolding all_read_def slice_of_reads [OF b] by blast
  with reads_stored [OF reads_trans [OF b t(2)]] show ?thesis by blast
qed

theorem reading_ends_witness:
  "\<exists>packets tb'. read_all (BeginRead (fresh_buffer kOverwrite 3)) = Some (packets, tb')"
  using reading_ends [OF fresh_run [of kOverwrite 3]] by blast

subsection \<open>Packets framed into a chunk\<close>

text \<open>The payload a producer writes: each packet behind its size, in four bytes.\<close>

definition frame :: "u8 list \<Rightarrow> u8 list" where
  "frame d = WriteRedundantVarInt (word_of_nat (length d)) @ d"

definition frames :: "u8 list list \<Rightarrow> u8 list" where
  "frames ds = concat (map frame ds)"

definition plain_flags :: "u8 \<Rightarrow> bool" where
  "plain_flags fl \<longleftrightarrow> \<not> flag fl kFirstPacketContinuesFromPrevChunk \<and> \<not> flag fl kLastPacketContinuesOnNextChunk \<and> \<not> flag fl kChunkNeedsPatching"

lemma mem_range_part:
  "mem_range m a e = bs \<Longrightarrow> i + n \<le> length bs \<Longrightarrow> mem_range m (a + i) (a + i + n) = take n (drop i bs)"
  by (auto simp: mem_range_def drop_take add.commute)

lemma length_frame: "length (frame d) = kMessageLengthFieldSize + length d"
  by (simp add: frame_def kMessageLengthFieldSize_def)

lemma ReadNextPacketInChunk_frame:
  assumes inv: "tb_inv tb" and st: "stored tb k = Some (m, pre @ frame d @ rest)" and off: "cm_cur_fragment_offset m = length pre" and d: "d \<noteq> []"
  defines "p \<equiv> cm_chunk_record m + kRecordSize + length pre + kMessageLengthFieldSize"
  defines "m' \<equiv> m\<lparr>cm_cur_fragment_offset := length (pre @ frame d), cm_num_fragments_read := (cm_num_fragments_read m + 1) mod 2 ^ 16,
    cm_last_read_packet_skipped := False\<rparr>"
  shows "\<exists>tb'. ReadNextPacketInChunk k tb = Some (kSucceeded, [(p, length d)], tb') \<and> tb_index tb' = ix_set k m' (tb_index tb) \<and>
    mem_range (tb_data tb) p (p + length d) = d"
proof -
  let ?bs = "pre @ frame d @ rest"
  obtain r where r: "GetChunkRecordAt (cm_chunk_record m) tb = Some r" "rec_ok r" "length ?bs = cr_size r - kRecordSize"
    "cm_chunk_record m + cr_size r \<le> tb_size tb" "ix_find k (tb_index tb) = Some m" "Key r = k" by (rule chunk_bytes [OF inv st])
  define a where "a = cm_chunk_record m + kRecordSize"
  define e where "e = cm_chunk_record m + cr_size r"
  have len: "length pre + kMessageLengthFieldSize + length d \<le> e - a" "e - a \<le> kMaxRecordSize" "a \<le> e"
    using r(2,3) le_trans [OF diff_le_self] by (simp_all add: rec_ok_def length_frame a_def e_def)
  have bs: "mem_range (tb_data tb) a e = ?bs" using st r(1,5) by (simp add: stored_def a_def e_def)
  have e: "e \<le> length (tb_data tb)" using r(4) inv by (simp add: e_def tb_inv_def sizes_ok_def)
  let ?b = "a + length pre"
  have part: "mem_range (tb_data tb) (a + i) (a + i + n) = take n (drop i ?bs)" if "i + n \<le> e - a" for i n
    by (rule mem_range_part [OF bs]) (use that r(3) in \<open>simp add: a_def e_def\<close>)
  have hdr: "mem_range (tb_data tb) ?b (?b + kMessageLengthFieldSize) = WriteRedundantVarInt (word_of_nat (length d)) @ []"
    using part [of "length pre" kMessageLengthFieldSize] len(1) by (simp add: frame_def kMessageLengthFieldSize_def)
  have small: "length d < 2 ^ 16" using len(1,2) by (simp add: kMaxRecordSize_def)
  then have v: "unat (word_of_nat (length d) :: u32) = length d" by (simp add: unat_of_nat take_bit_nat_eq_self)
  have fin: "min (?b + kMessageLengthFieldSize) e = ?b + kMessageLengthFieldSize" using len(1,3) by simp
  have parse: "ParseVarInt (tb_data tb) ?b (?b + kMessageLengthFieldSize) = (?b + kMessageLengthFieldSize, ucast (word_of_nat (length d) :: u32))"
    using ParseVarInt_WriteRedundantVarInt [OF hdr] len(1,3) e v small by (simp add: kMessageLengthFieldSize_def)
  have n: "unat (ucast (word_of_nat (length d) :: u32) :: u64) = length d" using v by (simp add: unat_ucast_u32)
  have n0: "ucast (word_of_nat (length d) :: u32) \<noteq> (0 :: u64)" using n d by (metis length_0_conv unat_0)
  have p: "p = ?b + kMessageLengthFieldSize" by (simp add: p_def a_def)
  have nxt: "(p + length d - a) mod 2 ^ 16 = length (pre @ frame d)"
    using len by (simp add: p length_frame kMaxRecordSize_def)
  have ends: "?b < e" "?b + kMessageLengthFieldSize + length d \<le> e" using len(1,3) by (simp_all add: kMessageLengthFieldSize_def)
  let ?tb1 = "set_meta k m' tb"
  let ?tb' = "if cm_num_fragments_read m' = cm_num_fragments m' then count_chunk_read m' r ?tb1 else ?tb1"
  have "ReadNextPacketInChunk k tb = Some (kSucceeded, [(p, length d)], ?tb')"
    unfolding ReadNextPacketInChunk_def r(1,5) bind.bind_lunit Let_def off a_def [symmetric] e_def [symmetric] fin parse prod.case n
    using ends n0 nxt d unfolding p [symmetric] m'_def by (simp add: p not_le not_less)
  moreover have "tb_index ?tb' = ix_set k m' (tb_index tb)" by (simp add: count_chunk_read_same set_meta_def)
  moreover have "mem_range (tb_data tb) p (p + length d) = d"
    using part [of "length pre + kMessageLengthFieldSize" "length d"] len(1) by (simp add: p frame_def kMessageLengthFieldSize_def add.assoc)
  ultimately show ?thesis by blast
qed

text \<open>The reader stands on the chunk \<open>k\<close>, of whose packets \<open>ds\<close> it has read \<open>i\<close>.\<close>

definition reading_frames :: "chunk_key \<Rightarrow> u32 \<Rightarrow> u8 list list \<Rightarrow> nat \<Rightarrow> TraceBuffer \<Rightarrow> bool" where
  "reading_frames k uid ds i tb \<longleftrightarrow> reader_ok tb \<and> it_valid (tb_read_iter tb) \<and> cur_key tb = k \<and>
     (\<exists>m rest. stored tb k = Some (m, frames ds @ rest) \<and> cm_num_fragments m = length ds \<and> cm_num_fragments_read m = i \<and>
        cm_cur_fragment_offset m = length (frames (take i ds)) \<and> plain_flags (cm_flags m) \<and> cm_trusted_uid m = uid)"

abbreviation writer_props :: "chunk_key \<Rightarrow> u32 \<Rightarrow> PacketSequenceProperties" where
  "writer_props k uid \<equiv> \<lparr>producer_id_trusted = fst k, producer_uid_trusted = uid, sp_writer_id = fst (snd k)\<rparr>"

definition slices_bytes :: "TraceBuffer \<Rightarrow> packet_slices \<Rightarrow> u8 list" where
  "slices_bytes tb packet = concat (map (\<lambda>(p, n). mem_range (tb_data tb) p (p + n)) packet)"

lemma frames_simps: "frames [] = []" "frames (d # ds) = frame d @ frames ds" "frames (xs @ ys) = frames xs @ frames ys"
  by (simp_all add: frames_def)

lemma frames_at:
  assumes "i < length ds"
  shows "frames ds = frames (take i ds) @ frame (ds ! i) @ frames (drop (Suc i) ds)" "frames (take (Suc i) ds) = frames (take i ds) @ frame (ds ! i)"
proof -
  show "frames ds = frames (take i ds) @ frame (ds ! i) @ frames (drop (Suc i) ds)"
    by (subst id_take_nth_drop [OF assms]) (simp only: frames_simps)
  show "frames (take (Suc i) ds) = frames (take i ds) @ frame (ds ! i)"
    unfolding take_Suc_conv_app_nth [OF assms] by (simp add: frames_simps)
qed

lemma cur_meta:
  assumes "reader_ok tb" "it_valid (tb_read_iter tb)" "stored tb (cur_key tb) = Some (m, bs)"
  shows "meta_at (it_cur (tb_read_iter tb)) tb = m" "ix_find (cur_key tb) (tb_index tb) = Some m"
proof -
  have i: "reader_inv tb" "it_cur (tb_read_iter tb) < length (tb_index tb)" using assms(1,2) it_ok_cur by (auto simp: reader_ok_def)
  show "ix_find (cur_key tb) (tb_index tb) = Some m" using assms(3) by (auto simp: stored_def split: option.splits)
  with key_find [OF i] show "meta_at (it_cur (tb_read_iter tb)) tb = m" by (simp add: cur_key_def)
qed

lemma read_frame:
  assumes at: "reading_frames k uid ds i tb" and i: "i < length ds" "ds ! i \<noteq> []"
  shows "\<exists>packet d' tb'. read_packets d [] tb = Some (True, packet, writer_props k uid, d', tb') \<and> reading_frames k uid ds (Suc i) tb' \<and>
    reads_only tb tb' \<and> tb_read_iter tb' = tb_read_iter tb \<and> slices_bytes tb packet = ds ! i"
proof -
  obtain m rest where m: "stored tb k = Some (m, frames ds @ rest)" "cm_num_fragments m = length ds" "cm_num_fragments_read m = i"
    "cm_cur_fragment_offset m = length (frames (take i ds))" "plain_flags (cm_flags m)" "cm_trusted_uid m = uid"
    and ok: "reader_ok tb" "it_valid (tb_read_iter tb)" and k: "cur_key tb = k" using at by (auto simp: reading_frames_def)
  have inv: "tb_inv tb" "reader_inv tb" using ok(1) by (simp_all add: reader_ok_def reader_inv_def)
  note cm = cur_meta [OF ok, unfolded k, OF m(1)]
  have max: "cm_num_fragments m < 2 ^ 16" using inv(2) cm(2) map_of_SomeD by (fastforce simp: reader_inv_def ix_find_def)
  let ?m' = "m\<lparr>cm_cur_fragment_offset := length (frames (take (Suc i) ds)), cm_num_fragments_read := Suc i, cm_last_read_packet_skipped := False\<rparr>"
  have st: "stored tb k = Some (m, frames (take i ds) @ frame (ds ! i) @ (frames (drop (Suc i) ds) @ rest))"
    using m(1) frames_at(1) [OF i(1)] by simp
  have suc: "(cm_num_fragments_read m + 1) mod 2 ^ 16 = Suc i" using m(2,3) max i(1) by simp
  obtain p tb1 where r: "ReadNextPacketInChunk k tb = Some (kSucceeded, [(p, length (ds ! i))], tb1)" "tb_index tb1 = ix_set k ?m' (tb_index tb)"
    "mem_range (tb_data tb) p (p + length (ds ! i)) = ds ! i"
    using ReadNextPacketInChunk_frame [OF inv(1) st m(4) i(2)] unfolding suc frames_at(2) [OF i(1), symmetric] by blast
  have left: "left_in (meta_at (it_cur (tb_read_iter tb)) tb) \<noteq> 0" using cm(1) m(2,3) i(1) by (simp add: left_in_def)
  obtain res sl tb2 where one: "ReadNextPacketInChunk (cur_key tb) tb = Some (res, sl, tb2)" "on_sequence tb tb2" "tb_read_iter tb2 = tb_read_iter tb"
    "seq_slices tb (writer_at (it_cur (tb_read_iter tb)) tb) sl" "effort tb2 < effort tb" by (rule one_packet [OF ok left])
  have tb2: "tb2 = tb1" using one(1) r(1) k by simp
  note seq = one(2,3) [unfolded tb2]
  have rd: "reads_only tb tb1" "reader_ok tb1" using seq(1) by (auto simp: on_sequence_def)
  have act: "action_for m = kReadOnePacket" using m(5) by (simp add: action_for_def plain_flags_def)
  have frag: "read_fragments d' [] tb = Some (True, d', [(p, length (ds ! i))], tb1)" for d'
    using ok(2) k cm(1) m(2,3) i(1) act r(1) by (subst read_fragments.simps) (simp add: Let_def)
  have "\<not> flag (cm_flags m) kChunkNeedsPatching" using m(5) by (simp add: plain_flags_def)
  then obtain d' where "read_packets d [] tb = Some (True, [(p, length (ds ! i))], writer_props k uid, d', tb1)"
    using ok(2) cm(1) k m(6) frag by (simp add: read_packets_turn packet_turn_def Let_def)
  moreover have "reading_frames k uid ds (Suc i) tb1"
  proof -
    have "cur_key tb1 = k" using k reads_index(3) [OF rd(1), of "it_cur (tb_read_iter tb)"] it_ok_cur [of tb "tb_read_iter tb"] ok seq(2)
      by (simp add: cur_key_def reader_ok_def)
    moreover have "GetChunkRecordAt q tb1 = GetChunkRecordAt q tb" for q by (simp add: GetChunkRecordAt_def reads_fields [OF rd(1)])
    then have "stored tb1 k = Some (?m', frames ds @ rest)"
      using m(1) cm(2) by (simp add: stored_def r(2) ix_find_set reads_fields [OF rd(1)] split: option.splits)
    ultimately show ?thesis using rd(2) seq(2) ok(2) m(2,5,6) by (simp add: reading_frames_def)
  qed
  ultimately show ?thesis using rd(1) seq(2) r(3) by (auto simp: slices_bytes_def)
qed

text \<open>The sequence ends with this chunk, and it is the last one.\<close>

definition last_chunk :: "TraceBuffer \<Rightarrow> bool" where
  "last_chunk tb \<longleftrightarrow> \<not> it_valid (MoveNext tb (tb_read_iter tb)) \<and> it_seq_end (tb_read_iter tb) = length (tb_index tb)"

lemma slices_bytes_reads: "reads_only tb tb' \<Longrightarrow> slices_bytes tb' = slices_bytes tb"
  by (simp add: slices_bytes_def fun_eq_iff reads_fields)

lemma frames_done:
  assumes at: "reading_frames k uid ds i tb" and i: "\<not> i < length ds" and last: "last_chunk tb"
  shows "\<exists>tb'. read_all tb = Some ([], tb') \<and> reads_only tb tb'"
proof -
  obtain m rest where m: "stored tb k = Some (m, frames ds @ rest)" "cm_num_fragments m = length ds" "cm_num_fragments_read m = i"
    "plain_flags (cm_flags m)" and ok: "reader_ok tb" "it_valid (tb_read_iter tb)" and k: "cur_key tb = k" using at by (auto simp: reading_frames_def)
  note cm = cur_meta [OF ok, unfolded k, OF m(1)]
  let ?tb' = "tb\<lparr>tb_read_iter := MoveNext tb (tb_read_iter tb)\<rparr>"
  have frag: "read_fragments d [] tb = Some (False, d, [], tb)" for d
    using ok(2) cm(1) m(2,3) i by (subst read_fragments.simps) (simp add: Let_def)
  have fin: "read_packets d [] ?tb' = Some (False, [], \<lparr>producer_id_trusted = 0, producer_uid_trusted = - 1, sp_writer_id = 0\<rparr>, False, ?tb')" for d
    using last by (simp add: read_packets_turn last_chunk_def MoveNext_fields)
  have "\<not> flag (cm_flags m) kChunkNeedsPatching" using m(4) by (simp add: plain_flags_def)
  then have "ReadNextTracePacket [] tb = Some (False, [], \<lparr>producer_id_trusted = 0, producer_uid_trusted = - 1, sp_writer_id = 0\<rparr>, False, ?tb')"
    using ok(2) cm(1) frag fin by (simp add: ReadNextTracePacket_def read_packets_turn [of _ tb] packet_turn_def Let_def)
  then have "read_all tb = Some ([], ?tb')" by (subst read_all.simps) simp
  with iter_reads show ?thesis by blast
qed

lemma read_all_frames:
  "reading_frames k uid ds i tb \<Longrightarrow> \<forall>d \<in> set ds. d \<noteq> [] \<Longrightarrow> last_chunk tb \<Longrightarrow>
    \<exists>packets tb'. read_all tb = Some (packets, tb') \<and> reads_only tb tb' \<and>
      map (\<lambda>(props, packet). (props, slices_bytes tb packet)) packets = map (\<lambda>d. (writer_props k uid, d)) (drop i ds)"
proof (induction "length ds - i" arbitrary: i tb rule: less_induct)
  case less
  show ?case
  proof (cases "i < length ds")
    case False
    with frames_done [OF less.prems(1) False less.prems(3)] show ?thesis by auto
  next
    case True
    then have "ds ! i \<noteq> []" using less.prems(2) by simp
    then obtain packet d' tb1 where r: "read_packets True [] tb = Some (True, packet, writer_props k uid, d', tb1)"
      "reading_frames k uid ds (Suc i) tb1" "reads_only tb tb1" "tb_read_iter tb1 = tb_read_iter tb" "slices_bytes tb packet = ds ! i"
      using read_frame [OF less.prems(1) True, of True] by blast
    have "it_ok tb (tb_read_iter tb)" using less.prems(1) by (simp add: reading_frames_def reader_ok_def)
    then have "last_chunk tb1" using less.prems(3) r(4) reads_MoveNext [OF r(3)] reads_index(1) [OF r(3)] by (simp add: last_chunk_def)
    moreover have "length ds - Suc i < length ds - i" using True by simp
    ultimately obtain packets tb' where t: "read_all tb1 = Some (packets, tb')" "reads_only tb1 tb'"
      "map (\<lambda>(props, packet). (props, slices_bytes tb packet)) packets = map (\<lambda>d. (writer_props k uid, d)) (drop (Suc i) ds)"
      using less.hyps [OF _ r(2) less.prems(2)] unfolding slices_bytes_reads [OF r(3)] by blast
    have "read_all tb = Some ((writer_props k uid, packet) # packets, tb')"
      using r(1) t(1) by (subst read_all.simps) (simp add: ReadNextTracePacket_def)
    then show ?thesis using reads_trans [OF r(3) t(2)] t(3) r(5) True
      by (intro exI [of _ "(writer_props k uid, packet) # packets"] exI [of _ tb']) (simp flip: Cons_nth_drop_Suc)
  qed
qed

text \<open>A buffer that holds one chunk only.\<close>

lemma only_chunk:
  assumes inv: "reader_inv tb" and st: "stored tb k = Some (m, bs)" "\<forall>k'. k' \<noteq> k \<longrightarrow> stored tb k' = None"
  shows "tb_index tb = [(k, m)]"
proof -
  have i: "tb_inv tb" "distinct (map fst (tb_index tb))" using inv by (auto simp: reader_inv_def tb_inv_def indexed_def)
  have "k' \<in> fst ` set (tb_index tb) \<longleftrightarrow> stored tb k' \<noteq> None" for k'
    using stored_none [OF i(1), of k'] map_of_eq_None_iff [of "tb_index tb" k'] by (simp add: ix_find_def)
  moreover have "stored tb k' \<noteq> None \<longleftrightarrow> k' = k" for k' by (cases "k' = k") (simp add: st(1), simp add: st(2) [THEN spec, THEN mp])
  ultimately have "k' \<in> fst ` set (tb_index tb) \<longleftrightarrow> k' = k" for k' by simp
  then have keys: "fst ` set (tb_index tb) = {k}" by (intro set_eqI) simp
  have "length (tb_index tb) = 1" using distinct_card [OF i(2)] keys by simp
  then obtain x where x: "tb_index tb = [x]" by (auto simp: length_Suc_conv)
  with keys have "fst x = k" by simp
  with x st(1) show ?thesis by (cases x) (auto simp: stored_def ix_find_def split: option.splits)
qed

lemma BeginRead_only:
  assumes "tb_index tb = [((producer, writer, chunk), m)]"
  shows "it_seq_begin (tb_read_iter (BeginRead tb)) = 0" "it_seq_end (tb_read_iter (BeginRead tb)) = 1" "it_cur (tb_read_iter (BeginRead tb)) = 0"
    "tb_index (BeginRead tb) = tb_index tb" "last_chunk (BeginRead tb)" "stored (BeginRead tb) k = stored tb k"
proof -
  show it: "it_seq_begin (tb_read_iter (BeginRead tb)) = 0" "it_seq_end (tb_read_iter (BeginRead tb)) = 1" "it_cur (tb_read_iter (BeginRead tb)) = 0"
    "tb_index (BeginRead tb) = tb_index tb"
    by (simp_all add: BeginRead_def GetReadIterForSequence_def Let_def assms upper_bound_def kMaxChunkID_def split: option.split)
  show "last_chunk (BeginRead tb)"
    using it by (simp add: last_chunk_def MoveNext_def Let_def it_valid_def MoveToEnd_def assms chunk_id_at_def key_at_def)
  show "stored (BeginRead tb) k = stored tb k" by (rule same_buffer; simp add: BeginRead_def)
qed

text \<open>C4 framed_packets_roundtrip: The packets that a producer frames into a complete chunk are what the client reads, one after the
  other, with their bytes and the producer, user and writer of the chunk, when nothing else is in the buffer.\<close>

theorem framed_packets_roundtrip:
  assumes "tb_run b tb" and "tb_index tb = []" and "tb_policy tb = kOverwrite" and "\<not> tb_discard_writes tb"
    and "AlignUp16 (length (frames ds) + kRecordSize) \<le> tb_max_chunk_size tb" and "length ds < 2 ^ 16" and "\<forall>d \<in> set ds. d \<noteq> []" and "plain_flags fl"
  shows "\<exists>tb' packets tb''. CopyChunkUntrusted producer uid writer chunk (length ds) fl True (frames ds) tb = Some tb' \<and>
    read_all (BeginRead tb') = Some (packets, tb'') \<and>
    map (\<lambda>(props, packet). (props, slices_bytes tb'' packet)) packets =
      map (\<lambda>d. (\<lparr>producer_id_trusted = producer, producer_uid_trusted = uid, sp_writer_id = writer\<rparr>, d)) ds"
proof -
  let ?k = "(producer, writer, chunk)"
  let ?n = "AlignUp16 (length (frames ds) + kRecordSize)"
  let ?m = "make_ChunkMeta (record_place ?n tb) (length ds) True fl uid"
  let ?bs = "frames ds @ replicate (?n - kRecordSize - length (frames ds)) 0"
  have inv: "tb_inv tb" using tb_run_inv [OF assms(1)] by (simp add: reader_inv_index)
  have none: "ix_find ?k (tb_index tb) = None" "complete_part (length ds) fl True = (length ds, fl)" "stored tb k = None" for k
    by (simp_all add: assms(2) ix_find_def complete_part_def stored_def)
  obtain tb' where t: "CopyChunkUntrusted producer uid writer chunk (length ds) fl True (frames ds) tb = Some tb'"
    "stored tb' ?k = Some (?m, ?bs)" "\<forall>k. k \<noteq> ?k \<longrightarrow> stored tb' k = None"
    by (cases rule: copy_new_chunk [OF inv assms(4) none(1) refl assms(5) none(2), of uid, case_names discarded copied])
      (use assms(3) none(3) in auto)
  have inv': "reader_inv tb'" by (rule tb_run_inv [OF tb_run.commit [OF assms(1) assms(6) t(1)]])
  have idx: "tb_index tb' = [(?k, ?m)]" by (rule only_chunk [OF inv' t(2,3)])
  let ?tb = "BeginRead tb'"
  note it = BeginRead_only [OF idx]
  have "reading_frames ?k uid ds 0 ?tb"
    unfolding reading_frames_def it(6)
    using BeginRead_ok [OF inv'] it t(2) assms(8) by (simp add: it_valid_def cur_key_def key_at_def idx make_ChunkMeta_def frames_simps)
  then obtain packets tb'' where p: "read_all ?tb = Some (packets, tb'')" "reads_only ?tb tb''"
    "map (\<lambda>(props, packet). (props, slices_bytes ?tb packet)) packets = map (\<lambda>d. (writer_props ?k uid, d)) (drop 0 ds)"
    using read_all_frames [OF _ assms(7) it(5)] by blast
  have "map (\<lambda>(props, packet). (props, slices_bytes tb'' packet)) packets = map (\<lambda>d. (writer_props ?k uid, d)) ds"
    unfolding slices_bytes_reads [OF p(2)] using p(3) by simp
  with t(1) p(1) show ?thesis by auto
qed

theorem framed_packets_roundtrip_witness:
  "\<exists>tb' packets tb''. CopyChunkUntrusted 1 7 2 3 (length [[8 :: u8, 1], [16]]) 0 True (frames [[8, 1], [16]]) (fresh_buffer kOverwrite 3) = Some tb' \<and>
    read_all (BeginRead tb') = Some (packets, tb'') \<and>
    map (\<lambda>(props, packet). (props, slices_bytes tb'' packet)) packets =
      map (\<lambda>d. (\<lparr>producer_id_trusted = 1, producer_uid_trusted = 7, sp_writer_id = 2\<rparr>, d)) [[8, 1], [16]]"
  by (rule framed_packets_roundtrip [OF fresh_run])
    (simp_all add: fresh_fields frames_def frame_def AlignUp16_def kRecordSize_def kMaxRecordSize_def plain_flags_def flag_def)

end
