(* ===== verification/Trace_Buffer_Fragments.thy ===== *)
theory Trace_Buffer_Fragments
  imports Trace_Buffer_Reads
begin

section \<open>The central trace buffer: packets over several chunks\<close>

text \<open>
  A packet that does not fit into one chunk goes on in the next ones. The reader looks ahead and, once all fragments are there, gives
  the packet back in one piece.
\<close>

subsection \<open>Where the fragments lie\<close>

text \<open>The next unread bytes of the chunk at the position \<open>p\<close> of the index are the fragment \<open>d\<close> behind its size.\<close>

definition fragment_at :: "TraceBuffer \<Rightarrow> nat \<Rightarrow> u8 list \<Rightarrow> bool" where
  "fragment_at tb p d \<longleftrightarrow> d \<noteq> [] \<and>
     (\<exists>m pre rest. stored tb (key_at p tb) = Some (m, pre @ frame d @ rest) \<and> cm_cur_fragment_offset m = length pre)"

text \<open>The fragments \<open>ds\<close> of a packet, from the chunk at the iterator on: all but the last go on in the next chunk.\<close>

definition inner_chunk :: "ChunkMeta \<Rightarrow> bool" where
  "inner_chunk m \<longleftrightarrow> cm_num_fragments m = 1 \<and> flag (cm_flags m) kLastPacketContinuesOnNextChunk"

definition continued :: "ChunkMeta \<Rightarrow> bool" where
  "continued m \<longleftrightarrow> cm_num_fragments m \<noteq> 0 \<and> flag (cm_flags m) kFirstPacketContinuesFromPrevChunk \<and> \<not> flag (cm_flags m) kChunkNeedsPatching"

definition spread :: "TraceBuffer \<Rightarrow> SequenceIterator \<Rightarrow> u8 list list \<Rightarrow> bool" where
  "spread tb it ds \<longleftrightarrow> 2 \<le> length ds \<and>
     (\<forall>j < length ds. it_valid (moves tb j it) \<and> fragment_at tb (it_cur (moves tb j it)) (ds ! j)) \<and>
     (\<forall>j < length ds. 0 < j \<longrightarrow> continued (meta_at (it_cur (moves tb j it)) tb) \<and>
        (inner_chunk (meta_at (it_cur (moves tb j it)) tb) \<longleftrightarrow> Suc j < length ds))"

lemma MoveNext_id:
  "it_valid (MoveNext tb it) \<Longrightarrow> chunk_id_at (it_cur (MoveNext tb it)) tb = chunk_id_at (it_cur it) tb + 1"
  by (cases rule: MoveNext_cases [of tb it, case_names ends moves]) (simp_all add: MoveToEnd_def it_valid_def)

text \<open>The look ahead finds the chunk in which the packet ends.\<close>

lemma ra_scan_finds:
  "\<forall>j \<le> n. it_valid (moves tb j it) \<and> continued (meta_at (it_cur (moves tb j it)) tb) \<and>
       (inner_chunk (meta_at (it_cur (moves tb j it)) tb) \<longleftrightarrow> j < n) \<Longrightarrow>
   nid = chunk_id_at (it_cur it) tb \<Longrightarrow> ra_scan tb it nid = Some (Some (moves tb n it))"
proof (induction n arbitrary: it nid)
  case 0
  then have "it_valid it" "continued (meta_at (it_cur it) tb)" "\<not> inner_chunk (meta_at (it_cur it) tb)" by simp_all
  with 0(2) show ?case by (subst ra_scan.simps) (auto simp: continued_def inner_chunk_def Let_def)
next
  case (Suc n)
  have here: "it_valid it" "continued (meta_at (it_cur it) tb)" "inner_chunk (meta_at (it_cur it) tb)" using Suc.prems(1) [rule_format, of 0] by simp_all
  have next_valid: "it_valid (MoveNext tb it)" using Suc.prems(1) [rule_format, of 1] by simp
  have "\<forall>j \<le> n. it_valid (moves tb j (MoveNext tb it)) \<and> continued (meta_at (it_cur (moves tb j (MoveNext tb it))) tb) \<and>
       (inner_chunk (meta_at (it_cur (moves tb j (MoveNext tb it))) tb) \<longleftrightarrow> j < n)"
    using Suc.prems(1) [rule_format, of "Suc j" for j] by (auto simp: funpow_swap1)
  then have "ra_scan tb (MoveNext tb it) (nid + 1) = Some (Some (moves tb n (MoveNext tb it)))"
    by (rule Suc.IH) (simp add: MoveNext_id [OF next_valid] Suc.prems(2))
  with here Suc.prems(2) show ?case by (subst ra_scan.simps) (auto simp: continued_def inner_chunk_def Let_def funpow_swap1)
qed

subsection \<open>Reading the fragments\<close>

lemma moves_apart:
  assumes "\<forall>j \<le> n. it_valid (moves tb j it)" and "0 < n"
  shows "it_cur (moves tb n it) \<noteq> it_cur it"
proof
  assume eq: "it_cur (moves tb n it) = it_cur it"
  have "it_valid (moves tb n it)" "it_valid it" using assms(1) [rule_format, of n] assms(1) [rule_format, of 0] by simp_all
  with eq have "to_go tb (moves tb n it) = to_go tb it" by (simp add: to_go_def moves_fields)
  with moves_to_go [OF assms] show False by simp
qed

lemma keys_apart:
  assumes "reader_inv tb" "p < length (tb_index tb)" "q < length (tb_index tb)" "p \<noteq> q"
  shows "key_at p tb \<noteq> key_at q tb"
proof -
  have "distinct (map fst (tb_index tb))" using assms(1) by (auto simp: reader_inv_def tb_inv_def indexed_def)
  from nth_eq_iff_index_eq [OF this, of p q] assms(2-4) show ?thesis by (simp add: key_at_def)
qed

lemma one_fragment:
  assumes ok: "reader_ok tb" "it_valid (tb_read_iter tb)" and f: "fragment_at tb (it_cur (tb_read_iter tb)) d"
  obtains s tb' where "ReadNextPacketInChunk (cur_key tb) tb = Some (kSucceeded, [s], tb')" "slices_bytes tb [s] = d" "reads_only tb tb'"
    "tb_read_iter tb' = tb_read_iter tb" "\<forall>k. k \<noteq> cur_key tb \<longrightarrow> stored tb' k = stored tb k"
proof -
  obtain m pre rest where m: "stored tb (cur_key tb) = Some (m, pre @ frame d @ rest)" "cm_cur_fragment_offset m = length pre" "d \<noteq> []"
    using f by (auto simp: fragment_at_def cur_key_def)
  have inv: "tb_inv tb" "reader_inv tb" using ok(1) by (simp_all add: reader_ok_def reader_inv_def)
  obtain p tb' where r: "ReadNextPacketInChunk (cur_key tb) tb = Some (kSucceeded, [(p, length d)], tb')" "mem_range (tb_data tb) p (p + length d) = d"
    using ReadNextPacketInChunk_frame [OF inv(1) m] by blast
  obtain res sl tb2 where st: "ReadNextPacketInChunk (cur_key tb) tb = Some (res, sl, tb2)" "read_step (cur_key tb) tb sl tb2"
    using ReadNextPacketInChunk_step [OF inv(2) cur_meta(2) [OF ok m(1)]] by blast
  then have rs: "read_step (cur_key tb) tb [(p, length d)] tb'" using r(1) by simp
  then have rd: "reads_only tb tb'" "tb_read_iter tb' = tb_read_iter tb" by (simp_all add: read_step_def)
  have h: "GetChunkRecordAt q tb' = GetChunkRecordAt q tb" for q by (simp add: GetChunkRecordAt_def reads_fields [OF rd(1)])
  have "stored tb' k = stored tb k" if "k \<noteq> cur_key tb" for k
  proof -
    have "ix_find k (tb_index tb') = ix_find k (tb_index tb)" using rs that unfolding read_step_def by blast
    then show ?thesis unfolding stored_def h reads_fields(1) [OF rd(1)] by (rule arg_cong)
  qed
  with that r rd show thesis by (simp add: slices_bytes_def)
qed

lemma fragment_kept:
  assumes rd: "reads_only tb tb'" and kept: "\<And>k. k \<noteq> key_at q tb \<Longrightarrow> stored tb' k = stored tb k" and inv: "reader_inv tb"
    and p: "p < length (tb_index tb)" "q < length (tb_index tb)" "p \<noteq> q" and f: "fragment_at tb p d"
  shows "fragment_at tb' p d"
  using f kept [OF keys_apart [OF inv p]] reads_index(3) [OF rd p(1)] by (simp add: fragment_at_def)

text \<open>The chunks of a packet, each with a fragment to read.\<close>

definition to_read :: "TraceBuffer \<Rightarrow> SequenceIterator \<Rightarrow> u8 list list \<Rightarrow> bool" where
  "to_read tb it ds \<longleftrightarrow> (\<forall>j < length ds. it_valid (moves tb j it) \<and> fragment_at tb (it_cur (moves tb j it)) (ds ! j) \<and>
     cm_num_fragments (meta_at (it_cur (moves tb j it)) tb) \<noteq> 0)"

lemma to_read_next:
  assumes ok: "reader_ok tb" and t: "to_read tb (tb_read_iter tb) (d # ds)"
    and rd: "reads_only tb tb'" and kept: "\<And>k. k \<noteq> cur_key tb \<Longrightarrow> stored tb' k = stored tb k"
  shows "to_read tb' (MoveNext tb (tb_read_iter tb)) ds"
  unfolding to_read_def
proof (intro allI impI)
  fix j assume j: "j < length ds"
  let ?it = "tb_read_iter tb"
  let ?q = "it_cur (moves tb (Suc j) ?it)"
  have i: "reader_inv tb" "it_ok tb ?it" using ok by (simp_all add: reader_ok_def)
  have at: "it_valid (moves tb (Suc j) ?it)" "fragment_at tb ?q (ds ! j)" "cm_num_fragments (meta_at ?q tb) \<noteq> 0"
    using t [unfolded to_read_def, rule_format, of "Suc j"] j by simp_all
  have valid: "\<forall>i \<le> Suc j. it_valid (moves tb i ?it)" using t j by (auto simp: to_read_def)
  have q: "?q < length (tb_index tb)" using it_ok_cur [OF moves_ok [OF i(2)] at(1)] .
  have p: "it_cur ?it < length (tb_index tb)" using it_ok_cur [OF i(2)] valid [rule_format, of 0] by simp
  have move: "moves tb' j (MoveNext tb ?it) = moves tb (Suc j) ?it"
    using reads_moves [OF rd MoveNext_ok [OF i(2)]] by (simp add: funpow_swap1)
  have "fragment_at tb' ?q (ds ! j)"
    by (rule fragment_kept [OF rd kept i(1) q p moves_apart [OF valid] at(2)]) (simp_all add: cur_key_def)
  with at(1,3) reads_index(3) [OF rd q]
  show "it_valid (moves tb' j (MoveNext tb ?it)) \<and> fragment_at tb' (it_cur (moves tb' j (MoveNext tb ?it))) (ds ! j) \<and>
      cm_num_fragments (meta_at (it_cur (moves tb' j (MoveNext tb ?it))) tb') \<noteq> 0"
    unfolding move by (simp add: core_def)
qed

lemma ra_commit_fragments:
  "reader_ok tb \<Longrightarrow> to_read tb (tb_read_iter tb) (d # ds) \<Longrightarrow>
   \<exists>sl tb'. ra_commit (it_cur (moves tb (length ds) (tb_read_iter tb))) pc pkt tb = Some (pc, pkt @ sl, tb') \<and>
     slices_bytes tb sl = concat (d # ds) \<and> reads_only tb tb' \<and> tb_read_iter tb' = moves tb (length ds) (tb_read_iter tb)"
proof (induction ds arbitrary: d tb pc pkt)
  case Nil
  let ?it = "tb_read_iter tb"
  have v: "it_valid ?it" "fragment_at tb (it_cur ?it) d" "cm_num_fragments (meta_at (it_cur ?it) tb) \<noteq> 0"
    using Nil.prems(2) by (simp_all add: to_read_def)
  obtain s tb' where r: "ReadNextPacketInChunk (cur_key tb) tb = Some (kSucceeded, [s], tb')" "slices_bytes tb [s] = d" "reads_only tb tb'"
    "tb_read_iter tb' = ?it" "\<forall>k. k \<noteq> cur_key tb \<longrightarrow> stored tb' k = stored tb k" by (rule one_fragment [OF Nil.prems(1) v(1,2)])
  with v show ?case by (subst ra_commit_step) (auto simp: commit_read_def)
next
  case (Cons d2 ds)
  let ?it = "tb_read_iter tb"
  have v: "it_valid ?it" "fragment_at tb (it_cur ?it) d" "cm_num_fragments (meta_at (it_cur ?it) tb) \<noteq> 0"
    using Cons.prems(2) [unfolded to_read_def, rule_format, of 0] by simp_all
  have i: "reader_inv tb" "it_ok tb ?it" using Cons.prems(1) by (simp_all add: reader_ok_def)
  obtain s tb1 where r: "ReadNextPacketInChunk (cur_key tb) tb = Some (kSucceeded, [s], tb1)" "slices_bytes tb [s] = d" "reads_only tb tb1"
    "tb_read_iter tb1 = ?it" "\<forall>k. k \<noteq> cur_key tb \<longrightarrow> stored tb1 k = stored tb k" by (rule one_fragment [OF Cons.prems(1) v(1,2)])
  let ?tb2 = "tb1\<lparr>tb_read_iter := MoveNext tb1 ?it\<rparr>"
  have r2: "reads_only tb ?tb2" by (rule reads_iter(1) [OF r(3)])
  have it2: "tb_read_iter ?tb2 = MoveNext tb ?it" using reads_MoveNext [OF r(3) i(2)] by simp
  have ok2: "reader_ok ?tb2" by (rule reads_reader_ok [OF r2 i(1)]) (simp add: it2 MoveNext_ok [OF i(2)] del: TraceBuffer.simps)
  have same2: "stored ?tb2 k = stored tb k" if "k \<noteq> cur_key tb" for k
  proof -
    have "stored ?tb2 k = stored tb1 k" by (rule same_buffer; simp)
    with r(5) [THEN spec, THEN mp, OF that] show ?thesis by simp
  qed
  have "to_read ?tb2 (MoveNext tb ?it) (d2 # ds)" by (rule to_read_next [OF Cons.prems r2 same2])
  then have t2: "to_read ?tb2 (tb_read_iter ?tb2) (d2 # ds)" by (simp only: it2)
  have path: "moves ?tb2 n (tb_read_iter ?tb2) = moves tb (Suc n) ?it" for n
    unfolding it2 using reads_moves [OF r2 MoveNext_ok [OF i(2)], of n] by (simp add: funpow_swap1)
  let ?goal = "it_cur (moves tb (length (d2 # ds)) ?it)"
  have "\<forall>j \<le> length (d2 # ds). it_valid (moves tb j ?it)" using Cons.prems(2) by (simp add: to_read_def)
  then have ne: "it_cur ?it \<noteq> ?goal" using moves_apart [of "length (d2 # ds)" tb ?it] by simp
  obtain sl tb' where t: "ra_commit ?goal pc (pkt @ [s]) ?tb2 = Some (pc, (pkt @ [s]) @ sl, tb')" "slices_bytes ?tb2 sl = concat (d2 # ds)"
    "reads_only ?tb2 tb'" "tb_read_iter tb' = moves tb (length (d2 # ds)) ?it"
    using Cons.IH [OF ok2 t2, of pc "pkt @ [s]"] unfolding path by auto
  have "ra_commit ?goal pc pkt tb = Some (pc, pkt @ (s # sl), tb')"
    using v(1,3) r(1,4) ne t(1) by (subst ra_commit_step) (simp add: commit_read_def)
  moreover have "slices_bytes tb (s # sl) = concat (d # d2 # ds)"
    using r(2) t(2) unfolding slices_bytes_reads [OF r2] by (simp add: slices_bytes_def)
  ultimately show ?case using reads_trans [OF r2 t(3)] t(4) by blast
qed

lemma ReadAhead_joins:
  assumes ok: "reader_ok tb" and sp: "spread tb (tb_read_iter tb) ds" and first: "cm_num_fragments (meta_at (it_cur (tb_read_iter tb)) tb) \<noteq> 0"
  shows "\<exists>sl tb'. ReadAhead [] tb = Some (kSucceededReturnSlices, sl, tb') \<and> slices_bytes tb sl = concat ds \<and> reads_only tb tb'"
proof -
  let ?it = "tb_read_iter tb"
  let ?m = "\<lambda>j. meta_at (it_cur (moves tb j ?it)) tb"
  have len: "2 \<le> length ds" using sp by (simp add: spread_def)
  then obtain d d2 ds' where ds: "ds = d # d2 # ds'" by (cases ds; cases "tl ds") auto
  have chunk: "it_valid (moves tb j ?it) \<and> fragment_at tb (it_cur (moves tb j ?it)) (ds ! j)" if "j < length ds" for j
    using sp that by (simp add: spread_def)
  have later: "continued (?m j) \<and> (inner_chunk (?m j) \<longleftrightarrow> Suc j < length ds)" if "0 < j" "j < length ds" for j
    using sp that by (simp add: spread_def)
  have "\<forall>j \<le> length ds'. it_valid (moves tb j (MoveNext tb ?it)) \<and> continued (meta_at (it_cur (moves tb j (MoveNext tb ?it))) tb) \<and>
      (inner_chunk (meta_at (it_cur (moves tb j (MoveNext tb ?it))) tb) \<longleftrightarrow> j < length ds')"
    using chunk [of "Suc j" for j] later [of "Suc j" for j] by (auto simp: ds funpow_swap1)
  then have "ra_scan tb (MoveNext tb ?it) (chunk_id_at (it_cur ?it) tb + 1) = Some (Some (moves tb (length ds') (MoveNext tb ?it)))"
    by (rule ra_scan_finds) (use chunk [of 1] MoveNext_id [of tb ?it] in \<open>simp add: ds\<close>)
  then have scan: "ra_scan tb (MoveNext tb ?it) (chunk_id_at (it_cur ?it) tb + 1) = Some (Some (moves tb (length (d2 # ds')) ?it))"
    by (simp add: funpow_swap1)
  have "cm_num_fragments (?m j) \<noteq> 0" if "j < length ds" for j
    using that first later [of j] by (cases j) (auto simp: continued_def)
  with chunk have "to_read tb ?it (d # d2 # ds')" by (simp add: to_read_def flip: ds)
  from ra_commit_fragments [OF ok this, of False "[]"] obtain sl tb' where
    "ra_commit (it_cur (moves tb (length (d2 # ds')) ?it)) False [] tb = Some (False, sl, tb')" "slices_bytes tb sl = concat ds" "reads_only tb tb'"
    unfolding ds by auto
  with scan show ?thesis by (simp add: ReadAhead_def del: funpow.simps)
qed

text \<open>The reader, standing on the first fragment.\<close>

lemma spread_joined:
  assumes run: "tb_run True tb" and sp: "spread tb (tb_read_iter tb) ds" and m: "meta_at (it_cur (tb_read_iter tb)) tb = m"
    and act: "action_for m = kTryReadAhead" "cm_num_fragments_read m < cm_num_fragments m" "\<not> flag (cm_flags m) kChunkNeedsPatching"
  shows "\<exists>packet props dropped tb'. ReadNextTracePacket [] tb = Some (True, packet, props, dropped, tb') \<and> slices_bytes tb packet = concat ds \<and>
    props = \<lparr>producer_id_trusted = fst (cur_key tb), producer_uid_trusted = cm_trusted_uid m, sp_writer_id = fst (snd (cur_key tb))\<rparr>"
proof -
  have ok: "reader_ok tb" by (rule tb_run_ok [OF run TrueI])
  have "\<forall>j < length ds. it_valid (moves tb j (tb_read_iter tb))" "0 < length ds" using sp by (auto simp: spread_def)
  from this(1) [rule_format, of 0] this(2) have v: "it_valid (tb_read_iter tb)" by simp
  obtain sl tb1 where r: "ReadAhead [] tb = Some (kSucceededReturnSlices, sl, tb1)" "slices_bytes tb sl = concat ds"
    using ReadAhead_joins [OF ok sp] m act(2) by auto
  have "\<exists>tb'. read_fragments d [] tb = Some (True, d, sl, tb')" for d
    using v m act r(1) by (subst read_fragments.simps) (simp add: Let_def)
  then obtain tb' where "read_fragments (if cm_num_fragments_read m > 0 then cm_last_read_packet_skipped m else True) [] tb =
      Some (True, if cm_num_fragments_read m > 0 then cm_last_read_packet_skipped m else True, sl, tb')" by blast
  then have "ReadNextTracePacket [] tb = Some (True, sl,
      \<lparr>producer_id_trusted = fst (cur_key tb), producer_uid_trusted = cm_trusted_uid m, sp_writer_id = fst (snd (cur_key tb))\<rparr>,
      if cm_num_fragments_read m > 0 then cm_last_read_packet_skipped m else True, tb')"
    using v act(3) by (simp add: ReadNextTracePacket_def read_packets_turn packet_turn_def Let_def m del: if_True)
  with r(2) show ?thesis by blast
qed

subsection \<open>Packets whose chunks are all stored\<close>

text \<open>The next chunk of a writer, by its id, is the next one in the sorted index, so the iterator moves to it.\<close>

lemma key_between:
  assumes "(a, b, c) < x" and "x < (a :: u16, b :: u16, d :: u32)" and "unat d = unat c + 1"
  shows False
proof -
  obtain x1 x2 x3 where x: "x = (x1, x2, x3)" by (metis prod_cases3)
  have "c < x3" "x3 < d" using assms(1,2) by (auto simp: x less_prod_def')
  then have "unat c < unat x3" "unat x3 < unat d" by (simp_all add: word_less_nat_alt)
  with assms(3) show False by simp
qed

lemma keys_increase:
  assumes "reader_inv tb" "p < q" "q < length (tb_index tb)"
  shows "key_at p tb < key_at q tb"
proof -
  have "sorted (map fst (tb_index tb))" using assms(1) by (simp add: reader_inv_def)
  from sorted_nth_mono [OF this, of p q] have "key_at p tb \<le> key_at q tb" using assms(2,3) by (simp add: key_at_def)
  moreover have "key_at p tb \<noteq> key_at q tb" using assms by (intro keys_apart) simp_all
  ultimately show ?thesis by simp
qed

lemma MoveNext_to_successor:
  assumes inv: "reader_inv tb" and it: "it_ok tb it" "it_valid it" and k: "key_at (it_cur it) tb = (p, w, c)"
    and c: "unat c + 1 < 2 ^ 32" "c \<noteq> it_wrapping_id it" and complete: "cm_complete (meta_at (it_cur it) tb)"
    and succ: "ix_find (p, w, c + 1) (tb_index tb) = Some m"
  shows "it_valid (MoveNext tb it)" "key_at (it_cur (MoveNext tb it)) tb = (p, w, c + 1)"
    "meta_at (it_cur (MoveNext tb it)) tb = m"
proof -
  let ?q = "it_cur it"
  have q: "?q < length (tb_index tb)" using it_ok_cur [OF it] .
  have u: "unat (c + 1) = unat c + 1" using c(1) by (simp add: unat_add_lem [THEN iffD1])
  have lt: "(p, w, c) < (p, w, c + 1)" using u by (simp add: less_prod_def' word_less_nat_alt)
  obtain n where n: "n < length (tb_index tb)" "tb_index tb ! n = ((p, w, c + 1), m)"
    using map_of_SomeD [OF succ [unfolded ix_find_def]] by (auto simp: in_set_conv_nth)
  then have kn: "key_at n tb = (p, w, c + 1)" "meta_at n tb = m" by (simp_all add: key_at_def meta_at_def)
  have qn: "?q < n"
  proof (rule ccontr)
    assume "\<not> ?q < n"
    then consider "n = ?q" | "n < ?q" by linarith
    then show False
    proof cases
      case 1
      with k kn lt show False by simp
    next
      case 2
      from keys_increase [OF inv 2 q] have "(p, w, c + 1) < (p, w, c)" unfolding k kn(1) .
      with lt show False by (metis order.asym)
    qed
  qed
  have n1: "n = ?q + 1"
  proof (rule ccontr)
    assume "n \<noteq> ?q + 1"
    with qn have "?q + 1 < n" by simp
    with keys_increase [OF inv this n(1)] keys_increase [OF inv, of ?q "?q + 1"] n(1) k kn key_between [of p w c "key_at (?q + 1) tb" "c + 1"] u
    show False by simp
  qed
  have "n < it_seq_end it"
  proof (rule ccontr)
    assume "\<not> n < it_seq_end it"
    moreover have "?q < it_seq_end it" using it by (auto simp: it_ok_def it_valid_def)
    ultimately have "writer_at ?q tb < writer_at n tb" using it(1) n(1) unfolding it_ok_def writer_border_def by auto
    then show False by (simp add: writer_at_def k kn)
  qed
  then have "MoveNext tb it = it\<lparr>it_cur := n\<rparr>" "n \<noteq> it_seq_end it"
    using it(2) c(2) complete k kn n1 by (simp_all add: MoveNext_def Let_def chunk_id_at_def it_valid_def)
  with kn show "it_valid (MoveNext tb it)" "key_at (it_cur (MoveNext tb it)) tb = (p, w, c + 1)"
    "meta_at (it_cur (MoveNext tb it)) tb = m" by (simp_all add: it_valid_def)
qed

text \<open>\<open>packet_stored tb ds\<close>: the reader stands on a chunk, patched, whose last fragment is the next to be read and goes on in the
  next chunk; the following chunks of the writer, by their ids, are stored, nothing of them has been read, each but the last is
  only a fragment that goes on, and all but the last are complete. The ids do not wrap around, and the last id the writer
  used when the reading of it began (\<open>wrapping_id\<close>) is not passed.\<close>

definition opens_packet :: "ChunkMeta \<Rightarrow> bool" where
  "opens_packet m \<longleftrightarrow> cm_num_fragments_read m + 1 = cm_num_fragments m \<and> flag (cm_flags m) kLastPacketContinuesOnNextChunk \<and>
     (cm_num_fragments_read m = 0 \<longrightarrow> \<not> flag (cm_flags m) kFirstPacketContinuesFromPrevChunk) \<and> \<not> flag (cm_flags m) kChunkNeedsPatching"

definition nth_key :: "chunk_key \<Rightarrow> nat \<Rightarrow> chunk_key" where
  "nth_key k j = (fst k, fst (snd k), snd (snd k) + word_of_nat j)"

definition packet_stored :: "TraceBuffer \<Rightarrow> u8 list list \<Rightarrow> bool" where
  "packet_stored tb ds \<longleftrightarrow> 2 \<le> length ds \<and> [] \<notin> set ds \<and> it_valid (tb_read_iter tb) \<and>
     unat (snd (snd (cur_key tb))) + length ds \<le> 2 ^ 32 \<and>
     (\<exists>m pre rest. stored tb (cur_key tb) = Some (m, pre @ frame (ds ! 0) @ rest) \<and> cm_cur_fragment_offset m = length pre \<and> opens_packet m) \<and>
     (\<forall>j < length ds. 0 < j \<longrightarrow> (\<exists>m rest. stored tb (nth_key (cur_key tb) j) = Some (m, frame (ds ! j) @ rest) \<and>
        cm_num_fragments_read m = 0 \<and> cm_cur_fragment_offset m = 0 \<and> continued m \<and> (inner_chunk m \<longleftrightarrow> Suc j < length ds))) \<and>
     (\<forall>j. Suc j < length ds \<longrightarrow> snd (snd (nth_key (cur_key tb) j)) \<noteq> it_wrapping_id (tb_read_iter tb) \<and>
        (\<exists>m bs. stored tb (nth_key (cur_key tb) j) = Some (m, bs) \<and> cm_complete m))"

lemma nth_key_0 [simp]: "nth_key k 0 = k"
  by (simp add: nth_key_def)

lemma stored_index: "stored tb k = Some (m, bs) \<Longrightarrow> ix_find k (tb_index tb) = Some m"
  by (auto simp: stored_def split: option.splits)

lemma stored_path:
  assumes ok: "reader_ok tb" and st: "packet_stored tb ds" and j: "j < length ds"
  shows "it_valid (moves tb j (tb_read_iter tb)) \<and> key_at (it_cur (moves tb j (tb_read_iter tb))) tb = nth_key (cur_key tb) j"
  using j
proof (induction j)
  case 0
  with st show ?case by (simp add: packet_stored_def cur_key_def)
next
  case (Suc j)
  let ?it = "moves tb j (tb_read_iter tb)"
  have i: "reader_inv tb" "it_ok tb ?it" using ok moves_ok by (simp_all add: reader_ok_def)
  have IH: "it_valid ?it" "key_at (it_cur ?it) tb = nth_key (cur_key tb) j" using Suc by simp_all
  obtain m bs where m: "stored tb (nth_key (cur_key tb) j) = Some (m, bs)" "cm_complete m"
    and w: "snd (snd (nth_key (cur_key tb) j)) \<noteq> it_wrapping_id (tb_read_iter tb)"
    using st Suc.prems unfolding packet_stored_def by blast
  have me: "meta_at (it_cur ?it) tb = m"
    using key_find [OF i(1) it_ok_cur [OF i(2) IH(1)]] stored_index [OF m(1)] by (simp add: IH(2))
  have "0 < Suc j" by simp
  then obtain m' rest where "stored tb (nth_key (cur_key tb) (Suc j)) = Some (m', frame (ds ! Suc j) @ rest)"
    using st Suc.prems unfolding packet_stored_def by blast
  then have nx: "ix_find (nth_key (cur_key tb) (Suc j)) (tb_index tb) = Some m'" by (rule stored_index)
  let ?c = "snd (snd (cur_key tb)) + word_of_nat j"
  have room: "unat (snd (snd (cur_key tb))) + length ds \<le> 2 ^ 32" using st by (simp add: packet_stored_def)
  then have "unat ?c = unat (snd (snd (cur_key tb))) + j"
    using Suc.prems by (simp add: unat_word_ariths unat_of_nat)
  then have c: "unat ?c + 1 < 2 ^ 32" using room Suc.prems by simp
  have k: "key_at (it_cur ?it) tb = (fst (cur_key tb), fst (snd (cur_key tb)), ?c)" using IH(2) by (simp add: nth_key_def)
  have s: "nth_key (cur_key tb) (Suc j) = (fst (cur_key tb), fst (snd (cur_key tb)), ?c + 1)" by (simp add: nth_key_def add.commute add.left_commute)
  have "?c \<noteq> it_wrapping_id ?it" "cm_complete (meta_at (it_cur ?it) tb)" using w m(2) me by (simp_all add: nth_key_def moves_fields)
  note mv = MoveNext_to_successor [OF i(1,2) IH(1) k c this nx [unfolded s]]
  then show ?case by (simp add: s)
qed

lemma stored_spread:
  assumes ok: "reader_ok tb" and st: "packet_stored tb ds"
  shows "spread tb (tb_read_iter tb) ds"
  unfolding spread_def
proof (intro conjI allI impI)
  let ?it = "tb_read_iter tb"
  show "2 \<le> length ds" using st by (simp add: packet_stored_def)
  fix j assume j: "j < length ds"
  note path = stored_path [OF ok st j]
  then show "it_valid (moves tb j ?it)" ..
  have ne: "ds ! j \<noteq> []" using st j unfolding packet_stored_def by (metis nth_mem)
  show "fragment_at tb (it_cur (moves tb j ?it)) (ds ! j)"
  proof (cases "j = 0")
    case True
    with st ne show ?thesis unfolding fragment_at_def packet_stored_def cur_key_def by auto
  next
    case False
    then obtain m rest where "stored tb (nth_key (cur_key tb) j) = Some (m, frame (ds ! j) @ rest)" "cm_cur_fragment_offset m = 0"
      using st j unfolding packet_stored_def by blast
    with ne path show ?thesis unfolding fragment_at_def by (metis append_Nil list.size(3))
  qed
  assume "0 < j"
  then obtain m rest where m: "stored tb (nth_key (cur_key tb) j) = Some (m, frame (ds ! j) @ rest)" "continued m"
    "inner_chunk m \<longleftrightarrow> Suc j < length ds"
    using st j unfolding packet_stored_def by blast
  have "reader_inv tb" "it_cur (moves tb j ?it) < length (tb_index tb)"
    using ok it_ok_cur [OF moves_ok] path by (simp_all add: reader_ok_def)
  from key_find [OF this] stored_index [OF m(1)] path have "meta_at (it_cur (moves tb j ?it)) tb = m" by simp
  with m show "continued (meta_at (it_cur (moves tb j ?it)) tb)" "inner_chunk (meta_at (it_cur (moves tb j ?it)) tb) \<longleftrightarrow> Suc j < length ds"
    by simp_all
qed

text \<open>C5 fragments_joined: when the reader stands on a patched chunk whose last fragment is the next to be read and begins a packet that goes on
  in the following chunks of the writer, and those chunks (the ids after it, without a gap) are in the buffer, patched, and nothing of
  them has been read yet, the next packet the reader gives back is the packet put together from all its fragments, under the
  name of that writer. (A chunk that arrives after the reader has passed over its successor does not meet this: the
  successor's first fragment has been read then.)\<close>

theorem fragments_joined:
  assumes run: "tb_run True tb" and st: "packet_stored tb ds"
  shows "\<exists>packet props dropped tb'. ReadNextTracePacket [] tb = Some (True, packet, props, dropped, tb') \<and> slices_bytes tb packet = concat ds \<and>
    props = \<lparr>producer_id_trusted = fst (cur_key tb),
      producer_uid_trusted = cm_trusted_uid (meta_at (it_cur (tb_read_iter tb)) tb), sp_writer_id = fst (snd (cur_key tb))\<rparr>"
proof -
  have ok: "reader_ok tb" by (rule tb_run_ok [OF run TrueI])
  note sp = stored_spread [OF ok st]
  let ?m = "meta_at (it_cur (tb_read_iter tb)) tb"
  have v: "it_valid (tb_read_iter tb)" using st by (simp add: packet_stored_def)
  obtain m pre rest where m: "stored tb (cur_key tb) = Some (m, pre @ frame (ds ! 0) @ rest)" "opens_packet m"
    using st unfolding packet_stored_def by blast
  have me: "?m = m" by (rule cur_meta [OF ok v m(1)])
  have act: "action_for ?m = kTryReadAhead" "cm_num_fragments_read ?m < cm_num_fragments ?m" "\<not> flag (cm_flags ?m) kChunkNeedsPatching"
    using m(2) by (auto simp: me opens_packet_def action_for_def)
  show ?thesis by (rule spread_joined [OF run sp refl act])
qed

text \<open>Two chunks with one packet in two parts.\<close>

definition two_commits :: "TraceBuffer option" where
  "two_commits =
     Option.bind (CopyChunkUntrusted 1 7 2 5 1 (ucast kLastPacketContinuesOnNextChunk) True (frames [[8, 1]]) (fresh_buffer kOverwrite 3))
       (CopyChunkUntrusted 1 7 2 6 1 (ucast kFirstPacketContinuesFromPrevChunk) True (frames [[9]]))"

definition part_meta :: "nat \<Rightarrow> u8 \<Rightarrow> ChunkMeta" where
  "part_meta p fl = make_ChunkMeta p 1 True fl 7"

lemma two_commits_stored:
  "map_option (\<lambda>tb. (stored tb (1, 2, 5), stored tb (1, 2, 6), tb_index tb, tb_read_iter (BeginRead tb))) two_commits =
     Some (Some (part_meta 0 2, frame [8, 1] @ replicate 10 0), Some (part_meta 32 1, frame [9] @ replicate 11 0),
       [((1, 2, 5), part_meta 0 2), ((1, 2, 6), part_meta 32 1)],
       \<lparr>it_seq_begin = 0, it_seq_end = 2, it_cur = 0, it_wrapping_id = 6\<rparr>)"
  by code_simp

theorem fragments_joined_witness:
  "\<exists>tb packet props dropped tb'. tb_run True tb \<and> ReadNextTracePacket [] tb = Some (True, packet, props, dropped, tb') \<and> slices_bytes tb packet = [8, 1, 9]"
proof -
  obtain tb where t: "two_commits = Some tb" "stored tb (1, 2, 5) = Some (part_meta 0 2, frame [8, 1] @ replicate 10 0)"
    "stored tb (1, 2, 6) = Some (part_meta 32 1, frame [9] @ replicate 11 0)"
    "tb_index tb = [((1, 2, 5), part_meta 0 2), ((1, 2, 6), part_meta 32 1)]"
    "tb_read_iter (BeginRead tb) = \<lparr>it_seq_begin = 0, it_seq_end = 2, it_cur = 0, it_wrapping_id = 6\<rparr>"
    using two_commits_stored by auto
  obtain tb1 where c: "CopyChunkUntrusted 1 7 2 5 1 (ucast kLastPacketContinuesOnNextChunk) True (frames [[8, 1]]) (fresh_buffer kOverwrite 3) = Some tb1"
    "CopyChunkUntrusted 1 7 2 6 1 (ucast kFirstPacketContinuesFromPrevChunk) True (frames [[9]]) tb1 = Some tb"
    using t(1) unfolding two_commits_def bind_eq_Some_conv by blast
  have "tb_run False tb1" by (rule tb_run.commit [OF fresh_run _ c(1)]) simp
  then have "tb_run False tb" by (rule tb_run.commit [OF _ _ c(2)]) simp
  then have run: "tb_run True (BeginRead tb)" using tb_run.begin_read by blast
  let ?tb = "BeginRead tb"
  have idx: "tb_index ?tb = tb_index tb" by (simp add: BeginRead_def)
  have same: "stored ?tb = stored tb" by (rule ext) (rule same_buffer; simp add: BeginRead_def)
  have at: "key_at 0 ?tb = (1, 2, 5)" "key_at 1 ?tb = (1, 2, 6)" "meta_at 0 ?tb = part_meta 0 2" "meta_at 1 ?tb = part_meta 32 1"
    by (simp_all add: key_at_def meta_at_def idx t(4))
  have pm: "cm_num_fragments (part_meta p fl) = 1" "cm_num_fragments_read (part_meta p fl) = 0" "cm_flags (part_meta p fl) = fl"
    "cm_cur_fragment_offset (part_meta p fl) = 0" "cm_complete (part_meta p fl)" for p fl by (simp_all add: part_meta_def make_ChunkMeta_def)
  have flags: "flag 2 kFirstPacketContinuesFromPrevChunk = False" "flag 2 kLastPacketContinuesOnNextChunk" "flag 2 kChunkNeedsPatching = False"
    "flag 1 kFirstPacketContinuesFromPrevChunk" "flag 1 kLastPacketContinuesOnNextChunk = False" "flag 1 kChunkNeedsPatching = False"
    by (simp_all add: flag_def kFirstPacketContinuesFromPrevChunk_def kLastPacketContinuesOnNextChunk_def kChunkNeedsPatching_def)
  have two: "(\<forall>j < 2. 0 < j \<longrightarrow> P j) = P 1" "(\<forall>j. Suc j < 2 \<longrightarrow> P j) = P 0" for P :: "nat \<Rightarrow> bool" by (auto simp: less_2_cases_iff)
  have len: "length [[8 :: u8, 1], [9]] = 2" by simp
  have key: "cur_key ?tb = (1, 2, 5)" "nth_key (1, 2, 5) 1 = (1, 2, 6)" by (simp_all add: cur_key_def t(5) at nth_key_def)
  have fr: "frame [8, 1] @ replicate 10 0 = [] @ frame [8, 1] @ replicate 10 0" by simp
  have st0: "\<exists>m pre rest. stored ?tb (1, 2, 5) = Some (m, pre @ frame [8, 1] @ rest) \<and> cm_cur_fragment_offset m = length pre \<and> opens_packet m"
    unfolding same t(2) by (intro exI [of _ "part_meta 0 2"] exI [of _ "[]"] exI [of _ "replicate 10 0"]) (simp add: pm opens_packet_def flags)
  have st1: "\<exists>m rest. stored ?tb (1, 2, 6) = Some (m, frame [9] @ rest) \<and> cm_num_fragments_read m = 0 \<and> cm_cur_fragment_offset m = 0 \<and>
      continued m \<and> \<not> inner_chunk m"
    unfolding same t(3) by (intro exI [of _ "part_meta 32 1"] exI [of _ "replicate 11 0"]) (simp add: pm continued_def inner_chunk_def flags)
  have st: "packet_stored ?tb [[8, 1], [9]]"
    unfolding packet_stored_def len two key nth_key_0 using st0 st1
    by (simp add: t(5) it_valid_def same t(2) pm)
  have "concat [[8 :: u8, 1], [9]] = [8, 1, 9]" by simp
  with fragments_joined [OF run st] run show ?thesis by metis
qed

end
