(* ===== verification/Spec2Isabelle.thy ===== *)
theory Spec2Isabelle
  imports Typed_Decoder Message_Roundtrip Trace_Counters Trace_Async Sdk_Session Merge_Cli Min_Api Packed_Fields
    Trace_Threads Trace_Atomics Circular_Queue String_Splitter Base_Sets Packet_Validator Id_Allocator Shared_Memory_Race
    Base_Strings String_Writer Message_Arena Trace_Buffer_Fragments
begin

text \<open>
  Verification development for vperfetto, a small tracing library for virtual devices that writes
  Perfetto traces of a host process and merges them with the trace of its guest.

  \<^bold>\<open>The program.\<close> The repository has three builds of the library and one tool.
  \<^item> \<^verbatim>\<open>src/vperfetto.cpp\<close> (the small build) writes traces itself: every thread has a \<open>TraceContext\<close> that encodes
    packets with the protozero library into its own buffer; full buffers and the buffers of ended threads go to
    the \<open>TraceStorage\<close>; turning tracing off writes the host file and, when a guest trace is configured, starts a
    background thread that waits for the guest file and joins the two.
  \<^item> \<^verbatim>\<open>src/vperfetto-sdk.cpp\<close> (the SDK build) records with a session of the Perfetto SDK and merges host and guest
    traces packet by packet: identifiers and times of one trace are moved so that both fit into one file.
  \<^item> \<^verbatim>\<open>src/vperfetto-min.cpp\<close> is an API of two calls over the SDK; \<^verbatim>\<open>src/vperfetto_merge.cpp\<close> is the command line tool that
    merges two files.
  \<^item> \<^verbatim>\<open>src/perfetto-min\<close> holds the libraries these use: protozero (wire format, decoder, stream writer, messages) and base.

  \<^bold>\<open>Theories, from the bottom up.\<close>
  \<^item> \<open>VP_Prelude\<close>: integer widths, ranges of a byte memory, little-endian loads and stores, shared hints.
  \<^item> \<open>Proto_Utils\<close>, \<open>Proto_Field\<close>, \<open>Proto_Decoder\<close>, \<open>Typed_Decoder\<close>, \<open>Packed_Fields\<close> (protozero/proto_utils.h, field.h,
    proto_decoder.h, packed_repeated_fields.h and their sources): tags, variable-length integers, ZigZag, the
    tokenising decoder, the decoder that loads all fields at once, packed fields. Memory is a list of bytes, pointers are
    indexes, \<open>None\<close> is a fatal error or an access outside a buffer. Lemmas: encoders and decoders are inverse, the
    decoder stays in its range and makes progress on any input, the one-shot table holds the last value of each field and
    all repeated values in order.
  \<^item> \<open>Stream_Writer\<close>, \<open>Buffer_Delegates\<close>, \<open>Proto_Message\<close>, \<open>Message_Roundtrip\<close> (scattered_stream_writer, scattered_heap_buffer,
    static_buffer, message): a stream writes through chunks it gets from a delegate; the contract of the delegate is a
    locale, interpreted on the heap buffer, the static buffer and the tracer. A message keeps its stack of open nested
    messages with their reserved size fields. Lemmas: what is written is the concatenation of the bytes across chunk
    boundaries, a built message is the encoding of its tree of fields and decodes to it.
  \<^item> \<open>Trace_Config\<close>, \<open>Trace_Context\<close>, \<open>Trace_Emission\<close>, \<open>Trace_Spec\<close>, \<open>Trace_Semantics\<close>, \<open>Trace_Interning\<close>, \<open>Trace_Counters\<close>,
    \<open>Trace_Storage\<close>, \<open>Trace_Async\<close> (vperfetto.cpp): the global configuration, one thread's tracer over the stream and
    message models, its abstract specification as a function to packets, and the storage of all threads. Lemmas: the
    tracer refines the specification (same outcome, same packets, whole in the buffers), the host file of a session
    decodes to every packet once, slices nest, names and counter tracks resolve for a reader, and what the
    background thread writes. The lemmas about packets bound names by 127 bytes: a longer name that meets the end of a
    buffer is split, and its packet with it (\<open>GetNewBuffer\<close>).
  \<^item> \<open>Trace_Threads\<close> (the same file, concurrently): a step relation over threads, the two kinds of locks and the buffers.
    Lemmas: mutual exclusion, conservation of events under every interleaving, and a reachable deadlock.
  \<^item> \<open>Trace_Atomics\<close> (the same file): the counters threads share without a lock, at the grain of single accesses. Lemmas: thread
    ids are unique, one thread writes the packet that starts the sequence, but another can get past the check before it is
    written, and two threads can intern different names under one id.
  \<^item> \<open>Base_Uuid\<close>, \<open>Sdk_Trace\<close>, \<open>Sdk_Merge\<close>, \<open>Sdk_Merge_Spec\<close>, \<open>Double_Arith\<close>, \<open>Sdk_Combine\<close>, \<open>Sdk_Session\<close> (vperfetto-sdk.cpp,
    base/uuid): parsed traces, the walks over identifiers in the state monad, merging, the derivation of the time difference
    with IEEE double arithmetic, and the session state machine. The functions a walk applies are a locale, interpreted
    for finding maxima and for moving identifiers. Lemmas: a walk is a map, merging appends the changed packets to the
    main trace, identifiers of the two traces are apart when they fit, track uuids are renamed consistently, two
    events of the same moment have the same time in the combined trace, and the saving flag is that of a running thread.
  \<^item> \<open>Merge_Cli\<close> (vperfetto_merge.cpp) and \<open>Min_Api\<close> (vperfetto-min.cpp): argument parsing and the two-call API.
  \<^item> \<open>Message_Arena\<close> (message_arena, message_handle): where nested messages live and when they are finalized. Lemmas: the arena is a
    stack whose pointers are distinct (locale \<open>object_stack\<close>); each message is held by one handle or was finalized once.
  \<^item> \<open>Circular_Queue\<close>, \<open>String_Splitter\<close>, \<open>Base_Sets\<close> (containers of base): the ring buffer refines a list, splitting in place yields
    the tokens of a string, a flat set refines a set; the contracts are the locales \<open>fifo\<close> and \<open>set_container\<close>.
  \<^item> \<open>Base_Strings\<close>, \<open>String_Writer\<close> (string_utils, string_view.h, hash.h, string_writer.h): searching, splitting, joining, replacing and
    printing. Lemmas: the search functions agree on strings without zero bytes, splitting and replacing cut at the leftmost
    occurrences that do not overlap, views are ordered as byte lists, printed numbers read back.
  \<^item> Parts of the Perfetto SDK that the SDK build runs (\<^verbatim>\<open>perfetto.cc\<close>, shared_memory_abi.h): \<open>Packet_Validator\<close>, the state machine that
    checks untrusted packets, equal to a grammar of whole fields for every cutting into slices; \<open>Id_Allocator\<close>, the pool of
    ids; \<open>Shared_Memory_Abi\<close>, the layout word of a page of the shared buffer as an array of chunk states, and where the chunks lie;
    \<open>Shared_Memory_Race\<close>, producers and the service changing such a word by compare and exchange: as long as every thread
    keeps to the protocol a chunk has at most one owner under every interleaving; a producer that overwrites the word makes
    a check of the service fail.
  \<^item> The central trace buffer of the service (\<^verbatim>\<open>perfetto.cc\<close>, class \<open>TraceBuffer\<close>), in ten theories: \<open>Trace_Buffer\<close>, its state and
    \<open>CopyChunkUntrusted\<close>; \<open>Trace_Buffer_Inv\<close>, the chain of records in the ring and what each write does to it; \<open>Trace_Buffer_Read\<close>,
    patching and reading; \<open>Trace_Buffer_Packets\<close> and \<open>Trace_Buffer_Reader\<close>, the measures by which the loops of the reader end;
    \<open>Trace_Buffer_Patch\<close>; \<open>Trace_Buffer_Runs\<close>, the relation \<open>tb_run\<close> of all runs and its invariant; \<open>Trace_Buffer_Spec\<close>,
    \<open>Trace_Buffer_Reads\<close> and \<open>Trace_Buffer_Fragments\<close>, the properties. Lemmas: chunks never overlap, a commit loses exactly the chunks in its place and in discard mode
    no unread one, patches stay in their chunk, every read returns slices of the reported writer, reading ends, what is
    framed into a chunk is read back, packets over several chunks are put together when their pieces are stored in order, and the one case in which a commit ends the process.

  \<^bold>\<open>How state and operations correspond.\<close> Classes and structs are records with the fields of the code, enums are datatypes,
  integers are words of their width. An operation has the code's name where it is free, else a short
  prefix; it returns the changed state, and \<open>None\<close> where the code aborts or leaves its memory. File sizes, clocks,
  environment variables, what the SDK recorded and the seed of the random generator are arguments.

  \<^bold>\<open>Loops and fuel.\<close> Loops are recursive functions with a measure. The wait of the background thread is bounded by the code itself
  (20 looks). Loops whose end is a theorem and not plain from their text (the search of \<open>Id_Allocator\<close>, the loops of \<open>SplitString\<close> and
  \<open>ReplaceAll\<close>, the reader of the trace buffer) are partial functions, shown to return. The client loops over packed fields and string tokens take fuel because the client decides when to stop;
  the theorems show that one more than the size of the input is enough.

  \<^bold>\<open>Parameters.\<close> The generated protobuf library parses and serialises traces in the SDK build; it appears as the
  arguments \<open>parse\<close> and \<open>serialize\<close>, and only theorems about the merged file's contents assume that parsing inverts
  serialising, with witnesses that instantiate both.

  \<^bold>\<open>Not modelled.\<close> The rest of the Perfetto SDK (\<^verbatim>\<open>perfetto.cc\<close>, \<^verbatim>\<open>perfetto.h\<close>, a third-party amalgamation: the service, its IPC, the
  generated messages); the platform layer (logging, sockets, subprocesses, paged memory); the protoc plugin, which is a
  client of the protobuf compiler's library; the public SDK headers that are only included; optional.h and the number
  parsers of string_utils.h, which call the C library;
  messages printed to stderr. The sequential theories let one call finish before the next starts; what interleaving
  changes is in \<open>Trace_Threads\<close>, which abstracts a call to one event, and \<open>Trace_Atomics\<close>, which leaves out the packets.
\<close>

end
